(* ===== verification/XPrelude.thy ===== *)
theory XPrelude
  imports Main "HOL-Library.Word"
begin

text \<open>
  Shared vocabulary of the development.

  The configuration modelled is the one of a release build on 64 bit Linux without
  \<open>XSTL_UNICODE\<close>: \<open>uint\<close> is \<open>uint64\<close>, \<open>unsigned int\<close> has 32 bits, the machine is
  little endian, \<open>ASSERT\<close> compiles to nothing and \<open>CHECK\<close> throws (types.h).
  A length or an index of an object that exists in memory is a \<open>nat\<close>; arithmetic that
  can wrap around is written on words.

  Exceptions are values: \<open>xerr\<close> has one constructor for each way the modelled code
  throws, and an operation that may throw returns \<open>xerr + 'a\<close>.
\<close>

unbundle bit_operations_syntax

type_synonym uint8 = "8 word"
type_synonym uint16 = "16 word"
type_synonym uint32 = "32 word"
type_synonym uint64 = "64 word"

datatype xerr =
    EXCEPTION_FAILED
  | EXCEPTION_OUT_OF_RANGE
  | EXCEPTION_OUT_OF_MEM
  | EXCEPTION_FORMAT_ERROR
  | EXCEPTION_READ_ERROR
  | EXCEPTION_WRITE_ERROR
  | EXCEPTION_SEEK_ERROR
  | EXCEPTION_ASSERTION
  | COMPRESSION_ERROR
  | PARSER_EXCEPTION
  | BRACES_EXCEPTION uint8 uint8
  | UNDEFINED_BEHAVIOUR

type_synonym 'a res = "xerr + 'a"

text \<open>Inversion and evaluation rules for results are collected here.\<close>

named_theorems res_simps

definition bind_res :: "'a res \<Rightarrow> ('a \<Rightarrow> 'b res) \<Rightarrow> 'b res" where
  "bind_res m f = (case m of Inl e \<Rightarrow> Inl e | Inr x \<Rightarrow> f x)"

lemma bind_res_Inl [simp]: "bind_res (Inl e) f = Inl e"
  by (simp add: bind_res_def)

lemma bind_res_Inr [simp]: "bind_res (Inr x) f = f x"
  by (simp add: bind_res_def)

lemma bind_res_eq_Inr [res_simps]: "bind_res m f = Inr y \<longleftrightarrow> (\<exists>x. m = Inr x \<and> f x = Inr y)"
  by (cases m) auto

lemma bind_res_eq_Inl [res_simps]:
  "bind_res m f = Inl e \<longleftrightarrow> m = Inl e \<or> (\<exists>x. m = Inr x \<and> f x = Inl e)"
  by (cases m) auto

text \<open>The macro \<open>CHECK\<close> of types.h.\<close>

definition CHECK :: "bool \<Rightarrow> unit res" where
  "CHECK b = (if b then Inr () else Inl EXCEPTION_ASSERTION)"

lemma CHECK_True [simp]: "CHECK True = Inr ()"
  by (simp add: CHECK_def)

lemma CHECK_False [simp]: "CHECK False = Inl EXCEPTION_ASSERTION"
  by (simp add: CHECK_def)

lemma CHECK_eq_Inr [res_simps]: "CHECK b = Inr u \<longleftrightarrow> b"
  by (simp add: CHECK_def)

lemma CHECK_eq_Inl [res_simps]: "CHECK b = Inl e \<longleftrightarrow> \<not> b \<and> e = EXCEPTION_ASSERTION"
  by (auto simp: CHECK_def)

subsection \<open>Memory copies\<close>

text \<open>
  \<open>memcpy (dst + off, src, n)\<close> on byte buffers that are lists: the first \<open>n\<close> bytes of
  \<open>src\<close> replace the bytes \<open>off .. off + n - 1\<close> of \<open>dst\<close>. A copy that does not fit is
  undefined behaviour in C; the model is only used where it fits, which the invariants show.
\<close>

definition memcpy_at :: "'a list \<Rightarrow> nat \<Rightarrow> 'a list \<Rightarrow> nat \<Rightarrow> 'a list" where
  "memcpy_at dst off src n = take off dst @ take n src @ drop (off + n) dst"

lemma length_memcpy_at [simp]:
  "off + n \<le> length dst \<Longrightarrow> n \<le> length src \<Longrightarrow> length (memcpy_at dst off src n) = length dst"
  by (simp add: memcpy_at_def)

lemma take_memcpy_at:
  "off \<le> length dst \<Longrightarrow> n \<le> length src \<Longrightarrow>
     take (off + n) (memcpy_at dst off src n) = take off dst @ take n src"
  by (simp add: memcpy_at_def)

lemma memcpy_at_0 [simp]: "off \<le> length dst \<Longrightarrow> memcpy_at dst off src 0 = dst"
  by (simp add: memcpy_at_def)

lemma nth_memcpy_at:
  assumes "off + n \<le> length dst" and "n \<le> length src" and "i < length dst"
  shows "memcpy_at dst off src n ! i =
           (if off \<le> i \<and> i < off + n then src ! (i - off) else dst ! i)"
  using assms by (auto simp: memcpy_at_def nth_append min_def)

subsection \<open>Lists\<close>

lemma take_drop_split: "m \<le> n \<Longrightarrow> take m xs @ take (n - m) (drop m xs) = take n xs"
  by (metis take_add le_add_diff_inverse)

lemma foldl_append_map: "foldl (\<lambda>acc x. acc @ [f x]) acc xs = acc @ map f xs"
  by (induction xs arbitrary: acc) auto

end
