(* ===== verification/XEndian.thy ===== *)
theory XEndian
  imports XPrelude
begin

text \<open>
  The marshalling of integers: Source/xStl/data/endian.cpp (\<open>cLittleEndian\<close>,
  \<open>cBigEndian\<close> and the dispatching \<open>cEndian\<close>). A buffer is the list of bytes the
  pointer refers to; a write stores into it by index, as the code does.
\<close>

definition cLittleEndian_readUint64 :: "uint8 list \<Rightarrow> uint64" where
  "cLittleEndian_readUint64 buffer =
     push_bit 56 (ucast (buffer ! 7)) OR
     push_bit 48 (ucast (buffer ! 6)) OR
     push_bit 40 (ucast (buffer ! 5)) OR
     push_bit 32 (ucast (buffer ! 4)) OR
     push_bit 24 (ucast (buffer ! 3)) OR
     push_bit 16 (ucast (buffer ! 2)) OR
     push_bit 8 (ucast (buffer ! 1)) OR
     ucast (buffer ! 0)"

definition cLittleEndian_writeUint64 :: "uint8 list \<Rightarrow> uint64 \<Rightarrow> uint8 list" where
  "cLittleEndian_writeUint64 buffer number =
     buffer[7 := ucast (drop_bit 56 number AND 0xff),
            6 := ucast (drop_bit 48 number AND 0xff),
            5 := ucast (drop_bit 40 number AND 0xff),
            4 := ucast (drop_bit 32 number AND 0xff),
            3 := ucast (drop_bit 24 number AND 0xff),
            2 := ucast (drop_bit 16 number AND 0xff),
            1 := ucast (drop_bit 8 number AND 0xff),
            0 := ucast (number AND 0xff)]"

definition cLittleEndian_readUint32 :: "uint8 list \<Rightarrow> uint32" where
  "cLittleEndian_readUint32 buffer =
     push_bit 24 (ucast (buffer ! 3)) OR
     push_bit 16 (ucast (buffer ! 2)) OR
     push_bit 8 (ucast (buffer ! 1)) OR
     ucast (buffer ! 0)"

definition cLittleEndian_writeUint32 :: "uint8 list \<Rightarrow> uint32 \<Rightarrow> uint8 list" where
  "cLittleEndian_writeUint32 buffer number =
     buffer[3 := ucast (drop_bit 24 number AND 0xff),
            2 := ucast (drop_bit 16 number AND 0xff),
            1 := ucast (drop_bit 8 number AND 0xff),
            0 := ucast (number AND 0xff)]"

definition cLittleEndian_readUint16 :: "uint8 list \<Rightarrow> uint16" where
  "cLittleEndian_readUint16 buffer =
     push_bit 8 (ucast (buffer ! 1)) OR ucast (buffer ! 0)"

definition cLittleEndian_writeUint16 :: "uint8 list \<Rightarrow> uint16 \<Rightarrow> uint8 list" where
  "cLittleEndian_writeUint16 buffer number =
     buffer[1 := ucast (drop_bit 8 number AND 0xff),
            0 := ucast (number AND 0xff)]"

definition cBigEndian_readUint64 :: "uint8 list \<Rightarrow> uint64" where
  "cBigEndian_readUint64 buffer =
     push_bit 56 (ucast (buffer ! 0)) OR
     push_bit 48 (ucast (buffer ! 1)) OR
     push_bit 40 (ucast (buffer ! 2)) OR
     push_bit 32 (ucast (buffer ! 3)) OR
     push_bit 24 (ucast (buffer ! 4)) OR
     push_bit 16 (ucast (buffer ! 5)) OR
     push_bit 8 (ucast (buffer ! 6)) OR
     ucast (buffer ! 7)"

definition cBigEndian_writeUint64 :: "uint8 list \<Rightarrow> uint64 \<Rightarrow> uint8 list" where
  "cBigEndian_writeUint64 buffer number =
     buffer[0 := ucast (drop_bit 56 number AND 0xff),
            1 := ucast (drop_bit 48 number AND 0xff),
            2 := ucast (drop_bit 40 number AND 0xff),
            3 := ucast (drop_bit 32 number AND 0xff),
            4 := ucast (drop_bit 24 number AND 0xff),
            5 := ucast (drop_bit 16 number AND 0xff),
            6 := ucast (drop_bit 8 number AND 0xff),
            7 := ucast (number AND 0xff)]"

definition cBigEndian_readUint32 :: "uint8 list \<Rightarrow> uint32" where
  "cBigEndian_readUint32 buffer =
     push_bit 24 (ucast (buffer ! 0)) OR
     push_bit 16 (ucast (buffer ! 1)) OR
     push_bit 8 (ucast (buffer ! 2)) OR
     ucast (buffer ! 3)"

definition cBigEndian_writeUint32 :: "uint8 list \<Rightarrow> uint32 \<Rightarrow> uint8 list" where
  "cBigEndian_writeUint32 buffer number =
     buffer[0 := ucast (drop_bit 24 number AND 0xff),
            1 := ucast (drop_bit 16 number AND 0xff),
            2 := ucast (drop_bit 8 number AND 0xff),
            3 := ucast (number AND 0xff)]"

definition cBigEndian_readUint16 :: "uint8 list \<Rightarrow> uint16" where
  "cBigEndian_readUint16 buffer =
     push_bit 8 (ucast (buffer ! 0)) OR ucast (buffer ! 1)"

definition cBigEndian_writeUint16 :: "uint8 list \<Rightarrow> uint16 \<Rightarrow> uint8 list" where
  "cBigEndian_writeUint16 buffer number =
     buffer[0 := ucast (drop_bit 8 number AND 0xff),
            1 := ucast (number AND 0xff)]"

text \<open>The dispatch on the endianness of the stream.\<close>

definition cEndian_readUint64 :: "uint8 list \<Rightarrow> bool \<Rightarrow> uint64" where
  "cEndian_readUint64 buffer isLittleEndian =
     (if isLittleEndian then cLittleEndian_readUint64 buffer else cBigEndian_readUint64 buffer)"

definition cEndian_writeUint64 :: "uint8 list \<Rightarrow> uint64 \<Rightarrow> bool \<Rightarrow> uint8 list" where
  "cEndian_writeUint64 buffer number isLittleEndian =
     (if isLittleEndian then cLittleEndian_writeUint64 buffer number
      else cBigEndian_writeUint64 buffer number)"

definition cEndian_readUint32 :: "uint8 list \<Rightarrow> bool \<Rightarrow> uint32" where
  "cEndian_readUint32 buffer isLittleEndian =
     (if isLittleEndian then cLittleEndian_readUint32 buffer else cBigEndian_readUint32 buffer)"

definition cEndian_writeUint32 :: "uint8 list \<Rightarrow> uint32 \<Rightarrow> bool \<Rightarrow> uint8 list" where
  "cEndian_writeUint32 buffer number isLittleEndian =
     (if isLittleEndian then cLittleEndian_writeUint32 buffer number
      else cBigEndian_writeUint32 buffer number)"

definition cEndian_readUint16 :: "uint8 list \<Rightarrow> bool \<Rightarrow> uint16" where
  "cEndian_readUint16 buffer isLittleEndian =
     (if isLittleEndian then cLittleEndian_readUint16 buffer else cBigEndian_readUint16 buffer)"

definition cEndian_writeUint16 :: "uint8 list \<Rightarrow> uint16 \<Rightarrow> bool \<Rightarrow> uint8 list" where
  "cEndian_writeUint16 buffer number isLittleEndian =
     (if isLittleEndian then cLittleEndian_writeUint16 buffer number
      else cBigEndian_writeUint16 buffer number)"

subsection \<open>Bytes of a word\<close>

lemma ff_mask: "(0xff :: 'a::len word) = mask 8"
  by (simp add: mask_eq_exp_minus_1)

lemma ucast_and_ff: "(ucast (x AND 0xff) :: uint8) = ucast (x :: 'a::len word)"
  unfolding ff_mask by (rule bit_word_eqI) (auto simp: bit_simps bit_imp_le_length)

lemma bit_byte_at:
  fixes n :: "'a::len word"
  shows "bit (push_bit k (ucast (ucast (drop_bit k n) :: uint8) :: 'a word)) i \<longleftrightarrow>
           k \<le> i \<and> i < k + 8 \<and> bit n i"
  using bit_imp_le_length [of n i]
  by (auto simp: bit_push_bit_iff bit_unsigned_iff bit_drop_bit_eq)

lemma bit_byte_at_0:
  fixes n :: "'a::len word"
  shows "bit (ucast (ucast n :: uint8) :: 'a word) i \<longleftrightarrow> i < 8 \<and> bit n i"
  by (auto simp: bit_unsigned_iff bit_imp_le_length)

lemmas bit_bytes = bit_or_iff bit_byte_at bit_byte_at_0

lemma length_ge_2D: "2 \<le> length xs \<Longrightarrow> \<exists>a b ys. xs = a # b # ys"
  by (auto simp: numeral_eq_Suc Suc_le_length_iff)

lemma length_ge_4D: "4 \<le> length xs \<Longrightarrow> \<exists>a b c d ys. xs = a # b # c # d # ys"
  by (auto simp: numeral_eq_Suc Suc_le_length_iff)

lemma length_ge_8D:
  "8 \<le> length xs \<Longrightarrow> \<exists>a b c d e f g h ys. xs = a # b # c # d # e # f # g # h # ys"
  by (auto simp: numeral_eq_Suc Suc_le_length_iff)

text \<open>The bytes of a word, least significant first: what the writers store.\<close>

definition le16 :: "uint16 \<Rightarrow> uint8 list" where
  "le16 n = [ucast n, ucast (drop_bit 8 n)]"

definition le32 :: "uint32 \<Rightarrow> uint8 list" where
  "le32 n = [ucast n, ucast (drop_bit 8 n), ucast (drop_bit 16 n), ucast (drop_bit 24 n)]"

definition le64 :: "uint64 \<Rightarrow> uint8 list" where
  "le64 n = [ucast n, ucast (drop_bit 8 n), ucast (drop_bit 16 n), ucast (drop_bit 24 n),
             ucast (drop_bit 32 n), ucast (drop_bit 40 n), ucast (drop_bit 48 n),
             ucast (drop_bit 56 n)]"

lemma length_le [simp]: "length (le16 n) = 2" "length (le32 m) = 4" "length (le64 k) = 8"
  by (simp_all add: le16_def le32_def le64_def)

named_theorems write_bytes

lemma le_write16 [write_bytes]:
  "2 \<le> length buffer \<Longrightarrow> cLittleEndian_writeUint16 buffer n = le16 n @ drop 2 buffer"
  by (auto dest!: length_ge_2D simp: cLittleEndian_writeUint16_def le16_def ucast_and_ff)

lemma be_write16 [write_bytes]:
  "2 \<le> length buffer \<Longrightarrow> cBigEndian_writeUint16 buffer n = rev (le16 n) @ drop 2 buffer"
  by (auto dest!: length_ge_2D simp: cBigEndian_writeUint16_def le16_def ucast_and_ff)

lemma le_write32 [write_bytes]:
  "4 \<le> length buffer \<Longrightarrow> cLittleEndian_writeUint32 buffer n = le32 n @ drop 4 buffer"
  by (auto dest!: length_ge_4D simp: cLittleEndian_writeUint32_def le32_def ucast_and_ff)

lemma be_write32 [write_bytes]:
  "4 \<le> length buffer \<Longrightarrow> cBigEndian_writeUint32 buffer n = rev (le32 n) @ drop 4 buffer"
  by (auto dest!: length_ge_4D simp: cBigEndian_writeUint32_def le32_def ucast_and_ff)

lemma le_write64 [write_bytes]:
  "8 \<le> length buffer \<Longrightarrow> cLittleEndian_writeUint64 buffer n = le64 n @ drop 8 buffer"
  by (auto dest!: length_ge_8D simp: cLittleEndian_writeUint64_def le64_def ucast_and_ff)

lemma be_write64 [write_bytes]:
  "8 \<le> length buffer \<Longrightarrow> cBigEndian_writeUint64 buffer n = rev (le64 n) @ drop 8 buffer"
  by (auto dest!: length_ge_8D simp: cBigEndian_writeUint64_def le64_def ucast_and_ff)

named_theorems read_bytes

lemma le_read16 [read_bytes]: "cLittleEndian_readUint16 (le16 n @ rest) = n"
  by (rule bit_word_eqI) (auto simp: cLittleEndian_readUint16_def le16_def bit_bytes)

lemma be_read16 [read_bytes]: "cBigEndian_readUint16 (rev (le16 n) @ rest) = n"
  by (rule bit_word_eqI) (auto simp: cBigEndian_readUint16_def le16_def bit_bytes)

lemma le_read32 [read_bytes]: "cLittleEndian_readUint32 (le32 n @ rest) = n"
  by (rule bit_word_eqI) (auto simp: cLittleEndian_readUint32_def le32_def bit_bytes)

lemma be_read32 [read_bytes]: "cBigEndian_readUint32 (rev (le32 n) @ rest) = n"
  by (rule bit_word_eqI) (auto simp: cBigEndian_readUint32_def le32_def bit_bytes)

lemma le_read64 [read_bytes]: "cLittleEndian_readUint64 (le64 n @ rest) = n"
  by (rule bit_word_eqI) (auto simp: cLittleEndian_readUint64_def le64_def bit_bytes)

lemma be_read64 [read_bytes]: "cBigEndian_readUint64 (rev (le64 n) @ rest) = n"
  by (rule bit_word_eqI) (auto simp: cBigEndian_readUint64_def le64_def bit_bytes)

text \<open>Reading takes the bytes apart that writing stored, whatever they are.\<close>

lemma le16_read: "le16 (cLittleEndian_readUint16 (a # b # ys)) = [a, b]"
  by (auto simp: le16_def cLittleEndian_readUint16_def intro!: bit_word_eqI)
    (auto simp: bit_simps dest: bit_imp_le_length)

lemma le32_read: "le32 (cLittleEndian_readUint32 (a # b # c # d # ys)) = [a, b, c, d]"
  by (auto simp: le32_def cLittleEndian_readUint32_def intro!: bit_word_eqI)
    (auto simp: bit_simps dest: bit_imp_le_length)

lemma le64_read:
  "le64 (cLittleEndian_readUint64 (a # b # c # d # e # f # g # h # ys)) =
     [a, b, c, d, e, f, g, h]"
  by (auto simp: le64_def cLittleEndian_readUint64_def intro!: bit_word_eqI)
    (auto simp: bit_simps dest: bit_imp_le_length)

lemma be_read16_rev: "cBigEndian_readUint16 (a # b # ys) = cLittleEndian_readUint16 [b, a]"
  by (simp add: cBigEndian_readUint16_def cLittleEndian_readUint16_def)

lemma be_read32_rev:
  "cBigEndian_readUint32 (a # b # c # d # ys) = cLittleEndian_readUint32 [d, c, b, a]"
  by (simp add: cBigEndian_readUint32_def cLittleEndian_readUint32_def)

lemma be_read64_rev:
  "cBigEndian_readUint64 (a # b # c # d # e # f # g # h # ys) =
     cLittleEndian_readUint64 [h, g, f, e, d, c, b, a]"
  by (simp add: cBigEndian_readUint64_def cLittleEndian_readUint64_def)

subsection \<open>The interface of a codec\<close>

text \<open>
  What the streams rely on: a codec of width \<open>nb\<close> stores the bytes of the number in
  front of the rest of the buffer, and reads them back.
\<close>

locale endian_codec =
  fixes rd :: "uint8 list \<Rightarrow> 'a"
    and wr :: "uint8 list \<Rightarrow> 'a \<Rightarrow> uint8 list"
    and bytes :: "'a \<Rightarrow> uint8 list"
    and nb :: nat
  assumes length_bytes: "length (bytes n) = nb"
    and wr_bytes: "nb \<le> length buffer \<Longrightarrow> wr buffer n = bytes n @ drop nb buffer"
    and rd_bytes: "rd (bytes n @ rest) = n"
    and bytes_rd: "nb \<le> length buffer \<Longrightarrow> bytes (rd buffer) = take nb buffer"
begin

lemma rd_wr: "nb \<le> length buffer \<Longrightarrow> rd (wr buffer n) = n"
  by (simp add: wr_bytes rd_bytes)

lemma wr_rd: "nb \<le> length buffer \<Longrightarrow> wr buffer (rd buffer) = buffer"
  by (simp add: wr_bytes bytes_rd)

lemma length_wr: "nb \<le> length buffer \<Longrightarrow> length (wr buffer n) = length buffer"
  by (simp add: wr_bytes length_bytes)

lemma wr_wr: "nb \<le> length buffer \<Longrightarrow> wr (wr buffer m) n = wr buffer n"
  by (simp add: wr_bytes length_bytes)

lemma rd_prefix: "nb \<le> length buffer \<Longrightarrow> rd (buffer @ rest) = rd buffer"
  by (metis append_take_drop_id append.assoc rd_bytes bytes_rd)

lemma rd_inject:
  "nb \<le> length buffer \<Longrightarrow> nb \<le> length buffer' \<Longrightarrow>
     rd buffer = rd buffer' \<longleftrightarrow> take nb buffer = take nb buffer'"
  by (metis append_take_drop_id rd_bytes bytes_rd)

end

text \<open>Each pair of routines of the code, for both byte orders, is such a codec.\<close>

definition endian_bytes16 :: "bool \<Rightarrow> uint16 \<Rightarrow> uint8 list" where
  "endian_bytes16 le n = (if le then le16 n else rev (le16 n))"

definition endian_bytes32 :: "bool \<Rightarrow> uint32 \<Rightarrow> uint8 list" where
  "endian_bytes32 le n = (if le then le32 n else rev (le32 n))"

definition endian_bytes64 :: "bool \<Rightarrow> uint64 \<Rightarrow> uint8 list" where
  "endian_bytes64 le n = (if le then le64 n else rev (le64 n))"

interpretation codec16: endian_codec
  "\<lambda>buffer. cEndian_readUint16 buffer le" "\<lambda>buffer n. cEndian_writeUint16 buffer n le"
  "endian_bytes16 le" 2
proof unfold_locales
  show "length (endian_bytes16 le n) = 2" for n
    by (simp add: endian_bytes16_def)
  show "2 \<le> length buffer \<Longrightarrow>
      cEndian_writeUint16 buffer n le = endian_bytes16 le n @ drop 2 buffer" for buffer n
    by (simp add: endian_bytes16_def cEndian_writeUint16_def write_bytes)
  show "cEndian_readUint16 (endian_bytes16 le n @ rest) le = n" for n rest
    by (simp add: endian_bytes16_def cEndian_readUint16_def read_bytes)
  show "2 \<le> length buffer \<Longrightarrow>
      endian_bytes16 le (cEndian_readUint16 buffer le) = take 2 buffer" for buffer
    by (drule length_ge_2D, elim exE, cases le)
      (simp_all add: endian_bytes16_def cEndian_readUint16_def be_read16_rev le16_read)
qed

interpretation codec32: endian_codec
  "\<lambda>buffer. cEndian_readUint32 buffer le" "\<lambda>buffer n. cEndian_writeUint32 buffer n le"
  "endian_bytes32 le" 4
proof unfold_locales
  show "length (endian_bytes32 le n) = 4" for n
    by (simp add: endian_bytes32_def)
  show "4 \<le> length buffer \<Longrightarrow>
      cEndian_writeUint32 buffer n le = endian_bytes32 le n @ drop 4 buffer" for buffer n
    by (simp add: endian_bytes32_def cEndian_writeUint32_def write_bytes)
  show "cEndian_readUint32 (endian_bytes32 le n @ rest) le = n" for n rest
    by (simp add: endian_bytes32_def cEndian_readUint32_def read_bytes)
  show "4 \<le> length buffer \<Longrightarrow>
      endian_bytes32 le (cEndian_readUint32 buffer le) = take 4 buffer" for buffer
    by (drule length_ge_4D, elim exE, cases le)
      (simp_all add: endian_bytes32_def cEndian_readUint32_def be_read32_rev le32_read)
qed

interpretation codec64: endian_codec
  "\<lambda>buffer. cEndian_readUint64 buffer le" "\<lambda>buffer n. cEndian_writeUint64 buffer n le"
  "endian_bytes64 le" 8
proof unfold_locales
  show "length (endian_bytes64 le n) = 8" for n
    by (simp add: endian_bytes64_def)
  show "8 \<le> length buffer \<Longrightarrow>
      cEndian_writeUint64 buffer n le = endian_bytes64 le n @ drop 8 buffer" for buffer n
    by (simp add: endian_bytes64_def cEndian_writeUint64_def write_bytes)
  show "cEndian_readUint64 (endian_bytes64 le n @ rest) le = n" for n rest
    by (simp add: endian_bytes64_def cEndian_readUint64_def read_bytes)
  show "8 \<le> length buffer \<Longrightarrow>
      endian_bytes64 le (cEndian_readUint64 buffer le) = take 8 buffer" for buffer
    by (drule length_ge_8D, elim exE, cases le)
      (simp_all add: endian_bytes64_def cEndian_readUint64_def be_read64_rev le64_read)
qed

subsection \<open>Properties\<close>

text \<open>
  A number written into a large enough buffer is read back from it, at every
  width and in both byte orders, and the bytes behind the number keep their values.
\<close>

theorem endian_write_read:
  "8 \<le> length buffer \<Longrightarrow>
     cEndian_readUint16 (cEndian_writeUint16 buffer k le) le = k \<and>
     cEndian_readUint32 (cEndian_writeUint32 buffer m le) le = m \<and>
     cEndian_readUint64 (cEndian_writeUint64 buffer n le) le = n \<and>
     drop 2 (cEndian_writeUint16 buffer k le) = drop 2 buffer \<and>
     drop 4 (cEndian_writeUint32 buffer m le) = drop 4 buffer \<and>
     drop 8 (cEndian_writeUint64 buffer n le) = drop 8 buffer"
  by (simp add: codec16.wr_bytes codec32.wr_bytes codec64.wr_bytes codec16.rd_bytes
      codec32.rd_bytes codec64.rd_bytes codec16.length_bytes codec32.length_bytes
      codec64.length_bytes)

theorem endian_write_read_witness:
  "cEndian_readUint32 (cEndian_writeUint32 (replicate 8 0) 0x12345678 False) False = 0x12345678"
  using endian_write_read [where buffer = "replicate 8 0" and le = False and m = "0x12345678"] by simp

text \<open>
  Reading and writing back does not change a buffer, and the two byte orders are
  mirror images: the big endian number in a buffer is the little endian one of the
  reversed bytes.
\<close>

theorem endian_read_write:
  "length buffer = 8 \<Longrightarrow>
     cEndian_writeUint16 buffer (cEndian_readUint16 buffer le) le = buffer \<and>
     cEndian_writeUint32 buffer (cEndian_readUint32 buffer le) le = buffer \<and>
     cEndian_writeUint64 buffer (cEndian_readUint64 buffer le) le = buffer \<and>
     cBigEndian_readUint64 buffer = cLittleEndian_readUint64 (rev buffer)"
  by (simp add: codec16.wr_rd codec32.wr_rd codec64.wr_rd)
    (use length_ge_8D [of buffer] in \<open>auto simp: be_read64_rev\<close>)

theorem endian_read_write_witness:
  "cEndian_writeUint16 [1, 2, 3, 4, 5, 6, 7, 8]
     (cEndian_readUint16 [1, 2, 3, 4, 5, 6, 7, 8] True) True = [1, 2, 3, 4, 5, 6, 7, 8]"
  using endian_read_write [of "[1, 2, 3, 4, 5, 6, 7, 8]" True] by simp

end
