(* ===== verification/XAlgorithm.thy ===== *)
theory XAlgorithm
  imports XEndian "HOL-Library.Multiset"
begin

text \<open>
  The generic algorithms of Include/xStl/utils/algorithm.h and the address alignment of
  Source/xStl/data/Alignment.cpp. A pair of iterators over a container is the list of the
  container's elements with the two positions; a template parameter with an order is an
  instance of \<open>linorder\<close>.
\<close>

subsection \<open>Minimum, maximum, swap, absolute value\<close>

definition t_min :: "'a::linorder \<Rightarrow> 'a \<Rightarrow> 'a" where
  "t_min a b = (if a < b then a else b)"

definition t_max :: "'a::linorder \<Rightarrow> 'a \<Rightarrow> 'a" where
  "t_max a b = (if a < b then b else a)"

definition t_swap :: "'a \<Rightarrow> 'a \<Rightarrow> 'a \<times> 'a" where
  "t_swap a b = (let c = a; a' = b; b' = c in (a', b'))"

text \<open>
  \<open>t_abs\<close> at the signed types \<open>int\<close> and \<open>int64\<close>. The negation of the least number overflows, which
  is undefined.
\<close>

definition t_abs :: "'a::len word \<Rightarrow> 'a word res" where
  "t_abs a =
     (if a <s 0 then
        (if sint a = - (2 ^ (LENGTH('a) - 1)) then Inl UNDEFINED_BEHAVIOUR else Inr (- a))
      else Inr a)"

lemma t_min_eq [simp]: "t_min a b = min a b"
  by (auto simp: t_min_def)

lemma t_max_eq [simp]: "t_max a b = max a b"
  by (auto simp: t_max_def)

lemma t_swap_eq [simp]: "t_swap a b = (b, a)"
  by (simp add: t_swap_def)

subsection \<open>Searching and filling\<close>

text \<open>
  \<open>find (begin, end, object)\<close>: \<open>index\<close> runs over the positions from \<open>begin\<close>; the loop
  needs \<open>end - begin\<close> rounds at most, which is the recursion parameter.
\<close>

fun find_from :: "'a list \<Rightarrow> nat \<Rightarrow> nat \<Rightarrow> nat \<Rightarrow> 'a \<Rightarrow> nat" where
  "find_from xs index e 0 obj = e"
| "find_from xs index e (Suc k) obj =
     (if index \<noteq> e then
        (if xs ! index = obj then index else find_from xs (index + 1) e k obj)
      else e)"

definition find_itr :: "'a list \<Rightarrow> nat \<Rightarrow> nat \<Rightarrow> 'a \<Rightarrow> nat" where
  "find_itr xs b e obj = find_from xs b e (e - b) obj"

fun fill_from :: "'a list \<Rightarrow> nat \<Rightarrow> nat \<Rightarrow> 'a \<Rightarrow> 'a list" where
  "fill_from xs index 0 obj = xs"
| "fill_from xs index (Suc k) obj = fill_from (xs[index := obj]) (index + 1) k obj"

definition fill_itr :: "'a list \<Rightarrow> nat \<Rightarrow> nat \<Rightarrow> 'a \<Rightarrow> 'a list" where
  "fill_itr xs b e obj = fill_from xs b (e - b) obj"

lemma find_from_bounds:
  "k = e - index \<Longrightarrow> index \<le> e \<Longrightarrow>
     (let r = find_from xs index e k obj in index \<le> r \<and> r \<le> e \<and>
        (r < e \<longrightarrow> xs ! r = obj) \<and> (\<forall>i. index \<le> i \<and> i < r \<longrightarrow> xs ! i \<noteq> obj))"
proof (induction xs index e k obj rule: find_from.induct)
  case (2 xs index e k obj)
  show ?case
  proof (cases "xs ! index = obj")
    case False
    then have *: "\<And>i. index \<le> i \<Longrightarrow> xs ! i = obj \<Longrightarrow> Suc index \<le> i"
      by (metis le_antisym not_less_eq_eq)
    from False 2 have "let r = find_from xs (index + 1) e k obj in index + 1 \<le> r \<and> r \<le> e \<and>
        (r < e \<longrightarrow> xs ! r = obj) \<and> (\<forall>i. index + 1 \<le> i \<and> i < r \<longrightarrow> xs ! i \<noteq> obj)"
      by (intro "2.IH") (use 2(2) in auto)
    moreover have "find_from xs index e (Suc k) obj = find_from xs (index + 1) e k obj"
    proof -
      have "index \<noteq> e"
        using 2(2) by auto
      with False show ?thesis
        by simp
    qed
    ultimately show ?thesis
      using * by (auto simp: Let_def)
  next
    case True
    have "index \<noteq> e"
      using 2(2) by auto
    then have "find_from xs index e (Suc k) obj = index"
      using True by simp
    with True 2(3) show ?thesis
      by (simp only: Let_def) auto
  qed
qed auto

lemma fill_from_eq:
  "index + k \<le> length xs \<Longrightarrow>
     fill_from xs index k obj = take index xs @ replicate k obj @ drop (index + k) xs"
proof (induction xs index k obj rule: fill_from.induct)
  case (2 xs index k obj)
  then have "fill_from (xs[index := obj]) (index + 1) k obj =
      take (index + 1) (xs[index := obj]) @ replicate k obj @ drop (index + 1 + k) xs"
    by simp
  also have "take (index + 1) (xs[index := obj]) = take index xs @ [obj]"
    using 2(2) by (simp add: take_Suc_conv_app_nth)
  finally show ?case
    by simp
qed simp

subsection \<open>The bubble sort\<close>

text \<open>
  \<open>boubbleSort\<close>: the inner loop runs \<open>j\<close> from the last position down to \<open>i + 1\<close>, the outer
  loop runs \<open>i\<close> from \<open>begin\<close> up to the last position, excluded. The iteration counts are the
  distances the loop conditions \<open>j != i\<close> and \<open>i != last\<close> measure.
\<close>

definition sort_step :: "'a::linorder list \<Rightarrow> nat \<Rightarrow> 'a list" where
  "sort_step xs j =
     (let prev_j = j - 1 in
      if xs ! prev_j > xs ! j then
        (let (a, b) = t_swap (xs ! j) (xs ! prev_j) in xs[j := a, prev_j := b])
      else xs)"

fun sort_inner :: "'a::linorder list \<Rightarrow> nat \<Rightarrow> nat \<Rightarrow> 'a list" where
  "sort_inner xs i 0 = xs"
| "sort_inner xs i (Suc k) = sort_inner (sort_step xs (i + Suc k)) i k"

fun sort_outer :: "'a::linorder list \<Rightarrow> nat \<Rightarrow> nat \<Rightarrow> 'a list" where
  "sort_outer xs i 0 = xs"
| "sort_outer xs i (Suc k) = sort_outer (sort_inner xs i (Suc k)) (i + 1) k"

definition boubbleSort :: "'a::linorder list \<Rightarrow> nat \<Rightarrow> nat \<Rightarrow> 'a list" where
  "boubbleSort xs b e =
     (if b = e then xs
      else let last = e - 1 in if b = last then xs else sort_outer xs b (last - b))"

lemma length_sort_step [simp]: "length (sort_step xs j) = length xs"
  by (simp add: sort_step_def Let_def)

lemma length_sort_inner [simp]: "length (sort_inner xs i k) = length xs"
  by (induction xs i k rule: sort_inner.induct) auto

lemma mset_sort_step: "j < length xs \<Longrightarrow> mset (sort_step xs j) = mset xs"
  by (auto simp: sort_step_def Let_def intro!: mset_swap)

lemma mset_sort_inner: "i + k < length xs \<Longrightarrow> mset (sort_inner xs i k) = mset xs"
  by (induction xs i k rule: sort_inner.induct) (auto simp: mset_sort_step)

lemma sort_step_nth:
  "0 < j \<Longrightarrow> j < length xs \<Longrightarrow>
     sort_step xs j ! (j - 1) = min (xs ! (j - 1)) (xs ! j) \<and>
     sort_step xs j ! j = max (xs ! (j - 1)) (xs ! j)"
  by (auto simp: sort_step_def Let_def nth_list_update)

lemma sort_step_other: "i \<noteq> j \<Longrightarrow> i \<noteq> j - 1 \<Longrightarrow> sort_step xs j ! i = xs ! i"
  by (auto simp: sort_step_def Let_def)

lemma take_sort_step: "i < j \<Longrightarrow> take i (sort_step xs j) = take i xs"
  by (auto simp: sort_step_def Let_def)

lemma drop_sort_step: "j < i \<Longrightarrow> drop i (sort_step xs j) = drop i xs"
  by (auto simp: sort_step_def Let_def)

lemma take_sort_inner: "take i (sort_inner xs i k) = take i xs"
  by (induction xs i k rule: sort_inner.induct) (auto simp: take_sort_step)

lemma drop_sort_inner: "i + k < m \<Longrightarrow> drop m (sort_inner xs i k) = drop m xs"
  by (induction xs i k rule: sort_inner.induct) (auto simp: drop_sort_step)

text \<open>The inner loop carries the least element of the range down to \<open>i\<close>.\<close>

lemma sort_inner_least:
  "i + k < length xs \<Longrightarrow> \<forall>m. i + k \<le> m \<and> m \<le> n \<longrightarrow> xs ! (i + k) \<le> xs ! m \<Longrightarrow> n < length xs \<Longrightarrow>
     \<forall>m. i \<le> m \<and> m \<le> n \<longrightarrow> sort_inner xs i k ! i \<le> sort_inner xs i k ! m"
proof (induction xs i k rule: sort_inner.induct)
  case (2 xs i k)
  let ?ys = "sort_step xs (i + Suc k)"
  have "?ys ! (i + k) \<le> ?ys ! m" if m: "i + k \<le> m" "m \<le> n" for m
  proof (cases "m = i + k \<or> m = i + Suc k")
    case True
    then show ?thesis
      using sort_step_nth [of "i + Suc k" xs] 2(2) by (auto simp: le_max_iff_disj min_le_iff_disj)
  next
    case False
    then have "?ys ! m = xs ! m" "xs ! (i + Suc k) \<le> xs ! m"
      using m 2(3) by (auto intro!: sort_step_other)
    moreover have "?ys ! (i + k) \<le> xs ! (i + Suc k)"
      using sort_step_nth [of "i + Suc k" xs] 2(2) by simp
    ultimately show ?thesis
      by simp
  qed
  then have "\<forall>m. i \<le> m \<and> m \<le> n \<longrightarrow> sort_inner ?ys i k ! i \<le> sort_inner ?ys i k ! m"
    using 2 by auto
  then show ?case
    by simp
qed auto

lemma sort_outer_props:
  "i + k < length xs \<Longrightarrow>
     length (sort_outer xs i k) = length xs \<and>
     mset (sort_outer xs i k) = mset xs \<and>
     take i (sort_outer xs i k) = take i xs \<and>
     drop (i + k + 1) (sort_outer xs i k) = drop (i + k + 1) xs"
proof (induction xs i k rule: sort_outer.induct)
  case (2 xs i k)
  have "take i (sort_outer (sort_inner xs i (Suc k)) (i + 1) k) =
      take i (take (i + 1) (sort_outer (sort_inner xs i (Suc k)) (i + 1) k))"
    by (simp add: take_take min_def)
  also have "\<dots> = take i (sort_inner xs i (Suc k))"
    using 2 by (simp add: take_take min_def)
  also have "\<dots> = take i xs"
    by (rule take_sort_inner)
  finally show ?case
    using 2 mset_sort_inner [of i "Suc k" xs] drop_sort_inner [of i "Suc k" "i + Suc k + 1" xs]
    by (simp del: sort_inner.simps)
qed auto

lemma mset_slice:
  assumes "mset xs = mset ys" and "take a xs = take a ys" and "drop b xs = drop b ys" and "a \<le> b"
  shows "mset (take (b - a) (drop a xs)) = mset (take (b - a) (drop a ys))"
proof -
  have "zs = take a zs @ take (b - a) (drop a zs) @ drop b zs" for zs :: "'a list"
    using assms(4) by (metis append_take_drop_id append.assoc take_drop_split)
  then have "mset zs = mset (take a zs) + mset (take (b - a) (drop a zs)) + mset (drop b zs)"
    for zs :: "'a list"
    by (metis mset_append add.assoc)
  then show ?thesis
    using assms(1-3) by (metis add_left_cancel add_right_cancel)
qed

lemma slice_nth_mem:
  assumes "set (take (b - a) (drop a xs)) = set (take (b - a) (drop a ys))"
    and "a \<le> m" and "m < b" and "b \<le> length xs" and "length xs = length ys"
  obtains m' where "a \<le> m'" and "m' < b" and "xs ! m = ys ! m'"
proof -
  have "xs ! m \<in> set (take (b - a) (drop a xs))"
    unfolding in_set_conv_nth using assms(2-4) by (intro exI [of _ "m - a"]) simp
  then obtain j where "j < b - a" and "xs ! m = take (b - a) (drop a ys) ! j"
    using assms(1) by (auto simp: in_set_conv_nth)
  then show ?thesis
    using assms by (intro that [of "a + j"]) auto
qed

lemma sort_outer_sorted:
  "i + k < length xs \<Longrightarrow> i \<le> p \<Longrightarrow> p \<le> q \<Longrightarrow> q \<le> i + k \<Longrightarrow>
     sort_outer xs i k ! p \<le> sort_outer xs i k ! q"
proof (induction xs i k arbitrary: p q rule: sort_outer.induct)
  case (2 xs i k)
  let ?ys = "sort_inner xs i (Suc k)"
  let ?rs = "sort_outer ?ys (i + 1) k"
  have props: "length ?rs = length ?ys" "mset ?rs = mset ?ys" "take (i + 1) ?rs = take (i + 1) ?ys"
      "drop (i + Suc k + 1) ?rs = drop (i + Suc k + 1) ?ys"
    using sort_outer_props [of "i + 1" k ?ys] 2(2) by (simp_all del: sort_inner.simps)
  have least: "?ys ! i \<le> ?ys ! m" if "i \<le> m" "m \<le> i + Suc k" for m
  proof -
    have "\<forall>m. i + Suc k \<le> m \<and> m \<le> i + Suc k \<longrightarrow> xs ! (i + Suc k) \<le> xs ! m"
      by (metis le_antisym order_refl)
    from sort_inner_least [OF _ this] that 2(2) show ?thesis
      by (simp del: sort_inner.simps)
  qed
  have "?rs ! i \<le> ?rs ! q"
  proof (cases "q = i")
    case False
    then have "i + 1 \<le> q"
      using 2(3,4) by simp
    moreover have "set (take (i + Suc k + 1 - (i + 1)) (drop (i + 1) ?rs)) =
        set (take (i + Suc k + 1 - (i + 1)) (drop (i + 1) ?ys))"
      by (intro mset_eq_setD mset_slice props) simp
    ultimately obtain m where "i + 1 \<le> m" "m < i + Suc k + 1" "?rs ! q = ?ys ! m"
      using 2(2,5) props(1) by (elim slice_nth_mem) (auto simp del: sort_inner.simps)
    moreover have "?rs ! i = ?ys ! i"
      using props(3) by (metis less_add_one nth_take)
    ultimately show ?thesis
      using least [of m] by simp
  qed simp
  moreover have "?rs ! p \<le> ?rs ! q" if "i + 1 \<le> p"
    using 2 that by (intro "2.IH") auto
  ultimately show ?case
    using 2(3) by (cases "p = i") (auto simp del: sort_inner.simps)
qed (auto dest!: le_antisym)

text \<open>
  The bubble sort orders the range between the two iterators, keeps its elements with
  their multiplicities and does not touch what lies outside.
\<close>

theorem boubbleSort_sorts:
  "b \<le> e \<Longrightarrow> e \<le> length xs \<Longrightarrow>
     sorted (take (e - b) (drop b (boubbleSort xs b e))) \<and>
     mset (boubbleSort xs b e) = mset xs \<and>
     take b (boubbleSort xs b e) = take b xs \<and>
     drop e (boubbleSort xs b e) = drop e xs"
proof -
  assume *: "b \<le> e" "e \<le> length xs"
  show ?thesis
  proof (cases "b < e - 1")
    case True
    then have "boubbleSort xs b e = sort_outer xs b (e - 1 - b)"
      by (simp add: boubbleSort_def Let_def)
    moreover have "sorted (take (e - b) (drop b (sort_outer xs b (e - 1 - b))))"
      using * True by (auto simp: sorted_iff_nth_mono intro!: sort_outer_sorted)
    ultimately show ?thesis
      using sort_outer_props [of b "e - 1 - b" xs] * True by simp
  next
    case False
    then have "boubbleSort xs b e = xs" and "e - b \<le> 1"
      using * by (auto simp: boubbleSort_def Let_def)
    moreover have "sorted (take (e - b) (drop b xs))"
      using \<open>e - b \<le> 1\<close> by (metis length_take min.bounded_iff order_trans
          min.cobounded2 sorted01)
    ultimately show ?thesis
      by simp
  qed
qed

theorem boubbleSort_sorts_witness:
  "boubbleSort [9, 3, 2, 1, 0 :: nat] 1 4 = [9, 1, 2, 3, 0] \<and>
   sorted (take (4 - 1) (drop 1 (boubbleSort [9, 3, 2, 1, 0 :: nat] 1 4)))"
  using boubbleSort_sorts [of 1 4 "[9, 3, 2, 1, 0 :: nat]"]
  by (simp add: boubbleSort_def Let_def sort_step_def numeral_eq_Suc)

subsection \<open>Rotations\<close>

text \<open>
  The six rotation templates: the fixed and the variable form have the same body, the
  \<open>Mod\<close> form reduces the count first. A shift by the full width is undefined in C, so the
  precondition of the first four is \<open>0 < y < w\<close>, and of the last two that \<open>w\<close> does not
  divide \<open>y\<close>.
\<close>

definition rotlFixed :: "'a::len word \<Rightarrow> nat \<Rightarrow> 'a word" where
  "rotlFixed x y = push_bit y x OR drop_bit (LENGTH('a) - y) x"

definition rotrFixed :: "'a::len word \<Rightarrow> nat \<Rightarrow> 'a word" where
  "rotrFixed x y = drop_bit y x OR push_bit (LENGTH('a) - y) x"

definition rotlVariable :: "'a::len word \<Rightarrow> nat \<Rightarrow> 'a word" where
  "rotlVariable x y = push_bit y x OR drop_bit (LENGTH('a) - y) x"

definition rotrVariable :: "'a::len word \<Rightarrow> nat \<Rightarrow> 'a word" where
  "rotrVariable x y = drop_bit y x OR push_bit (LENGTH('a) - y) x"

definition rotlMod :: "'a::len word \<Rightarrow> nat \<Rightarrow> 'a word" where
  "rotlMod x y0 = (let y = y0 mod LENGTH('a) in push_bit y x OR drop_bit (LENGTH('a) - y) x)"

definition rotrMod :: "'a::len word \<Rightarrow> nat \<Rightarrow> 'a word" where
  "rotrMod x y0 = (let y = y0 mod LENGTH('a) in drop_bit y x OR push_bit (LENGTH('a) - y) x)"

lemma rotlFixed_eq: "y < LENGTH('a) \<Longrightarrow> rotlFixed x y = word_rotl y (x :: 'a::len word)"
  by (rule bit_word_eqI)
    (auto simp: rotlFixed_def bit_or_iff bit_push_bit_iff bit_drop_bit_eq bit_word_rotl_iff
      mod_if le_mod_geq add.commute [of "LENGTH('a)"] dest: bit_imp_le_length split: if_splits)

lemma rotrFixed_eq: "y < LENGTH('a) \<Longrightarrow> rotrFixed x y = word_rotr y (x :: 'a::len word)"
  by (rule bit_word_eqI)
    (auto simp: rotrFixed_def bit_or_iff bit_push_bit_iff bit_drop_bit_eq bit_word_rotr_iff
      mod_if le_mod_geq add.commute dest: bit_imp_le_length split: if_splits)

lemma rotlMod_eq: "rotlMod x y = word_rotl y (x :: 'a::len word)"
  using rotlFixed_eq [of "y mod LENGTH('a)" x]
  by (simp add: rotlMod_def rotlFixed_def Let_def word_rotl_def)

lemma rotrMod_eq: "rotrMod x y = word_rotr y (x :: 'a::len word)"
  using rotrFixed_eq [of "y mod LENGTH('a)" x]
  by (simp add: rotrMod_def rotrFixed_def Let_def word_rotr_def)

lemma word_rot_period:
  "word_rotl (y + LENGTH('a)) x = word_rotl y (x :: 'a::len word)"
  "word_rotr (y + LENGTH('a)) x = word_rotr y (x :: 'a::len word)"
  by (rule bit_word_eqI, simp add: bit_word_rotl_iff bit_word_rotr_iff add.assoc [symmetric])+

text \<open>
  The six rotation templates are the rotations of a word, for every count for which the
  code is defined; hence a left rotation is undone by the right rotation of the same count.
\<close>

theorem rotations_rotate:
  "0 < y \<Longrightarrow> y < LENGTH('a) \<Longrightarrow>
     rotlFixed x y = word_rotl y (x :: 'a::len word) \<and> rotrFixed x y = word_rotr y x \<and>
     rotlVariable x y = word_rotl y x \<and> rotrVariable x y = word_rotr y x \<and>
     rotlMod x (y + LENGTH('a)) = word_rotl y x \<and> rotrMod x (y + LENGTH('a)) = word_rotr y x \<and>
     rotrVariable (rotlVariable x y) y = x"
  using rotlFixed_eq [of y x] rotrFixed_eq [of y x] rotrFixed_eq [of y "word_rotl y x"]
  by (simp add: rotlVariable_def rotrVariable_def rotlFixed_def rotrFixed_def rotlMod_eq rotrMod_eq
      word_rot_period)

theorem rotations_rotate_witness:
  "rotlFixed (0x80000001 :: 32 word) 4 = word_rotl 4 0x80000001 \<and>
   rotrVariable (rotlVariable (0x80000001 :: 32 word) 4) 4 = 0x80000001"
proof -
  have "0 < (4 :: nat)" and "4 < LENGTH(32)"
    by simp_all
  from rotations_rotate [OF this, of "0x80000001"] show ?thesis
    by blast
qed

subsection \<open>Alignment\<close>

definition alignUp :: "uint64 \<Rightarrow> uint64 \<Rightarrow> uint64" where
  "alignUp number base = (number + base) AND NOT base"

definition alignDown :: "uint64 \<Rightarrow> uint64 \<Rightarrow> uint64" where
  "alignDown number base = number AND NOT base"

definition alignUpToDword :: "uint64 \<Rightarrow> uint64" where
  "alignUpToDword number = alignUp number 3"

definition alignDownToDword :: "uint64 \<Rightarrow> uint64" where
  "alignDownToDword number = alignDown number 3"

definition alignUpToQword :: "uint64 \<Rightarrow> uint64" where
  "alignUpToQword number = alignUp number 7"

definition alignDownToQword :: "uint64 \<Rightarrow> uint64" where
  "alignDownToQword number = alignDown number 7"

text \<open>
  \<open>readAlignedWord\<close> reads the 32 bit cell around the address from a memory that maps
  addresses to bytes, on a little endian machine.
\<close>

definition read_cell32 :: "(uint64 \<Rightarrow> uint8) \<Rightarrow> uint64 \<Rightarrow> uint32" where
  "read_cell32 mem a = cLittleEndian_readUint32 [mem a, mem (a + 1), mem (a + 2), mem (a + 3)]"

definition readAlignedWord :: "(uint64 \<Rightarrow> uint8) \<Rightarrow> uint64 \<Rightarrow> uint16" where
  "readAlignedWord mem ptr =
     (let baseAddress = alignDownToDword ptr;
          value = read_cell32 mem baseAddress;
          rotate = ptr - baseAddress
      in ucast (drop_bit (unat (rotate * 8)) value AND 0xFFFF))"

lemma alignDown_eq: "alignDown n (mask k) = push_bit k (drop_bit k n)"
  by (rule bit_word_eqI) (auto simp: alignDown_def bit_simps)

lemma unat_lt_64: "unat (n :: uint64) < 2 ^ 64"
  by (rule order_less_le_trans [OF unsigned_less]) simp

lemma unat_mask_64: "k < 64 \<Longrightarrow> unat (mask k :: uint64) = 2 ^ k - 1"
proof -
  assume "k < 64"
  then have "(2 :: nat) ^ k \<le> 2 ^ 64"
    by (intro power_increasing) auto
  then have "2 ^ k - 1 < (2 :: nat) ^ 64"
    by simp
  moreover have "(mask k :: uint64) = word_of_nat (2 ^ k - 1)"
    by (simp add: mask_eq_exp_minus_1 of_nat_diff)
  ultimately show ?thesis
    by (simp only: unsigned_of_nat) (simp add: take_bit_nat_eq_self)
qed

lemma unat_alignDown: "unat (alignDown n (mask k)) = unat n div 2 ^ k * 2 ^ k"
proof -
  have "push_bit k (drop_bit k (unat n)) \<le> unat n"
    by (simp add: push_bit_eq_mult drop_bit_eq_div)
  then have "push_bit k (drop_bit k (unat n)) < 2 ^ 64"
    using unat_lt_64 [of n] by (rule order_le_less_trans)
  then show ?thesis
    using unat_lt_64 [of n] unfolding alignDown_eq unsigned_push_bit_eq unsigned_drop_bit_eq
    by (simp add: push_bit_eq_mult drop_bit_eq_div take_bit_nat_eq_self)
qed

lemma mult_div_bounds: "n div d * d \<le> n \<and> n < n div d * d + (d :: nat)" if "0 < d"
  using that by (metis div_mult_mod_eq le_add1 mod_less_divisor nat_add_left_cancel_less)

lemma round_up_bounds:
  assumes "0 < (d :: nat)"
  shows "n \<le> (n + (d - 1)) div d * d \<and> (n + (d - 1)) div d * d < n + d"
  using mult_div_bounds [of d "n + (d - 1)"] assms by linarith

text \<open>
  With a base of the form \<open>2 ^ k - 1\<close>, \<open>alignDown\<close> returns the greatest multiple of
  \<open>2 ^ k\<close> that is at most the number, and \<open>alignUp\<close> the least one that is at least the number,
  as long as adding the base does not wrap around.
\<close>

theorem align_spec:
  "k < 64 \<Longrightarrow> unat number + (2 ^ k - 1) < 2 ^ 64 \<Longrightarrow>
     2 ^ k dvd unat (alignUp number (mask k)) \<and>
     unat number \<le> unat (alignUp number (mask k)) \<and>
     unat (alignUp number (mask k)) < unat number + 2 ^ k \<and>
     2 ^ k dvd unat (alignDown number (mask k)) \<and>
     unat (alignDown number (mask k)) \<le> unat number \<and>
     unat number < unat (alignDown number (mask k)) + 2 ^ k"
proof -
  assume k: "k < 64" and no: "unat number + (2 ^ k - 1) < 2 ^ 64"
  have "unat (mask k :: uint64) = 2 ^ k - 1"
    using k by (rule unat_mask_64)
  then have "unat (number + mask k) = unat number + (2 ^ k - 1)"
    using no by (simp add: unat_word_ariths)
  moreover have "alignUp number (mask k) = alignDown (number + mask k) (mask k)"
    by (simp add: alignUp_def alignDown_def)
  ultimately have up: "unat (alignUp number (mask k)) = (unat number + (2 ^ k - 1)) div 2 ^ k * 2 ^ k"
    by (simp add: unat_alignDown)
  have "0 < (2 ^ k :: nat)"
    by simp
  then show ?thesis
    unfolding up unat_alignDown
    using mult_div_bounds [of "2 ^ k" "unat number"] round_up_bounds [of "2 ^ k" "unat number"]
    by (intro conjI) (simp_all only: dvd_triv_right)
qed

theorem align_spec_witness:
  "2 ^ 2 dvd unat (alignUp 0xff1 (mask 2)) \<and> unat (alignUp 0xff1 (mask 2)) < unat (0xff1 :: uint64) + 2 ^ 2"
  using align_spec [of 2 "0xff1"] by simp

lemma cell_halves:
  "ucast (cLittleEndian_readUint32 [a, b, c, d] AND 0xFFFF) = cLittleEndian_readUint16 [a, b]"
  "ucast (drop_bit 8 (cLittleEndian_readUint32 [a, b, c, d]) AND 0xFFFF) =
     cLittleEndian_readUint16 [b, c]"
  "ucast (drop_bit 16 (cLittleEndian_readUint32 [a, b, c, d]) AND 0xFFFF) =
     cLittleEndian_readUint16 [c, d]"
  "ucast (drop_bit 24 (cLittleEndian_readUint32 [a, b, c, d]) AND 0xFFFF) = (ucast d :: uint16)"
proof -
  have m: "(0xFFFF :: uint32) = mask 16"
    by (simp add: mask_eq_exp_minus_1)
  show "ucast (cLittleEndian_readUint32 [a, b, c, d] AND 0xFFFF) = cLittleEndian_readUint16 [a, b]"
    "ucast (drop_bit 8 (cLittleEndian_readUint32 [a, b, c, d]) AND 0xFFFF) =
       cLittleEndian_readUint16 [b, c]"
    "ucast (drop_bit 16 (cLittleEndian_readUint32 [a, b, c, d]) AND 0xFFFF) =
       cLittleEndian_readUint16 [c, d]"
    "ucast (drop_bit 24 (cLittleEndian_readUint32 [a, b, c, d]) AND 0xFFFF) = (ucast d :: uint16)"
    unfolding m cLittleEndian_readUint32_def cLittleEndian_readUint16_def
    by (rule bit_word_eqI; auto simp: bit_simps dest: bit_imp_le_length)+
qed

lemma unat_less_4D: "unat (w :: uint64) \<in> {0, 1, 2, 3} \<Longrightarrow> w \<in> {0, 1, 2, 3}"
proof -
  have "w = word_of_nat (unat w)"
    by simp
  moreover assume "unat w \<in> {0, 1, 2, 3}"
  ultimately show ?thesis
    by (elim insertE emptyE) simp_all
qed

lemma low_two_bits: "\<exists>q r. ptr = push_bit 2 q + r \<and> r \<in> {0, 1, 2, 3} \<and> alignDownToDword ptr = push_bit 2 (q :: uint64)"
proof (intro exI conjI)
  have m: "(3 :: uint64) = mask 2"
    by (simp add: mask_eq_exp_minus_1)
  show "alignDownToDword ptr = push_bit 2 (drop_bit 2 ptr)"
    unfolding alignDownToDword_def m by (rule alignDown_eq)
  have "push_bit 2 (drop_bit 2 ptr) + (ptr AND mask 2) = push_bit 2 (drop_bit 2 ptr) OR (ptr AND mask 2)"
    by (rule disjunctive_add_eq_or) (auto simp: bit_eq_iff bit_simps)
  also have "\<dots> = ptr"
    by (rule bit_word_eqI) (auto simp: bit_simps simp flip: add_2_eq_Suc' dest: le_Suc_ex)
  finally show "ptr = push_bit 2 (drop_bit 2 ptr) + (ptr AND mask 2)" ..
  have "unat (ptr AND mask 2) < 4"
    unfolding take_bit_eq_mask [symmetric] unsigned_take_bit_eq by (simp add: take_bit_eq_mod)
  then have "unat (ptr AND mask 2) \<in> {0, 1, 2, 3}"
    by auto
  then show "ptr AND mask 2 \<in> {0, 1, 2, 3}"
    by (rule unat_less_4D)
qed

text \<open>
  Reading a 16 bit word through the aligned 32 bit cell around its address returns the
  little endian word at the address, unless the word straddles two cells: then the high byte
  is missing.
\<close>

lemma readAlignedWord_reads:
  "readAlignedWord mem ptr =
     (if ptr - alignDownToDword ptr = 3 then ucast (mem ptr)
      else cLittleEndian_readUint16 [mem ptr, mem (ptr + 1)])"
proof -
  obtain q r where *: "ptr = push_bit 2 q + r" "r \<in> {0, 1, 2, 3}" "alignDownToDword ptr = push_bit 2 q"
    using low_two_bits by blast
  have "readAlignedWord mem ptr =
      ucast (drop_bit (unat (r * 8)) (read_cell32 mem (push_bit 2 q)) AND 0xFFFF)"
    using *(3) by (simp add: readAlignedWord_def Let_def *(1))
  moreover have "unat (0 * 8 :: uint64) = 0" "unat (1 * 8 :: uint64) = 8"
    "unat (2 * 8 :: uint64) = 16" "unat (3 * 8 :: uint64) = 24"
    by simp_all
  moreover have "push_bit 2 q + 1 + 1 = push_bit 2 q + 2" "push_bit 2 q + 2 + 1 = push_bit 2 q + 3"
    by simp_all
  moreover have "ptr - push_bit 2 q = r"
    using *(1) by simp
  moreover have "r - 0 = 3 \<longleftrightarrow> r = 3" "(0 :: uint64) \<noteq> 3" "(1 :: uint64) \<noteq> 3" "(2 :: uint64) \<noteq> 3"
    by simp_all
  ultimately show ?thesis
    using *(2) unfolding *(3) unfolding *(1)
    by (elim insertE emptyE)
      (simp_all only: read_cell32_def cell_halves drop_bit_0 id_apply add_0_right
        add_diff_cancel_left' if_True if_False)
qed

end
