(* ===== verification/XArray.thy ===== *)
theory XArray
  imports XAlgorithm
begin

text \<open>
  The dynamic arrays \<open>cArray\<close> (Include/xStl/data/array.h, array.inl) and \<open>cSArray\<close>
  (sarray.h, sarray.inl).

  \<open>m_array\<close> is \<open>None\<close> for the null pointer and otherwise the allocated cells; a cell that
  \<open>new T[n]\<close> has not initialised is \<open>None\<close>. An access outside the allocation is the value
  \<open>UNDEFINED_BEHAVIOUR\<close>. Sizes are lengths of objects in memory; the reallocation test casts them
  to the 32 bit type \<open>int\<close>, as the code does.
\<close>

record 'a cArray =
  m_array :: "'a option list option"
  m_size :: nat
  m_alocatedArray :: nat
  m_pageSize :: nat

definition cArray_buf :: "'a cArray \<Rightarrow> 'a option list" where
  "cArray_buf arr = (case m_array arr of None \<Rightarrow> [] | Some b \<Rightarrow> b)"

definition newT :: "nat \<Rightarrow> 'a option list" where
  "newT n = replicate n None"

text \<open>The element loops \<open>dst[i + doff] = src[i + soff]\<close> for \<open>i\<close> up to a bound.\<close>

fun copy_elems ::
  "'a list \<Rightarrow> 'a list \<Rightarrow> nat \<Rightarrow> nat \<Rightarrow> nat \<Rightarrow> nat \<Rightarrow> 'a list res"
where
  "copy_elems dst src doff soff i 0 = Inr dst"
| "copy_elems dst src doff soff i (Suc k) =
     (if i + soff < length src \<and> i + doff < length dst then
        copy_elems (dst[i + doff := src ! (i + soff)]) src doff soff (i + 1) k
      else Inl UNDEFINED_BEHAVIOUR)"

text \<open>\<open>memcpy\<close> of whole elements, which must stay inside both allocations.\<close>

definition memcpy_elems :: "'a list \<Rightarrow> nat \<Rightarrow> 'a list \<Rightarrow> nat \<Rightarrow> nat \<Rightarrow> 'a list res" where
  "memcpy_elems dst doff src soff n =
     (if n = 0 \<or> doff + n \<le> length dst \<and> soff + n \<le> length src
      then Inr (memcpy_at dst doff (drop soff src) n) else Inl UNDEFINED_BEHAVIOUR)"

subsection \<open>Construction and allocation\<close>

definition cArray_pageRound :: "'a cArray \<Rightarrow> nat \<Rightarrow> nat" where
  "cArray_pageRound arr bytes =
     (if m_pageSize arr > 1 then
        (if bytes mod m_pageSize arr = 0 then bytes
         else m_pageSize arr * (bytes div m_pageSize arr + 1))
      else bytes)"

definition cArray_initArray :: "nat \<Rightarrow> 'a cArray" where
  "cArray_initArray pageSize =
     \<lparr>m_array = None, m_size = 0, m_alocatedArray = 0, m_pageSize = pageSize\<rparr>"

definition cArray_new :: "nat \<Rightarrow> nat \<Rightarrow> 'a cArray" where
  "cArray_new numberOfElements pageSize =
     (let arr = cArray_initArray pageSize in
      if numberOfElements > 0 then
        let alloc = cArray_pageRound arr numberOfElements in
        arr\<lparr>m_size := numberOfElements, m_alocatedArray := alloc, m_array := Some (newT alloc)\<rparr>
      else arr)"

definition cArray_new_static :: "'a list \<Rightarrow> nat \<Rightarrow> nat \<Rightarrow> 'a cArray res" where
  "cArray_new_static staticArray length' pageSize =
     (let arr = cArray_initArray pageSize in
      if length' > 0 then
        let alloc = cArray_pageRound arr length' in
        bind_res (copy_elems (newT alloc) (map Some staticArray) 0 0 0 length') (\<lambda>b.
          Inr (arr\<lparr>m_size := length', m_alocatedArray := alloc, m_array := Some b\<rparr>))
      else Inr arr)"

definition cArray_freeArray :: "'a cArray \<Rightarrow> 'a cArray" where
  "cArray_freeArray arr = arr\<lparr>m_array := None, m_size := 0, m_alocatedArray := 0\<rparr>"

definition cArray_setPageSize :: "'a cArray \<Rightarrow> nat \<Rightarrow> 'a cArray" where
  "cArray_setPageSize arr newPageSize = arr\<lparr>m_pageSize := newPageSize\<rparr>"

text \<open>\<open>swap\<close> exchanges everything but the page sizes.\<close>

definition cArray_swap :: "'a cArray \<Rightarrow> 'a cArray \<Rightarrow> 'a cArray \<times> 'a cArray" where
  "cArray_swap arr other =
     (let (a1, a2) = t_swap (m_array arr) (m_array other);
          (s1, s2) = t_swap (m_size arr) (m_size other);
          (l1, l2) = t_swap (m_alocatedArray arr) (m_alocatedArray other)
      in (arr\<lparr>m_array := a1, m_size := s1, m_alocatedArray := l1\<rparr>,
          other\<lparr>m_array := a2, m_size := s2, m_alocatedArray := l2\<rparr>))"

subsection \<open>Resizing\<close>

text \<open>
  \<open>(uint)t_abs((int)new_alloc - (int)m_alocatedArray) >= m_pageSize\<close>. The casts to \<open>int\<close> take the
  low 32 bits; the subtraction of two numbers of that type may overflow, which is undefined.
\<close>

definition cArray_mustRealloc :: "'a cArray \<Rightarrow> nat \<Rightarrow> bool res" where
  "cArray_mustRealloc arr new_alloc =
     (let d = sint (word_of_nat new_alloc :: uint32) - sint (word_of_nat (m_alocatedArray arr) :: uint32) in
      if d < - (2 ^ 31) \<or> d \<ge> 2 ^ 31 then Inl UNDEFINED_BEHAVIOUR
      else bind_res (t_abs (word_of_int d :: uint32)) (\<lambda>a. Inr (m_pageSize arr \<le> unat (scast a :: uint64))))"

definition cArray_changeSize :: "'a cArray \<Rightarrow> nat \<Rightarrow> bool \<Rightarrow> 'a cArray res" where
  "cArray_changeSize arr newSize preserveMemory =
     (if newSize = 0 \<and> preserveMemory then Inr (arr\<lparr>m_size := newSize\<rparr>)
      else if newSize = 0 then Inr (cArray_freeArray arr)
      else if preserveMemory then
        (let new_alloc = cArray_pageRound arr newSize in
         bind_res (cArray_mustRealloc arr new_alloc) (\<lambda>mustRealloc.
         if mustRealloc then
           bind_res
             (case m_array arr of None \<Rightarrow> Inr (newT new_alloc)
              | Some old \<Rightarrow> copy_elems (newT new_alloc) old 0 0 0 (t_min newSize (m_size arr)))
             (\<lambda>buffer. Inr (arr\<lparr>m_array := Some buffer, m_size := newSize,
                                 m_alocatedArray := new_alloc\<rparr>))
         else Inr (arr\<lparr>m_size := newSize\<rparr>)))
      else
        (let alloc = cArray_pageRound arr newSize in
         Inr (arr\<lparr>m_array := Some (newT alloc), m_size := newSize, m_alocatedArray := alloc\<rparr>)))"

definition cSArray_changeSize :: "'a cArray \<Rightarrow> nat \<Rightarrow> bool \<Rightarrow> 'a cArray res" where
  "cSArray_changeSize arr newSize preserveMemory =
     (if newSize \<noteq> 0 \<and> preserveMemory then
        (let new_alloc = cArray_pageRound arr newSize in
         bind_res (cArray_mustRealloc arr new_alloc) (\<lambda>mustRealloc.
         if mustRealloc then
           bind_res
             (case m_array arr of None \<Rightarrow> Inr (newT new_alloc)
              | Some old \<Rightarrow> memcpy_elems (newT new_alloc) 0 old 0 (t_min newSize (m_size arr)))
             (\<lambda>buffer. Inr (arr\<lparr>m_array := Some buffer, m_size := newSize,
                                 m_alocatedArray := new_alloc\<rparr>))
         else Inr (arr\<lparr>m_size := newSize\<rparr>)))
      else cArray_changeSize arr newSize preserveMemory)"

subsection \<open>Copies, appends, element access\<close>

definition cArray_setBuf :: "'a option list \<Rightarrow> 'a cArray \<Rightarrow> 'a cArray" where
  "cArray_setBuf b arr = (case m_array arr of None \<Rightarrow> arr | Some _ \<Rightarrow> arr\<lparr>m_array := Some b\<rparr>)"

definition cArray_copyFrom :: "'a cArray \<Rightarrow> 'a cArray \<Rightarrow> 'a cArray res" where
  "cArray_copyFrom arr other =
     bind_res (cArray_changeSize (cArray_freeArray arr) (m_size other) True) (\<lambda>arr.
     bind_res (copy_elems (cArray_buf arr) (cArray_buf other) 0 0 0 (m_size other)) (\<lambda>b.
     Inr (cArray_setBuf b arr)))"

definition cArray_new_copy :: "'a cArray \<Rightarrow> 'a cArray res" where
  "cArray_new_copy other = cArray_copyFrom (cArray_initArray (m_pageSize other)) other"

definition cSArray_copyFrom :: "'a cArray \<Rightarrow> 'a cArray \<Rightarrow> 'a cArray res" where
  "cSArray_copyFrom arr other =
     bind_res (cSArray_changeSize (cArray_freeArray arr) (m_size other) True) (\<lambda>arr.
     bind_res (memcpy_elems (cArray_buf arr) 0 (cArray_buf other) 0 (m_size arr)) (\<lambda>b.
     Inr (cArray_setBuf b arr)))"

definition cArray_get :: "'a cArray \<Rightarrow> nat \<Rightarrow> 'a option res" where
  "cArray_get arr index =
     (if index \<ge> m_size arr then Inl EXCEPTION_OUT_OF_RANGE
      else if index < length (cArray_buf arr) then Inr (cArray_buf arr ! index)
      else Inl UNDEFINED_BEHAVIOUR)"

definition cArray_put :: "'a cArray \<Rightarrow> nat \<Rightarrow> 'a \<Rightarrow> 'a cArray res" where
  "cArray_put arr index x =
     (if index \<ge> m_size arr then Inl EXCEPTION_OUT_OF_RANGE
      else if index < length (cArray_buf arr) then
        Inr (cArray_setBuf ((cArray_buf arr)[index := Some x]) arr)
      else Inl UNDEFINED_BEHAVIOUR)"

definition cArray_append :: "'a cArray \<Rightarrow> 'a \<Rightarrow> 'a cArray res" where
  "cArray_append arr object =
     bind_res (cArray_changeSize arr (m_size arr + 1) True) (\<lambda>arr.
     if m_size arr - 1 < length (cArray_buf arr) then
       Inr (cArray_setBuf ((cArray_buf arr)[m_size arr - 1 := Some object]) arr)
     else Inl UNDEFINED_BEHAVIOUR)"

definition cArray_append_array :: "'a cArray \<Rightarrow> 'a cArray \<Rightarrow> 'a cArray res" where
  "cArray_append_array arr array =
     (let org_size = m_size arr; add_size = m_size array in
      bind_res (cArray_changeSize arr (m_size arr + m_size array) True) (\<lambda>arr.
      bind_res (copy_elems (cArray_buf arr) (cArray_buf array) org_size 0 0 add_size) (\<lambda>b.
      Inr (cArray_setBuf b arr))))"

text \<open>
  \<open>a.append(a)\<close>: the loop reads the array that it extends, so after the resize each round
  sees the rounds before it.
\<close>

fun copy_within :: "'a list \<Rightarrow> nat \<Rightarrow> nat \<Rightarrow> nat \<Rightarrow> 'a list res" where
  "copy_within b doff i 0 = Inr b"
| "copy_within b doff i (Suc k) =
     (if i + doff < length b then copy_within (b[i + doff := b ! i]) doff (i + 1) k
      else Inl UNDEFINED_BEHAVIOUR)"

definition cArray_append_self :: "'a cArray \<Rightarrow> 'a cArray res" where
  "cArray_append_self arr =
     (let org_size = m_size arr; add_size = m_size arr in
      bind_res (cArray_changeSize arr (m_size arr + m_size arr) True) (\<lambda>arr.
      bind_res (copy_within (cArray_buf arr) org_size 0 add_size) (\<lambda>b.
      Inr (cArray_setBuf b arr))))"

definition cArray_copyRange :: "'a cArray \<Rightarrow> 'a cArray \<Rightarrow> nat \<Rightarrow> nat \<Rightarrow> 'a cArray res" where
  "cArray_copyRange arr other startLocation cnt =
     bind_res (cArray_changeSize arr cnt False) (\<lambda>arr.
     bind_res (copy_elems (cArray_buf arr) (cArray_buf other) 0 startLocation 0 cnt) (\<lambda>b.
     Inr (cArray_setBuf b arr)))"

definition cSArray_append :: "'a cArray \<Rightarrow> 'a \<Rightarrow> 'a cArray res" where
  "cSArray_append arr object =
     bind_res (cSArray_changeSize arr (m_size arr + 1) True) (\<lambda>arr.
     bind_res (memcpy_elems (cArray_buf arr) (m_size arr - 1) [Some object] 0 1) (\<lambda>b.
     Inr (cArray_setBuf b arr)))"

definition cSArray_append_array :: "'a cArray \<Rightarrow> 'a cArray \<Rightarrow> 'a cArray res" where
  "cSArray_append_array arr array =
     (let org_size = m_size arr; add_size = m_size array in
      bind_res (cSArray_changeSize arr (m_size arr + m_size array) True) (\<lambda>arr.
      bind_res (memcpy_elems (cArray_buf arr) org_size (cArray_buf array) 0 add_size) (\<lambda>b.
      Inr (cArray_setBuf b arr))))"

definition cSArray_copyRange :: "'a cArray \<Rightarrow> 'a cArray \<Rightarrow> nat \<Rightarrow> nat \<Rightarrow> 'a cArray res" where
  "cSArray_copyRange arr other startLocation cnt =
     bind_res (cSArray_changeSize arr cnt False) (\<lambda>arr.
     bind_res (memcpy_elems (cArray_buf arr) 0 (cArray_buf other) startLocation cnt) (\<lambda>b.
     Inr (cArray_setBuf b arr)))"

definition cArray_plus :: "'a cArray \<Rightarrow> 'a cArray \<Rightarrow> 'a cArray res" where
  "cArray_plus arr other =
     bind_res (cArray_new_copy arr) (\<lambda>new. cArray_append_array new other)"

definition cArray_plus_object :: "'a cArray \<Rightarrow> 'a \<Rightarrow> 'a cArray res" where
  "cArray_plus_object arr object = bind_res (cArray_new_copy arr) (\<lambda>new. cArray_append new object)"

subsection \<open>Comparison of simple arrays\<close>

text \<open>\<open>memcmp\<close> on bytes: the sign of the first difference.\<close>

fun memcmp :: "uint8 list \<Rightarrow> uint8 list \<Rightarrow> nat \<Rightarrow> int" where
  "memcmp a b 0 = 0"
| "memcmp (x # a) (y # b) (Suc n) =
     (if x = y then memcmp a b n else if x < y then - 1 else 1)"
| "memcmp _ _ (Suc n) = 0"

definition cSArray_eq :: "uint8 list \<Rightarrow> uint8 list \<Rightarrow> bool" where
  "cSArray_eq this other =
     (if length other \<noteq> length this then False else memcmp this other (length this) = 0)"

definition cSArray_less :: "uint8 list \<Rightarrow> uint8 list \<Rightarrow> bool" where
  "cSArray_less this other =
     (if length other \<noteq> length this then length this < length other
      else memcmp this other (length this) < 0)"

subsection \<open>Lemmas on the copy loops\<close>

lemma copy_elems_eq:
  "i + k + soff \<le> length src \<Longrightarrow> i + k + doff \<le> length dst \<Longrightarrow>
     copy_elems dst src doff soff i k = Inr (memcpy_at dst (i + doff) (drop (i + soff) src) k)"
proof (induction dst src doff soff i k rule: copy_elems.induct)
  case (2 dst src doff soff i k)
  have "copy_elems dst src doff soff i (Suc k) =
      Inr (memcpy_at (dst[i + doff := src ! (i + soff)]) (i + 1 + doff) (drop (i + 1 + soff) src) k)"
    using 2 by simp
  also have "memcpy_at (dst[i + doff := src ! (i + soff)]) (i + 1 + doff) (drop (i + 1 + soff) src) k =
      memcpy_at dst (i + doff) (drop (i + soff) src) (Suc k)"
    using 2(2,3)
    by (intro nth_equalityI)
      (auto simp: nth_memcpy_at nth_list_update ac_simps Suc_diff_le Suc_diff_Suc
        not_less_eq_eq dest!: le_antisym)
  finally show ?case .
qed (simp add: memcpy_at_def)

lemma memcpy_elems_copy_elems:
  "doff + n \<le> length dst \<Longrightarrow> soff + n \<le> length src \<Longrightarrow>
     memcpy_elems dst doff src soff n = copy_elems dst src doff soff 0 n"
  by (simp add: copy_elems_eq memcpy_elems_def add.commute)

lemma copy_within_eq:
  "i + k \<le> doff \<Longrightarrow> i + k + doff \<le> length b \<Longrightarrow>
     copy_within b doff i k = Inr (memcpy_at b (i + doff) (drop i b) k)"
proof (induction b doff i k rule: copy_within.induct)
  case (2 b doff i k)
  have "copy_within b doff i (Suc k) =
      Inr (memcpy_at (b[i + doff := b ! i]) (i + 1 + doff) (drop (i + 1) (b[i + doff := b ! i])) k)"
    using 2 by simp
  also have "memcpy_at (b[i + doff := b ! i]) (i + 1 + doff) (drop (i + 1) (b[i + doff := b ! i])) k =
      memcpy_at b (i + doff) (drop i b) (Suc k)"
    using 2(2,3)
    by (intro nth_equalityI)
      (auto simp: nth_memcpy_at nth_list_update ac_simps Suc_diff_le Suc_diff_Suc
        not_less_eq_eq dest!: le_antisym)
  finally show ?case .
qed (simp add: memcpy_at_def)

subsection \<open>The invariant\<close>

text \<open>
  The allocation has the recorded size, holds the elements, is a multiple of a page size above
  one, and is below the range of \<open>int\<close>.
\<close>

definition cArray_inv :: "'a cArray \<Rightarrow> bool" where
  "cArray_inv arr \<longleftrightarrow>
     length (cArray_buf arr) = m_alocatedArray arr \<and>
     m_size arr \<le> m_alocatedArray arr \<and>
     (1 < m_pageSize arr \<longrightarrow> m_pageSize arr dvd m_alocatedArray arr) \<and>
     m_alocatedArray arr < 2 ^ 31 \<and>
     m_array arr \<noteq> Some []"

text \<open>The elements: the abstraction of the array to a list.\<close>

definition cArray_elems :: "'a cArray \<Rightarrow> 'a option list" where
  "cArray_elems arr = take (m_size arr) (cArray_buf arr)"

lemma length_newT [simp]: "length (newT n) = n"
  by (simp add: newT_def)

lemma length_elems: "cArray_inv arr \<Longrightarrow> length (cArray_elems arr) = m_size arr"
  by (simp add: cArray_inv_def cArray_elems_def)

lemma pageRound_bounds:
  "n \<le> cArray_pageRound arr n" "cArray_pageRound arr n < n + max 1 (m_pageSize arr)"
  "1 < m_pageSize arr \<Longrightarrow> m_pageSize arr dvd cArray_pageRound arr n"
proof -
  have "0 < m_pageSize arr \<Longrightarrow> n \<le> m_pageSize arr * (n div m_pageSize arr + 1) \<and>
      m_pageSize arr * (n div m_pageSize arr) \<le> n"
    using mult_div_bounds [of "m_pageSize arr" n] by (simp add: mult.commute)
  moreover have "n mod m_pageSize arr \<noteq> 0 \<Longrightarrow> m_pageSize arr * (n div m_pageSize arr) < n"
    by (metis add_gr_0 div_mult_mod_eq less_add_same_cancel1 mult.commute neq0_conv)
  ultimately show "n \<le> cArray_pageRound arr n" "cArray_pageRound arr n < n + max 1 (m_pageSize arr)"
    by (auto simp: cArray_pageRound_def max_def)
  show "1 < m_pageSize arr \<Longrightarrow> m_pageSize arr dvd cArray_pageRound arr n"
    by (auto simp: cArray_pageRound_def)
qed

lemma sint_word_of_int32:
  "- (2 ^ 31) \<le> d \<Longrightarrow> d < 2 ^ 31 \<Longrightarrow> sint (word_of_int d :: 32 word) = d"
  by (simp add: signed_of_int signed_take_bit_int_eq_self)

lemma mustRealloc_small:
  assumes "m_alocatedArray arr < 2 ^ 31" and "new_alloc < 2 ^ 31"
  shows "cArray_mustRealloc arr new_alloc = Inr (m_pageSize arr \<le> nat \<bar>int new_alloc - int (m_alocatedArray arr)\<bar>)"
proof -
  let ?d = "int new_alloc - int (m_alocatedArray arr)"
  have b: "- (2 ^ 31) < ?d" "?d < 2 ^ 31" "\<bar>?d\<bar> < 2 ^ 31" using assms by auto
  have s: "sint (word_of_nat new_alloc :: uint32) = int new_alloc"
    "sint (word_of_nat (m_alocatedArray arr) :: uint32) = int (m_alocatedArray arr)"
    using assms sint_word_of_int32 [of "int new_alloc"] sint_word_of_int32 [of "int (m_alocatedArray arr)"] by simp_all
  have d: "sint (word_of_int ?d :: 32 word) = ?d" using b by (intro sint_word_of_int32) auto
  have "t_abs (word_of_int ?d :: uint32) = Inr (word_of_int \<bar>?d\<bar>)"
    using b(1) d by (simp only: t_abs_def word_sless_alt) (auto simp: abs_if)
  moreover have "unat (scast (word_of_int \<bar>?d\<bar> :: uint32) :: uint64) = nat \<bar>?d\<bar>"
  proof -
    have "sint (word_of_int \<bar>?d\<bar> :: 32 word) = \<bar>?d\<bar>" using b by (intro sint_word_of_int32) auto
    moreover have "take_bit 64 \<bar>?d\<bar> = \<bar>?d\<bar>" using b(3) by (intro take_bit_int_eq_self) auto
    ultimately show ?thesis by (simp only: scast_eq) (simp add: unsigned_of_int)
  qed
  ultimately show ?thesis using b by (simp add: cArray_mustRealloc_def s Let_def)
qed

lemma mustRealloc_total:
  assumes "cArray_inv arr" and "new_alloc < 2 ^ 31"
    and "1 < m_pageSize arr \<longrightarrow> m_pageSize arr dvd new_alloc"
  shows "cArray_mustRealloc arr new_alloc = Inr True \<or>
    cArray_mustRealloc arr new_alloc = Inr False \<and> new_alloc = m_alocatedArray arr"
proof (cases "m_pageSize arr \<le> nat \<bar>int new_alloc - int (m_alocatedArray arr)\<bar>")
  case False
  let ?l = "m_alocatedArray arr" and ?p = "m_pageSize arr"
  have lt: "nat \<bar>int new_alloc - int ?l\<bar> < ?p" using False by simp
  have "new_alloc = ?l"
  proof (cases "1 < ?p")
    case True
    then have "int ?p dvd int new_alloc - int ?l"
      using assms by (simp add: cArray_inv_def int_dvd_int_iff)
    moreover have "\<bar>int new_alloc - int ?l\<bar> < int ?p"
      using lt by linarith
    ultimately show ?thesis
      by (metis abs_of_nat dvd_imp_le_int eq_iff_diff_eq_0 not_le of_nat_eq_iff)
  qed (use lt in auto)
  then show ?thesis using False assms mustRealloc_small [of arr new_alloc] by (simp add: cArray_inv_def)
qed (use assms mustRealloc_small [of arr new_alloc] in \<open>simp add: cArray_inv_def\<close>)

subsection \<open>Resizing\<close>

lemma cSArray_changeSize_eq:
  assumes "cArray_inv arr"
  shows "cSArray_changeSize arr n preserve = cArray_changeSize arr n preserve"
proof -
  have "memcpy_elems (newT (cArray_pageRound arr n)) 0 old 0 (t_min n (m_size arr)) =
      copy_elems (newT (cArray_pageRound arr n)) old 0 0 0 (t_min n (m_size arr))"
    if "m_array arr = Some old" for old
    using that assms pageRound_bounds(1) [of n arr]
    by (intro memcpy_elems_copy_elems) (auto simp: cArray_inv_def cArray_buf_def)
  then show ?thesis
    by (cases "cArray_mustRealloc arr (cArray_pageRound arr n)")
      (auto simp: cSArray_changeSize_def cArray_changeSize_def Let_def split: option.splits)
qed

lemma changeSize_cases:
  assumes "cArray_inv arr" and "cArray_pageRound arr n < 2 ^ 31" and "0 < n"
  shows "\<exists>b. cArray_changeSize arr n preserve =
           Inr (arr\<lparr>m_array := Some b, m_size := n, m_alocatedArray := cArray_pageRound arr n\<rparr>) \<and>
         length b = cArray_pageRound arr n \<and>
         (preserve \<longrightarrow> take (min n (m_size arr)) b = take (min n (m_size arr)) (cArray_buf arr))"
proof (cases "preserve \<and> cArray_mustRealloc arr (cArray_pageRound arr n) \<noteq> Inr True")
  case True
  have *: "cArray_pageRound arr n = m_alocatedArray arr" "cArray_mustRealloc arr (cArray_pageRound arr n) = Inr False"
    using True mustRealloc_total [OF assms(1,2)] pageRound_bounds(3) [of arr n] by auto
  then have "0 < m_alocatedArray arr"
    using assms(3) pageRound_bounds(1) [of n arr] by simp
  then obtain b where "m_array arr = Some b"
    using assms(1) by (cases "m_array arr") (auto simp: cArray_inv_def cArray_buf_def)
  then have "arr\<lparr>m_size := n\<rparr> =
      arr\<lparr>m_array := Some b, m_size := n, m_alocatedArray := cArray_pageRound arr n\<rparr>"
    using * by (cases arr) simp
  moreover have "cArray_changeSize arr n preserve = Inr (arr\<lparr>m_size := n\<rparr>)"
    using True assms(3) *(2) by (simp add: cArray_changeSize_def Let_def)
  moreover have "length b = cArray_pageRound arr n" "cArray_buf arr = b"
    using \<open>m_array arr = Some b\<close> assms(1) * by (auto simp: cArray_inv_def cArray_buf_def)
  ultimately show ?thesis
    by metis
next
  case False
  have cp: "copy_elems (newT (cArray_pageRound arr n)) old 0 0 0 (min n (m_size arr)) =
      Inr (memcpy_at (newT (cArray_pageRound arr n)) 0 old (min n (m_size arr)))"
    if "m_array arr = Some old" for old
    using that assms(1) pageRound_bounds(1) [of n arr]
    by (subst copy_elems_eq) (auto simp: cArray_inv_def cArray_buf_def)
  show ?thesis
  proof (cases "m_array arr")
    case None
    with False assms show ?thesis
      by (auto simp: cArray_changeSize_def Let_def cArray_buf_def cArray_inv_def)
  next
    case (Some old)
    with cp [OF Some] False assms pageRound_bounds(1) [of n arr] show ?thesis
      by (auto simp: cArray_changeSize_def Let_def cArray_buf_def cArray_inv_def memcpy_at_def)
  qed
qed

lemma changeSize_inv:
  assumes "cArray_inv arr" and "cArray_pageRound arr n < 2 ^ 31"
    and "cArray_changeSize arr n preserve = Inr arr'"
  shows "cArray_inv arr' \<and> m_size arr' = n \<and> m_pageSize arr' = m_pageSize arr"
proof (cases "n = 0")
  case True
  with assms show ?thesis
    by (cases preserve) (auto simp: cArray_changeSize_def cArray_inv_def cArray_freeArray_def cArray_buf_def)
next
  case False
  obtain b where b: "arr' = arr\<lparr>m_array := Some b, m_size := n, m_alocatedArray := cArray_pageRound arr n\<rparr>"
      "length b = cArray_pageRound arr n"
    using changeSize_cases [OF assms(1,2), of preserve] False assms(3) by auto
  then show ?thesis
    using assms(2) pageRound_bounds(1) [of n arr] pageRound_bounds(3) [of arr n] False
    by (auto simp: cArray_inv_def cArray_buf_def)
qed

text \<open>The elements after a resize: the common prefix is kept.\<close>

lemma changeSize_ok:
  assumes "cArray_inv arr" and "cArray_pageRound arr n < 2 ^ 31"
  obtains arr' where "cArray_changeSize arr n preserve = Inr arr'"
    and "cArray_inv arr'" and "m_size arr' = n" and "m_pageSize arr' = m_pageSize arr"
    and "preserve \<Longrightarrow>
      take (min n (m_size arr)) (cArray_elems arr') = take (min n (m_size arr)) (cArray_elems arr)"
proof (cases "n = 0")
  case True
  then obtain arr' where "cArray_changeSize arr n preserve = Inr arr'"
    by (cases preserve) (auto simp: cArray_changeSize_def)
  with changeSize_inv [OF assms this] True show ?thesis
    by (intro that [of arr']) auto
next
  case False
  then obtain b where b: "cArray_changeSize arr n preserve =
      Inr (arr\<lparr>m_array := Some b, m_size := n, m_alocatedArray := cArray_pageRound arr n\<rparr>)"
      "preserve \<longrightarrow> take (min n (m_size arr)) b = take (min n (m_size arr)) (cArray_buf arr)"
    using changeSize_cases [OF assms] by blast
  with changeSize_inv [OF assms b(1)] show ?thesis
    by (intro that [OF b(1)]) (auto simp: cArray_elems_def cArray_buf_def min_def)
qed

lemma setBuf_props:
  "length b = length (cArray_buf arr) \<Longrightarrow>
     m_size (cArray_setBuf b arr) = m_size arr \<and>
     m_pageSize (cArray_setBuf b arr) = m_pageSize arr \<and>
     cArray_buf (cArray_setBuf b arr) = b \<and>
     (cArray_inv arr \<longrightarrow> cArray_inv (cArray_setBuf b arr))"
  by (auto simp: cArray_setBuf_def cArray_buf_def cArray_inv_def split: option.splits)

text \<open>Storing a block behind the elements after a resize appends it.\<close>

lemma append_block:
  assumes inv: "cArray_inv arr" and fits: "cArray_pageRound arr (m_size arr + k) < 2 ^ 31"
    and k: "k \<le> length src"
  obtains arr' arr'' where "cArray_changeSize arr (m_size arr + k) True = Inr arr'"
    and "m_size arr' = m_size arr + k" and "m_size arr + k \<le> length (cArray_buf arr')"
    and "arr'' = cArray_setBuf (memcpy_at (cArray_buf arr') (m_size arr) src k) arr'"
    and "cArray_inv arr''" and "cArray_elems arr'' = cArray_elems arr @ take k src"
    and "m_pageSize arr'' = m_pageSize arr" and "cArray_inv arr'"
    and "take (m_size arr) (cArray_buf arr') = cArray_elems arr"
proof -
  obtain arr' where c: "cArray_changeSize arr (m_size arr + k) True = Inr arr'" "cArray_inv arr'"
      "m_size arr' = m_size arr + k" "m_pageSize arr' = m_pageSize arr"
      "take (m_size arr) (cArray_elems arr') = take (m_size arr) (cArray_elems arr)"
    using changeSize_ok [OF inv fits, of True] by (metis le_add1 min.absorb2)
  let ?b = "memcpy_at (cArray_buf arr') (m_size arr) src k"
  have len: "m_size arr + k \<le> length (cArray_buf arr')"
    using c(2,3) by (simp add: cArray_inv_def)
  have pre: "take (m_size arr) (cArray_buf arr') = cArray_elems arr"
    using c(3,5) length_elems [OF inv] by (simp add: cArray_elems_def)
  have s: "m_size (cArray_setBuf ?b arr') = m_size arr + k" "cArray_inv (cArray_setBuf ?b arr')"
      "cArray_buf (cArray_setBuf ?b arr') = ?b" "m_pageSize (cArray_setBuf ?b arr') = m_pageSize arr"
    using setBuf_props [of ?b arr'] len k c by simp_all
  have "cArray_elems (cArray_setBuf ?b arr') = cArray_elems arr @ take k src"
    using len k pre by (simp add: cArray_elems_def [of "cArray_setBuf _ _"] s take_memcpy_at)
  with c len s pre show ?thesis
    by (intro that [OF c(1,3) len refl]) auto
qed

lemma cArray_append_ok:
  assumes "cArray_inv arr" and "cArray_pageRound arr (m_size arr + 1) < 2 ^ 31"
  shows "\<exists>arr'. cArray_append arr x = Inr arr' \<and> cArray_inv arr' \<and>
           cArray_elems arr' = cArray_elems arr @ [Some x] \<and> m_pageSize arr' = m_pageSize arr"
proof -
  obtain arr' arr'' where *: "cArray_changeSize arr (m_size arr + 1) True = Inr arr'"
      "m_size arr' = m_size arr + 1" "m_size arr + 1 \<le> length (cArray_buf arr')"
      "arr'' = cArray_setBuf (memcpy_at (cArray_buf arr') (m_size arr) [Some x] 1) arr'"
      "cArray_inv arr''" "cArray_elems arr'' = cArray_elems arr @ take 1 [Some x]"
      "m_pageSize arr'' = m_pageSize arr"
    using append_block [OF assms, of "[Some x]"] by (metis length_Cons list.size(3) One_nat_def order_refl)
  have "memcpy_at (cArray_buf arr') (m_size arr) [Some x] 1 = (cArray_buf arr')[m_size arr := Some x]"
    using *(3) by (simp add: memcpy_at_def upd_conv_take_nth_drop)
  with * show ?thesis
    by (simp add: cArray_append_def)
qed

lemma cArray_append_array_ok:
  assumes "cArray_inv arr" and "cArray_inv other"
    and "cArray_pageRound arr (m_size arr + m_size other) < 2 ^ 31"
  shows "\<exists>arr'. cArray_append_array arr other = Inr arr' \<and> cArray_inv arr' \<and>
           cArray_elems arr' = cArray_elems arr @ cArray_elems other \<and>
           m_pageSize arr' = m_pageSize arr"
proof -
  have le: "m_size other \<le> length (cArray_buf other)"
    using assms(2) by (simp add: cArray_inv_def)
  obtain arr' arr'' where *: "cArray_changeSize arr (m_size arr + m_size other) True = Inr arr'"
      "m_size arr + m_size other \<le> length (cArray_buf arr')"
      "arr'' = cArray_setBuf (memcpy_at (cArray_buf arr') (m_size arr) (cArray_buf other) (m_size other)) arr'"
      "cArray_inv arr''" "cArray_elems arr'' = cArray_elems arr @ take (m_size other) (cArray_buf other)"
      "m_pageSize arr'' = m_pageSize arr"
    using append_block [OF assms(1,3) le] by metis
  moreover from * le have "copy_elems (cArray_buf arr') (cArray_buf other) (m_size arr) 0 0 (m_size other) =
      Inr (memcpy_at (cArray_buf arr') (m_size arr) (cArray_buf other) (m_size other))"
    by (subst copy_elems_eq) simp_all
  ultimately show ?thesis
    by (simp add: cArray_append_array_def cArray_elems_def [of other])
qed

lemma cArray_append_self_ok:
  assumes "cArray_inv arr" and "cArray_pageRound arr (m_size arr + m_size arr) < 2 ^ 31"
  shows "\<exists>arr'. cArray_append_self arr = Inr arr' \<and> cArray_inv arr' \<and>
           cArray_elems arr' = cArray_elems arr @ cArray_elems arr"
proof -
  have le: "m_size arr \<le> length (cArray_elems arr)"
    by (simp add: length_elems assms(1))
  obtain arr' arr'' where *: "cArray_changeSize arr (m_size arr + m_size arr) True = Inr arr'"
      "m_size arr + m_size arr \<le> length (cArray_buf arr')"
      "arr'' = cArray_setBuf (memcpy_at (cArray_buf arr') (m_size arr) (cArray_elems arr) (m_size arr)) arr'"
      "cArray_inv arr''" "cArray_elems arr'' = cArray_elems arr @ take (m_size arr) (cArray_elems arr)"
      "take (m_size arr) (cArray_buf arr') = cArray_elems arr"
    using append_block [OF assms le] by metis
  moreover have "memcpy_at (cArray_buf arr') (m_size arr) (cArray_buf arr') (m_size arr) =
      memcpy_at (cArray_buf arr') (m_size arr) (cArray_elems arr) (m_size arr)"
    using *(6) le length_elems [OF assms(1)] by (simp add: memcpy_at_def)
  ultimately show ?thesis
    using le by (simp add: cArray_append_self_def copy_within_eq length_elems assms(1))
qed

lemma cArray_copyFrom_ok:
  assumes "cArray_inv arr" and "cArray_inv other" and "cArray_pageRound arr (m_size other) < 2 ^ 31"
  shows "\<exists>arr'. cArray_copyFrom arr other = Inr arr' \<and> cArray_inv arr' \<and>
           cArray_elems arr' = cArray_elems other \<and> m_pageSize arr' = m_pageSize arr"
proof -
  have "cArray_inv (cArray_freeArray arr)" "cArray_pageRound (cArray_freeArray arr) k = cArray_pageRound arr k"
      "m_size (cArray_freeArray arr) = 0" "m_pageSize (cArray_freeArray arr) = m_pageSize arr" for k
    by (simp_all add: cArray_inv_def cArray_freeArray_def cArray_buf_def cArray_pageRound_def)
  then show ?thesis
    using cArray_append_array_ok [of "cArray_freeArray arr" other] assms
    by (auto simp: cArray_append_array_def cArray_copyFrom_def cArray_elems_def [of "cArray_freeArray _"]
        Let_def)
qed

lemma cArray_copyRange_ok:
  assumes "cArray_inv arr" and "cArray_inv other" and "cArray_pageRound arr n < 2 ^ 31"
    and "start + n \<le> m_size other"
  shows "\<exists>arr'. cArray_copyRange arr other start n = Inr arr' \<and> cArray_inv arr' \<and>
           cArray_elems arr' = take n (drop start (cArray_elems other)) \<and>
           m_pageSize arr' = m_pageSize arr"
proof -
  obtain arr' where c: "cArray_changeSize arr n False = Inr arr'" "cArray_inv arr'" "m_size arr' = n"
      "m_pageSize arr' = m_pageSize arr"
    using changeSize_ok [OF assms(1,3)] by metis
  let ?b = "memcpy_at (cArray_buf arr') 0 (drop start (cArray_buf other)) n"
  have le: "start + n \<le> length (cArray_buf other)" "n \<le> length (cArray_buf arr')"
    using assms(2,4) c(2,3) by (simp_all add: cArray_inv_def)
  have s: "m_size (cArray_setBuf ?b arr') = n" "cArray_inv (cArray_setBuf ?b arr')"
      "cArray_buf (cArray_setBuf ?b arr') = ?b" "m_pageSize (cArray_setBuf ?b arr') = m_pageSize arr"
    using setBuf_props [of ?b arr'] le c by simp_all
  have "take n (drop start (cArray_elems other)) = take n (drop start (cArray_buf other))"
    using assms(4) by (simp add: cArray_elems_def drop_take min_def)
  then have "cArray_elems (cArray_setBuf ?b arr') = take n (drop start (cArray_elems other))"
    using le by (simp add: cArray_elems_def [of "cArray_setBuf _ _"] s take_memcpy_at [of 0, simplified])
  moreover have "copy_elems (cArray_buf arr') (cArray_buf other) 0 start 0 n = Inr ?b"
    using le by (subst copy_elems_eq) (simp_all add: add.commute)
  ultimately show ?thesis
    using s c by (simp add: cArray_copyRange_def)
qed

lemma cSArray_ops_eq:
  assumes "cArray_inv arr"
  shows "cArray_pageRound arr (m_size arr + 1) < 2 ^ 31 \<Longrightarrow>
           cSArray_append arr x = cArray_append arr x"
    and "cArray_inv other \<Longrightarrow> cArray_pageRound arr (m_size arr + m_size other) < 2 ^ 31 \<Longrightarrow>
           cSArray_append_array arr other = cArray_append_array arr other"
proof -
  show "cSArray_append arr x = cArray_append arr x"
    if fits: "cArray_pageRound arr (m_size arr + 1) < 2 ^ 31"
  proof -
    obtain arr' where *: "cArray_changeSize arr (m_size arr + 1) True = Inr arr'"
        "cArray_inv arr'" "m_size arr' = m_size arr + 1"
      using changeSize_ok [OF assms fits] by metis
    then have "m_size arr + 1 \<le> length (cArray_buf arr')"
      by (simp add: cArray_inv_def)
    then have "memcpy_elems (cArray_buf arr') (m_size arr) [Some x] 0 1 =
        Inr ((cArray_buf arr')[m_size arr := Some x])"
      by (simp add: memcpy_elems_def memcpy_at_def upd_conv_take_nth_drop)
    then show ?thesis
      using * \<open>m_size arr + 1 \<le> length (cArray_buf arr')\<close>
      by (simp add: cSArray_append_def cArray_append_def cSArray_changeSize_eq [OF assms])
  qed
  show "cSArray_append_array arr other = cArray_append_array arr other"
    if o: "cArray_inv other" and fits: "cArray_pageRound arr (m_size arr + m_size other) < 2 ^ 31"
  proof -
    obtain arr' where *: "cArray_changeSize arr (m_size arr + m_size other) True = Inr arr'"
        "cArray_inv arr'" "m_size arr' = m_size arr + m_size other"
      using changeSize_ok [OF assms fits] by metis
    then have "memcpy_elems (cArray_buf arr') (m_size arr) (cArray_buf other) 0 (m_size other) =
        copy_elems (cArray_buf arr') (cArray_buf other) (m_size arr) 0 0 (m_size other)"
      using o by (intro memcpy_elems_copy_elems) (simp_all add: cArray_inv_def)
    then show ?thesis
      using * by (simp add: cSArray_append_array_def cArray_append_array_def Let_def
          cSArray_changeSize_eq [OF assms])
  qed
qed

subsection \<open>The interface of a growing array\<close>

text \<open>A client appends one element after the other; the first exception stops it.\<close>

fun append_all :: "('arr \<Rightarrow> 'a \<Rightarrow> 'arr res) \<Rightarrow> 'arr \<Rightarrow> 'a list \<Rightarrow> 'arr res" where
  "append_all app arr [] = Inr arr"
| "append_all app arr (x # xs) = bind_res (app arr x) (\<lambda>arr. append_all app arr xs)"

locale growing_array =
  fixes inv :: "'arr \<Rightarrow> bool"
    and elems :: "'arr \<Rightarrow> 'a option list"
    and room :: "'arr \<Rightarrow> nat"
    and append1 :: "'arr \<Rightarrow> 'a \<Rightarrow> 'arr res"
    and append_array :: "'arr \<Rightarrow> 'arr \<Rightarrow> 'arr res"
  assumes append1_ok: "inv arr \<Longrightarrow> 0 < room arr \<Longrightarrow>
      \<exists>arr'. append1 arr x = Inr arr' \<and> inv arr' \<and> elems arr' = elems arr @ [Some x] \<and>
             room arr' = room arr - 1"
    and append_array_ok: "inv arr \<Longrightarrow> inv other \<Longrightarrow> length (elems other) \<le> room arr \<Longrightarrow>
      \<exists>arr'. append_array arr other = Inr arr' \<and> inv arr' \<and> elems arr' = elems arr @ elems other \<and>
             room arr' = room arr - length (elems other)"
begin

lemma append_all_ok:
  "inv arr \<Longrightarrow> length xs \<le> room arr \<Longrightarrow>
     \<exists>arr'. append_all append1 arr xs = Inr arr' \<and> inv arr' \<and>
            elems arr' = elems arr @ map Some xs \<and> room arr' = room arr - length xs"
proof (induction xs arbitrary: arr)
  case (Cons x xs)
  obtain arr' where *: "append1 arr x = Inr arr'" "inv arr'" "elems arr' = elems arr @ [Some x]"
      "room arr' = room arr - 1"
    using append1_ok [of arr x] Cons.prems by auto
  with Cons.IH [of arr'] Cons.prems show ?case
    by auto
qed auto

lemma append_all_append_array:
  assumes "inv arr" and "inv other" and "elems other = map Some xs" and "length xs \<le> room arr"
  obtains arr1 arr2 where "append_all append1 arr xs = Inr arr1" and "append_array arr other = Inr arr2"
    and "elems arr1 = elems arr2"
  using append_all_ok [OF assms(1,4)] append_array_ok [OF assms(1,2)] assms(3,4) by auto

end

text \<open>How many more elements fit without leaving the range of \<open>int\<close>.\<close>

definition cArray_room :: "'a cArray \<Rightarrow> nat" where
  "cArray_room arr = 2 ^ 31 - 1 - m_pageSize arr - m_size arr"

lemma dvd_less_add: "d dvd x \<Longrightarrow> d dvd y \<Longrightarrow> x < y + d \<Longrightarrow> x \<le> (y :: nat)"
proof -
  assume "d dvd x" "d dvd y" "x < y + d"
  then obtain a b where "x = d * a" "y = d * b" "d * a < d * (b + 1)"
    by (auto elim!: dvdE)
  then show ?thesis
    by (metis Suc_eq_plus1 less_Suc_eq_le mult_le_mono2 mult_less_cancel1)
qed

lemma pageRound_size: "cArray_inv arr \<Longrightarrow> cArray_pageRound arr (m_size arr) \<le> m_alocatedArray arr"
  using dvd_less_add [of "m_pageSize arr" "cArray_pageRound arr (m_size arr)" "m_alocatedArray arr"]
    pageRound_bounds(2,3) [of arr "m_size arr"]
  by (cases "1 < m_pageSize arr") (auto simp: cArray_inv_def cArray_pageRound_def)

lemma room_fits:
  assumes "cArray_inv arr" and "k \<le> cArray_room arr"
  shows "cArray_pageRound arr (m_size arr + k) < 2 ^ 31"
proof (cases "k = 0")
  case True
  then show ?thesis
    using pageRound_size [OF assms(1)] assms(1) by (simp add: cArray_inv_def)
next
  case False
  then show ?thesis
    using pageRound_bounds(2) [of arr "m_size arr + k"] assms(2)
    by (auto simp: cArray_room_def max_def split: if_splits)
qed

lemma room_after:
  assumes "cArray_inv arr" and "cArray_inv arr'" and "m_pageSize arr' = m_pageSize arr"
    and "cArray_elems arr' = cArray_elems arr @ xs"
  shows "cArray_room arr' = cArray_room arr - length xs"
  using assms length_elems [OF assms(1)] length_elems [OF assms(2)] by (simp add: cArray_room_def)

lemma append1_law:
  assumes "cArray_inv arr" and "0 < cArray_room arr"
  shows "\<exists>arr'. cArray_append arr x = Inr arr' \<and> cArray_inv arr' \<and>
           cArray_elems arr' = cArray_elems arr @ [Some x] \<and> cArray_room arr' = cArray_room arr - 1"
proof -
  have "cArray_pageRound arr (m_size arr + 1) < 2 ^ 31"
    using assms by (intro room_fits) auto
  from cArray_append_ok [OF assms(1) this, of x] obtain arr' where
    *: "cArray_append arr x = Inr arr'" "cArray_inv arr'" "cArray_elems arr' = cArray_elems arr @ [Some x]"
      "m_pageSize arr' = m_pageSize arr"
    by blast
  with room_after [OF assms(1) *(2,4,3)] show ?thesis
    by auto
qed

lemma append_array_law:
  assumes "cArray_inv arr" and "cArray_inv other" and "length (cArray_elems other) \<le> cArray_room arr"
  shows "\<exists>arr'. cArray_append_array arr other = Inr arr' \<and> cArray_inv arr' \<and>
           cArray_elems arr' = cArray_elems arr @ cArray_elems other \<and>
           cArray_room arr' = cArray_room arr - length (cArray_elems other)"
proof -
  have "cArray_pageRound arr (m_size arr + m_size other) < 2 ^ 31"
    using assms by (intro room_fits) (simp_all add: length_elems)
  from cArray_append_array_ok [OF assms(1,2) this] obtain arr' where
    *: "cArray_append_array arr other = Inr arr'" "cArray_inv arr'"
      "cArray_elems arr' = cArray_elems arr @ cArray_elems other" "m_pageSize arr' = m_pageSize arr"
    by blast
  with room_after [OF assms(1) *(2,4,3)] show ?thesis
    by auto
qed

interpretation carr: growing_array cArray_inv cArray_elems cArray_room cArray_append cArray_append_array
  by unfold_locales (fact append1_law append_array_law)+

text \<open>Under the invariant \<open>cSArray\<close> computes what \<open>cArray\<close> does, so it is one as well.\<close>

lemma cSArray_ops_eq_room:
  assumes "cArray_inv arr"
  shows "0 < cArray_room arr \<Longrightarrow> cSArray_append arr x = cArray_append arr x"
    and "cArray_inv other \<Longrightarrow> length (cArray_elems other) \<le> cArray_room arr \<Longrightarrow>
           cSArray_append_array arr other = cArray_append_array arr other"
  using cSArray_ops_eq [OF assms] room_fits [OF assms, of 1] room_fits [OF assms]
  by (simp_all add: length_elems Suc_le_eq)

interpretation sarr: growing_array cArray_inv cArray_elems cArray_room cSArray_append cSArray_append_array
  by unfold_locales
    (simp_all only: cSArray_ops_eq_room append1_law append_array_law)

subsection \<open>Comparison\<close>

lemma memcmp_sign: "length a = length b \<Longrightarrow>
   (memcmp a b (length a) = 0 \<longleftrightarrow> a = b) \<and>
   (memcmp a b (length a) < 0 \<longleftrightarrow> (a, b) \<in> lex {(x, y). x < y})"
  by (induction a b rule: list_induct2) (auto simp: Cons_in_lex)

lemma cSArray_eq_iff: "cSArray_eq a b \<longleftrightarrow> a = b"
  using memcmp_sign [of a b] by (auto simp: cSArray_eq_def)

lemma cSArray_less_iff: "cSArray_less a b \<longleftrightarrow> (a, b) \<in> lenlex {(x, y). x < y}"
  using memcmp_sign [of a b] by (auto simp: cSArray_less_def lenlex_conv)

lemma byte_order: "trans {(x, y). x < (y :: uint8)}" "irrefl {(x, y). x < (y :: uint8)}"
  "total {(x, y). x < (y :: uint8)}" "asym {(x, y). x < (y :: uint8)}"
  by (auto simp: trans_def irrefl_def total_on_def asym_on_def)

subsection \<open>Properties\<close>

text \<open>
  C29: in the invariant a resize succeeds as long as the new size and a page stay below the
  range of \<open>int\<close>; it sets the size, keeps the invariant and the page size, preserves
  the common prefix when asked to, and the element loop of \<open>cArray\<close> and the \<open>memcpy\<close> of
  \<open>cSArray\<close> give the same array.
\<close>

theorem changeSize_spec:
  "cArray_inv arr \<Longrightarrow> n + m_pageSize arr < 2 ^ 31 \<Longrightarrow>
     \<exists>arr'. cArray_changeSize arr n preserve = Inr arr' \<and> cSArray_changeSize arr n preserve = Inr arr' \<and>
       cArray_inv arr' \<and> length (cArray_elems arr') = n \<and> m_pageSize arr' = m_pageSize arr \<and>
       (preserve \<longrightarrow> take (min n (m_size arr)) (cArray_elems arr') =
                     take (min n (m_size arr)) (cArray_elems arr))"
proof -
  assume inv: "cArray_inv arr" and n: "n + m_pageSize arr < 2 ^ 31"
  then have "cArray_pageRound arr n < 2 ^ 31"
    using pageRound_bounds(2) [of arr n] by (auto simp: max_def split: if_splits)
  with changeSize_ok [OF inv] length_elems cSArray_changeSize_eq [OF inv] show ?thesis
    by metis
qed

theorem changeSize_spec_witness:
  "\<exists>arr'. cSArray_changeSize (cArray_new 3 4 :: nat cArray) 9 True = Inr arr' \<and> cArray_inv arr'"
proof -
  have "cArray_inv (cArray_new 3 4 :: nat cArray)"
    by (simp add: cArray_inv_def cArray_new_def cArray_initArray_def cArray_pageRound_def Let_def
        cArray_buf_def newT_def)
  then show ?thesis
    using changeSize_spec [of "cArray_new 3 4 :: nat cArray" 9 True]
    by (auto simp: cArray_new_def cArray_initArray_def Let_def)
qed

text \<open>
  Appending a list of objects one by one and appending an array of the same objects both
  succeed within the available room and leave the old elements followed by the new ones, in
  \<open>cArray\<close> and in \<open>cSArray\<close>; appending an array to itself doubles it.
\<close>

theorem append_spec:
  "cArray_inv arr \<Longrightarrow> cArray_inv other \<Longrightarrow> cArray_elems other = map Some xs \<Longrightarrow>
   length xs \<le> cArray_room arr \<Longrightarrow> m_size arr \<le> cArray_room arr \<Longrightarrow>
     (\<exists>a b c d e. append_all cArray_append arr xs = Inr a \<and> cArray_append_array arr other = Inr b \<and>
        append_all cSArray_append arr xs = Inr c \<and> cSArray_append_array arr other = Inr d \<and>
        cArray_append_self arr = Inr e \<and> cArray_inv a \<and> cArray_inv b \<and> cArray_inv e \<and>
        cArray_elems a = cArray_elems arr @ map Some xs \<and> cArray_elems b = cArray_elems a \<and>
        cArray_elems c = cArray_elems a \<and> cArray_elems d = cArray_elems a \<and>
        cArray_elems e = cArray_elems arr @ cArray_elems arr)"
  using carr.append_all_ok [of arr xs] carr.append_array_ok [of arr other]
    sarr.append_all_ok [of arr xs] sarr.append_array_ok [of arr other]
    cArray_append_self_ok [of arr] room_fits [of arr "m_size arr"]
  by fastforce

theorem append_spec_witness:
  "\<exists>a. append_all cArray_append (cArray_initArray 4) [7, 8 :: nat] = Inr a \<and>
       cArray_elems a = [Some 7, Some 8]"
proof -
  have "cArray_inv \<lparr>m_array = Some [Some 7, Some 8], m_size = 2, m_alocatedArray = 2, m_pageSize = 0\<rparr>"
    "cArray_elems \<lparr>m_array = Some [Some 7, Some 8 :: nat option], m_size = 2, m_alocatedArray = 2, m_pageSize = 0\<rparr>
       = map Some [7, 8]" "cArray_inv (cArray_initArray 4 :: nat cArray)"
    by (simp_all add: cArray_inv_def cArray_elems_def cArray_buf_def cArray_initArray_def)
  with append_spec [OF this(3,1,2)] show ?thesis
    by (auto simp: cArray_room_def cArray_initArray_def cArray_elems_def cArray_buf_def)
qed

text \<open>
  Setting a page size breaks the invariant. An append to a full array then extends the array in
  place and writes behind its buffer, unless the size is a multiple of the page size, where the
  difference of the two allocations is a whole page.
\<close>

lemma setPageSize_append:
  assumes "cArray_inv arr" and "m_size arr = m_alocatedArray arr" and "1 < p" and "m_size arr + p < 2 ^ 31"
    and "m_array arr \<noteq> None"
  shows "cArray_append (cArray_setPageSize arr p) x = Inl UNDEFINED_BEHAVIOUR \<longleftrightarrow> \<not> p dvd m_size arr"
proof -
  let ?a = "arr\<lparr>m_pageSize := p\<rparr>" and ?n = "m_size arr"
  let ?new = "cArray_pageRound ?a (?n + 1)"
  obtain b where b: "m_array arr = Some b" "length b = ?n"
    using assms(1,2,5) by (auto simp: cArray_inv_def cArray_buf_def)
  have new: "?n < ?new" "?new \<le> ?n + p" "p dvd ?new"
    using pageRound_bounds [where n = "?n + 1" and arr = ?a] pageRound_bounds(3) [of ?a "?n + 1"] assms(3) by simp_all
  have must: "cArray_mustRealloc ?a ?new = Inr (p \<le> ?new - ?n)"
    using mustRealloc_small [of ?a ?new] new assms by (simp add: nat_minus_as_int)
  have whole: "p \<le> ?new - ?n \<longleftrightarrow> p dvd ?n"
  proof
    assume "p \<le> ?new - ?n"
    then have "?new = ?n + p" using new by linarith
    then show "p dvd ?n" using new(3) by simp
  next
    assume "p dvd ?n"
    then have "p dvd ?new - ?n" using new(3) by (rule dvd_diff_nat [rotated])
    then show "p \<le> ?new - ?n" using new(1) by (intro dvd_imp_le) auto
  qed
  show ?thesis
  proof (cases "p dvd ?n")
    case True
    have "copy_elems (newT ?new) b 0 0 0 ?n = Inr (memcpy_at (newT ?new) 0 b ?n)"
      using new b by (subst copy_elems_eq) auto
    then show ?thesis
      using True b new must whole
      by (auto simp: cArray_append_def cArray_setPageSize_def cArray_changeSize_def Let_def cArray_buf_def cArray_setBuf_def)
  next
    case False
    then show ?thesis
      using b must whole
      by (simp add: cArray_append_def cArray_setPageSize_def cArray_changeSize_def Let_def cArray_buf_def)
  qed
qed

text \<open>
  The comparison operators of \<open>cSArray\<close> of bytes: equality is equality of the contents,
  and \<open>operator <\<close> is a strict total order that compares lengths first.
\<close>

lemma cSArray_order:
  "(cSArray_eq a b \<longleftrightarrow> a = b) \<and> \<not> cSArray_less a a \<and>
   (cSArray_less a b \<or> cSArray_eq a b \<or> cSArray_less b a) \<and>
   \<not> (cSArray_less a b \<and> cSArray_less b a) \<and>
   \<not> (cSArray_less a b \<and> cSArray_less b c \<and> \<not> cSArray_less a c)"
proof -
  let ?R = "{(x, y). x < (y :: uint8)}"
  have irr: "(u, u) \<notin> lenlex ?R" for u
    using byte_order(2) by (simp add: lenlex_irreflexive irrefl_def)
  have tr: "(u, v) \<in> lenlex ?R \<Longrightarrow> (v, w) \<in> lenlex ?R \<Longrightarrow> (u, w) \<in> lenlex ?R" for u v w
    using lenlex_transI [OF byte_order(1)] by (rule transD)
  have tot: "(u, v) \<in> lenlex ?R \<or> u = v \<or> (v, u) \<in> lenlex ?R" for u v
    using total_lenlex [OF byte_order(3)] by (auto simp: total_on_def)
  show ?thesis
    unfolding cSArray_eq_iff cSArray_less_iff using irr tot [of a b] tr [of a b a] tr [of a b c]
    by blast
qed

end
