(* ===== verification/XQueueFifo.thy ===== *)
theory XQueueFifo
  imports XPrelude
begin

text \<open>
  The byte queue \<open>cQueueFifo\<close> of Source/xStl/data/queueFifo.cpp: a ring buffer with a read
  and a write pointer, and a flag that tells a full queue from an empty one when they meet.
  The refinement shows that it is a bounded first-in first-out queue.
\<close>

record cQueueFifo =
  m_queue :: "uint8 list"
  m_readPointer :: nat
  m_writePointer :: nat
  m_isFull :: bool
  m_queueSize :: nat

text \<open>The constructor allocates \<open>m_queue\<close>; \<open>mem\<close> is what the new cells happen to hold.\<close>

definition cQueueFifo_new :: "uint8 list \<Rightarrow> cQueueFifo" where
  "cQueueFifo_new mem =
     \<lparr>m_queue = mem, m_readPointer = 0, m_writePointer = 0, m_isFull = False,
      m_queueSize = length mem\<rparr>"

definition cQueueFifo_getFreespace :: "cQueueFifo \<Rightarrow> nat" where
  "cQueueFifo_getFreespace q =
     (if m_readPointer q = m_writePointer q then (if m_isFull q then 0 else m_queueSize q)
      else if m_readPointer q \<le> m_writePointer q
        then m_queueSize q - m_writePointer q + m_readPointer q
        else m_readPointer q - m_writePointer q)"

definition cQueueFifo_getOccupyspace :: "cQueueFifo \<Rightarrow> nat" where
  "cQueueFifo_getOccupyspace q = m_queueSize q - cQueueFifo_getFreespace q"

definition cQueueFifo_getQueueFreespace :: "cQueueFifo \<Rightarrow> nat" where
  "cQueueFifo_getQueueFreespace q = cQueueFifo_getFreespace q"

definition cQueueFifo_getQueueOccupyspace :: "cQueueFifo \<Rightarrow> nat" where
  "cQueueFifo_getQueueOccupyspace q = cQueueFifo_getOccupyspace q"

definition cQueueFifo_write :: "cQueueFifo \<Rightarrow> uint8 list \<Rightarrow> nat \<Rightarrow> cQueueFifo \<times> nat" where
  "cQueueFifo_write q0 buffer count0 =
     (let freespace = cQueueFifo_getFreespace q0;
          (cnt, q) = (if count0 \<ge> freespace then (freespace, q0\<lparr>m_isFull := True\<rparr>) else (count0, q0));
          queue = m_queue q; wp = m_writePointer q
      in if wp < m_readPointer q then
           (q\<lparr>m_queue := memcpy_at queue wp buffer cnt, m_writePointer := wp + cnt\<rparr>, cnt)
         else
           let count1 = m_queueSize q - wp in
           if cnt > count1 then
             let count2 = cnt - count1;
                 queue = memcpy_at queue wp buffer count1;
                 queue = memcpy_at queue 0 (drop count1 buffer) count2
             in (q\<lparr>m_queue := queue, m_writePointer := count2\<rparr>, cnt)
           else (q\<lparr>m_queue := memcpy_at queue wp buffer cnt, m_writePointer := wp + cnt\<rparr>, cnt))"

text \<open>\<open>read\<close> returns the queue, the caller's buffer and the number of bytes read.\<close>

definition cQueueFifo_read :: "cQueueFifo \<Rightarrow> uint8 list \<Rightarrow> nat \<Rightarrow> cQueueFifo \<times> uint8 list \<times> nat" where
  "cQueueFifo_read q buffer count0 =
     (let occupyspace = cQueueFifo_getOccupyspace q;
          queue = m_queue q; rp = m_readPointer q;
          cnt = (if count0 > occupyspace then occupyspace else count0);
          (q, buffer) =
            (if m_writePointer q > rp then
               (q\<lparr>m_readPointer := rp + cnt\<rparr>, memcpy_at buffer 0 (drop rp queue) cnt)
             else
               let count1 = m_queueSize q - rp in
               if cnt > count1 then
                 let count2 = cnt - count1;
                     buffer = memcpy_at buffer 0 (drop rp queue) count1;
                     buffer = memcpy_at buffer count1 queue count2
                 in (q\<lparr>m_readPointer := count2\<rparr>, buffer)
               else (q\<lparr>m_readPointer := rp + cnt\<rparr>, memcpy_at buffer 0 (drop rp queue) cnt))
      in (if cnt > 0 then q\<lparr>m_isFull := False\<rparr> else q, buffer, cnt))"

subsection \<open>Invariant and abstraction\<close>

definition cQueueFifo_inv :: "cQueueFifo \<Rightarrow> bool" where
  "cQueueFifo_inv q \<longleftrightarrow>
     length (m_queue q) = m_queueSize q \<and>
     m_readPointer q \<le> m_queueSize q \<and> m_writePointer q \<le> m_queueSize q \<and>
     (m_isFull q \<longrightarrow> m_writePointer q = m_readPointer q \<or>
        m_readPointer q = 0 \<and> m_writePointer q = m_queueSize q)"

definition cQueueFifo_contents :: "cQueueFifo \<Rightarrow> uint8 list" where
  "cQueueFifo_contents q =
     (let rp = m_readPointer q; wp = m_writePointer q; queue = m_queue q in
      if rp = wp then (if m_isFull q then drop rp queue @ take wp queue else [])
      else if rp < wp then drop rp (take wp queue)
      else drop rp queue @ take wp queue)"

lemma length_contents:
  "cQueueFifo_inv q \<Longrightarrow>
     length (cQueueFifo_contents q) + cQueueFifo_getFreespace q = m_queueSize q"
  by (auto simp: cQueueFifo_inv_def cQueueFifo_contents_def cQueueFifo_getFreespace_def Let_def)

lemma occupyspace_length:
  "cQueueFifo_inv q \<Longrightarrow> cQueueFifo_getOccupyspace q = length (cQueueFifo_contents q)"
  using length_contents [of q] by (simp add: cQueueFifo_getOccupyspace_def)

text \<open>The contents in terms of the fields.\<close>

definition ring :: "uint8 list \<Rightarrow> nat \<Rightarrow> nat \<Rightarrow> bool \<Rightarrow> uint8 list" where
  "ring Q rp wp full =
     (if rp = wp \<and> \<not> full then [] else if rp < wp then drop rp (take wp Q)
      else drop rp Q @ take wp Q)"

lemma contents_ring:
  "cQueueFifo_contents q = ring (m_queue q) (m_readPointer q) (m_writePointer q) (m_isFull q)"
  by (auto simp: cQueueFifo_contents_def ring_def Let_def)

text \<open>Three ways of storing \<open>c\<close> bytes: below the read pointer, behind it, and around the end.\<close>

lemma ring_store_below:
  "wp < rp \<Longrightarrow> rp \<le> length Q \<Longrightarrow> c \<le> length buf \<Longrightarrow> c \<le> rp - wp \<Longrightarrow> (c = rp - wp \<longrightarrow> full') \<Longrightarrow>
     ring (memcpy_at Q wp buf c) rp (wp + c) full' = ring Q rp wp full @ take c buf"
  by (auto simp: ring_def memcpy_at_def min_def)

lemma ring_store_behind:
  "rp \<le> wp \<Longrightarrow> wp \<le> length Q \<Longrightarrow> c \<le> length buf \<Longrightarrow> wp + c \<le> length Q \<Longrightarrow>
   (full \<longrightarrow> rp = wp \<longrightarrow> c = 0) \<Longrightarrow> (c = 0 \<longrightarrow> full' = full \<or> rp < wp \<or> length Q = 0) \<Longrightarrow>
     ring (memcpy_at Q wp buf c) rp (wp + c) full' = ring Q rp wp full @ take c buf"
  by (auto simp: ring_def memcpy_at_def min_def)

lemma ring_store_around:
  "rp \<le> wp \<Longrightarrow> wp \<le> length Q \<Longrightarrow> c \<le> length buf \<Longrightarrow> length Q < wp + c \<Longrightarrow> wp + c \<le> length Q + rp \<Longrightarrow>
   (rp = wp \<longrightarrow> \<not> full) \<Longrightarrow> (wp + c = length Q + rp \<longrightarrow> full') \<Longrightarrow>
     ring (memcpy_at (memcpy_at Q wp buf (length Q - wp)) 0 (drop (length Q - wp) buf) (c - (length Q - wp)))
       rp (c - (length Q - wp)) full' = ring Q rp wp full @ take c buf"
proof -
  assume a: "rp \<le> wp" "wp \<le> length Q" "c \<le> length buf" "length Q < wp + c" "wp + c \<le> length Q + rp"
    "rp = wp \<longrightarrow> \<not> full" "wp + c = length Q + rp \<longrightarrow> full'"
  let ?c1 = "length Q - wp" and ?c2 = "c - (length Q - wp)"
  let ?Q = "take ?c2 (drop ?c1 buf) @ drop ?c2 (take wp Q @ take ?c1 buf)"
  have Q': "memcpy_at (memcpy_at Q wp buf ?c1) 0 (drop ?c1 buf) ?c2 = ?Q"
    using a by (simp add: memcpy_at_def)
  have l: "length (take ?c2 (drop ?c1 buf)) = ?c2"
    using a by simp
  have "drop rp ?Q = drop rp (take wp Q @ take ?c1 buf)"
    using a l by (subst drop_append) simp
  then have "drop rp ?Q = drop rp (take wp Q) @ take ?c1 buf"
    using a by simp
  moreover have "take ?c2 ?Q = take ?c2 (drop ?c1 buf)"
    using a by simp
  moreover have "take ?c1 buf @ take ?c2 (drop ?c1 buf) = take c buf"
    using a by (intro take_drop_split) simp
  ultimately have "drop rp ?Q @ take ?c2 ?Q = drop rp (take wp Q) @ take c buf"
    by (simp only: append_assoc)
  moreover have "ring ?Q rp ?c2 full' = drop rp ?Q @ take ?c2 ?Q"
    using a by (auto simp: ring_def)
  moreover have "ring Q rp wp full = drop rp (take wp Q)"
    using a by (auto simp: ring_def)
  ultimately show ?thesis
    by (simp only: Q')
qed

lemma write_law:
  assumes inv: "cQueueFifo_inv q" and le: "n \<le> length buf" and w: "cQueueFifo_write q buf n = (q', m)"
  shows "cQueueFifo_inv q' \<and> m = min n (cQueueFifo_getFreespace q) \<and>
         cQueueFifo_contents q' = cQueueFifo_contents q @ take m buf \<and>
         m_queueSize q' = m_queueSize q"
proof -
  define Q rp wp full sz where d: "Q = m_queue q" "rp = m_readPointer q" "wp = m_writePointer q"
    "full = m_isFull q" "sz = m_queueSize q"
  define free where "free = cQueueFifo_getFreespace q"
  define c where "c = min n free"
  define full' where "full' \<longleftrightarrow> free \<le> n \<or> full"
  have i: "length Q = sz" "rp \<le> sz" "wp \<le> sz" "full \<Longrightarrow> wp = rp \<or> rp = 0 \<and> wp = sz"
    using inv by (simp_all add: cQueueFifo_inv_def d)
  have f: "free = (if rp = wp then if full then 0 else sz else if rp \<le> wp then sz - wp + rp else rp - wp)"
    by (simp add: free_def cQueueFifo_getFreespace_def d)
  have fz: "full \<longrightarrow> free = 0"
    using f i by (auto split: if_splits)
  have c: "c \<le> length buf" "c \<le> free" "c = free \<Longrightarrow> full'" "c < free \<Longrightarrow> full' = full"
    using le by (auto simp: c_def full'_def)
  have q'0: "cQueueFifo_write q buf n =
      (if wp < rp then (q\<lparr>m_isFull := full', m_queue := memcpy_at Q wp buf c, m_writePointer := wp + c\<rparr>, c)
       else if sz - wp < c then
         (q\<lparr>m_isFull := full',
            m_queue := memcpy_at (memcpy_at Q wp buf (sz - wp)) 0 (drop (sz - wp) buf) (c - (sz - wp)),
            m_writePointer := c - (sz - wp)\<rparr>, c)
       else (q\<lparr>m_isFull := full', m_queue := memcpy_at Q wp buf c, m_writePointer := wp + c\<rparr>, c))"
    by (auto simp: cQueueFifo_write_def Let_def d c_def full'_def free_def)
  have fin: ?thesis
    if "cQueueFifo_write q buf n = (q\<lparr>m_isFull := full', m_queue := Q', m_writePointer := wp'\<rparr>, c)"
      and "length Q' = sz" and "wp' \<le> sz" and "full' \<longrightarrow> wp' = rp \<or> rp = 0 \<and> wp' = sz"
      and "ring Q' rp wp' full' = ring Q rp wp full @ take c buf" for Q' wp'
  proof -
    have "q' = q\<lparr>m_isFull := full', m_queue := Q', m_writePointer := wp'\<rparr>" "m = c"
      using that(1) w by simp_all
    then show ?thesis
      unfolding free_def [symmetric] c_def [symmetric]
      using that(2-5) i(2) by (simp add: cQueueFifo_inv_def contents_ring d [symmetric])
  qed
  consider (below) "wp < rp" | (around) "rp \<le> wp" "sz - wp < c" | (behind) "rp \<le> wp" "c \<le> sz - wp"
    by linarith
  then show ?thesis
  proof cases
    case below
    then have fr: "free = rp - wp" "\<not> full"
      using f i(4) by auto
    then have "full' \<longrightarrow> wp + c = rp"
      using below by (auto simp: full'_def c_def)
    moreover have "c \<le> rp - wp" "c = rp - wp \<longrightarrow> full'"
      using fr c(2,3) by auto
    ultimately show ?thesis
      using below q'0 i c(1) ring_store_below [of wp rp Q c buf full' full]
      by (intro fin [where Q' = "memcpy_at Q wp buf c"
            and wp' = "wp + c"]) simp_all
  next
    case around
    then have "wp + c \<le> length Q + rp" "rp = wp \<longrightarrow> \<not> full" "wp + c = length Q + rp \<longrightarrow> full'"
      using f c i by (auto split: if_splits)
    moreover have "full' \<longrightarrow> c - (sz - wp) = rp"
    proof
      assume full'
      then have "c = free"
        using fz by (auto simp: full'_def c_def)
      then show "c - (sz - wp) = rp"
        using f around i calculation(2) by (auto split: if_splits)
    qed
    ultimately show ?thesis
      using around q'0 i c(1) ring_store_around [of rp wp Q c buf full full']
      by (intro fin [where Q' = "memcpy_at (memcpy_at Q wp buf (sz - wp)) 0 (drop (sz - wp) buf) (c - (sz - wp))"
            and wp' = "c - (sz - wp)"]) simp_all
  next
    case behind
    then have *: "full \<longrightarrow> rp = wp \<longrightarrow> c = 0" "c = 0 \<longrightarrow> full' = full \<or> rp < wp \<or> length Q = 0"
      using f c i by (auto split: if_splits)
    have "full' \<longrightarrow> wp + c = rp \<or> rp = 0 \<and> wp + c = sz"
    proof (intro impI)
      assume full'
      then have "c = free"
        using fz by (auto simp: full'_def c_def)
      then show "wp + c = rp \<or> rp = 0 \<and> wp + c = sz"
        using f i behind by (auto split: if_splits)
    qed
    then show ?thesis
      using behind * q'0 i c(1) ring_store_behind [of rp wp Q c buf full full']
      by (intro fin [where Q' = "memcpy_at Q wp buf c"
            and wp' = "wp + c"]) simp_all
  qed
qed

lemma memcpy_at_pair:
  "k \<le> n \<Longrightarrow> n \<le> length buf \<Longrightarrow> k \<le> length a \<Longrightarrow> n - k \<le> length b \<Longrightarrow>
     memcpy_at (memcpy_at buf 0 a k) k b (n - k) = memcpy_at buf 0 (take k a @ b) n"
  by (simp add: memcpy_at_def min_def)

lemma memcpy_at_cong:
  "take k a = take k b \<Longrightarrow> memcpy_at buf 0 a k = memcpy_at buf 0 b k"
  by (simp add: memcpy_at_def)

lemma read_law:
  assumes inv: "cQueueFifo_inv q" and le: "n \<le> length buf" and r: "cQueueFifo_read q buf n = (q', buf', m)"
  shows "cQueueFifo_inv q' \<and> m = min n (length (cQueueFifo_contents q)) \<and>
         buf' = take m (cQueueFifo_contents q) @ drop m buf \<and>
         cQueueFifo_contents q' = drop m (cQueueFifo_contents q) \<and>
         m_queueSize q' = m_queueSize q"
proof -
  define Q rp wp full sz where d: "Q = m_queue q" "rp = m_readPointer q" "wp = m_writePointer q"
    "full = m_isFull q" "sz = m_queueSize q"
  define xs where "xs = cQueueFifo_contents q"
  define c where "c = min n (length xs)"
  define full' where "full' \<longleftrightarrow> full \<and> c = 0"
  have i: "length Q = sz" "rp \<le> sz" "wp \<le> sz" "full \<Longrightarrow> wp = rp \<or> rp = 0 \<and> wp = sz"
    using inv by (simp_all add: cQueueFifo_inv_def d)
  have xs: "xs = ring Q rp wp full"
    by (simp add: xs_def contents_ring d)
  have c: "c \<le> length buf" "c \<le> length xs"
    using le by (auto simp: c_def)
  have q'0: "cQueueFifo_read q buf n =
      (let (q, buf') =
         (if wp > rp then (q\<lparr>m_readPointer := rp + c\<rparr>, memcpy_at buf 0 (drop rp Q) c)
          else if c > sz - rp then
            (q\<lparr>m_readPointer := c - (sz - rp)\<rparr>,
             memcpy_at (memcpy_at buf 0 (drop rp Q) (sz - rp)) (sz - rp) Q (c - (sz - rp)))
          else (q\<lparr>m_readPointer := rp + c\<rparr>, memcpy_at buf 0 (drop rp Q) c))
       in (if c > 0 then q\<lparr>m_isFull := False\<rparr> else q, buf', c))"
    using occupyspace_length [OF inv]
    by (auto simp: cQueueFifo_read_def Let_def d c_def xs_def min_def)
  consider (slice) "rp < wp" | (around) "wp \<le> rp" "sz - rp < c" | (upper) "wp \<le> rp" "c \<le> sz - rp"
    by linarith
  then show ?thesis
  proof cases
    case slice
    then have "xs = drop rp (take wp Q)"
      by (simp add: xs ring_def)
    moreover from this have "c \<le> wp - rp"
      using c i by simp
    moreover have "take c (drop rp Q) = take c (drop rp (take wp Q))"
      using \<open>c \<le> wp - rp\<close> by (simp add: drop_take min_def)
    ultimately show ?thesis
      using slice q'0 r i c unfolding xs_def [symmetric] c_def [symmetric]
      by (auto simp: cQueueFifo_inv_def contents_ring d [symmetric] ring_def memcpy_at_def add.commute)
  next
    case around
    then have xs2: "xs = drop rp Q @ take wp Q"
      using c by (auto simp: xs ring_def split: if_splits)
    then have c2: "c - (sz - rp) \<le> wp"
      using c i by simp
    have "take (sz - rp) (drop rp Q) @ Q = drop rp Q @ Q"
      using i by simp
    then have "memcpy_at (memcpy_at buf 0 (drop rp Q) (sz - rp)) (sz - rp) Q (c - (sz - rp)) =
        memcpy_at buf 0 (drop rp Q @ Q) c"
      using around c c2 i by (subst memcpy_at_pair) auto
    also have "\<dots> = memcpy_at buf 0 xs c"
      using c2 i by (intro memcpy_at_cong) (simp add: xs2 min_def)
    finally show ?thesis
      using around q'0 r i c c2 xs2 unfolding xs_def [symmetric] c_def [symmetric]
      by (auto simp: cQueueFifo_inv_def contents_ring d [symmetric] ring_def memcpy_at_def drop_take)
  next
    case upper
    show ?thesis
    proof (cases "xs = []")
      case True
      then show ?thesis
        using upper q'0 r i c xs unfolding xs_def [symmetric] c_def [symmetric]
        by (auto simp: cQueueFifo_inv_def contents_ring d [symmetric] ring_def memcpy_at_def)
    next
      case False
      then have xs2: "xs = drop rp Q @ take wp Q" and ne: "rp = wp \<longrightarrow> full"
        using upper by (auto simp: xs ring_def split: if_splits)
      have "take c (drop rp Q) = take c xs"
        using upper i by (simp add: xs2)
      moreover have "drop c xs = drop (rp + c) Q @ take wp Q"
        using upper i by (simp add: xs2 add.commute)
      ultimately show ?thesis
        using upper q'0 r i c xs2 ne unfolding xs_def [symmetric] c_def [symmetric]
        by (auto simp: cQueueFifo_inv_def contents_ring d [symmetric] ring_def memcpy_at_def)
    qed
  qed
qed

subsection \<open>The interface of a bounded queue\<close>

text \<open>
  What a user of the queue relies on, \<open>enq q xs n\<close> writing the first \<open>n\<close> elements of a buffer
  and \<open>deq q buf n\<close> reading into one.
\<close>

locale bounded_fifo =
  fixes inv :: "'q \<Rightarrow> bool"
    and contents :: "'q \<Rightarrow> 'a list"
    and capacity :: "'q \<Rightarrow> nat"
    and enq :: "'q \<Rightarrow> 'a list \<Rightarrow> nat \<Rightarrow> 'q \<times> nat"
    and deq :: "'q \<Rightarrow> 'a list \<Rightarrow> nat \<Rightarrow> 'q \<times> 'a list \<times> nat"
  assumes within: "inv q \<Longrightarrow> length (contents q) \<le> capacity q"
    and enq_law: "inv q \<Longrightarrow> n \<le> length xs \<Longrightarrow> enq q xs n = (q', m) \<Longrightarrow>
      inv q' \<and> m = min n (capacity q - length (contents q)) \<and>
      contents q' = contents q @ take m xs \<and> capacity q' = capacity q"
    and deq_law: "inv q \<Longrightarrow> n \<le> length buf \<Longrightarrow> deq q buf n = (q', buf', m) \<Longrightarrow>
      inv q' \<and> m = min n (length (contents q)) \<and> buf' = take m (contents q) @ drop m buf \<and>
      contents q' = drop m (contents q) \<and> capacity q' = capacity q"

text \<open>
  A session with a queue, as the sequence of its calls. The specification keeps the contents as
  a list; each call reports how many elements it moved, and a read the elements it returned.
\<close>

datatype 'a fifo_call = Write "'a list" nat | Read "'a list" nat

fun fifo_spec :: "nat \<Rightarrow> 'a list \<Rightarrow> 'a fifo_call list \<Rightarrow> ('a list \<times> nat) list" where
  "fifo_spec cap xs [] = []"
| "fifo_spec cap xs (Write buf n # cs) =
     (let m = min n (cap - length xs) in ([], m) # fifo_spec cap (xs @ take m buf) cs)"
| "fifo_spec cap xs (Read buf n # cs) =
     (let m = min n (length xs) in (take m xs @ drop m buf, m) # fifo_spec cap (drop m xs) cs)"

fun fifo_run ::
  "('q \<Rightarrow> 'a list \<Rightarrow> nat \<Rightarrow> 'q \<times> nat) \<Rightarrow> ('q \<Rightarrow> 'a list \<Rightarrow> nat \<Rightarrow> 'q \<times> 'a list \<times> nat) \<Rightarrow>
     'q \<Rightarrow> 'a fifo_call list \<Rightarrow> ('a list \<times> nat) list"
where
  "fifo_run enq deq q [] = []"
| "fifo_run enq deq q (Write buf n # cs) =
     (case enq q buf n of (q, m) \<Rightarrow> ([], m) # fifo_run enq deq q cs)"
| "fifo_run enq deq q (Read buf n # cs) =
     (case deq q buf n of (q, buf', m) \<Rightarrow> (buf', m) # fifo_run enq deq q cs)"

fun call_fits :: "'a fifo_call \<Rightarrow> bool" where
  "call_fits (Write buf n) \<longleftrightarrow> n \<le> length buf"
| "call_fits (Read buf n) \<longleftrightarrow> n \<le> length buf"

context bounded_fifo begin

lemma run_refines:
  "inv q \<Longrightarrow> list_all call_fits cs \<Longrightarrow>
     fifo_run enq deq q cs = fifo_spec (capacity q) (contents q) cs"
proof (induction cs arbitrary: q)
  case (Cons c cs)
  show ?case
  proof (cases c)
    case (Write buf n)
    obtain q' m where e: "enq q buf n = (q', m)"
      by (cases "enq q buf n")
    with Write Cons.prems have "inv q' \<and> m = min n (capacity q - length (contents q)) \<and>
        contents q' = contents q @ take m buf \<and> capacity q' = capacity q"
      by (intro enq_law) auto
    with Write Cons e show ?thesis
      by (simp add: Let_def)
  next
    case (Read buf n)
    obtain q' buf' m where e: "deq q buf n = (q', buf', m)"
      by (cases "deq q buf n")
    with Read Cons.prems have "inv q' \<and> m = min n (length (contents q)) \<and>
        buf' = take m (contents q) @ drop m buf \<and> contents q' = drop m (contents q) \<and>
        capacity q' = capacity q"
      by (intro deq_law) auto
    with Read Cons e show ?thesis
      by (simp add: Let_def)
  qed
qed simp

text \<open>What was written to an empty queue with enough room is read back, in any number of pieces.\<close>

lemma write_read_back:
  assumes "inv q" and "contents q = []" and "length xs \<le> capacity q" and "k \<le> length buf" and "length xs \<le> k"
  shows "\<exists>q1 q2 m. enq q xs (length xs) = (q1, length xs) \<and> deq q1 buf k = (q2, xs @ drop m buf, m) \<and>
           m = length xs \<and> inv q2 \<and> contents q2 = []"
proof -
  obtain q1 m1 where e: "enq q xs (length xs) = (q1, m1)"
    by (cases "enq q xs (length xs)")
  have 1: "inv q1" "m1 = length xs" "contents q1 = xs"
    using enq_law [OF assms(1) order_refl e] assms by auto
  obtain q2 buf' m where d: "deq q1 buf k = (q2, buf', m)"
    by (cases "deq q1 buf k")
  show ?thesis
    using deq_law [OF 1(1) assms(4) d] 1 e d assms(5) by auto
qed

end

text \<open>The code's queue is such a queue.\<close>

interpretation cqf: bounded_fifo cQueueFifo_inv cQueueFifo_contents m_queueSize
  cQueueFifo_write cQueueFifo_read
proof unfold_locales
  show "cQueueFifo_inv q \<Longrightarrow> length (cQueueFifo_contents q) \<le> m_queueSize q" for q
    using length_contents [of q] by simp
  show "cQueueFifo_inv q \<Longrightarrow> n \<le> length xs \<Longrightarrow> cQueueFifo_write q xs n = (q', m) \<Longrightarrow>
      cQueueFifo_inv q' \<and> m = min n (m_queueSize q - length (cQueueFifo_contents q)) \<and>
      cQueueFifo_contents q' = cQueueFifo_contents q @ take m xs \<and> m_queueSize q' = m_queueSize q"
    for q n xs q' m
    using write_law [of q n xs q' m] length_contents [of q]
    by (metis add_diff_cancel_left')
  show "cQueueFifo_inv q \<Longrightarrow> n \<le> length buf \<Longrightarrow> cQueueFifo_read q buf n = (q', buf', m) \<Longrightarrow>
      cQueueFifo_inv q' \<and> m = min n (length (cQueueFifo_contents q)) \<and>
      buf' = take m (cQueueFifo_contents q) @ drop m buf \<and>
      cQueueFifo_contents q' = drop m (cQueueFifo_contents q) \<and> m_queueSize q' = m_queueSize q"
    for q n buf q' buf' m
    by (rule read_law)
qed

lemma new_queue: "cQueueFifo_inv (cQueueFifo_new mem)" "cQueueFifo_contents (cQueueFifo_new mem) = []"
  "m_queueSize (cQueueFifo_new mem) = length mem"
  by (simp_all add: cQueueFifo_inv_def cQueueFifo_new_def cQueueFifo_contents_def)

subsection \<open>Properties\<close>

text \<open>
  C7: every sequence of reads and writes on a new ring buffer answers exactly as the bounded
  first-in first-out queue of the same capacity, whatever the memory held when it was allocated.
\<close>

theorem queueFifo_refines:
  "list_all call_fits cs \<Longrightarrow>
     fifo_run cQueueFifo_write cQueueFifo_read (cQueueFifo_new mem) cs = fifo_spec (length mem) [] cs"
  using cqf.run_refines [of "cQueueFifo_new mem" cs] by (simp add: new_queue)

theorem queueFifo_refines_witness:
  "fifo_run cQueueFifo_write cQueueFifo_read (cQueueFifo_new [9, 9, 9])
     [Write [1, 2] 2, Read [0] 1, Write [3, 4, 5] 3, Read [0, 0, 0, 0] 4] =
   [([], 2), ([1], 1), ([], 2), ([2, 3, 4, 0], 3)]"
  using queueFifo_refines [of "[Write [1, 2] 2, Read [0] 1, Write [3, 4, 5] 3, Read [0, 0, 0, 0] 4]" "[9, 9, 9]"]
  by simp

text \<open>
  In every reachable state the free and the occupied space the queue reports add up to
  its capacity, and the occupied space is the number of bytes it holds.
\<close>

lemma queueFifo_space:
  "cQueueFifo_inv q \<Longrightarrow>
     cQueueFifo_getQueueFreespace q + cQueueFifo_getQueueOccupyspace q = m_queueSize q \<and>
     cQueueFifo_getQueueOccupyspace q = length (cQueueFifo_contents q)"
  using length_contents [of q] occupyspace_length [of q]
  by (simp add: cQueueFifo_getQueueFreespace_def cQueueFifo_getQueueOccupyspace_def)

end
