(* ===== verification/XSetArray.thy ===== *)
theory XSetArray
  imports XPrelude
begin

text \<open>
  The bit set \<open>cSetArray\<close> of Source/xStl/data/setArray.cpp: \<open>m_length\<close> bits in an array of
  32 bit cells. Bits of the last cell behind \<open>m_length\<close> may hold anything.
\<close>

record cSetArray =
  m_data :: "uint32 list"
  m_length :: nat

definition cSetArray_calculatePosition :: "nat \<Rightarrow> nat \<times> nat" where
  "cSetArray_calculatePosition location =
     (let arrayIndex = drop_bit 5 location;
          bitIndex = location - push_bit 5 arrayIndex
      in (arrayIndex, bitIndex))"

text \<open>\<open>m_data[arrayIndex]\<close>, the checked access of \<open>cSArray\<close>.\<close>

definition cSetArray_cell :: "cSetArray \<Rightarrow> nat \<Rightarrow> uint32 res" where
  "cSetArray_cell s i = (if i \<ge> length (m_data s) then Inl EXCEPTION_OUT_OF_RANGE else Inr (m_data s ! i))"

text \<open>
  \<open>mem\<close> is what the cells of the new allocation hold before anything is copied there. The rounding
  up of the size is on 64 bits.
\<close>

definition cSetArray_changeSize :: "cSetArray \<Rightarrow> nat \<Rightarrow> bool \<Rightarrow> uint32 list \<Rightarrow> cSetArray" where
  "cSetArray_changeSize s newSize saveContent mem =
     (let arraySize = drop_bit 5 ((newSize + 32 - 1) mod 2 ^ 64);
          kept = (if saveContent then take arraySize (m_data s) else []);
          data = kept @ take (arraySize - length kept) (drop (length kept) mem)
      in s\<lparr>m_data := data, m_length := newSize\<rparr>)"

definition cSetArray_resetArray :: "cSetArray \<Rightarrow> cSetArray" where
  "cSetArray_resetArray s =
     (if length (m_data s) > 0 then s\<lparr>m_data := replicate (length (m_data s)) 0\<rparr> else s)"

definition cSetArray_getLength :: "cSetArray \<Rightarrow> nat" where
  "cSetArray_getLength s = m_length s"

definition cSetArray_isSet :: "cSetArray \<Rightarrow> nat \<Rightarrow> bool res" where
  "cSetArray_isSet s location =
     bind_res (CHECK (location < m_length s)) (\<lambda>_.
     let (arrayIndex, bitIndex) = cSetArray_calculatePosition location in
     bind_res (cSetArray_cell s arrayIndex) (\<lambda>w. Inr (drop_bit bitIndex w AND 1 = 1)))"

definition cSetArray_set :: "cSetArray \<Rightarrow> nat \<Rightarrow> cSetArray res" where
  "cSetArray_set s location =
     bind_res (CHECK (location < m_length s)) (\<lambda>_.
     let (arrayIndex, bitIndex) = cSetArray_calculatePosition location in
     bind_res (cSetArray_cell s arrayIndex) (\<lambda>w.
     Inr (s\<lparr>m_data := (m_data s)[arrayIndex := w OR push_bit bitIndex 1]\<rparr>)))"

definition cSetArray_clear :: "cSetArray \<Rightarrow> nat \<Rightarrow> cSetArray res" where
  "cSetArray_clear s location =
     bind_res (CHECK (location < m_length s)) (\<lambda>_.
     let (arrayIndex, bitIndex) = cSetArray_calculatePosition location in
     bind_res (cSetArray_cell s arrayIndex) (\<lambda>w.
     Inr (s\<lparr>m_data := (m_data s)[arrayIndex := w AND NOT (push_bit bitIndex 1)]\<rparr>)))"

text \<open>The constructor's loop that sets every bit, and the constructor.\<close>

fun cSetArray_setFrom :: "cSetArray \<Rightarrow> nat \<Rightarrow> nat \<Rightarrow> cSetArray res" where
  "cSetArray_setFrom s i 0 = Inr s"
| "cSetArray_setFrom s i (Suc k) =
     bind_res (cSetArray_set s i) (\<lambda>s. cSetArray_setFrom s (i + 1) k)"

definition cSetArray_new :: "nat \<Rightarrow> bool \<Rightarrow> bool \<Rightarrow> uint32 list \<Rightarrow> cSetArray res" where
  "cSetArray_new initializedSize shouldResetArray resetAsSet mem =
     (let s = cSetArray_changeSize \<lparr>m_data = [], m_length = 0\<rparr> initializedSize False mem in
      if shouldResetArray then
        let s = cSetArray_resetArray s in
        if resetAsSet then cSetArray_setFrom s 0 initializedSize else Inr s
      else Inr s)"

text \<open>The search for the first set bit: over the cells, then over the bits of the found cell.\<close>

fun cSetArray_firstCell :: "uint32 list \<Rightarrow> nat \<Rightarrow> nat \<Rightarrow> nat" where
  "cSetArray_firstCell data arrayIndex 0 = arrayIndex"
| "cSetArray_firstCell data arrayIndex (Suc k) =
     (if data ! arrayIndex \<noteq> 0 then arrayIndex else cSetArray_firstCell data (arrayIndex + 1) k)"

text \<open>The fuel of the second loop is the number of bits of the cell, which is enough.\<close>

fun cSetArray_firstBit :: "nat \<Rightarrow> uint32 \<Rightarrow> nat \<Rightarrow> nat \<Rightarrow> nat" where
  "cSetArray_firstBit len data location 0 = location"
| "cSetArray_firstBit len data location (Suc k) =
     (if data AND 1 = 0 then
        (if location + 1 \<ge> len then location + 1
         else cSetArray_firstBit len (drop_bit 1 data) (location + 1) k)
      else location)"

definition cSetArray_first :: "cSetArray \<Rightarrow> nat res" where
  "cSetArray_first s =
     (let arraySize = drop_bit 5 (m_length s + 32 - 1);
          arrayIndex = cSetArray_firstCell (m_data s) 0 arraySize
      in if arrayIndex \<ge> arraySize then Inr (m_length s)
         else bind_res (cSetArray_cell s arrayIndex) (\<lambda>data.
           Inr (cSetArray_firstBit (m_length s) data (arrayIndex * 32) 32)))"

fun cSetArray_onePlaceFrom :: "cSetArray \<Rightarrow> nat \<Rightarrow> nat \<Rightarrow> bool \<Rightarrow> bool res" where
  "cSetArray_onePlaceFrom s i 0 found = Inr found"
| "cSetArray_onePlaceFrom s i (Suc k) found =
     bind_res (cSetArray_isSet s i) (\<lambda>b.
       if b \<and> found then Inr False
       else if b then cSetArray_onePlaceFrom s (i + 1) k True
       else cSetArray_onePlaceFrom s (i + 1) k found)"

definition cSetArray_isSetInOnePlace :: "cSetArray \<Rightarrow> bool res" where
  "cSetArray_isSetInOnePlace s = cSetArray_onePlaceFrom s 0 (m_length s) False"

text \<open>The loop of \<open>operator &=\<close> and \<open>operator |=\<close>, with the connective as a parameter.\<close>

fun cSetArray_combine :: "(bool \<Rightarrow> bool \<Rightarrow> bool) \<Rightarrow> cSetArray \<Rightarrow> cSetArray \<Rightarrow> nat \<Rightarrow> nat \<Rightarrow> cSetArray res" where
  "cSetArray_combine f s other i 0 = Inr s"
| "cSetArray_combine f s other i (Suc k) =
     bind_res (cSetArray_isSet s i) (\<lambda>a.
     bind_res (cSetArray_isSet other i) (\<lambda>b.
     bind_res (if f a b then cSetArray_set s i else cSetArray_clear s i) (\<lambda>s.
     cSetArray_combine f s other (i + 1) k)))"

definition cSetArray_and_assign :: "cSetArray \<Rightarrow> cSetArray \<Rightarrow> cSetArray res" where
  "cSetArray_and_assign s other =
     bind_res (CHECK (m_length s = m_length other)) (\<lambda>_.
     cSetArray_combine (\<and>) s other 0 (m_length s))"

definition cSetArray_or_assign :: "cSetArray \<Rightarrow> cSetArray \<Rightarrow> cSetArray res" where
  "cSetArray_or_assign s other =
     bind_res (CHECK (m_length s = m_length other)) (\<lambda>_.
     cSetArray_combine (\<or>) s other 0 (m_length s))"

subsection \<open>The bits of the set\<close>

definition cSetArray_inv :: "cSetArray \<Rightarrow> bool" where
  "cSetArray_inv s \<longleftrightarrow> length (m_data s) = (m_length s + 31) div 32"

definition cSetArray_bit :: "cSetArray \<Rightarrow> nat \<Rightarrow> bool" where
  "cSetArray_bit s i \<longleftrightarrow> bit (m_data s ! (i div 32)) (i mod 32)"

definition cSetArray_bits :: "cSetArray \<Rightarrow> bool list" where
  "cSetArray_bits s = map (cSetArray_bit s) [0..<m_length s]"

lemma calculatePosition_eq: "cSetArray_calculatePosition i = (i div 32, i mod 32)"
  by (simp add: cSetArray_calculatePosition_def drop_bit_eq_div push_bit_eq_mult
      minus_div_mult_eq_mod)

lemma cell_bound: "cSetArray_inv s \<Longrightarrow> i < m_length s \<Longrightarrow> i div 32 < length (m_data s)"
  by (simp add: cSetArray_inv_def)

lemma and_one_eq: "(w AND 1 = 1) = bit (w :: uint32) 0" "(w AND 1 = 0) = (\<not> bit w 0)"
  by (simp_all add: and_one_eq bit_0 odd_iff_mod_2_eq_one even_iff_mod_2_eq_zero)

lemma isSet_eq [simp]:
  "cSetArray_inv s \<Longrightarrow> i < m_length s \<Longrightarrow> cSetArray_isSet s i = Inr (cSetArray_bit s i)"
  using cell_bound [of s i]
  by (simp add: cSetArray_isSet_def calculatePosition_eq cSetArray_cell_def cSetArray_bit_def
      XSetArray.and_one_eq bit_drop_bit_eq)

lemma or_bit: "bit ((w :: uint32) OR 2 ^ (m mod 32)) (n mod 32) \<longleftrightarrow> bit w (n mod 32) \<or> n mod 32 = m mod 32"
  by (auto simp: bit_or_iff bit_exp_iff)

lemma and_not_bit:
  "bit ((w :: uint32) AND NOT (2 ^ (m mod 32))) (n mod 32) \<longleftrightarrow> bit w (n mod 32) \<and> n mod 32 \<noteq> m mod 32"
  by (auto simp: bit_and_iff bit_not_iff bit_exp_iff)

lemma set_eq:
  assumes "cSetArray_inv s" and "i < m_length s"
  shows "\<exists>s'. cSetArray_set s i = Inr s' \<and> cSetArray_inv s' \<and> m_length s' = m_length s \<and>
           cSetArray_bits s' = (cSetArray_bits s)[i := True]"
proof -
  let ?s = "s\<lparr>m_data := (m_data s)[i div 32 := m_data s ! (i div 32) OR push_bit (i mod 32) 1]\<rparr>"
  have "cSetArray_bit ?s j = (if j = i then True else cSetArray_bit s j)" if "j < m_length s" for j
  proof (cases "j div 32 = i div 32")
    case True
    then have "j mod 32 = i mod 32 \<longleftrightarrow> j = i"
      by (metis div_mult_mod_eq)
    then show ?thesis
      using True cell_bound [OF assms] by (simp add: cSetArray_bit_def or_bit)
  next
    case False
    then show ?thesis
      by (auto simp: cSetArray_bit_def)
  qed
  then have "cSetArray_bits ?s = (cSetArray_bits s)[i := True]"
    by (intro nth_equalityI) (auto simp: cSetArray_bits_def nth_list_update)
  then show ?thesis
    using assms cell_bound [OF assms]
    by (simp add: cSetArray_set_def calculatePosition_eq cSetArray_cell_def cSetArray_inv_def)
qed

lemma clear_eq:
  assumes "cSetArray_inv s" and "i < m_length s"
  shows "\<exists>s'. cSetArray_clear s i = Inr s' \<and> cSetArray_inv s' \<and> m_length s' = m_length s \<and>
           cSetArray_bits s' = (cSetArray_bits s)[i := False]"
proof -
  let ?s = "s\<lparr>m_data := (m_data s)[i div 32 := m_data s ! (i div 32) AND NOT (push_bit (i mod 32) 1)]\<rparr>"
  have "cSetArray_bit ?s j = (if j = i then False else cSetArray_bit s j)" if "j < m_length s" for j
  proof (cases "j div 32 = i div 32")
    case True
    then have "j mod 32 = i mod 32 \<longleftrightarrow> j = i"
      by (metis div_mult_mod_eq)
    then show ?thesis
      using True cell_bound [OF assms] by (simp add: cSetArray_bit_def and_not_bit)
  next
    case False
    then show ?thesis
      by (auto simp: cSetArray_bit_def)
  qed
  then have "cSetArray_bits ?s = (cSetArray_bits s)[i := False]"
    by (intro nth_equalityI) (auto simp: cSetArray_bits_def nth_list_update)
  then show ?thesis
    using assms cell_bound [OF assms]
    by (simp add: cSetArray_clear_def calculatePosition_eq cSetArray_cell_def cSetArray_inv_def)
qed

lemma bits_nth: "i < m_length s \<Longrightarrow> cSetArray_bits s ! i = cSetArray_bit s i"
  by (simp add: cSetArray_bits_def)

lemma length_bits [simp]: "length (cSetArray_bits s) = m_length s"
  by (simp add: cSetArray_bits_def)

lemma combine_eq:
  assumes "cSetArray_inv s" and "cSetArray_inv other" and "m_length other = m_length s"
    and "i + k = m_length s"
  shows "\<exists>s'. cSetArray_combine f s other i k = Inr s' \<and> cSetArray_inv s' \<and> m_length s' = m_length s \<and>
           cSetArray_bits s' = take i (cSetArray_bits s) @
             map2 f (drop i (cSetArray_bits s)) (drop i (cSetArray_bits other))"
  using assms
proof (induction k arbitrary: s i)
  case (Suc k)
  let ?a = "cSetArray_bit s i" and ?b = "cSetArray_bit other i"
  obtain s1 where s1: "(if f ?a ?b then cSetArray_set s i else cSetArray_clear s i) = Inr s1"
      "cSetArray_inv s1" "m_length s1 = m_length s" "cSetArray_bits s1 = (cSetArray_bits s)[i := f ?a ?b]"
    using set_eq [of s i] clear_eq [of s i] Suc.prems by (cases "f ?a ?b") auto
  obtain s' where s': "cSetArray_combine f s1 other (i + 1) k = Inr s'" "cSetArray_inv s'"
      "m_length s' = m_length s"
      "cSetArray_bits s' = take (i + 1) (cSetArray_bits s1) @
         map2 f (drop (i + 1) (cSetArray_bits s1)) (drop (i + 1) (cSetArray_bits other))"
    using Suc.IH [of s1 "i + 1"] Suc.prems s1 by auto
  have i: "i < m_length s"
    using Suc.prems by simp
  have "take i (cSetArray_bits s) @ map2 f (drop i (cSetArray_bits s)) (drop i (cSetArray_bits other)) =
      cSetArray_bits s'"
    unfolding s' s1(4)
    using i Suc.prems(3) bits_nth [of i s] bits_nth [of i other]
    by (simp add: take_Suc_conv_app_nth flip: Cons_nth_drop_Suc)
  then show ?case
    using s1 s' i Suc.prems(1-3) by simp
qed simp

lemma onePlace_eq:
  assumes "cSetArray_inv s" and "i + k = m_length s"
  shows "cSetArray_onePlaceFrom s i k found =
     Inr (count_list (drop i (cSetArray_bits s)) True = (if found then 0 else 1))"
  using assms
proof (induction k arbitrary: i found)
  case (Suc k)
  then have "i < m_length s"
    by simp
  then have d: "drop i (cSetArray_bits s) = cSetArray_bit s i # drop (Suc i) (cSetArray_bits s)"
    using Cons_nth_drop_Suc [of i "cSetArray_bits s"] bits_nth [of i s] by simp
  have "cSetArray_onePlaceFrom s (i + 1) k f =
      Inr (count_list (drop (Suc i) (cSetArray_bits s)) True = (if f then 0 else 1))" for f
    using Suc.IH [of "i + 1" f] Suc.prems by simp
  then have *: "cSetArray_onePlaceFrom s i (Suc k) found =
      (if cSetArray_bit s i \<and> found then Inr False
       else Inr (count_list (drop (Suc i) (cSetArray_bits s)) True =
         (if cSetArray_bit s i \<or> found then 0 else 1)))"
    using Suc.prems(1) \<open>i < m_length s\<close> by simp
  show ?case
    unfolding * d by (cases "cSetArray_bit s i"; cases found) simp_all
qed auto

lemma firstCell_eq:
  "(let r = cSetArray_firstCell data i k in i \<le> r \<and> r \<le> i + k \<and>
      (r < i + k \<longrightarrow> data ! r \<noteq> 0) \<and> (\<forall>j. i \<le> j \<and> j < r \<longrightarrow> data ! j = 0))"
proof (induction data i k rule: cSetArray_firstCell.induct)
  case (2 data i k)
  show ?case
  proof (cases "data ! i = 0")
    case True
    then have *: "\<And>j. i \<le> j \<Longrightarrow> data ! j \<noteq> 0 \<Longrightarrow> Suc i \<le> j"
      by (metis le_antisym not_less_eq_eq)
    from True 2 show ?thesis
      using * by (auto simp: Let_def)
  qed (auto simp: Let_def)
qed auto

lemma firstBit_eq:
  "loc < len \<Longrightarrow> (\<exists>j<k. bit data j) \<Longrightarrow>
     (let r = cSetArray_firstBit len data loc k in loc \<le> r \<and> r \<le> len \<and>
        (r < len \<longrightarrow> bit data (r - loc)) \<and> (\<forall>j. loc \<le> j \<and> j < r \<longrightarrow> \<not> bit data (j - loc)))"
proof (induction len data loc k rule: cSetArray_firstBit.induct)
  case (2 len data loc k)
  show ?case
  proof (cases "bit data 0")
    case True
    then show ?thesis
      using 2(2) by (simp add: XSetArray.and_one_eq Let_def)
  next
    case False
    have z: "\<not> bit data (j - loc)" if "loc \<le> j" "j < Suc loc" for j
    proof -
      have "j - loc = 0"
        using that by simp
      then show ?thesis
        using False by simp
    qed
    show ?thesis
    proof (cases "loc + 1 \<ge> len")
      case True
      then show ?thesis
        using False 2(2) z by (simp add: XSetArray.and_one_eq Let_def)
    next
      case l: False
      obtain j where "j < Suc k" "bit data j"
        using 2(3) by blast
      then have "\<exists>j<k. bit (drop_bit 1 data) j"
        using False by (cases j) (auto simp: bit_drop_bit_eq)
      with 2(1) False l have ih: "let r = cSetArray_firstBit len (drop_bit 1 data) (loc + 1) k in
          loc + 1 \<le> r \<and> r \<le> len \<and> (r < len \<longrightarrow> bit (drop_bit 1 data) (r - (loc + 1))) \<and>
          (\<forall>j. loc + 1 \<le> j \<and> j < r \<longrightarrow> \<not> bit (drop_bit 1 data) (j - (loc + 1)))"
        by (simp add: XSetArray.and_one_eq)
      define r where "r = cSetArray_firstBit len (drop_bit 1 data) (loc + 1) k"
      have r: "cSetArray_firstBit len data loc (Suc k) = r"
        using False l by (simp add: r_def XSetArray.and_one_eq)
      have ih': "loc + 1 \<le> r" "r \<le> len" "r < len \<longrightarrow> bit data (Suc (r - (loc + 1)))"
          "\<And>j. loc + 1 \<le> j \<Longrightarrow> j < r \<Longrightarrow> \<not> bit data (Suc (j - (loc + 1)))"
        using ih unfolding r_def by (simp_all add: Let_def bit_drop_bit_eq)
      have "\<not> bit data (j - loc)" if "loc \<le> j" "j < r" for j
        using z [of j] ih'(4) [of j] that by (cases "j < Suc loc") (auto simp: Suc_diff_Suc)
      moreover have "Suc (r - (loc + 1)) = r - loc"
        using ih'(1) by simp
      ultimately show ?thesis
        unfolding r Let_def using ih'(1-3) by auto
    qed
  qed
qed auto

lemma takeWhile_index:
  "r \<le> length bs \<Longrightarrow> (r < length bs \<longrightarrow> bs ! r) \<Longrightarrow> (\<forall>j<r. \<not> bs ! j) \<Longrightarrow> length (takeWhile Not bs) = r"
  by (subst takeWhile_eq_take_P_nth [where n = r]) auto

lemma bit_lt_32: "bit (w :: uint32) n \<Longrightarrow> n < 32"
  using bit_imp_le_length [of w n] by simp

lemma first_eq:
  assumes inv: "cSetArray_inv s"
  shows "cSetArray_first s = Inr (length (takeWhile Not (cSetArray_bits s)))"
proof -
  let ?n = "(m_length s + 31) div 32"
  define c where "c = cSetArray_firstCell (m_data s) 0 ?n"
  have c: "c \<le> ?n" "c < ?n \<longrightarrow> m_data s ! c \<noteq> 0" "\<And>j. j < c \<Longrightarrow> m_data s ! j = 0"
    using firstCell_eq [of "m_data s" 0 ?n] by (simp_all add: c_def Let_def)
  have before: "\<not> cSetArray_bit s j" if "j < c * 32" for j
    using c(3) [of "j div 32"] that by (simp add: cSetArray_bit_def less_mult_imp_div_less)
  have f: "cSetArray_first s = (if c \<ge> ?n then Inr (m_length s)
      else Inr (cSetArray_firstBit (m_length s) (m_data s ! c) (c * 32) 32))"
    using inv by (simp add: cSetArray_first_def drop_bit_eq_div c_def Let_def cSetArray_cell_def cSetArray_inv_def add.commute)
  show ?thesis
  proof (cases "c \<ge> ?n")
    case True
    then have "m_length s \<le> c * 32"
      by linarith
    then have "\<forall>j<m_length s. \<not> cSetArray_bits s ! j"
      using before by (simp add: bits_nth)
    then have "length (takeWhile Not (cSetArray_bits s)) = m_length s"
      by (intro takeWhile_index) auto
    then show ?thesis
      using f True by simp
  next
    case False
    let ?w = "m_data s ! c"
    have "\<exists>j. bit ?w j"
    proof (rule ccontr)
      assume "\<nexists>j. bit ?w j"
      then have "?w = 0"
        by (intro bit_word_eqI) auto
      then show False
        using c(2) False by simp
    qed
    then have ex: "\<exists>j<32. bit ?w j"
      using bit_lt_32 by blast
    define r where "r = cSetArray_firstBit (m_length s) ?w (c * 32) 32"
    have lt: "c * 32 < m_length s"
      using False by linarith
    have r: "c * 32 \<le> r" "r \<le> m_length s" "r < m_length s \<longrightarrow> bit ?w (r - c * 32)"
        "\<And>j. c * 32 \<le> j \<Longrightarrow> j < r \<Longrightarrow> \<not> bit ?w (j - c * 32)"
      using firstBit_eq [OF lt ex] by (simp_all add: r_def Let_def)
    have cell: "cSetArray_bit s j = bit ?w (j - c * 32)" if "c * 32 \<le> j" "j < c * 32 + 32" for j
    proof -
      define t where "t = j - c * 32"
      then have "j = c * 32 + t" "t < 32"
        using that by simp_all
      then have "j div 32 = c" "j mod 32 = j - c * 32"
        by simp_all
      then show ?thesis
        by (simp add: cSetArray_bit_def)
    qed
    have "r < c * 32 + 32 \<or> r = m_length s"
      using r(1-3) bit_lt_32 [of ?w "r - c * 32"] by (cases "r < m_length s") auto
    have r32: "j < c * 32 + 32" if "j < r" for j
    proof (rule ccontr)
      assume "\<not> j < c * 32 + 32"
      obtain b where "b < 32" "bit ?w b"
        using ex by blast
      then show False
        using r(4) [of "c * 32 + b"] that \<open>\<not> j < c * 32 + 32\<close> by simp
    qed
    have "\<not> cSetArray_bits s ! j" if "j < r" for j
      using before [of j] r(2) r(4) [of j] cell [of j] r32 [OF that] that
      by (cases "j < c * 32") (auto simp: bits_nth)
    moreover have "r < m_length s \<longrightarrow> cSetArray_bits s ! r"
      using r(1,3) cell [of r] bit_lt_32 [of ?w "r - c * 32"] by (auto simp: bits_nth)
    ultimately have "length (takeWhile Not (cSetArray_bits s)) = r"
      using r(2) by (intro takeWhile_index) auto
    then show ?thesis
      using f False by (simp add: r_def)
  qed
qed

text \<open>
  On a well-formed bit set, \<open>isSet\<close> reads, \<open>set\<close> and \<open>clear\<close> update exactly the
  addressed bit, and a location outside the set throws in all three.
\<close>

theorem setArray_access:
  "cSetArray_inv s \<Longrightarrow>
     (if i < m_length s then
        cSetArray_isSet s i = Inr (cSetArray_bits s ! i) \<and>
        (\<exists>a b. cSetArray_set s i = Inr a \<and> cSetArray_clear s i = Inr b \<and>
           cSetArray_inv a \<and> cSetArray_inv b \<and>
           cSetArray_bits a = (cSetArray_bits s)[i := True] \<and>
           cSetArray_bits b = (cSetArray_bits s)[i := False])
      else cSetArray_isSet s i = Inl EXCEPTION_ASSERTION \<and>
        cSetArray_set s i = Inl EXCEPTION_ASSERTION \<and> cSetArray_clear s i = Inl EXCEPTION_ASSERTION)"
  using set_eq [of s i] clear_eq [of s i]
  by (cases "i < m_length s")
    (auto simp: bits_nth, simp_all add: cSetArray_isSet_def cSetArray_set_def cSetArray_clear_def)

theorem setArray_access_witness:
  "cSetArray_isSet \<lparr>m_data = [5, 2], m_length = 40\<rparr> 33 = Inr True"
  using setArray_access [of "\<lparr>m_data = [5, 2], m_length = 40\<rparr>" 33]
  by (simp add: cSetArray_inv_def cSetArray_bits_def cSetArray_bit_def bit_numeral_rec)

text \<open>
  The operators \<open>&=\<close> and \<open>|=\<close> compute the intersection and the union,
  \<open>isSetInOnePlace\<close> tells whether the set has exactly one element, and \<open>first\<close> finds
  the least element or returns the length, whatever the unused bits of the last cell are.
\<close>

theorem setArray_queries:
  "cSetArray_inv s \<Longrightarrow> cSetArray_inv t \<Longrightarrow> m_length t = m_length s \<Longrightarrow>
     (\<exists>a b. cSetArray_and_assign s t = Inr a \<and> cSetArray_or_assign s t = Inr b \<and>
        cSetArray_bits a = map2 (\<and>) (cSetArray_bits s) (cSetArray_bits t) \<and>
        cSetArray_bits b = map2 (\<or>) (cSetArray_bits s) (cSetArray_bits t)) \<and>
     cSetArray_isSetInOnePlace s = Inr (count_list (cSetArray_bits s) True = 1) \<and>
     cSetArray_first s = Inr (length (takeWhile Not (cSetArray_bits s)))"
proof -
  assume s: "cSetArray_inv s" and t: "cSetArray_inv t" and l: "m_length t = m_length s"
  have first: "cSetArray_first s = Inr (length (takeWhile Not (cSetArray_bits s)))"
    by (rule first_eq [OF s])
  show ?thesis
    using combine_eq [OF s t l, of 0 "m_length s" "(\<and>)"] combine_eq [OF s t l, of 0 "m_length s" "(\<or>)"]
      onePlace_eq [OF s, of 0 "m_length s" False] first l
    by (auto simp: cSetArray_and_assign_def cSetArray_or_assign_def cSetArray_isSetInOnePlace_def)
qed

theorem setArray_queries_witness:
  "cSetArray_first \<lparr>m_data = [0, 6], m_length = 40\<rparr> = Inr 33 \<and>
   cSetArray_isSetInOnePlace \<lparr>m_data = [0, 6], m_length = 40\<rparr> = Inr False"
  using setArray_queries [of "\<lparr>m_data = [0, 6], m_length = 40\<rparr>" "\<lparr>m_data = [1, 2], m_length = 40\<rparr>"]
  by (simp add: cSetArray_inv_def cSetArray_bits_def cSetArray_bit_def bit_numeral_rec upt_conv_Cons)

lemma setFrom_eq:
  "cSetArray_inv s \<Longrightarrow> i + k = m_length s \<Longrightarrow>
     \<exists>s'. cSetArray_setFrom s i k = Inr s' \<and> cSetArray_inv s' \<and> m_length s' = m_length s \<and>
          cSetArray_bits s' = take i (cSetArray_bits s) @ replicate k True"
proof (induction s i k rule: cSetArray_setFrom.induct)
  case (2 s i k)
  then have i: "i < m_length s"
    by simp
  obtain s1 where s1: "cSetArray_set s i = Inr s1" "cSetArray_inv s1" "m_length s1 = m_length s"
      "cSetArray_bits s1 = (cSetArray_bits s)[i := True]"
    using set_eq [OF 2(2) i] by blast
  with 2(1) [of s1] 2(3) i show ?case
    by (auto simp: take_Suc_conv_app_nth)
qed simp

text \<open>
  A set that is constructed with \<open>shouldResetArray\<close> is well formed, and all its bits have
  the value the caller asked for, whatever the allocation held before.
\<close>

lemma setArray_new_reset:
  "(n + 31) div 32 \<le> length mem \<Longrightarrow> n + 31 < 2 ^ 64 \<Longrightarrow>
     \<exists>s. cSetArray_new n True resetAsSet mem = Inr s \<and> cSetArray_inv s \<and>
         cSetArray_bits s = replicate n resetAsSet"
proof -
  assume len: "(n + 31) div 32 \<le> length mem" "n + 31 < 2 ^ 64"
  let ?s = "cSetArray_resetArray (cSetArray_changeSize \<lparr>m_data = [], m_length = 0\<rparr> n False mem)"
  have data: "m_data ?s = replicate ((n + 31) div 32) 0" "m_length ?s = n"
    using len by (auto simp: cSetArray_resetArray_def cSetArray_changeSize_def drop_bit_eq_div Let_def
        add.commute min_def)
  then have inv: "cSetArray_inv ?s"
    by (simp add: cSetArray_inv_def)
  have "cSetArray_bits ?s = replicate n False"
    by (rule nth_equalityI) (auto simp: cSetArray_bits_def cSetArray_bit_def data nth_replicate)
  then show ?thesis
    using setFrom_eq [OF inv, of 0 n] inv data(2)
    by (cases resetAsSet) (auto simp: cSetArray_new_def Let_def)
qed

end
