(* ===== verification/XCrc.thy ===== *)
theory XCrc
  imports XEndian
begin

text \<open>
  The cyclic redundancy checks of Source/xStl/enc/digest/Crc16.cpp and Crc64.cpp. CRC-16
  works bit by bit; CRC-64 is table driven, with a byte-wise loop up to a four byte boundary
  of the address, a loop over four byte cells (``slicing by four'') and a loop over the rest.
\<close>

subsection \<open>CRC-16\<close>

definition crc16_bit :: "uint16 \<Rightarrow> uint16" where
  "crc16_bit c = (if c AND 0x8000 \<noteq> 0 then push_bit 1 c XOR 0x1021 else push_bit 1 c)"

definition updateCrc :: "uint16 \<Rightarrow> uint8 \<Rightarrow> uint16" where
  "updateCrc crc input = (crc16_bit ^^ 8) (crc XOR push_bit 8 (ucast input))"

record CRC16 =
  crc16_value :: uint16

definition CRC16_INITIAL_VALUE :: uint16 where
  "CRC16_INITIAL_VALUE = 0xFFFF"

definition CRC16_new :: CRC16 where
  "CRC16_new = \<lparr>crc16_value = CRC16_INITIAL_VALUE\<rparr>"

definition CRC16_reset :: "CRC16 \<Rightarrow> CRC16" where
  "CRC16_reset c = c\<lparr>crc16_value := CRC16_INITIAL_VALUE\<rparr>"

definition CRC16_update_byte :: "CRC16 \<Rightarrow> uint8 \<Rightarrow> CRC16" where
  "CRC16_update_byte c data = c\<lparr>crc16_value := updateCrc (crc16_value c) data\<rparr>"

fun CRC16_update :: "CRC16 \<Rightarrow> uint8 list \<Rightarrow> CRC16" where
  "CRC16_update c [] = c"
| "CRC16_update c (d # data) = CRC16_update (CRC16_update_byte c d) data"

definition CRC16_getValue :: "CRC16 \<Rightarrow> uint16" where
  "CRC16_getValue c = crc16_value c"

subsection \<open>CRC-64: the tables\<close>

definition crc64_bit :: "uint64 \<Rightarrow> uint64" where
  "crc64_bit r = (if r AND 1 \<noteq> 0 then drop_bit 1 r XOR 0xC96C5795D7870F42 else drop_bit 1 r)"

text \<open>
  Table \<open>s\<close> starts from the byte itself for \<open>s = 0\<close> and from the entry of table \<open>s - 1\<close>
  otherwise, and runs eight rounds.
\<close>

fun CRC64Tables :: "nat \<Rightarrow> uint64 list" where
  "CRC64Tables 0 = map (\<lambda>b. (crc64_bit ^^ 8) (word_of_nat b)) [0..<256]"
| "CRC64Tables (Suc s) = map (\<lambda>b. (crc64_bit ^^ 8) (CRC64Tables s ! b)) [0..<256]"

subsection \<open>CRC-64: the update\<close>

record CRC64 =
  crc64_value :: uint64

definition CRC64_reset :: "CRC64 \<Rightarrow> CRC64" where
  "CRC64_reset c = c\<lparr>crc64_value := 0\<rparr>"

definition CRC64_new :: CRC64 where
  "CRC64_new = CRC64_reset \<lparr>crc64_value = 0\<rparr>"

definition CRC64_getValue :: "CRC64 \<Rightarrow> uint64" where
  "CRC64_getValue c = crc64_value c"

text \<open>\<open>m_value = gTables[0][*buffer++ ^ A(m_value)] ^ S8(m_value)\<close>\<close>

definition CRC64_byte :: "uint64 \<Rightarrow> uint8 \<Rightarrow> uint64" where
  "CRC64_byte v d = CRC64Tables 0 ! unat (ucast d XOR (v AND 0xFF)) XOR drop_bit 8 v"

text \<open>The loop up to the next four byte boundary; \<open>addr\<close> is the address of the data.\<close>

fun CRC64_head :: "nat \<Rightarrow> uint64 \<Rightarrow> uint8 list \<Rightarrow> uint64 \<times> uint8 list" where
  "CRC64_head addr v [] = (v, [])"
| "CRC64_head addr v (d # data) =
     (if addr mod 4 \<noteq> 0 then CRC64_head (addr + 1) (CRC64_byte v d) data else (v, d # data))"

text \<open>One cell of four bytes, and the loop over the cells.\<close>

definition CRC64_cell :: "uint64 \<Rightarrow> uint8 \<Rightarrow> uint8 \<Rightarrow> uint8 \<Rightarrow> uint8 \<Rightarrow> uint64" where
  "CRC64_cell v a b c d =
     (let tmp = (ucast (v XOR ucast (cLittleEndian_readUint32 [a, b, c, d])) :: uint32)
      in CRC64Tables 3 ! unat (tmp AND 0xFF)
         XOR CRC64Tables 2 ! unat (drop_bit 8 tmp AND 0xFF)
         XOR drop_bit 32 v
         XOR CRC64Tables 1 ! unat (drop_bit 16 tmp AND 0xFF)
         XOR CRC64Tables 0 ! unat (drop_bit 24 tmp))"

fun CRC64_cells :: "uint64 \<Rightarrow> uint8 list \<Rightarrow> uint64 \<times> uint8 list" where
  "CRC64_cells v (a # b # c # d # data) = CRC64_cells (CRC64_cell v a b c d) data"
| "CRC64_cells v data = (v, data)"

fun CRC64_tail :: "uint64 \<Rightarrow> uint8 list \<Rightarrow> uint64" where
  "CRC64_tail v [] = v"
| "CRC64_tail v (d # data) = CRC64_tail (CRC64_byte v d) data"

definition CRC64_update :: "CRC64 \<Rightarrow> nat \<Rightarrow> uint8 list \<Rightarrow> CRC64" where
  "CRC64_update c addr data =
     (let v = NOT (crc64_value c);
          (v, rest) =
            (if length data > 4 then
               (let (v, rest) = CRC64_head addr v data in CRC64_cells v rest)
             else (v, data))
      in c\<lparr>crc64_value := NOT (CRC64_tail v rest)\<rparr>)"

definition CRC64_digest :: "CRC64 \<Rightarrow> uint8 list" where
  "CRC64_digest c = cBigEndian_writeUint64 (replicate 8 0) (crc64_value c)"

definition CRC64_getDigestLength :: nat where
  "CRC64_getDigestLength = 8"

text \<open>\<open>clone\<close> does not copy the running value.\<close>

definition CRC64_clone :: "CRC64 \<Rightarrow> CRC64" where
  "CRC64_clone c = CRC64_new"

subsection \<open>The bit-wise reference\<close>

definition crc64_ref_byte :: "uint64 \<Rightarrow> uint8 \<Rightarrow> uint64" where
  "crc64_ref_byte v d = (crc64_bit ^^ 8) (v XOR ucast d)"

lemma crc64_bit_bit0: "r AND 1 \<noteq> 0 \<longleftrightarrow> bit (r :: uint64) 0"
  by (simp add: and_one_eq bit_0 odd_iff_mod_2_eq_one)

lemma crc64_bit_xor: "crc64_bit (x XOR y) = crc64_bit x XOR crc64_bit y"
  by (simp only: crc64_bit_def crc64_bit_bit0 bit_xor_iff)
    (auto intro!: bit_word_eqI simp: bit_xor_iff bit_drop_bit_eq)

lemma crc64_pow_xor: "(crc64_bit ^^ n) (x XOR y) = (crc64_bit ^^ n) x XOR (crc64_bit ^^ n) y"
  by (induction n) (simp_all add: crc64_bit_xor)

lemma crc64_pow_shift: "take_bit n x = 0 \<Longrightarrow> (crc64_bit ^^ n) x = drop_bit n x"
proof (induction n arbitrary: x)
  case (Suc n)
  have "\<not> bit x 0"
    using Suc.prems by (metis bit_take_bit_iff zero_less_Suc bit_0_eq bot_apply bot_bool_def)
  then have b: "crc64_bit x = drop_bit 1 x"
    by (simp only: crc64_bit_def crc64_bit_bit0) simp
  have "take_bit n (drop_bit 1 x) = 0"
    using Suc.prems by (metis Suc_eq_plus1 take_bit_drop_bit drop_bit_of_0 add.commute)
  then have "(crc64_bit ^^ n) (drop_bit 1 x) = drop_bit n (drop_bit 1 x)"
    by (rule Suc.IH)
  then show ?case
    using b by (simp only: funpow_Suc_right o_apply) (simp add: drop_bit_drop_bit)
qed simp

lemma split_low: "x = take_bit n x XOR (x AND NOT (mask n))" for x :: uint64
  by (rule bit_word_eqI) (auto simp: bit_simps)

lemma crc64_pow_split:
  "(crc64_bit ^^ n) x = (crc64_bit ^^ n) (take_bit n x) XOR drop_bit n x"
proof -
  have "take_bit n (x AND NOT (mask n)) = 0" "drop_bit n (x AND NOT (mask n)) = drop_bit n x"
    using bit_imp_le_length [of x] by (auto intro!: bit_word_eqI simp: bit_simps)
  then have "(crc64_bit ^^ n) (x AND NOT (mask n)) = drop_bit n x"
    using crc64_pow_shift by simp
  then show ?thesis
    by (metis crc64_pow_xor split_low)
qed

lemma CRC64Tables_nth: "b < 256 \<Longrightarrow> CRC64Tables s ! b = (crc64_bit ^^ (8 * (s + 1))) (word_of_nat b)"
proof (induction s)
  case (Suc s)
  then have "CRC64Tables (Suc s) ! b = (crc64_bit ^^ 8) ((crc64_bit ^^ (8 * (s + 1))) (word_of_nat b))"
    by simp
  also have "\<dots> = (crc64_bit ^^ (8 + 8 * (s + 1))) (word_of_nat b)"
    by (simp only: funpow_add o_apply)
  finally show ?case
    by simp
qed simp

lemma table_lookup:
  "CRC64Tables s ! unat (take_bit 8 (x :: uint64)) = (crc64_bit ^^ (8 * (s + 1))) (take_bit 8 x)"
proof -
  have "unat (take_bit 8 x) < 256"
    unfolding unsigned_take_bit_eq by (simp add: take_bit_eq_mod)
  then show ?thesis
    by (simp add: CRC64Tables_nth)
qed

lemma ff_mask64: "(0xFF :: uint64) = mask 8"
  by (simp add: mask_eq_exp_minus_1)

lemma CRC64_byte_ref: "CRC64_byte v d = crc64_ref_byte v d"
proof -
  let ?x = "v XOR ucast d"
  have i: "ucast d XOR (v AND 0xFF) = take_bit 8 ?x"
    unfolding ff_mask64 by (rule bit_word_eqI) (auto simp: bit_simps dest: bit_imp_le_length)
  have s: "drop_bit 8 v = drop_bit 8 ?x"
    by (rule bit_word_eqI) (auto simp: bit_simps dest: bit_imp_le_length)
  show ?thesis
    unfolding CRC64_byte_def crc64_ref_byte_def i s table_lookup
    by (simp add: crc64_pow_split [of 8 ?x])
qed

lemma crc64_pow_push: "k \<le> n \<Longrightarrow> k + 8 \<le> 64 \<Longrightarrow>
    (crc64_bit ^^ n) (push_bit k (take_bit 8 x)) = (crc64_bit ^^ (n - k)) (take_bit 8 x)"
proof -
  assume k: "k \<le> n" "k + 8 \<le> 64"
  have "(crc64_bit ^^ n) y = (crc64_bit ^^ (n - k)) ((crc64_bit ^^ k) y)" for y
    using k(1) by (metis funpow_add le_add_diff_inverse2 o_apply)
  moreover have "(crc64_bit ^^ k) (push_bit k (take_bit 8 x)) = take_bit 8 x"
  proof -
    have "take_bit k (push_bit k (take_bit 8 x)) = 0"
      by (rule bit_word_eqI) (simp add: bit_take_bit_iff bit_push_bit_iff)
    moreover have "drop_bit k (push_bit k (take_bit 8 x)) = take_bit 8 x"
      using k(2) by (intro bit_word_eqI) (auto simp: bit_simps)
    ultimately show ?thesis
      using crc64_pow_shift by simp
  qed
  ultimately show ?thesis
    by simp
qed

lemma crc64_bytes_at_once:
  "crc64_ref_byte (crc64_ref_byte (crc64_ref_byte (crc64_ref_byte v a) b) c) d =
     (crc64_bit ^^ 32) (v XOR ucast a XOR push_bit 8 (ucast b) XOR push_bit 16 (ucast c) XOR push_bit 24 (ucast d))"
proof -
  have t: "ucast x = take_bit 8 (ucast x :: uint64)" for x :: uint8
    by (rule bit_word_eqI) (auto simp: bit_simps dest: bit_imp_le_length)
  have n: "(crc64_bit ^^ 8) ((crc64_bit ^^ k) y XOR ucast x) = (crc64_bit ^^ (k + 8)) (y XOR push_bit k (ucast x))"
    if "k + 8 \<le> 64" for k y and x :: uint8
  proof -
    have "(crc64_bit ^^ k) (push_bit k (ucast x)) = (ucast x :: uint64)"
      using crc64_pow_push [of k k "ucast x"] that by (simp flip: t)
    then have "(crc64_bit ^^ k) y XOR ucast x = (crc64_bit ^^ k) (y XOR push_bit k (ucast x))"
      by (simp add: crc64_pow_xor)
    then show ?thesis
      by (simp add: funpow_add add.commute [of k 8] del: funpow.simps)
  qed
  show ?thesis
    unfolding crc64_ref_byte_def
    using n [of 8 "v XOR ucast a" b] n [of 16 "v XOR ucast a XOR push_bit 8 (ucast b)" c]
      n [of 24 "v XOR ucast a XOR push_bit 8 (ucast b) XOR push_bit 16 (ucast c)" d]
    by (simp add: xor.assoc del: funpow.simps)
qed

lemma take_bit_byte:
  "take_bit (m + 8) x = take_bit m x XOR push_bit m (take_bit 8 (drop_bit m (x :: uint64)))"
  by (rule bit_word_eqI) (auto simp: bit_simps)

lemma unat_eq_by_bits:
  "(\<And>i. bit (w :: uint32) i = bit (x :: uint64) i) \<Longrightarrow> unat w = unat x"
  by (rule bit_eqI) (simp add: bit_unsigned_iff)

lemma bit_byte_64:
  "k + 8 \<le> 64 \<Longrightarrow> bit (push_bit k (ucast (a :: uint8)) :: uint64) i \<longleftrightarrow> k \<le> i \<and> i < k + 8 \<and> bit a (i - k)"
  using bit_imp_le_length [of a "i - k"] by (auto simp: bit_push_bit_iff bit_unsigned_iff)

lemma bit_byte_32:
  "k + 8 \<le> 32 \<Longrightarrow> bit (push_bit k (ucast (a :: uint8)) :: uint32) i \<longleftrightarrow> k \<le> i \<and> i < k + 8 \<and> bit a (i - k)"
  using bit_imp_le_length [of a "i - k"] by (auto simp: bit_push_bit_iff bit_unsigned_iff)

lemma read32_xor:
  "ucast (cLittleEndian_readUint32 [a, b, c, d]) =
     ((ucast a XOR push_bit 8 (ucast b) XOR push_bit 16 (ucast c) XOR push_bit 24 (ucast d)) :: uint64)"
proof (rule bit_word_eqI)
  fix n
  assume "n < LENGTH(64)"
  have z: "bit (ucast a :: uint64) n \<longleftrightarrow> n < 8 \<and> bit a n" "bit (ucast a :: uint32) n \<longleftrightarrow> n < 8 \<and> bit a n"
    using bit_byte_64 [of 0 a n] bit_byte_32 [of 0 a n] by simp_all
  have l: "bit (ucast (cLittleEndian_readUint32 [a, b, c, d]) :: uint64) n \<longleftrightarrow>
      bit (cLittleEndian_readUint32 [a, b, c, d]) n"
    using \<open>n < LENGTH(64)\<close> by (simp add: bit_unsigned_iff)
  have r: "bit (cLittleEndian_readUint32 [a, b, c, d]) n \<longleftrightarrow>
      24 \<le> n \<and> n < 32 \<and> bit d (n - 24) \<or> 16 \<le> n \<and> n < 24 \<and> bit c (n - 16) \<or>
      8 \<le> n \<and> n < 16 \<and> bit b (n - 8) \<or> n < 8 \<and> bit a n"
    by (simp add: cLittleEndian_readUint32_def bit_or_iff bit_byte_32 z)
  show "bit (ucast (cLittleEndian_readUint32 [a, b, c, d]) :: uint64) n =
      bit (ucast a XOR push_bit 8 (ucast b) XOR push_bit 16 (ucast c) XOR push_bit 24 (ucast d) :: uint64) n"
  proof -
    consider "n < 8" | "8 \<le> n" "n < 16" | "16 \<le> n" "n < 24" | "24 \<le> n" "n < 32" | "32 \<le> n"
      by linarith
    then show ?thesis
      unfolding l r bit_xor_iff z by cases (simp_all add: bit_byte_64)
  qed
qed

text \<open>Four table lookups on the low half of a word are its 32 rounds.\<close>

lemma four_lookups:
  assumes "tmp = (ucast x :: uint32)"
  shows "CRC64Tables 3 ! unat (tmp AND 0xFF) XOR CRC64Tables 2 ! unat (drop_bit 8 tmp AND 0xFF) XOR
         drop_bit 32 x XOR CRC64Tables 1 ! unat (drop_bit 16 tmp AND 0xFF) XOR
         CRC64Tables 0 ! unat (drop_bit 24 tmp) = (crc64_bit ^^ 32) x"
proof -
  have m: "(0xFF :: uint32) = mask 8"
    by (simp add: mask_eq_exp_minus_1)
  have lo: "bit tmp i \<longleftrightarrow> i < 32 \<and> bit x i" for i
    using bit_imp_le_length [of x i] by (auto simp: assms bit_unsigned_iff)
  have idx: "unat (tmp AND 0xFF) = unat (take_bit 8 x)"
      "unat (drop_bit 8 tmp AND 0xFF) = unat (take_bit 8 (drop_bit 8 x))"
      "unat (drop_bit 16 tmp AND 0xFF) = unat (take_bit 8 (drop_bit 16 x))"
      "unat (drop_bit 24 tmp) = unat (take_bit 8 (drop_bit 24 x))"
    unfolding m
    by (rule unat_eq_by_bits; auto simp: bit_and_iff bit_mask_iff bit_drop_bit_eq bit_take_bit_iff lo)+
  have parts: "take_bit 32 x = take_bit 8 x XOR push_bit 8 (take_bit 8 (drop_bit 8 x)) XOR
      push_bit 16 (take_bit 8 (drop_bit 16 x)) XOR push_bit 24 (take_bit 8 (drop_bit 24 x))"
    using take_bit_byte [of 8 x] take_bit_byte [of 16 x] take_bit_byte [of 24 x]
    by (simp add: xor.assoc)
  show ?thesis
    unfolding idx table_lookup crc64_pow_split [of 32 x] parts crc64_pow_xor
    using crc64_pow_push [of 8 32 "drop_bit 8 x"] crc64_pow_push [of 16 32 "drop_bit 16 x"]
      crc64_pow_push [of 24 32 "drop_bit 24 x"]
    by (simp add: ac_simps del: funpow.simps)
qed

lemma CRC64_cell_ref:
  "CRC64_cell v a b c d = crc64_ref_byte (crc64_ref_byte (crc64_ref_byte (crc64_ref_byte v a) b) c) d"
proof -
  let ?x = "v XOR ucast a XOR push_bit 8 (ucast b) XOR push_bit 16 (ucast c) XOR push_bit 24 (ucast d)"
  have "drop_bit 32 (push_bit k (ucast y) :: uint64) = 0" if "k \<le> 24" for k and y :: uint8
    using that by (intro bit_word_eqI) (simp add: bit_drop_bit_eq bit_byte_64)
  from this [of 0] this [of 8] this [of 16] this [of 24] have "drop_bit 32 v = drop_bit 32 ?x"
    by simp
  moreover have "(ucast (v XOR ucast (cLittleEndian_readUint32 [a, b, c, d])) :: uint32) = ucast ?x"
    by (simp add: read32_xor)
  ultimately show ?thesis
    unfolding crc64_bytes_at_once CRC64_cell_def Let_def by (simp only: four_lookups [OF refl])
qed

lemma CRC64_tail_ref: "CRC64_tail v data = foldl crc64_ref_byte v data"
  by (induction v data rule: CRC64_tail.induct) (simp_all add: CRC64_byte_ref)

lemma CRC64_head_ref:
  "CRC64_head addr v data = (v', rest) \<Longrightarrow> foldl crc64_ref_byte v' rest = foldl crc64_ref_byte v data"
  by (induction addr v data rule: CRC64_head.induct) (auto simp: CRC64_byte_ref split: if_splits)

lemma CRC64_cells_ref:
  "CRC64_cells v data = (v', rest) \<Longrightarrow> foldl crc64_ref_byte v' rest = foldl crc64_ref_byte v data"
  by (induction v data rule: CRC64_cells.induct) (auto simp: CRC64_cell_ref)

text \<open>
  C16: whatever the alignment of the buffer, the table driven CRC-64 update with its
  slicing loop computes the bit-by-bit CRC of the bytes in order; hence splitting the data
  over several updates does not change the result.
\<close>

theorem CRC64_update_correct:
  "crc64_value (CRC64_update c addr data) = NOT (foldl crc64_ref_byte (NOT (crc64_value c)) data) \<and>
   CRC64_update (CRC64_update c addr data) addr' data' = CRC64_update c addr'' (data @ data')"
proof -
  have *: "crc64_value (CRC64_update c addr data) = NOT (foldl crc64_ref_byte (NOT (crc64_value c)) data)"
    for c addr data
  proof -
    obtain v1 r1 where 1: "CRC64_head addr (NOT (crc64_value c)) data = (v1, r1)"
      by (cases "CRC64_head addr (NOT (crc64_value c)) data")
    obtain v2 r2 where 2: "CRC64_cells v1 r1 = (v2, r2)"
      by (cases "CRC64_cells v1 r1")
    have "foldl crc64_ref_byte v2 r2 = foldl crc64_ref_byte (NOT (crc64_value c)) data"
      using CRC64_head_ref [OF 1] CRC64_cells_ref [OF 2] by simp
    then show ?thesis
      by (simp add: CRC64_update_def CRC64_tail_ref Let_def 1 2)
  qed
  have "c = c'" if "crc64_value c = crc64_value c'" for c c' :: CRC64
    using that by (cases c; cases c') simp
  then show ?thesis
    using * by (metis (no_types, lifting) bit.double_compl foldl_append)
qed

subsection \<open>CRC-16: the residue\<close>

lemma crc16_top: "c AND 0x8000 \<noteq> 0 \<longleftrightarrow> bit (c :: uint16) 15"
proof -
  have "(0x8000 :: uint16) = 2 ^ 15"
    by simp
  then show ?thesis
    by (metis and_exp_eq_0_iff_not_bit)
qed

lemma crc16_bit_xor: "crc16_bit (x XOR y) = crc16_bit x XOR crc16_bit y"
  by (simp only: crc16_bit_def crc16_top bit_xor_iff)
    (auto intro!: bit_word_eqI simp: bit_xor_iff bit_push_bit_iff)

lemma crc16_pow_xor: "(crc16_bit ^^ n) (x XOR y) = (crc16_bit ^^ n) x XOR (crc16_bit ^^ n) y"
  by (induction n) (simp_all add: crc16_bit_xor)

lemma crc16_pow_shift: "n + k \<le> 16 \<Longrightarrow> (\<forall>i. bit x i \<longrightarrow> i < k) \<Longrightarrow> (crc16_bit ^^ n) x = push_bit n x"
proof (induction n arbitrary: x k)
  case (Suc n)
  then have "\<not> bit x 15"
    by force
  then have b: "crc16_bit x = push_bit 1 x"
    by (simp only: crc16_bit_def crc16_top) simp
  have "\<forall>i. bit (push_bit 1 x) i \<longrightarrow> i < k + 1"
  proof (intro allI impI)
    fix i
    assume "bit (push_bit 1 x) i"
    then have "1 \<le> i" "bit x (i - 1)"
      by (simp_all only: bit_push_bit_iff)
    then show "i < k + 1"
      using Suc.prems(2) by fastforce
  qed
  then have "(crc16_bit ^^ n) (push_bit 1 x) = push_bit n (push_bit 1 x)"
    using Suc.prems(1) by (intro Suc.IH [of "k + 1"]) auto
  then show ?case
    using b by (simp only: funpow_Suc_right o_apply push_bit_push_bit) simp
qed simp

lemma updateCrc_table:
  "updateCrc crc input = push_bit 8 crc XOR updateCrc 0 (ucast (drop_bit 8 crc) XOR input)"
proof -
  let ?lo = "crc AND mask 8" and ?in = "push_bit 8 (ucast (ucast (drop_bit 8 crc) XOR input)) :: uint16"
  have "crc XOR push_bit 8 (ucast input) = ?lo XOR ?in"
    by (rule bit_word_eqI) (auto simp: bit_simps dest: bit_imp_le_length)
  moreover have "(crc16_bit ^^ 8) ?lo = push_bit 8 ?lo"
    by (rule crc16_pow_shift [of _ 8]) (auto simp: bit_and_iff bit_mask_iff)
  moreover have "push_bit 8 ?lo = push_bit 8 crc"
    by (rule bit_word_eqI) (auto simp: bit_simps)
  ultimately show ?thesis
    by (simp add: updateCrc_def crc16_pow_xor del: funpow.simps)
qed

lemma updateCrc_0_0: "updateCrc 0 0 = 0"
  by (simp add: updateCrc_def crc16_pow_shift [of 8 0] del: funpow.simps)

lemma updateCrc_own_byte: "updateCrc crc (ucast (drop_bit 8 crc)) = push_bit 8 crc"
  by (simp add: updateCrc_table [of crc] updateCrc_0_0)

lemma CRC16_update_append: "CRC16_update c (xs @ ys) = CRC16_update (CRC16_update c xs) ys"
  by (induction c xs rule: CRC16_update.induct) auto

text \<open>
  A message followed by the two bytes of its CRC-16, most significant first, has CRC zero,
  the check a receiver performs; and the CRC of a message does not depend on how it is split
  into updates.
\<close>

theorem CRC16_residue:
  "CRC16_getValue (CRC16_update c (data @ cBigEndian_writeUint16 [0, 0] (CRC16_getValue (CRC16_update c data)))) = 0 \<and>
   CRC16_update c (xs @ ys) = CRC16_update (CRC16_update c xs) ys"
proof -
  define v where "v = crc16_value (CRC16_update c data)"
  have "cBigEndian_writeUint16 [0, 0] v = [ucast (drop_bit 8 v), ucast v]"
    by (simp add: be_write16 le16_def)
  moreover have "(ucast v :: uint8) = ucast (drop_bit 8 (push_bit 8 v))"
    by (rule bit_word_eqI) (auto simp: bit_simps)
  moreover have "push_bit 8 (push_bit 8 v) = 0"
    by (rule bit_word_eqI) (auto simp: bit_simps)
  ultimately show ?thesis
    using updateCrc_own_byte [of v] updateCrc_own_byte [of "push_bit 8 v"]
    by (simp add: CRC16_getValue_def CRC16_update_append CRC16_update_byte_def v_def [symmetric])
qed

end
