(* ===== verification/XHashDigest.thy ===== *)
theory XHashDigest
  imports XEndian
begin

text \<open>
  The block hashing of \<open>cHashDigest\<close> (Source/xStl/enc/digest/HashDigest.cpp), the base class
  of MD5 and SHA-1. The virtual functions of the class are a record that the two subclasses
  fill in; both have 16 words per block (\<open>getDataLen\<close>).
\<close>

text \<open>
  \<open>vt_transform\<close> is \<open>HASHTransform\<close>: it takes the digest and the data words, which it may
  use as scratch space, and returns both.
\<close>

record cHashVirtual =
  vt_transform :: "uint32 list \<Rightarrow> uint32 list \<Rightarrow> uint32 list \<times> uint32 list"
  vt_init :: "uint32 list"
  vt_isLittleEndian :: bool

record cHashDigest =
  m_digest :: "uint32 list"
  m_count_l :: uint32
  m_count_h :: uint32
  m_block :: "uint8 list"
  m_index :: nat
  m_isValid :: bool

definition HASH_DATALEN :: nat where
  "HASH_DATALEN = 16"

definition HASH_blockSize :: nat where
  "HASH_blockSize = HASH_DATALEN * 4"

definition cHashDigest_readUint32 :: "cHashVirtual \<Rightarrow> uint8 list \<Rightarrow> uint32" where
  "cHashDigest_readUint32 vt b = cEndian_readUint32 b (vt_isLittleEndian vt)"

definition cHashDigest_writeUint32 :: "cHashVirtual \<Rightarrow> uint32 \<Rightarrow> uint8 list" where
  "cHashDigest_writeUint32 vt w = cEndian_writeUint32 (replicate 4 0) w (vt_isLittleEndian vt)"

text \<open>
  A new object is not valid; its other members are not initialised. \<open>reset\<close> of a subclass
  calls the one of the base class, which keeps the block's old bytes (\<open>mem\<close> when the
  block is allocated), and stores the initial digest.
\<close>

definition cHashDigest_reset :: "cHashVirtual \<Rightarrow> uint8 list \<Rightarrow> cHashDigest" where
  "cHashDigest_reset vt mem =
     \<lparr>m_digest = vt_init vt, m_count_l = 0, m_count_h = 0, m_block = mem, m_index = 0,
      m_isValid = True\<rparr>"

definition cHashDigest_copyFrom :: "cHashDigest \<Rightarrow> cHashDigest" where
  "cHashDigest_copyFrom other =
     \<lparr>m_digest = m_digest other, m_count_l = m_count_l other, m_count_h = m_count_h other,
      m_block = m_block other, m_index = m_index other, m_isValid = m_isValid other\<rparr>"

definition cHashDigest_HASHBlock :: "cHashVirtual \<Rightarrow> cHashDigest \<Rightarrow> uint8 list \<Rightarrow> cHashDigest" where
  "cHashDigest_HASHBlock vt h block =
     (let l = m_count_l h + 1;
          h = (if l = 0 then h\<lparr>m_count_l := l, m_count_h := m_count_h h + 1\<rparr> else h\<lparr>m_count_l := l\<rparr>);
          data = map (\<lambda>i. cHashDigest_readUint32 vt (drop (4 * i) block)) [0..<16]
      in h\<lparr>m_digest := fst (vt_transform vt (m_digest h) data)\<rparr>)"

text \<open>The loop over the whole blocks of the buffer, then the leftovers.\<close>

function cHashDigest_blocks :: "cHashVirtual \<Rightarrow> cHashDigest \<Rightarrow> uint8 list \<Rightarrow> cHashDigest \<times> uint8 list" where
  "cHashDigest_blocks vt h buf =
     (if length buf \<ge> HASH_blockSize
      then cHashDigest_blocks vt (cHashDigest_HASHBlock vt h buf) (drop HASH_blockSize buf)
      else (h, buf))"
  by pat_completeness auto

termination
  by (relation "measure (\<lambda>(vt, h, buf). length buf)") (auto simp: HASH_blockSize_def HASH_DATALEN_def)

declare cHashDigest_blocks.simps [simp del]

definition cHashDigest_update :: "cHashVirtual \<Rightarrow> uint8 list \<Rightarrow> cHashDigest \<Rightarrow> uint8 list \<Rightarrow> cHashDigest" where
  "cHashDigest_update vt mem h0 buffer =
     (let h = (if \<not> m_isValid h0 then cHashDigest_reset vt mem else h0);
          left = HASH_blockSize - m_index h
      in if m_index h \<noteq> 0 \<and> length buffer < left then
           h\<lparr>m_block := memcpy_at (m_block h) (m_index h) buffer (length buffer),
             m_index := m_index h + length buffer\<rparr>
         else
           let (h, buf) =
                 (if m_index h \<noteq> 0 then
                    (let h = h\<lparr>m_block := memcpy_at (m_block h) (m_index h) buffer left\<rparr>
                     in (cHashDigest_HASHBlock vt h (m_block h), drop left buffer))
                  else (h, buffer));
               (h, buf) = cHashDigest_blocks vt h buf;
               h = h\<lparr>m_index := length buf\<rparr>
           in if m_index h \<noteq> 0 then h\<lparr>m_block := memcpy_at (m_block h) 0 buf (length buf)\<rparr> else h)"

text \<open>\<open>for (; i & 3; i++) m_block[i] = 0\<close>\<close>

function cHashDigest_fillWord :: "uint8 list \<Rightarrow> nat \<Rightarrow> uint8 list \<times> nat" where
  "cHashDigest_fillWord block i =
     (if i mod 4 \<noteq> 0 then cHashDigest_fillWord (block[i := 0]) (i + 1) else (block, i))"
  by pat_completeness auto

termination
proof (relation "measure (\<lambda>(block, i). (4 - i mod 4) mod 4)")
  fix block :: "uint8 list" and i :: nat
  assume "i mod 4 \<noteq> 0"
  moreover have "(i + 1) mod 4 = (if i mod 4 = 3 then 0 else i mod 4 + 1)"
    by presburger
  moreover have "i mod 4 = 0 \<or> i mod 4 = 1 \<or> i mod 4 = 2 \<or> i mod 4 = 3"
    by presburger
  ultimately have "(4 - (i + 1) mod 4) mod 4 < (4 - i mod 4) mod 4"
    by auto
  then show "((block[i := 0], i + 1), block, i) \<in> measure (\<lambda>(block, i). (4 - i mod 4) mod 4)"
    by simp
qed simp

declare cHashDigest_fillWord.simps [simp del]

definition cHashDigest_HASHFinal :: "cHashVirtual \<Rightarrow> cHashDigest \<Rightarrow> cHashDigest" where
  "cHashDigest_HASHFinal vt h0 =
     (let i = m_index h0;
          (block, i) = cHashDigest_fillWord ((m_block h0)[i := 0x80]) (i + 1);
          h = h0\<lparr>m_block := block\<rparr>;
          words = drop_bit 2 i;
          data = map (\<lambda>i. cHashDigest_readUint32 vt (drop (4 * i) block)) [0..<words];
          (dig, data) =
            (if words > HASH_DATALEN - 2 then
               (let data = data @ replicate (HASH_DATALEN - words) 0;
                    (dig, data) = vt_transform vt (m_digest h) data
                in (dig, replicate (HASH_DATALEN - 2) 0))
             else (m_digest h, data @ replicate (HASH_DATALEN - 2 - words) 0));
          hi = push_bit 9 (m_count_h h) OR drop_bit 23 (m_count_l h);
          lo = push_bit 9 (m_count_l h) OR push_bit 3 (word_of_nat (m_index h));
          data = data @ (if vt_isLittleEndian vt then [lo, hi] else [hi, lo])
      in h\<lparr>m_digest := fst (vt_transform vt dig data)\<rparr>)"

text \<open>
  \<open>digest\<close> finishes a clone. On an object that was neither reset nor updated the members that
  \<open>HASHFinal\<close> reads are not initialised.
\<close>

definition cHashDigest_digest :: "cHashVirtual \<Rightarrow> cHashDigest \<Rightarrow> uint8 list res" where
  "cHashDigest_digest vt h =
     (if \<not> m_isValid h then Inl UNDEFINED_BEHAVIOUR
      else
        let ptr = cHashDigest_HASHFinal vt (cHashDigest_copyFrom h)
        in Inr (concat (map (cHashDigest_writeUint32 vt) (m_digest ptr))))"

subsection \<open>The specification: padding, blocks, chaining\<close>

text \<open>
  The message is followed by the byte \<open>0x80\<close>, as many zero bytes as make the length eight less
  than a multiple of the block size, and the length in bits as a 64 bit number.
\<close>

definition md_padding :: "bool \<Rightarrow> nat \<Rightarrow> uint8 list" where
  "md_padding le n =
     0x80 # replicate ((119 - n mod 64) mod 64) 0 @ endian_bytes64 le (word_of_nat (8 * n))"

fun to_words :: "bool \<Rightarrow> uint8 list \<Rightarrow> uint32 list" where
  "to_words le (a # b # c # d # bs) = cEndian_readUint32 [a, b, c, d] le # to_words le bs"
| "to_words le _ = []"

function md_fold :: "cHashVirtual \<Rightarrow> uint32 list \<Rightarrow> uint8 list \<Rightarrow> uint32 list" where
  "md_fold vt dig bs =
     (if length bs \<ge> 64
      then md_fold vt (fst (vt_transform vt dig (to_words (vt_isLittleEndian vt) (take 64 bs)))) (drop 64 bs)
      else dig)"
  by pat_completeness auto

termination
  by (relation "measure (\<lambda>(vt, dig, bs). length bs)") auto

declare md_fold.simps [simp del]

definition md_hash :: "cHashVirtual \<Rightarrow> uint8 list \<Rightarrow> uint8 list" where
  "md_hash vt msg =
     concat (map (endian_bytes32 (vt_isLittleEndian vt))
       (md_fold vt (vt_init vt) (msg @ md_padding (vt_isLittleEndian vt) (length msg))))"

subsection \<open>Lemmas on words and blocks\<close>

lemma HASH_blockSize [simp]: "HASH_blockSize = 64" "HASH_DATALEN = 16"
  by (simp_all add: HASH_blockSize_def HASH_DATALEN_def)

lemma length_to_words [simp]: "length (to_words le bs) = length bs div 4"
  by (induction le bs rule: to_words.induct) auto

lemma to_words_append:
  "4 dvd length xs \<Longrightarrow> to_words le (xs @ ys) = to_words le xs @ to_words le ys"
proof (induction le xs rule: to_words.induct)
  case (1 le a b c d bs)
  have "4 dvd length bs"
    using 1(2) by simp presburger
  with 1(1) show ?case
    by simp
qed (auto dest: dvd_imp_le)

lemma read_cong4:
  "cEndian_readUint32 (a # b # c # d # ys) le = cEndian_readUint32 [a, b, c, d] le"
  using codec32.rd_prefix [of "[a, b, c, d]" ys le] by simp

lemma drop_word: "drop (4 * Suc i) (a # b # c # d # ys) = drop (4 * i) ys"
proof -
  have "4 * Suc i = Suc (Suc (Suc (Suc (4 * i))))"
    by simp
  then show ?thesis
    by (simp only: drop_Suc_Cons)
qed

lemma take_word: "take (4 * Suc i) (a # b # c # d # ys) = a # b # c # d # take (4 * i) ys"
proof -
  have "4 * Suc i = Suc (Suc (Suc (Suc (4 * i))))"
    by simp
  then show ?thesis
    by (simp only: take_Suc_Cons)
qed

lemma map_read_to_words:
  "4 * n \<le> length bs \<Longrightarrow>
     map (\<lambda>i. cEndian_readUint32 (drop (4 * i) bs) le) [0..<n] = to_words le (take (4 * n) bs)"
proof (induction n arbitrary: bs)
  case (Suc n)
  then obtain a b c d ys where bs: "bs = a # b # c # d # ys" and "4 * n \<le> length ys"
    using length_ge_4D [of bs] by auto
  have "map (\<lambda>i. cEndian_readUint32 (drop (4 * i) bs) le) [0..<Suc n] =
      cEndian_readUint32 bs le # map (\<lambda>i. cEndian_readUint32 (drop (4 * i) ys) le) [0..<n]"
    unfolding map_upt_Suc bs drop_word by simp
  also have "\<dots> = cEndian_readUint32 [a, b, c, d] le # to_words le (take (4 * n) ys)"
    using Suc.IH [OF \<open>4 * n \<le> length ys\<close>] by (simp add: bs read_cong4 [of a b c d ys])
  also have "\<dots> = to_words le (take (4 * Suc n) bs)"
    by (simp only: bs take_word to_words.simps)
  finally show ?case .
qed simp

lemma to_words_zeros: "to_words le (replicate (4 * n) 0) = replicate n 0"
proof (induction n)
  case (Suc n)
  have "cEndian_readUint32 [0, 0, 0, 0] le = 0"
    by (simp add: cEndian_readUint32_def cLittleEndian_readUint32_def cBigEndian_readUint32_def)
  with Suc show ?case
    by (simp add: numeral_eq_Suc)
qed simp

lemma md_fold_append:
  "64 dvd length xs \<Longrightarrow> md_fold vt dig (xs @ ys) = md_fold vt (md_fold vt dig xs) ys"
proof (induction vt dig xs rule: md_fold.induct)
  case (1 vt dig xs)
  show ?case
  proof (cases "length xs \<ge> 64")
    case True
    then have "64 dvd length (drop 64 xs)"
      using 1(2) by (simp add: dvd_minus_self)
    from 1(1) [OF True this] True show ?thesis
      by (simp add: md_fold.simps [of vt dig])
  next
    case False
    then have "xs = []"
      using 1(2) by (auto dest: dvd_imp_le)
    then show ?thesis
      by (simp add: md_fold.simps [of vt dig "[]"])
  qed
qed

lemma md_fold_block: "length bs = 64 \<Longrightarrow>
    md_fold vt dig bs = fst (vt_transform vt dig (to_words (vt_isLittleEndian vt) bs))"
  by (simp add: md_fold.simps [of vt dig bs] md_fold.simps [of vt _ "[]"])

lemma md_fold_two: "length xs = 64 \<Longrightarrow> length ys = 64 \<Longrightarrow>
    md_fold vt dig (xs @ ys) =
      fst (vt_transform vt (fst (vt_transform vt dig (to_words (vt_isLittleEndian vt) xs)))
        (to_words (vt_isLittleEndian vt) ys))"
  by (simp add: md_fold_append md_fold_block)

lemma md_fold_short: "length bs < 64 \<Longrightarrow> md_fold vt dig bs = dig"
  by (simp add: md_fold.simps [of vt dig bs])

subsection \<open>The state represents the message so far\<close>

text \<open>The block counter as one number.\<close>

definition hash_count :: "cHashDigest \<Rightarrow> uint64" where
  "hash_count h = push_bit 32 (ucast (m_count_h h)) + ucast (m_count_l h)"

text \<open>\<open>hash_chain vt h msg\<close>: the digest and the counter are those of the whole blocks of \<open>msg\<close>.\<close>

definition hash_chain :: "cHashVirtual \<Rightarrow> cHashDigest \<Rightarrow> uint8 list \<Rightarrow> bool" where
  "hash_chain vt h msg \<longleftrightarrow>
     m_isValid h \<and> length (m_block h) = 64 \<and> m_digest h = md_fold vt (vt_init vt) msg \<and>
     hash_count h = word_of_nat (length msg div 64)"

definition hash_rep :: "cHashVirtual \<Rightarrow> cHashDigest \<Rightarrow> uint8 list \<Rightarrow> bool" where
  "hash_rep vt h msg \<longleftrightarrow>
     (let whole = take (64 * (length msg div 64)) msg; rest = drop (64 * (length msg div 64)) msg in
      hash_chain vt h whole \<and> m_index h = length rest \<and> take (m_index h) (m_block h) = rest)"

lemma hash_rep_split:
  "64 dvd length whole \<Longrightarrow> length rest < 64 \<Longrightarrow>
     hash_rep vt h (whole @ rest) \<longleftrightarrow>
       hash_chain vt h whole \<and> m_index h = length rest \<and> take (m_index h) (m_block h) = rest"
  by (auto simp: hash_rep_def Let_def elim!: dvdE)

lemma whole_rest:
  obtains whole rest where "msg = whole @ rest" and "64 dvd length whole" and "length rest < (64 :: nat)"
proof
  show "msg = take (64 * (length msg div 64)) msg @ drop (64 * (length msg div 64)) msg"
    by simp
  have "64 * (length msg div 64) \<le> length msg"
    by simp
  then show "64 dvd length (take (64 * (length msg div 64)) msg)"
    by (simp only: length_take min.absorb2) simp
  show "length (drop (64 * (length msg div 64)) msg) < 64"
    by (simp add: minus_mult_div_eq_mod)
qed

lemma len64_nat: "LENGTH(64) = 64"
  by simp

lemma hash_count_nat: "push_bit 32 (ucast a) + ucast (b :: uint32) = (word_of_nat (2 ^ 32 * unat (a :: uint32) + unat b) :: uint64)"
proof -
  have "(ucast x :: uint64) = word_of_nat (unat x)" for x :: uint32
    by simp
  then show ?thesis
    by (simp add: push_bit_eq_mult)
qed

lemma count_step:
  fixes l h :: uint32
  assumes "l' = l + 1" and "h' = (if l' = 0 then h + 1 else h)"
  shows "push_bit 32 (ucast h') + ucast l' = push_bit 32 (ucast h) + ucast l + (1 :: uint64)"
proof -
  have u: "unat l' = (unat l + 1) mod 2 ^ 32" "unat l < 2 ^ 32"
    using assms(1) unsigned_less [of l, where ?'a = nat] by (simp_all add: unat_word_ariths)
  have v: "unat (h + 1) = (unat h + 1) mod 2 ^ 32"
    by (simp add: unat_word_ariths)
  have z: "l' = 0 \<longleftrightarrow> unat l' = 0"
    by (simp add: unsigned_eq_0_iff)
  have "(2 ^ 32 * unat h' + unat l') mod 2 ^ 64 = (2 ^ 32 * unat h + unat l + 1) mod 2 ^ 64"
  proof (cases "unat l + 1 = 2 ^ 32")
    case True
    then have "unat l' = 0"
      using u(1) by simp
    then have "2 ^ 32 * unat h' + unat l' = 2 ^ 32 * ((unat h + 1) mod 2 ^ 32)"
      using assms(2) v z by simp
    also have "\<dots> = (2 ^ 32 * (unat h + 1)) mod (2 ^ 32 * 2 ^ 32)"
      by (simp only: mult_mod_right)
    finally show ?thesis
      using True by simp
  next
    case False
    then have "unat l' = unat l + 1" "h' = h"
      using u assms(2) z by simp_all
    then show ?thesis
      by simp
  qed
  then have "(word_of_nat (2 ^ 32 * unat h' + unat l') :: uint64) = word_of_nat (2 ^ 32 * unat h + unat l + 1)"
    by (simp only: word_of_nat_eq_iff take_bit_eq_mod len64_nat)
  then show ?thesis
    unfolding hash_count_nat by (simp only: of_nat_add of_nat_1)
qed

lemma HASHBlock_chain:
  assumes "hash_chain vt h whole" and "64 dvd length whole" and "64 \<le> length buf"
  shows "hash_chain vt (cHashDigest_HASHBlock vt h buf) (whole @ take 64 buf)"
    and "m_block (cHashDigest_HASHBlock vt h buf) = m_block h"
    and "m_index (cHashDigest_HASHBlock vt h buf) = m_index h"
proof -
  have data: "map (\<lambda>i. cHashDigest_readUint32 vt (drop (4 * i) buf)) [0..<16] =
      to_words (vt_isLittleEndian vt) (take 64 buf)"
    using map_read_to_words [of 16 buf] assms(3) by (simp add: cHashDigest_readUint32_def)
  have "hash_count (cHashDigest_HASHBlock vt h buf) = hash_count h + 1"
    using count_step [OF refl refl, of "m_count_l h" "m_count_h h"]
    by (auto simp: cHashDigest_HASHBlock_def hash_count_def Let_def)
  moreover have "length (whole @ take 64 buf) div 64 = length whole div 64 + 1"
    using assms(2,3) by simp
  ultimately show "hash_chain vt (cHashDigest_HASHBlock vt h buf) (whole @ take 64 buf)"
    using assms md_fold_append [OF assms(2), of vt "vt_init vt" "take 64 buf"]
      md_fold_block [of "take 64 buf" vt]
    by (simp add: hash_chain_def cHashDigest_HASHBlock_def Let_def data [simplified])
  show "m_block (cHashDigest_HASHBlock vt h buf) = m_block h"
    "m_index (cHashDigest_HASHBlock vt h buf) = m_index h"
    by (simp_all add: cHashDigest_HASHBlock_def Let_def)
qed

lemma blocks_chain:
  "hash_chain vt h whole \<Longrightarrow> 64 dvd length whole \<Longrightarrow> cHashDigest_blocks vt h buf = (h', rest) \<Longrightarrow>
     \<exists>ws. buf = ws @ rest \<and> 64 dvd length ws \<and> length rest < 64 \<and> hash_chain vt h' (whole @ ws) \<and>
          m_block h' = m_block h"
proof (induction vt h buf arbitrary: whole h' rest rule: cHashDigest_blocks.induct)
  case (1 vt h buf)
  show ?case
  proof (cases "length buf \<ge> 64")
    case True
    let ?h = "cHashDigest_HASHBlock vt h buf"
    have "cHashDigest_blocks vt ?h (drop 64 buf) = (h', rest)"
      using 1(4) True by (simp add: cHashDigest_blocks.simps [of vt h])
    moreover have "hash_chain vt ?h (whole @ take 64 buf)" "64 dvd length (whole @ take 64 buf)"
      using HASHBlock_chain [OF 1(2,3)] True 1(3) by simp_all
    ultimately obtain ws where "drop 64 buf = ws @ rest" "64 dvd length ws" "length rest < 64"
        "hash_chain vt h' ((whole @ take 64 buf) @ ws)" "m_block h' = m_block ?h"
      using 1(1) [of "whole @ take 64 buf" h' rest] True by auto
    with True show ?thesis
      using HASHBlock_chain(2) [OF 1(2,3)]
      by (intro exI [of _ "take 64 buf @ ws"]) (simp, metis append_assoc append_take_drop_id)
  next
    case False
    then show ?thesis
      using 1(2-4) by (simp add: cHashDigest_blocks.simps [of vt h])
  qed
qed

lemma update_rep:
  assumes "hash_rep vt h msg"
  shows "hash_rep vt (cHashDigest_update vt mem h buf) (msg @ buf)"
proof -
  obtain whole rest where msg: "msg = whole @ rest" "64 dvd length whole" "length rest < 64"
    by (rule whole_rest)
  have h: "hash_chain vt h whole" "m_index h = length rest" "take (m_index h) (m_block h) = rest"
    using assms msg by (auto simp: hash_rep_split)
  have v: "m_isValid h" "length (m_block h) = 64"
    using h(1) by (simp_all add: hash_chain_def)
  show ?thesis
  proof (cases "m_index h \<noteq> 0 \<and> length buf < 64 - m_index h")
    case True
    let ?b = "memcpy_at (m_block h) (m_index h) buf (length buf)"
    have "take (m_index h + length buf) ?b = rest @ buf"
      using True h v msg(3) by (simp add: take_memcpy_at less_imp_le)
    moreover have "m_index h + length buf \<le> length (m_block h)"
      using True v by linarith
    then have "length ?b = 64"
      using v by simp
    ultimately have "hash_rep vt (h\<lparr>m_block := ?b, m_index := m_index h + length buf\<rparr>) (whole @ rest @ buf)"
      using True h v msg
      by (subst hash_rep_split) (auto simp: hash_chain_def hash_count_def)
    then show ?thesis
      using True v by (simp add: cHashDigest_update_def Let_def msg)
  next
    case False
    define left where "left = 64 - m_index h"
    define h1 where "h1 = (if m_index h \<noteq> 0 then
        cHashDigest_HASHBlock vt (h\<lparr>m_block := memcpy_at (m_block h) (m_index h) buf left\<rparr>)
          (memcpy_at (m_block h) (m_index h) buf left) else h)"
    define buf1 where "buf1 = (if m_index h \<noteq> 0 then drop left buf else buf)"
    define whole1 where "whole1 = (if m_index h \<noteq> 0 then whole @ rest @ take left buf else whole)"
    have w1: "hash_chain vt h1 whole1 \<and> 64 dvd length whole1 \<and> msg @ buf = whole1 @ buf1 \<and> length (m_block h1) = 64"
    proof (cases "m_index h = 0")
      case True
      then show ?thesis
        using h msg v by (simp add: h1_def buf1_def whole1_def)
    next
      case i: False
      let ?b = "memcpy_at (m_block h) (m_index h) buf left"
      have le: "left \<le> length buf" "m_index h + left = 64"
        using False i h msg(3) by (auto simp: left_def)
      have lb: "length ?b = 64"
        using le v by simp
      have "?b = rest @ take left buf"
        using le h v by (simp add: memcpy_at_def)
      moreover have "hash_chain vt (h\<lparr>m_block := ?b\<rparr>) whole"
        using h(1) lb by (simp add: hash_chain_def hash_count_def)
      ultimately have "hash_chain vt h1 (whole @ rest @ take left buf)" "m_block h1 = ?b"
        using HASHBlock_chain [of vt "h\<lparr>m_block := ?b\<rparr>" whole ?b] msg(2) lb i \<open>?b = rest @ take left buf\<close>
        by (simp_all add: h1_def left_def h(2))
      moreover have "64 dvd length (whole @ rest @ take left buf)"
        using msg(2) le h(2) by (simp add: dvd_add_right_iff)
      ultimately show ?thesis
        using i msg lb by (simp add: whole1_def buf1_def)
    qed
    obtain h2 rest2 where b: "cHashDigest_blocks vt h1 buf1 = (h2, rest2)"
      by (cases "cHashDigest_blocks vt h1 buf1")
    obtain ws where ws: "buf1 = ws @ rest2" "64 dvd length ws" "length rest2 < 64"
        "hash_chain vt h2 (whole1 @ ws)" "m_block h2 = m_block h1"
      using blocks_chain [OF _ _ b] w1 by blast
    let ?h3 = "if length rest2 \<noteq> 0 then h2\<lparr>m_index := length rest2, m_block := memcpy_at (m_block h2) 0 rest2 (length rest2)\<rparr>
        else h2\<lparr>m_index := length rest2\<rparr>"
    have "cHashDigest_update vt mem h buf = ?h3"
      using False v b by (auto simp: cHashDigest_update_def Let_def h1_def buf1_def left_def)
    moreover have "hash_rep vt ?h3 ((whole1 @ ws) @ rest2)"
      using ws w1 by (subst hash_rep_split)
        (auto simp: hash_chain_def hash_count_def take_memcpy_at [of 0, simplified])
    ultimately show ?thesis
      using ws(1) w1 by simp
  qed
qed

subsection \<open>Finishing\<close>

lemma fillWord_eq:
  "length block = 64 \<Longrightarrow> i \<le> 64 \<Longrightarrow>
     cHashDigest_fillWord block i =
       (take i block @ replicate ((4 - i mod 4) mod 4) 0 @ drop (i + (4 - i mod 4) mod 4) block,
        i + (4 - i mod 4) mod 4)"
proof (induction block i rule: cHashDigest_fillWord.induct)
  case (1 block i)
  show ?case
  proof (cases "i mod 4 = 0")
    case False
    then have lt: "i < 64"
      using 1(3) by (cases "i = 64") auto
    have "(i + 1) mod 4 = (if i mod 4 = 3 then 0 else i mod 4 + 1)"
      by presburger
    moreover have "i mod 4 = 1 \<or> i mod 4 = 2 \<or> i mod 4 = 3"
      using False by presburger
    ultimately have k: "(4 - i mod 4) mod 4 = Suc ((4 - (i + 1) mod 4) mod 4)"
      by auto
    define m where "m = (4 - (i + 1) mod 4) mod 4"
    have "cHashDigest_fillWord block i = cHashDigest_fillWord (block[i := 0]) (i + 1)"
      using False by (simp add: cHashDigest_fillWord.simps [of block i])
    also have "\<dots> = (take (i + 1) (block[i := 0]) @ replicate m 0 @ drop (i + 1 + m) (block[i := 0]), i + 1 + m)"
      using 1(1) [OF False] 1(2) lt by (simp add: m_def)
    also have "take (i + 1) (block[i := 0]) = take i block @ [0]"
      using lt 1(2) by (simp add: take_Suc_conv_app_nth)
    finally show ?thesis
      by (simp only: k m_def [symmetric]) simp
  qed (use 1 in \<open>simp add: cHashDigest_fillWord.simps [of block i]\<close>)
qed

lemma to_words_word: "to_words le (endian_bytes32 le m) = [m]"
proof -
  obtain a b c d where e: "endian_bytes32 le m = [a, b, c, d]"
    using length_ge_4D [of "endian_bytes32 le m"] codec32.length_bytes [of le m] by auto
  then show ?thesis
    using codec32.rd_bytes [of le m "[]"] by simp
qed

lemma bit_small_nat: "n < 2 ^ k \<Longrightarrow> bit (word_of_nat n :: 'a::len word) i \<Longrightarrow> i < k"
proof -
  assume "n < 2 ^ k" and b: "bit (word_of_nat n :: 'a word) i"
  then have "bit n i" and "take_bit k n = n"
    by (simp_all add: bit_of_nat_iff take_bit_nat_eq_self)
  then show ?thesis
    by (metis bit_take_bit_iff)
qed

lemma bit_hash_count:
  "bit (hash_count h) i \<longleftrightarrow> (if i < 32 then bit (m_count_l h) i else bit (m_count_h h) (i - 32))"
proof -
  have "hash_count h = push_bit 32 (ucast (m_count_h h)) OR ucast (m_count_l h)"
    unfolding hash_count_def
    by (rule disjunctive_add_eq_or)
      (auto simp: bit_eq_iff bit_simps dest: bit_imp_le_length)
  then show ?thesis
    by (auto simp: bit_simps dest: bit_imp_le_length)
qed

lemma to_words_len:
  "to_words le (endian_bytes64 le n) =
     (if le then [ucast n, ucast (drop_bit 32 n)] else [ucast (drop_bit 32 n), ucast n])"
proof -
  have l: "endian_bytes64 le n = (if le then endian_bytes32 le (ucast n) @ endian_bytes32 le (ucast (drop_bit 32 n))
      else endian_bytes32 le (ucast (drop_bit 32 n)) @ endian_bytes32 le (ucast n))"
  proof -
    have "le64 n = le32 (ucast n) @ le32 (ucast (drop_bit 32 n))"
      by (auto simp: le64_def le32_def intro!: bit_word_eqI) (auto simp: bit_simps)
    then show ?thesis
      by (simp add: endian_bytes64_def endian_bytes32_def)
  qed
  show ?thesis
    unfolding l using to_words_word [of le]
    by (simp add: to_words_append codec32.length_bytes del: to_words.simps) (cases le; simp)
qed

text \<open>The length words that \<open>HASHFinal\<close> computes from its counters are the bits of the message.\<close>

lemma len_words:
  assumes "hash_count h = word_of_nat (length whole div 64)" and "64 dvd length whole"
    and "length rest < 64" and "m_index h = length rest"
  defines "n \<equiv> (word_of_nat (8 * length (whole @ rest)) :: uint64)"
  shows "push_bit 9 (m_count_h h) OR drop_bit 23 (m_count_l h) = ucast (drop_bit 32 n)"
    and "push_bit 9 (m_count_l h) OR push_bit 3 (word_of_nat (m_index h)) = ucast n"
proof -
  define r where "r = length rest"
  have s: "bit (word_of_nat r :: uint64) i \<Longrightarrow> i < 6" for i
    using bit_small_nat [of r 6] assms(3) by (simp add: r_def)
  have s32: "bit (word_of_nat r :: uint32) i \<longleftrightarrow> bit (word_of_nat r :: uint64) i" for i
    using s [of i] by (auto simp: bit_of_nat_iff)
  have n: "n = push_bit 9 (hash_count h) OR push_bit 3 (word_of_nat r)"
  proof -
    obtain k where k: "length whole = 64 * k"
      using assms(2) by blast
    have "n = push_bit 9 (hash_count h) + push_bit 3 (word_of_nat r)"
      unfolding n_def assms(1) by (simp add: k push_bit_eq_mult r_def)
    also have "\<dots> = push_bit 9 (hash_count h) OR push_bit 3 (word_of_nat r)"
    proof (rule disjunctive_add_eq_or, rule bit_word_eqI)
      fix i
      show "bit (push_bit 9 (hash_count h) AND push_bit 3 (word_of_nat r)) i = bit (0 :: uint64) i"
        using s [of "i - 3"] by (auto simp: bit_and_iff bit_push_bit_iff)
    qed
    finally show ?thesis .
  qed
  have nb: "bit n i \<longleftrightarrow> (if i < 9 then 3 \<le> i \<and> bit (word_of_nat r :: uint64) (i - 3)
      else i < 64 \<and> bit (hash_count h) (i - 9))" for i
    using s [of "i - 3"] unfolding n by (auto simp: bit_or_iff bit_push_bit_iff)
  show "push_bit 9 (m_count_h h) OR drop_bit 23 (m_count_l h) = ucast (drop_bit 32 n)"
  proof (rule bit_word_eqI)
    fix i
    assume "i < LENGTH(32)"
    then show "bit (push_bit 9 (m_count_h h) OR drop_bit 23 (m_count_l h)) i =
        bit (ucast (drop_bit 32 n) :: uint32) i"
      using bit_imp_le_length [of "m_count_l h" "23 + i"]
      by (auto simp: bit_or_iff bit_push_bit_iff bit_drop_bit_eq bit_unsigned_iff nb bit_hash_count
          add.commute)
  qed
  show "push_bit 9 (m_count_l h) OR push_bit 3 (word_of_nat (m_index h)) = ucast n"
  proof (rule bit_word_eqI)
    fix i
    assume "i < LENGTH(32)"
    then show "bit (push_bit 9 (m_count_l h) OR push_bit 3 (word_of_nat (m_index h))) i =
        bit (ucast n :: uint32) i"
      using s [of "i - 3"] unfolding assms(4) r_def [symmetric]
      by (auto simp: bit_or_iff bit_push_bit_iff bit_unsigned_iff nb bit_hash_count s32)
  qed
qed

lemma round_to_word: "\<exists>w. i + (4 - i mod 4) mod 4 = 4 * (w :: nat)"
proof (cases "i mod 4 = 0")
  case False
  have "i = 4 * (i div 4) + i mod 4" "i mod 4 < 4"
    by simp_all
  then have "i + (4 - i mod 4) mod 4 = 4 * (i div 4 + 1)"
    using False by (simp, linarith)
  then show ?thesis ..
qed (auto elim!: dvdE simp: mod_eq_0_iff_dvd)

text \<open>The data words before the length: the unfinished block, \<open>0x80\<close> and zeros up to a word.\<close>

lemma final_words:
  assumes "m_index h = length rest" and "length rest < 64" and "take (m_index h) (m_block h) = rest"
    and "length (m_block h) = 64"
  obtains k words block where
    "cHashDigest_fillWord ((m_block h)[m_index h := 0x80]) (m_index h + 1) = (block, 4 * words)"
    "length rest + 1 + k = 4 * words" "k < 4" "words \<le> 16"
    "map (\<lambda>i. cHashDigest_readUint32 vt (drop (4 * i) block)) [0..<words] =
       to_words (vt_isLittleEndian vt) (rest @ 0x80 # replicate k 0)"
proof -
  define i where "i = length rest + 1"
  define k where "k = (4 - i mod 4) mod 4"
  define block where "block = take i ((m_block h)[m_index h := 0x80]) @ replicate k 0 @
      drop (i + k) ((m_block h)[m_index h := 0x80])"
  have k4: "k < 4"
    by (simp add: k_def)
  obtain words where w: "i + k = 4 * words"
    using round_to_word [of i] unfolding k_def by blast
  have le: "i + k \<le> 64"
  proof -
    have "words < 17"
      using k4 w assms(2) unfolding i_def by linarith
    then show ?thesis
      using w by linarith
  qed
  have fill: "cHashDigest_fillWord ((m_block h)[m_index h := 0x80]) (m_index h + 1) = (block, 4 * words)"
    using fillWord_eq [of "(m_block h)[m_index h := 0x80]" i] assms w
    by (simp add: block_def i_def k_def)
  have "take i ((m_block h)[m_index h := 0x80]) = rest @ [0x80]"
    using assms by (simp add: i_def take_Suc_conv_app_nth)
  then have "take (4 * words) block = rest @ 0x80 # replicate k 0"
    unfolding block_def w [symmetric] by (simp add: i_def)
  moreover have "4 * words \<le> length block"
    using le assms(4) unfolding w [symmetric] by (simp add: block_def)
  ultimately have "map (\<lambda>i. cHashDigest_readUint32 vt (drop (4 * i) block)) [0..<words] =
      to_words (vt_isLittleEndian vt) (rest @ 0x80 # replicate k 0)"
    using map_read_to_words [of words block "vt_isLittleEndian vt"]
    by (simp add: cHashDigest_readUint32_def)
  with fill k4 w le show ?thesis
    by (intro that [of block words k]) (simp_all add: i_def)
qed

lemma final_eq:
  assumes "hash_rep vt h msg"
  shows "m_digest (cHashDigest_HASHFinal vt h) =
    md_fold vt (vt_init vt) (msg @ md_padding (vt_isLittleEndian vt) (length msg))"
proof -
  let ?le = "vt_isLittleEndian vt"
  obtain whole rest where msg: "msg = whole @ rest" "64 dvd length whole" "length rest < 64"
    by (rule whole_rest)
  have h: "hash_chain vt h whole" "m_index h = length rest" "take (m_index h) (m_block h) = rest"
    using assms msg by (auto simp: hash_rep_split)
  have v: "length (m_block h) = 64" "m_digest h = md_fold vt (vt_init vt) whole"
      "hash_count h = word_of_nat (length whole div 64)"
    using h(1) by (simp_all add: hash_chain_def)
  obtain k words block where f:
    "cHashDigest_fillWord ((m_block h)[m_index h := 0x80]) (m_index h + 1) = (block, 4 * words)"
    "length rest + 1 + k = 4 * words" "k < 4" "words \<le> 16"
    "map (\<lambda>i. cHashDigest_readUint32 vt (drop (4 * i) block)) [0..<words] =
       to_words ?le (rest @ 0x80 # replicate k 0)"
    using final_words [OF h(2) msg(3) h(3) v(1)] by blast
  define n :: uint64 where "n = word_of_nat (8 * length msg)"
  define lens where "lens = (if ?le then
      [push_bit 9 (m_count_l h) OR push_bit 3 (word_of_nat (m_index h)),
       push_bit 9 (m_count_h h) OR drop_bit 23 (m_count_l h)]
    else [push_bit 9 (m_count_h h) OR drop_bit 23 (m_count_l h),
       push_bit 9 (m_count_l h) OR push_bit 3 (word_of_nat (m_index h))])"
  have lens: "lens = to_words ?le (endian_bytes64 ?le n)"
    using len_words [OF v(3) msg(2,3) h(2)] by (simp add: lens_def to_words_len n_def msg(1))
  let ?head = "rest @ 0x80 # replicate k 0"
  have dv: "4 dvd length ?head"
    using f(2) by simp
  have mod: "length msg mod 64 = length rest"
    using msg by (auto elim!: dvdE)
  have tail: "md_fold vt (vt_init vt) (msg @ md_padding ?le (length msg)) =
      md_fold vt (m_digest h) (rest @ md_padding ?le (length msg))"
    using md_fold_append [OF msg(2), of vt "vt_init vt"] by (simp add: msg(1) v(2))
  show ?thesis
  proof (cases "words > 14")
    case True
    have z: "(119 - length msg mod 64) mod 64 = k + 4 * (16 - words) + 56"
    proof -
      have "119 - length rest < 64" "119 - length rest = k + 4 * (16 - words) + 56"
        using True f(2-4) msg(3) by linarith+
      then show ?thesis
        unfolding mod by simp
    qed
    have b1: "to_words ?le ?head @ replicate (16 - words) 0 =
        to_words ?le (?head @ replicate (4 * (16 - words)) 0)"
      by (simp only: to_words_append [OF dv] to_words_zeros)
    have b2: "replicate 14 0 @ lens = to_words ?le (replicate 56 0 @ endian_bytes64 ?le n)"
      using to_words_append [of "replicate 56 0" ?le] to_words_zeros [of ?le 14] by (simp add: lens)
    have "rest @ md_padding ?le (length msg) =
        (?head @ replicate (4 * (16 - words)) 0) @ replicate 56 0 @ endian_bytes64 ?le n"
      unfolding md_padding_def z n_def by (simp add: replicate_add)
    moreover have "length (?head @ replicate (4 * (16 - words)) (0 :: uint8)) = 64"
      using f(2,4) by simp
    moreover have "length (replicate 56 (0 :: uint8) @ endian_bytes64 ?le n) = 64"
      by (simp add: codec64.length_bytes)
    ultimately have "md_fold vt (m_digest h) (rest @ md_padding ?le (length msg)) =
        fst (vt_transform vt (fst (vt_transform vt (m_digest h) (to_words ?le ?head @ replicate (16 - words) 0)))
          (replicate 14 0 @ lens))"
      unfolding b1 b2 by (simp only: md_fold_two)
    then show ?thesis
      unfolding tail using True f(1)
      by (simp add: cHashDigest_HASHFinal_def Let_def drop_bit_eq_div f(5) [simplified] lens_def
          split: prod.split)
  next
    case False
    have z: "(119 - length msg mod 64) mod 64 = k + 4 * (14 - words)"
    proof -
      have "119 - length rest = 55 - length rest + 64" "55 - length rest = k + 4 * (14 - words)"
        using False f(2,3) by linarith+
      moreover have "55 - length rest < 64"
        by simp
      ultimately show ?thesis
        unfolding mod by (metis mod_add_self2 mod_less)
    qed
    have b: "to_words ?le ?head @ replicate (14 - words) 0 @ lens =
        to_words ?le (?head @ replicate (4 * (14 - words)) 0 @ endian_bytes64 ?le n)"
      using to_words_append [of "replicate (4 * (14 - words)) 0" ?le]
      by (simp only: to_words_append [OF dv] lens to_words_zeros) (simp add: to_words_zeros)
    have "rest @ md_padding ?le (length msg) =
        ?head @ replicate (4 * (14 - words)) 0 @ endian_bytes64 ?le n"
      unfolding md_padding_def z n_def by (simp add: replicate_add)
    moreover have "length (?head @ replicate (4 * (14 - words)) 0 @ endian_bytes64 ?le n) = 64"
      using f(2) False by (simp add: codec64.length_bytes)
    ultimately have "md_fold vt (m_digest h) (rest @ md_padding ?le (length msg)) =
        fst (vt_transform vt (m_digest h) (to_words ?le ?head @ replicate (14 - words) 0 @ lens))"
      unfolding b by (simp only: md_fold_block)
    then show ?thesis
      unfolding tail using False f(1)
      by (simp add: cHashDigest_HASHFinal_def Let_def drop_bit_eq_div f(5) [simplified] lens_def)
  qed
qed

lemma reset_rep: "length mem = 64 \<Longrightarrow> hash_rep vt (cHashDigest_reset vt mem) []"
  by (simp add: hash_rep_def hash_chain_def cHashDigest_reset_def hash_count_def md_fold_short)

lemma writeUint32_bytes: "cHashDigest_writeUint32 vt w = endian_bytes32 (vt_isLittleEndian vt) w"
  by (simp add: cHashDigest_writeUint32_def codec32.wr_bytes)

lemma digest_rep: "hash_rep vt h msg \<Longrightarrow> cHashDigest_digest vt h = Inr (md_hash vt msg)"
proof -
  assume rep: "hash_rep vt h msg"
  then have "m_isValid h"
    by (simp add: hash_rep_def hash_chain_def Let_def)
  moreover have "cHashDigest_copyFrom h = h"
    by (simp add: cHashDigest_copyFrom_def)
  moreover have "map (cHashDigest_writeUint32 vt) = map (endian_bytes32 (vt_isLittleEndian vt))"
    by (simp add: writeUint32_bytes fun_eq_iff)
  ultimately show ?thesis
    using final_eq [OF rep] by (simp add: cHashDigest_digest_def md_hash_def Let_def)
qed

subsection \<open>The interface of a digest\<close>

text \<open>
  What the users of \<open>cDigest\<close> rely on: a state represents the bytes it was updated with, and
  \<open>digest\<close> returns the hash of these bytes without changing the state.
\<close>

locale digest_object =
  fixes rep :: "'s \<Rightarrow> uint8 list \<Rightarrow> bool"
    and update :: "'s \<Rightarrow> uint8 list \<Rightarrow> 's"
    and digest :: "'s \<Rightarrow> uint8 list res"
    and hash :: "uint8 list \<Rightarrow> uint8 list"
  assumes update_law: "rep s msg \<Longrightarrow> rep (update s buf) (msg @ buf)"
    and digest_law: "rep s msg \<Longrightarrow> digest s = Inr (hash msg)"
begin

lemma updates_rep: "rep s msg \<Longrightarrow> rep (foldl update s chunks) (msg @ concat chunks)"
proof (induction chunks arbitrary: s msg)
  case (Cons c chunks)
  show ?case
    using Cons.IH [OF update_law [OF Cons.prems]] by simp
qed simp

lemma digest_chunks:
  "rep s [] \<Longrightarrow> digest (foldl update s chunks) = Inr (hash (concat chunks))"
  using updates_rep [of s "[]" chunks] digest_law by simp

lemma digest_chunks_eq:
  "rep s [] \<Longrightarrow> concat chunks = concat chunks' \<Longrightarrow>
     digest (foldl update s chunks) = digest (foldl update s chunks')"
  by (simp add: digest_chunks)

end

interpretation hd: digest_object "hash_rep vt" "cHashDigest_update vt mem" "cHashDigest_digest vt"
  "md_hash vt"
  by unfold_locales (simp_all add: update_rep digest_rep)

text \<open>
  C5: for every hash transformation, every way of cutting a message into updates and any old
  contents of the block buffer, the digest is the one of the specification: the chained
  transformation of the message padded with \<open>0x80\<close>, zeros and its length in bits.
\<close>

theorem HashDigest_refines:
  "length mem = 64 \<Longrightarrow>
     cHashDigest_digest vt (foldl (cHashDigest_update vt mem) (cHashDigest_reset vt mem) chunks) =
       Inr (md_hash vt (concat chunks))"
  by (rule hd.digest_chunks) (simp add: reset_rep)

end
