(* ===== verification/XMd5.thy ===== *)
theory XMd5
  imports XHashDigest XAlgorithm
begin

text \<open>
  MD5: Source/xStl/enc/digest/md5.cpp. The 64 calls of the macro \<open>ROUND\<close> are the rows of a
  table, in their order; from one call to the next the roles of the four variables rotate, which
  the fold over the table does by rotating the tuple.
\<close>

definition MD5_F1 :: "uint32 \<Rightarrow> uint32 \<Rightarrow> uint32 \<Rightarrow> uint32" where
  "MD5_F1 x y z = z XOR (x AND (y XOR z))"

definition MD5_F2 :: "uint32 \<Rightarrow> uint32 \<Rightarrow> uint32 \<Rightarrow> uint32" where
  "MD5_F2 x y z = MD5_F1 z x y"

definition MD5_F3 :: "uint32 \<Rightarrow> uint32 \<Rightarrow> uint32 \<Rightarrow> uint32" where
  "MD5_F3 x y z = x XOR y XOR z"

definition MD5_F4 :: "uint32 \<Rightarrow> uint32 \<Rightarrow> uint32 \<Rightarrow> uint32" where
  "MD5_F4 x y z = y XOR (x OR NOT z)"

definition MD5_ROUND ::
  "(uint32 \<Rightarrow> uint32 \<Rightarrow> uint32 \<Rightarrow> uint32) \<Rightarrow> uint32 \<Rightarrow> uint32 \<Rightarrow> uint32 \<Rightarrow> uint32 \<Rightarrow> uint32 \<Rightarrow> nat \<Rightarrow> uint32"
where
  "MD5_ROUND f w x y z data s =
     (let w = w + (f x y z + data);
          w = push_bit s w OR drop_bit (32 - s) w
      in w + x)"

text \<open>The rows: the function, the index of the data word, the constant, the shift.\<close>

definition MD5_rows :: "((uint32 \<Rightarrow> uint32 \<Rightarrow> uint32 \<Rightarrow> uint32) \<times> nat \<times> uint32 \<times> nat) list" where
  "MD5_rows =
    [(MD5_F1, 0, 0xd76aa478, 7),
     (MD5_F1, 1, 0xe8c7b756, 12),
     (MD5_F1, 2, 0x242070db, 17),
     (MD5_F1, 3, 0xc1bdceee, 22),
     (MD5_F1, 4, 0xf57c0faf, 7),
     (MD5_F1, 5, 0x4787c62a, 12),
     (MD5_F1, 6, 0xa8304613, 17),
     (MD5_F1, 7, 0xfd469501, 22),
     (MD5_F1, 8, 0x698098d8, 7),
     (MD5_F1, 9, 0x8b44f7af, 12),
     (MD5_F1, 10, 0xffff5bb1, 17),
     (MD5_F1, 11, 0x895cd7be, 22),
     (MD5_F1, 12, 0x6b901122, 7),
     (MD5_F1, 13, 0xfd987193, 12),
     (MD5_F1, 14, 0xa679438e, 17),
     (MD5_F1, 15, 0x49b40821, 22),
     (MD5_F2, 1, 0xf61e2562, 5),
     (MD5_F2, 6, 0xc040b340, 9),
     (MD5_F2, 11, 0x265e5a51, 14),
     (MD5_F2, 0, 0xe9b6c7aa, 20),
     (MD5_F2, 5, 0xd62f105d, 5),
     (MD5_F2, 10, 0x02441453, 9),
     (MD5_F2, 15, 0xd8a1e681, 14),
     (MD5_F2, 4, 0xe7d3fbc8, 20),
     (MD5_F2, 9, 0x21e1cde6, 5),
     (MD5_F2, 14, 0xc33707d6, 9),
     (MD5_F2, 3, 0xf4d50d87, 14),
     (MD5_F2, 8, 0x455a14ed, 20),
     (MD5_F2, 13, 0xa9e3e905, 5),
     (MD5_F2, 2, 0xfcefa3f8, 9),
     (MD5_F2, 7, 0x676f02d9, 14),
     (MD5_F2, 12, 0x8d2a4c8a, 20),
     (MD5_F3, 5, 0xfffa3942, 4),
     (MD5_F3, 8, 0x8771f681, 11),
     (MD5_F3, 11, 0x6d9d6122, 16),
     (MD5_F3, 14, 0xfde5380c, 23),
     (MD5_F3, 1, 0xa4beea44, 4),
     (MD5_F3, 4, 0x4bdecfa9, 11),
     (MD5_F3, 7, 0xf6bb4b60, 16),
     (MD5_F3, 10, 0xbebfbc70, 23),
     (MD5_F3, 13, 0x289b7ec6, 4),
     (MD5_F3, 0, 0xeaa127fa, 11),
     (MD5_F3, 3, 0xd4ef3085, 16),
     (MD5_F3, 6, 0x04881d05, 23),
     (MD5_F3, 9, 0xd9d4d039, 4),
     (MD5_F3, 12, 0xe6db99e5, 11),
     (MD5_F3, 15, 0x1fa27cf8, 16),
     (MD5_F3, 2, 0xc4ac5665, 23),
     (MD5_F4, 0, 0xf4292244, 6),
     (MD5_F4, 7, 0x432aff97, 10),
     (MD5_F4, 14, 0xab9423a7, 15),
     (MD5_F4, 5, 0xfc93a039, 21),
     (MD5_F4, 12, 0x655b59c3, 6),
     (MD5_F4, 3, 0x8f0ccc92, 10),
     (MD5_F4, 10, 0xffeff47d, 15),
     (MD5_F4, 1, 0x85845dd1, 21),
     (MD5_F4, 8, 0x6fa87e4f, 6),
     (MD5_F4, 15, 0xfe2ce6e0, 10),
     (MD5_F4, 6, 0xa3014314, 15),
     (MD5_F4, 13, 0x4e0811a1, 21),
     (MD5_F4, 4, 0xf7537e82, 6),
     (MD5_F4, 11, 0xbd3af235, 10),
     (MD5_F4, 2, 0x2ad7d2bb, 15),
     (MD5_F4, 9, 0xeb86d391, 21)]"

fun MD5_step ::
  "uint32 list \<Rightarrow> uint32 \<times> uint32 \<times> uint32 \<times> uint32 \<Rightarrow>
     (uint32 \<Rightarrow> uint32 \<Rightarrow> uint32 \<Rightarrow> uint32) \<times> nat \<times> uint32 \<times> nat \<Rightarrow> uint32 \<times> uint32 \<times> uint32 \<times> uint32"
where
  "MD5_step data (w, x, y, z) (f, k, t, s) = (z, MD5_ROUND f w x y z (data ! k + t) s, x, y)"

definition MD5_HASHTransform :: "uint32 list \<Rightarrow> uint32 list \<Rightarrow> uint32 list \<times> uint32 list" where
  "MD5_HASHTransform dig data =
     (let (a, b, c, d) = foldl (MD5_step data) (dig ! 0, dig ! 1, dig ! 2, dig ! 3) MD5_rows
      in ([dig ! 0 + a, dig ! 1 + b, dig ! 2 + c, dig ! 3 + d], data))"

definition cMD5 :: cHashVirtual where
  "cMD5 = \<lparr>vt_transform = MD5_HASHTransform,
           vt_init = [0x67452301, 0xefcdab89, 0x98badcfe, 0x10325476],
           vt_isLittleEndian = True\<rparr>"

definition cMD5_getDigestLength :: nat where
  "cMD5_getDigestLength = 4 * 4"

theorem HashDigest_refines_witness:
  "length (replicate 64 (0 :: uint8)) = 64 \<and>
   cHashDigest_digest cMD5
     (foldl (cHashDigest_update cMD5 (replicate 64 0)) (cHashDigest_reset cMD5 (replicate 64 0))
       [[0x61], [], [0x62, 0x63]]) = Inr (md_hash cMD5 [0x61, 0x62, 0x63])"
  using HashDigest_refines [OF length_replicate, of cMD5 0 "[[0x61], [], [0x62, 0x63]]"] by simp

subsection \<open>The published algorithm\<close>

text \<open>
  RFC 1321 describes the rounds by formulas: the four auxiliary functions, the index of the
  data word, the shift, and the constants, the integer parts of \<open>2 ^ 32 * abs (sin i)\<close>.
\<close>

definition RFC1321_f :: "nat \<Rightarrow> uint32 \<Rightarrow> uint32 \<Rightarrow> uint32 \<Rightarrow> uint32" where
  "RFC1321_f i x y z =
     (if i < 16 then (x AND y) OR (NOT x AND z)
      else if i < 32 then (x AND z) OR (y AND NOT z)
      else if i < 48 then x XOR y XOR z
      else y XOR (x OR NOT z))"

definition RFC1321_index :: "nat \<Rightarrow> nat" where
  "RFC1321_index i =
     (if i < 16 then i else if i < 32 then (5 * i + 1) mod 16
      else if i < 48 then (3 * i + 5) mod 16 else (7 * i) mod 16)"

definition RFC1321_shift :: "nat \<Rightarrow> nat" where
  "RFC1321_shift i =
     [[7, 12, 17, 22], [5, 9, 14, 20], [4, 11, 16, 23], [6, 10, 15, 21]] ! (i div 16) ! (i mod 4)"

definition RFC1321_T :: "uint32 list" where
  "RFC1321_T =
    [0xd76aa478, 0xe8c7b756, 0x242070db, 0xc1bdceee, 0xf57c0faf, 0x4787c62a, 0xa8304613, 0xfd469501,
     0x698098d8, 0x8b44f7af, 0xffff5bb1, 0x895cd7be, 0x6b901122, 0xfd987193, 0xa679438e, 0x49b40821,
     0xf61e2562, 0xc040b340, 0x265e5a51, 0xe9b6c7aa, 0xd62f105d, 0x02441453, 0xd8a1e681, 0xe7d3fbc8,
     0x21e1cde6, 0xc33707d6, 0xf4d50d87, 0x455a14ed, 0xa9e3e905, 0xfcefa3f8, 0x676f02d9, 0x8d2a4c8a,
     0xfffa3942, 0x8771f681, 0x6d9d6122, 0xfde5380c, 0xa4beea44, 0x4bdecfa9, 0xf6bb4b60, 0xbebfbc70,
     0x289b7ec6, 0xeaa127fa, 0xd4ef3085, 0x04881d05, 0xd9d4d039, 0xe6db99e5, 0x1fa27cf8, 0xc4ac5665,
     0xf4292244, 0x432aff97, 0xab9423a7, 0xfc93a039, 0x655b59c3, 0x8f0ccc92, 0xffeff47d, 0x85845dd1,
     0x6fa87e4f, 0xfe2ce6e0, 0xa3014314, 0x4e0811a1, 0xf7537e82, 0xbd3af235, 0x2ad7d2bb, 0xeb86d391]"

text \<open>One round of the RFC: \<open>a = b + ((a + f (b, c, d) + X[k] + T[i]) <<< s)\<close>.\<close>

definition RFC1321_round ::
  "uint32 list \<Rightarrow> uint32 \<times> uint32 \<times> uint32 \<times> uint32 \<Rightarrow> nat \<Rightarrow> uint32 \<times> uint32 \<times> uint32 \<times> uint32"
where
  "RFC1321_round X abcd i =
     (case abcd of (a, b, c, d) \<Rightarrow>
        (d, b + word_rotl (RFC1321_shift i)
              (a + RFC1321_f i b c d + X ! RFC1321_index i + RFC1321_T ! i), b, c))"

lemma MD5_F_rfc:
  "MD5_F1 x y z = (x AND y) OR (NOT x AND z)" "MD5_F2 x y z = (x AND z) OR (y AND NOT z)"
  by (rule bit_word_eqI; auto simp: MD5_F1_def MD5_F2_def bit_simps)+

lemma upt_64: "[0..<64] = [0, 1, 2, 3, 4, 5, 6, 7, 8, 9, 10, 11, 12, 13, 14, 15,
     16, 17, 18, 19, 20, 21, 22, 23, 24, 25, 26, 27, 28, 29, 30, 31,
     32, 33, 34, 35, 36, 37, 38, 39, 40, 41, 42, 43, 44, 45, 46, 47,
     48, 49, 50, 51, 52, 53, 54, 55, 56, 57, 58, 59, 60, 61, 62, 63]"
  by (simp add: upt_conv_Cons)

lemma MD5_rows_shape:
  "MD5_rows = map (\<lambda>i. ([MD5_F1, MD5_F2, MD5_F3, MD5_F4] ! (i div 16), RFC1321_index i,
     RFC1321_T ! i, RFC1321_shift i)) [0..<64]"
  unfolding upt_64 by (simp add: MD5_rows_def RFC1321_index_def RFC1321_T_def RFC1321_shift_def)

lemma MD5_f_nth: "i < 64 \<Longrightarrow> ([MD5_F1, MD5_F2, MD5_F3, MD5_F4] ! (i div 16)) x y z = RFC1321_f i x y z"
proof -
  assume "i < 64"
  then consider "i < 16" | "16 \<le> i" "i < 32" | "32 \<le> i" "i < 48" | "48 \<le> i" "i < 64"
    by linarith
  then show ?thesis
  proof cases
    case 1
    then show ?thesis
      by (simp add: RFC1321_f_def MD5_F_rfc)
  next
    case 2
    then have "i div 16 = 1"
      by simp
    with 2 show ?thesis
      by (simp add: RFC1321_f_def MD5_F_rfc)
  next
    case 3
    then have "i div 16 = 2"
      by simp
    with 3 show ?thesis
      by (simp add: RFC1321_f_def MD5_F3_def)
  next
    case 4
    then have "i div 16 = 3"
      by simp
    with 4 show ?thesis
      by (simp add: RFC1321_f_def MD5_F4_def)
  qed
qed

lemma RFC1321_shift_bound: "i < 64 \<Longrightarrow> RFC1321_shift i < 32"
proof -
  have "list_all (\<lambda>i. RFC1321_shift i < 32) [0..<64]"
    by code_simp
  then show "i < 64 \<Longrightarrow> RFC1321_shift i < 32"
    by (simp add: list_all_iff)
qed

lemma MD5_step_rfc:
  assumes "i < 64"
  shows "MD5_step data abcd ([MD5_F1, MD5_F2, MD5_F3, MD5_F4] ! (i div 16), RFC1321_index i, RFC1321_T ! i,
           RFC1321_shift i) = RFC1321_round data abcd i"
proof -
  obtain a b c d where abcd: "abcd = (a, b, c, d)"
    by (cases abcd)
  have rot: "push_bit (RFC1321_shift i) w OR drop_bit (32 - RFC1321_shift i) w = word_rotl (RFC1321_shift i) w"
    for w :: uint32
    using rotlFixed_eq [of "RFC1321_shift i" w] RFC1321_shift_bound [OF assms] by (simp add: rotlFixed_def)
  show ?thesis
    by (simp add: abcd MD5_ROUND_def Let_def RFC1321_round_def MD5_f_nth [OF assms] rot ac_simps)
qed

lemma foldl_map_cong:
  "(\<And>x acc. x \<in> set xs \<Longrightarrow> f acc (g x) = h acc x) \<Longrightarrow> foldl f acc (map g xs) = foldl h acc xs"
  by (induction xs arbitrary: acc) auto

text \<open>
  C17: the unrolled MD5 transformation is the one of the RFC: the fold of its 64 rounds, whose
  functions, indices, shifts and rotations are given by formulas, added to the chaining value.
\<close>

theorem MD5_transform_rfc:
  "fst (MD5_HASHTransform dig data) =
     (case foldl (RFC1321_round data) (dig ! 0, dig ! 1, dig ! 2, dig ! 3) [0..<64] of
        (a, b, c, d) \<Rightarrow> [dig ! 0 + a, dig ! 1 + b, dig ! 2 + c, dig ! 3 + d])"
proof -
  have "foldl (MD5_step data) abcd MD5_rows = foldl (RFC1321_round data) abcd [0..<64]" for abcd
    unfolding MD5_rows_shape by (rule foldl_map_cong) (simp add: MD5_step_rfc)
  then show ?thesis
    by (simp add: MD5_HASHTransform_def split: prod.splits)
qed

subsection \<open>Known answers\<close>

lemma MD5_abc:
  "md_hash cMD5 [0x61, 0x62, 0x63] =
     [0x90, 0x01, 0x50, 0x98, 0x3c, 0xd2, 0x4f, 0xb0, 0xd6, 0x96, 0x3f, 0x7d, 0x28, 0xe1, 0x7f, 0x72]"
  by code_simp

text \<open>
  The object computes the test vector of the RFC for ``abc'', fed in pieces.
\<close>

theorem MD5_known_answer:
  "cHashDigest_digest cMD5
     (foldl (cHashDigest_update cMD5 (replicate 64 0)) (cHashDigest_reset cMD5 (replicate 64 0))
       [[0x61], [], [0x62, 0x63]]) =
   Inr [0x90, 0x01, 0x50, 0x98, 0x3c, 0xd2, 0x4f, 0xb0, 0xd6, 0x96, 0x3f, 0x7d, 0x28, 0xe1, 0x7f, 0x72]"
proof -
  have "hash_rep cMD5 (cHashDigest_reset cMD5 (replicate 64 0)) []"
    by (simp add: reset_rep)
  from hd.digest_chunks [OF this, of "replicate 64 0" "[[0x61], [], [0x62, 0x63]]"] show ?thesis
    by (simp add: MD5_abc)
qed

end
