(* ===== verification/XSha1.thy ===== *)
theory XSha1
  imports XHashDigest XAlgorithm
begin

text \<open>
  SHA-1: Source/xStl/enc/digest/sha1.cpp. The 80 calls of the macro \<open>subRound\<close> are a fold over
  the round numbers; from one call to the next the roles of the five variables rotate. The
  expanded words are computed on the fly in the 16 data words, used as a circular buffer.
\<close>

definition SHA1_f1 :: "uint32 \<Rightarrow> uint32 \<Rightarrow> uint32 \<Rightarrow> uint32" where
  "SHA1_f1 x y z = z XOR (x AND (y XOR z))"

definition SHA1_f2 :: "uint32 \<Rightarrow> uint32 \<Rightarrow> uint32 \<Rightarrow> uint32" where
  "SHA1_f2 x y z = x XOR y XOR z"

definition SHA1_f3 :: "uint32 \<Rightarrow> uint32 \<Rightarrow> uint32 \<Rightarrow> uint32" where
  "SHA1_f3 x y z = (x AND y) OR (z AND (x OR y))"

definition SHA1_f4 :: "uint32 \<Rightarrow> uint32 \<Rightarrow> uint32 \<Rightarrow> uint32" where
  "SHA1_f4 x y z = x XOR y XOR z"

definition SHA1_ROTL :: "nat \<Rightarrow> uint32 \<Rightarrow> uint32" where
  "SHA1_ROTL n X = push_bit n X OR drop_bit (32 - n) X"

text \<open>
  \<open>expand (W, i)\<close> stores and returns the word. The indices \<open>(i - 14) & 15\<close> are computed on
  \<open>int\<close> with \<open>i\<close> at least 16, so they are differences of natural numbers.
\<close>

definition SHA1_expand :: "uint32 list \<Rightarrow> nat \<Rightarrow> uint32 list \<times> uint32" where
  "SHA1_expand W i =
     (let w = SHA1_ROTL 1 (W ! (i AND 15) XOR W ! ((i - 14) AND 15) XOR
                           W ! ((i - 8) AND 15) XOR W ! ((i - 3) AND 15))
      in (W[i AND 15 := w], w))"

text \<open>The function and the constant of round \<open>i\<close>.\<close>

definition SHA1_fk :: "nat \<Rightarrow> (uint32 \<Rightarrow> uint32 \<Rightarrow> uint32 \<Rightarrow> uint32) \<times> uint32" where
  "SHA1_fk i =
     (if i < 20 then (SHA1_f1, 0x5A827999)
      else if i < 40 then (SHA1_f2, 0x6ED9EBA1)
      else if i < 60 then (SHA1_f3, 0x8F1BBCDC)
      else (SHA1_f4, 0xCA62C1D6))"

text \<open>\<open>subRound (a, b, c, d, e, f, k, data)\<close> changes \<open>e\<close> and \<open>b\<close>.\<close>

definition SHA1_subRound ::
  "uint32 \<Rightarrow> uint32 \<Rightarrow> uint32 \<Rightarrow> uint32 \<Rightarrow> uint32 \<Rightarrow> (uint32 \<Rightarrow> uint32 \<Rightarrow> uint32 \<Rightarrow> uint32) \<Rightarrow> uint32 \<Rightarrow>
     uint32 \<Rightarrow> uint32 \<times> uint32"
where
  "SHA1_subRound a b c d e f k data =
     (let e = e + (SHA1_ROTL 5 a + f b c d + k + data);
          b = SHA1_ROTL 30 b
      in (e, b))"

type_synonym sha1_regs = "uint32 \<times> uint32 \<times> uint32 \<times> uint32 \<times> uint32"

definition SHA1_step :: "uint32 list \<times> sha1_regs \<Rightarrow> nat \<Rightarrow> uint32 list \<times> sha1_regs" where
  "SHA1_step st i =
     (case st of (data, a, b, c, d, e) \<Rightarrow>
        let (f, k) = SHA1_fk i;
            (data, w) = (if i < 16 then (data, data ! i) else SHA1_expand data i);
            (e, b) = SHA1_subRound a b c d e f k w
        in (data, e, a, b, c, d))"

definition SHA1_HASHTransform :: "uint32 list \<Rightarrow> uint32 list \<Rightarrow> uint32 list \<times> uint32 list" where
  "SHA1_HASHTransform dig data =
     (let (data, A, B, C, D, E) =
            foldl SHA1_step (data, dig ! 0, dig ! 1, dig ! 2, dig ! 3, dig ! 4) [0..<80]
      in ([dig ! 0 + A, dig ! 1 + B, dig ! 2 + C, dig ! 3 + D, dig ! 4 + E], data))"

definition cSHA1 :: cHashVirtual where
  "cSHA1 = \<lparr>vt_transform = SHA1_HASHTransform,
            vt_init = [0x67452301, 0xEFCDAB89, 0x98BADCFE, 0x10325476, 0xC3D2E1F0],
            vt_isLittleEndian = False\<rparr>"

definition cSHA1_getDigestLength :: nat where
  "cSHA1_getDigestLength = 5 * 4"

subsection \<open>The published algorithm\<close>

text \<open>FIPS 180: the 80 word message schedule, computed in advance, and its rounds.\<close>

fun FIPS180_schedule :: "uint32 list \<Rightarrow> nat \<Rightarrow> uint32 list" where
  "FIPS180_schedule M 0 = M"
| "FIPS180_schedule M (Suc n) =
     (let W = FIPS180_schedule M n; t = length W
      in W @ [word_rotl 1 (W ! (t - 3) XOR W ! (t - 8) XOR W ! (t - 14) XOR W ! (t - 16))])"

definition FIPS180_f :: "nat \<Rightarrow> uint32 \<Rightarrow> uint32 \<Rightarrow> uint32 \<Rightarrow> uint32" where
  "FIPS180_f t x y z =
     (if t < 20 then (x AND y) XOR (NOT x AND z)
      else if t < 40 then x XOR y XOR z
      else if t < 60 then (x AND y) XOR (x AND z) XOR (y AND z)
      else x XOR y XOR z)"

definition FIPS180_K :: "nat \<Rightarrow> uint32" where
  "FIPS180_K t =
     (if t < 20 then 0x5a827999 else if t < 40 then 0x6ed9eba1
      else if t < 60 then 0x8f1bbcdc else 0xca62c1d6)"

definition FIPS180_round :: "uint32 list \<Rightarrow> sha1_regs \<Rightarrow> nat \<Rightarrow> sha1_regs" where
  "FIPS180_round W regs t =
     (case regs of (a, b, c, d, e) \<Rightarrow>
        (word_rotl 5 a + FIPS180_f t b c d + e + FIPS180_K t + W ! t, a, word_rotl 30 b, c, d))"

lemma SHA1_ROTL_rotl: "n < 32 \<Longrightarrow> SHA1_ROTL n x = word_rotl n x"
  using rotlFixed_eq [of n x] by (simp add: SHA1_ROTL_def rotlFixed_def)

lemma SHA1_f_fips:
  "SHA1_f1 x y z = (x AND y) XOR (NOT x AND z)"
  "SHA1_f3 x y z = (x AND y) XOR (x AND z) XOR (y AND z)"
  by (rule bit_word_eqI; auto simp: SHA1_f1_def SHA1_f3_def bit_simps)+

lemma SHA1_fk_fips: "fst (SHA1_fk t) x y z = FIPS180_f t x y z" "snd (SHA1_fk t) = FIPS180_K t"
  by (simp_all add: SHA1_fk_def FIPS180_f_def FIPS180_K_def SHA1_f_fips SHA1_f2_def SHA1_f4_def)

lemma and_15: "n AND 15 = n mod (16 :: nat)"
proof -
  have "n AND 15 = take_bit 4 n"
    by (simp add: take_bit_eq_mask mask_eq_exp_minus_1)
  then show ?thesis
    by (simp add: take_bit_eq_mod)
qed

lemma length_schedule [simp]: "length (FIPS180_schedule M n) = length M + n"
  by (induction n) (simp_all add: Let_def)

lemma schedule_nth_old: "t < length M \<Longrightarrow> FIPS180_schedule M n ! t = M ! t"
  by (induction n) (simp_all add: Let_def nth_append)

lemma schedule_prefix: "t < length M + m \<Longrightarrow> m \<le> n \<Longrightarrow> FIPS180_schedule M n ! t = FIPS180_schedule M m ! t"
proof (induction n)
  case (Suc n)
  then show ?case
    by (cases "m = Suc n") (simp_all add: Let_def nth_append)
qed simp

lemma schedule_nth:
  assumes "length M = 16" and "16 \<le> t" and "t < 16 + n"
  shows "FIPS180_schedule M n ! t =
    (let W = FIPS180_schedule M n in
     word_rotl 1 (W ! (t - 3) XOR W ! (t - 8) XOR W ! (t - 14) XOR W ! (t - 16)))"
proof -
  obtain m where m: "t = 16 + m"
    using assms(2) le_Suc_ex by blast
  have p: "FIPS180_schedule M n ! s = FIPS180_schedule M m ! s" if "s < 16 + m" for s
    using schedule_prefix [of s M m n] that assms m by simp
  have "FIPS180_schedule M n ! t = FIPS180_schedule M (Suc m) ! t"
    using schedule_prefix [of t M "Suc m" n] assms m by simp
  also have "\<dots> = (let W = FIPS180_schedule M m in
      word_rotl 1 (W ! (t - 3) XOR W ! (t - 8) XOR W ! (t - 14) XOR W ! (t - 16)))"
    using assms(1) m by (simp add: Let_def nth_append)
  finally show ?thesis
    using m by (simp add: Let_def p)
qed

text \<open>The circular buffer before round \<open>i\<close> holds the last sixteen words of the schedule.\<close>

definition circular :: "uint32 list \<Rightarrow> nat \<Rightarrow> uint32 list \<Rightarrow> bool" where
  "circular W i data \<longleftrightarrow> length data = 16 \<and>
     (\<forall>t. t < max 16 i \<and> max 16 i \<le> t + 16 \<longrightarrow> data ! (t mod 16) = W ! t)"

lemma circular_nth: "circular W i data \<Longrightarrow> 16 \<le> i \<Longrightarrow> t < i \<Longrightarrow> i \<le> t + 16 \<Longrightarrow> data ! (t mod 16) = W ! t"
  by (simp add: circular_def max_def)

lemma expand_circular:
  assumes M: "length M = 16" and W: "W = FIPS180_schedule M 64" and i: "16 \<le> i" "i < 80"
    and c: "circular W i data"
  shows "snd (SHA1_expand data i) = W ! i" and "circular W (i + 1) (fst (SHA1_expand data i))"
proof -
  have d: "data ! ((i - k) mod 16) = W ! (i - k)" if "k \<in> {3, 8, 14}" for k
    using that i by (intro circular_nth [OF c]) auto
  have d0: "data ! (i mod 16) = W ! (i - 16)"
  proof -
    have "data ! ((i - 16) mod 16) = W ! (i - 16)"
      using i by (intro circular_nth [OF c]) auto
    then show ?thesis
      using i by (simp add: le_mod_geq)
  qed
  have w: "W ! i = word_rotl 1 (W ! (i - 3) XOR W ! (i - 8) XOR W ! (i - 14) XOR W ! (i - 16))"
    using schedule_nth [OF M i(1), of 64] i(2) by (simp add: W Let_def)
  have "data ! (i mod 16) XOR data ! ((i - 14) mod 16) XOR data ! ((i - 8) mod 16) XOR data ! ((i - 3) mod 16) =
      W ! (i - 3) XOR W ! (i - 8) XOR W ! (i - 14) XOR W ! (i - 16)"
    by (simp only: d insertI1 insertI2 d0 ac_simps)
  then have e: "SHA1_expand data i = (data[i mod 16 := W ! i], W ! i)"
    unfolding SHA1_expand_def Let_def and_15 w by (simp only: SHA1_ROTL_rotl [of 1, simplified] One_nat_def)
  show "snd (SHA1_expand data i) = W ! i"
    by (simp add: e)
  have "data[i mod 16 := W ! i] ! (t mod 16) = W ! t" if "t < i + 1" "i + 1 \<le> t + 16" for t
  proof (cases "t = i")
    case True
    then show ?thesis
      using c by (simp add: circular_def)
  next
    case False
    then have t: "t < i" "i \<le> t + 15"
      using that by auto
    then have "\<not> 16 dvd i - t"
      by (auto dest: dvd_imp_le)
    then have "t mod 16 \<noteq> i mod 16"
      using t(1) mod_eq_dvd_iff_nat [of t i 16] by auto
    then show ?thesis
      using circular_nth [OF c i(1) t(1)] t(2) by simp
  qed
  then show "circular W (i + 1) (fst (SHA1_expand data i))"
    using c i by (simp add: e circular_def max_def)
qed

lemma SHA1_step_fips:
  assumes "length M = 16" and W: "W = FIPS180_schedule M 64" and "i < 80" and c: "circular W i data"
  shows "\<exists>data'. SHA1_step (data, regs) i = (data', FIPS180_round W regs i) \<and> circular W (i + 1) data'"
proof -
  obtain a b c d e where regs: "regs = (a, b, c, d, e)"
    by (cases regs)
  define dw where "dw = (if i < 16 then (data, data ! i) else SHA1_expand data i)"
  have dw: "snd dw = W ! i \<and> circular W (i + 1) (fst dw)"
  proof (cases "i < 16")
    case True
    then have "data ! (i mod 16) = W ! i" and "max 16 (i + 1) = max 16 i"
      using \<open>circular W i data\<close> unfolding circular_def by (force, simp)
    with True \<open>circular W i data\<close> show ?thesis
      by (simp add: dw_def circular_def)
  next
    case False
    with expand_circular [OF assms(1) W _ assms(3,4)] show ?thesis
      by (simp add: dw_def)
  qed
  show ?thesis
    using dw SHA1_fk_fips [of i]
    by (cases "SHA1_fk i"; cases dw)
      (auto simp: SHA1_step_def regs dw_def [symmetric] SHA1_subRound_def Let_def FIPS180_round_def
        SHA1_ROTL_rotl ac_simps)
qed

lemma SHA1_rounds_fips:
  assumes M: "length data = 16"
  shows "n \<le> 80 \<Longrightarrow> \<exists>data'. foldl SHA1_step (data, regs) [0..<n] =
           (data', foldl (FIPS180_round (FIPS180_schedule data 64)) regs [0..<n]) \<and>
         circular (FIPS180_schedule data 64) n data'"
proof (induction n)
  case 0
  have "circular (FIPS180_schedule data 64) 0 data"
    using M by (auto simp: circular_def schedule_nth_old)
  then show ?case
    by (intro exI [of _ data]) (simp only: upt_0 foldl_Nil simp_thms)
next
  case (Suc n)
  let ?W = "FIPS180_schedule data 64"
  obtain data' where d: "foldl SHA1_step (data, regs) [0..<n] =
      (data', foldl (FIPS180_round ?W) regs [0..<n])" "circular ?W n data'"
    using Suc by auto
  have "n < 80"
    using Suc.prems by simp
  from SHA1_step_fips [OF M refl this d(2)] obtain data'' where
    s: "SHA1_step (data', foldl (FIPS180_round ?W) regs [0..<n]) n =
       (data'', FIPS180_round ?W (foldl (FIPS180_round ?W) regs [0..<n]) n)" "circular ?W (n + 1) data''"
    by blast
  then have "foldl SHA1_step (data, regs) [0..<Suc n] = (data'', foldl (FIPS180_round ?W) regs [0..<Suc n])"
    by (simp only: upt_Suc le0 if_True foldl_append foldl_Cons foldl_Nil d(1))
  with s(2) show ?case
    by (intro exI [of _ data'']) (simp only: Suc_eq_plus1 simp_thms)
qed

lemma SHA1_transform_regs:
  assumes "foldl SHA1_step (data, dig ! 0, dig ! 1, dig ! 2, dig ! 3, dig ! 4) [0..<80] =
       (data', foldl (FIPS180_round W) (dig ! 0, dig ! 1, dig ! 2, dig ! 3, dig ! 4) [0..<80])"
  shows "fst (SHA1_HASHTransform dig data) =
       (case foldl (FIPS180_round W) (dig ! 0, dig ! 1, dig ! 2, dig ! 3, dig ! 4) [0..<80] of
          (a, b, c, d, e) \<Rightarrow> [dig ! 0 + a, dig ! 1 + b, dig ! 2 + c, dig ! 3 + d, dig ! 4 + e])"
  unfolding SHA1_HASHTransform_def Let_def assms by (simp only: split_beta fst_conv snd_conv prod.case)

text \<open>
  C18: the SHA-1 transformation with its circular buffer and optimised functions is the one of the
  standard: 80 rounds over the 80 word message schedule, added to the chaining value.
\<close>

theorem SHA1_transform_fips:
  "length data = 16 \<Longrightarrow>
     fst (SHA1_HASHTransform dig data) =
       (case foldl (FIPS180_round (FIPS180_schedule data 64)) (dig ! 0, dig ! 1, dig ! 2, dig ! 3, dig ! 4) [0..<80] of
          (a, b, c, d, e) \<Rightarrow> [dig ! 0 + a, dig ! 1 + b, dig ! 2 + c, dig ! 3 + d, dig ! 4 + e])"
  using SHA1_rounds_fips [of data 80 "(dig ! 0, dig ! 1, dig ! 2, dig ! 3, dig ! 4)"]
  by (blast intro: SHA1_transform_regs)

theorem SHA1_transform_fips_witness:
  "fst (SHA1_HASHTransform (vt_init cSHA1) (replicate 16 0)) =
     (case foldl (FIPS180_round (FIPS180_schedule (replicate 16 0) 64))
        (vt_init cSHA1 ! 0, vt_init cSHA1 ! 1, vt_init cSHA1 ! 2, vt_init cSHA1 ! 3, vt_init cSHA1 ! 4) [0..<80] of
        (a, b, c, d, e) \<Rightarrow> [vt_init cSHA1 ! 0 + a, vt_init cSHA1 ! 1 + b, vt_init cSHA1 ! 2 + c,
                             vt_init cSHA1 ! 3 + d, vt_init cSHA1 ! 4 + e])"
  by (rule SHA1_transform_fips) (rule length_replicate)

end
