(* ===== verification/XHmac.thy ===== *)
theory XHmac
  imports XMd5 XSha1 XQueueFifo
begin

text \<open>
  The keyed hash \<open>cHMAC\<close> (Source/xStl/enc/digest/hmac.cpp), the pseudo random stream
  \<open>cPMacRandom\<close> that it drives (enc/random/pmacRnd.cpp), and the TLS pseudo random function
  \<open>cPRF\<close> (enc/random/prf.cpp) with the word-wise \<open>_xor\<close> of enc/utils.cpp.
\<close>

subsection \<open>The class cDigest\<close>

text \<open>
  The virtual functions of \<open>cDigest\<close> on a state \<open>'s\<close>. \<open>digest\<close> may change the object it
  is called on (\<open>cHMAC\<close> does), so it returns it.
\<close>

record 's cDigest =
  vd_reset :: "'s \<Rightarrow> 's"
  vd_update :: "'s \<Rightarrow> uint8 list \<Rightarrow> 's"
  vd_digest :: "'s \<Rightarrow> ('s \<times> uint8 list) res"
  vd_getDigestLength :: nat

definition cDigest_updateStream :: "'s cDigest \<Rightarrow> 's \<Rightarrow> uint8 list \<Rightarrow> 's" where
  "cDigest_updateStream D s data = vd_update D s data"

text \<open>A hash object as a \<open>cDigest\<close>; its \<open>reset\<close> keeps the bytes of the block.\<close>

definition cHashDigest_class :: "cHashVirtual \<Rightarrow> cHashDigest cDigest" where
  "cHashDigest_class vt =
     \<lparr>vd_reset = (\<lambda>h. cHashDigest_reset vt (m_block h)),
      vd_update = (\<lambda>h. cHashDigest_update vt (m_block h) h),
      vd_digest = (\<lambda>h. bind_res (cHashDigest_digest vt h) (\<lambda>d. Inr (h, d))),
      vd_getDigestLength = 4 * length (vt_init vt)\<rparr>"

text \<open>The contract: a state represents the bytes it was updated with since the last reset.\<close>

locale digest_class =
  fixes D :: "'s cDigest"
    and rep :: "'s \<Rightarrow> uint8 list \<Rightarrow> bool"
    and hash :: "uint8 list \<Rightarrow> uint8 list"
  assumes reset_law: "rep s msg \<Longrightarrow> rep (vd_reset D s) []"
    and update_law: "rep s msg \<Longrightarrow> rep (vd_update D s buf) (msg @ buf)"
    and digest_law: "rep s msg \<Longrightarrow> \<exists>s'. vd_digest D s = Inr (s', hash msg) \<and> rep s' msg"
    and length_law: "length (hash msg) = vd_getDigestLength D"
begin

lemma reset_updates:
  "rep s msg \<Longrightarrow> rep (vd_update D (vd_update D (vd_reset D s) a) b) (a @ b)"
  using update_law [OF update_law [OF reset_law], of s msg a b] by simp

end

subsection \<open>HMAC\<close>

record 's cHMAC =
  m_innerKey :: "uint8 list"
  m_outterKey :: "uint8 list"
  m_hashObj :: 's
  m_text :: "uint8 list"

definition KEY_B_LENGTH :: nat where
  "KEY_B_LENGTH = 64"

definition cHMAC_new :: "'s cDigest \<Rightarrow> 's \<Rightarrow> uint8 list \<Rightarrow> 's cHMAC res" where
  "cHMAC_new D hashObj key =
     (let hashObj = vd_reset D hashObj;
          zeros = replicate KEY_B_LENGTH 0
      in bind_res
           (if length key > KEY_B_LENGTH then
              vd_digest D (cDigest_updateStream D hashObj key)
            else Inr (hashObj, key))
           (\<lambda>(hashObj, key).
         let outter = memcpy_at zeros 0 key (length key);
             inner = memcpy_at zeros 0 key (length key)
         in Inr \<lparr>m_innerKey = map (\<lambda>b. b XOR 0x36) inner,
                 m_outterKey = map (\<lambda>b. b XOR 0x5c) outter,
                 m_hashObj = hashObj, m_text = []\<rparr>))"

definition cHMAC_reset :: "'s cDigest \<Rightarrow> 's cHMAC \<Rightarrow> 's cHMAC" where
  "cHMAC_reset D h = h\<lparr>m_hashObj := vd_reset D (m_hashObj h), m_text := []\<rparr>"

text \<open>\<open>update\<close> collects the text; the copy goes behind the old text, which the resize keeps.\<close>

definition cHMAC_update :: "'s cHMAC \<Rightarrow> uint8 list \<Rightarrow> 's cHMAC" where
  "cHMAC_update h buffer = h\<lparr>m_text := m_text h @ buffer\<rparr>"

definition cHMAC_digest :: "'s cDigest \<Rightarrow> 's cHMAC \<Rightarrow> ('s cHMAC \<times> uint8 list) res" where
  "cHMAC_digest D h =
     (let obj = vd_reset D (m_hashObj h);
          obj = vd_update D obj (m_innerKey h);
          obj = cDigest_updateStream D obj (m_text h)
      in bind_res (vd_digest D obj) (\<lambda>(obj, inner).
         let obj = vd_reset D obj;
             obj = vd_update D obj (m_outterKey h);
             obj = cDigest_updateStream D obj inner
         in bind_res (vd_digest D obj) (\<lambda>(obj, outer). Inr (h\<lparr>m_hashObj := obj\<rparr>, outer))))"

definition cHMAC_getDigestLength :: "'s cDigest \<Rightarrow> nat" where
  "cHMAC_getDigestLength D = vd_getDigestLength D"

definition cHMAC_class :: "'s cDigest \<Rightarrow> 's cHMAC cDigest" where
  "cHMAC_class D =
     \<lparr>vd_reset = cHMAC_reset D, vd_update = cHMAC_update, vd_digest = cHMAC_digest D,
      vd_getDigestLength = cHMAC_getDigestLength D\<rparr>"

text \<open>RFC 2104.\<close>

definition HMAC_pad :: "(uint8 list \<Rightarrow> uint8 list) \<Rightarrow> uint8 list \<Rightarrow> uint8 list" where
  "HMAC_pad H key =
     (let k = (if length key > 64 then H key else key) in k @ replicate (64 - length k) 0)"

definition HMAC_spec :: "(uint8 list \<Rightarrow> uint8 list) \<Rightarrow> uint8 list \<Rightarrow> uint8 list \<Rightarrow> uint8 list" where
  "HMAC_spec H key text =
     H (map (\<lambda>b. b XOR 0x5c) (HMAC_pad H key) @
        H (map (\<lambda>b. b XOR 0x36) (HMAC_pad H key) @ text))"

text \<open>An HMAC object keyed with \<open>key\<close> that has collected \<open>text\<close>.\<close>

definition cHMAC_rep ::
  "('s \<Rightarrow> uint8 list \<Rightarrow> bool) \<Rightarrow> (uint8 list \<Rightarrow> uint8 list) \<Rightarrow> uint8 list \<Rightarrow> 's cHMAC \<Rightarrow> uint8 list \<Rightarrow> bool"
where
  "cHMAC_rep rep H key h text \<longleftrightarrow>
     m_text h = text \<and> (\<exists>msg. rep (m_hashObj h) msg) \<and>
     m_innerKey h = map (\<lambda>b. b XOR 0x36) (HMAC_pad H key) \<and>
     m_outterKey h = map (\<lambda>b. b XOR 0x5c) (HMAC_pad H key)"

context digest_class begin

lemma HMAC_new_rep:
  assumes "rep (vd_reset D s) []" and "vd_getDigestLength D \<le> 64"
  shows "\<exists>h. cHMAC_new D s key = Inr h \<and> cHMAC_rep rep hash key h []"
proof -
  define k where "k = (if length key > 64 then hash key else key)"
  have len: "length k \<le> 64"
    using assms(2) by (simp add: k_def length_law)
  have z: "memcpy_at (replicate 64 0) 0 k (length k) = HMAC_pad hash key"
    using len by (simp add: memcpy_at_def HMAC_pad_def Let_def k_def [symmetric])
  obtain s' msg' where s': "(if length key > 64 then vd_digest D (vd_update D (vd_reset D s) key)
      else Inr (vd_reset D s, key)) = Inr (s', k)" "rep s' msg'"
  proof (cases "length key > 64")
    case True
    then show ?thesis
      using digest_law [OF update_law [OF assms(1)], of key] that
      by (auto simp: k_def)
  next
    case False
    then show ?thesis
      using assms(1) that by (simp add: k_def)
  qed
  then show ?thesis
    by (auto simp: cHMAC_new_def KEY_B_LENGTH_def cDigest_updateStream_def Let_def z cHMAC_rep_def)
qed

lemma HMAC_reset_rep: "cHMAC_rep rep hash key h text \<Longrightarrow> cHMAC_rep rep hash key (cHMAC_reset D h) []"
  using reset_law by (auto simp: cHMAC_rep_def cHMAC_reset_def)

lemma HMAC_update_rep:
  "cHMAC_rep rep hash key h text \<Longrightarrow> cHMAC_rep rep hash key (cHMAC_update h buf) (text @ buf)"
  by (simp add: cHMAC_rep_def cHMAC_update_def)

lemma HMAC_digest_rep:
  assumes "cHMAC_rep rep hash key h text"
  shows "\<exists>h'. cHMAC_digest D h = Inr (h', HMAC_spec hash key text) \<and> cHMAC_rep rep hash key h' text"
proof -
  obtain msg where m: "rep (m_hashObj h) msg"
    using assms by (auto simp: cHMAC_rep_def)
  obtain s1 where s1: "vd_digest D (vd_update D (vd_update D (vd_reset D (m_hashObj h)) (m_innerKey h)) (m_text h)) =
      Inr (s1, hash (m_innerKey h @ m_text h))" "rep s1 (m_innerKey h @ m_text h)"
    using digest_law [OF reset_updates [OF m]] by blast
  let ?inner = "hash (m_innerKey h @ m_text h)"
  obtain s2 where s2: "vd_digest D (vd_update D (vd_update D (vd_reset D s1) (m_outterKey h)) ?inner) =
      Inr (s2, hash (m_outterKey h @ ?inner))" "rep s2 (m_outterKey h @ ?inner)"
    using digest_law [OF reset_updates [OF s1(2)]] by blast
  have "cHMAC_digest D h = Inr (h\<lparr>m_hashObj := s2\<rparr>, hash (m_outterKey h @ ?inner))"
    by (simp add: cHMAC_digest_def cDigest_updateStream_def Let_def s1(1) s2(1))
  moreover have "hash (m_outterKey h @ ?inner) = HMAC_spec hash key text"
    using assms by (simp add: cHMAC_rep_def HMAC_spec_def)
  ultimately show ?thesis
    using assms s2(2) by (auto simp: cHMAC_rep_def)
qed

text \<open>HMAC over a digest is a digest.\<close>

lemma HMAC_digest_class: "digest_class (cHMAC_class D) (cHMAC_rep rep hash key) (HMAC_spec hash key)"
proof -
  have "length (HMAC_spec hash key msg) = vd_getDigestLength D" for msg
    by (simp add: HMAC_spec_def length_law)
  then show ?thesis
    by unfold_locales
      (simp_all add: cHMAC_class_def HMAC_reset_rep HMAC_update_rep HMAC_digest_rep
        cHMAC_getDigestLength_def)
qed

end

text \<open>Every hash object of the library is a digest, and so is HMAC over it.\<close>

lemma hash_class_laws:
  "hash_rep vt s msg \<Longrightarrow> hash_rep vt (vd_reset (cHashDigest_class vt) s) []"
  "hash_rep vt s msg \<Longrightarrow> hash_rep vt (vd_update (cHashDigest_class vt) s buf) (msg @ buf)"
  "hash_rep vt s msg \<Longrightarrow> vd_digest (cHashDigest_class vt) s = Inr (s, md_hash vt msg)"
proof -
  assume "hash_rep vt s msg"
  then have "length (m_block s) = 64"
    by (simp add: hash_rep_def hash_chain_def Let_def)
  then show "hash_rep vt (vd_reset (cHashDigest_class vt) s) []"
    by (simp add: cHashDigest_class_def reset_rep)
qed (simp_all add: cHashDigest_class_def update_rep digest_rep)

lemma length_md_fold:
  "(\<And>dig data. length (fst (vt_transform vt dig data)) = n) \<Longrightarrow> length dig = n \<Longrightarrow>
     length (md_fold vt dig bs) = n"
  by (induction vt dig bs rule: md_fold.induct) (simp add: md_fold.simps)

lemma length_concat_words: "length (concat (map (endian_bytes32 le) ws)) = 4 * length ws"
  by (induction ws) (simp_all add: codec32.length_bytes)

lemma length_md_hash:
  "(\<And>dig data. length (fst (vt_transform vt dig data)) = length (vt_init vt)) \<Longrightarrow>
     length (md_hash vt msg) = 4 * length (vt_init vt)"
  by (simp add: md_hash_def length_concat_words length_md_fold)

lemma digest_class_hash:
  assumes "\<And>dig data. length (fst (vt_transform vt dig data)) = length (vt_init vt)"
  shows "digest_class (cHashDigest_class vt) (hash_rep vt) (md_hash vt)"
  using length_md_hash [OF assms] hash_class_laws [of vt]
  by unfold_locales (auto simp: cHashDigest_class_def)

interpretation md5: digest_class "cHashDigest_class cMD5" "hash_rep cMD5" "md_hash cMD5"
  by (rule digest_class_hash) (simp add: cMD5_def MD5_HASHTransform_def split: prod.split)

interpretation sha1: digest_class "cHashDigest_class cSHA1" "hash_rep cSHA1" "md_hash cSHA1"
  by (rule digest_class_hash) (simp add: cSHA1_def SHA1_HASHTransform_def split: prod.split)

interpretation hmac_md5: digest_class "cHMAC_class (cHashDigest_class cMD5)"
  "cHMAC_rep (hash_rep cMD5) (md_hash cMD5) key" "HMAC_spec (md_hash cMD5) key"
  by (rule md5.HMAC_digest_class)

interpretation hmac_sha1: digest_class "cHMAC_class (cHashDigest_class cSHA1)"
  "cHMAC_rep (hash_rep cSHA1) (md_hash cSHA1) key" "HMAC_spec (md_hash cSHA1) key"
  by (rule sha1.HMAC_digest_class)

subsection \<open>The stream of cPMacRandom\<close>

record 's cPMacRandom =
  m_hmac :: "'s cHMAC"
  m_seed :: "uint8 list"
  m_a :: "uint8 list"
  m_rest :: cQueueFifo

text \<open>\<open>mem\<close> is what the queue's allocation holds; its length is the digest length.\<close>

definition cPMacRandom_new :: "'s cHMAC \<Rightarrow> uint8 list \<Rightarrow> uint8 list \<Rightarrow> 's cPMacRandom" where
  "cPMacRandom_new hmac seed mem =
     \<lparr>m_hmac = hmac, m_seed = seed, m_a = seed, m_rest = cQueueFifo_new mem\<rparr>"

text \<open>One new block: \<open>A(i) = HMAC(A(i-1))\<close>, and \<open>HMAC(A(i) + seed)\<close> into the queue.\<close>

definition cPMacRandom_refill :: "'s cDigest \<Rightarrow> 's cPMacRandom \<Rightarrow> 's cPMacRandom res" where
  "cPMacRandom_refill D p =
     (let h = cHMAC_update (cHMAC_reset D (m_hmac p)) (m_a p) in
      bind_res (cHMAC_digest D h) (\<lambda>(h, a).
      let h = cHMAC_update (cHMAC_update (cHMAC_reset D h) a) (m_seed p) in
      bind_res (cHMAC_digest D h) (\<lambda>(h, ret).
      let (q, n) = cQueueFifo_write (m_rest p) ret (length ret) in
      bind_res (CHECK (n = length ret)) (\<lambda>_.
      Inr (p\<lparr>m_hmac := h, m_a := a, m_rest := q\<rparr>)))))"

text \<open>
  The loop of \<open>generateRandom\<close>; \<open>data\<close> collects what was stored in the output. Every round
  delivers at least one byte when the digest is not empty, so the length itself is enough fuel.
\<close>

fun cPMacRandom_loop ::
  "'s cDigest \<Rightarrow> nat \<Rightarrow> 's cPMacRandom \<Rightarrow> nat \<Rightarrow> uint8 list \<Rightarrow> ('s cPMacRandom \<times> uint8 list) option res"
where
  "cPMacRandom_loop D fuel p 0 data = Inr (Some (p, data))"
| "cPMacRandom_loop D 0 p (Suc l) data = Inr None"
| "cPMacRandom_loop D (Suc fuel) p (Suc l) data =
     (let len = Suc l in
      bind_res (if cQueueFifo_getQueueOccupyspace (m_rest p) = 0 then cPMacRandom_refill D p else Inr p) (\<lambda>p.
      let rest = cQueueFifo_getQueueOccupyspace (m_rest p) in
      if rest \<ge> len then
        (let (q, buf, n) = cQueueFifo_read (m_rest p) (replicate len 0) len in
         bind_res (CHECK (n = len)) (\<lambda>_. Inr (Some (p\<lparr>m_rest := q\<rparr>, data @ buf))))
      else
        (let (q, buf, n) = cQueueFifo_read (m_rest p) (replicate rest 0) rest in
         bind_res (CHECK (n = rest)) (\<lambda>_.
         cPMacRandom_loop D fuel (p\<lparr>m_rest := q\<rparr>) (len - rest) (data @ buf)))))"

definition cPMacRandom_generateRandom ::
  "'s cDigest \<Rightarrow> 's cPMacRandom \<Rightarrow> nat \<Rightarrow> ('s cPMacRandom \<times> uint8 list) option res"
where
  "cPMacRandom_generateRandom D p len = cPMacRandom_loop D len p len []"

text \<open>The stream: \<open>P_hash\<close> of RFC 2246, the first \<open>k\<close> blocks.\<close>

fun P_hash_A :: "(uint8 list \<Rightarrow> uint8 list) \<Rightarrow> uint8 list \<Rightarrow> nat \<Rightarrow> uint8 list" where
  "P_hash_A H seed 0 = seed"
| "P_hash_A H seed (Suc i) = H (P_hash_A H seed i)"

definition P_hash :: "(uint8 list \<Rightarrow> uint8 list) \<Rightarrow> uint8 list \<Rightarrow> nat \<Rightarrow> uint8 list" where
  "P_hash H seed k = concat (map (\<lambda>i. H (P_hash_A H seed (i + 1) @ seed)) [0..<k])"

text \<open>The generator has produced \<open>out\<close>; what is left of its blocks is in the queue.\<close>

definition cPMacRandom_rep ::
  "('s cHMAC \<Rightarrow> uint8 list \<Rightarrow> bool) \<Rightarrow> (uint8 list \<Rightarrow> uint8 list) \<Rightarrow> nat \<Rightarrow> uint8 list \<Rightarrow> 's cPMacRandom \<Rightarrow> uint8 list \<Rightarrow> nat \<Rightarrow> bool"
where
  "cPMacRandom_rep rep H n seed p out k \<longleftrightarrow>
     (\<exists>text. rep (m_hmac p) text) \<and> m_seed p = seed \<and> m_a p = P_hash_A H seed k \<and>
     cQueueFifo_inv (m_rest p) \<and> m_queueSize (m_rest p) = n \<and>
     out @ cQueueFifo_contents (m_rest p) = P_hash H seed k"

lemma P_hash_Suc: "P_hash H seed (Suc k) = P_hash H seed k @ H (P_hash_A H seed (Suc k) @ seed)"
  by (simp add: P_hash_def)

context digest_class begin

abbreviation pmac_rep :: "uint8 list \<Rightarrow> uint8 list \<Rightarrow> 's cPMacRandom \<Rightarrow> uint8 list \<Rightarrow> nat \<Rightarrow> bool" where
  "pmac_rep key seed \<equiv>
  cPMacRandom_rep (cHMAC_rep rep hash key) (HMAC_spec hash key) (vd_getDigestLength D) seed"

lemma refill_rep:
  assumes "pmac_rep key seed p out k" and "cQueueFifo_contents (m_rest p) = []"
  shows "\<exists>p'. cPMacRandom_refill D p = Inr p' \<and> pmac_rep key seed p' out (Suc k)"
proof -
  let ?H = "HMAC_spec hash key"
  obtain t0 where t: "cHMAC_rep rep hash key (m_hmac p) t0"
    using assms(1) by (auto simp: cPMacRandom_rep_def)
  have p: "m_seed p = seed" "m_a p = P_hash_A ?H seed k" "cQueueFifo_inv (m_rest p)"
      "m_queueSize (m_rest p) = vd_getDigestLength D" "out = P_hash ?H seed k"
    using assms by (simp_all add: cPMacRandom_rep_def)
  have u1: "cHMAC_rep rep hash key (cHMAC_update (cHMAC_reset D (m_hmac p)) (m_a p)) (m_a p)"
    using HMAC_update_rep [OF HMAC_reset_rep [OF t], of "m_a p"] by simp
  obtain h1 where h1: "cHMAC_digest D (cHMAC_update (cHMAC_reset D (m_hmac p)) (m_a p)) = Inr (h1, ?H (m_a p))"
      "cHMAC_rep rep hash key h1 (m_a p)"
    using HMAC_digest_rep [OF u1] by blast
  let ?a = "?H (m_a p)"
  have u2: "cHMAC_rep rep hash key (cHMAC_update (cHMAC_update (cHMAC_reset D h1) ?a) (m_seed p)) (?a @ seed)"
    using HMAC_update_rep [OF HMAC_update_rep [OF HMAC_reset_rep [OF h1(2)], of ?a], of "m_seed p"] p(1) by simp
  obtain h2 where h2: "cHMAC_digest D (cHMAC_update (cHMAC_update (cHMAC_reset D h1) ?a) (m_seed p)) =
      Inr (h2, ?H (?a @ seed))" "cHMAC_rep rep hash key h2 (?a @ seed)"
    using HMAC_digest_rep [OF u2] by blast
  let ?ret = "?H (?a @ seed)"
  have len: "length ?ret = vd_getDigestLength D"
    by (simp add: HMAC_spec_def length_law)
  obtain q n where w: "cQueueFifo_write (m_rest p) ?ret (length ?ret) = (q, n)"
    by (cases "cQueueFifo_write (m_rest p) ?ret (length ?ret)")
  have q: "cQueueFifo_inv q" "n = length ?ret" "cQueueFifo_contents q = ?ret" "m_queueSize q = vd_getDigestLength D"
    using cqf.enq_law [OF p(3) order_refl w] p(4) len assms(2) by auto
  have "cPMacRandom_refill D p = Inr (p\<lparr>m_hmac := h2, m_a := ?a, m_rest := q\<rparr>)"
    by (simp add: cPMacRandom_refill_def h1(1) h2(1) w q(2) Let_def)
  then show ?thesis
    using h2(2) p(1,2,5) q by (auto simp: cPMacRandom_rep_def P_hash_Suc)
qed

lemma read_rep:
  assumes "pmac_rep key seed p out k" and "n \<le> length (cQueueFifo_contents (m_rest p))"
  shows "\<exists>q. cQueueFifo_read (m_rest p) (replicate n 0) n = (q, take n (cQueueFifo_contents (m_rest p)), n) \<and>
    pmac_rep key seed (p\<lparr>m_rest := q\<rparr>) (out @ take n (cQueueFifo_contents (m_rest p))) k"
proof -
  have inv: "cQueueFifo_inv (m_rest p)"
    using assms(1) by (simp add: cPMacRandom_rep_def)
  obtain q buf m where r: "cQueueFifo_read (m_rest p) (replicate n 0) n = (q, buf, m)"
    by (cases "cQueueFifo_read (m_rest p) (replicate n 0) n")
  show ?thesis
    using cqf.deq_law [OF inv _ r] assms r by (auto simp: cPMacRandom_rep_def)
qed

lemma ready_rep:
  assumes "0 < vd_getDigestLength D" and "pmac_rep key seed p out k"
  shows "\<exists>p' k'. (if cQueueFifo_getQueueOccupyspace (m_rest p) = 0 then cPMacRandom_refill D p else Inr p) = Inr p' \<and>
    pmac_rep key seed p' out k' \<and> cQueueFifo_contents (m_rest p') \<noteq> [] \<and>
    cQueueFifo_getQueueOccupyspace (m_rest p') = length (cQueueFifo_contents (m_rest p'))"
proof -
  have occ: "pmac_rep key seed p out k \<Longrightarrow>
      cQueueFifo_getQueueOccupyspace (m_rest p) = length (cQueueFifo_contents (m_rest p))" for p out k
    using occupyspace_length [of "m_rest p"]
    by (simp add: cPMacRandom_rep_def cQueueFifo_getQueueOccupyspace_def)
  show ?thesis
  proof (cases "cQueueFifo_contents (m_rest p) = []")
    case True
    then obtain p' where p': "cPMacRandom_refill D p = Inr p'" "pmac_rep key seed p' out (Suc k)"
      using refill_rep [OF assms(2)] by blast
    have "out = P_hash (HMAC_spec hash key) seed k"
      using assms(2) True by (simp add: cPMacRandom_rep_def)
    then have "length (cQueueFifo_contents (m_rest p')) = vd_getDigestLength D"
      using p'(2) by (auto simp: cPMacRandom_rep_def P_hash_Suc HMAC_spec_def length_law)
    then have "cQueueFifo_contents (m_rest p') \<noteq> []"
      using assms(1) by auto
    then show ?thesis
      using p' occ [OF p'(2)] occ [OF assms(2)] True by auto
  next
    case False
    then show ?thesis
      using assms(2) occ [OF assms(2)] by auto
  qed
qed

lemma loop_rep:
  assumes "0 < vd_getDigestLength D"
  shows "pmac_rep key seed p out k \<Longrightarrow> len \<le> fuel \<Longrightarrow>
    \<exists>p' new k'. cPMacRandom_loop D fuel p len data = Inr (Some (p', data @ new)) \<and>
      length new = len \<and> pmac_rep key seed p' (out @ new) k'"
proof (induction fuel arbitrary: p out k len data)
  case 0
  then show ?case
    by auto
next
  case (Suc fuel)
  show ?case
  proof (cases len)
    case 0
    then show ?thesis
      using Suc.prems by auto
  next
    case (Suc l)
    obtain p1 k1 where p1: "(if cQueueFifo_getQueueOccupyspace (m_rest p) = 0 then cPMacRandom_refill D p else Inr p) = Inr p1"
        "pmac_rep key seed p1 out k1" "cQueueFifo_contents (m_rest p1) \<noteq> []"
        "cQueueFifo_getQueueOccupyspace (m_rest p1) = length (cQueueFifo_contents (m_rest p1))"
      using ready_rep [OF assms Suc.prems(1)] by blast
    let ?xs = "cQueueFifo_contents (m_rest p1)"
    show ?thesis
    proof (cases "length ?xs \<ge> len")
      case True
      obtain q where q: "cQueueFifo_read (m_rest p1) (replicate len 0) len = (q, take len ?xs, len)"
          "pmac_rep key seed (p1\<lparr>m_rest := q\<rparr>) (out @ take len ?xs) k1"
        using read_rep [OF p1(2) True] by blast
      have "cPMacRandom_loop D (Suc fuel) p len data = Inr (Some (p1\<lparr>m_rest := q\<rparr>, data @ take len ?xs))"
        using True q(1) unfolding Suc by (simp add: p1(1,4) Let_def del: replicate.simps)
      then show ?thesis
        using q(2) True by auto
    next
      case False
      obtain q where q: "cQueueFifo_read (m_rest p1) (replicate (length ?xs) 0) (length ?xs) = (q, ?xs, length ?xs)"
          "pmac_rep key seed (p1\<lparr>m_rest := q\<rparr>) (out @ ?xs) k1"
        using read_rep [OF p1(2) order_refl] by auto
      have "len - length ?xs \<le> fuel"
        using p1(3) Suc.prems(2) Suc by (cases ?xs) auto
      from Suc.IH [OF q(2) this, of "data @ ?xs"] obtain p' new k' where
        r: "cPMacRandom_loop D fuel (p1\<lparr>m_rest := q\<rparr>) (len - length ?xs) (data @ ?xs) = Inr (Some (p', (data @ ?xs) @ new))"
          "length new = len - length ?xs" "pmac_rep key seed p' ((out @ ?xs) @ new) k'"
        by blast
      have "cPMacRandom_loop D (Suc fuel) p len data = Inr (Some (p', (data @ ?xs) @ new))"
        using False q(1) r(1) unfolding Suc by (simp add: p1(1,4) Let_def del: replicate.simps)
      then show ?thesis
        using r(2,3) False by (intro exI [of _ p'] exI [of _ "?xs @ new"] exI [of _ k']) auto
    qed
  qed
qed

lemma HMAC_session:
  assumes "rep (vd_reset D s) []" and "vd_getDigestLength D \<le> 64"
  shows "\<exists>h h'. cHMAC_new D s key = Inr h \<and>
    cHMAC_digest D (foldl cHMAC_update h chunks) = Inr (h', HMAC_spec hash key (concat chunks))"
proof -
  obtain h where h: "cHMAC_new D s key = Inr h" "cHMAC_rep rep hash key h []"
    using HMAC_new_rep [OF assms] by blast
  have "cHMAC_rep rep hash key (foldl cHMAC_update h chunks) (concat chunks)"
    using h(2)
  proof (induction chunks rule: rev_induct)
    case (snoc c chunks)
    then show ?case
      using HMAC_update_rep by fastforce
  qed simp
  with h(1) HMAC_digest_rep show ?thesis
    by blast
qed

lemma pmac_new_rep:
  assumes "cHMAC_rep rep hash key h t0" and "length mem = vd_getDigestLength D"
  shows "pmac_rep key seed (cPMacRandom_new h seed mem) [] 0"
  using assms by (auto simp: cPMacRandom_rep_def cPMacRandom_new_def new_queue P_hash_def)

end

text \<open>A session with the generator: the requested lengths, and the outputs.\<close>

fun cPMacRandom_session ::
  "'s cDigest \<Rightarrow> 's cPMacRandom \<Rightarrow> nat list \<Rightarrow> ('s cPMacRandom \<times> uint8 list list) option res"
where
  "cPMacRandom_session D p [] = Inr (Some (p, []))"
| "cPMacRandom_session D p (n # ns) =
     bind_res (cPMacRandom_generateRandom D p n) (\<lambda>r. case r of None \<Rightarrow> Inr None
       | Some (p, out) \<Rightarrow> bind_res (cPMacRandom_session D p ns) (\<lambda>r. case r of None \<Rightarrow> Inr None
           | Some (p, outs) \<Rightarrow> Inr (Some (p, out # outs))))"

context digest_class begin

lemma session_rep:
  assumes "0 < vd_getDigestLength D"
  shows "pmac_rep key seed p out k \<Longrightarrow>
    \<exists>p' outs k'. cPMacRandom_session D p ns = Inr (Some (p', outs)) \<and> map length outs = ns \<and>
      pmac_rep key seed p' (out @ concat outs) k'"
proof (induction ns arbitrary: p out k)
  case (Cons n ns)
  obtain p1 new k1 where 1: "cPMacRandom_generateRandom D p n = Inr (Some (p1, new))" "length new = n"
      "pmac_rep key seed p1 (out @ new) k1"
    using loop_rep [OF assms Cons.prems order_refl, of n "[]"]
    by (auto simp: cPMacRandom_generateRandom_def)
  obtain p' outs k' where "cPMacRandom_session D p1 ns = Inr (Some (p', outs))" "map length outs = ns"
      "pmac_rep key seed p' ((out @ new) @ concat outs) k'"
    using Cons.IH [OF 1(3)] by blast
  with 1 show ?case
    by (intro exI [of _ p'] exI [of _ "new # outs"] exI [of _ k']) simp
qed auto

lemma session_stream:
  assumes "rep (vd_reset D s) []" and "vd_getDigestLength D \<le> 64" and "0 < vd_getDigestLength D"
    and "length mem = vd_getDigestLength D"
  shows "\<exists>h p outs k. cHMAC_new D s key = Inr h \<and>
    cPMacRandom_session D (cPMacRandom_new h seed mem) ns = Inr (Some (p, outs)) \<and>
    map length outs = ns \<and> sum_list ns \<le> length (P_hash (HMAC_spec hash key) seed k) \<and>
    concat outs = take (sum_list ns) (P_hash (HMAC_spec hash key) seed k)"
proof -
  obtain h where h: "cHMAC_new D s key = Inr h" "cHMAC_rep rep hash key h []"
    using HMAC_new_rep [OF assms(1,2)] by blast
  obtain p outs k where p: "cPMacRandom_session D (cPMacRandom_new h seed mem) ns = Inr (Some (p, outs))"
      "map length outs = ns" "pmac_rep key seed p ([] @ concat outs) k"
    using session_rep [OF assms(3) pmac_new_rep [OF h(2) assms(4)]] by blast
  have "length (concat outs) = sum_list ns"
    using p(2) by (simp add: length_concat)
  moreover have "concat outs @ cQueueFifo_contents (m_rest p) = P_hash (HMAC_spec hash key) seed k"
    using p(3) by (simp add: cPMacRandom_rep_def)
  ultimately show ?thesis
    using h(1) p(1,2) by (metis append_eq_conv_conj le_add1 length_append)
qed

end

subsection \<open>The exclusive or of two buffers\<close>

text \<open>
  \<open>_xor\<close> works on machine words of eight bytes first, then on the remaining bytes; a word is
  loaded and stored in the byte order of the little endian machine.
\<close>

fun xor_bytes :: "nat \<Rightarrow> uint8 list \<Rightarrow> uint8 list \<Rightarrow> uint8 list" where
  "xor_bytes (Suc k) (x # s) (y # d) = (x XOR y) # xor_bytes k s d"
| "xor_bytes _ s d = s"

fun xor_words :: "nat \<Rightarrow> nat \<Rightarrow> uint8 list \<Rightarrow> uint8 list \<Rightarrow> uint8 list" where
  "xor_words 0 l2 s d = xor_bytes l2 s d"
| "xor_words (Suc l1) l2 s d =
     cLittleEndian_writeUint64 (take 8 s) (cLittleEndian_readUint64 s XOR cLittleEndian_readUint64 d) @
       xor_words l1 l2 (drop 8 s) (drop 8 d)"

definition cEncryptionUtils_xor :: "uint8 list \<Rightarrow> uint8 list \<Rightarrow> nat \<Rightarrow> uint8 list" where
  "cEncryptionUtils_xor source dest len = xor_words (len div 8) (len mod 8) source dest"

lemma xor_bytes_eq:
  "n \<le> length s \<Longrightarrow> n \<le> length d \<Longrightarrow> xor_bytes n s d = map2 (XOR) (take n s) (take n d) @ drop n s"
  by (induction n s d rule: xor_bytes.induct) auto

lemma le64_xor: "le64 (a XOR b) = map2 (XOR) (le64 a) (le64 b)"
  by (auto simp: le64_def intro!: bit_word_eqI) (auto simp: bit_simps)

lemma xor_words_eq:
  "8 * l1 + l2 \<le> length s \<Longrightarrow> 8 * l1 + l2 \<le> length d \<Longrightarrow>
     xor_words l1 l2 s d = map2 (XOR) (take (8 * l1 + l2) s) (take (8 * l1 + l2) d) @ drop (8 * l1 + l2) s"
proof (induction l1 l2 s d rule: xor_words.induct)
  case (2 l1 l2 s d)
  have w: "cLittleEndian_writeUint64 (take 8 s) (cLittleEndian_readUint64 s XOR cLittleEndian_readUint64 d) =
      map2 (XOR) (take 8 s) (take 8 d)"
    using codec64.bytes_rd [of s True] codec64.bytes_rd [of d True] 2(2,3)
    by (simp add: le_write64 le64_xor endian_bytes64_def cEndian_readUint64_def)
  have t: "take (8 * Suc l1 + l2) xs = take 8 xs @ take (8 * l1 + l2) (drop 8 xs)" for xs :: "uint8 list"
    by (simp add: take_add add.assoc)
  have "xor_words l1 l2 (drop 8 s) (drop 8 d) =
      map2 (XOR) (take (8 * l1 + l2) (drop 8 s)) (take (8 * l1 + l2) (drop 8 d)) @ drop (8 * l1 + l2) (drop 8 s)"
    using 2 by simp
  then show ?case
    using 2(2,3) by (simp only: xor_words.simps w t) (simp add: add.commute add.left_commute)
qed (simp add: xor_bytes_eq)

lemma xor_eq:
  "len \<le> length s \<Longrightarrow> len \<le> length d \<Longrightarrow>
     cEncryptionUtils_xor s d len = map2 (XOR) (take len s) (take len d) @ drop len s"
  by (simp add: cEncryptionUtils_xor_def xor_words_eq)

subsection \<open>The TLS pseudo random function\<close>

text \<open>A hash object that was just constructed; \<open>mem\<close> is what its block will be allocated in.\<close>

definition cHashDigest_new :: "uint8 list \<Rightarrow> cHashDigest" where
  "cHashDigest_new mem =
     \<lparr>m_digest = [], m_count_l = 0, m_count_h = 0, m_block = mem, m_index = 0, m_isValid = False\<rparr>"

record cPRF =
  m_md5 :: "cHashDigest cPMacRandom"
  m_sha1 :: "cHashDigest cPMacRandom"

definition cPRF_new :: "uint8 list \<Rightarrow> uint8 list \<Rightarrow> uint8 list \<Rightarrow> uint8 list \<Rightarrow> uint8 list \<Rightarrow> cPRF res" where
  "cPRF_new seed secret mem mem5 mem1 =
     (let gs = length secret div 2;
          ls = (if length secret AND 1 = 1 then gs + 1 else gs);
          s1 = take ls secret;
          s2 = take ls (drop gs secret)
      in bind_res (cHMAC_new (cHashDigest_class cMD5) (cHashDigest_new mem) s1) (\<lambda>md5.
         bind_res (cHMAC_new (cHashDigest_class cSHA1) (cHashDigest_new mem) s2) (\<lambda>sha.
         Inr \<lparr>m_md5 = cPMacRandom_new md5 seed mem5, m_sha1 = cPMacRandom_new sha seed mem1\<rparr>)))"

definition cPRF_generateRandom :: "cPRF \<Rightarrow> nat \<Rightarrow> (cPRF \<times> uint8 list) option res" where
  "cPRF_generateRandom p len =
     bind_res (cPMacRandom_generateRandom (cHashDigest_class cMD5) (m_md5 p) len) (\<lambda>r5.
     bind_res (cPMacRandom_generateRandom (cHashDigest_class cSHA1) (m_sha1 p) len) (\<lambda>r1.
     case (r5, r1) of
       (Some (p5, output), Some (p1, temp)) \<Rightarrow>
         Inr (Some (p\<lparr>m_md5 := p5, m_sha1 := p1\<rparr>, cEncryptionUtils_xor output temp len))
     | _ \<Rightarrow> Inr None))"

text \<open>A session with the function: the requested lengths, and the outputs.\<close>

fun cPRF_session :: "cPRF \<Rightarrow> nat list \<Rightarrow> (cPRF \<times> uint8 list list) option res" where
  "cPRF_session p [] = Inr (Some (p, []))"
| "cPRF_session p (n # ns) =
     bind_res (cPRF_generateRandom p n) (\<lambda>r. case r of None \<Rightarrow> Inr None
       | Some (p, out) \<Rightarrow> bind_res (cPRF_session p ns) (\<lambda>r. case r of None \<Rightarrow> Inr None
           | Some (p, outs) \<Rightarrow> Inr (Some (p, out # outs))))"

lemma fresh_reset: "length mem = 64 \<Longrightarrow> hash_rep vt (vd_reset (cHashDigest_class vt) (cHashDigest_new mem)) []"
  by (simp add: cHashDigest_class_def cHashDigest_new_def reset_rep)

lemma init_lengths: "length (vt_init cMD5) = 4" "length (vt_init cSHA1) = 5"
  by (simp_all add: cMD5_def cSHA1_def)

lemma digest_lengths: "vd_getDigestLength (cHashDigest_class cMD5) = 16"
  "vd_getDigestLength (cHashDigest_class cSHA1) = 20"
  by (simp_all add: cHashDigest_class_def cMD5_def cSHA1_def)

text \<open>The two sessions run in lock step.\<close>

lemma prf_session:
  assumes "cPMacRandom_session (cHashDigest_class cMD5) (m_md5 p) ns = Inr (Some (p5, outs5))"
    and "cPMacRandom_session (cHashDigest_class cSHA1) (m_sha1 p) ns = Inr (Some (p1, outs1))"
    and "map length outs5 = ns" and "map length outs1 = ns"
  shows "\<exists>p' outs. cPRF_session p ns = Inr (Some (p', outs)) \<and> map length outs = ns \<and>
    concat outs = map2 (XOR) (concat outs5) (concat outs1)"
  using assms
proof (induction ns arbitrary: p outs5 outs1)
  case (Cons n ns)
  obtain q5 o5 os5 where 5: "cPMacRandom_generateRandom (cHashDigest_class cMD5) (m_md5 p) n = Inr (Some (q5, o5))"
      "cPMacRandom_session (cHashDigest_class cMD5) q5 ns = Inr (Some (p5, os5))" "outs5 = o5 # os5"
    using Cons.prems(1) by (auto simp: bind_res_eq_Inr split: option.splits)
  obtain q1 o1 os1 where 1: "cPMacRandom_generateRandom (cHashDigest_class cSHA1) (m_sha1 p) n = Inr (Some (q1, o1))"
      "cPMacRandom_session (cHashDigest_class cSHA1) q1 ns = Inr (Some (p1, os1))" "outs1 = o1 # os1"
    using Cons.prems(2) by (auto simp: bind_res_eq_Inr split: option.splits)
  have len: "length o5 = n" "length o1 = n" "map length os5 = ns" "map length os1 = ns"
    using Cons.prems(3,4) 5(3) 1(3) by simp_all
  let ?p = "p\<lparr>m_md5 := q5, m_sha1 := q1\<rparr>"
  obtain p' outs where r: "cPRF_session ?p ns = Inr (Some (p', outs))" "map length outs = ns"
      "concat outs = map2 (XOR) (concat os5) (concat os1)"
    using Cons.IH [of ?p os5 os1] 5(2) 1(2) len by auto
  have g: "cPRF_generateRandom p n = Inr (Some (?p, map2 (XOR) o5 o1))"
    using 5(1) 1(1) len by (simp add: cPRF_generateRandom_def xor_eq)
  show ?case
    using r g len 5(3) 1(3) by (intro exI [of _ p'] exI [of _ "map2 (XOR) o5 o1 # outs"]) simp
qed auto

subsection \<open>Properties\<close>



text \<open>
  C21: the generator returns for every sequence of requests; the outputs have the requested
  lengths and together they are a prefix of the stream \<open>P_hash\<close> of RFC 2246, so that the stream
  does not depend on how it is asked for.
\<close>

theorem pmac_stream:
  "length mem = 64 \<Longrightarrow> vt \<in> {cMD5, cSHA1} \<Longrightarrow> length qmem = 4 * length (vt_init vt) \<Longrightarrow>
     \<exists>h p outs k. cHMAC_new (cHashDigest_class vt) (cHashDigest_new mem) secret = Inr h \<and>
       cPMacRandom_session (cHashDigest_class vt) (cPMacRandom_new h seed qmem) ns = Inr (Some (p, outs)) \<and>
       map length outs = ns \<and>
       sum_list ns \<le> length (P_hash (HMAC_spec (md_hash vt) secret) seed k) \<and>
       concat outs = take (sum_list ns) (P_hash (HMAC_spec (md_hash vt) secret) seed k)"
  using md5.session_stream [of "cHashDigest_new mem" qmem secret seed ns]
    sha1.session_stream [of "cHashDigest_new mem" qmem secret seed ns]
  by (auto simp: fresh_reset digest_lengths init_lengths)

theorem pmac_stream_witness:
  "\<exists>h p outs. cHMAC_new (cHashDigest_class cMD5) (cHashDigest_new (replicate 64 0)) [1] = Inr h \<and>
       cPMacRandom_session (cHashDigest_class cMD5) (cPMacRandom_new h [2] (replicate 16 0)) [3, 20] =
         Inr (Some (p, outs)) \<and> map length outs = [3, 20]"
  using pmac_stream [of "replicate 64 0" cMD5 "replicate 16 0" "[1]" "[2]" "[3, 20]"]
  by (force simp: cMD5_def)

text \<open>
  C20: the pseudo random function of TLS 1.0: the requested bytes are the exclusive or of the
  MD5 stream keyed with the first half of the secret and the SHA-1 stream keyed with the second
  half, the halves sharing the middle byte of a secret of odd length.
\<close>

theorem PRF_stream:
  "length mem = 64 \<Longrightarrow> length mem5 = 16 \<Longrightarrow> length mem1 = 20 \<Longrightarrow>
     \<exists>p p' outs k5 k1.
       cPRF_new seed secret mem mem5 mem1 = Inr p \<and> cPRF_session p ns = Inr (Some (p', outs)) \<and>
       map length outs = ns \<and>
       concat outs = map2 (XOR)
         (take (sum_list ns)
           (P_hash (HMAC_spec (md_hash cMD5) (take ((length secret + 1) div 2) secret)) seed k5))
         (take (sum_list ns)
           (P_hash (HMAC_spec (md_hash cSHA1) (drop (length secret div 2) secret)) seed k1))"
proof -
  assume m: "length mem = 64" "length mem5 = 16" "length mem1 = 20"
  define ls where "ls = (if length secret AND 1 = 1 then length secret div 2 + 1 else length secret div 2)"
  have ls: "ls = (length secret + 1) div 2"
    unfolding ls_def by (simp add: and_one_eq) presburger
  have s2: "take ls (drop (length secret div 2) secret) = drop (length secret div 2) secret"
    unfolding ls by simp
  let ?S1 = "take ls secret" and ?S2 = "drop (length secret div 2) secret"
  obtain h5 p5 outs5 k5 where 5: "cHMAC_new (cHashDigest_class cMD5) (cHashDigest_new mem) ?S1 = Inr h5"
      "cPMacRandom_session (cHashDigest_class cMD5) (cPMacRandom_new h5 seed mem5) ns = Inr (Some (p5, outs5))"
      "map length outs5 = ns"
      "concat outs5 = take (sum_list ns) (P_hash (HMAC_spec (md_hash cMD5) ?S1) seed k5)"
    using md5.session_stream [of "cHashDigest_new mem" mem5 ?S1 seed ns] m by (auto simp: fresh_reset digest_lengths)
  obtain h1 p1 outs1 k1 where 1: "cHMAC_new (cHashDigest_class cSHA1) (cHashDigest_new mem) ?S2 = Inr h1"
      "cPMacRandom_session (cHashDigest_class cSHA1) (cPMacRandom_new h1 seed mem1) ns = Inr (Some (p1, outs1))"
      "map length outs1 = ns"
      "concat outs1 = take (sum_list ns) (P_hash (HMAC_spec (md_hash cSHA1) ?S2) seed k1)"
    using sha1.session_stream [of "cHashDigest_new mem" mem1 ?S2 seed ns] m by (auto simp: fresh_reset digest_lengths)
  let ?p = "\<lparr>m_md5 = cPMacRandom_new h5 seed mem5, m_sha1 = cPMacRandom_new h1 seed mem1\<rparr>"
  have "cPRF_new seed secret mem mem5 mem1 = Inr ?p"
    unfolding cPRF_new_def Let_def ls_def [symmetric] s2 by (simp only: 5(1) 1(1) bind_res_Inr)
  moreover obtain p' outs where "cPRF_session ?p ns = Inr (Some (p', outs))" "map length outs = ns"
      "concat outs = map2 (XOR) (concat outs5) (concat outs1)"
    using prf_session [of ?p ns p5 outs5 p1 outs1] 5 1 by auto
  ultimately show ?thesis
    unfolding 5(4) 1(4) ls by blast
qed

theorem PRF_stream_witness:
  "\<exists>p p' outs. cPRF_new [1, 2] [3, 4, 5] (replicate 64 0) (replicate 16 0) (replicate 20 0) = Inr p \<and>
       cPRF_session p [7, 30] = Inr (Some (p', outs)) \<and> map length outs = [7, 30]"
  using PRF_stream [of "replicate 64 0" "replicate 16 0" "replicate 20 0" "[1, 2]" "[3, 4, 5]" "[7, 30]"]
  by force

end
