(* ===== verification/XRc4.thy ===== *)
theory XRc4
  imports XAlgorithm
begin

text \<open>
  The stream cipher \<open>cRC4\<close> (Source/xStl/enc/enc/rc4.cpp) and the random source \<open>cRC4Random\<close>
  over it (enc/random/rc4rnd.cpp). \<open>m_i\<close> and \<open>m_j\<close> are bytes, so their arithmetic wraps.
\<close>

record cRC4 =
  m_premutation :: "uint8 list"
  m_i :: uint8
  m_j :: uint8

definition RC4KEY_LEN :: nat where
  "RC4KEY_LEN = 256"

text \<open>\<open>t_swap (m_premutation[a], m_premutation[b])\<close>\<close>

definition rc4_swap :: "uint8 list \<Rightarrow> uint8 \<Rightarrow> uint8 \<Rightarrow> uint8 list" where
  "rc4_swap S a b =
     (let (x, y) = t_swap (S ! unat a) (S ! unat b) in S[unat a := x, unat b := y])"

text \<open>The key schedule. \<open>key[i % key.getSize()]\<close> divides by zero when the key is empty.\<close>

fun rc4_schedule :: "uint8 list \<Rightarrow> uint8 list \<Rightarrow> uint8 \<Rightarrow> nat \<Rightarrow> nat \<Rightarrow> uint8 list" where
  "rc4_schedule key S index2 i 0 = S"
| "rc4_schedule key S index2 i (Suc k) =
     (let index1 = word_of_nat i;
          index2 = (key ! (i mod length key) + S ! unat index1 + index2) AND 0xFF
      in rc4_schedule key (rc4_swap S index1 index2) index2 (i + 1) k)"

definition cRC4_loadKey :: "uint8 list \<Rightarrow> cRC4 res" where
  "cRC4_loadKey key =
     (if length key = 0 then Inl UNDEFINED_BEHAVIOUR
      else Inr \<lparr>m_premutation = rc4_schedule key (map word_of_nat [0..<RC4KEY_LEN]) 0 0 RC4KEY_LEN,
                m_i = 0, m_j = 0\<rparr>)"

definition cRC4_advance :: "cRC4 \<Rightarrow> cRC4 \<times> uint8" where
  "cRC4_advance c =
     (let i = m_i c + 1;
          j = m_premutation c ! unat i + m_j c;
          S = rc4_swap (m_premutation c) i j
      in (\<lparr>m_premutation = S, m_i = i, m_j = j\<rparr>, S ! unat ((S ! unat i + S ! unat j) AND 0xFF)))"

fun cRC4_encrypt :: "cRC4 \<Rightarrow> uint8 list \<Rightarrow> cRC4 \<times> uint8 list" where
  "cRC4_encrypt c [] = (c, [])"
| "cRC4_encrypt c (b # data) =
     (let (c, k) = cRC4_advance c; (c, out) = cRC4_encrypt c data in (c, (b XOR k) # out))"

definition cRC4_decrypt :: "cRC4 \<Rightarrow> uint8 list \<Rightarrow> cRC4 \<times> uint8 list" where
  "cRC4_decrypt c data = cRC4_encrypt c data"

fun cRC4_strip :: "cRC4 \<Rightarrow> nat \<Rightarrow> cRC4 \<times> uint8 list" where
  "cRC4_strip c 0 = (c, [])"
| "cRC4_strip c (Suc n) =
     (let (c, k) = cRC4_advance c; (c, out) = cRC4_strip c n in (c, k # out))"

definition cRC4Random_new :: "uint8 list \<Rightarrow> cRC4 res" where
  "cRC4Random_new seed = cRC4_loadKey seed"

definition cRC4Random_generateRandom :: "cRC4 \<Rightarrow> nat \<Rightarrow> cRC4 \<times> uint8 list" where
  "cRC4Random_generateRandom c len = cRC4_strip c len"

subsection \<open>The table stays a permutation\<close>

definition cRC4_inv :: "cRC4 \<Rightarrow> bool" where
  "cRC4_inv c \<longleftrightarrow> length (m_premutation c) = 256 \<and> distinct (m_premutation c)"

lemma unat_lt_256: "unat (b :: uint8) < 256"
  by (rule order_less_le_trans [OF unsigned_less]) simp

lemma length_rc4_swap [simp]: "length (rc4_swap S a b) = length S"
  by (simp add: rc4_swap_def)

lemma mset_rc4_swap: "length S = 256 \<Longrightarrow> mset (rc4_swap S a b) = mset S"
  using mset_swap [of "unat b" S "unat a"] unat_lt_256 by (simp add: rc4_swap_def)

lemma schedule_perm:
  "length S = 256 \<Longrightarrow> mset (rc4_schedule key S j i k) = mset S \<and> length (rc4_schedule key S j i k) = 256"
  by (induction key S j i k rule: rc4_schedule.induct) (simp_all add: Let_def mset_rc4_swap)

lemma loadKey_inv: "cRC4_loadKey key = Inr c \<Longrightarrow> cRC4_inv c"
proof -
  assume *: "cRC4_loadKey key = Inr c"
  let ?S = "map word_of_nat [0..<256] :: uint8 list"
  have "distinct ?S"
    by (auto simp: distinct_map inj_on_def word_of_nat_eq_iff take_bit_eq_mod)
  moreover have "mset (m_premutation c) = mset ?S" "length (m_premutation c) = 256"
    using * schedule_perm [of ?S key 0 0 256] by (auto simp: cRC4_loadKey_def RC4KEY_LEN_def split: if_splits)
  ultimately show ?thesis
    unfolding cRC4_inv_def using mset_eq_imp_distinct_iff by blast
qed

lemma advance_inv: "cRC4_inv c \<Longrightarrow> cRC4_inv (fst (cRC4_advance c))"
  using mset_rc4_swap [of "m_premutation c"]
  by (simp add: cRC4_inv_def cRC4_advance_def Let_def mset_eq_imp_distinct_iff [OF mset_rc4_swap])

lemma encrypt_strip:
  "cRC4_encrypt c data =
     (fst (cRC4_strip c (length data)), map2 (XOR) data (snd (cRC4_strip c (length data))))"
  by (induction c data rule: cRC4_encrypt.induct) (simp_all add: Let_def split: prod.splits)

lemma length_strip [simp]: "length (snd (cRC4_strip c n)) = n"
  by (induction n arbitrary: c) (simp_all add: split_beta Let_def)

lemma strip_add:
  "cRC4_strip c (m + n) =
     (let (c1, a) = cRC4_strip c m; (c2, b) = cRC4_strip c1 n in (c2, a @ b))"
  by (induction c m rule: cRC4_strip.induct) (auto split: prod.splits)

lemma map2_xor_xor: "length ks = length xs \<Longrightarrow> map2 (XOR) (map2 (XOR) xs ks) ks = (xs :: uint8 list)"
  by (induction xs ks rule: list_induct2') (simp_all add: xor.assoc)

lemma strip_inv: "cRC4_inv c \<Longrightarrow> cRC4_inv (fst (cRC4_strip c n))"
  by (induction c n rule: cRC4_strip.induct) (use advance_inv in \<open>force split: prod.splits\<close>)+

subsection \<open>The published cipher\<close>

text \<open>
  RC4 on numbers below 256, as it is published: the key scheduling walks once over the identity
  permutation; the generator's first index counts from one. State \<open>t\<close> is the one after \<open>t\<close> bytes.
\<close>

definition swap_at :: "nat list \<Rightarrow> nat \<Rightarrow> nat \<Rightarrow> nat list" where
  "swap_at S a b = S[a := S ! b, b := S ! a]"

definition schedule_step :: "nat list \<Rightarrow> nat list \<times> nat \<Rightarrow> nat \<Rightarrow> nat list \<times> nat" where
  "schedule_step key = (\<lambda>(S, j) i.
     let j = (j + S ! i + key ! (i mod length key)) mod 256 in (swap_at S i j, j))"

definition scheduled :: "nat list \<Rightarrow> nat list" where
  "scheduled key = fst (foldl (schedule_step key) ([0..<256], 0) [0..<256])"

fun generator :: "nat list \<Rightarrow> nat \<Rightarrow> nat list \<times> nat" where
  "generator S0 0 = (S0, 0)"
| "generator S0 (Suc t) =
     (let (S, j) = generator S0 t; i = Suc t mod 256; j = (j + S ! i) mod 256 in (swap_at S i j, j))"

definition generated :: "nat list \<Rightarrow> nat \<Rightarrow> nat" where
  "generated S0 t =
     (let (S, j) = generator S0 (Suc t); i = Suc t mod 256 in S ! ((S ! i + S ! j) mod 256))"

definition keystream :: "uint8 list \<Rightarrow> nat \<Rightarrow> uint8 list" where
  "keystream key n = map (\<lambda>t. word_of_nat (generated (scheduled (map unat key)) t)) [0..<n]"

lemma map_rc4_swap: "length S = 256 \<Longrightarrow> map unat (rc4_swap S a b) = swap_at (map unat S) (unat a) (unat b)"
  using unat_lt_256 [of a] unat_lt_256 [of b] by (simp add: rc4_swap_def swap_at_def map_update)

lemma byte_and_mask: "b AND 0xFF = b" for b :: uint8
proof -
  have "(0xFF :: uint8) = - 1" by simp
  then show ?thesis by (simp only: and.right_neutral)
qed

lemma unat_byte_add: "unat (a + b) = (unat a + unat b) mod 256" for a b :: uint8
  by (simp add: unat_word_ariths)

lemma schedule_published:
  "length S = 256 \<Longrightarrow> key \<noteq> [] \<Longrightarrow> i + k \<le> 256 \<Longrightarrow>
     map unat (rc4_schedule key S j i k) = fst (foldl (schedule_step (map unat key)) (map unat S, unat j) [i..<i + k])"
proof (induction key S j i k rule: rc4_schedule.induct)
  case (2 key S j i k)
  let ?a = "word_of_nat i :: uint8" let ?j = "(key ! (i mod length key) + S ! unat ?a + j) AND 0xFF"
  have a: "unat ?a = i" using "2.prems" by (simp add: unat_of_nat take_bit_nat_eq_self)
  have "unat ?j = (unat j + map unat S ! i + map unat key ! (i mod length key)) mod 256"
    unfolding byte_and_mask using "2.prems" by (simp add: unat_byte_add a mod_simps) (simp add: ac_simps)
  then have step: "schedule_step (map unat key) (map unat S, unat j) i = (map unat (rc4_swap S ?a ?j), unat ?j)"
    using "2.prems" by (simp add: schedule_step_def map_rc4_swap a Let_def)
  have "map unat (rc4_schedule key (rc4_swap S ?a ?j) ?j (i + 1) k) =
      fst (foldl (schedule_step (map unat key)) (map unat (rc4_swap S ?a ?j), unat ?j) [i + 1..<i + 1 + k])"
    by (rule "2.IH" [OF refl refl]) (use "2.prems" in simp_all)
  moreover have "[i..<i + Suc k] = i # [i + 1..<i + 1 + k]" by (simp add: upt_conv_Cons)
  ultimately show ?case using step by (simp add: Let_def)
qed simp

text \<open>An object that has put out \<open>t\<close> bytes.\<close>

definition rc4_after :: "nat list \<Rightarrow> cRC4 \<Rightarrow> nat \<Rightarrow> bool" where
  "rc4_after S0 c t \<longleftrightarrow> cRC4_inv c \<and> (map unat (m_premutation c), unat (m_j c)) = generator S0 t \<and> unat (m_i c) = t mod 256"

lemma loadKey_after: "key \<noteq> [] \<Longrightarrow> \<exists>c. cRC4_loadKey key = Inr c \<and> rc4_after (scheduled (map unat key)) c 0"
proof -
  assume k: "key \<noteq> []"
  then obtain c where c: "cRC4_loadKey key = Inr c" by (simp add: cRC4_loadKey_def)
  have "map unat (map word_of_nat [0..<256] :: uint8 list) = [0..<256]"
    by (rule map_idI [of _ "unat \<circ> (word_of_nat :: nat \<Rightarrow> uint8)", unfolded map_map [symmetric]])
      (auto simp: unat_of_nat take_bit_nat_eq_self)
  then have "map unat (m_premutation c) = scheduled (map unat key)"
    using schedule_published [of "map word_of_nat [0..<256]" key 0 256 0] c k
    by (auto simp: cRC4_loadKey_def RC4KEY_LEN_def scheduled_def)
  then show ?thesis using c loadKey_inv [OF c] k by (auto simp: rc4_after_def cRC4_loadKey_def)
qed

lemma advance_after:
  assumes "rc4_after S0 c t"
  shows "rc4_after S0 (fst (cRC4_advance c)) (Suc t) \<and> unat (snd (cRC4_advance c)) = generated S0 t"
proof -
  let ?S = "m_premutation c" and ?i = "m_i c + 1"
  let ?j = "?S ! unat ?i + m_j c"
  have len: "length ?S = 256" using assms by (simp add: rc4_after_def cRC4_inv_def)
  have i: "unat ?i = Suc t mod 256" using assms by (simp add: rc4_after_def unat_byte_add mod_simps)
  have j: "unat ?j = (unat (m_j c) + map unat ?S ! (Suc t mod 256)) mod 256"
  proof -
    have "unat (?S ! unat ?i) = map unat ?S ! (Suc t mod 256)" using len unfolding i by simp
    then show ?thesis unfolding unat_byte_add [of "?S ! unat ?i" "m_j c"] by (metis add.commute)
  qed
  have gen: "generator S0 t = (map unat ?S, unat (m_j c))" using assms by (simp add: rc4_after_def)
  have g: "generator S0 (Suc t) = (map unat (rc4_swap ?S ?i ?j), unat ?j)"
    unfolding map_rc4_swap [OF len] j by (simp only: generator.simps gen Let_def prod.case i)
  let ?T = "rc4_swap ?S ?i ?j"
  have at: "map unat ?T ! k = unat (?T ! k)" if "k < 256" for k using that len by simp
  have "generated S0 t = map unat ?T ! ((map unat ?T ! unat ?i + map unat ?T ! unat ?j) mod 256)"
    unfolding generated_def g i by (simp only: Let_def prod.case)
  also have "\<dots> = map unat ?T ! unat ((?T ! unat ?i + ?T ! unat ?j) AND 0xFF)"
    by (simp only: at [OF unat_lt_256] byte_and_mask unat_byte_add [of "?T ! unat ?i"])
  also have "\<dots> = unat (?T ! unat ((?T ! unat ?i + ?T ! unat ?j) AND 0xFF))"
    by (rule at [OF unat_lt_256])
  finally have out: "unat (snd (cRC4_advance c)) = generated S0 t" by (simp only: cRC4_advance_def Let_def snd_conv)
  have "fst (cRC4_advance c) = \<lparr>m_premutation = ?T, m_i = ?i, m_j = ?j\<rparr>" by (simp only: cRC4_advance_def Let_def fst_conv)
  then show ?thesis
    using g i out advance_inv [of c] assms unfolding rc4_after_def by (metis cRC4.select_convs)
qed

lemma strip_after:
  "rc4_after S0 c t \<Longrightarrow> rc4_after S0 (fst (cRC4_strip c n)) (t + n) \<and>
     map unat (snd (cRC4_strip c n)) = map (generated S0) [t..<t + n]"
proof (induction n arbitrary: c t)
  case (Suc n)
  note a = advance_after [OF Suc.prems]
  have "[t..<t + Suc n] = t # [Suc t..<Suc t + n]" by (simp add: upt_conv_Cons)
  then show ?case using a Suc.IH [OF a [THEN conjunct1]] by (simp add: split_beta Let_def)
qed simp

text \<open>Calls of \<open>encrypt\<close> and of \<open>decrypt\<close> on one buffer after the other.\<close>

fun encrypt_all :: "cRC4 \<Rightarrow> uint8 list list \<Rightarrow> cRC4 \<times> uint8 list list" where
  "encrypt_all c [] = (c, [])"
| "encrypt_all c (x # xs) =
     (let (c, y) = cRC4_encrypt c x; (c, ys) = encrypt_all c xs in (c, y # ys))"

fun decrypt_all :: "cRC4 \<Rightarrow> uint8 list list \<Rightarrow> cRC4 \<times> uint8 list list" where
  "decrypt_all c [] = (c, [])"
| "decrypt_all c (x # xs) =
     (let (c, y) = cRC4_decrypt c x; (c, ys) = decrypt_all c xs in (c, y # ys))"

lemma decrypt_all_eq: "decrypt_all c xs = encrypt_all c xs"
  by (induction xs arbitrary: c) (simp_all add: cRC4_decrypt_def)

lemma encrypt_all_strip:
  "fst (encrypt_all c xs) = fst (cRC4_strip c (length (concat xs))) \<and>
   concat (snd (encrypt_all c xs)) = map2 (XOR) (concat xs) (snd (cRC4_strip c (length (concat xs)))) \<and>
   map length (snd (encrypt_all c xs)) = map length xs"
proof (induction xs arbitrary: c)
  case (Cons x xs)
  then show ?case by (simp add: encrypt_strip strip_add split_beta Let_def)
qed simp

text \<open>
  C22: an object with a key of one byte or more enciphers with the key stream of the published
  cipher. Over any sequence of buffers \<open>encrypt\<close> gives the exclusive or of the data with that stream,
  one buffer for each, and the generator of random bytes is the stream itself; an object with the
  same key that decrypts the result, cut into buffers in any other way, gives the data back. The
  table stays a permutation of the bytes, and an empty key divides by zero.
\<close>

theorem RC4_stream:
  assumes "key \<noteq> []"
  shows "\<exists>c. cRC4_loadKey key = Inr c \<and> cRC4Random_new key = Inr c \<and>
     concat (snd (encrypt_all c xs)) = map2 (XOR) (concat xs) (keystream key (length (concat xs))) \<and>
     map length (snd (encrypt_all c xs)) = map length xs \<and>
     snd (cRC4Random_generateRandom c n) = keystream key n \<and>
     (concat ys = concat (snd (encrypt_all c xs)) \<longrightarrow> concat (snd (decrypt_all c ys)) = concat xs) \<and>
     set (m_premutation (fst (encrypt_all c xs))) = UNIV \<and>
     cRC4_loadKey [] = Inl UNDEFINED_BEHAVIOUR"
proof -
  obtain c where c: "cRC4_loadKey key = Inr c" "rc4_after (scheduled (map unat key)) c 0"
    using loadKey_after [OF assms] by blast
  have stream: "snd (cRC4_strip c n) = keystream key n" for n
  proof -
    have "map word_of_nat (map unat (snd (cRC4_strip c n))) = keystream key n"
      using strip_after [OF c(2), of n] by (simp only: keystream_def map_map comp_def add_0)
    then show ?thesis by (simp add: comp_def)
  qed
  have enc: "concat (snd (encrypt_all c xs)) = map2 (XOR) (concat xs) (keystream key (length (concat xs)))" for xs
    using encrypt_all_strip [of c xs] by (simp add: stream)
  have len: "length (keystream key n) = n" for n by (simp add: keystream_def)
  have dec: "concat (snd (decrypt_all c ys)) = concat xs" if "concat ys = concat (snd (encrypt_all c xs))"
    unfolding decrypt_all_eq enc that by (simp add: len map2_xor_xor)
  have "cRC4_inv (fst (encrypt_all c xs))"
    using strip_inv [OF loadKey_inv [OF c(1)]] encrypt_all_strip [of c xs] by simp
  then have "card (set (m_premutation (fst (encrypt_all c xs)))) = card (UNIV :: uint8 set)"
    by (simp add: cRC4_inv_def distinct_card card_word)
  then have "set (m_premutation (fst (encrypt_all c xs))) = UNIV" by (intro card_subset_eq) auto
  then show ?thesis
    using c(1) enc dec stream encrypt_all_strip [of c xs]
    by (intro exI [of _ c]) (simp add: cRC4Random_new_def cRC4Random_generateRandom_def cRC4_loadKey_def)
qed

theorem RC4_stream_witness:
  "\<exists>c. cRC4_loadKey [1, 2, 3] = Inr c \<and>
     (\<forall>ys. concat ys = concat (snd (encrypt_all c [[9, 8], [], [7]])) \<longrightarrow> concat (snd (decrypt_all c ys)) = [9, 8, 7])"
proof -
  obtain c where c: "cRC4_loadKey [1, 2, 3] = Inr c" by (simp add: cRC4_loadKey_def)
  have "concat (snd (decrypt_all c ys)) = [9, 8, 7]" if "concat ys = concat (snd (encrypt_all c [[9, 8], [], [7]]))" for ys
    using RC4_stream [of "[1, 2, 3]" "[[9, 8], [], [7]]" 0 ys] c that by auto
  then show ?thesis using c by blast
qed

end
