(* ===== verification/XString.thy ===== *)
theory XString
  imports XEndian XAlgorithm
begin

text \<open>
  The characters of data/char.cpp and the string class of data/string.cpp. A \<open>character\<close> is a
  \<open>char\<close> of 8 bits, which is signed. The state of a \<open>cString\<close> is the buffer, whose
  elements are listed with the terminating zero (the array below it is the one of XArray),
  and the cached length. Positions and lengths are numbers; the conversions to the 32 bit
  \<open>int\<close> that \<open>left\<close>, \<open>right\<close> and the indices of \<open>operator []\<close> make are written out.
\<close>

type_synonym character = "8 word"

definition lit :: "string \<Rightarrow> character list" where
  "lit s = map of_char s"

definition ch :: "char \<Rightarrow> character" where
  "ch c = of_char c"

subsection \<open>Characters\<close>

definition cChar_getNullCharacter :: character where
  "cChar_getNullCharacter = 0"

text \<open>\<open>getStrlen\<close> counts to the terminator, which has to be in the buffer.\<close>

definition cChar_getStrlen :: "character list \<Rightarrow> nat" where
  "cChar_getStrlen buf = length (takeWhile (\<lambda>c. c \<noteq> 0) buf)"

definition cChar_getUppercase :: "character \<Rightarrow> character" where
  "cChar_getUppercase c =
     (if ch CHR ''a'' \<le>s c \<and> c \<le>s ch CHR ''z'' then (c - ch CHR ''a'') + ch CHR ''A'' else c)"

definition cChar_getLowercase :: "character \<Rightarrow> character" where
  "cChar_getLowercase c =
     (if ch CHR ''A'' \<le>s c \<and> c \<le>s ch CHR ''Z'' then (c - ch CHR ''A'') + ch CHR ''a'' else c)"

definition cChar_isBlanket :: "character \<Rightarrow> bool" where
  "cChar_isBlanket c \<longleftrightarrow> c = ch CHR '' '' \<or> c = 9"

definition cChar_isNewLine :: "character \<Rightarrow> bool" where
  "cChar_isNewLine c \<longleftrightarrow> c = 13 \<or> c = 10"

definition cChar_isDigit :: "character \<Rightarrow> bool" where
  "cChar_isDigit c \<longleftrightarrow> ch CHR ''0'' \<le>s c \<and> c \<le>s ch CHR ''9''"

definition cChar_isBraces :: "character \<Rightarrow> bool" where
  "cChar_isBraces c \<longleftrightarrow>
     c = ch CHR ''('' \<or> c = ch CHR '')'' \<or> c = ch CHR ''['' \<or> c = ch CHR '']'' \<or>
     c = ch CHR ''{'' \<or> c = ch CHR ''}''"

definition cChar_isSeperator :: "character \<Rightarrow> bool" where
  "cChar_isSeperator c \<longleftrightarrow> c = ch CHR ''.'' \<or> c = ch CHR '','' \<or> c = ch CHR '';''"

definition cChar_getDigit :: "character \<Rightarrow> uint64" where
  "cChar_getDigit c = scast c - scast (ch CHR ''0'')"

definition cChar_isLetter :: "character \<Rightarrow> bool" where
  "cChar_isLetter c \<longleftrightarrow>
     ch CHR ''a'' \<le>s c \<and> c \<le>s ch CHR ''z'' \<or> ch CHR ''A'' \<le>s c \<and> c \<le>s ch CHR ''Z''"

text \<open>The comparison with \<open>0x80\<close> is made on the promoted \<open>int\<close>.\<close>

definition cChar_isPrintable :: "character \<Rightarrow> bool" where
  "cChar_isPrintable c \<longleftrightarrow> 0x20 \<le> sint c \<and> sint c < 0x80"

text \<open>
  \<open>strcmp\<close> and \<open>strcasecmp\<close> of the C library compare as unsigned characters up to the first
  difference or the terminator; only the sign of the result is defined.
\<close>

fun cChar_strcmp :: "character list \<Rightarrow> character list \<Rightarrow> int" where
  "cChar_strcmp (a # s) (b # t) =
     (if a < b then - 1 else if b < a then 1 else if a = 0 then 0 else cChar_strcmp s t)"
| "cChar_strcmp _ _ = 0"

definition cChar_stricmp :: "character list \<Rightarrow> character list \<Rightarrow> int" where
  "cChar_stricmp s t = cChar_strcmp (map cChar_getLowercase s) (map cChar_getLowercase t)"

text \<open>\<open>strncpy\<close> copies up to \<open>cnt\<close> characters and fills with zeros; the last one is cut.\<close>

definition cChar_strncpy :: "character list \<Rightarrow> character list \<Rightarrow> nat \<Rightarrow> character list" where
  "cChar_strncpy dest src cnt =
     (let s = take cnt (takeWhile (\<lambda>c. c \<noteq> 0) src);
          dest = memcpy_at dest 0 (s @ replicate (cnt - length s) 0) cnt
      in dest[cnt - 1 := 0])"

text \<open>\<open>strncat\<close> appends at most \<open>n\<close> characters and a terminator.\<close>

definition cChar_strappend :: "character list \<Rightarrow> character list \<Rightarrow> nat \<Rightarrow> character list" where
  "cChar_strappend dest src cnt =
     (let destLength = cChar_getStrlen dest;
          toBeCopied = cnt - destLength - 1;
          s = take toBeCopied (takeWhile (\<lambda>c. c \<noteq> 0) src);
          dest = memcpy_at dest destLength (s @ [0]) (length s + 1)
      in dest[cnt - 1 := 0])"

text \<open>A wide character is the signed 32 bit \<open>wchar_t\<close> of Linux.\<close>

type_synonym unichar = "32 word"

definition cChar_covert2Ascii :: "unichar \<Rightarrow> character" where
  "cChar_covert2Ascii c = (if sint c < 0x80 then ucast c else ch CHR ''?'')"

definition cChar_covert2Ascii_array :: "character list \<Rightarrow> nat \<Rightarrow> unichar list \<Rightarrow> character list" where
  "cChar_covert2Ascii_array output outputLength string =
     (let len = t_min (length (takeWhile (\<lambda>c. c \<noteq> 0) string) + 1) outputLength
      in (memcpy_at output 0 (map cChar_covert2Ascii (take len string)) len)[len - 1 := 0])"

text \<open>
  \<open>covert2string\<close> from characters of \<open>stringCharSize\<close> bytes in memory. A wide character is cast
  to \<open>character\<close> before \<open>covert2Ascii\<close> widens it again.
\<close>

fun covert2string_loop :: "nat \<Rightarrow> uint8 list \<Rightarrow> nat \<Rightarrow> nat \<Rightarrow> character list \<Rightarrow> character list res" where
  "covert2string_loop w string i 0 output = Inr output"
| "covert2string_loop w string i (Suc k) output =
     (if w = 2 then
        covert2string_loop w string (i + 1) k
          (output[i := cChar_covert2Ascii (scast (ucast (cLittleEndian_readUint16 (drop (2 * i) string)) :: character))])
      else if w = 4 then
        covert2string_loop w string (i + 1) k
          (output[i := cChar_covert2Ascii (scast (ucast (cLittleEndian_readUint32 (drop (4 * i) string)) :: character))])
      else Inl EXCEPTION_ASSERTION)"

definition cChar_covert2string :: "character list \<Rightarrow> nat \<Rightarrow> uint8 list \<Rightarrow> nat \<Rightarrow> character list res" where
  "cChar_covert2string output cnt string stringCharSize =
     (if stringCharSize = 1 then Inr (cChar_strncpy output string cnt)
      else bind_res (covert2string_loop stringCharSize string 0 cnt output) (\<lambda>output.
        Inr (output[cnt - 1 := 0])))"

subsection \<open>The state of a string, constructors, assignment\<close>

record cString =
  m_buffer :: "character list"
  m_stringLength :: nat

definition cString_m_stringNegativeInteger :: "character list" where
  "cString_m_stringNegativeInteger = lit ''-'' @ [0]"

definition cString_m_baseStrip :: "character list" where
  "cString_m_baseStrip = lit ''0123456789ABCDEFGHIJKLMNOPQRSTUVWXYZ!@#$%^&*()-+'' @ [0]"

definition cString_createEmptyString :: cString where
  "cString_createEmptyString = \<lparr>m_buffer = [cChar_getNullCharacter], m_stringLength = 0\<rparr>"

text \<open>The constructor from a C string, \<open>None\<close> is the null pointer.\<close>

definition cString_new :: "character list option \<Rightarrow> cString" where
  "cString_new s =
     (case s of
        None \<Rightarrow> cString_createEmptyString
      | Some s \<Rightarrow>
          (let n = cChar_getStrlen s;
               buf = memcpy_at (replicate (n + 1) 0) 0 s n
           in \<lparr>m_buffer = buf[n := cChar_getNullCharacter], m_stringLength = n\<rparr>))"

definition cString_rearrangeStringVector :: "cString \<Rightarrow> cString" where
  "cString_rearrangeStringVector s =
     (let n = cChar_getStrlen (m_buffer s)
      in \<lparr>m_buffer = take (n + 1) (m_buffer s), m_stringLength = n\<rparr>)"

text \<open>\<open>operator =\<close> and the copy constructor.\<close>

definition cString_assign :: "cString \<Rightarrow> cString" where
  "cString_assign other =
     cString_rearrangeStringVector \<lparr>m_buffer = m_buffer other, m_stringLength = 0\<rparr>"

definition cString_new_copy :: "cString \<Rightarrow> cString" where
  "cString_new_copy other = \<lparr>m_buffer = m_buffer other, m_stringLength = m_stringLength other\<rparr>"

definition cString_assign_chars :: "character list \<Rightarrow> cString" where
  "cString_assign_chars other = cString_assign (cString_new (Some other))"

definition cString_new_char :: "character \<Rightarrow> cString" where
  "cString_new_char c = cString_assign (cString_new (Some [c, cChar_getNullCharacter]))"

definition cString_length :: "cString \<Rightarrow> nat" where
  "cString_length s = m_stringLength s"

definition cString_getASCIIstring :: "cString \<Rightarrow> character list" where
  "cString_getASCIIstring s =
     (let newLen = cString_length s + 1 in memcpy_at (replicate newLen 0) 0 (m_buffer s) newLen)"

text \<open>The wide characters; a \<open>char\<close> is sign extended.\<close>

definition cString_getUnicodeString :: "cString \<Rightarrow> unichar list" where
  "cString_getUnicodeString s =
     (let newLen = cString_length s + 1; len = newLen - 1
      in (memcpy_at (replicate newLen 0) 0 (map scast (m_buffer s)) len)[len := 0])"

text \<open>The conversion of a length or an index to \<open>int\<close>.\<close>

definition to_int :: "nat \<Rightarrow> int" where
  "to_int n = sint (word_of_nat n :: uint32)"

text \<open>
  \<open>operator []\<close> takes an \<open>int\<close> and goes through the checked access of the array, which converts it
  back to an \<open>uint\<close>: a negative index is out of range.
\<close>

definition cString_get :: "cString \<Rightarrow> nat \<Rightarrow> character res" where
  "cString_get s i =
     (let index = to_int i in
      if index < 0 \<or> nat index \<ge> length (m_buffer s) then Inl EXCEPTION_OUT_OF_RANGE
      else Inr (m_buffer s ! nat index))"

text \<open>\<open>getBuffer (lockSize)\<close> makes room; the new places hold \<open>fresh\<close>.\<close>

definition cString_getBuffer :: "cString \<Rightarrow> character list \<Rightarrow> nat \<Rightarrow> cString" where
  "cString_getBuffer s fresh lockSize =
     (if lockSize \<le> length (m_buffer s) then s
      else s\<lparr>m_buffer := m_buffer s @ take (lockSize - length (m_buffer s)) fresh\<rparr>)"

subsection \<open>Concatenation\<close>

text \<open>
  \<open>concat\<close> cuts the terminator off, appends the other buffer with its terminator and measures
  the string again. \<open>operator +=\<close> on a character shifts the terminator by one.
\<close>

definition cString_concat :: "cString \<Rightarrow> cString \<Rightarrow> cString" where
  "cString_concat s other =
     cString_rearrangeStringVector (s\<lparr>m_buffer := take (cString_length s) (m_buffer s) @ m_buffer other\<rparr>)"

definition cString_append_char :: "cString \<Rightarrow> character \<Rightarrow> cString" where
  "cString_append_char s c =
     (if c = cChar_getNullCharacter then s
      else
        let buf = m_buffer s @ [0];
            buf = buf[length buf - 1 := cChar_getNullCharacter];
            buf = buf[length buf - 2 := c]
        in \<lparr>m_buffer = buf, m_stringLength = m_stringLength s + 1\<rparr>)"

definition cString_plus :: "cString \<Rightarrow> cString \<Rightarrow> cString" where
  "cString_plus s other = cString_concat (cString_new_copy s) other"

definition cString_plus_chars :: "cString \<Rightarrow> character list \<Rightarrow> cString" where
  "cString_plus_chars s str = cString_plus s (cString_new (Some str))"

definition cString_plus_char :: "cString \<Rightarrow> character \<Rightarrow> cString" where
  "cString_plus_char s c =
     (if c = cChar_getNullCharacter then s else cString_append_char (cString_new_copy s) c)"

fun cString_dup_loop :: "cString \<Rightarrow> nat \<Rightarrow> cString \<Rightarrow> cString" where
  "cString_dup_loop object 0 ret = ret"
| "cString_dup_loop object (Suc k) ret = cString_dup_loop object k (cString_concat ret object)"

definition cString_dup :: "cString \<Rightarrow> nat \<Rightarrow> cString" where
  "cString_dup object number = cString_dup_loop object number (cString_new None)"

definition cString_pad :: "cString \<Rightarrow> nat \<Rightarrow> character \<Rightarrow> cString" where
  "cString_pad object number padding =
     (if cString_length object \<ge> number then object
      else cString_plus object
             (cString_dup (cString_new (Some (lit '' '' @ [0]))) (number - cString_length object)))"

subsection \<open>Numbers\<close>

text \<open>
  The digit loop. It divides by the base, never ends for base one (then it is undefined here),
  and reads the strip behind its end for a base that is too large.
\<close>

partial_function (option) cString_digits :: "uint64 \<Rightarrow> uint64 \<Rightarrow> cString \<Rightarrow> cString res option" where
  "cString_digits base x s =
     (if x = 0 then Some (Inr s)
      else if base = 0 then Some (Inl UNDEFINED_BEHAVIOUR)
      else if unat (x mod base) < length cString_m_baseStrip then
        cString_digits base (x div base)
          (cString_assign (cString_plus (cString_new_char (cString_m_baseStrip ! unat (x mod base))) s))
      else Some (Inl UNDEFINED_BEHAVIOUR))"

text \<open>
  The assertion on the base compiles to nothing in a release build; it is the contract of the
  constructors, and a base that it forbids has no defined result here.
\<close>

definition cString_new_uint64 :: "uint64 \<Rightarrow> uint64 \<Rightarrow> cString res option" where
  "cString_new_uint64 number base =
     (if \<not> unat base < cChar_getStrlen cString_m_baseStrip then Some (Inl UNDEFINED_BEHAVIOUR)
      else
        cString_digits base number
          (if number = 0 then cString_assign (cString_new_char (cString_m_baseStrip ! 0))
           else cString_createEmptyString))"

definition cString_new_uint32 :: "uint32 \<Rightarrow> uint64 \<Rightarrow> cString res option" where
  "cString_new_uint32 number base =
     (if \<not> unat base < cChar_getStrlen cString_m_baseStrip then Some (Inl UNDEFINED_BEHAVIOUR)
      else
        cString_digits base (ucast number)
          (if number = 0 then cString_assign (cString_new_char (cString_m_baseStrip ! 0))
           else cString_createEmptyString))"

definition cString_new_int64 :: "uint64 \<Rightarrow> uint64 \<Rightarrow> cString res option" where
  "cString_new_int64 number base =
     (case t_abs number of
        Inl e \<Rightarrow> Some (Inl e)
      | Inr nm \<Rightarrow>
          let s = (if number <s 0 then
                     cString_concat cString_createEmptyString (cString_new (Some cString_m_stringNegativeInteger))
                   else cString_createEmptyString)
          in map_option (map_sum id (cString_concat s)) (cString_new_uint64 nm base))"

definition cString_new_int32 :: "uint32 \<Rightarrow> uint64 \<Rightarrow> cString res option" where
  "cString_new_int32 number base =
     (case t_abs number of
        Inl e \<Rightarrow> Some (Inl e)
      | Inr nm \<Rightarrow>
          let s = (if number <s 0 then
                     cString_concat cString_createEmptyString (cString_new (Some cString_m_stringNegativeInteger))
                   else cString_createEmptyString)
          in map_option (map_sum id (cString_concat s)) (cString_new_uint32 nm base))"

subsection \<open>Parts\<close>


definition cString_part :: "cString \<Rightarrow> nat \<Rightarrow> nat \<Rightarrow> cString" where
  "cString_part s index1 index2 =
     (if index1 > index2 then cString_new None
      else
        let index1 = (if index1 > cString_length s then cString_length s else index1);
            index2 = (if index2 > cString_length s then cString_length s else index2)
        in if index1 = index2 then cString_new None
           else
             let buf = take (index2 - index1 + 1) (drop index1 (m_buffer s))
             in cString_rearrangeStringVector
                  \<lparr>m_buffer = buf[index2 - index1 := 0], m_stringLength = 0\<rparr>)"

text \<open>\<open>index + size\<close> is computed in \<open>uint\<close>.\<close>

definition cString_mid :: "cString \<Rightarrow> nat \<Rightarrow> int \<Rightarrow> cString" where
  "cString_mid s index sz =
     (if sz \<le> 0 then cString_new None
      else cString_part s index ((index + nat sz) mod 2 ^ 64))"

definition cString_left :: "cString \<Rightarrow> int \<Rightarrow> cString" where
  "cString_left s size0 =
     (let sz = (if size0 > to_int (cString_length s) then to_int (cString_length s) else size0)
      in if sz \<le> 0 then cString_new None
         else cString_rearrangeStringVector
                \<lparr>m_buffer = (take (nat sz + 1) (m_buffer s))[nat sz := 0], m_stringLength = 0\<rparr>)"

definition cString_right :: "cString \<Rightarrow> int \<Rightarrow> cString" where
  "cString_right s size0 =
     (let sz = (if size0 > to_int (cString_length s) then to_int (cString_length s) else size0)
      in if sz \<le> 0 then cString_new None
         else cString_new (Some (drop (cString_length s - nat sz) (m_buffer s))))"

subsection \<open>Comparison\<close>

datatype CompareType = LowerThan | EqualTo | GreaterThan

definition cString_compare_chars :: "cString \<Rightarrow> character list \<Rightarrow> CompareType" where
  "cString_compare_chars s other =
     (let ret = cChar_strcmp (m_buffer s) other
      in if ret < 0 then LowerThan else if ret \<ge> 1 then GreaterThan else EqualTo)"

definition cString_compare :: "cString \<Rightarrow> cString \<Rightarrow> CompareType" where
  "cString_compare s other = cString_compare_chars s (m_buffer other)"

definition cString_icompare_chars :: "cString \<Rightarrow> character list \<Rightarrow> CompareType" where
  "cString_icompare_chars s other =
     (let ret = cChar_stricmp (m_buffer s) other
      in if ret < 0 then LowerThan else if ret \<ge> 1 then GreaterThan else EqualTo)"

definition cString_icompare :: "cString \<Rightarrow> cString \<Rightarrow> CompareType" where
  "cString_icompare s other = cString_icompare_chars s (m_buffer other)"

definition cString_eq :: "cString \<Rightarrow> cString \<Rightarrow> bool" where
  "cString_eq s other \<longleftrightarrow> cString_compare s other = EqualTo"

definition cString_less :: "cString \<Rightarrow> cString \<Rightarrow> bool" where
  "cString_less s other \<longleftrightarrow> cString_icompare s other = LowerThan"

text \<open>The operators that \<open>MAKE_SIMPLE_OPERATORS\<close> derives.\<close>

definition cString_greater :: "cString \<Rightarrow> cString \<Rightarrow> bool" where
  "cString_greater s other \<longleftrightarrow> \<not> cString_less s other \<and> \<not> cString_eq s other"

definition cString_le :: "cString \<Rightarrow> cString \<Rightarrow> bool" where
  "cString_le s other \<longleftrightarrow> cString_less s other \<or> cString_eq s other"

definition cString_ge :: "cString \<Rightarrow> cString \<Rightarrow> bool" where
  "cString_ge s other \<longleftrightarrow> \<not> cString_less s other"

subsection \<open>Case and blanks\<close>

text \<open>The loops of \<open>makeUpper\<close> and \<open>makeLower\<close> over the positions from \<open>i\<close>.\<close>

fun cString_case_loop :: "(character \<Rightarrow> character) \<Rightarrow> nat \<Rightarrow> nat \<Rightarrow> cString \<Rightarrow> cString" where
  "cString_case_loop f i 0 s = s"
| "cString_case_loop f i (Suc k) s =
     cString_case_loop f (i + 1) k (s\<lparr>m_buffer := (m_buffer s)[i := f (m_buffer s ! i)]\<rparr>)"

definition cString_makeUpper :: "cString \<Rightarrow> cString" where
  "cString_makeUpper s = cString_case_loop cChar_getUppercase 0 (cString_length s) s"

definition cString_makeLower :: "cString \<Rightarrow> cString" where
  "cString_makeLower s = cString_case_loop cChar_getLowercase 0 (cString_length s) s"

text \<open>The first loop of \<open>trim\<close>, with the number of characters left, and the backward loop.\<close>

fun cString_trim_front :: "character list \<Rightarrow> nat \<Rightarrow> nat \<Rightarrow> nat" where
  "cString_trim_front buf index 0 = index"
| "cString_trim_front buf index (Suc k) =
     (if cChar_isBlanket (buf ! index) then cString_trim_front buf (index + 1) k else index)"

text \<open>\<open>Suc i\<close> characters remain; the loop stops below \<open>index\<close>, before \<open>i\<close> can wrap.\<close>

fun cString_trim_back :: "character list \<Rightarrow> nat \<Rightarrow> nat \<Rightarrow> nat \<Rightarrow> nat" where
  "cString_trim_back buf index 0 sz = sz"
| "cString_trim_back buf index (Suc i) sz =
     (if i \<ge> index \<and> cChar_isBlanket (buf ! i) then cString_trim_back buf index i (sz - 1) else sz)"

definition cString_trim :: "cString \<Rightarrow> cString" where
  "cString_trim s =
     (let sz = cString_length s in
      if sz = 0 then s
      else
        let index = cString_trim_front (m_buffer s) 0 sz;
            sz = cString_trim_back (m_buffer s) index (cString_length s) (sz - index)
        in if index > 0 \<or> sz < cString_length s
           then cString_assign (cString_mid s index (to_int sz)) else s)"

fun cString_trimAllSpaces_loop :: "cString \<Rightarrow> nat \<Rightarrow> nat \<Rightarrow> bool \<Rightarrow> cString \<Rightarrow> cString" where
  "cString_trimAllSpaces_loop s i 0 firstSpace ret = ret"
| "cString_trimAllSpaces_loop s i (Suc k) firstSpace ret =
     (let c = m_buffer s ! i in
      if cChar_isBlanket c then
        (if firstSpace then cString_trimAllSpaces_loop s (i + 1) k False (cString_append_char ret c)
         else cString_trimAllSpaces_loop s (i + 1) k firstSpace ret)
      else cString_trimAllSpaces_loop s (i + 1) k True (cString_append_char ret c))"

definition cString_trimAllSpaces :: "cString \<Rightarrow> cString" where
  "cString_trimAllSpaces s0 =
     (let s = cString_trim s0
      in cString_assign (cString_trimAllSpaces_loop s 0 (cString_length s) True (cString_new None)))"

subsection \<open>Searching\<close>

text \<open>
  The scan of \<open>find\<close> from position \<open>j\<close>; it returns the first \<open>j\<close> that fails. The pattern
  is read through \<open>operator []\<close>.
\<close>

function cString_scan :: "character list \<Rightarrow> cString \<Rightarrow> nat \<Rightarrow> nat \<Rightarrow> nat \<Rightarrow> nat \<Rightarrow> nat res" where
  "cString_scan buf string ln on i j =
     (if j < ln \<and> j < i + on then
        (case cString_get string (j - i) of
           Inl e \<Rightarrow> Inl e
         | Inr c \<Rightarrow> if c = buf ! j then cString_scan buf string ln on i (j + 1) else Inr j)
      else Inr j)"
  by auto
termination by (relation "measure (\<lambda>(buf, string, ln, on, i, j). ln - j)") auto

definition cString_matches :: "cString \<Rightarrow> cString \<Rightarrow> nat \<Rightarrow> bool res" where
  "cString_matches s string i =
     bind_res (cString_get string 0) (\<lambda>c.
     if m_buffer s ! i = c then
       bind_res (cString_scan (m_buffer s) string (cString_length s) (cString_length string) i (i + 1)) (\<lambda>j.
       Inr (j = i + cString_length string))
     else Inr False)"

text \<open>The loop \<open>while (i < len)\<close>; the last argument counts the positions left.\<close>

fun cString_find_loop :: "cString \<Rightarrow> cString \<Rightarrow> nat \<Rightarrow> nat \<Rightarrow> nat res" where
  "cString_find_loop s string i 0 = Inr (cString_length s)"
| "cString_find_loop s string i (Suc k) =
     bind_res (cString_matches s string i) (\<lambda>match.
     if match then Inr i else cString_find_loop s string (i + 1) k)"

definition cString_find :: "cString \<Rightarrow> cString \<Rightarrow> nat \<Rightarrow> nat res" where
  "cString_find s string startIndex =
     (let ln = cString_length s; on = cString_length string; len = ln - on + 1 in
      if on = 0 then Inr startIndex
      else if ln < on then Inr ln
      else cString_find_loop s string startIndex (len - startIndex))"

text \<open>\<open>rfind\<close> reads both buffers directly.\<close>

function cString_rscan :: "character list \<Rightarrow> character list \<Rightarrow> nat \<Rightarrow> nat \<Rightarrow> nat \<Rightarrow> nat \<Rightarrow> nat" where
  "cString_rscan buf str ln on i j =
     (if j < ln \<and> j < i + on \<and> str ! (j - i) = buf ! j then cString_rscan buf str ln on i (j + 1) else j)"
  by auto
termination by (relation "measure (\<lambda>(buf, str, ln, on, i, j). ln - j)") auto

definition cString_rmatches :: "cString \<Rightarrow> cString \<Rightarrow> nat \<Rightarrow> bool" where
  "cString_rmatches s string i \<longleftrightarrow>
     m_buffer s ! i = m_buffer string ! 0 \<and>
     cString_rscan (m_buffer s) (m_buffer string) (cString_length s) (cString_length string) i (i + 1) =
       i + cString_length string"

fun cString_rfind_loop :: "cString \<Rightarrow> cString \<Rightarrow> nat \<Rightarrow> nat" where
  "cString_rfind_loop s string 0 = (if cString_rmatches s string 0 then 0 else cString_length s)"
| "cString_rfind_loop s string (Suc i) =
     (if cString_rmatches s string (Suc i) then Suc i else cString_rfind_loop s string i)"

definition cString_rfind :: "cString \<Rightarrow> cString \<Rightarrow> nat \<Rightarrow> nat" where
  "cString_rfind s string startIndex =
     (let ln = cString_length s; on = cString_length string in
      if on = 0 then startIndex
      else if ln = 0 then 0
      else if ln < on then ln
      else cString_rfind_loop s string (if startIndex \<ge> ln - on then ln - on else startIndex))"

text \<open>\<open>replace\<close> searches from the beginning again after every replacement.\<close>

partial_function (option) cString_replace :: "cString \<Rightarrow> cString \<Rightarrow> cString \<Rightarrow> cString res option" where
  "cString_replace s findString replaceString =
     (case cString_find s findString 0 of
        Inl e \<Rightarrow> Some (Inl e)
      | Inr pos \<Rightarrow>
          if pos \<noteq> cString_length s then
            cString_replace
              (cString_assign
                 (cString_plus
                    (cString_plus (cString_left s (to_int pos)) replaceString)
                    (cString_right s (to_int (cString_length s - pos - cString_length findString)))))
              findString replaceString
          else Some (Inr s))"

text \<open>The body of \<open>split\<close> runs once before the test.\<close>

partial_function (option) cString_split_loop ::
  "cString \<Rightarrow> cString \<Rightarrow> nat \<Rightarrow> nat \<Rightarrow> cString list \<Rightarrow> cString list res option"
where
  "cString_split_loop s divider index lastIndex ret =
     (case cString_find s divider (index + 1) of
        Inl e \<Rightarrow> Some (Inl e)
      | Inr index \<Rightarrow>
          let ret = ret @ [cString_part s lastIndex index];
              lastIndex = index + cString_length divider
          in if index \<noteq> cString_length s then cString_split_loop s divider index lastIndex ret
             else Some (Inr ret))"

definition cString_split :: "cString \<Rightarrow> cString \<Rightarrow> cString list res option" where
  "cString_split s divider = cString_split_loop s divider 0 0 []"

end
