(* ===== verification/XStringProps.thy ===== *)
theory XStringProps
  imports XString "HOL-Library.List_Lexorder"
begin

text \<open>
  What the string operations of XString do: each is evaluated on well formed strings, and the
  properties of numbers, parts, searching, replacing, splitting and ordering follow.
\<close>

subsection \<open>Strings that are well formed\<close>

text \<open>
  A string is well formed when its buffer holds the characters and one terminator. Every
  operation below is evaluated on well formed strings: its result is the well formed string of
  a list function, so each lemma is the preservation of the invariant and the refinement.
\<close>

definition cstr :: "character list \<Rightarrow> cString" where
  "cstr cs = \<lparr>m_buffer = cs @ [0], m_stringLength = length cs\<rparr>"

definition nonul :: "character list \<Rightarrow> bool" where
  "nonul cs \<longleftrightarrow> 0 \<notin> set cs"

definition cString_inv :: "cString \<Rightarrow> bool" where
  "cString_inv s \<longleftrightarrow> (\<exists>cs. nonul cs \<and> s = cstr cs)"

named_theorems cstr_simps

lemma cstr_fields [simp]: "m_buffer (cstr cs) = cs @ [0]" "m_stringLength (cstr cs) = length cs"
  by (simp_all add: cstr_def)

lemma cString_length_cstr [simp]: "cString_length (cstr cs) = length cs"
  by (simp add: cString_length_def)

lemma cstr_inject [simp]: "cstr a = cstr b \<longleftrightarrow> a = b"
  by (auto simp: cstr_def)

lemma nonul_simps [simp]:
  "nonul []" "nonul (c # cs) \<longleftrightarrow> c \<noteq> 0 \<and> nonul cs" "nonul (a @ b) \<longleftrightarrow> nonul a \<and> nonul b"
  "nonul (rev cs) \<longleftrightarrow> nonul cs"
  by (auto simp: nonul_def)

lemma nonul_sub [intro]:
  "nonul cs \<Longrightarrow> nonul (take n cs)" "nonul cs \<Longrightarrow> nonul (drop n cs)"
  "nonul cs \<Longrightarrow> nonul (dropWhile P cs)" "nonul cs \<Longrightarrow> nonul (takeWhile P cs)"
  "nonul cs \<Longrightarrow> nonul (filter P cs)"
  by (auto simp: nonul_def dest: in_set_takeD in_set_dropD set_dropWhileD set_takeWhileD)

lemma takeWhile_nonul [simp]: "nonul cs \<Longrightarrow> takeWhile (\<lambda>c. c \<noteq> 0) (cs @ 0 # r) = cs"
  by (induction cs) auto

lemma strlen_simp [simp]: "nonul cs \<Longrightarrow> cChar_getStrlen (cs @ 0 # r) = length cs"
  by (simp add: cChar_getStrlen_def)

lemma new_simps [cstr_simps]:
  "cString_createEmptyString = cstr []" "cString_new None = cstr []"
  "nonul cs \<Longrightarrow> cString_new (Some (cs @ 0 # r)) = cstr cs"
  by (auto simp: cString_createEmptyString_def cstr_def cChar_getNullCharacter_def cString_new_def Let_def
        memcpy_at_def list_update_append replicate_append_same [symmetric])

lemma rearrange_simp [cstr_simps]:
  "nonul cs \<Longrightarrow> cString_rearrangeStringVector \<lparr>m_buffer = cs @ 0 # r, m_stringLength = n\<rparr> = cstr cs"
  by (simp add: cString_rearrangeStringVector_def Let_def cstr_def)

lemma assign_simp [cstr_simps]: "nonul cs \<Longrightarrow> cString_assign (cstr cs) = cstr cs"
  using rearrange_simp [of cs "[]" 0] by (simp add: cString_assign_def)

lemma new_copy_simp [cstr_simps]: "cString_new_copy (cstr cs) = cstr cs"
  by (simp add: cString_new_copy_def cstr_def)

lemma new_char_simp [cstr_simps]: "c \<noteq> 0 \<Longrightarrow> cString_new_char c = cstr [c]"
  using new_simps(3) [of "[c]" "[]"] assign_simp [of "[c]"]
  by (simp add: cString_new_char_def cChar_getNullCharacter_def)

lemma concat_simp [cstr_simps]:
  "nonul a \<Longrightarrow> nonul b \<Longrightarrow> cString_concat (cstr a) (cstr b) = cstr (a @ b)"
  using rearrange_simp [of "a @ b" "[]" "length a"] by (simp add: cString_concat_def cstr_def cString_length_def)

lemma append_char_simp [cstr_simps]: "c \<noteq> 0 \<Longrightarrow> cString_append_char (cstr a) c = cstr (a @ [c])"
  by (simp add: cString_append_char_def cChar_getNullCharacter_def Let_def cstr_def list_update_append)

lemma plus_simp [cstr_simps]:
  "nonul a \<Longrightarrow> nonul b \<Longrightarrow> cString_plus (cstr a) (cstr b) = cstr (a @ b)"
  by (simp add: cString_plus_def cstr_simps)

lemma plus_char_simp [cstr_simps]: "c \<noteq> 0 \<Longrightarrow> cString_plus_char (cstr a) c = cstr (a @ [c])"
  by (simp add: cString_plus_char_def cstr_simps cChar_getNullCharacter_def)

lemma nonul_concat_replicate: "nonul cs \<Longrightarrow> nonul (concat (replicate n cs))"
  by (auto simp: nonul_def)

lemma dup_loop_simp:
  "nonul cs \<Longrightarrow> nonul r \<Longrightarrow> cString_dup_loop (cstr cs) n (cstr r) = cstr (r @ concat (replicate n cs))"
  by (induction n arbitrary: r) (simp_all add: cstr_simps)

lemma dup_simp [cstr_simps]: "nonul cs \<Longrightarrow> cString_dup (cstr cs) n = cstr (concat (replicate n cs))"
  by (simp add: cString_dup_def cstr_simps dup_loop_simp)

lemma concat_replicate_single: "concat (replicate n [c]) = replicate n c"
  by (induction n) auto

lemma pad_simp [cstr_simps]:
  "nonul cs \<Longrightarrow> cString_pad (cstr cs) n p = cstr (cs @ replicate (n - length cs) 32)"
  using new_simps(3) [of "[32]" "[]"]
  by (simp add: cString_pad_def lit_def cstr_simps concat_replicate_single nonul_def)

lemma terminate_take: "n \<le> length cs \<Longrightarrow> (take (Suc n) (cs @ [x]))[n := y] = take n cs @ [y]"
  by (subst take_Suc_conv_app_nth) (simp_all add: list_update_append)

lemma part_simp [cstr_simps]:
  "nonul cs \<Longrightarrow> cString_part (cstr cs) i j = cstr (take (j - i) (drop i cs))"
proof -
  assume n: "nonul cs"
  consider "i > j \<or> i \<ge> length cs \<or> i = j" | "i < j" "i < length cs" by linarith
  then show ?thesis
  proof cases
    case 1 then show ?thesis by (auto simp: cString_part_def Let_def cstr_simps)
  next
    case 2
    define d where "d = min j (length cs) - i"
    have u: "(take (Suc d) (drop i (cs @ [0])))[d := 0] = take d (drop i cs) @ [0]"
      using terminate_take [of d "drop i cs"] 2 by (simp add: d_def)
    have e: "take (j - i) (drop i cs) = take d (drop i cs)"
      by (simp add: d_def min_def)
    have "cString_part (cstr cs) i j =
        cString_rearrangeStringVector \<lparr>m_buffer = (take (Suc d) (drop i (cs @ [0])))[d := 0], m_stringLength = 0\<rparr>"
      using 2 by (simp add: cString_part_def Let_def d_def min_def)
    also have "\<dots> = cstr (take d (drop i cs))"
      unfolding u using rearrange_simp [of "take d (drop i cs)" "[]" 0] n by auto
    finally show ?thesis by (simp add: e)
  qed
qed

lemma mid_simp [cstr_simps]:
  "nonul cs \<Longrightarrow> int i + sz < 2 ^ 64 \<Longrightarrow> cString_mid (cstr cs) i sz = cstr (take (nat sz) (drop i cs))"
  by (auto simp: cString_mid_def cstr_simps)

lemma to_int_small: "n < 2 ^ 31 \<Longrightarrow> to_int n = int n"
  by (simp add: to_int_def signed_of_nat signed_take_bit_int_eq_self)

lemma get_simp: "i < length cs \<Longrightarrow> length cs < 2 ^ 31 \<Longrightarrow> cString_get (cstr cs) i = Inr (cs ! i)"
  by (simp add: cString_get_def to_int_small nth_append)

lemma left_simp [cstr_simps]:
  "nonul cs \<Longrightarrow> length cs < 2 ^ 31 \<Longrightarrow> cString_left (cstr cs) k = cstr (take (nat k) cs)"
proof -
  assume a: "nonul cs" "length cs < 2 ^ 31"
  define n where "n = nat (min k (int (length cs)))"
  have n: "n \<le> length cs" by (auto simp: n_def)
  have "(take (Suc n) (cs @ [0]))[n := 0] = take n cs @ [0]"
    using n by (rule terminate_take)
  then have r: "cString_rearrangeStringVector \<lparr>m_buffer = (take (Suc n) (cs @ [0]))[n := 0], m_stringLength = 0\<rparr> = cstr (take n cs)"
    using rearrange_simp [of "take n cs" "[]" 0] a by auto
  show ?thesis
  proof (cases "k \<le> 0 \<or> length cs = 0")
    case True then show ?thesis using a by (auto simp: cString_left_def Let_def to_int_small cstr_simps)
  next
    case False
    then have "cString_left (cstr cs) k = cstr (take n cs)"
      using r a by (auto simp: cString_left_def Let_def to_int_small n_def min_def split: if_splits)
    also have "take n cs = take (nat k) cs"
      by (auto simp: n_def min_def)
    finally show ?thesis .
  qed
qed

lemma right_simp [cstr_simps]:
  "nonul cs \<Longrightarrow> length cs < 2 ^ 31 \<Longrightarrow> cString_right (cstr cs) k = cstr (drop (length cs - nat k) cs)"
proof -
  assume a: "nonul cs" "length cs < 2 ^ 31"
  have d: "cString_new (Some (drop (length cs - m) (cs @ [0]))) = cstr (drop (length cs - m) cs)" for m
    using new_simps(3) [of "drop (length cs - m) cs" "[]"] a by auto
  show ?thesis
    using a d [of "nat k"] d [of "length cs"] new_simps(3) [of cs "[]"]
    by (auto simp: cString_right_def Let_def to_int_small new_simps(2))
qed

declare cString_scan.simps [simp del] cString_rscan.simps [simp del]

subsection \<open>Numbers as digits\<close>

definition is_numeral :: "nat \<Rightarrow> nat \<Rightarrow> nat list \<Rightarrow> bool" where
  "is_numeral b n ds \<longleftrightarrow>
     ds \<noteq> [] \<and> (\<forall>d \<in> set ds. d < b) \<and> foldl (\<lambda>v d. v * b + d) 0 ds = n \<and> (hd ds = 0 \<longrightarrow> ds = [0])"

abbreviation strip :: "nat \<Rightarrow> character" where
  "strip d \<equiv> cString_m_baseStrip ! d"

lemma strip_unfold: "cString_m_baseStrip = map of_char (''0123456789ABCDEFGHIJKLMNOPQRSTUVWXYZ!@#$%^&*()-+'' @ [CHR 0x00])"
  by (simp add: cString_m_baseStrip_def lit_def)

lemma length_baseStrip: "length cString_m_baseStrip = 49"
  by (simp add: cString_m_baseStrip_def lit_def)

lemma strip_nonzero: "d < 48 \<Longrightarrow> strip d \<noteq> 0"
proof -
  have "\<forall>d \<in> set [0..<48]. strip d \<noteq> 0"
    by code_simp
  then show "d < 48 \<Longrightarrow> strip d \<noteq> 0" by simp
qed

lemma nonul_strip: "\<forall>d \<in> set ds. d < 48 \<Longrightarrow> nonul (map strip ds)"
  using strip_nonzero by (auto simp: nonul_def)

lemma is_numeral_snoc:
  "is_numeral b n ds \<Longrightarrow> 0 < n \<Longrightarrow> d < b \<Longrightarrow> is_numeral b (n * b + d) (ds @ [d])"
  by (auto simp: is_numeral_def)

lemma is_numeral_digit: "d < b \<Longrightarrow> is_numeral b d [d]"
  by (simp add: is_numeral_def)

lemma digits_simp:
  assumes "2 \<le> base" "base \<le> 48" "\<forall>d \<in> set r. d < 48" "x \<noteq> 0"
  shows "\<exists>ds. cString_digits base x (cstr (map strip r)) = Some (Inr (cstr (map strip (ds @ r)))) \<and>
              is_numeral (unat base) (unat x) ds"
  using assms(3,4)
proof (induction "unat x" arbitrary: x r rule: less_induct)
  case less
  let ?b = "unat base" let ?d = "unat (x mod base)"
  have b: "2 \<le> ?b" "?b \<le> 48"
    using assms(1,2) by (simp_all add: word_le_nat_alt)
  have b0: "base \<noteq> 0" using b by auto
  have d: "?d < ?b" "?d = unat x mod ?b" and q: "unat (x div base) = unat x div ?b"
    using b by (simp_all add: unat_mod_distrib unat_div_distrib)
  have d48: "?d < 48" using d(1) b(2) by linarith
  have step: "cString_digits base x (cstr (map strip r)) = cString_digits base (x div base) (cstr (map strip (?d # r)))"
    using less.prems b0 d48 nonul_strip [OF less.prems(1)] strip_nonzero [OF d48]
    by (subst cString_digits.simps) (simp add: length_baseStrip cstr_simps)
  show ?case
  proof (cases "x div base = 0")
    case True
    then have "unat x div ?b = 0" using q by simp
    then have "unat x < ?b" using b by (simp add: div_eq_0_iff)
    then have x: "unat x = ?d" using d by simp
    have "cString_digits base x (cstr (map strip r)) = Some (Inr (cstr (map strip ([?d] @ r))))"
      unfolding step True by (subst cString_digits.simps) simp
    then show ?thesis using is_numeral_digit [OF d(1)] x by metis
  next
    case False
    have "0 < unat x" using less.prems(2) by (simp add: unat_gt_0)
    then have lt: "unat (x div base) < unat x"
      unfolding q using b by (intro div_less_dividend) simp_all
    have r: "\<forall>e \<in> set (?d # r). e < 48" using less.prems(1) d48 by simp
    obtain ds where ds: "cString_digits base (x div base) (cstr (map strip (?d # r))) = Some (Inr (cstr (map strip (ds @ ?d # r))))"
      "is_numeral ?b (unat (x div base)) ds"
      using less.hyps [OF lt r False] by blast
    have "0 < unat (x div base)" using False by (simp add: unat_gt_0)
    then have "is_numeral ?b (unat (x div base) * ?b + ?d) (ds @ [?d])"
      using is_numeral_snoc [OF ds(2) _ d(1)] by simp
    moreover have "unat (x div base) * ?b + ?d = unat x"
      unfolding q d(2) by simp
    ultimately have n: "is_numeral ?b (unat x) (ds @ [?d])" by simp
    have e: "ds @ ?d # r = (ds @ [?d]) @ r" by simp
    show ?thesis using ds(1) n unfolding step e by blast
  qed
qed

lemma foldl_numeral_le: "r * b ^ length ds \<le> foldl (\<lambda>v d. v * b + d) r ds" for b :: nat
proof (induction ds arbitrary: r)
  case (Cons d ds)
  have "r * b ^ length (d # ds) \<le> (r * b + d) * b ^ length ds" by (simp add: algebra_simps)
  also have "\<dots> \<le> foldl (\<lambda>v d. v * b + d) r (d # ds)" using Cons [of "r * b + d"] by simp
  finally show ?case .
qed simp

lemma numeral_length:
  assumes "is_numeral b n ds" "2 \<le> b" "n < 2 ^ k"
  shows "length ds \<le> Suc k"
proof (cases ds)
  case (Cons d es)
  show ?thesis
  proof (cases "d = 0")
    case False
    have "2 ^ length es \<le> b ^ length es" using assms(2) by (rule power_mono) simp
    also have "\<dots> \<le> d * b ^ length es" using False by simp
    also have "\<dots> \<le> n" using assms(1) foldl_numeral_le [of d b es] Cons by (simp add: is_numeral_def)
    also note assms(3)
    finally have "length es < k" by (rule power_less_imp_less_exp [rotated]) simp
    then show ?thesis using Cons by simp
  qed (use assms(1) Cons in \<open>simp add: is_numeral_def\<close>)
qed simp

lemma base_strip_length: "cChar_getStrlen cString_m_baseStrip = 48"
  by code_simp

lemma new_uint64_simp:
  assumes "2 \<le> base" "base < 48"
  shows "\<exists>ds. cString_new_uint64 n base = Some (Inr (cstr (map strip ds))) \<and> is_numeral (unat base) (unat n) ds"
proof -
  have b: "unat base < cChar_getStrlen cString_m_baseStrip" "base \<le> 48"
    using assms(2) by (simp add: base_strip_length word_less_nat_alt, simp)
  show ?thesis
  proof (cases "n = 0")
    case True
    have "2 \<le> unat base" using assms by (simp add: word_le_nat_alt)
    moreover have "cString_new_uint64 n base = Some (Inr (cstr (map strip [0])))"
      using True b strip_nonzero [of 0] by (subst cString_new_uint64_def, subst cString_digits.simps) (simp add: cstr_simps)
    ultimately show ?thesis
      using True is_numeral_digit [of 0 "unat base"] by (intro exI [of _ "[0]"]) simp
  next
    case False
    then show ?thesis
      using digits_simp [OF assms(1) b(2), of "[]" n] b by (simp add: cString_new_uint64_def cstr_simps)
  qed
qed

lemma new_uint_base:
  assumes "48 \<le> base"
  shows "cString_new_uint64 n base = Some (Inl UNDEFINED_BEHAVIOUR)" "cString_new_uint32 k base = Some (Inl UNDEFINED_BEHAVIOUR)"
  using assms by (simp_all add: cString_new_uint64_def cString_new_uint32_def base_strip_length word_le_nat_alt)

lemma unat_ucast_up: "LENGTH('a) \<le> LENGTH('b) \<Longrightarrow> unat (ucast n :: 'b::len word) = unat n"
  for n :: "'a::len word"
proof -
  assume "LENGTH('a) \<le> LENGTH('b)"
  then have "unat n < 2 ^ LENGTH('b)"
    using unsigned_less [of n, where 'a = nat] power_increasing [of "LENGTH('a)" "LENGTH('b)" "2 :: nat"] by linarith
  then show ?thesis
    unfolding unsigned_ucast_eq unsigned_take_bit_eq by (rule take_bit_nat_eq_self)
qed

lemma new_uint32_64: "cString_new_uint32 n base = cString_new_uint64 (ucast n) base"
proof -
  have "unat (ucast n :: uint64) = unat n"
    by (rule unat_ucast_up) simp
  then have "(ucast n :: uint64) = 0 \<longleftrightarrow> n = 0"
    by (simp flip: unat_eq_zero)
  then show ?thesis by (simp add: cString_new_uint32_def cString_new_uint64_def)
qed

lemma uint_word_of_nonneg: "0 \<le> x \<Longrightarrow> x < 2 ^ LENGTH('a) \<Longrightarrow> uint (word_of_int x :: 'a::len word) = x"
  by (simp add: unsigned_of_int take_bit_int_eq_self)

lemma t_abs_least: "sint n = - (2 ^ (LENGTH('a) - 1)) \<Longrightarrow> t_abs n = Inl UNDEFINED_BEHAVIOUR" for n :: "'a::len word"
  by (simp add: t_abs_def word_sless_alt)

lemma t_abs_value:
  fixes n :: "'a::len word"
  assumes "sint n \<noteq> - (2 ^ (LENGTH('a) - 1))"
  shows "\<exists>a. t_abs n = Inr a \<and> unat a = nat \<bar>sint n\<bar>"
proof -
  have "(2 :: int) ^ (LENGTH('a) - 1) < 2 ^ LENGTH('a)"
    by (rule power_strict_increasing) simp_all
  then have b: "\<bar>sint n\<bar> < 2 ^ LENGTH('a)"
    using sint_ge [of n] sint_lt [of n] by linarith
  have "t_abs n = Inr (word_of_int \<bar>sint n\<bar>)"
    using assms by (simp add: t_abs_def word_sless_alt abs_if)
  moreover have "uint (word_of_int \<bar>sint n\<bar> :: 'a word) = \<bar>sint n\<bar>"
    using uint_word_of_nonneg [OF abs_ge_zero b] .
  ultimately show ?thesis by (metis nat_uint_eq)
qed

lemma nonul_strip_numeral: "is_numeral b n ds \<Longrightarrow> b \<le> 48 \<Longrightarrow> nonul (map strip ds)"
  by (rule nonul_strip) (auto simp: is_numeral_def)

lemma minus_sign: "nonul (lit ''-'')" "cString_new (Some cString_m_stringNegativeInteger) = cstr (lit ''-'')"
  using new_simps(3) [of "lit ''-''" "[]"] by (simp_all add: lit_def cString_m_stringNegativeInteger_def)

lemma new_int64_simp:
  assumes "2 \<le> base" "base < 48" "sint n \<noteq> - (2 ^ 63)"
  shows "\<exists>ds. cString_new_int64 n base =
                Some (Inr (cstr ((if sint n < 0 then lit ''-'' else []) @ map strip ds))) \<and>
              is_numeral (unat base) (nat \<bar>sint n\<bar>) ds"
proof -
  obtain a where a: "t_abs n = Inr a" "unat a = nat \<bar>sint n\<bar>"
    using t_abs_value [of n] assms(3) by auto
  obtain ds where ds: "cString_new_uint64 a base = Some (Inr (cstr (map strip ds)))"
    "is_numeral (unat base) (nat \<bar>sint n\<bar>) ds"
    using new_uint64_simp [OF assms(1,2), of "a"] a(2) by auto
  have b: "unat base \<le> 48" using assms(2) by (simp add: word_less_nat_alt)
  show ?thesis
    using ds a(1) minus_sign nonul_strip_numeral [OF ds(2) b]
    by (auto simp: cString_new_int64_def word_sless_alt cstr_simps Let_def)
qed

lemma new_int32_simp:
  assumes "2 \<le> base" "base < 48" "sint n \<noteq> - (2 ^ 31)"
  shows "\<exists>ds. cString_new_int32 n base =
                Some (Inr (cstr ((if sint n < 0 then lit ''-'' else []) @ map strip ds))) \<and>
              is_numeral (unat base) (nat \<bar>sint n\<bar>) ds"
proof -
  obtain a where a: "t_abs n = Inr a" "unat a = nat \<bar>sint n\<bar>"
    using t_abs_value [of n] assms(3) by auto
  obtain ds where ds: "cString_new_uint32 a base = Some (Inr (cstr (map strip ds)))"
    "is_numeral (unat base) (nat \<bar>sint n\<bar>) ds"
    using new_uint64_simp [OF assms(1,2), of "ucast a"] a(2) by (auto simp: new_uint32_64 unat_ucast_up)
  have b: "unat base \<le> 48" using assms(2) by (simp add: word_less_nat_alt)
  show ?thesis
    using ds a(1) minus_sign nonul_strip_numeral [OF ds(2) b]
    by (auto simp: cString_new_int32_def word_sless_alt cstr_simps Let_def)
qed

lemma new_int_least:
  "sint n = - (2 ^ 63) \<Longrightarrow> cString_new_int64 n base = Some (Inl UNDEFINED_BEHAVIOUR)"
  "sint k = - (2 ^ 31) \<Longrightarrow> cString_new_int32 k base = Some (Inl UNDEFINED_BEHAVIOUR)"
  by (simp_all add: cString_new_int64_def cString_new_int32_def t_abs_least)

subsection \<open>The order of the strings\<close>

lemma strcmp_simp:
  "nonul a \<Longrightarrow> nonul b \<Longrightarrow>
     cChar_strcmp (a @ [0]) (b @ [0]) = (if a = b then 0 else if a < b then - 1 else 1)"
proof (induction a arbitrary: b)
  case Nil
  then show ?case by (cases b) (auto simp: word_gt_0)
next
  case (Cons c a)
  show ?case
  proof (cases b)
    case Nil then show ?thesis using Cons.prems by (simp add: word_gt_0)
  next
    case (Cons d b')
    then show ?thesis
      using Cons.IH [of b'] Cons.prems by (cases "c < d"; cases "d < c") auto
  qed
qed

lemma compare_simp [cstr_simps]:
  "nonul a \<Longrightarrow> nonul b \<Longrightarrow>
     cString_compare (cstr a) (cstr b) = (if a = b then EqualTo else if a < b then LowerThan else GreaterThan)"
  by (simp add: cString_compare_def cString_compare_chars_def strcmp_simp)

lemma getLowercase_0 [simp]: "cChar_getLowercase 0 = 0"
  by (simp add: cChar_getLowercase_def ch_def word_sle_eq)

lemma getLowercase_eq_0 [simp]: "cChar_getLowercase c = 0 \<longleftrightarrow> c = 0"
proof
  assume a: "cChar_getLowercase c = 0"
  show "c = 0"
  proof (cases "ch CHR ''A'' \<le>s c \<and> c \<le>s ch CHR ''Z''")
    case True
    then have "c + 32 = 0"
      using a by (simp add: cChar_getLowercase_def ch_def add.commute)
    then have "c = 224" by (simp add: eq_neg_iff_add_eq_0 [symmetric])
    then show ?thesis using True by (simp add: ch_def word_sle_eq)
  qed (use a in \<open>auto simp: cChar_getLowercase_def\<close>)
qed simp

lemma nonul_map_lower [simp]: "nonul (map cChar_getLowercase cs) \<longleftrightarrow> nonul cs"
  by (auto simp: nonul_def)

lemma icompare_simp [cstr_simps]:
  "nonul a \<Longrightarrow> nonul b \<Longrightarrow>
     cString_icompare (cstr a) (cstr b) =
       (let a = map cChar_getLowercase a; b = map cChar_getLowercase b
        in if a = b then EqualTo else if a < b then LowerThan else GreaterThan)"
  by (simp add: cString_icompare_def cString_icompare_chars_def cChar_stricmp_def strcmp_simp Let_def)

subsection \<open>Case and blanks\<close>

lemma case_loop_simp:
  "i + k = length cs \<Longrightarrow>
     cString_case_loop f i k (cstr cs) = cstr (take i cs @ map f (drop i cs))"
proof (induction k arbitrary: i cs)
  case (Suc k)
  then have i: "i < length cs" by simp
  have s: "cstr cs\<lparr>m_buffer := (m_buffer (cstr cs))[i := f (m_buffer (cstr cs) ! i)]\<rparr> = cstr (cs[i := f (cs ! i)])"
    using i by (simp add: cstr_def list_update_append nth_append)
  have e: "take (Suc i) (cs[i := f (cs ! i)]) @ map f (drop (Suc i) (cs[i := f (cs ! i)])) =
      take i cs @ map f (drop i cs)"
    using i by (simp add: take_Suc_conv_app_nth Cons_nth_drop_Suc [symmetric])
  have "cString_case_loop f (Suc i) k (cstr (cs[i := f (cs ! i)])) =
      cstr (take (Suc i) (cs[i := f (cs ! i)]) @ map f (drop (Suc i) (cs[i := f (cs ! i)])))"
    using Suc.prems by (intro Suc.IH) simp
  then show ?case
    by (simp only: cString_case_loop.simps s Suc_eq_plus1 [symmetric] e)
qed simp

lemma makeUpper_simp [cstr_simps]: "cString_makeUpper (cstr cs) = cstr (map cChar_getUppercase cs)"
  by (simp add: cString_makeUpper_def case_loop_simp)

lemma makeLower_simp [cstr_simps]: "cString_makeLower (cstr cs) = cstr (map cChar_getLowercase cs)"
  by (simp add: cString_makeLower_def case_loop_simp)

lemma trim_front_simp:
  "i + k \<le> length cs \<Longrightarrow>
     cString_trim_front (cs @ [0]) i k = i + length (takeWhile cChar_isBlanket (take k (drop i cs)))"
proof (induction k arbitrary: i)
  case (Suc k)
  then have "drop i cs = cs ! i # drop (Suc i) cs" by (simp add: Cons_nth_drop_Suc)
  then show ?case using Suc by (simp add: nth_append)
qed simp

lemma trim_back_simp:
  "i \<le> length cs \<Longrightarrow>
     cString_trim_back (cs @ [0]) index i sz = sz - length (takeWhile cChar_isBlanket (rev (drop index (take i cs))))"
proof (induction i arbitrary: sz)
  case (Suc i)
  have t: "take (Suc i) cs = take i cs @ [cs ! i]"
    using Suc.prems by (simp add: take_Suc_conv_app_nth)
  show ?case
  proof (cases "i \<ge> index")
    case True
    then have "drop index (take (Suc i) cs) = drop index (take i cs) @ [cs ! i]"
      using Suc.prems by (simp add: t)
    then show ?thesis using Suc True by (simp add: nth_append)
  next
    case False
    then have "drop index (take (Suc i) cs) = []" using Suc.prems by simp
    then show ?thesis using False by simp
  qed
qed simp

definition trimmed :: "character list \<Rightarrow> character list" where
  "trimmed cs = rev (dropWhile cChar_isBlanket (rev (dropWhile cChar_isBlanket cs)))"

lemma trim_simp [cstr_simps]:
  assumes "nonul cs" "length cs < 2 ^ 31"
  shows "cString_trim (cstr cs) = cstr (trimmed cs)"
proof -
  define front where "front = length (takeWhile cChar_isBlanket cs)"
  define r where "r = dropWhile cChar_isBlanket cs"
  define bk where "bk = length (takeWhile cChar_isBlanket (rev r))"
  have cs: "drop front cs = r" "length cs = front + length r"
    unfolding front_def r_def
    by (simp_all only: dropWhile_eq_drop length_drop le_add_diff_inverse length_takeWhile_le)
  have b: "bk \<le> length r" unfolding bk_def by (metis length_rev length_takeWhile_le)
  have tr: "trimmed cs = take (length r - bk) r"
    unfolding trimmed_def r_def [symmetric] bk_def by (simp add: dropWhile_eq_drop rev_drop)
  have f: "cString_trim_front (cs @ [0]) 0 (length cs) = front"
    by (simp add: trim_front_simp front_def)
  have s: "cString_trim_back (cs @ [0]) front (length cs) (length r) = length r - bk"
    by (simp add: trim_back_simp cs(1) bk_def)
  have l: "length cs - front = length r" using cs(2) by simp
  have sz: "int front + to_int (length r - bk) < 2 ^ 64" "nat (to_int (length r - bk)) = length r - bk"
    using assms(2) cs(2) by (simp_all add: to_int_small)
  have nn: "nonul (take (length r - bk) r)" using assms(1) by (auto simp: r_def)
  show ?thesis
  proof (cases "cs = []")
    case True then show ?thesis by (simp add: cString_trim_def trimmed_def)
  next
    case False
    have "cString_trim (cstr cs) =
        (if front > 0 \<or> length r - bk < length cs
         then cString_assign (cString_mid (cstr cs) front (to_int (length r - bk))) else cstr cs)"
      using False by (simp add: cString_trim_def Let_def f s l)
    also have "cString_assign (cString_mid (cstr cs) front (to_int (length r - bk))) = cstr (trimmed cs)"
      using assms(1) nn sz by (simp add: cstr_simps cs(1) tr)
    also have "\<not> (front > 0 \<or> length r - bk < length cs) \<Longrightarrow> cs = trimmed cs"
      using cs tr b by simp
    ultimately show ?thesis by auto
  qed
qed

lemma trimmed_nonul [intro]: "nonul cs \<Longrightarrow> nonul (trimmed cs)"
  by (simp add: trimmed_def nonul_sub(3))

lemma length_trimmed: "length (trimmed cs) \<le> length cs"
  unfolding trimmed_def by (metis length_dropWhile_le length_rev order_trans)

text \<open>\<open>squeeze\<close> keeps the first of every group of blanks.\<close>

fun squeeze :: "bool \<Rightarrow> character list \<Rightarrow> character list" where
  "squeeze firstSpace [] = []"
| "squeeze firstSpace (c # cs) =
     (if cChar_isBlanket c then (if firstSpace then c # squeeze False cs else squeeze False cs)
      else c # squeeze True cs)"

fun no_double_blank :: "character list \<Rightarrow> bool" where
  "no_double_blank (a # b # cs) \<longleftrightarrow> \<not> (cChar_isBlanket a \<and> cChar_isBlanket b) \<and> no_double_blank (b # cs)"
| "no_double_blank _ \<longleftrightarrow> True"

lemma trimAllSpaces_loop_simp:
  assumes "nonul cs" "nonul r"
  shows "i + k = length cs \<Longrightarrow>
     cString_trimAllSpaces_loop (cstr cs) i k first (cstr r) = cstr (r @ squeeze first (drop i cs))"
  using assms(2)
proof (induction k arbitrary: i first r)
  case (Suc k)
  then have d: "drop i cs = cs ! i # drop (Suc i) cs" and i: "i < length cs"
    by (simp_all add: Cons_nth_drop_Suc)
  have n: "cs ! i \<noteq> 0"
    using assms(1) i by (auto simp: nonul_def in_set_conv_nth)
  show ?case
    using Suc.IH [where i = "Suc i" and r = r] Suc.IH [where i = "Suc i" and r = "r @ [cs ! i]"] Suc.prems n i
    by (simp add: d nth_append Let_def cstr_simps)
qed simp

lemma nonul_squeeze: "nonul cs \<Longrightarrow> nonul (squeeze b cs)"
  by (induction b cs rule: squeeze.induct) auto

lemma trimAllSpaces_simp [cstr_simps]:
  "nonul cs \<Longrightarrow> length cs < 2 ^ 31 \<Longrightarrow> cString_trimAllSpaces (cstr cs) = cstr (squeeze True (trimmed cs))"
  using trimAllSpaces_loop_simp [of "trimmed cs" "[]" 0 "length (trimmed cs)" True]
  by (simp add: cString_trimAllSpaces_def Let_def cstr_simps nonul_squeeze trimmed_nonul)

lemma squeeze_nonblank: "filter (\<lambda>c. \<not> cChar_isBlanket c) (squeeze b cs) = filter (\<lambda>c. \<not> cChar_isBlanket c) cs"
  by (induction b cs rule: squeeze.induct) auto

lemma squeeze_no_double:
  "no_double_blank (squeeze b cs) \<and> (\<not> b \<longrightarrow> squeeze b cs = [] \<or> \<not> cChar_isBlanket (hd (squeeze b cs)))"
proof (induction b cs rule: squeeze.induct)
  case (2 b c cs)
  have "no_double_blank (d # ds) \<longleftrightarrow> ds = [] \<or> \<not> (cChar_isBlanket d \<and> cChar_isBlanket (hd ds)) \<and> no_double_blank ds"
    for d ds by (cases ds) auto
  then show ?case using 2 by auto
qed simp

lemma trimmed_ends:
  "trimmed cs \<noteq> [] \<Longrightarrow> \<not> cChar_isBlanket (hd (trimmed cs)) \<and> \<not> cChar_isBlanket (last (trimmed cs))"
proof -
  assume n: "trimmed cs \<noteq> []"
  define r where "r = dropWhile cChar_isBlanket cs"
  have t: "trimmed cs = rev (dropWhile cChar_isBlanket (rev r))"
    by (simp add: trimmed_def r_def)
  have d: "dropWhile cChar_isBlanket (rev r) \<noteq> []" using n t by simp
  have l: "\<not> cChar_isBlanket (last (trimmed cs))"
    using hd_dropWhile [OF d] d by (simp add: t last_rev)
  obtain u where u: "r = trimmed cs @ u"
    by (metis t takeWhile_dropWhile_id rev_append rev_rev_ident)
  have "hd (trimmed cs) = hd r" using n u by (metis hd_append2)
  moreover have "r \<noteq> []" using u n by auto
  ultimately show ?thesis using l hd_dropWhile [of cChar_isBlanket cs] by (simp add: r_def)
qed

subsection \<open>Searching\<close>

definition occurs :: "character list \<Rightarrow> character list \<Rightarrow> nat \<Rightarrow> bool" where
  "occurs cs ps i \<longleftrightarrow> take (length ps) (drop i cs) = ps"

lemma occurs_nth: "occurs cs ps i \<longleftrightarrow> ps = [] \<or> i + length ps \<le> length cs \<and> (\<forall>k < length ps. cs ! (i + k) = ps ! k)"
proof (cases "i + length ps \<le> length cs")
  case True
  then have "take (length ps) (drop i cs) = ps \<longleftrightarrow> (\<forall>k < length ps. cs ! (i + k) = ps ! k)"
    by (subst list_eq_iff_nth_eq) auto
  then show ?thesis using True by (auto simp: occurs_def)
next
  case False
  have "length (take (length ps) (drop i cs)) < length ps \<or> length ps = 0"
    using False by (cases ps) auto
  then have "take (length ps) (drop i cs) = ps \<Longrightarrow> length ps = 0"
    by auto
  then show ?thesis using False by (auto simp: occurs_def)
qed

lemma rscan_step:
  "j < ln \<Longrightarrow> j < i + on \<Longrightarrow> str ! (j - i) = buf ! j \<Longrightarrow>
     cString_rscan buf str ln on i j = cString_rscan buf str ln on i (j + 1)"
  by (rule trans [OF cString_rscan.simps]) simp

lemma rscan_stop:
  "\<not> (j < ln \<and> j < i + on \<and> str ! (j - i) = buf ! j) \<Longrightarrow> cString_rscan buf str ln on i j = j"
  by (rule trans [OF cString_rscan.simps]) (simp only: if_False)

lemma rscan_eq:
  "j \<le> i + on \<Longrightarrow> cString_rscan buf str ln on i j = i + on \<longleftrightarrow>
     (\<forall>k. j \<le> k \<longrightarrow> k < i + on \<longrightarrow> k < ln \<and> str ! (k - i) = buf ! k)"
proof (induction "ln - j" arbitrary: j rule: less_induct)
  case less
  show ?case
  proof (cases "j < ln \<and> j < i + on \<and> str ! (j - i) = buf ! j")
    case True
    then have "ln - (j + 1) < ln - j" "j + 1 \<le> i + on" by auto
    from less.hyps [OF this]
    have e: "cString_rscan buf str ln on i j = i + on \<longleftrightarrow>
        (\<forall>k. j + 1 \<le> k \<longrightarrow> k < i + on \<longrightarrow> k < ln \<and> str ! (k - i) = buf ! k)"
      using rscan_step [of j ln i on str buf] True by simp
    have "j \<le> k \<longleftrightarrow> k = j \<or> j + 1 \<le> k" for k by auto
    then show ?thesis unfolding e using True by auto
  next
    case False
    have "j \<noteq> i + on \<Longrightarrow> \<exists>k. j \<le> k \<and> k < i + on \<and> \<not> (k < ln \<and> str ! (k - i) = buf ! k)"
      using False less.prems by (intro exI [of _ j]) auto
    then show ?thesis unfolding rscan_stop [OF False] by auto
  qed
qed

lemma rmatches_simp:
  assumes "ps \<noteq> []" "i < length cs"
  shows "cString_rmatches (cstr cs) (cstr ps) i \<longleftrightarrow> occurs cs ps i"
proof -
  have "cString_rmatches (cstr cs) (cstr ps) i \<longleftrightarrow>
      cs ! i = ps ! 0 \<and> (\<forall>k. Suc i \<le> k \<longrightarrow> k < i + length ps \<longrightarrow> k < length cs \<and> (ps @ [0]) ! (k - i) = (cs @ [0]) ! k)"
    using assms rscan_eq [of "i + 1" i "length ps"]
    by (simp add: cString_rmatches_def nth_append Suc_le_eq)
  also have "\<dots> \<longleftrightarrow> (\<forall>k < length ps. i + k < length cs \<and> cs ! (i + k) = ps ! k)"
  proof
    assume L: "cs ! i = ps ! 0 \<and> (\<forall>k. Suc i \<le> k \<longrightarrow> k < i + length ps \<longrightarrow> k < length cs \<and> (ps @ [0]) ! (k - i) = (cs @ [0]) ! k)"
    show "\<forall>k < length ps. i + k < length cs \<and> cs ! (i + k) = ps ! k"
    proof (intro allI impI)
      fix k assume "k < length ps"
      then show "i + k < length cs \<and> cs ! (i + k) = ps ! k"
        using L [THEN conjunct2, rule_format, of "i + k"] L assms by (cases k) (auto simp: nth_append)
    qed
  next
    assume R: "\<forall>k < length ps. i + k < length cs \<and> cs ! (i + k) = ps ! k"
    show "cs ! i = ps ! 0 \<and> (\<forall>k. Suc i \<le> k \<longrightarrow> k < i + length ps \<longrightarrow> k < length cs \<and> (ps @ [0]) ! (k - i) = (cs @ [0]) ! k)"
    proof (intro conjI allI impI)
      show "cs ! i = ps ! 0" using R [rule_format, of 0] assms by simp
      fix k assume "Suc i \<le> k" "k < i + length ps"
      then show "k < length cs" "(ps @ [0]) ! (k - i) = (cs @ [0]) ! k"
        using R [rule_format, of "k - i"] by (auto simp: nth_append)
    qed
  qed
  also have "\<dots> \<longleftrightarrow> i + length ps \<le> length cs \<and> (\<forall>k < length ps. cs ! (i + k) = ps ! k)"
  proof
    assume R: "\<forall>k < length ps. i + k < length cs \<and> cs ! (i + k) = ps ! k"
    have "i + (length ps - 1) < length cs" using R assms(1) by simp
    moreover have "0 < length ps" using assms(1) by simp
    ultimately have "i + length ps \<le> length cs" by linarith
    then show "i + length ps \<le> length cs \<and> (\<forall>k < length ps. cs ! (i + k) = ps ! k)"
      using R by simp
  qed auto
  finally show ?thesis using assms by (simp add: occurs_nth)
qed

text \<open>A pattern of less than \<open>2 ^ 31\<close> characters is read with its own indices.\<close>

lemma scan_rscan:
  assumes "length ps < 2 ^ 31"
  shows "i \<le> j \<Longrightarrow> cString_scan buf (cstr ps) ln (length ps) i j = Inr (cString_rscan buf (ps @ [0]) ln (length ps) i j)"
proof (induction "ln - j" arbitrary: j rule: less_induct)
  case less
  show ?case
  proof (cases "j < ln \<and> j < i + length ps")
    case True
    then have "to_int (j - i) = int (j - i)" using assms less.prems True by (intro to_int_small) linarith
    then have at: "cString_get (cstr ps) (j - i) = Inr ((ps @ [0]) ! (j - i))"
      using True less.prems by (simp add: cString_get_def del: of_nat_diff) linarith
    have IH: "cString_scan buf (cstr ps) ln (length ps) i (j + 1) = Inr (cString_rscan buf (ps @ [0]) ln (length ps) i (j + 1))"
      by (rule less.hyps) (use True less.prems in auto)
    show ?thesis
      using True at IH by (simp add: cString_scan.simps [of _ _ _ _ _ j] cString_rscan.simps [of _ _ _ _ _ j])
  next
    case False
    then show ?thesis by (auto simp add: cString_scan.simps [of _ _ _ _ _ j] cString_rscan.simps [of _ _ _ _ _ j])
  qed
qed

lemma matches_simp:
  assumes "ps \<noteq> []" "i < length cs" "length ps < 2 ^ 31"
  shows "cString_matches (cstr cs) (cstr ps) i = Inr (occurs cs ps i)"
proof -
  have "cString_matches (cstr cs) (cstr ps) i = Inr (cString_rmatches (cstr cs) (cstr ps) i)"
    using scan_rscan [OF assms(3), of i "i + 1"] by (auto simp: cString_matches_def cString_rmatches_def cString_get_def to_int_small)
  then show ?thesis using rmatches_simp [OF assms(1,2)] by simp
qed

text \<open>The least occurrence from a start index, or the length of the string.\<close>

definition find_pos :: "character list \<Rightarrow> character list \<Rightarrow> nat \<Rightarrow> nat" where
  "find_pos cs ps i = (case List.find (occurs cs ps) [i..<length cs] of Some j \<Rightarrow> j | None \<Rightarrow> length cs)"

lemma find_loop_simp:
  "ps \<noteq> [] \<Longrightarrow> length ps < 2 ^ 31 \<Longrightarrow> i + k \<le> length cs \<Longrightarrow>
     cString_find_loop (cstr cs) (cstr ps) i k =
       Inr (case List.find (occurs cs ps) [i..<i + k] of Some j \<Rightarrow> j | None \<Rightarrow> length cs)"
proof (induction k arbitrary: i)
  case (Suc k)
  have u: "[i..<i + Suc k] = i # [Suc i..<Suc i + k]" by (simp add: upt_rec)
  show ?case unfolding u using Suc by (simp add: matches_simp)
qed simp

lemma find_case:
  assumes "ps \<noteq> []" "length cs < 2 ^ 31 \<or> length ps < 2 ^ 31"
  shows "cString_find (cstr cs) (cstr ps) i =
    Inr (case List.find (occurs cs ps) [i..<length cs] of Some j \<Rightarrow> j | None \<Rightarrow> length cs)"
proof -
  have none: "\<not> occurs cs ps j" if "j + length ps > length cs" for j
    using that assms by (simp add: occurs_nth)
  show ?thesis
  proof (cases "length cs < length ps")
    case True
    then have "List.find (occurs cs ps) [i..<length cs] = None"
      using none by (auto simp: find_None_iff)
    then show ?thesis using True assms by (simp add: cString_find_def Let_def)
  next
    case False
    have short: "length ps < 2 ^ 31" using assms(2) False by auto
    define len where "len = length cs - length ps + 1"
    have len: "len \<le> length cs" using assms False by (cases ps) (auto simp: len_def)
    have f: "cString_find (cstr cs) (cstr ps) i = cString_find_loop (cstr cs) (cstr ps) i (len - i)"
      using assms False by (simp add: cString_find_def Let_def len_def)
    show ?thesis
    proof (cases "i \<le> len")
      case True
      have n: "List.find (occurs cs ps) [len..<length cs] = None"
        using none by (auto simp: find_None_iff len_def)
      have a: "List.find P (xs @ ys) = (case List.find P xs of None \<Rightarrow> List.find P ys | Some x \<Rightarrow> Some x)" for P :: "nat \<Rightarrow> bool" and xs ys
        by (induction xs) auto
      have "[i..<length cs] = [i..<len] @ [len..<length cs]"
        using True len by (metis le_add_diff_inverse upt_add_eq_append)
      then show ?thesis
        unfolding f using find_loop_simp [OF assms(1) short, of i "len - i" cs] True len
        by (simp add: a n split: option.splits)
    next
      case False
      have n: "List.find (occurs cs ps) [i..<length cs] = None"
        using none False by (auto simp: find_None_iff len_def)
      show ?thesis unfolding f using False n by simp
    qed
  qed
qed

lemma find_cstr:
  "ps \<noteq> [] \<Longrightarrow> length cs < 2 ^ 31 \<or> length ps < 2 ^ 31 \<Longrightarrow>
     cString_find (cstr cs) (cstr ps) i = Inr (find_pos cs ps i)"
  unfolding find_pos_def by (rule find_case)

lemma upt_split: "m \<le> n \<Longrightarrow> [0..<n] = [0..<m] @ [m..<n]"
  by (metis le_Suc_ex upt_add_eq_append zero_le)

lemma find_upt_Some:
  assumes "List.find P [i..<n] = Some j"
  shows "P j" "i \<le> j" "j < n" "\<And>k. i \<le> k \<Longrightarrow> k < j \<Longrightarrow> \<not> P k"
proof -
  obtain k where k: "k < n - i" "P (i + k)" "j = i + k" "\<And>m. m < k \<Longrightarrow> \<not> P (i + m)"
    using assms by (auto simp: find_Some_iff)
  show "P j" "i \<le> j" "j < n" using k by auto
  show "\<not> P l" if "i \<le> l" "l < j" for l
    using k(4) [of "l - i"] k(3) that by simp
qed

lemma rfind_loop_simp:
  "ps \<noteq> [] \<Longrightarrow> i < length cs \<Longrightarrow>
     cString_rfind_loop (cstr cs) (cstr ps) i =
       (case List.find (occurs cs ps) (rev [0..<Suc i]) of Some j \<Rightarrow> j | None \<Rightarrow> length cs)"
  by (induction i) (simp_all add: rmatches_simp)

text \<open>The greatest occurrence up to the start index, or the length of the string.\<close>

lemma rfind_cstr:
  assumes "ps \<noteq> []"
  shows "cString_rfind (cstr cs) (cstr ps) i =
           (case List.find (occurs cs ps) (rev [0..<min (Suc i) (length cs)]) of Some j \<Rightarrow> j | None \<Rightarrow> length cs)"
proof -
  have none: "\<not> occurs cs ps j" if "j + length ps > length cs" for j
    using that assms by (simp add: occurs_nth)
  show ?thesis
  proof (cases "length cs < length ps \<or> length cs = 0")
    case True
    then have "List.find (occurs cs ps) (rev [0..<min (Suc i) (length cs)]) = None"
      using none by (auto simp: find_None_iff)
    then show ?thesis using True assms by (auto simp: cString_rfind_def Let_def)
  next
    case False
    define k where "k = length cs - length ps"
    have k: "k < length cs" using assms False by (cases ps) (auto simp: k_def)
    have f: "cString_rfind (cstr cs) (cstr ps) i = cString_rfind_loop (cstr cs) (cstr ps) (min i k)"
      using assms False by (simp add: cString_rfind_def Let_def k_def min_def)
    have a: "List.find P (xs @ ys) = List.find P ys" if "List.find P xs = None" for P :: "nat \<Rightarrow> bool" and xs ys
      using that by (induction xs) (auto split: if_splits)
    have n: "List.find (occurs cs ps) (rev [Suc (min i k)..<min (Suc i) (length cs)]) = None"
      using none by (auto simp: find_None_iff k_def)
    have "[0..<min (Suc i) (length cs)] = [0..<Suc (min i k)] @ [Suc (min i k)..<min (Suc i) (length cs)]"
      using k by (intro upt_split) auto
    then have "List.find (occurs cs ps) (rev [0..<min (Suc i) (length cs)]) =
        List.find (occurs cs ps) (rev [0..<Suc (min i k)])"
      by (simp only: rev_append a [OF n])
    then show ?thesis unfolding f using rfind_loop_simp [OF assms, of "min i k" cs] k by simp
  qed
qed

lemma find_empty: "cString_find s (cstr []) i = Inr i"
  by (simp add: cString_find_def)

lemma find_found:
  "ps \<noteq> [] \<Longrightarrow> find_pos cs ps i \<noteq> length cs \<Longrightarrow>
     occurs cs ps (find_pos cs ps i) \<and> find_pos cs ps i \<ge> i \<and>
     (\<forall>j. i \<le> j \<longrightarrow> j < find_pos cs ps i \<longrightarrow> \<not> occurs cs ps j)"
  using find_upt_Some [of "occurs cs ps" i "length cs"]
  by (auto simp: find_pos_def split: option.splits)

lemma find_none:
  "ps \<noteq> [] \<Longrightarrow> find_pos cs ps i = length cs \<longleftrightarrow> (\<forall>j \<ge> i. \<not> occurs cs ps j)"
proof -
  assume p: "ps \<noteq> []"
  have b: "j < length cs" if "occurs cs ps j" for j
    using that p by (cases ps) (auto simp: occurs_nth)
  show ?thesis
    using p b by (auto simp: find_pos_def find_None_iff find_Some_iff split: option.splits)
qed

subsection \<open>Replacing\<close>

lemma occurs_split: "occurs cs ps i \<Longrightarrow> cs = take i cs @ ps @ drop (i + length ps) cs"
  unfolding occurs_def by (metis append_take_drop_id drop_drop add.commute)

text \<open>One round of \<open>replace\<close>.\<close>

definition replace_round :: "character list \<Rightarrow> character list \<Rightarrow> character list \<Rightarrow> character list" where
  "replace_round cs ps rs =
     (let pos = find_pos cs ps 0 in take pos cs @ rs @ drop (pos + length ps) cs)"

lemma replace_unfold:
  assumes "nonul cs" "nonul ps" "nonul rs" "ps \<noteq> []" "length cs < 2 ^ 31"
  shows "cString_replace (cstr cs) (cstr ps) (cstr rs) =
     (if \<exists>i. occurs cs ps i then cString_replace (cstr (replace_round cs ps rs)) (cstr ps) (cstr rs)
      else Some (Inr (cstr cs)))"
proof (cases "\<exists>i. occurs cs ps i")
  case False
  then show ?thesis
    using find_none [OF assms(4), of cs 0] find_cstr [OF assms(4), of cs 0] assms(5) unfolding if_not_P [OF False]
    by (subst cString_replace.simps) simp
next
  case True
  define pos where "pos = find_pos cs ps 0"
  have ne: "pos \<noteq> length cs"
    using True find_none [OF assms(4), of cs 0] by (auto simp: pos_def)
  then have oc: "occurs cs ps pos"
    using find_found [OF assms(4), of cs 0] by (simp add: pos_def)
  then have l: "pos + length ps \<le> length cs" using assms(4) by (simp add: occurs_nth)
  have i: "to_int pos = int pos" "to_int (length cs - pos - length ps) = int (length cs - pos - length ps)"
    using l assms(5) by (simp_all add: to_int_small)
  have r: "length cs - (length cs - (pos + length ps)) = pos + length ps" using l by simp
  have "cString_plus (cString_plus (cString_left (cstr cs) (to_int pos)) (cstr rs))
      (cString_right (cstr cs) (to_int (length cs - pos - length ps))) = cstr (replace_round cs ps rs)"
    unfolding i using assms(1,3,5) by (simp add: cstr_simps nonul_sub r replace_round_def pos_def [symmetric])
  moreover have "nonul (replace_round cs ps rs)"
    using assms by (simp add: replace_round_def Let_def nonul_sub)
  ultimately show ?thesis
    using True ne assms(4) find_cstr [OF assms(4), of cs 0] assms(5)
    by (subst cString_replace.simps) (simp add: pos_def [symmetric] assign_simp)
qed

lemma replace_round_length:
  assumes "ps \<noteq> []" "\<exists>i. occurs cs ps i"
  shows "length (replace_round cs ps rs) + length ps = length cs + length rs"
proof -
  have "find_pos cs ps 0 \<noteq> length cs"
    using assms find_none [OF assms(1), of cs 0] by auto
  then have "occurs cs ps (find_pos cs ps 0)"
    using find_found [OF assms(1), of cs 0] by simp
  then show ?thesis using assms(1) by (simp add: occurs_nth replace_round_def Let_def)
qed

lemma nonul_replace_round: "nonul cs \<Longrightarrow> nonul rs \<Longrightarrow> nonul (replace_round cs ps rs)"
  by (simp add: replace_round_def Let_def nonul_sub)

lemma replace_shrinks:
  assumes "nonul ps" "nonul rs" "length rs < length ps"
  shows "nonul cs \<Longrightarrow> length cs < 2 ^ 31 \<Longrightarrow>
     \<exists>out. cString_replace (cstr cs) (cstr ps) (cstr rs) = Some (Inr (cstr out)) \<and> nonul out \<and>
           (\<forall>i. \<not> occurs out ps i)"
proof (induction "length cs" arbitrary: cs rule: less_induct)
  case less
  have ps: "ps \<noteq> []" using assms(3) by auto
  show ?case
  proof (cases "\<exists>i. occurs cs ps i")
    case True
    have "length (replace_round cs ps rs) < length cs"
      using replace_round_length [OF ps True, of rs] assms(3) by linarith
    then show ?thesis
      using less.hyps [of "replace_round cs ps rs"] less.prems nonul_replace_round [OF less.prems(1) assms(2)]
        replace_unfold [OF less.prems(1) assms(1,2) ps less.prems(2)] True by simp
  next
    case False
    then show ?thesis
      using replace_unfold [OF less.prems(1) assms(1,2) ps less.prems(2)] less.prems by auto
  qed
qed

lemma occursI: "\<exists>i. occurs (a @ ps @ b) ps i"
  by (intro exI [of _ "length a"]) (simp add: occurs_def)

lemma to_int_le: "to_int n \<le> int n"
proof (cases "n < 2 ^ 31")
  case False
  then show ?thesis
    using signed_take_bit_int_less_eq [of 31 "int n"] by (simp add: to_int_def signed_of_nat)
qed (simp add: to_int_small)

lemma left_wf: "nonul cs \<Longrightarrow> \<exists>l. nonul l \<and> cString_left (cstr cs) k = cstr l"
proof -
  assume a: "nonul cs"
  define sz where "sz = (if k > to_int (length cs) then to_int (length cs) else k)"
  have l: "cString_left (cstr cs) k = (if sz \<le> 0 then cString_new None else
      cString_rearrangeStringVector \<lparr>m_buffer = (take (nat sz + 1) (cs @ [0]))[nat sz := 0], m_stringLength = 0\<rparr>)"
    by (simp add: cString_left_def Let_def sz_def)
  have "nat sz \<le> length cs"
    using to_int_le [of "length cs"] by (auto simp: sz_def)
  then have t: "(take (nat sz + 1) (cs @ [0]))[nat sz := 0] = take (nat sz) cs @ [0]"
    using terminate_take [of "nat sz" cs] by simp
  show ?thesis
    unfolding l t using a rearrange_simp [of "take (nat sz) cs" "[]" 0] nonul_sub(1) [OF a, of "nat sz"] new_simps(2)
    by (metis nonul_simps(1))
qed

lemma right_wf: "nonul cs \<Longrightarrow> \<exists>l. nonul l \<and> cString_right (cstr cs) k = cstr l"
proof -
  assume a: "nonul cs"
  have d: "cString_new (Some (drop (length cs - m) (cs @ [0]))) = cstr (drop (length cs - m) cs)" for m
    using new_simps(3) [of "drop (length cs - m) cs" "[]"] a by auto
  show ?thesis
    using a d new_simps(2) by (auto simp: cString_right_def Let_def nonul_sub intro: exI [of _ "[]"])
qed

text \<open>When the pattern occurs in its replacement no number of rounds removes it.\<close>

lemma replace_diverges:
  assumes rs: "nonul rs" "rs = a @ ps @ b" and ps: "ps \<noteq> []" "nonul cs" "\<exists>i. occurs cs ps i" "length ps < 2 ^ 31"
  shows "cString_replace (cstr cs) (cstr ps) (cstr rs) = None"
proof (rule ccontr)
  let ?P = "\<lambda>s f r. \<forall>cs. s = cstr cs \<longrightarrow> f = cstr ps \<longrightarrow> r = cstr rs \<longrightarrow> nonul cs \<longrightarrow> \<not> (\<exists>i. occurs cs ps i)"
  assume "\<not> ?thesis"
  then obtain y where major: "cString_replace (cstr cs) (cstr ps) (cstr rs) = Some y" by auto
  have "?P (cstr cs) (cstr ps) (cstr rs)"
  proof (rule cString_replace.raw_induct [OF _ major, where P = "\<lambda>s f r y. ?P s f r"])
    fix rec s f r y
    assume IH: "\<And>s f r y. rec s f r = Some y \<Longrightarrow> ?P s f r"
      and body: "(case cString_find s f 0 of Inl e \<Rightarrow> Some (Inl e)
          | Inr pos \<Rightarrow> if pos \<noteq> cString_length s
             then rec (cString_assign (cString_plus (cString_plus (cString_left s (to_int pos)) r)
                        (cString_right s (to_int (cString_length s - pos - cString_length f))))) f r
             else Some (Inr s)) = Some y"
    show "?P s f r"
    proof (intro allI impI notI)
      fix cs assume eqs: "s = cstr cs" "f = cstr ps" "r = cstr rs" and n: "nonul cs" and oc: "\<exists>i. occurs cs ps i"
      let ?pos = "find_pos cs ps 0"
      obtain l where l: "nonul l" "cString_left (cstr cs) (to_int ?pos) = cstr l"
        using left_wf [OF n] by blast
      obtain m where m: "nonul m" "cString_right (cstr cs) (to_int (length cs - ?pos - length ps)) = cstr m"
        using right_wf [OF n] by blast
      have "?pos \<noteq> length cs"
        using oc find_none [OF ps(1), of cs 0] by auto
      then have "rec (cstr (l @ rs @ m)) f r = Some y"
        using body l m rs(1) find_cstr [OF ps(1), of cs 0] ps(4) unfolding eqs by (simp add: cstr_simps)
      from IH [OF this] have "\<not> (\<exists>i. occurs (l @ rs @ m) ps i)"
        using eqs l(1) m(1) rs(1) by simp
      then show False
        using occursI [of "l @ a" ps "b @ m"] rs(2) by simp
    qed
  qed
  then show False using ps by blast
qed

text \<open>An empty pattern always matches at the beginning.\<close>

subsection \<open>Splitting\<close>

text \<open>Pieces with a divider character between them.\<close>

fun join :: "character \<Rightarrow> character list list \<Rightarrow> character list" where
  "join c [] = []"
| "join c [p] = p"
| "join c (p # q # ps) = p @ c # join c (q # ps)"

lemma nonul_join: "c \<noteq> 0 \<Longrightarrow> \<forall>p \<in> set ps. nonul p \<Longrightarrow> nonul (join c ps)"
  by (induction c ps rule: join.induct) auto

lemma occurs_single: "occurs cs [c] i \<longleftrightarrow> i < length cs \<and> cs ! i = c"
  by (auto simp: occurs_nth)

lemma find_single:
  assumes "i \<le> k" "k \<le> length cs" "\<And>j. i \<le> j \<Longrightarrow> j < k \<Longrightarrow> cs ! j \<noteq> c" "k < length cs \<Longrightarrow> cs ! k = c"
  shows "cString_find (cstr cs) (cstr [c]) i = Inr k"
proof -
  have "find_pos cs [c] i = k"
proof (cases "k < length cs")
  case True
  let ?f = "find_pos cs [c] i"
  have "occurs cs [c] k" using True assms(4) by (simp add: occurs_single)
  then have "?f \<noteq> length cs" using find_none [of "[c]" cs i] assms(1) by auto
  then have f: "occurs cs [c] ?f" "i \<le> ?f" "\<And>j. i \<le> j \<Longrightarrow> j < ?f \<Longrightarrow> \<not> occurs cs [c] j"
    using find_found [of "[c]" cs i] by auto
  then show ?thesis
    using assms \<open>occurs cs [c] k\<close> by (metis linorder_neqE_nat occurs_single)
next
  case False
  then show ?thesis using find_none [of "[c]" cs i] assms by (auto simp: occurs_single)
qed
  then show ?thesis using find_cstr [of "[c]" cs i] by simp
qed

lemma split_loop_simp:
  assumes "c \<noteq> 0"
  shows "cs = pre @ join c (p # ps) \<Longrightarrow> nonul (pre @ p) \<Longrightarrow> c \<notin> set (drop (idx + 1 - length pre) p) \<Longrightarrow>
     \<forall>q \<in> set ps. nonul q \<and> c \<notin> set q \<Longrightarrow>
     length pre \<le> idx + 1 \<Longrightarrow> idx + 1 \<le> length pre + length p \<Longrightarrow>
     cString_split_loop (cstr cs) (cstr [c]) idx (length pre) ret = Some (Inr (ret @ map cstr (p # ps)))"
proof (induction ps arbitrary: p pre idx ret)
  case Nil
  have nd: "cs ! j \<noteq> c" if "idx + 1 \<le> j" "j < length cs" for j
  proof -
    have "cs ! j = drop (idx + 1 - length pre) p ! (j - (idx + 1))" "j - (idx + 1) < length (drop (idx + 1 - length pre) p)"
      using that Nil by (auto simp: nth_append)
    then have "cs ! j \<in> set (drop (idx + 1 - length pre) p)" by (metis nth_mem)
    then show ?thesis using Nil by auto
  qed
  have f: "cString_find (cstr cs) (cstr [c]) (idx + 1) = Inr (length cs)"
    using Nil nd by (intro find_single) auto
  have "cString_part (cstr cs) (length pre) (length cs) = cstr p"
    using Nil by (simp add: cstr_simps)
  then show ?case
    by (subst cString_split_loop.simps) (simp add: Let_def f [simplified])
next
  case (Cons q qs)
  let ?k = "length pre + length p"
  have cs: "cs = pre @ p @ c # join c (q # qs)" using Cons.prems(1) by simp
  have k: "?k < length cs" "cs ! ?k = c" using cs by (simp_all add: nth_append)
  have nd: "cs ! j \<noteq> c" if "idx + 1 \<le> j" "j < ?k" for j
  proof -
    have "cs ! j = drop (idx + 1 - length pre) p ! (j - (idx + 1))" "j - (idx + 1) < length (drop (idx + 1 - length pre) p)"
      using that Cons.prems(5) unfolding cs by (auto simp: nth_append)
    then have "cs ! j \<in> set (drop (idx + 1 - length pre) p)" by (metis nth_mem)
    then show ?thesis using Cons.prems(3) by auto
  qed
  have f: "cString_find (cstr cs) (cstr [c]) (idx + 1) = Inr ?k"
    using Cons.prems(6) k nd by (intro find_single) auto
  have n: "nonul cs"
    using Cons.prems assms nonul_join [OF assms, of "q # qs"] unfolding cs by auto
  have pt: "cString_part (cstr cs) (length pre) ?k = cstr p"
    using n by (simp add: cstr_simps cs)
  have "cString_split_loop (cstr cs) (cstr [c]) ?k (length (pre @ p @ [c])) (ret @ [cstr p]) =
      Some (Inr ((ret @ [cstr p]) @ map cstr (q # qs)))"
    using Cons.prems cs assms by (intro Cons.IH) auto
  then show ?case
    using k by (subst cString_split_loop.simps) (simp add: Let_def f [simplified] pt)
qed

lemma split_first:
  assumes "c \<noteq> 0" "nonul p" "p \<noteq> []" "c \<notin> set (tl p)" "\<forall>q \<in> set ps. nonul q \<and> c \<notin> set q"
  shows "cString_split (cstr (join c (p # ps))) (cstr [c]) = Some (Inr (map cstr (p # ps)))"
proof -
  have "1 \<le> length p" using assms(3) by (cases p) auto
  then show ?thesis
    using split_loop_simp [OF assms(1), of _ "[]" p ps 0 "[]"] assms
    by (simp add: cString_split_def drop_Suc)
qed

lemma split_simp:
  assumes "c \<noteq> 0" "\<forall>q \<in> set (p # ps). nonul q \<and> c \<notin> set q" "p \<noteq> [] \<or> ps = []"
  shows "cString_split (cstr (join c (p # ps))) (cstr [c]) = Some (Inr (map cstr (p # ps)))"
proof (cases "p = []")
  case True
  then have "cString_find (cstr []) (cstr [c]) 1 = Inr 0"
    using find_none [of "[c]" "[]" 1] find_cstr [of "[c]" "[]" 1] by (simp add: occurs_single)
  then show ?thesis
    using True assms(3) unfolding cString_split_def
    by (subst cString_split_loop.simps) (simp add: Let_def cstr_simps)
next
  case False
  then show ?thesis
    using assms by (intro split_first) (auto dest: list.set_sel(2) [rotated])
qed

subsection \<open>The properties of the strings\<close>

text \<open>
  C34: for the bases 2 to 47 the number constructors return. The result holds the digits of the
  number in that base, most significant first and without leading zeros, as characters of the
  strip, behind a minus sign for a negative number. The least numbers of both signed types, whose
  absolute value overflows, and the bases from 48, which an assertion forbids, are undefined.
\<close>

theorem cString_numbers:
  assumes "2 \<le> base"
  shows "if base < 48 then
           (\<exists>ds. cString_new_uint64 n base = Some (Inr (cstr (map strip ds))) \<and>
                 is_numeral (unat base) (unat n) ds) \<and>
           (\<exists>ds. cString_new_uint32 k base = Some (Inr (cstr (map strip ds))) \<and>
                 is_numeral (unat base) (unat k) ds) \<and>
           (if sint n = - (2 ^ 63) then cString_new_int64 n base = Some (Inl UNDEFINED_BEHAVIOUR)
            else \<exists>ds. cString_new_int64 n base =
                   Some (Inr (cstr ((if sint n < 0 then lit ''-'' else []) @ map strip ds))) \<and>
                 is_numeral (unat base) (nat \<bar>sint n\<bar>) ds) \<and>
           (if sint k = - (2 ^ 31) then cString_new_int32 k base = Some (Inl UNDEFINED_BEHAVIOUR)
            else \<exists>ds. cString_new_int32 k base =
                   Some (Inr (cstr ((if sint k < 0 then lit ''-'' else []) @ map strip ds))) \<and>
                 is_numeral (unat base) (nat \<bar>sint k\<bar>) ds)
         else
           cString_new_uint64 n base = Some (Inl UNDEFINED_BEHAVIOUR) \<and>
           cString_new_uint32 k base = Some (Inl UNDEFINED_BEHAVIOUR)"
proof (cases "base < 48")
  case True
  then show ?thesis
    using new_uint64_simp [OF assms True] new_uint64_simp [OF assms True, of "ucast k"] new_int64_simp [OF assms True]
      new_int32_simp [OF assms True] new_int_least
    by (simp add: new_uint32_64 unat_ucast_up)
qed (use new_uint_base [of base] in \<open>simp add: not_less\<close>)

theorem cString_numbers_witness:
  "(2 :: uint64) \<le> 16 \<and> (16 :: uint64) < 48 \<and>
   (\<exists>ds. cString_new_int32 (- 255) 16 = Some (Inr (cstr (lit ''-'' @ map strip ds))) \<and> is_numeral 16 255 ds)"
  using cString_numbers [of 16 0 "- 255"] by simp

text \<open>
  On well formed strings the functions that cut and join return well formed strings: \<open>mid\<close>,
  \<open>part\<close>, \<open>left\<close> and \<open>right\<close> the parts of the characters, clipped to the string;
  concatenation appends; \<open>trim\<close> cuts the blanks at both ends; \<open>trimAllSpaces\<close> leaves no two
  blanks side by side and keeps all other characters; \<open>pad\<close> ignores the padding character and
  uses a space.
\<close>

theorem cString_parts:
  assumes "nonul cs" and "nonul ds" and "length cs < 2 ^ 31"
  shows "cString_part (cstr cs) i j = cstr (take (j - i) (drop i cs)) \<and>
         (int i + k < 2 ^ 64 \<longrightarrow> cString_mid (cstr cs) i k = cstr (take (nat k) (drop i cs))) \<and>
         cString_left (cstr cs) k = cstr (take (nat k) cs) \<and>
         cString_right (cstr cs) k = cstr (drop (length cs - nat k) cs) \<and>
         cString_concat (cstr cs) (cstr ds) = cstr (cs @ ds) \<and>
         cString_pad (cstr cs) i c = cstr (cs @ replicate (i - length cs) (ch CHR '' '')) \<and>
         (\<exists>a b. cs = a @ trimmed cs @ b \<and> list_all cChar_isBlanket (a @ b)) \<and>
         cString_trim (cstr cs) = cstr (trimmed cs) \<and>
         (trimmed cs \<noteq> [] \<longrightarrow> \<not> cChar_isBlanket (hd (trimmed cs)) \<and> \<not> cChar_isBlanket (last (trimmed cs))) \<and>
         (\<exists>out. cString_trimAllSpaces (cstr cs) = cstr out \<and> no_double_blank out \<and>
            filter (\<lambda>c. \<not> cChar_isBlanket c) out = filter (\<lambda>c. \<not> cChar_isBlanket c) (trimmed cs))"
proof -
  define r where "r = dropWhile cChar_isBlanket cs"
  have t: "r = trimmed cs @ rev (takeWhile cChar_isBlanket (rev r))"
    unfolding trimmed_def r_def [symmetric] by (metis rev_append rev_rev_ident takeWhile_dropWhile_id)
  have "cs = takeWhile cChar_isBlanket cs @ trimmed cs @ rev (takeWhile cChar_isBlanket (rev r))"
    using t by (metis r_def takeWhile_dropWhile_id)
  moreover have "list_all cChar_isBlanket (takeWhile cChar_isBlanket cs @ rev (takeWhile cChar_isBlanket (rev r)))"
    by (auto simp: list_all_iff dest: set_takeWhileD)
  ultimately have "\<exists>a b. cs = a @ trimmed cs @ b \<and> list_all cChar_isBlanket (a @ b)" by blast
  moreover have "ch CHR '' '' = 32" by (simp add: ch_def)
  ultimately show ?thesis
    using assms trimmed_ends [of cs]
    by (simp add: cstr_simps squeeze_nonblank squeeze_no_double)
qed

theorem cString_parts_witness:
  "nonul (lit ''ab c'') \<and> nonul (lit ''d'') \<and> length (lit ''ab c'') < 2 ^ 31 \<and> (int 1 + 2 < 2 ^ 64) \<and>
   cString_mid (cstr (lit ''ab c'')) 1 2 = cstr (lit ''b '')"
  using cString_parts [of "lit ''ab c''" "lit ''d''" 1 0 2 0] by (simp add: lit_def)

text \<open>
  C33: for a pattern that is not empty, \<open>find\<close> returns the least position from the start index
  at which the pattern occurs and \<open>rfind\<close> the greatest one up to the start index; both return
  the length of the string exactly when there is none. (\<open>find\<close> reads the pattern with an index of
  type \<open>int\<close>, so one of the two has to be shorter than \<open>2 ^ 31\<close>.) The empty pattern is found at the
  start index, wherever that is; the documentation has the length of the string there.
\<close>

theorem cString_searches:
  assumes "ps \<noteq> []" and "length cs < 2 ^ 31 \<or> length ps < 2 ^ 31"
  shows "cString_find (cstr cs) (cstr ps) i =
           Inr (case List.find (occurs cs ps) [i..<length cs] of Some j \<Rightarrow> j | None \<Rightarrow> length cs) \<and>
         cString_rfind (cstr cs) (cstr ps) i =
           (case List.find (occurs cs ps) (rev [0..<min (Suc i) (length cs)]) of Some j \<Rightarrow> j | None \<Rightarrow> length cs) \<and>
         (cString_find (cstr cs) (cstr ps) i = Inr (length cs) \<longleftrightarrow> (\<forall>j \<ge> i. \<not> occurs cs ps j)) \<and>
         cString_find (cstr cs) (cstr []) i = Inr i \<and> cString_rfind (cstr cs) (cstr []) i = i"
  using find_cstr [OF assms] rfind_cstr [OF assms(1)] find_none [OF assms(1)]
  by (simp add: find_empty cString_rfind_def find_pos_def)

theorem cString_searches_witness:
  "lit ''ab'' \<noteq> [] \<and> cString_find (cstr (lit ''xabab'')) (cstr (lit ''ab'')) 2 = Inr 3 \<and>
   cString_rfind (cstr (lit ''xabab'')) (cstr (lit ''ab'')) 2 = 1"
  using cString_searches [of "lit ''ab''" "lit ''xabab''" 2]
  by (simp add: lit_def occurs_def upt_rec)

text \<open>
  C31: \<open>replace\<close> with a replacement shorter than the pattern returns, and the result has no
  occurrence of the pattern left. With a replacement that contains the pattern it does not
  return as soon as the pattern occurs at all.
\<close>

theorem cString_replace_returns:
  assumes "nonul cs" and "nonul ps" and "nonul rs" and "length cs < 2 ^ 31" and "ps \<noteq> []"
  shows "(length rs < length ps \<longrightarrow>
            (\<exists>out. cString_replace (cstr cs) (cstr ps) (cstr rs) = Some (Inr (cstr out)) \<and> nonul out \<and>
                   (\<forall>i. \<not> occurs out ps i))) \<and>
         (rs = a @ ps @ b \<longrightarrow> (\<exists>i. occurs cs ps i) \<longrightarrow>
            cString_replace (cstr cs) (cstr ps) (cstr rs) = None)"
proof (intro conjI impI)
  assume "rs = a @ ps @ b" and oc: "\<exists>i. occurs cs ps i"
  moreover have "length ps < 2 ^ 31" using oc assms(4,5) by (auto simp: occurs_nth)
  ultimately show "cString_replace (cstr cs) (cstr ps) (cstr rs) = None"
    by (intro replace_diverges [OF assms(3) _ assms(5,1)])
qed (erule replace_shrinks [OF assms(2,3) _ assms(1,4)])

theorem cString_replace_returns_witness:
  "nonul (lit ''xabb'') \<and> nonul (lit ''ab'') \<and> nonul (lit ''a'') \<and> nonul (lit ''-ab-'') \<and>
   length (lit ''a'') < length (lit ''ab'') \<and> lit ''-ab-'' = lit ''-'' @ lit ''ab'' @ lit ''-'' \<and>
   (\<exists>i. occurs (lit ''xabb'') (lit ''ab'') i) \<and>
   (\<exists>out. cString_replace (cstr (lit ''xabb'')) (cstr (lit ''ab'')) (cstr (lit ''a'')) = Some (Inr (cstr out)) \<and>
          nonul out \<and> (\<forall>i. \<not> occurs out (lit ''ab'') i)) \<and>
   cString_replace (cstr (lit ''xabb'')) (cstr (lit ''ab'')) (cstr (lit ''-ab-'')) = None"
proof -
  have o: "\<exists>i. occurs (lit ''xabb'') (lit ''ab'') i"
    by (intro exI [of _ 1]) (simp add: occurs_def lit_def)
  have n: "nonul (lit ''xabb'')" "nonul (lit ''ab'')" "nonul (lit ''a'')" "nonul (lit ''-ab-'')"
    "length (lit ''xabb'') < 2 ^ 31" "lit ''ab'' \<noteq> []" "length (lit ''a'') < length (lit ''ab'')"
    "lit ''-ab-'' = lit ''-'' @ lit ''ab'' @ lit ''-''"
    by (simp_all add: lit_def)
  have "\<exists>out. cString_replace (cstr (lit ''xabb'')) (cstr (lit ''ab'')) (cstr (lit ''a'')) = Some (Inr (cstr out)) \<and>
          nonul out \<and> (\<forall>i. \<not> occurs out (lit ''ab'') i)"
    by (rule cString_replace_returns [OF n(1,2,3,5,6), THEN conjunct1, THEN mp, OF n(7)])
  moreover have "cString_replace (cstr (lit ''xabb'')) (cstr (lit ''ab'')) (cstr (lit ''-ab-'')) = None"
    by (rule cString_replace_returns [OF n(1,2,4,5,6), THEN conjunct2, THEN mp, THEN mp, OF n(8) o])
  ultimately show ?thesis by (intro conjI n o)
qed

text \<open>
  C32: splitting at a divider character undoes joining with it, if the first piece is not empty
  or is the only one: the pieces come back in order, the empty ones too. (A divider at the
  very beginning of the string is never seen.)
\<close>

theorem cString_split_join:
  assumes "c \<noteq> 0" and "\<forall>q \<in> set (p # ps). nonul q \<and> c \<notin> set q"
  shows "(p \<noteq> [] \<or> ps = [] \<longrightarrow>
            cString_split (cstr (join c (p # ps))) (cstr [c]) = Some (Inr (map cstr (p # ps)))) \<and>
         cString_split (cstr (join c ([] # p # ps))) (cstr [c]) = Some (Inr (map cstr ((c # p) # ps)))"
proof -
  have "join c ([] # p # ps) = join c ((c # p) # ps)"
    by (cases ps) auto
  then show ?thesis
    using split_simp [OF assms] split_first [OF assms(1), of "c # p" ps] assms by simp
qed

theorem cString_split_join_witness:
  "ch CHR '','' \<noteq> 0 \<and> nonul (lit ''a'') \<and> ch CHR '','' \<notin> set (lit ''a'') \<and>
   nonul (lit ''b'') \<and> ch CHR '','' \<notin> set (lit ''b'') \<and> lit ''a'' \<noteq> [] \<and>
   cString_split (cstr (lit ''a,,b'')) (cstr [ch CHR '','']) = Some (Inr [cstr (lit ''a''), cstr [], cstr (lit ''b'')]) \<and>
   cString_split (cstr (lit '',a,,b'')) (cstr [ch CHR '','']) = Some (Inr [cstr (lit '',a''), cstr [], cstr (lit ''b'')])"
  using cString_split_join [of "ch CHR '',''" "lit ''a''" "[[], lit ''b'']"]
  by (simp add: lit_def ch_def)

text \<open>
  C35: \<open>==\<close> is equality of the characters and \<open>compare\<close> their lexicographic order, while
  \<open>operator <\<close> is the lexicographic order of the lower case forms, a strict order. The two do not
  fit together: of two strings that differ in case only, each is greater than the other.
\<close>

theorem cString_order:
  assumes "nonul a" and "nonul b"
  shows "cString_compare (cstr a) (cstr b) =
           (if a = b then EqualTo else if a < b then LowerThan else GreaterThan) \<and>
         (cString_eq (cstr a) (cstr b) \<longleftrightarrow> a = b) \<and>
         (cString_less (cstr a) (cstr b) \<longleftrightarrow> map cChar_getLowercase a < map cChar_getLowercase b) \<and>
         (cString_greater (cstr a) (cstr b) \<and> cString_greater (cstr b) (cstr a) \<longleftrightarrow>
            a \<noteq> b \<and> map cChar_getLowercase a = map cChar_getLowercase b)"
proof -
  have eq: "cString_eq (cstr a) (cstr b) \<longleftrightarrow> a = b" "cString_eq (cstr b) (cstr a) \<longleftrightarrow> a = b"
    using assms by (auto simp: cString_eq_def cstr_simps)
  have less: "cString_less (cstr a) (cstr b) \<longleftrightarrow> map cChar_getLowercase a < map cChar_getLowercase b"
    "cString_less (cstr b) (cstr a) \<longleftrightarrow> map cChar_getLowercase b < map cChar_getLowercase a"
    using assms by (auto simp: cString_less_def cstr_simps Let_def)
  show ?thesis
    using assms by (auto simp: cString_greater_def eq less compare_simp)
qed

theorem cString_order_witness:
  "nonul (lit ''a'') \<and> nonul (lit ''A'') \<and>
   cString_greater (cstr (lit ''a'')) (cstr (lit ''A'')) \<and> cString_greater (cstr (lit ''A'')) (cstr (lit ''a''))"
  using cString_order [of "lit ''a''" "lit ''A''"] by (simp add: lit_def cChar_getLowercase_def ch_def word_sle_eq)

end
