(* ===== verification/XWildcard.thy ===== *)
theory XWildcard
  imports XStringProps
begin

text \<open>
  The pattern matcher of data/wildcardMatcher.cpp: \<open>match\<close> with its loop over the pattern, the
  loop over the suffixes at a star, and the language that it decides.
\<close>

text \<open>
  \<open>match_loop\<close> walks over the pattern from position \<open>i\<close>. At a star \<open>match_tails\<close> tries the rest
  of the pattern on every suffix of the rest of the string; that recursive call takes the
  default \<open>True\<close> for \<open>isCaseSensetive\<close>. The first argument is fuel, \<open>None\<close> is the result
  when it runs out; the pattern of a recursive call is shorter, so its length is enough.
\<close>

function (sequential)
  wildcard_match :: "nat \<Rightarrow> cString \<Rightarrow> cString \<Rightarrow> bool \<Rightarrow> bool option" and
  match_loop :: "nat \<Rightarrow> cString \<Rightarrow> cString \<Rightarrow> bool \<Rightarrow> nat \<Rightarrow> nat \<Rightarrow> bool option" and
  match_tails :: "nat \<Rightarrow> cString \<Rightarrow> cString \<Rightarrow> nat \<Rightarrow> nat \<Rightarrow> bool option"
where
  "wildcard_match 0 s p sensitive = None"
| "wildcard_match (Suc n) s p sensitive =
     (if cString_length p = 0 then Some (cString_length s = 0)
      else match_loop n s p sensitive 0 (cString_length p))"
| "match_loop n s p sensitive i 0 = Some True"
| "match_loop n s p sensitive i (Suc k) =
     (let c = m_buffer p ! i in
      if c = ch CHR ''?'' then
        (if cString_length s \<le> i then Some False else match_loop n s p sensitive (i + 1) k)
      else if c = ch CHR ''*'' then
        (if cString_length p = i + 1 then Some True
         else if cString_length s = i then Some False
         else
           let newString = cString_right s (to_int (cString_length s - i));
               secondPattern = cString_right p (to_int (cString_length p - i - 1))
           in match_tails n newString secondPattern 0 (cString_length newString))
      else
        (if cString_length s \<le> i then Some False
         else if sensitive then
           (if m_buffer s ! i \<noteq> c then Some False else match_loop n s p sensitive (i + 1) k)
         else
           (if cChar_getUppercase (m_buffer s ! i) \<noteq> cChar_getUppercase c then Some False
            else match_loop n s p sensitive (i + 1) k)))"
| "match_tails n s p j 0 = Some False"
| "match_tails n s p j (Suc k) =
     (case wildcard_match n (cString_right s (to_int (cString_length s - j))) p True of
        None \<Rightarrow> None
      | Some b \<Rightarrow> if b then Some True else match_tails n s p (j + 1) k)"
  by pat_completeness auto
termination
  by (relation "measures
        [\<lambda>x. case x of Inl (n, _) \<Rightarrow> n | Inr (Inl (n, _)) \<Rightarrow> n | Inr (Inr (n, _)) \<Rightarrow> n,
         \<lambda>x. case x of Inl _ \<Rightarrow> 0 | Inr (Inl _) \<Rightarrow> 2 | Inr (Inr _) \<Rightarrow> 1,
         \<lambda>x. case x of Inl _ \<Rightarrow> 0 | Inr (Inl (_, _, _, _, _, k)) \<Rightarrow> k | Inr (Inr (_, _, _, _, k)) \<Rightarrow> k]") auto

definition cWildcardMatcher_match :: "cString \<Rightarrow> cString \<Rightarrow> bool \<Rightarrow> bool option" where
  "cWildcardMatcher_match s p sensitive = wildcard_match (cString_length p + 1) s p sensitive"

subsection \<open>The matcher on lists\<close>

abbreviation question :: character where "question \<equiv> ch CHR ''?''"
abbreviation star :: character where "star \<equiv> ch CHR ''*''"

definition same_char :: "bool \<Rightarrow> character \<Rightarrow> character \<Rightarrow> bool" where
  "same_char sensitive a b \<longleftrightarrow>
     (if sensitive then a = b else cChar_getUppercase a = cChar_getUppercase b)"

fun wild :: "bool \<Rightarrow> character list \<Rightarrow> character list \<Rightarrow> bool" where
  "wild sensitive s [] \<longleftrightarrow> True"
| "wild sensitive s (c # p) \<longleftrightarrow>
     (if c = question then s \<noteq> [] \<and> wild sensitive (tl s) p
      else if c = star then p = [] \<or> (\<exists>j < length s. wild True (drop j s) p)
      else s \<noteq> [] \<and> same_char sensitive (hd s) c \<and> wild sensitive (tl s) p)"

lemma right_rest:
  assumes "nonul cs" "length cs < 2 ^ 31" "i \<le> length cs"
  shows "cString_right (cstr cs) (to_int (length cs - i)) = cstr (drop i cs)"
proof -
  have "length cs - i < 2 ^ 31" using assms(2) by simp
  then have "nat (to_int (length cs - i)) = length cs - i" by (simp only: to_int_small nat_int)
  then show ?thesis using right_simp [OF assms(1,2)] assms(3) by simp
qed

lemma match_tails_simp:
  assumes "nonul s" "length s < 2 ^ 31"
    and "\<And>j. wildcard_match n (cstr (drop j s)) (cstr p) True = Some (wild True (drop j s) p)"
  shows "j + k = length s \<Longrightarrow>
     match_tails n (cstr s) (cstr p) j k = Some (\<exists>i. j \<le> i \<and> i < length s \<and> wild True (drop i s) p)"
proof (induction k arbitrary: j)
  case (Suc k)
  have r: "cString_right (cstr s) (to_int (length s - j)) = cstr (drop j s)"
    using assms(1,2) Suc.prems by (intro right_rest) auto
  have "j \<le> i \<longleftrightarrow> i = j \<or> Suc j \<le> i" for i by auto
  then have e: "(\<exists>i. j \<le> i \<and> i < length s \<and> wild True (drop i s) p) \<longleftrightarrow>
      wild True (drop j s) p \<or> (\<exists>i. Suc j \<le> i \<and> i < length s \<and> wild True (drop i s) p)"
    using Suc.prems by auto
  show ?case
    using Suc by (simp add: r assms(3) e)
qed auto

lemma match_loop_simp:
  assumes "nonul p" "length p < 2 ^ 31" "nonul s" "length s < 2 ^ 31"
    and tails: "\<And>t q. nonul t \<Longrightarrow> length t < 2 ^ 31 \<Longrightarrow> nonul q \<Longrightarrow> q \<noteq> [] \<Longrightarrow> length q < length p \<Longrightarrow>
      wildcard_match n (cstr t) (cstr q) True = Some (wild True t q)"
  shows "i + k = length p \<Longrightarrow> i \<le> length s \<Longrightarrow>
     match_loop n (cstr s) (cstr p) sensitive i k = Some (wild sensitive (drop i s) (drop i p))"
proof (induction k arbitrary: i)
  case (Suc k)
  let ?t = "drop i s" and ?q = "drop (Suc i) p"
  have d: "drop i p = p ! i # ?q"
    using Suc.prems by (simp add: Cons_nth_drop_Suc)
  have c: "(p @ [0]) ! i = p ! i" using Suc.prems by (simp add: nth_append)
  show ?case
  proof (cases "p ! i = star")
    case True
    have l: "length p = Suc i \<longleftrightarrow> ?q = []" "length s = i \<longleftrightarrow> ?t = []"
      using Suc.prems by auto
    have r: "cString_right (cstr s) (to_int (length s - i)) = cstr ?t"
      "cString_right (cstr p) (to_int (length p - Suc i)) = cstr ?q"
      using Suc.prems assms(1-4) by (intro right_rest; simp)+
    have tl: "match_tails n (cstr ?t) (cstr ?q) 0 (length ?t) = Some (\<exists>j < length ?t. wild True (drop j ?t) ?q)"
      if "?q \<noteq> []"
      using match_tails_simp [of ?t n ?q 0 "length ?t"] assms Suc.prems that by (auto simp: nonul_sub)
    have "match_loop n (cstr s) (cstr p) sensitive i (Suc k) =
        (if ?q = [] then Some True else if ?t = [] then Some False
         else match_tails n (cstr ?t) (cstr ?q) 0 (length ?t))"
      using True by (simp add: c l r Let_def ch_def)
    also have "\<dots> = Some (wild sensitive ?t (drop i p))"
      using tl unfolding d by (simp add: True ch_def)
    finally show ?thesis .
  next
    case False
    show ?thesis
    proof (cases "length s \<le> i")
      case True
      then show ?thesis using False unfolding d by (simp add: c Let_def)
    next
      case nonempty: False
      then have t: "?t \<noteq> []" "hd ?t = s ! i" "tl ?t = drop (Suc i) s" "(s @ [0]) ! i = s ! i"
        by (simp_all add: hd_drop_conv_nth tl_drop drop_Suc nth_append)
      have IH: "match_loop n (cstr s) (cstr p) sensitive (Suc i) k = Some (wild sensitive (drop (Suc i) s) ?q)"
        using Suc nonempty by simp
      show ?thesis
        using IH False nonempty unfolding d by (cases sensitive) (simp_all add: c t Let_def same_char_def)
    qed
  qed
qed simp

lemma wildcard_match_simp:
  "nonul p \<Longrightarrow> length p < 2 ^ 31 \<Longrightarrow> nonul s \<Longrightarrow> length s < 2 ^ 31 \<Longrightarrow> length p < n \<Longrightarrow>
     wildcard_match n (cstr s) (cstr p) sensitive = Some (if p = [] then s = [] else wild sensitive s p)"
proof (induction n arbitrary: s p sensitive)
  case (Suc n)
  have "wildcard_match n (cstr t) (cstr q) True = Some (wild True t q)"
    if "nonul t" "length t < 2 ^ 31" "nonul q" "q \<noteq> []" "length q < length p" for t q
    using Suc.IH [of q t True] that Suc.prems by simp
  then have "match_loop n (cstr s) (cstr p) sensitive 0 (length p) = Some (wild sensitive s p)"
    using match_loop_simp [of p s n 0 "length p" sensitive] Suc.prems by simp
  then show ?case by simp
qed simp

subsection \<open>The language of a pattern\<close>

fun in_language :: "character list \<Rightarrow> character list \<Rightarrow> bool" where
  "in_language [] u \<longleftrightarrow> u = []"
| "in_language (c # p) u \<longleftrightarrow>
     (if c = question then (\<exists>a v. u = a # v \<and> in_language p v)
      else if c = star then (\<exists>v w. u = v @ w \<and> in_language p w)
      else (\<exists>v. u = c # v \<and> in_language p v))"

fun no_double_star :: "character list \<Rightarrow> bool" where
  "no_double_star (a # b # p) \<longleftrightarrow> \<not> (a = star \<and> b = star) \<and> no_double_star (b # p)"
| "no_double_star _ \<longleftrightarrow> True"

lemma no_double_star_tl: "no_double_star (c # p) \<Longrightarrow> no_double_star p"
  by (cases p) auto

lemma question_star: "question \<noteq> star" by (simp add: ch_def)

text \<open>The loop ends with the pattern, so it accepts every string with a prefix in the language.\<close>

lemma wild_language:
  "no_double_star p \<Longrightarrow> wild True s p \<longleftrightarrow> (\<exists>u v. s = u @ v \<and> in_language p u)"
proof (induction p arbitrary: s)
  case (Cons c p)
  have IH: "wild True t p \<longleftrightarrow> (\<exists>u v. t = u @ v \<and> in_language p u)" for t
    using Cons no_double_star_tl by blast
  consider "c = question" | "c = star" | "c \<noteq> question" "c \<noteq> star" by blast
  then show ?case
  proof cases
    case 1
    then show ?thesis by (cases s) (auto simp: IH Cons_eq_append_conv)
  next
    case 2
    have nonempty: "u \<noteq> []" if "p \<noteq> []" "in_language p u" for u
      using Cons.prems that 2 by (cases p) (auto split: if_splits)
    have "wild True s (c # p) \<longleftrightarrow> p = [] \<or> (\<exists>j < length s. \<exists>u v. drop j s = u @ v \<and> in_language p u)"
      using 2 question_star by (simp add: IH)
    also have "\<dots> \<longleftrightarrow> (\<exists>x u v. s = x @ u @ v \<and> in_language p u)"
    proof (cases "p = []")
      case True then show ?thesis by auto
    next
      case False
      show ?thesis
      proof
        assume "p = [] \<or> (\<exists>j < length s. \<exists>u v. drop j s = u @ v \<and> in_language p u)"
        then obtain j u v where "drop j s = u @ v" "in_language p u" using False by auto
        then show "\<exists>x u v. s = x @ u @ v \<and> in_language p u" by (metis append_take_drop_id)
      next
        assume "\<exists>x u v. s = x @ u @ v \<and> in_language p u"
        then obtain x u v where "s = x @ u @ v" "in_language p u" by blast
        then have "length x < length s" "drop (length x) s = u @ v" using nonempty False by auto
        then show "p = [] \<or> (\<exists>j < length s. \<exists>u v. drop j s = u @ v \<and> in_language p u)"
          using \<open>in_language p u\<close> by blast
      qed
    qed
    also have "\<dots> \<longleftrightarrow> (\<exists>u v. s = u @ v \<and> in_language (c # p) u)"
      using question_star by (simp add: 2) (metis append.assoc)
    finally show ?thesis .
  next
    case 3
    then show ?thesis by (cases s) (auto simp: IH Cons_eq_append_conv same_char_def)
  qed
qed auto

text \<open>
  C36: \<open>match\<close> returns for all strings. With a pattern that is not empty and has no two stars in a
  row, the case sensitive match accepts exactly the strings that have a prefix in the language
  of the pattern: \<open>?\<close> stands for one character, \<open>*\<close> for any string. (What follows the prefix is
  not looked at.) The empty pattern matches the empty string only. A match without case of a
  pattern that begins with a star is case sensitive.
\<close>

theorem wildcard_language:
  assumes "nonul p" and "length p + 1 < 2 ^ 31" and "nonul s" and "length s < 2 ^ 31" and "p \<noteq> []"
    and "no_double_star p"
  shows "cWildcardMatcher_match (cstr s) (cstr p) True = Some (\<exists>u v. s = u @ v \<and> in_language p u) \<and>
         cWildcardMatcher_match (cstr s) (cstr []) sensitive = Some (s = []) \<and>
         cWildcardMatcher_match (cstr s) (cstr (star # p)) False =
           cWildcardMatcher_match (cstr s) (cstr (star # p)) True"
proof (intro conjI)
  show "cWildcardMatcher_match (cstr s) (cstr p) True = Some (\<exists>u v. s = u @ v \<and> in_language p u)"
    using wildcard_match_simp [of p s "length p + 1" True] wild_language [OF assms(6), of s] assms
    unfolding cWildcardMatcher_match_def by (simp only: cString_length_cstr) simp
  show "cWildcardMatcher_match (cstr s) (cstr []) sensitive = Some (s = [])"
    by (simp add: cWildcardMatcher_match_def)
  have "star \<noteq> 0" by (simp add: ch_def)
  then show "cWildcardMatcher_match (cstr s) (cstr (star # p)) False =
      cWildcardMatcher_match (cstr s) (cstr (star # p)) True"
    using wildcard_match_simp [of "star # p" s "length (star # p) + 1" True]
      wildcard_match_simp [of "star # p" s "length (star # p) + 1" False] assms question_star
    unfolding cWildcardMatcher_match_def by (simp only: cString_length_cstr) simp
qed

theorem wildcard_language_witness:
  "nonul (lit ''a*c'') \<and> no_double_star (lit ''a*c'') \<and> nonul (lit ''abcd'') \<and>
   cWildcardMatcher_match (cstr (lit ''abcd'')) (cstr (lit ''a*c'')) True =
     Some (\<exists>u v. lit ''abcd'' = u @ v \<and> in_language (lit ''a*c'') u)"
  using wildcard_language [of "lit ''a*c''" "lit ''abcd''" True] by (simp add: lit_def ch_def)

end
