(* ===== verification/XList.thy ===== *)
theory XList
  imports XPrelude
begin

text \<open>
  The doubly linked list of data/list.h and data/list.inl on an explicit heap of nodes. A list
  holds two pointers, to the first node and to the end node, which every list has and which
  carries no object; \<open>m_first = m_last\<close> is the empty list. Following the null pointer or a node
  that was deleted is undefined behaviour.
\<close>

subsection \<open>Nodes and the heap\<close>

type_synonym ptr = "nat option"

record 'a ListNode =
  information :: "'a option"
  node_next :: ptr
  node_prev :: ptr

record 'a node_heap =
  nodes :: "nat \<Rightarrow> 'a ListNode option"
  top :: nat

definition load :: "'a node_heap \<Rightarrow> ptr \<Rightarrow> 'a ListNode res" where
  "load h p = (case p of None \<Rightarrow> Inl UNDEFINED_BEHAVIOUR
     | Some a \<Rightarrow> (case nodes h a of None \<Rightarrow> Inl UNDEFINED_BEHAVIOUR | Some n \<Rightarrow> Inr n))"

definition modify :: "'a node_heap \<Rightarrow> ptr \<Rightarrow> ('a ListNode \<Rightarrow> 'a ListNode) \<Rightarrow> 'a node_heap res" where
  "modify h p f = bind_res (load h p) (\<lambda>n. Inr (h\<lparr>nodes := (nodes h)(the p \<mapsto> f n)\<rparr>))"

definition set_next :: "'a node_heap \<Rightarrow> ptr \<Rightarrow> ptr \<Rightarrow> 'a node_heap res" where
  "set_next h p q = modify h p (\<lambda>n. n\<lparr>node_next := q\<rparr>)"

definition set_prev :: "'a node_heap \<Rightarrow> ptr \<Rightarrow> ptr \<Rightarrow> 'a node_heap res" where
  "set_prev h p q = modify h p (\<lambda>n. n\<lparr>node_prev := q\<rparr>)"

text \<open>\<open>new ListNode (node)\<close> copies the object; the links are set by the caller.\<close>

definition new_ListNode :: "'a node_heap \<Rightarrow> 'a option \<Rightarrow> 'a node_heap \<times> ptr" where
  "new_ListNode h node =
     (h\<lparr>nodes := (nodes h)(top h \<mapsto> \<lparr>information = node, node_next = None, node_prev = None\<rparr>),
        top := top h + 1\<rparr>, Some (top h))"

definition delete_ListNode :: "'a node_heap \<Rightarrow> ptr \<Rightarrow> 'a node_heap res" where
  "delete_ListNode h p = bind_res (load h p) (\<lambda>_. Inr (h\<lparr>nodes := (nodes h)(the p := None)\<rparr>))"

subsection \<open>The operations\<close>

record cList =
  m_first :: ptr
  m_last :: ptr

definition cList_initList :: "'a node_heap \<Rightarrow> ('a node_heap \<times> cList) res" where
  "cList_initList h =
     (let (h, e) = new_ListNode h None in
      bind_res (set_next h e None) (\<lambda>h.
      bind_res (set_prev h e None) (\<lambda>h.
      Inr (h, \<lparr>m_first = e, m_last = e\<rparr>))))"

partial_function (option) freeList_loop :: "'a node_heap \<Rightarrow> ptr \<Rightarrow> 'a node_heap res option" where
  "freeList_loop h temp =
     (case temp of
        None \<Rightarrow> Some (Inr h)
      | Some a \<Rightarrow>
          (case bind_res (load h temp) (\<lambda>n. bind_res (delete_ListNode h temp) (\<lambda>h. Inr (h, node_next n))) of
             Inl e \<Rightarrow> Some (Inl e)
           | Inr (h, temp) \<Rightarrow> freeList_loop h temp))"

definition cList_freeList :: "'a node_heap \<Rightarrow> cList \<Rightarrow> ('a node_heap \<times> cList) res option" where
  "cList_freeList h l =
     map_option (map_sum id (\<lambda>h. (h, \<lparr>m_first = None, m_last = None\<rparr>))) (freeList_loop h (m_first l))"

definition cList_new :: "'a node_heap \<Rightarrow> ('a node_heap \<times> cList) res" where
  "cList_new h = cList_initList h"

definition cList_isEmpty :: "cList \<Rightarrow> bool" where
  "cList_isEmpty l \<longleftrightarrow> m_first l = m_last l"

definition cList_append :: "'a node_heap \<Rightarrow> cList \<Rightarrow> 'a \<Rightarrow> ('a node_heap \<times> cList) res" where
  "cList_append h l node =
     (let (h, tmp) = new_ListNode h (Some node) in
      if m_first l = m_last l then
        bind_res (set_prev h tmp None) (\<lambda>h.
        bind_res (set_next h tmp (m_last l)) (\<lambda>h.
        bind_res (set_prev h (m_last l) tmp) (\<lambda>h.
        Inr (h, l\<lparr>m_first := tmp\<rparr>))))
      else
        bind_res (load h (m_last l)) (\<lambda>n.
        bind_res (set_prev h tmp (node_prev n)) (\<lambda>h.
        bind_res (set_next h tmp (m_last l)) (\<lambda>h.
        bind_res (set_next h (node_prev n) tmp) (\<lambda>h.
        bind_res (set_prev h (m_last l) tmp) (\<lambda>h.
        Inr (h, l)))))))"

definition cList_new_object :: "'a node_heap \<Rightarrow> 'a \<Rightarrow> ('a node_heap \<times> cList) res" where
  "cList_new_object h object = bind_res (cList_initList h) (\<lambda>(h, l). cList_append h l object)"

text \<open>\<open>insert (position, node)\<close> before the position of an iterator, and \<open>insert (node)\<close> in front.\<close>

definition cList_insert_at :: "'a node_heap \<Rightarrow> cList \<Rightarrow> ptr \<Rightarrow> 'a \<Rightarrow> ('a node_heap \<times> cList) res" where
  "cList_insert_at h l position node =
     (if m_first l = m_last l then cList_append h l node
      else
        let (h, tmp) = new_ListNode h (Some node) in
        bind_res (load h position) (\<lambda>n.
        bind_res (set_prev h tmp (node_prev n)) (\<lambda>h.
        bind_res (set_next h tmp position) (\<lambda>h.
        bind_res (set_prev h position tmp) (\<lambda>h.
        if m_first l = position then Inr (h, l\<lparr>m_first := tmp\<rparr>)
        else bind_res (set_next h (node_prev n) tmp) (\<lambda>h. Inr (h, l)))))))"

definition cList_insert :: "'a node_heap \<Rightarrow> cList \<Rightarrow> 'a \<Rightarrow> ('a node_heap \<times> cList) res" where
  "cList_insert h l node =
     (let (h, tmp) = new_ListNode h (Some node) in
      bind_res (set_prev h tmp None) (\<lambda>h.
      bind_res (set_next h tmp (m_first l)) (\<lambda>h.
      bind_res (set_prev h (m_first l) tmp) (\<lambda>h.
      Inr (h, l\<lparr>m_first := tmp\<rparr>)))))"

definition cList_removeAll :: "'a node_heap \<Rightarrow> cList \<Rightarrow> ('a node_heap \<times> cList) res option" where
  "cList_removeAll h l =
     map_option (\<lambda>r. bind_res r (\<lambda>(h, _). cList_initList h)) (cList_freeList h l)"

text \<open>
  \<open>remove (position)\<close> unlinks a node and returns the position behind it. The end node has no
  next node, so removing it follows the null pointer before the test for the empty list.
\<close>

definition cList_remove_at :: "'a node_heap \<Rightarrow> cList \<Rightarrow> ptr \<Rightarrow> ('a node_heap \<times> cList \<times> ptr) res" where
  "cList_remove_at h l position =
     bind_res (load h position) (\<lambda>tmp.
     bind_res (delete_ListNode h position) (\<lambda>h.
     bind_res (set_prev h (node_next tmp) (node_prev tmp)) (\<lambda>h.
     if node_prev tmp = None then
       (if m_first l = m_last l then Inl EXCEPTION_OUT_OF_RANGE
        else Inr (h, l\<lparr>m_first := node_next tmp\<rparr>, node_next tmp))
     else bind_res (set_next h (node_prev tmp) (node_next tmp)) (\<lambda>h. Inr (h, l, node_next tmp)))))"

text \<open>The scan that \<open>isIn\<close> and \<open>remove\<close> share.\<close>

partial_function (option) search_loop :: "'a node_heap \<Rightarrow> ptr \<Rightarrow> 'a \<Rightarrow> ptr \<Rightarrow> ptr res option" where
  "search_loop h fin object tmp =
     (if tmp = fin then Some (Inr tmp)
      else
        case load h tmp of
          Inl e \<Rightarrow> Some (Inl e)
        | Inr n \<Rightarrow>
            (case information n of
               None \<Rightarrow> Some (Inl UNDEFINED_BEHAVIOUR)
             | Some x \<Rightarrow> if x = object then Some (Inr tmp) else search_loop h fin object (node_next n)))"

definition cList_isIn :: "'a node_heap \<Rightarrow> cList \<Rightarrow> 'a \<Rightarrow> bool res option" where
  "cList_isIn h l object =
     map_option (map_sum id (\<lambda>tmp. tmp \<noteq> m_last l)) (search_loop h (m_last l) object (m_first l))"

definition cList_remove :: "'a node_heap \<Rightarrow> cList \<Rightarrow> 'a \<Rightarrow> ('a node_heap \<times> cList) res option" where
  "cList_remove h l object =
     map_option (\<lambda>r. bind_res r (\<lambda>position.
       if position = m_last l then Inl EXCEPTION_OUT_OF_RANGE
       else
         bind_res (load h position) (\<lambda>tmp.
         bind_res (delete_ListNode h position) (\<lambda>h.
         bind_res (set_prev h (node_next tmp) (node_prev tmp)) (\<lambda>h.
         if node_prev tmp = None then Inr (h, l\<lparr>m_first := node_next tmp\<rparr>)
         else bind_res (set_next h (node_prev tmp) (node_next tmp)) (\<lambda>h. Inr (h, l)))))))
     (search_loop h (m_last l) object (m_first l))"

text \<open>\<open>clone\<close> from another list; \<open>*index\<close> is the object of a node.\<close>

definition iterator_get :: "'a node_heap \<Rightarrow> ptr \<Rightarrow> 'a res" where
  "iterator_get h p =
     bind_res (load h p) (\<lambda>n. case information n of None \<Rightarrow> Inl UNDEFINED_BEHAVIOUR | Some x \<Rightarrow> Inr x)"

definition iterator_next :: "'a node_heap \<Rightarrow> ptr \<Rightarrow> ptr res" where
  "iterator_next h p = bind_res (load h p) (\<lambda>n. Inr (node_next n))"

definition iterator_prev :: "'a node_heap \<Rightarrow> ptr \<Rightarrow> ptr res" where
  "iterator_prev h p = bind_res (load h p) (\<lambda>n. Inr (node_prev n))"

fun iterator_plus :: "'a node_heap \<Rightarrow> ptr \<Rightarrow> nat \<Rightarrow> ptr res" where
  "iterator_plus h p 0 = Inr p"
| "iterator_plus h p (Suc n) = bind_res (iterator_next h p) (\<lambda>p. iterator_plus h p n)"

fun iterator_minus :: "'a node_heap \<Rightarrow> ptr \<Rightarrow> nat \<Rightarrow> ptr res" where
  "iterator_minus h p 0 = Inr p"
| "iterator_minus h p (Suc n) = bind_res (iterator_prev h p) (\<lambda>p. iterator_minus h p n)"

text \<open>\<open>operator <\<close> looks for the other position from this one on, this one included.\<close>

partial_function (option) iterator_less :: "'a node_heap \<Rightarrow> ptr \<Rightarrow> ptr \<Rightarrow> bool res option" where
  "iterator_less h index other =
     (if index = None then Some (Inr False)
      else if index = other then Some (Inr True)
      else case iterator_next h index of Inl e \<Rightarrow> Some (Inl e) | Inr index \<Rightarrow> iterator_less h index other)"

definition cList_begin :: "cList \<Rightarrow> ptr" where
  "cList_begin l = m_first l"

definition cList_end :: "cList \<Rightarrow> ptr" where
  "cList_end l = m_last l"

partial_function (option) clone_loop ::
  "'a node_heap \<Rightarrow> cList \<Rightarrow> ptr \<Rightarrow> ptr \<Rightarrow> ('a node_heap \<times> cList) res option"
where
  "clone_loop h l fin index =
     (if index = fin then Some (Inr (h, l))
      else
        case bind_res (iterator_get h index) (\<lambda>x.
             bind_res (cList_append h l x) (\<lambda>(h, l).
             bind_res (iterator_next h index) (\<lambda>index. Inr (h, l, index)))) of
          Inl e \<Rightarrow> Some (Inl e)
        | Inr (h, l, index) \<Rightarrow> clone_loop h l fin index)"

definition cList_clone :: "'a node_heap \<Rightarrow> cList \<Rightarrow> cList \<Rightarrow> bool \<Rightarrow> ('a node_heap \<times> cList) res option" where
  "cList_clone h l other assignPointer =
     (case cList_freeList h l of
        None \<Rightarrow> None
      | Some (Inl e) \<Rightarrow> Some (Inl e)
      | Some (Inr (h, l)) \<Rightarrow>
          if assignPointer then Some (Inr (h, \<lparr>m_first = m_first other, m_last = m_last other\<rparr>))
          else
            (case cList_initList h of
               Inl e \<Rightarrow> Some (Inl e)
             | Inr (h, l) \<Rightarrow> clone_loop h l (cList_end other) (cList_begin other)))"

text \<open>The copy constructor starts without nodes.\<close>

definition cList_new_copy :: "'a node_heap \<Rightarrow> cList \<Rightarrow> ('a node_heap \<times> cList) res option" where
  "cList_new_copy h other =
     (case cList_initList h of Inl e \<Rightarrow> Some (Inl e) | Inr (h, l) \<Rightarrow> cList_clone h l other False)"

text \<open>\<open>list = list\<close>: \<open>clone\<close> frees the nodes it is about to copy.\<close>

definition cList_assign_self :: "'a node_heap \<Rightarrow> cList \<Rightarrow> ('a node_heap \<times> cList) res option" where
  "cList_assign_self h l =
     (case cList_freeList h l of
        None \<Rightarrow> None
      | Some (Inl e) \<Rightarrow> Some (Inl e)
      | Some (Inr (h, l)) \<Rightarrow>
          (case cList_initList h of
             Inl e \<Rightarrow> Some (Inl e)
           | Inr (h, l) \<Rightarrow> clone_loop h l (cList_end l) (cList_begin l)))"

partial_function (option) length_loop :: "'a node_heap \<Rightarrow> ptr \<Rightarrow> ptr \<Rightarrow> nat \<Rightarrow> nat res option" where
  "length_loop h fin i cnt =
     (if i = fin then Some (Inr cnt)
      else case iterator_next h i of Inl e \<Rightarrow> Some (Inl e) | Inr i \<Rightarrow> length_loop h fin i (cnt + 1))"

definition cList_length :: "'a node_heap \<Rightarrow> cList \<Rightarrow> nat res option" where
  "cList_length h l = length_loop h (cList_end l) (cList_begin l) 0"

subsection \<open>Segments of nodes\<close>

text \<open>
  \<open>hdp\<close> and \<open>lastp\<close> are the pointers to the first and the last node of a segment. A segment lists
  its nodes and what they carry, entered from \<open>pv\<close> and left to \<open>nx\<close>.
\<close>

definition hdp :: "nat list \<Rightarrow> ptr \<Rightarrow> ptr" where
  "hdp ns nx = (case ns of [] \<Rightarrow> nx | n # _ \<Rightarrow> Some n)"

definition lastp :: "ptr \<Rightarrow> nat list \<Rightarrow> ptr" where
  "lastp pv ns = (if ns = [] then pv else Some (last ns))"

lemma hdp_simps [simp]: "hdp [] nx = nx" "hdp (n # ns) nx = Some n"
  by (simp_all add: hdp_def)

lemma hdp_append [simp]: "hdp (ms @ ns) nx = hdp ms (hdp ns nx)"
  by (cases ms) auto

lemma lastp_simps [simp]: "lastp pv [] = pv" "lastp pv (n # ns) = lastp (Some n) ns"
  "lastp pv (ms @ ns) = lastp (lastp pv ms) ns"
  by (simp_all add: lastp_def)

fun dseg :: "(nat \<Rightarrow> 'a ListNode option) \<Rightarrow> ptr \<Rightarrow> nat list \<Rightarrow> 'a option list \<Rightarrow> ptr \<Rightarrow> bool" where
  "dseg H pv [] [] nx \<longleftrightarrow> True"
| "dseg H pv (n # ns) (x # xs) nx \<longleftrightarrow>
     H n = Some \<lparr>information = x, node_next = hdp ns nx, node_prev = pv\<rparr> \<and> dseg H (Some n) ns xs nx"
| "dseg H pv _ _ nx \<longleftrightarrow> False"

lemma dseg_Nil [simp]: "dseg H pv [] xs nx \<longleftrightarrow> xs = []"
  by (cases xs) auto

lemma dseg_Cons:
  "dseg H pv (n # ns) xs nx \<longleftrightarrow> (\<exists>x ys. xs = x # ys \<and>
     H n = Some \<lparr>information = x, node_next = hdp ns nx, node_prev = pv\<rparr> \<and> dseg H (Some n) ns ys nx)"
  by (cases xs) auto

lemma dseg_length: "dseg H pv ns xs nx \<Longrightarrow> length ns = length xs"
  by (induction H pv ns xs nx rule: dseg.induct) auto

lemma dseg_append:
  "length ms = length us \<Longrightarrow>
     dseg H pv (ms @ ns) (us @ vs) nx \<longleftrightarrow> dseg H pv ms us (hdp ns nx) \<and> dseg H (lastp pv ms) ns vs nx"
  by (induction ms us arbitrary: pv rule: list_induct2) auto

lemma dseg_cong: "\<forall>a \<in> set ns. H' a = H a \<Longrightarrow> dseg H' pv ns xs nx = dseg H pv ns xs nx"
  by (induction H pv ns xs nx rule: dseg.induct) auto

lemma dseg_dom: "dseg H pv ns xs nx \<Longrightarrow> n \<in> set ns \<Longrightarrow> H n \<noteq> None"
  by (induction H pv ns xs nx rule: dseg.induct) auto

text \<open>What changes when the last node of a segment, or its first, gets a new neighbour.\<close>

lemma dseg_relink_last:
  assumes "\<forall>a \<in> set ms. (ms \<noteq> [] \<and> a = last ms) \<or> H' a = H a"
    and "ms \<noteq> [] \<Longrightarrow> H' (last ms) = map_option (\<lambda>n. n\<lparr>node_next := nx'\<rparr>) (H (last ms))"
    and "distinct ms"
  shows "dseg H pv ms us nx \<Longrightarrow> dseg H' pv ms us nx'"
  using assms
proof (induction H pv ms us nx rule: dseg.induct)
  case (2 H pv n ns x xs nx)
  show ?case
  proof (cases "ns = []")
    case False
    then obtain m ms where ns: "ns = m # ms" by (cases ns) auto
    have "n \<noteq> last ns" using 2(5) False by auto
    then have "H' n = H n" using 2(3) False by auto
    moreover have "dseg H' (Some n) ns xs nx'"
      by (rule 2(1)) (use 2 False in auto)
    ultimately show ?thesis using 2(2) ns by simp
  qed (use 2 in auto)
qed auto

lemma dseg_relink_first:
  assumes "H' p = map_option (\<lambda>n. n\<lparr>node_prev := pv'\<rparr>) (H p)" "\<forall>a \<in> set ns. H' a = H a"
  shows "dseg H pv (p # ns) xs nx \<Longrightarrow> dseg H' pv' (p # ns) xs nx"
  using assms dseg_cong [OF assms(2)] by (auto simp: dseg_Cons)

subsection \<open>Well formed lists\<close>

definition cList_rep :: "'a node_heap \<Rightarrow> cList \<Rightarrow> nat list \<Rightarrow> nat \<Rightarrow> 'a list \<Rightarrow> bool" where
  "cList_rep h l ns e xs \<longleftrightarrow>
     dseg (nodes h) None (ns @ [e]) (map Some xs @ [None]) None \<and> distinct (ns @ [e]) \<and>
     (\<forall>a. nodes h a \<noteq> None \<longrightarrow> a < top h) \<and>
     m_first l = hdp ns (Some e) \<and> m_last l = Some e"

lemma rep_length: "cList_rep h l ns e xs \<Longrightarrow> length ns = length xs"
  unfolding cList_rep_def by (auto dest: dseg_length)

lemma rep_split:
  assumes "cList_rep h l (ms @ ns) e (us @ vs)" "length ms = length us"
  shows "dseg (nodes h) None ms (map Some us) (hdp ns (Some e))"
    "dseg (nodes h) (lastp None ms) (ns @ [e]) (map Some vs @ [None]) None"
  using assms dseg_append [of ms "map Some us" "nodes h" None "ns @ [e]" "map Some vs @ [None]" None]
  by (simp_all add: cList_rep_def)

text \<open>The end node carries nothing and ends the chain.\<close>

lemma rep_end:
  assumes "cList_rep h l ns e xs"
  shows "nodes h e = Some \<lparr>information = None, node_next = None, node_prev = lastp None ns\<rparr>"
  using rep_split(2) [of h l ns "[]" e xs "[]"] rep_length [OF assms] assms by simp

lemma rep_node:
  assumes "cList_rep h l (ms @ n # ns) e (us @ x # vs)" "length ms = length us"
  shows "nodes h n = Some \<lparr>information = Some x, node_next = hdp ns (Some e), node_prev = lastp None ms\<rparr>"
  using rep_split(2) [OF assms] by (simp add: hdp_def split: list.splits)

lemma rep_last:
  assumes "cList_rep h l (ms @ ns) e (us @ vs)" "length ms = length us" "ms \<noteq> []"
  shows "\<exists>n. nodes h (last ms) = Some n"
  using rep_split(1) [OF assms(1,2)] assms(3) dseg_dom [of "nodes h" None ms _ _ "last ms"] by auto

text \<open>
  The effect of linking a node with object \<open>x\<close> between the nodes \<open>ms\<close> and the node \<open>p\<close>, and of
  unlinking \<open>n\<close> between \<open>ms\<close> and \<open>p\<close>.
\<close>

definition linked :: "'a node_heap \<Rightarrow> cList \<Rightarrow> nat list \<Rightarrow> nat \<Rightarrow> 'a \<Rightarrow> 'a node_heap \<Rightarrow> cList \<Rightarrow> bool" where
  "linked h l ms p x h' l' \<longleftrightarrow>
     nodes h' (top h) = Some \<lparr>information = Some x, node_next = Some p, node_prev = lastp None ms\<rparr> \<and>
     nodes h' p = map_option (\<lambda>n. n\<lparr>node_prev := Some (top h)\<rparr>) (nodes h p) \<and>
     (ms \<noteq> [] \<longrightarrow> nodes h' (last ms) = map_option (\<lambda>n. n\<lparr>node_next := Some (top h)\<rparr>) (nodes h (last ms))) \<and>
     (\<forall>a. a \<noteq> top h \<longrightarrow> a \<noteq> p \<longrightarrow> (ms = [] \<or> a \<noteq> last ms) \<longrightarrow> nodes h' a = nodes h a) \<and>
     top h' = top h + 1 \<and> m_last l' = m_last l \<and>
     m_first l' = (if ms = [] then Some (top h) else m_first l)"

definition unlinked :: "'a node_heap \<Rightarrow> cList \<Rightarrow> nat list \<Rightarrow> nat \<Rightarrow> nat \<Rightarrow> 'a node_heap \<Rightarrow> cList \<Rightarrow> bool" where
  "unlinked h l ms n p h' l' \<longleftrightarrow>
     nodes h' n = None \<and>
     nodes h' p = map_option (\<lambda>n. n\<lparr>node_prev := lastp None ms\<rparr>) (nodes h p) \<and>
     (ms \<noteq> [] \<longrightarrow> nodes h' (last ms) = map_option (\<lambda>n. n\<lparr>node_next := Some p\<rparr>) (nodes h (last ms))) \<and>
     (\<forall>a. a \<noteq> n \<longrightarrow> a \<noteq> p \<longrightarrow> (ms = [] \<or> a \<noteq> last ms) \<longrightarrow> nodes h' a = nodes h a) \<and>
     top h' = top h \<and> m_last l' = m_last l \<and>
     m_first l' = (if ms = [] then Some p else m_first l)"

lemma linked_rep:
  assumes r: "cList_rep h l (ms @ ns) e (us @ vs)" "length ms = length us"
    and k: "linked h l ms (hd (ns @ [e])) x h' l'"
  shows "cList_rep h' l' (ms @ top h # ns) e (us @ x # vs)"
    "dom (nodes h') = insert (top h) (dom (nodes h))"
proof -
  obtain p rest where p: "ns @ [e] = p # rest" by (cases "ns @ [e]") auto
  let ?H = "nodes h" and ?H' = "nodes h'"
  have hp: "hdp ns (Some e) = Some p" using p by (cases ns) auto
  have d: "distinct (ms @ p # rest)" using r(1) unfolding cList_rep_def p [symmetric] by simp
  have fresh: "\<forall>a. ?H a \<noteq> None \<longrightarrow> a < top h" using r(1) by (simp add: cList_rep_def)
  have s1: "dseg ?H None ms (map Some us) (Some p)" using rep_split(1) [OF r] hp by simp
  have s2: "dseg ?H (lastp None ms) (p # rest) (map Some vs @ [None]) None" using rep_split(2) [OF r] p by simp
  have in_dom: "\<forall>a \<in> set (ms @ p # rest). ?H a \<noteq> None"
    using s1 s2 dseg_dom by (metis UnE set_append)
  then have ne: "top h \<notin> set (ms @ p # rest)" using fresh by auto
  have k': "?H' (top h) = Some \<lparr>information = Some x, node_next = Some p, node_prev = lastp None ms\<rparr>"
    "?H' p = map_option (\<lambda>n. n\<lparr>node_prev := Some (top h)\<rparr>) (?H p)"
    "ms \<noteq> [] \<longrightarrow> ?H' (last ms) = map_option (\<lambda>n. n\<lparr>node_next := Some (top h)\<rparr>) (?H (last ms))"
    "\<And>a. a \<noteq> top h \<Longrightarrow> a \<noteq> p \<Longrightarrow> ms = [] \<or> a \<noteq> last ms \<Longrightarrow> ?H' a = ?H a"
    "top h' = top h + 1" "m_last l' = m_last l" "m_first l' = (if ms = [] then Some (top h) else m_first l)"
    using k by (auto simp: linked_def p)
  have t1: "dseg ?H' None ms (map Some us) (Some (top h))"
  proof (rule dseg_relink_last [OF _ _ _ s1])
    show "\<forall>a \<in> set ms. (ms \<noteq> [] \<and> a = last ms) \<or> ?H' a = ?H a"
    proof
      fix a assume "a \<in> set ms"
      then have "a \<noteq> top h" "a \<noteq> p" "ms \<noteq> []" using d ne by auto
      then show "(ms \<noteq> [] \<and> a = last ms) \<or> ?H' a = ?H a" using k'(4) [of a] by auto
    qed
  qed (use k'(3) d in auto)
  have t2: "dseg ?H' (Some (top h)) (p # rest) (map Some vs @ [None]) None"
  proof (rule dseg_relink_first [OF _ _ s2])
    show "\<forall>a \<in> set rest. ?H' a = ?H a"
    proof
      fix a assume a: "a \<in> set rest"
      have "a \<notin> set ms" using a d by auto
      then have "a \<noteq> top h" "a \<noteq> p" "ms = [] \<or> a \<noteq> last ms" using a d ne by auto
      then show "?H' a = ?H a" by (rule k'(4))
    qed
  qed (rule k'(2))
  have seg: "dseg ?H' None (ms @ top h # p # rest) (map Some us @ Some x # (map Some vs @ [None])) None"
    using t1 t2 k'(1) r(2) by (simp add: dseg_append)
  have dm: "(?H' a \<noteq> None) = (a = top h \<or> ?H a \<noteq> None)" for a
    using k'(1-4) in_dom by (cases "a = top h"; cases "a = p"; cases "ms \<noteq> [] \<and> a = last ms") auto
  then show "dom ?H' = insert (top h) (dom ?H)" by (auto simp: dom_def)
  have fr: "\<forall>a. ?H' a \<noteq> None \<longrightarrow> a < top h'"
    using dm fresh k'(5) by (metis Suc_eq_plus1 less_Suc_eq)
  show "cList_rep h' l' (ms @ top h # ns) e (us @ x # vs)"
    unfolding cList_rep_def using seg fr k'(6,7) r(1) ne d p hp
    by (cases ms) (auto simp: cList_rep_def)
qed

lemma unlinked_rep:
  assumes r: "cList_rep h l (ms @ n # ns) e (us @ x # vs)" "length ms = length us"
    and k: "unlinked h l ms n (hd (ns @ [e])) h' l'"
  shows "cList_rep h' l' (ms @ ns) e (us @ vs)" "dom (nodes h') = dom (nodes h) - {n}"
proof -
  obtain p rest where p: "ns @ [e] = p # rest" by (cases "ns @ [e]") auto
  let ?H = "nodes h" and ?H' = "nodes h'"
  have hp: "hdp ns (Some e) = Some p" using p by (cases ns) auto
  have d: "distinct (ms @ n # p # rest)" using r(1) unfolding cList_rep_def p [symmetric] by simp
  have fresh: "\<forall>a. ?H a \<noteq> None \<longrightarrow> a < top h" using r(1) by (simp add: cList_rep_def)
  have s1: "dseg ?H None ms (map Some us) (Some n)" using rep_split(1) [OF r] by simp
  have s2: "dseg ?H (Some n) (p # rest) (map Some vs @ [None]) None" "?H n \<noteq> None"
    using rep_split(2) [OF r] p by simp_all
  have in_dom: "\<forall>a \<in> set (ms @ p # rest). ?H a \<noteq> None"
    using s1 s2 dseg_dom by (metis UnE set_append)
  have k': "?H' n = None"
    "?H' p = map_option (\<lambda>n. n\<lparr>node_prev := lastp None ms\<rparr>) (?H p)"
    "ms \<noteq> [] \<longrightarrow> ?H' (last ms) = map_option (\<lambda>n. n\<lparr>node_next := Some p\<rparr>) (?H (last ms))"
    "\<And>a. a \<noteq> n \<Longrightarrow> a \<noteq> p \<Longrightarrow> ms = [] \<or> a \<noteq> last ms \<Longrightarrow> ?H' a = ?H a"
    "top h' = top h" "m_last l' = m_last l" "m_first l' = (if ms = [] then Some p else m_first l)"
    using k by (auto simp: unlinked_def p)
  have t1: "dseg ?H' None ms (map Some us) (Some p)"
  proof (rule dseg_relink_last [OF _ _ _ s1])
    show "\<forall>a \<in> set ms. (ms \<noteq> [] \<and> a = last ms) \<or> ?H' a = ?H a"
    proof
      fix a assume "a \<in> set ms"
      then have "a \<noteq> n" "a \<noteq> p" "ms \<noteq> []" using d by auto
      then show "(ms \<noteq> [] \<and> a = last ms) \<or> ?H' a = ?H a" using k'(4) [of a] by auto
    qed
  qed (use k'(3) d in auto)
  have t2: "dseg ?H' (lastp None ms) (p # rest) (map Some vs @ [None]) None"
  proof (rule dseg_relink_first [OF _ _ s2(1)])
    show "\<forall>a \<in> set rest. ?H' a = ?H a"
    proof
      fix a assume a: "a \<in> set rest"
      have "a \<notin> set ms" using a d by auto
      then have "a \<noteq> n" "a \<noteq> p" "ms = [] \<or> a \<noteq> last ms" using a d by auto
      then show "?H' a = ?H a" by (rule k'(4))
    qed
  qed (rule k'(2))
  have seg: "dseg ?H' None (ms @ p # rest) (map Some us @ (map Some vs @ [None])) None"
    using t1 t2 r(2) by (simp add: dseg_append)
  have dm: "(?H' a \<noteq> None) = (a \<noteq> n \<and> ?H a \<noteq> None)" for a
    using k'(1-4) in_dom s2(2) d by (cases "a = n"; cases "a = p"; cases "ms \<noteq> [] \<and> a = last ms") auto
  then show "dom ?H' = dom ?H - {n}" by (auto simp: dom_def)
  have fr: "\<forall>a. ?H' a \<noteq> None \<longrightarrow> a < top h'"
    using dm fresh k'(5) by metis
  show "cList_rep h' l' (ms @ ns) e (us @ vs)"
    unfolding cList_rep_def using seg fr k'(6,7) r(1) d p hp
    by (cases ms) (auto simp: cList_rep_def)
qed

subsection \<open>The operations on well formed lists\<close>

lemma load_Some: "nodes h a = Some n \<Longrightarrow> load h (Some a) = Inr n"
  by (simp add: load_def)

lemma set_next_Some:
  "nodes h a = Some n \<Longrightarrow> set_next h (Some a) q = Inr (h\<lparr>nodes := (nodes h)(a \<mapsto> n\<lparr>node_next := q\<rparr>)\<rparr>)"
  by (simp add: set_next_def modify_def load_Some)

lemma set_prev_Some:
  "nodes h a = Some n \<Longrightarrow> set_prev h (Some a) q = Inr (h\<lparr>nodes := (nodes h)(a \<mapsto> n\<lparr>node_prev := q\<rparr>)\<rparr>)"
  by (simp add: set_prev_def modify_def load_Some)

lemma delete_Some:
  "nodes h a = Some n \<Longrightarrow> delete_ListNode h (Some a) = Inr (h\<lparr>nodes := (nodes h)(a := None)\<rparr>)"
  by (simp add: delete_ListNode_def load_Some)

lemmas heap_simps = load_Some set_next_Some set_prev_Some delete_Some new_ListNode_def Let_def

lemma rep_fresh: "cList_rep h l ns e xs \<Longrightarrow> nodes h a = Some n \<Longrightarrow> a \<noteq> top h"
  by (auto simp: cList_rep_def)

lemma rep_first_last: "cList_rep h l ns e xs \<Longrightarrow> m_first l = m_last l \<longleftrightarrow> ns = []"
  by (cases ns) (auto simp: cList_rep_def)

lemma rep_hd: "cList_rep h l (ms @ ns) e xs \<Longrightarrow> m_first l = hdp ms (Some (hd (ns @ [e])))"
  by (cases ns) (auto simp: cList_rep_def)

lemma rep_target:
  assumes "cList_rep h l (ms @ ns) e (us @ vs)" "length ms = length us"
  shows "\<exists>n. nodes h (hd (ns @ [e])) = Some n \<and> node_prev n = lastp None ms"
proof (cases ns)
  case Nil
  then show ?thesis using rep_end [of h l ms e us] assms dseg_length rep_length [OF assms(1)] by simp
next
  case (Cons n ns')
  then obtain v vs' where "vs = v # vs'" using rep_length [OF assms(1)] assms(2) by (cases vs) auto
  then show ?thesis using rep_node [of h l ms n ns' e us v vs'] assms Cons by simp
qed

lemma insert_at_linked:
  assumes r: "cList_rep h l (ms @ ns) e (us @ vs)" "length ms = length us"
  shows "\<exists>h' l'. cList_insert_at h l (Some (hd (ns @ [e]))) x = Inr (h', l') \<and> linked h l ms (hd (ns @ [e])) x h' l'"
proof -
  let ?p = "hd (ns @ [e])"
  obtain n where n: "nodes h ?p = Some n" "node_prev n = lastp None ms" using rep_target [OF r] by blast
  have tp: "?p \<noteq> top h" "top h \<noteq> ?p" using rep_fresh [OF r(1) n(1)] by auto
  have last: "m_last l = Some e" using r(1) by (simp add: cList_rep_def)
  have fl: "m_first l = m_last l \<longleftrightarrow> ms = [] \<and> ns = []" using rep_first_last [OF r(1)] by simp
  have hd: "m_first l = hdp ms (Some ?p)" by (rule rep_hd [OF r(1)])
  show ?thesis
  proof (cases "ms = []")
    case True
    then show ?thesis
      using n tp fl hd last
      by (cases "ns = []")
         (auto simp: cList_insert_at_def cList_append_def heap_simps linked_def)
  next
    case False
    then obtain q where q: "nodes h (last ms) = Some q" using rep_last [OF r] by blast
    have tq: "last ms \<noteq> top h" "top h \<noteq> last ms" using rep_fresh [OF r(1) q] by auto
    have "last ms \<in> set ms" using False by simp
    moreover have "?p \<in> set (ns @ [e])" by (rule hd_in_set) simp
    ultimately have pq: "last ms \<noteq> ?p" "?p \<noteq> last ms" using r(1) by (auto simp: cList_rep_def)
    have ne: "m_first l \<noteq> Some ?p"
    proof -
      have "hd ms \<in> set ms" using False by simp
      moreover have "?p \<in> set (ns @ [e])" by (rule hd_in_set) simp
      ultimately have "hd ms \<noteq> ?p" using r(1) by (auto simp: cList_rep_def)
      then show ?thesis using hd False by (cases ms) auto
    qed
    show ?thesis
      using n tp tq pq q fl last False ne
      by (auto simp: cList_insert_at_def heap_simps linked_def lastp_def)
  qed
qed

lemma append_linked:
  assumes r: "cList_rep h l ns e xs"
  shows "\<exists>h' l'. cList_append h l x = Inr (h', l') \<and> linked h l ns e x h' l'"
proof -
  have n: "nodes h e = Some \<lparr>information = None, node_next = None, node_prev = lastp None ns\<rparr>"
    by (rule rep_end [OF r])
  have tp: "e \<noteq> top h" "top h \<noteq> e" using rep_fresh [OF r n] by auto
  have last: "m_last l = Some e" using r by (simp add: cList_rep_def)
  show ?thesis
  proof (cases "ns = []")
    case True
    then show ?thesis
      using n tp rep_first_last [OF r] last by (auto simp: cList_append_def heap_simps linked_def)
  next
    case False
    then obtain q where q: "nodes h (last ns) = Some q"
      using rep_last [of h l ns "[]" e xs "[]"] r rep_length [OF r] by auto
    have tq: "last ns \<noteq> top h" "top h \<noteq> last ns" using rep_fresh [OF r q] by auto
    have pq: "last ns \<noteq> e" "e \<noteq> last ns" using r False last_in_set [OF False] by (auto simp: cList_rep_def)
    show ?thesis
      using n tp tq pq q rep_first_last [OF r] last False
      by (auto simp: cList_append_def heap_simps linked_def lastp_def)
  qed
qed

lemma insert_linked:
  assumes r: "cList_rep h l ns e xs"
  shows "\<exists>h' l'. cList_insert h l x = Inr (h', l') \<and> linked h l [] (hd (ns @ [e])) x h' l'"
proof -
  obtain n where n: "nodes h (hd (ns @ [e])) = Some n" "node_prev n = None"
    using rep_target [of h l "[]" ns e "[]" xs] r by auto
  have tp: "hd (ns @ [e]) \<noteq> top h" "top h \<noteq> hd (ns @ [e])" using rep_fresh [OF r n(1)] by auto
  have hd: "m_first l = Some (hd (ns @ [e]))" using rep_hd [of h l "[]" ns e xs] r by simp
  show ?thesis
    using n tp hd by (auto simp: cList_insert_def heap_simps linked_def)
qed

lemma remove_at_unlinked:
  assumes r: "cList_rep h l (ms @ n # ns) e (us @ x # vs)" "length ms = length us"
  shows "\<exists>h' l'. cList_remove_at h l (Some n) = Inr (h', l', Some (hd (ns @ [e]))) \<and>
                 unlinked h l ms n (hd (ns @ [e])) h' l'"
proof -
  let ?p = "hd (ns @ [e])"
  have n: "nodes h n = Some \<lparr>information = Some x, node_next = Some ?p, node_prev = lastp None ms\<rparr>"
    using rep_node [OF r] by (cases ns) auto
  obtain q where q: "nodes h ?p = Some q"
    using rep_target [of h l "ms @ [n]" ns e "us @ [x]" vs] r by auto
  have "?p \<in> set (ns @ [e])" by (rule hd_in_set) simp
  then have np: "n \<noteq> ?p" "?p \<noteq> n" "?p \<notin> set ms" using r(1) by (auto simp: cList_rep_def)
  have fl: "m_first l \<noteq> m_last l" using rep_first_last [OF r(1)] by simp
  show ?thesis
  proof (cases "ms = []")
    case True
    then show ?thesis
      using n q np fl by (auto simp: cList_remove_at_def heap_simps unlinked_def)
  next
    case False
    then obtain u where u: "nodes h (last ms) = Some u" using rep_last [OF r] by blast
    have "last ms \<in> set ms" using False by simp
    then have lm: "last ms \<noteq> n" "last ms \<noteq> ?p" "n \<noteq> last ms" "?p \<noteq> last ms"
      using np r(1) by (auto simp: cList_rep_def)
    show ?thesis
      using n q np u lm False
      by (auto simp: cList_remove_at_def heap_simps unlinked_def lastp_def)
  qed
qed

lemma initList_rep:
  assumes "\<forall>a. nodes h a \<noteq> None \<longrightarrow> a < top h"
  shows "\<exists>h' l. cList_initList h = Inr (h', l) \<and> cList_rep h' l [] (top h) [] \<and>
                dom (nodes h') = insert (top h) (dom (nodes h)) \<and>
                (\<forall>a. a \<noteq> top h \<longrightarrow> nodes h' a = nodes h a) \<and> top h' = top h + 1"
  using assms by (auto simp: cList_initList_def heap_simps cList_rep_def hdp_def less_Suc_eq)

subsection \<open>Ownership\<close>

text \<open>
  A list owns its nodes: beside them the heap holds the cells that were there before, unchanged.
\<close>

definition owned :: "'a node_heap \<Rightarrow> 'a node_heap \<Rightarrow> cList \<Rightarrow> nat list \<Rightarrow> nat \<Rightarrow> 'a list \<Rightarrow> bool" where
  "owned h0 h l ns e xs \<longleftrightarrow>
     cList_rep h l ns e xs \<and> dom (nodes h) = dom (nodes h0) \<union> set (ns @ [e]) \<and>
     dom (nodes h0) \<inter> set (ns @ [e]) = {} \<and> (\<forall>a \<in> dom (nodes h0). nodes h a = nodes h0 a)"

lemma linked_owned:
  assumes o: "owned h0 h l (ms @ ns) e (us @ vs)" "length ms = length us"
    and k: "linked h l ms (hd (ns @ [e])) x h' l'"
  shows "owned h0 h' l' (ms @ top h # ns) e (us @ x # vs)"
proof -
  have r: "cList_rep h l (ms @ ns) e (us @ vs)" using o(1) by (simp add: owned_def)
  have "hd (ns @ [e]) \<in> set (ns @ [e])" by (rule hd_in_set) simp
  then have p: "hd (ns @ [e]) \<notin> dom (nodes h0)" using o(1) by (auto simp: owned_def)
  have lm: "ms \<noteq> [] \<Longrightarrow> last ms \<notin> dom (nodes h0)"
    using o(1) last_in_set [of ms] by (auto simp: owned_def)
  have t: "top h \<notin> dom (nodes h)" using r by (auto simp: cList_rep_def)
  then have t0: "top h \<notin> dom (nodes h0)" using o(1) by (auto simp: owned_def)
  have "nodes h' a = nodes h0 a" if a: "a \<in> dom (nodes h0)" for a
  proof -
    have "a \<noteq> top h" "a \<noteq> hd (ns @ [e])" "ms = [] \<or> a \<noteq> last ms" using a t0 p lm by auto
    then have "nodes h' a = nodes h a" using k by (auto simp: linked_def)
    then show ?thesis using o(1) a by (auto simp: owned_def)
  qed
  then show ?thesis
    using linked_rep [OF r o(2) k] o(1) t0 by (auto simp: owned_def)
qed

lemma unlinked_owned:
  assumes o: "owned h0 h l (ms @ n # ns) e (us @ x # vs)" "length ms = length us"
    and k: "unlinked h l ms n (hd (ns @ [e])) h' l'"
  shows "owned h0 h' l' (ms @ ns) e (us @ vs)"
proof -
  have r: "cList_rep h l (ms @ n # ns) e (us @ x # vs)" using o(1) by (simp add: owned_def)
  then have d: "distinct (ms @ n # ns @ [e])" by (simp add: cList_rep_def)
  have "hd (ns @ [e]) \<in> set (ns @ [e])" by (rule hd_in_set) simp
  then have p: "hd (ns @ [e]) \<notin> dom (nodes h0)" using o(1) by (auto simp: owned_def)
  have lm: "ms \<noteq> [] \<Longrightarrow> last ms \<notin> dom (nodes h0)"
    using o(1) last_in_set [of ms] by (auto simp: owned_def)
  have n: "n \<notin> dom (nodes h0)" using o(1) by (auto simp: owned_def)
  have "nodes h' a = nodes h0 a" if a: "a \<in> dom (nodes h0)" for a
  proof -
    have "a \<noteq> n" "a \<noteq> hd (ns @ [e])" "ms = [] \<or> a \<noteq> last ms" using a n p lm by auto
    then have "nodes h' a = nodes h a" using k by (auto simp: unlinked_def)
    then show ?thesis using o(1) a by (auto simp: owned_def)
  qed
  moreover have "dom (nodes h') = dom (nodes h0) \<union> set (ms @ ns @ [e])"
    using unlinked_rep(2) [OF r o(2) k] o(1) n d by (auto simp: owned_def)
  ultimately show ?thesis
    using unlinked_rep(1) [OF r o(2) k] o(1) by (auto simp: owned_def)
qed

lemma initList_owned:
  assumes "\<forall>a. nodes h a \<noteq> None \<longrightarrow> a < top h"
  shows "\<exists>h' l e. cList_initList h = Inr (h', l) \<and> owned h h' l [] e []"
proof -
  obtain h' l where h': "cList_initList h = Inr (h', l)" "cList_rep h' l [] (top h) []"
    "dom (nodes h') = insert (top h) (dom (nodes h))" "\<forall>a. a \<noteq> top h \<longrightarrow> nodes h' a = nodes h a"
    using initList_rep [OF assms] by blast
  have t: "top h \<notin> dom (nodes h)" using assms by auto
  then have "\<forall>a \<in> dom (nodes h). nodes h' a = nodes h a" using h'(4) by metis
  then have "owned h h' l [] (top h) []" using h'(2,3) t by (simp add: owned_def)
  then show ?thesis using h'(1) by blast
qed

subsection \<open>The loops\<close>

lemma search_loop_simp:
  "dseg (nodes h) pv ns (map Some vs) (Some e) \<Longrightarrow> e \<notin> set ns \<Longrightarrow>
     search_loop h (Some e) x (hdp ns (Some e)) =
       Some (Inr (hdp (drop (length (takeWhile (\<lambda>y. y \<noteq> x) vs)) ns) (Some e)))"
proof (induction ns arbitrary: pv vs)
  case Nil
  then show ?case by (subst search_loop.simps) simp
next
  case (Cons n ns)
  then obtain v vs' where v: "vs = v # vs'" by (cases vs) auto
  have n: "nodes h n = Some \<lparr>information = Some v, node_next = hdp ns (Some e), node_prev = pv\<rparr>"
    using Cons.prems(1) v by simp
  show ?case
    using Cons.IH [of "Some n" vs'] Cons.prems v
    by (subst search_loop.simps) (auto simp: load_Some [OF n])
qed

lemma length_loop_simp:
  "dseg (nodes h) pv ns (map Some vs) (Some e) \<Longrightarrow> e \<notin> set ns \<Longrightarrow>
     length_loop h (Some e) (hdp ns (Some e)) cnt = Some (Inr (cnt + length ns))"
proof (induction ns arbitrary: pv vs cnt)
  case Nil
  then show ?case by (subst length_loop.simps) simp
next
  case (Cons n ns)
  then obtain v vs' where v: "vs = v # vs'" by (cases vs) auto
  have n: "nodes h n = Some \<lparr>information = Some v, node_next = hdp ns (Some e), node_prev = pv\<rparr>"
    using Cons.prems(1) v by simp
  show ?case
    using Cons.IH [of "Some n" vs' "cnt + 1"] Cons.prems v
    by (subst length_loop.simps) (auto simp: iterator_next_def load_Some [OF n])
qed

lemma freeList_loop_simp:
  "dseg (nodes h) pv ns xs None \<Longrightarrow> distinct ns \<Longrightarrow>
     freeList_loop h (hdp ns None) = Some (Inr (h\<lparr>nodes := \<lambda>a. if a \<in> set ns then None else nodes h a\<rparr>))"
proof (induction ns arbitrary: h pv xs)
  case Nil
  then show ?case by (subst freeList_loop.simps) simp
next
  case (Cons n ns)
  then obtain x xs' where x: "xs = x # xs'" by (cases xs) auto
  have n: "nodes h n = Some \<lparr>information = x, node_next = hdp ns None, node_prev = pv\<rparr>"
    using Cons.prems(1) x by simp
  let ?h = "h\<lparr>nodes := (nodes h)(n := None)\<rparr>"
  have c: "\<forall>a \<in> set ns. ((nodes h)(n := None)) a = nodes h a" using Cons.prems(2) by auto
  have "dseg ((nodes h)(n := None)) (Some n) ns xs' None"
    unfolding dseg_cong [OF c] using Cons.prems x by simp
  then have "dseg (nodes ?h) (Some n) ns xs' None" by simp
  from Cons.IH [OF this] Cons.prems(2)
  have "freeList_loop ?h (hdp ns None) = Some (Inr (?h\<lparr>nodes := \<lambda>a. if a \<in> set ns then None else nodes ?h a\<rparr>))"
    by simp
  moreover have "(\<lambda>a. if a \<in> set ns then None else nodes ?h a) = (\<lambda>a. if a \<in> set (n # ns) then None else nodes h a)"
    by auto
  ultimately show ?case
    by (subst freeList_loop.simps) (simp add: load_Some [OF n] delete_Some [OF n])
qed

lemma freeList_owned:
  assumes "owned h0 h l ns e xs"
  shows "\<exists>h'. cList_freeList h l = Some (Inr (h', \<lparr>m_first = None, m_last = None\<rparr>)) \<and>
              nodes h' = nodes h0 \<and> top h' = top h"
proof -
  have r: "cList_rep h l ns e xs" using assms by (simp add: owned_def)
  let ?h = "h\<lparr>nodes := \<lambda>a. if a \<in> set (ns @ [e]) then None else nodes h a\<rparr>"
  have "m_first l = hdp (ns @ [e]) None" using r by (simp add: cList_rep_def)
  then have "cList_freeList h l = Some (Inr (?h, \<lparr>m_first = None, m_last = None\<rparr>))"
    using freeList_loop_simp [of h None "ns @ [e]" "map Some xs @ [None]"] r
    by (simp add: cList_freeList_def cList_rep_def)
  moreover have "nodes ?h = nodes h0"
  proof
    fix a
    show "nodes ?h a = nodes h0 a"
      using assms(1) unfolding owned_def
      by (cases "a \<in> set (ns @ [e])"; cases "a \<in> dom (nodes h0)") (auto simp: dom_def)
  qed
  ultimately show ?thesis by auto
qed

lemma iterator_plus_simp:
  "dseg (nodes h) pv ns xs nx \<Longrightarrow> k \<le> length ns \<Longrightarrow> iterator_plus h (hdp ns nx) k = Inr (hdp (drop k ns) nx)"
proof (induction k arbitrary: ns pv xs)
  case (Suc k)
  then obtain n ns' where ns: "ns = n # ns'" by (cases ns) auto
  then obtain x xs' where "xs = x # xs'" using Suc.prems by (cases xs) auto
  then have n: "nodes h n = Some \<lparr>information = x, node_next = hdp ns' nx, node_prev = pv\<rparr>"
    "dseg (nodes h) (Some n) ns' xs' nx"
    using Suc.prems ns by auto
  show ?case
    using Suc.IH [OF n(2)] Suc.prems by (simp add: ns iterator_next_def load_Some [OF n(1)])
qed simp

text \<open>Copying the objects of another list, whose nodes are not the ones of this list.\<close>

lemma clone_loop_simp:
  "owned h0 h l ns e xs \<Longrightarrow> dseg (nodes h0) pv os (map Some ys) (Some f) \<Longrightarrow> f \<notin> set os \<Longrightarrow>
     \<exists>h' l' ns'. clone_loop h l (Some f) (hdp os (Some f)) = Some (Inr (h', l')) \<and>
                 owned h0 h' l' ns' e (xs @ ys)"
proof (induction os arbitrary: h l ns xs pv ys)
  case Nil
  then show ?case by (subst clone_loop.simps) auto
next
  case (Cons m os)
  then obtain y ys' where y: "ys = y # ys'" by (cases ys) auto
  have o0: "nodes h0 m = Some \<lparr>information = Some y, node_next = hdp os (Some f), node_prev = pv\<rparr>"
    using Cons.prems(2) y by simp
  then have o: "nodes h m = Some \<lparr>information = Some y, node_next = hdp os (Some f), node_prev = pv\<rparr>"
    using Cons.prems(1) unfolding owned_def by (metis domI)
  have r: "cList_rep h l ns e xs" using Cons.prems(1) by (simp add: owned_def)
  obtain h' l' where a: "cList_append h l y = Inr (h', l')" "linked h l ns e y h' l'"
    using append_linked [OF r] by blast
  have w: "owned h0 h' l' (ns @ [top h]) e (xs @ [y])"
    using linked_owned [of h0 h l ns "[]" e xs "[]" y h' l'] Cons.prems(1) a(2) rep_length [OF r] by simp
  then have o': "nodes h' m = Some \<lparr>information = Some y, node_next = hdp os (Some f), node_prev = pv\<rparr>"
    using o0 unfolding owned_def by (metis domI)
  have "\<exists>h'' l'' ns'. clone_loop h' l' (Some f) (hdp os (Some f)) = Some (Inr (h'', l'')) \<and>
                 owned h0 h'' l'' ns' e ((xs @ [y]) @ ys')"
    using Cons.prems y by (intro Cons.IH [OF w]) auto
  moreover have "clone_loop h l (Some f) (hdp (m # os) (Some f)) = clone_loop h' l' (Some f) (hdp os (Some f))"
    using Cons.prems(3)
    by (subst clone_loop.simps) (simp add: iterator_get_def iterator_next_def load_Some [OF o] load_Some [OF o'] a(1))
  ultimately show ?case using y by simp
qed

subsection \<open>Sequences of calls\<close>

datatype 'a list_call =
    Append 'a | Insert 'a | InsertAt nat 'a | RemoveAt nat | Remove 'a | RemoveAll
  | IsIn 'a | Length | IsEmpty

datatype list_answer = Done | Truth bool | Number nat | Thrown xerr

text \<open>What a call does to a list of objects; \<open>None\<close> where an iterator leaves the list.\<close>

fun list_spec :: "'a list \<Rightarrow> 'a list_call \<Rightarrow> ('a list \<times> list_answer) option" where
  "list_spec xs (Append x) = Some (xs @ [x], Done)"
| "list_spec xs (Insert x) = Some (x # xs, Done)"
| "list_spec xs (InsertAt i x) = (if i \<le> length xs then Some (take i xs @ x # drop i xs, Done) else None)"
| "list_spec xs (RemoveAt i) = (if i < length xs then Some (take i xs @ drop (i + 1) xs, Done) else None)"
| "list_spec xs (Remove x) = (if x \<in> set xs then Some (remove1 x xs, Done) else Some (xs, Thrown EXCEPTION_OUT_OF_RANGE))"
| "list_spec xs RemoveAll = Some ([], Done)"
| "list_spec xs (IsIn x) = Some (xs, Truth (x \<in> set xs))"
| "list_spec xs Length = Some (xs, Number (length xs))"
| "list_spec xs IsEmpty = Some (xs, Truth (xs = []))"

definition changed :: "('a node_heap \<times> cList) res \<Rightarrow> ('a node_heap \<times> cList \<times> list_answer) res" where
  "changed r = map_sum id (\<lambda>(h, l). (h, l, Done)) r"

text \<open>A call on the list; an exception that is thrown before anything changed is an answer.\<close>

fun list_step :: "'a node_heap \<Rightarrow> cList \<Rightarrow> 'a list_call \<Rightarrow> ('a node_heap \<times> cList \<times> list_answer) res option" where
  "list_step h l (Append x) = Some (changed (cList_append h l x))"
| "list_step h l (Insert x) = Some (changed (cList_insert h l x))"
| "list_step h l (InsertAt i x) =
     Some (changed (bind_res (iterator_plus h (cList_begin l) i) (\<lambda>p. cList_insert_at h l p x)))"
| "list_step h l (RemoveAt i) =
     Some (map_sum id (\<lambda>(h, l, _). (h, l, Done))
       (bind_res (iterator_plus h (cList_begin l) i) (cList_remove_at h l)))"
| "list_step h l (Remove x) =
     map_option (\<lambda>r. if r = Inl EXCEPTION_OUT_OF_RANGE then Inr (h, l, Thrown EXCEPTION_OUT_OF_RANGE) else changed r)
       (cList_remove h l x)"
| "list_step h l RemoveAll = map_option changed (cList_removeAll h l)"
| "list_step h l (IsIn x) = map_option (map_sum id (\<lambda>b. (h, l, Truth b))) (cList_isIn h l x)"
| "list_step h l Length = map_option (map_sum id (\<lambda>n. (h, l, Number n))) (cList_length h l)"
| "list_step h l IsEmpty = Some (Inr (h, l, Truth (cList_isEmpty l)))"

lemma owned_rep: "owned h0 h l ns e xs \<Longrightarrow> cList_rep h l ns e xs"
  by (simp add: owned_def)

lemma owned_length: "owned h0 h l ns e xs \<Longrightarrow> length ns = length xs"
  by (rule rep_length [OF owned_rep])

lemma owned_seg:
  assumes "owned h0 h l ns e xs"
  shows "dseg (nodes h) None ns (map Some xs) (Some e)" "e \<notin> set ns"
    "m_first l = hdp ns (Some e)" "m_last l = Some e"
  using assms rep_split(1) [of h l ns "[]" e xs "[]"] owned_length [OF assms]
  by (auto simp: owned_def cList_rep_def)

lemma owned_split:
  assumes "owned h0 h l ns e xs" "k \<le> length xs"
  shows "owned h0 h l (take k ns @ drop k ns) e (take k xs @ drop k xs)" "length (take k ns) = length (take k xs)"
    "iterator_plus h (cList_begin l) k = Inr (Some (hd (drop k ns @ [e])))"
proof -
  show "owned h0 h l (take k ns @ drop k ns) e (take k xs @ drop k xs)" using assms by simp
  show "length (take k ns) = length (take k xs)" using owned_length [OF assms(1)] by simp
  have "iterator_plus h (hdp ns (Some e)) k = Inr (hdp (drop k ns) (Some e))"
    using iterator_plus_simp [OF owned_seg(1) [OF assms(1)]] owned_length [OF assms(1)] assms(2) by simp
  also have "hdp (drop k ns) (Some e) = Some (hd (drop k ns @ [e]))"
    by (cases "drop k ns") auto
  finally show "iterator_plus h (cList_begin l) k = Inr (Some (hd (drop k ns @ [e])))"
    using owned_seg(3) [OF assms(1)] by (simp add: cList_begin_def)
qed

text \<open>\<open>remove (object)\<close> is \<open>remove\<close> at the position the scan finds.\<close>

lemma cList_remove_found:
  assumes o: "owned h0 h l (ms @ n # ns) e (us @ x # vs)" "length ms = length us" "x \<notin> set us"
  shows "\<exists>h' l'. cList_remove h l x = Some (Inr (h', l')) \<and> unlinked h l ms n (hd (ns @ [e])) h' l'"
proof -
  obtain h' l' where u: "cList_remove_at h l (Some n) = Inr (h', l', Some (hd (ns @ [e])))"
    "unlinked h l ms n (hd (ns @ [e])) h' l'"
    using remove_at_unlinked [OF owned_rep [OF o(1)] o(2)] by blast
  have "takeWhile (\<lambda>y. y \<noteq> x) (us @ x # vs) = us"
    using o(3) by (subst takeWhile_append2) auto
  then have s: "search_loop h (m_last l) x (m_first l) = Some (Inr (Some n))"
    using search_loop_simp [OF owned_seg(1,2) [OF o(1)], of x] owned_seg(3,4) [OF o(1)] o(2) by simp
  have ne: "Some n \<noteq> m_last l" using owned_seg(2,4) [OF o(1)] by auto
  have fl: "m_first l \<noteq> m_last l" using rep_first_last [OF owned_rep [OF o(1)]] by simp
  have "cList_remove h l x = Some (map_sum id (\<lambda>(h, l, _). (h, l)) (cList_remove_at h l (Some n)))"
    using ne fl
    by (auto simp: cList_remove_def s cList_remove_at_def bind_res_def split: sum.splits)
  then show ?thesis using u by simp
qed

lemma removeAll_owned:
  assumes o: "owned h0 h l ns e xs"
  shows "\<exists>h' l' e'. cList_removeAll h l = Some (Inr (h', l')) \<and> owned h0 h' l' [] e' []"
proof -
  have w: "\<forall>a. nodes h a \<noteq> None \<longrightarrow> a < top h" using owned_rep [OF o] by (simp add: cList_rep_def)
  have sub: "nodes h0 a \<noteq> None \<Longrightarrow> nodes h a \<noteq> None" for a using o unfolding owned_def by (metis domIff)
  obtain h1 where h1: "cList_freeList h l = Some (Inr (h1, \<lparr>m_first = None, m_last = None\<rparr>))"
    "nodes h1 = nodes h0" "top h1 = top h"
    using freeList_owned [OF o] by blast
  have "\<forall>a. nodes h1 a \<noteq> None \<longrightarrow> a < top h1" unfolding h1 using sub w by blast
  from initList_owned [OF this] obtain h' l' e' where
    "cList_initList h1 = Inr (h', l')" "owned h1 h' l' [] e' []" by blast
  moreover from this have "owned h0 h' l' [] e' []" unfolding owned_def h1(2) by simp
  ultimately have "cList_removeAll h l = Some (Inr (h', l')) \<and> owned h0 h' l' [] e' []"
    by (simp add: cList_removeAll_def h1(1))
  then show ?thesis by blast
qed

lemma list_step_refines:
  assumes o: "owned h0 h l ns e xs" and s: "list_spec xs c = Some (ys, ans)"
  shows "\<exists>h' l' ns' e'. list_step h l c = Some (Inr (h', l', ans)) \<and> owned h0 h' l' ns' e' ys"
proof (cases c)
  case (Append x)
  obtain h' l' where a: "cList_append h l x = Inr (h', l')" "linked h l ns e x h' l'"
    using append_linked [OF owned_rep [OF o]] by blast
  have "owned h0 h' l' (ns @ [top h]) e (xs @ [x])"
    using linked_owned [of h0 h l ns "[]" e xs "[]" x h' l'] o a(2) owned_length [OF o] by simp
  then show ?thesis using s a(1) Append by (auto simp: changed_def)
next
  case (Insert x)
  obtain h' l' where a: "cList_insert h l x = Inr (h', l')" "linked h l [] (hd (ns @ [e])) x h' l'"
    using insert_linked [OF owned_rep [OF o]] by blast
  have "owned h0 h' l' (top h # ns) e (x # xs)"
    using linked_owned [of h0 h l "[]" ns e "[]" xs x h' l'] o a(2) by simp
  then show ?thesis using s a(1) Insert by (auto simp: changed_def)
next
  case (InsertAt i x)
  then have i: "i \<le> length xs" using s by (auto split: if_splits)
  note sp = owned_split [OF o i]
  obtain h' l' where a: "cList_insert_at h l (Some (hd (drop i ns @ [e]))) x = Inr (h', l')"
    "linked h l (take i ns) (hd (drop i ns @ [e])) x h' l'"
    using insert_at_linked [OF owned_rep [OF sp(1)] sp(2)] by blast
  have "owned h0 h' l' (take i ns @ top h # drop i ns) e (take i xs @ x # drop i xs)"
    by (rule linked_owned [OF sp(1,2) a(2)])
  then show ?thesis using s a(1) i sp(3) InsertAt by (auto simp: changed_def)
next
  case (RemoveAt i)
  then have i: "i < length xs" using s by (auto split: if_splits)
  then have i': "i \<le> length xs" by simp
  note sp = owned_split [OF o i']
  have d: "drop i ns = ns ! i # drop (Suc i) ns" "drop i xs = xs ! i # drop (Suc i) xs"
    using i owned_length [OF o] by (simp_all add: Cons_nth_drop_Suc)
  obtain h' l' where a: "cList_remove_at h l (Some (ns ! i)) = Inr (h', l', Some (hd (drop (Suc i) ns @ [e])))"
    "unlinked h l (take i ns) (ns ! i) (hd (drop (Suc i) ns @ [e])) h' l'"
    using remove_at_unlinked [OF owned_rep [OF sp(1) [unfolded d]] sp(2)] by blast
  have "owned h0 h' l' (take i ns @ drop (Suc i) ns) e (take i xs @ drop (Suc i) xs)"
    by (rule unlinked_owned [OF sp(1) [unfolded d] sp(2) a(2)])
  then show ?thesis using s a(1) i sp(3) d(1) RemoveAt by auto
next
  case (Remove x)
  show ?thesis
  proof (cases "x \<in> set xs")
    case True
    then obtain us vs where uv: "xs = us @ x # vs" "x \<notin> set us" by (meson split_list_first)
    then have i: "length us \<le> length xs" by simp
    note sp = owned_split [OF o i]
    have d: "drop (length us) ns = ns ! length us # drop (Suc (length us)) ns" "drop (length us) xs = x # vs"
      "take (length us) xs = us"
      using uv owned_length [OF o] by (simp_all add: Cons_nth_drop_Suc)
    obtain h' l' where a: "cList_remove h l x = Some (Inr (h', l'))"
      "unlinked h l (take (length us) ns) (ns ! length us) (hd (drop (Suc (length us)) ns @ [e])) h' l'"
      using cList_remove_found [OF sp(1) [unfolded d] sp(2) [unfolded d] uv(2)] by blast
    have "owned h0 h' l' (take (length us) ns @ drop (Suc (length us)) ns) e (us @ vs)"
      by (rule unlinked_owned [OF sp(1) [unfolded d] sp(2) [unfolded d] a(2)])
    moreover have "remove1 x xs = us @ vs" using uv by (simp add: remove1_append)
    ultimately show ?thesis using s a(1) True Remove by (auto simp: changed_def)
  next
    case False
    then have tw: "takeWhile (\<lambda>y. y \<noteq> x) xs = xs" by (auto simp: takeWhile_eq_all_conv)
    have "search_loop h (m_last l) x (m_first l) = Some (Inr (m_last l))"
      using search_loop_simp [OF owned_seg(1,2) [OF o], of x] owned_seg(3,4) [OF o] owned_length [OF o]
      unfolding tw by simp
    then show ?thesis using s False Remove o by (auto simp: cList_remove_def)
  qed
next
  case RemoveAll
  obtain h' l' e' where "cList_removeAll h l = Some (Inr (h', l'))" "owned h0 h' l' [] e' []"
    using removeAll_owned [OF o] by blast
  then have "list_step h l c = Some (Inr (h', l', ans)) \<and> owned h0 h' l' [] e' ys"
    using s RemoveAll by (simp add: changed_def)
  then show ?thesis by blast
next
  case (IsIn x)
  have "length (takeWhile (\<lambda>y. y \<noteq> x) xs) < length ns \<longleftrightarrow> x \<in> set xs"
    unfolding owned_length [OF o] by (induction xs) auto
  then have "hdp (drop (length (takeWhile (\<lambda>y. y \<noteq> x) xs)) ns) (Some e) \<noteq> Some e \<longleftrightarrow> x \<in> set xs"
    using owned_seg(2) [OF o] by (cases "length (takeWhile (\<lambda>y. y \<noteq> x) xs) < length ns")
      (auto simp: Cons_nth_drop_Suc [symmetric])
  then have "cList_isIn h l x = Some (Inr (x \<in> set xs))"
    using search_loop_simp [OF owned_seg(1,2) [OF o], of x] owned_seg(3,4) [OF o] by (simp add: cList_isIn_def)
  then show ?thesis using s o IsIn by auto
next
  case Length
  have "cList_length h l = Some (Inr (length xs))"
    using length_loop_simp [OF owned_seg(1,2) [OF o], of 0] owned_seg(3,4) [OF o] owned_length [OF o]
    by (simp add: cList_length_def cList_end_def cList_begin_def)
  then show ?thesis using s o Length by auto
next
  case IsEmpty
  have "cList_isEmpty l \<longleftrightarrow> xs = []"
    using rep_first_last [OF owned_rep [OF o]] owned_length [OF o] by (auto simp: cList_isEmpty_def)
  then show ?thesis using s o IsEmpty by auto
qed

fun list_spec_run :: "'a list \<Rightarrow> 'a list_call list \<Rightarrow> ('a list \<times> list_answer list) option" where
  "list_spec_run xs [] = Some (xs, [])"
| "list_spec_run xs (c # cs) =
     (case list_spec xs c of None \<Rightarrow> None
      | Some (ys, a) \<Rightarrow> map_option (\<lambda>(zs, as). (zs, a # as)) (list_spec_run ys cs))"

fun list_run :: "'a node_heap \<Rightarrow> cList \<Rightarrow> 'a list_call list \<Rightarrow> ('a node_heap \<times> cList \<times> list_answer list) res option" where
  "list_run h l [] = Some (Inr (h, l, []))"
| "list_run h l (c # cs) =
     (case list_step h l c of
        None \<Rightarrow> None
      | Some (Inl e) \<Rightarrow> Some (Inl e)
      | Some (Inr (h, l, a)) \<Rightarrow> map_option (map_sum id (\<lambda>(h, l, as). (h, l, a # as))) (list_run h l cs))"

lemma list_run_refines:
  "owned h0 h l ns e xs \<Longrightarrow> list_spec_run xs cs = Some (ys, as) \<Longrightarrow>
     \<exists>h' l' ns' e'. list_run h l cs = Some (Inr (h', l', as)) \<and> owned h0 h' l' ns' e' ys"
proof (induction cs arbitrary: h l ns e xs as)
  case (Cons c cs)
  obtain zs a bs where z: "list_spec xs c = Some (zs, a)" "list_spec_run zs cs = Some (ys, bs)" "as = a # bs"
    using Cons.prems(2) by (auto split: option.splits)
  obtain h1 l1 ns1 e1 where s: "list_step h l c = Some (Inr (h1, l1, a))" "owned h0 h1 l1 ns1 e1 zs"
    using list_step_refines [OF Cons.prems(1) z(1)] by blast
  obtain h' l' ns' e' where "list_run h1 l1 cs = Some (Inr (h', l', bs))" "owned h0 h' l' ns' e' ys"
    using Cons.IH [OF s(2) z(2)] by blast
  then show ?case using s(1) z(3) by auto
qed auto

text \<open>
  C1: any sequence of calls on a new list returns what the calls return on a list of objects,
  exceptions included, as long as no iterator leaves the list. At the end the nodes of the list
  are exactly the cells that were added to the heap, one for each object and the end node, the
  rest of the heap is unchanged, and the destructor gives all of them back.
\<close>

theorem cList_refines:
  assumes "\<forall>a. nodes h0 a \<noteq> None \<longrightarrow> a < top h0" and "list_spec_run [] calls = Some (xs, answers)"
  shows "\<exists>h l h' l' ns e. cList_new h0 = Inr (h, l) \<and>
           list_run h l calls = Some (Inr (h', l', answers)) \<and> cList_rep h' l' ns e xs \<and>
           dom (nodes h') = dom (nodes h0) \<union> set (ns @ [e]) \<and> dom (nodes h0) \<inter> set (ns @ [e]) = {} \<and>
           (\<forall>a \<in> dom (nodes h0). nodes h' a = nodes h0 a) \<and>
           (\<exists>h''. cList_freeList h' l' = Some (Inr (h'', \<lparr>m_first = None, m_last = None\<rparr>)) \<and> nodes h'' = nodes h0)"
proof -
  obtain h l e where n: "cList_initList h0 = Inr (h, l)" "owned h0 h l [] e []"
    using initList_owned [OF assms(1)] by blast
  obtain h' l' ns e' where r: "list_run h l calls = Some (Inr (h', l', answers))" "owned h0 h' l' ns e' xs"
    using list_run_refines [OF n(2) assms(2)] by blast
  then show ?thesis
    using n(1) freeList_owned [OF r(2)] unfolding owned_def cList_new_def by blast
qed

theorem cList_refines_witness:
  "list_spec_run [] [Append (1 :: nat), Insert 2, InsertAt 1 3, Remove 7, RemoveAt 0, IsIn 3, Length] =
     Some ([3, 1], [Done, Done, Done, Thrown EXCEPTION_OUT_OF_RANGE, Done, Truth True, Number 2]) \<and>
   (\<exists>h l h' l' ns e. cList_new \<lparr>nodes = Map.empty, top = 0\<rparr> = Inr (h, l) \<and>
      list_run h l [Append (1 :: nat), Insert 2, InsertAt 1 3, Remove 7, RemoveAt 0, IsIn 3, Length] =
        Some (Inr (h', l', [Done, Done, Done, Thrown EXCEPTION_OUT_OF_RANGE, Done, Truth True, Number 2])) \<and>
      cList_rep h' l' ns e [3, 1])"
proof -
  have w: "\<forall>a. nodes \<lparr>nodes = Map.empty :: nat \<Rightarrow> nat ListNode option, top = 0\<rparr> a \<noteq> None \<longrightarrow> a < top \<lparr>nodes = Map.empty :: nat \<Rightarrow> nat ListNode option, top = 0\<rparr>"
    by simp
  have s: "list_spec_run [] [Append (1 :: nat), Insert 2, InsertAt 1 3, Remove 7, RemoveAt 0, IsIn 3, Length] =
     Some ([3, 1], [Done, Done, Done, Thrown EXCEPTION_OUT_OF_RANGE, Done, Truth True, Number 2])"
    by simp
  obtain h l h' l' ns e where
    "cList_new \<lparr>nodes = Map.empty, top = 0\<rparr> = Inr (h, l)"
    "list_run h l [Append (1 :: nat), Insert 2, InsertAt 1 3, Remove 7, RemoveAt 0, IsIn 3, Length] =
       Some (Inr (h', l', [Done, Done, Done, Thrown EXCEPTION_OUT_OF_RANGE, Done, Truth True, Number 2]))"
    "cList_rep h' l' ns e [3, 1]"
    using cList_refines [OF w s] by blast
  then show ?thesis by (intro conjI s exI)
qed

lemma rep_frame:
  assumes "cList_rep h other os f ys" "owned h h' l ns e xs"
  shows "cList_rep h' other os f ys"
proof -
  have s: "dseg (nodes h) None (os @ [f]) (map Some ys @ [None]) None" using assms(1) by (simp add: cList_rep_def)
  have "\<forall>a \<in> set (os @ [f]). nodes h' a = nodes h a"
    using assms(2) dseg_dom [OF s] unfolding owned_def by (metis domIff)
  from dseg_cong [OF this] show ?thesis
    using assms owned_rep [OF assms(2)] s unfolding cList_rep_def by metis
qed

lemma clone_owned:
  assumes r: "cList_rep h other os f ys" and o: "owned h h1 l1 ns1 e1 xs"
  shows "\<exists>h' l ns e. cList_clone h1 l1 other False = Some (Inr (h', l)) \<and> owned h h' l ns e ys"
proof -
  obtain h2 where f: "cList_freeList h1 l1 = Some (Inr (h2, \<lparr>m_first = None, m_last = None\<rparr>))"
    "nodes h2 = nodes h" "top h2 = top h1"
    using freeList_owned [OF o] by blast
  have w1: "\<forall>a. nodes h1 a \<noteq> None \<longrightarrow> a < top h1" using owned_rep [OF o] by (simp add: cList_rep_def)
  have "nodes h a \<noteq> None \<Longrightarrow> nodes h1 a \<noteq> None" for a using o unfolding owned_def by (metis domIff)
  then have "\<forall>a. nodes h2 a \<noteq> None \<longrightarrow> a < top h2" unfolding f using w1 by blast
  from initList_owned [OF this] obtain h3 l3 e3 where i: "cList_initList h2 = Inr (h3, l3)" "owned h2 h3 l3 [] e3 []"
    by blast
  have i': "owned h h3 l3 [] e3 []" using i(2) unfolding owned_def f(2) .
  have d: "dseg (nodes h) None os (map Some ys) (Some f)" "f \<notin> set os" "m_first other = hdp os (Some f)" "m_last other = Some f"
    using rep_split(1) [of h other os "[]" f ys "[]"] rep_length [OF r] r by (auto simp: cList_rep_def)
  show ?thesis
    using clone_loop_simp [OF i' d(1,2)] f(1) i(1) d(3,4)
    by (simp add: cList_clone_def cList_begin_def cList_end_def) blast
qed

text \<open>
  C39: the copy constructor and the assignment give the list the objects of the other list in nodes
  of its own, and leave the other list as it was. The assignment of a list to itself empties it.
\<close>

theorem cList_copies:
  assumes "cList_rep h other os f ys" and "owned h h1 l1 ns1 e1 xs"
  shows "(\<exists>h' l ns e. cList_new_copy h other = Some (Inr (h', l)) \<and> owned h h' l ns e ys \<and>
            cList_rep h' other os f ys) \<and>
         (\<exists>h' l ns e. cList_clone h1 l1 other False = Some (Inr (h', l)) \<and> owned h h' l ns e ys \<and>
            cList_rep h' other os f ys) \<and>
         (\<exists>h' l e. cList_assign_self h other = Some (Inr (h', l)) \<and> cList_rep h' l [] e [])"
proof (intro conjI)
  have w: "\<forall>a. nodes h a \<noteq> None \<longrightarrow> a < top h" using assms(1) by (simp add: cList_rep_def)
  obtain h2 l2 e2 where i: "cList_initList h = Inr (h2, l2)" "owned h h2 l2 [] e2 []"
    using initList_owned [OF w] by blast
  show "\<exists>h' l ns e. cList_new_copy h other = Some (Inr (h', l)) \<and> owned h h' l ns e ys \<and> cList_rep h' other os f ys"
    unfolding cList_new_copy_def i(1) sum.case prod.case
    using clone_owned [OF assms(1) i(2)] rep_frame [OF assms(1)] by blast
  show "\<exists>h' l ns e. cList_clone h1 l1 other False = Some (Inr (h', l)) \<and> owned h h' l ns e ys \<and> cList_rep h' other os f ys"
    using clone_owned [OF assms] rep_frame [OF assms(1)] by blast
  let ?h0 = "h\<lparr>nodes := \<lambda>a. if a \<in> set (os @ [f]) then None else nodes h a\<rparr>"
  have s: "dseg (nodes h) None (os @ [f]) (map Some ys @ [None]) None" using assms(1) by (simp add: cList_rep_def)
  have "owned ?h0 h other os f ys"
    using assms(1) dseg_dom [OF s] by (auto simp: owned_def dom_def split: if_splits)
  from freeList_owned [OF this] obtain h3 where f: "cList_freeList h other = Some (Inr (h3, \<lparr>m_first = None, m_last = None\<rparr>))"
    "nodes h3 = nodes ?h0" "top h3 = top h"
    by blast
  have "\<forall>a. nodes h3 a \<noteq> None \<longrightarrow> a < top h3" unfolding f using w by simp
  from initList_owned [OF this] obtain h4 l4 e4 where i4: "cList_initList h3 = Inr (h4, l4)" "owned h3 h4 l4 [] e4 []"
    by blast
  have e4: "m_first l4 = m_last l4" using rep_first_last [OF owned_rep [OF i4(2)]] by simp
  have "clone_loop h4 l4 (cList_end l4) (cList_begin l4) = Some (Inr (h4, l4))"
    by (subst clone_loop.simps) (simp add: cList_begin_def cList_end_def e4)
  then have "cList_assign_self h other = Some (Inr (h4, l4))"
    by (simp add: cList_assign_self_def f(1) i4(1))
  then show "\<exists>h' l e. cList_assign_self h other = Some (Inr (h', l)) \<and> cList_rep h' l [] e []"
    using owned_rep [OF i4(2)] by blast
qed

text \<open>A heap with the list of one object, and the same heap with a second, empty list.\<close>

definition one_object :: "nat node_heap" where
  "one_object =
     \<lparr>nodes = [0 \<mapsto> \<lparr>information = None, node_next = None, node_prev = Some 1\<rparr>,
               1 \<mapsto> \<lparr>information = Some 5, node_next = Some 0, node_prev = None\<rparr>], top = 2\<rparr>"

definition two_lists :: "nat node_heap" where
  "two_lists =
     \<lparr>nodes = (nodes one_object)(2 \<mapsto> \<lparr>information = None, node_next = None, node_prev = None\<rparr>), top = 3\<rparr>"

theorem cList_copies_witness:
  "cList_rep one_object \<lparr>m_first = Some 1, m_last = Some 0\<rparr> [1] 0 [5] \<and>
   owned one_object two_lists \<lparr>m_first = Some 2, m_last = Some 2\<rparr> [] 2 [] \<and>
   (\<exists>h' l ns e. cList_clone two_lists \<lparr>m_first = Some 2, m_last = Some 2\<rparr> \<lparr>m_first = Some 1, m_last = Some 0\<rparr> False =
      Some (Inr (h', l)) \<and> owned one_object h' l ns e [5])"
proof -
  have r: "cList_rep one_object \<lparr>m_first = Some 1, m_last = Some 0\<rparr> [1] 0 [5]"
    by (simp add: cList_rep_def one_object_def)
  have o: "owned one_object two_lists \<lparr>m_first = Some 2, m_last = Some 2\<rparr> [] 2 []"
    by (auto simp: owned_def cList_rep_def one_object_def two_lists_def)
  show ?thesis using cList_copies [OF r o] r o by blast
qed

end
