(* ===== verification/XHash.thy ===== *)
theory XHash
  imports XString
begin

text \<open>
  The hash functions of data/hash.cpp and the hash table of data/hash.h and data/hash.inl: an
  array of lists of pairs. The lists and the array are the ones of XList and XArray and appear
  here by their contents; the overloaded \<open>cHashFunction\<close> is an argument of the table.
  Keys are compared with HOL equality, which is \<open>operator ==\<close> of numbers and of buffers.
\<close>

subsection \<open>Hash functions\<close>

definition cHashFunction_int :: "uint32 \<Rightarrow> uint64 \<Rightarrow> uint64" where
  "cHashFunction_int index rng = scast index mod rng"

definition cHashFunction_uint32 :: "uint32 \<Rightarrow> uint64 \<Rightarrow> uint64" where
  "cHashFunction_uint32 index rng = ucast index mod rng"

definition cHashFunction_uint64 :: "uint64 \<Rightarrow> uint64 \<Rightarrow> uint64" where
  "cHashFunction_uint64 index rng = index mod rng"

text \<open>The sum of the characters of a C string, which are sign extended.\<close>

fun char_sum :: "character list \<Rightarrow> uint64 \<Rightarrow> uint64" where
  "char_sum [] byte_sum = byte_sum"
| "char_sum (c # cs) byte_sum = (if c = 0 then byte_sum else char_sum cs (byte_sum + scast c))"

definition cHashFunction_chars :: "character list \<Rightarrow> uint64 \<Rightarrow> uint64" where
  "cHashFunction_chars index rng = cHashFunction_uint64 (char_sum index 0) rng"

fun string_sum :: "character list \<Rightarrow> nat \<Rightarrow> nat \<Rightarrow> uint64 \<Rightarrow> uint64" where
  "string_sum buf i 0 byte_sum = byte_sum"
| "string_sum buf i (Suc k) byte_sum = string_sum buf (i + 1) k (byte_sum + scast (buf ! i))"

definition cHashFunction_cString :: "cString \<Rightarrow> uint64 \<Rightarrow> uint64" where
  "cHashFunction_cString index rng =
     cHashFunction_uint64 (string_sum (m_buffer index) 0 (cString_length index) 0) rng"

fun buffer_sum :: "uint8 list \<Rightarrow> nat \<Rightarrow> nat \<Rightarrow> uint64 \<Rightarrow> uint64" where
  "buffer_sum buf i 0 byte_sum = byte_sum"
| "buffer_sum buf i (Suc k) byte_sum = buffer_sum buf (i + 1) k (byte_sum + ucast (buf ! i))"

definition cHashFunction_cBuffer :: "uint8 list \<Rightarrow> uint64 \<Rightarrow> uint64" where
  "cHashFunction_cBuffer index rng = cHashFunction_uint64 (buffer_sum index 0 (length index) 0) rng"

subsection \<open>The table\<close>

record ('k, 'v) cHash =
  m_hash :: "('k \<times> 'v) list list"
  m_vectorSize :: nat

definition cHash_initHash :: "nat \<Rightarrow> ('k, 'v) cHash" where
  "cHash_initHash vectorSize = \<lparr>m_hash = replicate vectorSize [], m_vectorSize = vectorSize\<rparr>"

definition cHash_new :: "nat \<Rightarrow> ('k, 'v) cHash" where
  "cHash_new vectorSize = cHash_initHash vectorSize"

text \<open>The list of a key; the hash function divides by the size of the array.\<close>

definition cHash_bucket :: "('k \<Rightarrow> uint64 \<Rightarrow> uint64) \<Rightarrow> ('k, 'v) cHash \<Rightarrow> 'k \<Rightarrow> nat res" where
  "cHash_bucket hf h index =
     (if length (m_hash h) = 0 then Inl UNDEFINED_BEHAVIOUR
      else
        let arrayPosition = unat (hf index (word_of_nat (length (m_hash h))))
        in if arrayPosition \<ge> length (m_hash h) then Inl EXCEPTION_OUT_OF_RANGE else Inr arrayPosition)"

text \<open>The scan of a list for a key: the position, or the end.\<close>

fun cHash_scan :: "('k \<times> 'v) list \<Rightarrow> 'k \<Rightarrow> nat \<Rightarrow> nat" where
  "cHash_scan [] index i = i"
| "cHash_scan ((a, b) # es) index i = (if a = index then i else cHash_scan es index (i + 1))"

definition cHash_hasKey :: "('k \<Rightarrow> uint64 \<Rightarrow> uint64) \<Rightarrow> ('k, 'v) cHash \<Rightarrow> 'k \<Rightarrow> bool res" where
  "cHash_hasKey hf h index =
     bind_res (cHash_bucket hf h index) (\<lambda>arrayPosition.
     let es = m_hash h ! arrayPosition; i = cHash_scan es index 0
     in Inr (i \<noteq> length es))"

definition cHash_append :: "('k \<Rightarrow> uint64 \<Rightarrow> uint64) \<Rightarrow> ('k, 'v) cHash \<Rightarrow> 'k \<Rightarrow> 'v \<Rightarrow> ('k, 'v) cHash res" where
  "cHash_append hf h index data =
     bind_res (cHash_hasKey hf h index) (\<lambda>b.
     bind_res (CHECK (\<not> b)) (\<lambda>_.
     bind_res (cHash_bucket hf h index) (\<lambda>arrayPosition.
     Inr (h\<lparr>m_hash := (m_hash h)[arrayPosition := m_hash h ! arrayPosition @ [(index, data)]]\<rparr>))))"

definition cHash_remove :: "('k \<Rightarrow> uint64 \<Rightarrow> uint64) \<Rightarrow> ('k, 'v) cHash \<Rightarrow> 'k \<Rightarrow> ('k, 'v) cHash res" where
  "cHash_remove hf h index =
     bind_res (cHash_bucket hf h index) (\<lambda>arrayPosition.
     let es = m_hash h ! arrayPosition; i = cHash_scan es index 0
     in if i = length es then Inl EXCEPTION_OUT_OF_RANGE
        else Inr (h\<lparr>m_hash := (m_hash h)[arrayPosition := take i es @ drop (i + 1) es]\<rparr>))"

definition cHash_removeAll :: "('k, 'v) cHash \<Rightarrow> ('k, 'v) cHash" where
  "cHash_removeAll h = cHash_initHash (m_vectorSize h)"

definition cHash_get :: "('k \<Rightarrow> uint64 \<Rightarrow> uint64) \<Rightarrow> ('k, 'v) cHash \<Rightarrow> 'k \<Rightarrow> 'v res" where
  "cHash_get hf h index =
     bind_res (cHash_bucket hf h index) (\<lambda>arrayPosition.
     let es = m_hash h ! arrayPosition; i = cHash_scan es index 0
     in if i = length es then Inl EXCEPTION_OUT_OF_RANGE else Inr (snd (es ! i)))"

text \<open>A store through the reference that \<open>operator []\<close> returns.\<close>

definition cHash_set :: "('k \<Rightarrow> uint64 \<Rightarrow> uint64) \<Rightarrow> ('k, 'v) cHash \<Rightarrow> 'k \<Rightarrow> 'v \<Rightarrow> ('k, 'v) cHash res" where
  "cHash_set hf h index data =
     bind_res (cHash_bucket hf h index) (\<lambda>arrayPosition.
     let es = m_hash h ! arrayPosition; i = cHash_scan es index 0
     in if i = length es then Inl EXCEPTION_OUT_OF_RANGE
        else Inr (h\<lparr>m_hash := (m_hash h)[arrayPosition := es[i := (fst (es ! i), data)]]\<rparr>))"

fun cHash_keys_loop :: "('k \<times> 'v) list list \<Rightarrow> 'k list \<Rightarrow> 'k list" where
  "cHash_keys_loop [] ret = ret"
| "cHash_keys_loop (es # ess) ret = cHash_keys_loop ess (foldl (\<lambda>ret j. ret @ [fst j]) ret es)"

definition cHash_keys :: "('k, 'v) cHash \<Rightarrow> 'k list" where
  "cHash_keys h = cHash_keys_loop (m_hash h) []"

definition cHash_assign :: "('k, 'v) cHash \<Rightarrow> ('k, 'v) cHash" where
  "cHash_assign other = \<lparr>m_hash = m_hash other, m_vectorSize = length (m_hash other)\<rparr>"

subsection \<open>Maps\<close>

text \<open>The interface of a map object, and what a sequence of calls on one returns.\<close>

datatype ('k, 'v) map_call = Append 'k 'v | Remove 'k | Get 'k | Set 'k 'v | Has 'k | Clear

datatype 'v map_answer = Done | Value 'v | Present bool | Thrown xerr

fun map_spec :: "('k \<Rightarrow> 'v option) \<Rightarrow> ('k, 'v) map_call \<Rightarrow> ('k \<Rightarrow> 'v option) \<times> 'v map_answer" where
  "map_spec m (Append k v) = (if m k = None then (m(k \<mapsto> v), Done) else (m, Thrown EXCEPTION_ASSERTION))"
| "map_spec m (Remove k) = (if m k = None then (m, Thrown EXCEPTION_OUT_OF_RANGE) else (m(k := None), Done))"
| "map_spec m (Get k) = (m, case m k of None \<Rightarrow> Thrown EXCEPTION_OUT_OF_RANGE | Some v \<Rightarrow> Value v)"
| "map_spec m (Set k v) = (if m k = None then (m, Thrown EXCEPTION_OUT_OF_RANGE) else (m(k \<mapsto> v), Done))"
| "map_spec m (Has k) = (m, Present (m k \<noteq> None))"
| "map_spec m Clear = (Map.empty, Done)"

fun map_spec_run :: "('k \<Rightarrow> 'v option) \<Rightarrow> ('k, 'v) map_call list \<Rightarrow> ('k \<Rightarrow> 'v option) \<times> 'v map_answer list" where
  "map_spec_run m [] = (m, [])"
| "map_spec_run m (c # cs) =
     (let (m, a) = map_spec m c; (m, as) = map_spec_run m cs in (m, a # as))"

text \<open>An operation that throws leaves the object as it was.\<close>

definition kept :: "'h \<Rightarrow> 'h res \<Rightarrow> 'h \<times> 'v map_answer" where
  "kept h r = (case r of Inl e \<Rightarrow> (h, Thrown e) | Inr h' \<Rightarrow> (h', Done))"

record ('h, 'k, 'v) map_ops =
  op_append :: "'h \<Rightarrow> 'k \<Rightarrow> 'v \<Rightarrow> 'h res"
  op_remove :: "'h \<Rightarrow> 'k \<Rightarrow> 'h res"
  op_get :: "'h \<Rightarrow> 'k \<Rightarrow> 'v res"
  op_set :: "'h \<Rightarrow> 'k \<Rightarrow> 'v \<Rightarrow> 'h res"
  op_has :: "'h \<Rightarrow> 'k \<Rightarrow> bool res"
  op_clear :: "'h \<Rightarrow> 'h"

fun map_step :: "('h, 'k, 'v) map_ops \<Rightarrow> 'h \<Rightarrow> ('k, 'v) map_call \<Rightarrow> 'h \<times> 'v map_answer" where
  "map_step ops h (Append k v) = kept h (op_append ops h k v)"
| "map_step ops h (Remove k) = kept h (op_remove ops h k)"
| "map_step ops h (Get k) = (h, case op_get ops h k of Inl e \<Rightarrow> Thrown e | Inr v \<Rightarrow> Value v)"
| "map_step ops h (Set k v) = kept h (op_set ops h k v)"
| "map_step ops h (Has k) = (h, case op_has ops h k of Inl e \<Rightarrow> Thrown e | Inr b \<Rightarrow> Present b)"
| "map_step ops h Clear = (op_clear ops h, Done)"

fun map_run :: "('h, 'k, 'v) map_ops \<Rightarrow> 'h \<Rightarrow> ('k, 'v) map_call list \<Rightarrow> 'h \<times> 'v map_answer list" where
  "map_run ops h [] = (h, [])"
| "map_run ops h (c # cs) =
     (let (h, a) = map_step ops h c; (h, as) = map_run ops h cs in (h, a # as))"

locale map_object =
  fixes ops :: "('h, 'k, 'v) map_ops"
    and inv :: "'h \<Rightarrow> bool"
    and view :: "'h \<Rightarrow> 'k \<Rightarrow> 'v option"
  assumes append_new: "inv h \<Longrightarrow> view h k = None \<Longrightarrow>
      \<exists>h'. op_append ops h k v = Inr h' \<and> inv h' \<and> view h' = (view h)(k \<mapsto> v)"
    and append_old: "inv h \<Longrightarrow> view h k = Some w \<Longrightarrow> op_append ops h k v = Inl EXCEPTION_ASSERTION"
    and remove_old: "inv h \<Longrightarrow> view h k = Some w \<Longrightarrow>
      \<exists>h'. op_remove ops h k = Inr h' \<and> inv h' \<and> view h' = (view h)(k := None)"
    and remove_new: "inv h \<Longrightarrow> view h k = None \<Longrightarrow> op_remove ops h k = Inl EXCEPTION_OUT_OF_RANGE"
    and set_old: "inv h \<Longrightarrow> view h k = Some w \<Longrightarrow>
      \<exists>h'. op_set ops h k v = Inr h' \<and> inv h' \<and> view h' = (view h)(k \<mapsto> v)"
    and set_new: "inv h \<Longrightarrow> view h k = None \<Longrightarrow> op_set ops h k v = Inl EXCEPTION_OUT_OF_RANGE"
    and get_law: "inv h \<Longrightarrow> op_get ops h k = (case view h k of None \<Rightarrow> Inl EXCEPTION_OUT_OF_RANGE | Some v \<Rightarrow> Inr v)"
    and has_law: "inv h \<Longrightarrow> op_has ops h k = Inr (view h k \<noteq> None)"
    and clear_law: "inv h \<Longrightarrow> inv (op_clear ops h) \<and> view (op_clear ops h) = Map.empty"
begin

lemma step_refines:
  assumes "inv h"
  shows "inv (fst (map_step ops h c))"
    and "(view (fst (map_step ops h c)), snd (map_step ops h c)) = map_spec (view h) c"
proof -
  have "inv (fst (map_step ops h c)) \<and>
      (view (fst (map_step ops h c)), snd (map_step ops h c)) = map_spec (view h) c"
  proof (cases c)
    case (Append k v)
    then show ?thesis
      using append_new [OF assms, of k v] append_old [OF assms, of k _ v] assms
      by (cases "view h k") (auto simp: kept_def)
  next
    case (Remove k)
    then show ?thesis
      using remove_old [OF assms, of k] remove_new [OF assms, of k] assms
      by (cases "view h k") (auto simp: kept_def)
  next
    case (Set k v)
    then show ?thesis
      using set_old [OF assms, of k _ v] set_new [OF assms, of k v] assms
      by (cases "view h k") (auto simp: kept_def)
  qed (use assms clear_law in \<open>auto simp: get_law has_law split: option.splits\<close>)
  then show "inv (fst (map_step ops h c))"
    "(view (fst (map_step ops h c)), snd (map_step ops h c)) = map_spec (view h) c"
    by blast+
qed

lemma run_refines:
  "inv h \<Longrightarrow> inv (fst (map_run ops h cs)) \<and>
     (view (fst (map_run ops h cs)), snd (map_run ops h cs)) = map_spec_run (view h) cs"
proof (induction cs arbitrary: h)
  case (Cons c cs)
  obtain h1 a where s: "map_step ops h c = (h1, a)" by (cases "map_step ops h c")
  have "inv h1" "map_spec (view h) c = (view h1, a)"
    using step_refines [OF Cons.prems, of c] s by simp_all
  with Cons.IH [OF this(1)] show ?case
    by (auto simp: s Let_def split: prod.splits)
qed simp

end

subsection \<open>The table as a map\<close>

locale hash_function =
  fixes hf :: "'k \<Rightarrow> uint64 \<Rightarrow> uint64"
  assumes bound: "0 < n \<Longrightarrow> hf k n < n"

interpretation hf_int: hash_function cHashFunction_int
  by unfold_locales (simp add: cHashFunction_int_def word_mod_less_divisor)

interpretation hf_uint32: hash_function cHashFunction_uint32
  by unfold_locales (simp add: cHashFunction_uint32_def word_mod_less_divisor)

interpretation hf_uint64: hash_function cHashFunction_uint64
  by unfold_locales (simp add: cHashFunction_uint64_def word_mod_less_divisor)

interpretation hf_chars: hash_function cHashFunction_chars
  by unfold_locales (simp add: cHashFunction_chars_def hf_uint64.bound)

interpretation hf_cString: hash_function cHashFunction_cString
  by unfold_locales (simp add: cHashFunction_cString_def hf_uint64.bound)

interpretation hf_cBuffer: hash_function cHashFunction_cBuffer
  by unfold_locales (simp add: cHashFunction_cBuffer_def hf_uint64.bound)

definition cHash_ops :: "('k \<Rightarrow> uint64 \<Rightarrow> uint64) \<Rightarrow> (('k, 'v) cHash, 'k, 'v) map_ops" where
  "cHash_ops hf =
     \<lparr>op_append = cHash_append hf, op_remove = cHash_remove hf, op_get = cHash_get hf,
      op_set = cHash_set hf, op_has = cHash_hasKey hf, op_clear = cHash_removeAll\<rparr>"

text \<open>
  Every pair is in the list its key is hashed to, and no list holds a key twice. The table stands
  for the map that all pairs together make.
\<close>

definition cHash_slot :: "('k \<Rightarrow> uint64 \<Rightarrow> uint64) \<Rightarrow> nat \<Rightarrow> 'k \<Rightarrow> nat" where
  "cHash_slot hf n k = unat (hf k (word_of_nat n))"

definition cHash_inv :: "('k \<Rightarrow> uint64 \<Rightarrow> uint64) \<Rightarrow> ('k, 'v) cHash \<Rightarrow> bool" where
  "cHash_inv hf h \<longleftrightarrow>
     0 < length (m_hash h) \<and> length (m_hash h) < 2 ^ 64 \<and> 0 < m_vectorSize h \<and> m_vectorSize h < 2 ^ 64 \<and>
     (\<forall>i < length (m_hash h). distinct (map fst (m_hash h ! i)) \<and>
        (\<forall>(k, v) \<in> set (m_hash h ! i). cHash_slot hf (length (m_hash h)) k = i))"

definition cHash_view :: "('k, 'v) cHash \<Rightarrow> 'k \<Rightarrow> 'v option" where
  "cHash_view h = map_of (concat (m_hash h))"

lemma scan_none: "k \<notin> fst ` set es \<Longrightarrow> cHash_scan es k i = i + length es"
  by (induction es k i rule: cHash_scan.induct) auto

lemma scan_split:
  "k \<notin> fst ` set us \<Longrightarrow> cHash_scan (us @ (k, v) # vs) k i = i + length us"
  by (induction us k i rule: cHash_scan.induct) auto

lemma map_of_concat:
  assumes "\<And>j. j < length bs \<Longrightarrow> j \<noteq> i \<Longrightarrow> k \<notin> fst ` set (bs ! j)" "i < length bs"
  shows "map_of (concat bs) k = map_of (bs ! i) k"
  using assms
proof (induction bs arbitrary: i)
  case (Cons b bs)
  show ?case
  proof (cases i)
    case 0
    have "k \<notin> fst ` set b'" if b: "b' \<in> set bs" for b'
    proof -
      obtain j where "j < length bs" "bs ! j = b'" using b unfolding in_set_conv_nth by blast
      then show ?thesis using Cons.prems(1) [of "Suc j"] 0 by simp
    qed
    then have "k \<notin> fst ` set (concat bs)" unfolding set_concat image_UN by blast
    then have "map_of (concat bs) k = None" by (simp add: map_of_eq_None_iff)
    then show ?thesis using 0 by (simp add: map_add_def split: option.splits)
  next
    case (Suc i')
    have "k \<notin> fst ` set b" using Cons.prems(1) [of 0] Suc by simp
    then have "map_of b k = None" by (simp add: map_of_eq_None_iff)
    moreover have "map_of (concat bs) k = map_of (bs ! i') k"
    proof (rule Cons.IH)
      show "k \<notin> fst ` set (bs ! j)" if "j < length bs" "j \<noteq> i'" for j
        using Cons.prems(1) [of "Suc j"] that Suc by simp
      show "i' < length bs" using Cons.prems(2) Suc by simp
    qed
    ultimately show ?thesis using Suc by (simp add: map_add_def split: option.splits)
  qed
qed simp

context hash_function
begin

lemma slot_bound: "0 < n \<Longrightarrow> n < 2 ^ 64 \<Longrightarrow> cHash_slot hf n k < n"
proof -
  assume n: "0 < n" "n < 2 ^ 64"
  then have u: "unat (word_of_nat n :: uint64) = n"
    by (simp add: unsigned_of_nat take_bit_nat_eq_self)
  then have "(0 :: uint64) < word_of_nat n" using n(1) by (simp add: word_gt_0 unat_gt_0 [symmetric])
  from bound [OF this, of k] show ?thesis
    using u by (simp add: cHash_slot_def word_less_nat_alt)
qed

lemma bucket_simp:
  "cHash_inv hf h \<Longrightarrow> cHash_bucket hf h k = Inr (cHash_slot hf (length (m_hash h)) k) \<and>
     cHash_slot hf (length (m_hash h)) k < length (m_hash h)"
  using slot_bound [of "length (m_hash h)" k]
  by (simp add: cHash_inv_def cHash_bucket_def Let_def cHash_slot_def)

lemma view_slot:
  assumes "cHash_inv hf h"
  shows "cHash_view h k = map_of (m_hash h ! cHash_slot hf (length (m_hash h)) k) k"
proof -
  let ?n = "length (m_hash h)"
  have "k \<notin> fst ` set (m_hash h ! j)" if "j < ?n" "j \<noteq> cHash_slot hf ?n k" for j
    using assms that by (force simp: cHash_inv_def)
  then show ?thesis
    unfolding cHash_view_def using bucket_simp [OF assms, of k] by (intro map_of_concat) auto
qed

text \<open>A change of the list of \<open>k\<close> that keeps the other keys.\<close>

lemma update_bucket:
  assumes "cHash_inv hf h" and i: "i = cHash_slot hf (length (m_hash h)) k"
    and "distinct (map fst es)" and "fst ` set es \<subseteq> insert k (fst ` set (m_hash h ! i))"
    and "\<And>j. j \<noteq> k \<Longrightarrow> map_of es j = map_of (m_hash h ! i) j"
  shows "cHash_inv hf (h\<lparr>m_hash := (m_hash h)[i := es]\<rparr>)"
    and "cHash_view (h\<lparr>m_hash := (m_hash h)[i := es]\<rparr>) = (cHash_view h)(k := map_of es k)"
proof -
  let ?h = "h\<lparr>m_hash := (m_hash h)[i := es]\<rparr>"
  have ib: "i < length (m_hash h)" using bucket_simp [OF assms(1), of k] i by simp
  have slots: "cHash_slot hf (length (m_hash h)) a = i" if "(a, b) \<in> set es" for a b
  proof -
    have "a = k \<or> a \<in> fst ` set (m_hash h ! i)" using assms(4) that by force
    then show ?thesis using assms(1) ib i by (force simp: cHash_inv_def)
  qed
  show inv: "cHash_inv hf ?h"
    unfolding cHash_inv_def
  proof (intro conjI allI impI)
    fix j assume "j < length (m_hash ?h)"
    then have j: "j < length (m_hash h)" by simp
    show "distinct (map fst (m_hash ?h ! j))"
      using assms(1,3) j ib by (cases "j = i") (auto simp: cHash_inv_def)
    show "\<forall>(k, v) \<in> set (m_hash ?h ! j). cHash_slot hf (length (m_hash ?h)) k = j"
      using assms(1) slots j ib by (cases "j = i") (auto simp: cHash_inv_def)
  qed (use assms(1) in \<open>auto simp: cHash_inv_def\<close>)
  show "cHash_view ?h = (cHash_view h)(k := map_of es k)"
  proof
    fix j
    show "cHash_view ?h j = ((cHash_view h)(k := map_of es k)) j"
      using view_slot [OF inv, of j] view_slot [OF assms(1), of j] assms(5) [of j] i ib
      by (cases "cHash_slot hf (length (m_hash h)) j = i") auto
  qed
qed

lemma bucket_split:
  assumes "cHash_inv hf h" "cHash_view h k = Some v"
  obtains us vs where "m_hash h ! cHash_slot hf (length (m_hash h)) k = us @ (k, v) # vs"
    "k \<notin> fst ` set us" "k \<notin> fst ` set vs" "distinct (map fst (us @ vs))"
proof -
  let ?es = "m_hash h ! cHash_slot hf (length (m_hash h)) k"
  have "(k, v) \<in> set ?es"
    using assms view_slot [OF assms(1), of k] by (simp add: map_of_SomeD)
  then obtain us vs where s: "?es = us @ (k, v) # vs" by (meson split_list)
  have "distinct (map fst ?es)"
    using assms(1) bucket_simp [OF assms(1), of k] by (simp add: cHash_inv_def)
  then show ?thesis using that s by auto
qed

lemma absent:
  assumes "cHash_inv hf h" "cHash_view h k = None"
  shows "k \<notin> fst ` set (m_hash h ! cHash_slot hf (length (m_hash h)) k)"
  using assms view_slot [OF assms(1), of k] by (simp add: map_of_eq_None_iff)

lemma hasKey_simp:
  assumes "cHash_inv hf h"
  shows "cHash_hasKey hf h k = Inr (cHash_view h k \<noteq> None)"
proof (cases "cHash_view h k")
  case None
  have "cHash_hasKey hf h k = Inr False"
    using bucket_simp [OF assms, of k] scan_none [OF absent [OF assms None], of 0]
    by (simp add: cHash_hasKey_def Let_def)
  then show ?thesis using None by simp
next
  case (Some v)
  obtain us vs where uv: "m_hash h ! cHash_slot hf (length (m_hash h)) k = us @ (k, v) # vs"
    "k \<notin> fst ` set us" "k \<notin> fst ` set vs" "distinct (map fst (us @ vs))"
    by (rule bucket_split [OF assms Some])
  have "cHash_hasKey hf h k = Inr True"
    using bucket_simp [OF assms, of k] by (simp add: cHash_hasKey_def Let_def uv(1) scan_split [OF uv(2)])
  then show ?thesis using Some by simp
qed

lemma cHash_map: "map_object (cHash_ops hf) (cHash_inv hf) cHash_view"
proof
  fix h :: "('k, 'v) cHash" and k v
  assume i: "cHash_inv hf h" and n: "cHash_view h k = None"
  let ?s = "cHash_slot hf (length (m_hash h)) k"
  have ab: "k \<notin> fst ` set (m_hash h ! ?s)" by (rule absent [OF i n])
  have b: "cHash_bucket hf h k = Inr ?s" "?s < length (m_hash h)" using bucket_simp [OF i, of k] by auto
  have d: "distinct (map fst (m_hash h ! ?s @ [(k, v)]))"
    using i ab b(2) by (auto simp: cHash_inv_def)
  have none: "map_of (m_hash h ! ?s) k = None" using ab by (simp add: map_of_eq_None_iff)
  have m: "map_of (m_hash h ! ?s @ [(k, v)]) j = (if j = k then Some v else map_of (m_hash h ! ?s) j)" for j
    using none by (auto simp: map_add_def split: option.splits)
  show "\<exists>h'. op_append (cHash_ops hf) h k v = Inr h' \<and> cHash_inv hf h' \<and> cHash_view h' = (cHash_view h)(k \<mapsto> v)"
    using update_bucket [OF i refl d, of k] m b by (auto simp: cHash_ops_def cHash_append_def hasKey_simp [OF i] n none)
  show "op_remove (cHash_ops hf) h k = Inl EXCEPTION_OUT_OF_RANGE"
    using b ab by (simp add: cHash_ops_def cHash_remove_def scan_none Let_def)
  show "op_set (cHash_ops hf) h k v = Inl EXCEPTION_OUT_OF_RANGE"
    using b ab by (simp add: cHash_ops_def cHash_set_def scan_none Let_def)
next
  fix h :: "('k, 'v) cHash" and k w v
  assume i: "cHash_inv hf h" and s: "cHash_view h k = Some w"
  let ?s = "cHash_slot hf (length (m_hash h)) k"
  obtain us vs where uv: "m_hash h ! ?s = us @ (k, w) # vs" "k \<notin> fst ` set us" "k \<notin> fst ` set vs"
    "distinct (map fst (us @ vs))" by (rule bucket_split [OF i s])
  have b: "cHash_bucket hf h k = Inr ?s" "?s < length (m_hash h)" using bucket_simp [OF i, of k] by auto
  have nu: "map_of us k = None" "map_of vs k = None" using uv by (simp_all add: map_of_eq_None_iff)
  show "op_append (cHash_ops hf) h k v = Inl EXCEPTION_ASSERTION"
    by (simp add: cHash_ops_def cHash_append_def hasKey_simp [OF i] s)
  have "map_of (us @ vs) j = (if j = k then None else map_of (m_hash h ! ?s) j)" for j
    using nu by (auto simp: uv(1) map_add_def split: option.splits)
  then show "\<exists>h'. op_remove (cHash_ops hf) h k = Inr h' \<and> cHash_inv hf h' \<and> cHash_view h' = (cHash_view h)(k := None)"
    using update_bucket [OF i refl uv(4), of k] uv b nu
    by (auto simp: cHash_ops_def cHash_remove_def Let_def scan_split [OF uv(2)])
  have "map_of (us @ (k, v) # vs) j = (if j = k then Some v else map_of (m_hash h ! ?s) j)" for j
    using nu by (auto simp: uv(1) map_add_def split: option.splits)
  moreover have "distinct (map fst (us @ (k, v) # vs))" using uv by auto
  ultimately show "\<exists>h'. op_set (cHash_ops hf) h k v = Inr h' \<and> cHash_inv hf h' \<and> cHash_view h' = (cHash_view h)(k \<mapsto> v)"
    using update_bucket [OF i refl, of "us @ (k, v) # vs" k] uv b nu
    by (auto simp: cHash_ops_def cHash_set_def Let_def scan_split [OF uv(2)])
next
  fix h :: "('k, 'v) cHash" and k
  assume i: "cHash_inv hf h"
  have b: "cHash_bucket hf h k = Inr (cHash_slot hf (length (m_hash h)) k)" using bucket_simp [OF i, of k] by auto
  show "op_get (cHash_ops hf) h k = (case cHash_view h k of None \<Rightarrow> Inl EXCEPTION_OUT_OF_RANGE | Some v \<Rightarrow> Inr v)"
  proof (cases "cHash_view h k")
    case None
    then show ?thesis using absent [OF i None] b by (simp add: cHash_ops_def cHash_get_def scan_none Let_def)
  next
    case (Some v)
    obtain us vs where uv: "m_hash h ! cHash_slot hf (length (m_hash h)) k = us @ (k, v) # vs"
    "k \<notin> fst ` set us" "k \<notin> fst ` set vs" "distinct (map fst (us @ vs))"
      by (rule bucket_split [OF i Some])
    show ?thesis using b Some by (simp add: cHash_ops_def cHash_get_def Let_def uv(1) scan_split [OF uv(2)])
  qed
  show "op_has (cHash_ops hf) h k = Inr (cHash_view h k \<noteq> None)"
    by (simp add: cHash_ops_def hasKey_simp [OF i])
next
  fix h :: "('k, 'v) cHash"
  assume "cHash_inv hf h"
  then show "cHash_inv hf (op_clear (cHash_ops hf) h) \<and> cHash_view (op_clear (cHash_ops hf) h) = Map.empty"
    by (auto simp: cHash_ops_def cHash_removeAll_def cHash_initHash_def cHash_inv_def cHash_view_def)
qed

end

sublocale hash_function \<subseteq> table: map_object "cHash_ops hf" "cHash_inv hf" cHash_view
  by (rule cHash_map)

lemma new_inv:
  "0 < n \<Longrightarrow> n < 2 ^ 64 \<Longrightarrow> cHash_inv hf (cHash_new n) \<and> cHash_view (cHash_new n) = Map.empty"
  by (auto simp: cHash_new_def cHash_initHash_def cHash_inv_def cHash_view_def)

lemma keys_loop: "cHash_keys_loop bs ret = ret @ map fst (concat bs)"
  by (induction bs arbitrary: ret) (simp_all add: foldl_append_map)

lemma keys_simp: "cHash_keys h = map fst (concat (m_hash h))"
  by (simp add: cHash_keys_def keys_loop)

lemma keys_distinct:
  assumes "cHash_inv hf h"
  shows "distinct (cHash_keys h)" "set (cHash_keys h) = dom (cHash_view h)"
proof -
  have d: "distinct (map fst (concat bs))"
    if "\<And>i. i < length bs \<Longrightarrow> distinct (map fst (bs ! i))"
      "\<And>i k v. i < length bs \<Longrightarrow> (k, v) \<in> set (bs ! i) \<Longrightarrow> f k = i + p" for bs :: "('a \<times> 'b) list list" and f p
    using that
  proof (induction bs arbitrary: p)
    case (Cons b bs)
    have "distinct (map fst (concat bs))"
    proof (rule Cons.IH)
      fix i assume "i < length bs"
      then show "distinct (map fst (bs ! i))" using Cons.prems(1) [of "Suc i"] by simp
    next
      fix i k v assume "i < length bs" "(k, v) \<in> set (bs ! i)"
      then show "f k = i + Suc p" using Cons.prems(2) [of "Suc i"] by simp
    qed
    moreover have "f k = p" if "k \<in> fst ` set b" for k
      using that Cons.prems(2) [of 0] by auto
    moreover have "f k \<noteq> p" if k: "k \<in> fst ` set (concat bs)" for k
    proof -
      obtain b' v where b': "b' \<in> set bs" "(k, v) \<in> set b'" using k by auto
      then obtain i where "i < length bs" "bs ! i = b'" unfolding in_set_conv_nth by blast
      then show ?thesis using Cons.prems(2) [of "Suc i" k v] b' by simp
    qed
    ultimately show ?case using Cons.prems(1) [of 0] by (auto simp: image_iff) 
  qed simp
  show "distinct (cHash_keys h)"
    unfolding keys_simp
    by (rule d [where f = "cHash_slot hf (length (m_hash h))" and p = 0]) (use assms in \<open>force simp: cHash_inv_def\<close>)+
  show "set (cHash_keys h) = dom (cHash_view h)"
    by (simp add: keys_simp cHash_view_def dom_map_of_conv_image_fst)
qed

context hash_function
begin

lemma new_run:
  assumes "0 < n" "n < 2 ^ 64"
  shows "case map_run (cHash_ops hf) (cHash_new n) calls of (h, answers) \<Rightarrow>
     (cHash_view h, answers) = map_spec_run Map.empty calls \<and>
     distinct (cHash_keys h) \<and> set (cHash_keys h) = dom (cHash_view h)"
proof -
  let ?h = "fst (map_run (cHash_ops hf) (cHash_new n) calls)"
  have "cHash_inv hf ?h"
    "(cHash_view ?h, snd (map_run (cHash_ops hf) (cHash_new n) calls)) = map_spec_run Map.empty calls"
    using assms table.run_refines [of "cHash_new n" calls] by (simp_all add: new_inv)
  then show ?thesis using keys_distinct [of hf ?h] by (simp add: case_prod_unfold)
qed

end

text \<open>
  C6: a new table of any positive size, with numbers or with buffers as keys, answers every
  sequence of calls as a map does: \<open>append\<close> of a key that is there fails the check, removal and
  access of a key that is not there throw, and the keys listed at the end are those of the map,
  each once.
\<close>

theorem cHash_refines:
  assumes "0 < n" and "n < 2 ^ 64"
  shows "(case map_run (cHash_ops cHashFunction_uint64) (cHash_new n) calls of (h, answers) \<Rightarrow>
            (cHash_view h, answers) = map_spec_run Map.empty calls \<and>
            distinct (cHash_keys h) \<and> set (cHash_keys h) = dom (cHash_view h)) \<and>
         (case map_run (cHash_ops cHashFunction_cBuffer) (cHash_new n) calls' of (h, answers) \<Rightarrow>
            (cHash_view h, answers) = map_spec_run Map.empty calls' \<and>
            distinct (cHash_keys h) \<and> set (cHash_keys h) = dom (cHash_view h))"
  by (intro conjI hf_uint64.new_run hf_cBuffer.new_run assms)

theorem cHash_refines_witness:
  "(0 :: nat) < 256 \<and> (256 :: nat) < 2 ^ 64 \<and>
   snd (map_run (cHash_ops cHashFunction_uint64) (cHash_new 256)
          [Append 7 True, Append 263 False, Append 7 False, Remove 7, Get 263, Get 7]) =
     [Done, Done, Thrown EXCEPTION_ASSERTION, Done, Value False, Thrown EXCEPTION_OUT_OF_RANGE]"
proof -
  let ?cs = "[Append 7 True, Append 263 False, Append 7 False, Remove 7, Get 263, Get 7] :: (uint64, bool) map_call list"
  have "snd (map_run (cHash_ops cHashFunction_uint64) (cHash_new 256) ?cs) = snd (map_spec_run Map.empty ?cs)"
    using cHash_refines [of 256 ?cs "[] :: (uint8 list, bool) map_call list"]
    by (auto simp: case_prod_unfold dest: arg_cong [where f = snd])
  then show ?thesis by simp
qed

end
