(* ===== verification/XBasicIO.thy ===== *)
theory XBasicIO
  imports XEndian XStringProps
begin

text \<open>
  The streams of stream/basicIO.h and basicIO.cpp: the virtual functions of a stream as a record,
  the loops of \<open>pipeRead\<close> and \<open>pipeWrite\<close> over them, and everything built on the loops: numbers,
  remote addresses, strings, whole streams, copies.
\<close>

subsection \<open>Operations that may not return\<close>

text \<open>
  A loop over a virtual function may run forever. An operation of a stream is \<open>None\<close> when it does
  not return, and otherwise an exception or a result.
\<close>

type_synonym 'a run = "'a res option"

definition ok :: "'a \<Rightarrow> 'a run" where
  "ok x = Some (Inr x)"

definition throw :: "xerr \<Rightarrow> 'a run" where
  "throw e = Some (Inl e)"

definition of_res :: "'a res \<Rightarrow> 'a run" where
  "of_res r = Some r"

definition run_bind :: "'a run \<Rightarrow> ('a \<Rightarrow> 'b run) \<Rightarrow> 'b run" where
  "run_bind m f = Option.bind m (\<lambda>r. case r of Inl e \<Rightarrow> throw e | Inr x \<Rightarrow> f x)"

lemma run_bind_simps [simp]:
  "run_bind None f = None" "run_bind (throw e) f = throw e" "run_bind (ok x) f = f x"
  "run_bind (of_res r) f = (case r of Inl e \<Rightarrow> throw e | Inr x \<Rightarrow> f x)"
  by (simp_all add: run_bind_def throw_def ok_def of_res_def)

lemma run_distinct [simp]:
  "ok x \<noteq> throw e" "throw e \<noteq> ok x" "ok x \<noteq> None" "throw e \<noteq> None" "ok x = ok y \<longleftrightarrow> x = y"
  "throw e = throw e' \<longleftrightarrow> e = e'"
  by (simp_all add: throw_def ok_def)

lemma run_bind_assoc: "run_bind (run_bind m f) g = run_bind m (\<lambda>x. run_bind (f x) g)"
  by (auto simp: run_bind_def throw_def split: option.splits sum.splits Option.bind_splits)

lemma run_bind_mono [partial_function_mono]:
  assumes "mono_option B" and "\<And>y. mono_option (\<lambda>f. C y f)"
  shows "mono_option (\<lambda>f. run_bind (B f) (\<lambda>y. C y f))"
proof -
  have "mono_option (\<lambda>f. case r of Inl e \<Rightarrow> throw e | Inr x \<Rightarrow> C x f)" for r
    using assms(2) by (cases r) (auto simp: monotone_def flat_ord_def)
  then show ?thesis unfolding run_bind_def by (rule bind_mono [OF assms(1)])
qed

text \<open>An operation that returns, with a result that satisfies \<open>P\<close>.\<close>

definition yields :: "'a run \<Rightarrow> ('a \<Rightarrow> bool) \<Rightarrow> bool" where
  "yields m P \<longleftrightarrow> (\<exists>x. m = ok x \<and> P x)"

lemma yields_ok [simp]: "yields (ok x) P \<longleftrightarrow> P x"
  by (auto simp: yields_def)

lemma yields_throw [simp]: "\<not> yields (throw e) P"
  by (simp add: yields_def)

lemma yields_bind:
  "yields m P \<Longrightarrow> (\<And>x. P x \<Longrightarrow> yields (f x) Q) \<Longrightarrow> yields (run_bind m f) Q"
  by (force simp: yields_def)

lemma yields_mono: "yields m P \<Longrightarrow> (\<And>x. P x \<Longrightarrow> Q x) \<Longrightarrow> yields m Q"
  by (auto simp: yields_def)

lemma yieldsE:
  assumes "yields m P"
  obtains x where "m = ok x" "P x"
  using assms by (auto simp: yields_def)

subsection \<open>The virtual functions\<close>

datatype seekMethod = IO_SEEK_SET | IO_SEEK_CUR | IO_SEEK_END

record 's basicIO =
  v_read :: "'s \<Rightarrow> nat \<Rightarrow> (uint8 list \<times> 's) run"
  v_write :: "'s \<Rightarrow> uint8 list \<Rightarrow> (nat \<times> 's) run"
  v_flush :: "'s \<Rightarrow> 's run"
  v_isEOS :: "'s \<Rightarrow> bool"
  v_seek :: "'s \<Rightarrow> uint32 \<Rightarrow> seekMethod \<Rightarrow> 's run"
  v_length :: "'s \<Rightarrow> nat"
  v_getPointer :: "'s \<Rightarrow> nat"
  v_getPipeReadBestRequest :: nat
  v_isLittleEndian :: bool
  canLength :: bool
  canSeekFromBegin :: bool
  canSeekForward :: bool
  canSeekBackward :: bool
  canSeekFromEnd :: bool
  canGetPointer :: bool

text \<open>Whether the streams write and read the type of an address, and the type when they do not.\<close>

datatype RemoteAddressEncodingTypes =
    REMOTE_ADDRESS_16BIT
  | REMOTE_ADDRESS_32BIT
  | REMOTE_ADDRESS_64BIT
  | REMOTE_ADDRESS_INVALID uint8

record addressCoding =
  m_shouldEncodeType :: bool
  m_addressType :: RemoteAddressEncodingTypes

definition DEFAULT_REMOTE_ADDRESS_ENCODING :: RemoteAddressEncodingTypes where
  "DEFAULT_REMOTE_ADDRESS_ENCODING = REMOTE_ADDRESS_64BIT"

definition basicInput_new :: addressCoding where
  "basicInput_new = \<lparr>m_shouldEncodeType = True, m_addressType = DEFAULT_REMOTE_ADDRESS_ENCODING\<rparr>"

definition changeDecodedAddressType :: "addressCoding \<Rightarrow> bool \<Rightarrow> RemoteAddressEncodingTypes \<Rightarrow> addressCoding" where
  "changeDecodedAddressType c shouldEncodeType enforceType =
     c\<lparr>m_shouldEncodeType := shouldEncodeType, m_addressType := enforceType\<rparr>"

subsection \<open>The reading and writing loops\<close>

partial_function (option) pipeRead :: "'s basicIO \<Rightarrow> 's \<Rightarrow> nat \<Rightarrow> (uint8 list \<times> 's) run" where
  "pipeRead ops s leftSize =
     (if leftSize = 0 then ok ([], s)
      else
        run_bind (v_read ops s (t_min leftSize (v_getPipeReadBestRequest ops))) (\<lambda>x.
        if v_isEOS ops (snd x) then ok x
        else
          run_bind (pipeRead ops (snd x) (leftSize - length (fst x))) (\<lambda>y.
          ok (fst x @ fst y, snd y))))"

definition pipeRead_buffer :: "'s basicIO \<Rightarrow> 's \<Rightarrow> uint8 list \<Rightarrow> nat \<Rightarrow> (uint8 list \<times> nat \<times> 's) run" where
  "pipeRead_buffer ops s buffer len =
     run_bind (pipeRead ops s len) (\<lambda>(bs, s). ok (buffer @ bs, length bs, s))"

definition pipeReadNotEos :: "'s basicIO \<Rightarrow> 's \<Rightarrow> nat \<Rightarrow> (uint8 list \<times> 's) run" where
  "pipeReadNotEos ops s len =
     run_bind (pipeRead ops s len) (\<lambda>(bs, s).
     run_bind (of_res (CHECK (length bs = len))) (\<lambda>_. ok (bs, s)))"

partial_function (option) pipeWrite :: "'s basicIO \<Rightarrow> 's \<Rightarrow> uint8 list \<Rightarrow> 's run" where
  "pipeWrite ops s buffer =
     (if buffer = [] then ok s
      else run_bind (v_write ops s buffer) (\<lambda>x. pipeWrite ops (snd x) (drop (fst x) buffer)))"

lemma pipeWrite_Nil [simp]: "pipeWrite ops s [] = ok s"
  by (subst pipeWrite.simps) simp

lemma pipeWrite_once:
  "v_write ops s bs = ok (length bs, s') \<Longrightarrow> bs \<noteq> [] \<Longrightarrow> pipeWrite ops s bs = ok s'"
  by (subst pipeWrite.simps) simp

text \<open>The writing loop does not end on a stream that takes nothing.\<close>

lemma pipeWrite_stuck:
  assumes "v_write ops s buffer = ok (0, s)" and "buffer \<noteq> []"
  shows "pipeWrite ops s buffer = None"
proof (rule ccontr)
  assume "pipeWrite ops s buffer \<noteq> None"
  then obtain y where major: "pipeWrite ops s buffer = Some y" by auto
  let ?P = "\<lambda>ops' s' b. \<not> (ops' = ops \<and> s' = s \<and> b = buffer)"
  have "?P ops s buffer"
  proof (rule pipeWrite.raw_induct [OF _ major, where P = "\<lambda>o' s' b y. ?P o' s' b"])
    fix rec o' s' b y
    assume IH: "\<And>o' s' b y. rec o' s' b = Some y \<Longrightarrow> ?P o' s' b"
      and body: "(if b = [] then ok s' else run_bind (v_write o' s' b) (\<lambda>x. rec o' (snd x) (drop (fst x) b))) = Some y"
    show "?P o' s' b"
    proof clarify
      assume "o' = ops" "s' = s" "b = buffer"
      then have "rec ops s buffer = Some y" using body assms by simp
      then show False using IH by blast
    qed
  qed
  then show False by simp
qed

subsection \<open>Numbers\<close>

definition streamRead :: "'s basicIO \<Rightarrow> 's \<Rightarrow> nat \<Rightarrow> (uint8 list \<times> 's) run" where
  "streamRead ops s len =
     run_bind (pipeRead ops s len) (\<lambda>(buffer, s).
     if length buffer \<noteq> len then throw EXCEPTION_READ_ERROR else ok (buffer, s))"

definition streamReadUint64 :: "'s basicIO \<Rightarrow> 's \<Rightarrow> (uint64 \<times> 's) run" where
  "streamReadUint64 ops s =
     run_bind (streamRead ops s 8) (\<lambda>(buffer, s). ok (cEndian_readUint64 buffer (v_isLittleEndian ops), s))"

definition streamReadUint32 :: "'s basicIO \<Rightarrow> 's \<Rightarrow> (uint32 \<times> 's) run" where
  "streamReadUint32 ops s =
     run_bind (streamRead ops s 4) (\<lambda>(buffer, s). ok (cEndian_readUint32 buffer (v_isLittleEndian ops), s))"

definition streamReadUint16 :: "'s basicIO \<Rightarrow> 's \<Rightarrow> (uint16 \<times> 's) run" where
  "streamReadUint16 ops s =
     run_bind (streamRead ops s 2) (\<lambda>(buffer, s). ok (cEndian_readUint16 buffer (v_isLittleEndian ops), s))"

definition streamReadUint8 :: "'s basicIO \<Rightarrow> 's \<Rightarrow> (uint8 \<times> 's) run" where
  "streamReadUint8 ops s = run_bind (streamRead ops s 1) (\<lambda>(buffer, s). ok (buffer ! 0, s))"

definition streamWriteUint64 :: "'s basicIO \<Rightarrow> 's \<Rightarrow> uint64 \<Rightarrow> 's run" where
  "streamWriteUint64 ops s qword =
     pipeWrite ops s (cEndian_writeUint64 (replicate 8 0) qword (v_isLittleEndian ops))"

definition streamWriteUint32 :: "'s basicIO \<Rightarrow> 's \<Rightarrow> uint32 \<Rightarrow> 's run" where
  "streamWriteUint32 ops s dword =
     pipeWrite ops s (cEndian_writeUint32 (replicate 4 0) dword (v_isLittleEndian ops))"

definition streamWriteUint16 :: "'s basicIO \<Rightarrow> 's \<Rightarrow> uint16 \<Rightarrow> 's run" where
  "streamWriteUint16 ops s w =
     pipeWrite ops s (cEndian_writeUint16 (replicate 2 0) w (v_isLittleEndian ops))"

definition streamWriteUint8 :: "'s basicIO \<Rightarrow> 's \<Rightarrow> uint8 \<Rightarrow> 's run" where
  "streamWriteUint8 ops s byte = pipeWrite ops s [byte]"

text \<open>The signed variants read and write the same bits.\<close>

definition streamReadInt64 :: "'s basicIO \<Rightarrow> 's \<Rightarrow> (int \<times> 's) run" where
  "streamReadInt64 ops s = run_bind (streamReadUint64 ops s) (\<lambda>(n, s). ok (sint n, s))"

definition streamReadInt32 :: "'s basicIO \<Rightarrow> 's \<Rightarrow> (int \<times> 's) run" where
  "streamReadInt32 ops s = run_bind (streamReadUint32 ops s) (\<lambda>(n, s). ok (sint n, s))"

definition streamReadInt16 :: "'s basicIO \<Rightarrow> 's \<Rightarrow> (int \<times> 's) run" where
  "streamReadInt16 ops s = run_bind (streamReadUint16 ops s) (\<lambda>(n, s). ok (sint n, s))"

definition streamReadInt8 :: "'s basicIO \<Rightarrow> 's \<Rightarrow> (int \<times> 's) run" where
  "streamReadInt8 ops s = run_bind (streamReadUint8 ops s) (\<lambda>(n, s). ok (sint n, s))"

definition streamWriteInt64 :: "'s basicIO \<Rightarrow> 's \<Rightarrow> int \<Rightarrow> 's run" where
  "streamWriteInt64 ops s n = streamWriteUint64 ops s (word_of_int n)"

definition streamWriteInt32 :: "'s basicIO \<Rightarrow> 's \<Rightarrow> int \<Rightarrow> 's run" where
  "streamWriteInt32 ops s n = streamWriteUint32 ops s (word_of_int n)"

definition streamWriteInt16 :: "'s basicIO \<Rightarrow> 's \<Rightarrow> int \<Rightarrow> 's run" where
  "streamWriteInt16 ops s n = streamWriteUint16 ops s (word_of_int n)"

definition streamWriteInt8 :: "'s basicIO \<Rightarrow> 's \<Rightarrow> int \<Rightarrow> 's run" where
  "streamWriteInt8 ops s n = streamWriteUint8 ops s (word_of_int n)"

subsection \<open>Remote addresses\<close>

text \<open>The union is its 64 bits; the narrow members are the low bits on a little endian machine.\<close>

record remoteAddressNumericValue =
  m_union :: uint64
  m_type :: RemoteAddressEncodingTypes

definition remoteAddress_of_byte :: "uint8 \<Rightarrow> RemoteAddressEncodingTypes" where
  "remoteAddress_of_byte b =
     (if b = 0 then REMOTE_ADDRESS_16BIT else if b = 1 then REMOTE_ADDRESS_32BIT
      else if b = 2 then REMOTE_ADDRESS_64BIT else REMOTE_ADDRESS_INVALID b)"

fun remoteAddress_to_byte :: "RemoteAddressEncodingTypes \<Rightarrow> uint8" where
  "remoteAddress_to_byte REMOTE_ADDRESS_16BIT = 0"
| "remoteAddress_to_byte REMOTE_ADDRESS_32BIT = 1"
| "remoteAddress_to_byte REMOTE_ADDRESS_64BIT = 2"
| "remoteAddress_to_byte (REMOTE_ADDRESS_INVALID b) = b"

definition streamReadRemoteAddress :: "'s basicIO \<Rightarrow> addressCoding \<Rightarrow> 's \<Rightarrow> (remoteAddressNumericValue \<times> 's) run" where
  "streamReadRemoteAddress ops c s =
     run_bind
       (if m_shouldEncodeType c then
          run_bind (streamReadUint8 ops s) (\<lambda>(type, s). ok (remoteAddress_of_byte type, s))
        else ok (m_addressType c, s)) (\<lambda>(enforceType, s).
     case enforceType of
       REMOTE_ADDRESS_16BIT \<Rightarrow>
         run_bind (streamReadUint16 ops s) (\<lambda>(n, s). ok (\<lparr>m_union = ucast n, m_type = enforceType\<rparr>, s))
     | REMOTE_ADDRESS_32BIT \<Rightarrow>
         run_bind (streamReadUint32 ops s) (\<lambda>(n, s). ok (\<lparr>m_union = ucast n, m_type = enforceType\<rparr>, s))
     | REMOTE_ADDRESS_64BIT \<Rightarrow>
         run_bind (streamReadUint64 ops s) (\<lambda>(n, s). ok (\<lparr>m_union = n, m_type = enforceType\<rparr>, s))
     | REMOTE_ADDRESS_INVALID _ \<Rightarrow> throw EXCEPTION_ASSERTION)"

definition streamWriteRemoteAddress :: "'s basicIO \<Rightarrow> addressCoding \<Rightarrow> 's \<Rightarrow> remoteAddressNumericValue \<Rightarrow> 's run" where
  "streamWriteRemoteAddress ops c s address =
     run_bind
       (if m_shouldEncodeType c then
          run_bind (streamWriteUint8 ops s (remoteAddress_to_byte (m_type address))) (\<lambda>s. ok (m_type address, s))
        else ok (m_addressType c, s)) (\<lambda>(enforceType, s).
     case enforceType of
       REMOTE_ADDRESS_16BIT \<Rightarrow> streamWriteUint16 ops s (ucast (m_union address))
     | REMOTE_ADDRESS_32BIT \<Rightarrow> streamWriteUint32 ops s (ucast (m_union address))
     | REMOTE_ADDRESS_64BIT \<Rightarrow> streamWriteUint64 ops s (m_union address)
     | REMOTE_ADDRESS_INVALID _ \<Rightarrow> throw EXCEPTION_ASSERTION)"

subsection \<open>Strings\<close>

text \<open>
  The reading loop; \<open>ch\<close> starts different from the terminator, so the body runs until the limit
  is used up.
\<close>

fun readAsciiString :: "'s basicIO \<Rightarrow> 's \<Rightarrow> cString \<Rightarrow> uint8 \<Rightarrow> nat \<Rightarrow> (cString \<times> 's) run" where
  "readAsciiString ops s ret terminate 0 = throw EXCEPTION_READ_ERROR"
| "readAsciiString ops s ret terminate (Suc left) =
     run_bind (pipeRead ops s 1) (\<lambda>(bs, s).
     if bs = [] then throw EXCEPTION_READ_ERROR
     else
       let c = hd bs in
       if c \<noteq> terminate then readAsciiString ops s (cString_append_char ret c) terminate left
       else ok (ret, s))"

text \<open>A short read overwrites the low bytes of the wide character only.\<close>

definition unichar_overwrite :: "unichar \<Rightarrow> uint8 list \<Rightarrow> unichar" where
  "unichar_overwrite c bs = cLittleEndian_readUint32 (memcpy_at (le32 c) 0 bs (length bs))"

fun readUnicodeString :: "'s basicIO \<Rightarrow> 's \<Rightarrow> cString \<Rightarrow> unichar \<Rightarrow> unichar \<Rightarrow> nat \<Rightarrow> (cString \<times> 's) run" where
  "readUnicodeString ops s ret c terminate 0 = throw EXCEPTION_READ_ERROR"
| "readUnicodeString ops s ret c terminate (Suc left) =
     run_bind (pipeRead ops s 4) (\<lambda>(bs, s).
     if bs = [] then throw EXCEPTION_READ_ERROR
     else
       let c = unichar_overwrite c bs in
       if c \<noteq> terminate then
         readUnicodeString ops s (cString_append_char ret (cChar_covert2Ascii c)) c terminate left
       else ok (ret, s))"

definition readUnicodeNullString :: "'s basicIO \<Rightarrow> 's \<Rightarrow> nat \<Rightarrow> (cString \<times> 's) run" where
  "readUnicodeNullString ops s numberOfCharacter =
     readUnicodeString ops s (cString_new None) 1 0 numberOfCharacter"

definition readAsciiNullString :: "'s basicIO \<Rightarrow> 's \<Rightarrow> nat \<Rightarrow> (cString \<times> 's) run" where
  "readAsciiNullString ops s numberOfCharacter =
     readAsciiString ops s (cString_new None) 0 numberOfCharacter"

definition readAsciiDosString :: "'s basicIO \<Rightarrow> 's \<Rightarrow> nat \<Rightarrow> (cString \<times> 's) run" where
  "readAsciiDosString ops s numberOfCharacter =
     readAsciiString ops s (cString_new None) (ch CHR ''$'') numberOfCharacter"

text \<open>
  \<open>mem\<close> is what the new buffer holds before it is written. With no width, the default of the
  header, the buffer is empty and the terminator is stored behind it.
\<close>

definition readFixedSizeString :: "'s basicIO \<Rightarrow> 's \<Rightarrow> uint8 list \<Rightarrow> nat \<Rightarrow> nat \<Rightarrow> (cString \<times> 's) run" where
  "readFixedSizeString ops s mem numberOfCharacters unicodeSize =
     (let buf = take ((numberOfCharacters + 1) * unicodeSize) mem in
      run_bind (pipeRead ops s (numberOfCharacters * unicodeSize)) (\<lambda>(bs, s).
      let buf = memcpy_at buf 0 bs (length bs) in
      if unicodeSize > 1 then
        let buf = buf[numberOfCharacters * unicodeSize := 0] in
        run_bind (of_res (cChar_covert2string (replicate (numberOfCharacters + 1) 0)
                            (numberOfCharacters + 1) buf unicodeSize)) (\<lambda>retBuf.
        ok (cString_new (Some retBuf), s))
      else if numberOfCharacters < length buf then
        ok (cString_new (Some (buf[numberOfCharacters := 0])), s)
      else throw UNDEFINED_BEHAVIOUR))"

definition readAsciiPascal8String :: "'s basicIO \<Rightarrow> 's \<Rightarrow> nat \<Rightarrow> (cString \<times> 's) run" where
  "readAsciiPascal8String ops s numberOfCharacter =
     run_bind (streamReadUint8 ops s) (\<lambda>(len, s).
     if unat len > numberOfCharacter then throw EXCEPTION_READ_ERROR
     else
       run_bind (pipeRead ops s (unat len)) (\<lambda>(bs, s).
       if length bs \<noteq> unat len then throw EXCEPTION_READ_ERROR
       else ok (cString_new (Some (bs @ [0])), s)))"

definition readAsciiPascal16String :: "'s basicIO \<Rightarrow> 's \<Rightarrow> nat \<Rightarrow> (cString \<times> 's) run" where
  "readAsciiPascal16String ops s numberOfCharacter =
     run_bind (streamReadUint16 ops s) (\<lambda>(len, s).
     if unat len > numberOfCharacter then throw EXCEPTION_READ_ERROR
     else
       run_bind (pipeRead ops s (unat len)) (\<lambda>(bs, s).
       if length bs \<noteq> unat len then throw EXCEPTION_READ_ERROR
       else ok (cString_new (Some (bs @ [0])), s)))"

definition readUnicodePascal8String :: "'s basicIO \<Rightarrow> 's \<Rightarrow> uint8 list \<Rightarrow> (cString \<times> 's) run" where
  "readUnicodePascal8String ops s mem =
     run_bind (streamReadUint8 ops s) (\<lambda>(len, s). readFixedSizeString ops s mem (unat len) 2)"

definition readUnicodePascal16String :: "'s basicIO \<Rightarrow> 's \<Rightarrow> uint8 list \<Rightarrow> (cString \<times> 's) run" where
  "readUnicodePascal16String ops s mem =
     run_bind (streamReadUint16 ops s) (\<lambda>(len, s). readFixedSizeString ops s mem (unat len) 2)"

fun fixedSize_loop :: "character list \<Rightarrow> nat \<Rightarrow> nat \<Rightarrow> nat \<Rightarrow> uint8 list \<Rightarrow> uint8 list res" where
  "fixedSize_loop string unicodeSize i 0 buf = Inr buf"
| "fixedSize_loop string unicodeSize i (Suc k) buf =
     (if unicodeSize = 1 then
        fixedSize_loop string unicodeSize (i + 1) k (buf[i := cChar_covert2Ascii (scast (string ! i))])
      else if unicodeSize = 2 then
        fixedSize_loop string unicodeSize (i + 1) k (memcpy_at buf (2 * i) (le16 (scast (string ! i))) 2)
      else if unicodeSize = 4 then
        fixedSize_loop string unicodeSize (i + 1) k (memcpy_at buf (4 * i) (le32 (scast (string ! i))) 4)
      else Inl EXCEPTION_ASSERTION)"

definition writeFixedSizeString :: "'s basicIO \<Rightarrow> 's \<Rightarrow> cString \<Rightarrow> nat \<Rightarrow> nat \<Rightarrow> 's run" where
  "writeFixedSizeString ops s string numberOfCharacters unicodeSize =
     (let buf = replicate (numberOfCharacters * unicodeSize) 0;
          cnt = t_min (cString_length string) numberOfCharacters
      in run_bind (of_res (fixedSize_loop (m_buffer string) unicodeSize 0 cnt buf)) (\<lambda>buf.
         pipeWrite ops s buf))"

definition writeAsciiNullString :: "'s basicIO \<Rightarrow> 's \<Rightarrow> cString \<Rightarrow> bool \<Rightarrow> 's run" where
  "writeAsciiNullString ops s string shouldPutZeroTerminator =
     pipeWrite ops s (take (if shouldPutZeroTerminator then cString_length string + 1
                            else cString_length string) (m_buffer string))"

fun writeUnicode_loop :: "'s basicIO \<Rightarrow> 's \<Rightarrow> character list \<Rightarrow> 's run" where
  "writeUnicode_loop ops s [] = ok s"
| "writeUnicode_loop ops s (c # cs) =
     run_bind (pipeWrite ops s (le32 (scast c))) (\<lambda>s. writeUnicode_loop ops s cs)"

definition writeUnicodeNullString :: "'s basicIO \<Rightarrow> 's \<Rightarrow> cString \<Rightarrow> bool \<Rightarrow> 's run" where
  "writeUnicodeNullString ops s string shouldPutZeroTerminator =
     run_bind (writeUnicode_loop ops s (take (cString_length string) (m_buffer string))) (\<lambda>s.
     if shouldPutZeroTerminator then pipeWrite ops s (le32 0) else ok s)"

subsection \<open>Seeking, whole streams, copies\<close>

text \<open>\<open>__canSeek\<close> on the flags \<open>canSeekFromBegin\<close>, \<open>canSeekForward\<close>, \<open>canSeekBackward\<close>, \<open>canSeekFromEnd\<close>.\<close>

definition canSeek :: "bool \<Rightarrow> bool \<Rightarrow> bool \<Rightarrow> bool \<Rightarrow> uint32 \<Rightarrow> seekMethod \<Rightarrow> bool" where
  "canSeek fromBegin forward backward fromEnd distance method =
     (case method of
        IO_SEEK_SET \<Rightarrow> fromBegin \<and> 0 \<le> sint distance
      | IO_SEEK_CUR \<Rightarrow> if sint distance < 0 then backward else forward
      | IO_SEEK_END \<Rightarrow> fromEnd \<and> sint distance \<le> 0)"

text \<open>\<open>readAllStream\<close> appends to \<open>rawData\<close>; the page sizes it sets do not change the contents.\<close>

partial_function (option) readAll_loop :: "'s basicIO \<Rightarrow> 's \<Rightarrow> uint8 list \<Rightarrow> (uint8 list \<times> 's) run" where
  "readAll_loop ops s rawData =
     run_bind (pipeRead ops s (v_getPipeReadBestRequest ops)) (\<lambda>x.
     if length (fst x) = v_getPipeReadBestRequest ops then readAll_loop ops (snd x) (rawData @ fst x)
     else ok (rawData @ fst x, snd x))"

definition readAllStream :: "'s basicIO \<Rightarrow> 's \<Rightarrow> uint8 list \<Rightarrow> (uint8 list \<times> 's) run" where
  "readAllStream ops s rawData =
     (if canLength ops \<and> canGetPointer ops then
        let left = unat (word_of_nat (v_length ops s) - word_of_nat (v_getPointer ops s) :: uint64)
        in run_bind (pipeRead_buffer ops s rawData left) (\<lambda>(rawData, readed, s). ok (rawData, s))
      else readAll_loop ops s rawData)"

partial_function (option) copyStream :: "'d basicIO \<Rightarrow> 'd \<Rightarrow> 's basicIO \<Rightarrow> 's \<Rightarrow> ('d \<times> 's) run" where
  "copyStream dops destination sops source =
     run_bind (pipeRead_buffer sops source [] (v_getPipeReadBestRequest sops)) (\<lambda>x.
     run_bind (if fst (snd x) > 0 then pipeWrite dops destination (take (fst (snd x)) (fst x))
               else ok destination) (\<lambda>d.
     if fst (snd x) > 0 \<and> \<not> v_isEOS sops (snd (snd x)) then copyStream dops d sops (snd (snd x))
     else ok (d, snd (snd x))))"

subsection \<open>What a stream promises\<close>

text \<open>
  An input stream stands for the bytes that are left in it: \<open>read\<close> takes some of them, at least
  one when there is one, and \<open>isEOS\<close> tells whether there is none; the weaker contract
  \<open>nonempty_input\<close> says nothing of a read at the end. An output stream stands for the bytes that
  were written to it.
\<close>

definition got :: "('s \<Rightarrow> bool) \<Rightarrow> ('s \<Rightarrow> uint8 list) \<Rightarrow> 'a \<Rightarrow> uint8 list \<Rightarrow> 'a \<times> 's \<Rightarrow> bool" where
  "got valid rest x r y \<longleftrightarrow> fst y = x \<and> valid (snd y) \<and> rest (snd y) = r"

definition put :: "('s \<Rightarrow> bool) \<Rightarrow> ('s \<Rightarrow> uint8 list) \<Rightarrow> uint8 list \<Rightarrow> 's \<Rightarrow> bool" where
  "put valid out w s \<longleftrightarrow> valid s \<and> out s = w"

lemma got_simp [simp]: "got valid rest x r (y, s) \<longleftrightarrow> y = x \<and> valid s \<and> rest s = r"
  by (simp add: got_def)

locale nonempty_input =
  fixes ops :: "'s basicIO"
    and valid :: "'s \<Rightarrow> bool"
    and rest :: "'s \<Rightarrow> uint8 list"
  assumes best: "0 < v_getPipeReadBestRequest ops"
    and read_some_law: "valid s \<Longrightarrow> 0 < n \<Longrightarrow> rest s \<noteq> [] \<Longrightarrow>
      \<exists>m. 0 < m \<and> m \<le> n \<and>
          yields (v_read ops s n) (got valid rest (take m (rest s)) (drop m (rest s)))"
    and eos_law: "valid s \<Longrightarrow> v_isEOS ops s \<longleftrightarrow> rest s = []"
begin

lemma pipeRead_takes_some:
  "valid s \<Longrightarrow> rest s \<noteq> [] \<Longrightarrow> yields (pipeRead ops s n) (got valid rest (take n (rest s)) (drop n (rest s)))"
proof (induction n arbitrary: s rule: less_induct)
  case (less n)
  show ?case
  proof (cases "n = 0")
    case True
    then show ?thesis using less.prems by (subst pipeRead.simps) simp
  next
    case False
    let ?n = "t_min n (v_getPipeReadBestRequest ops)"
    have n: "0 < ?n" "?n \<le> n" using False best by (auto simp: t_min_def)
    obtain m where m: "0 < m" "m \<le> ?n"
      and y: "yields (v_read ops s ?n) (got valid rest (take m (rest s)) (drop m (rest s)))"
      using read_some_law [OF less.prems(1) n(1) less.prems(2)] by blast
    obtain s' where r: "v_read ops s ?n = ok (take m (rest s), s')" and s': "valid s'" "rest s' = drop m (rest s)"
      using y by (auto simp: yields_def got_def)
    show ?thesis
    proof (cases "length (rest s) \<le> m")
      case True
      then show ?thesis
        using False r s' eos_law [OF s'(1)] m n by (subst pipeRead.simps) simp
    next
      case short: False
      have lt: "n - m < n" "rest s' \<noteq> []" using m(1) False s'(2) short by simp_all
      have "yields (pipeRead ops s' (n - m)) (got valid rest (take (n - m) (rest s')) (drop (n - m) (rest s')))"
        by (rule less.IH [OF lt(1) s'(1) lt(2)])
      then obtain s2 where r2: "pipeRead ops s' (n - m) = ok (take (n - m) (drop m (rest s)), s2)"
        "valid s2" "rest s2 = drop n (rest s)"
        using m(2) n(2) s'(2) by (auto simp: yields_def got_def)
      have eos: "\<not> v_isEOS ops s'" using eos_law [OF s'(1)] lt(2) by simp
      have "take m (rest s) @ take (n - m) (drop m (rest s)) = take n (rest s)"
        using m(2) n(2) by (intro take_drop_split) simp
      then show ?thesis
        using False r r2 eos short by (subst pipeRead.simps) (simp add: min_def)
    qed
  qed
qed

end

locale input_stream =
  fixes ops :: "'s basicIO"
    and valid :: "'s \<Rightarrow> bool"
    and rest :: "'s \<Rightarrow> uint8 list"
  assumes best: "0 < v_getPipeReadBestRequest ops"
    and read_law: "valid s \<Longrightarrow> 0 < n \<Longrightarrow>
      \<exists>m. m \<le> n \<and> (rest s \<noteq> [] \<longrightarrow> 0 < m) \<and>
          yields (v_read ops s n) (got valid rest (take m (rest s)) (drop m (rest s)))"
    and eos_law: "valid s \<Longrightarrow> v_isEOS ops s \<longleftrightarrow> rest s = []"

sublocale input_stream \<subseteq> some: nonempty_input ops valid rest
  by unfold_locales (use best read_law eos_law in blast)+

context input_stream
begin

lemma pipeRead_takes:
  "valid s \<Longrightarrow> yields (pipeRead ops s n) (got valid rest (take n (rest s)) (drop n (rest s)))"
proof (cases "rest s = []")
  case True
  assume v: "valid s"
  let ?n = "t_min n (v_getPipeReadBestRequest ops)"
  show ?thesis
  proof (cases "n = 0")
    case False
    then have "0 < ?n" using best by (auto simp: t_min_def)
    from read_law [OF v this] obtain s' where "v_read ops s ?n = ok ([], s')" "valid s'" "rest s' = []"
      by (auto simp: True yields_def got_def)
    then show ?thesis using False True eos_law by (subst pipeRead.simps) simp
  qed (use v True in \<open>subst pipeRead.simps, simp\<close>)
qed (rule some.pipeRead_takes_some)

lemma pipeRead_exact:
  "valid s \<Longrightarrow> rest s = a @ r \<Longrightarrow> length a = n \<Longrightarrow> yields (pipeRead ops s n) (got valid rest a r)"
  using pipeRead_takes [of s n] by simp

lemma streamRead_exact:
  "valid s \<Longrightarrow> rest s = a @ r \<Longrightarrow> length a = n \<Longrightarrow> yields (streamRead ops s n) (got valid rest a r)"
  unfolding streamRead_def by (rule yields_bind [OF pipeRead_exact]) (auto simp: got_def)

lemma streamRead_short:
  "valid s \<Longrightarrow> length (rest s) < n \<Longrightarrow> streamRead ops s n = throw EXCEPTION_READ_ERROR"
  using pipeRead_takes [of s n] by (auto simp: streamRead_def yields_def)

end

locale output_stream =
  fixes ops :: "'s basicIO"
    and valid :: "'s \<Rightarrow> bool"
    and out :: "'s \<Rightarrow> uint8 list"
  assumes write_law: "valid s \<Longrightarrow> bs \<noteq> [] \<Longrightarrow>
      \<exists>m. 0 < m \<and> m \<le> length bs \<and>
          yields (v_write ops s bs) (\<lambda>x. fst x = m \<and> put valid out (out s @ take m bs) (snd x))"
begin

lemma pipeWrite_puts:
  "valid s \<Longrightarrow> yields (pipeWrite ops s bs) (put valid out (out s @ bs))"
proof (induction "length bs" arbitrary: s bs rule: less_induct)
  case less
  show ?case
  proof (cases "bs = []")
    case True
    then show ?thesis using less.prems by (subst pipeWrite.simps) (simp add: put_def)
  next
    case False
    obtain m s' where m: "0 < m" "m \<le> length bs" and w: "v_write ops s bs = ok (m, s')"
      and s': "valid s'" "out s' = out s @ take m bs"
      using write_law [OF less.prems False] by (auto simp: yields_def put_def)
    have "yields (pipeWrite ops s' (drop m bs)) (put valid out (out s' @ drop m bs))"
      using less.hyps [of "drop m bs" s'] m s'(1) by simp
    then show ?thesis using False w s' by (subst pipeWrite.simps) simp
  qed
qed

end

subsection \<open>Typed items\<close>

text \<open>
  One value for each pair of a writer and a reader, the bytes it has on a stream, and what the
  reader returns: an address comes back with the bits its encoding keeps.
\<close>

datatype item =
    Item8 uint8 | Item16 uint16 | Item32 uint32 | Item64 uint64
  | ItemAddress remoteAddressNumericValue
  | ItemAscii cString
  | ItemUnicode cString

definition MAX_CHAR :: nat where
  "MAX_CHAR = 0xFFFFFFFF"

fun write_item :: "'s basicIO \<Rightarrow> addressCoding \<Rightarrow> 's \<Rightarrow> item \<Rightarrow> 's run" where
  "write_item ops c s (Item8 n) = streamWriteUint8 ops s n"
| "write_item ops c s (Item16 n) = streamWriteUint16 ops s n"
| "write_item ops c s (Item32 n) = streamWriteUint32 ops s n"
| "write_item ops c s (Item64 n) = streamWriteUint64 ops s n"
| "write_item ops c s (ItemAddress a) = streamWriteRemoteAddress ops c s a"
| "write_item ops c s (ItemAscii t) = writeAsciiNullString ops s t True"
| "write_item ops c s (ItemUnicode t) = writeUnicodeNullString ops s t True"

text \<open>The reader for the kind of an item.\<close>

fun read_item :: "'s basicIO \<Rightarrow> addressCoding \<Rightarrow> 's \<Rightarrow> item \<Rightarrow> (item \<times> 's) run" where
  "read_item ops c s (Item8 _) = run_bind (streamReadUint8 ops s) (\<lambda>(n, s). ok (Item8 n, s))"
| "read_item ops c s (Item16 _) = run_bind (streamReadUint16 ops s) (\<lambda>(n, s). ok (Item16 n, s))"
| "read_item ops c s (Item32 _) = run_bind (streamReadUint32 ops s) (\<lambda>(n, s). ok (Item32 n, s))"
| "read_item ops c s (Item64 _) = run_bind (streamReadUint64 ops s) (\<lambda>(n, s). ok (Item64 n, s))"
| "read_item ops c s (ItemAddress _) = run_bind (streamReadRemoteAddress ops c s) (\<lambda>(a, s). ok (ItemAddress a, s))"
| "read_item ops c s (ItemAscii _) = run_bind (readAsciiNullString ops s MAX_CHAR) (\<lambda>(t, s). ok (ItemAscii t, s))"
| "read_item ops c s (ItemUnicode _) = run_bind (readUnicodeNullString ops s MAX_CHAR) (\<lambda>(t, s). ok (ItemUnicode t, s))"

fun write_items :: "'s basicIO \<Rightarrow> addressCoding \<Rightarrow> 's \<Rightarrow> item list \<Rightarrow> 's run" where
  "write_items ops c s [] = ok s"
| "write_items ops c s (i # is) = run_bind (write_item ops c s i) (\<lambda>s. write_items ops c s is)"

fun read_items :: "'s basicIO \<Rightarrow> addressCoding \<Rightarrow> 's \<Rightarrow> item list \<Rightarrow> (item list \<times> 's) run" where
  "read_items ops c s [] = ok ([], s)"
| "read_items ops c s (i # is) =
     run_bind (read_item ops c s i) (\<lambda>(i, s).
     run_bind (read_items ops c s is) (\<lambda>(is, s). ok (i # is, s)))"

definition coded_type :: "addressCoding \<Rightarrow> remoteAddressNumericValue \<Rightarrow> RemoteAddressEncodingTypes" where
  "coded_type c a = (if m_shouldEncodeType c then m_type a else m_addressType c)"

definition ordered :: "bool \<Rightarrow> uint8 list \<Rightarrow> uint8 list" where
  "ordered isLittle bs = (if isLittle then bs else rev bs)"

definition address_bytes :: "bool \<Rightarrow> RemoteAddressEncodingTypes \<Rightarrow> uint64 \<Rightarrow> uint8 list" where
  "address_bytes isLittle t n =
     (case t of
        REMOTE_ADDRESS_16BIT \<Rightarrow> ordered isLittle (le16 (ucast n))
      | REMOTE_ADDRESS_32BIT \<Rightarrow> ordered isLittle (le32 (ucast n))
      | REMOTE_ADDRESS_64BIT \<Rightarrow> ordered isLittle (le64 n)
      | REMOTE_ADDRESS_INVALID _ \<Rightarrow> [])"

definition clipped :: "RemoteAddressEncodingTypes \<Rightarrow> uint64 \<Rightarrow> uint64" where
  "clipped t n =
     (case t of
        REMOTE_ADDRESS_16BIT \<Rightarrow> ucast (ucast n :: uint16)
      | REMOTE_ADDRESS_32BIT \<Rightarrow> ucast (ucast n :: uint32)
      | REMOTE_ADDRESS_64BIT \<Rightarrow> n
      | REMOTE_ADDRESS_INVALID _ \<Rightarrow> 0)"

fun is_valid_type :: "RemoteAddressEncodingTypes \<Rightarrow> bool" where
  "is_valid_type (REMOTE_ADDRESS_INVALID _) = False"
| "is_valid_type _ = True"

fun item_bytes :: "bool \<Rightarrow> addressCoding \<Rightarrow> item \<Rightarrow> uint8 list" where
  "item_bytes b c (Item8 n) = [n]"
| "item_bytes b c (Item16 n) = ordered b (le16 n)"
| "item_bytes b c (Item32 n) = ordered b (le32 n)"
| "item_bytes b c (Item64 n) = ordered b (le64 n)"
| "item_bytes b c (ItemAddress a) =
     (if m_shouldEncodeType c then [remoteAddress_to_byte (m_type a)] else []) @
     address_bytes b (coded_type c a) (m_union a)"
| "item_bytes b c (ItemAscii t) = m_buffer t"
| "item_bytes b c (ItemUnicode t) = concat (map (\<lambda>x. le32 (scast x)) (m_buffer t))"

fun item_ok :: "addressCoding \<Rightarrow> item \<Rightarrow> bool" where
  "item_ok c (ItemAddress a) = is_valid_type (coded_type c a)"
| "item_ok c (ItemAscii t) \<longleftrightarrow> cString_inv t \<and> cString_length t < MAX_CHAR"
| "item_ok c (ItemUnicode t) \<longleftrightarrow> cString_inv t \<and> cString_length t < MAX_CHAR"
| "item_ok c _ = True"

fun item_read :: "addressCoding \<Rightarrow> item \<Rightarrow> item" where
  "item_read c (ItemAddress a) =
     ItemAddress \<lparr>m_union = clipped (coded_type c a) (m_union a), m_type = coded_type c a\<rparr>"
| "item_read c i = i"

lemma length_ordered [simp]: "length (ordered b bs) = length bs"
  by (simp add: ordered_def)

lemma write_ordered:
  "cEndian_writeUint16 (replicate 2 0) n b = ordered b (le16 n)"
  "cEndian_writeUint32 (replicate 4 0) m b = ordered b (le32 m)"
  "cEndian_writeUint64 (replicate 8 0) k b = ordered b (le64 k)"
  by (auto simp: cEndian_writeUint16_def cEndian_writeUint32_def cEndian_writeUint64_def ordered_def write_bytes)

lemma read_ordered [simp]:
  "cEndian_readUint16 (ordered b (le16 n)) b = n"
  "cEndian_readUint32 (ordered b (le32 m)) b = m"
  "cEndian_readUint64 (ordered b (le64 k)) b = k"
  using read_bytes [where rest = "[]"]
  by (auto simp: cEndian_readUint16_def cEndian_readUint32_def cEndian_readUint64_def ordered_def)

lemma address_of_to_byte: "is_valid_type t \<Longrightarrow> remoteAddress_of_byte (remoteAddress_to_byte t) = t"
  by (cases t) (simp_all add: remoteAddress_of_byte_def)

lemma covert2Ascii_scast [simp]: "cChar_covert2Ascii (scast c) = c"
proof -
  have "sint (scast c :: unichar) = sint c"
    using sint_ge [of c] sint_less [of c] by (simp add: signed_scast_eq signed_take_bit_int_eq_self)
  moreover have "sint c < 0x80" using sint_less [of c] by simp
  moreover have "ucast (scast c :: unichar) = c"
    by (rule bit_word_eqI) (auto simp: bit_simps)
  ultimately show ?thesis by (simp add: cChar_covert2Ascii_def)
qed

lemma scast_eq_0 [simp]: "(scast (c :: character) :: unichar) = 0 \<longleftrightarrow> c = 0"
  using covert2Ascii_scast [of c] by (metis covert2Ascii_scast scast_0)

lemma putD: "put valid out w s \<Longrightarrow> valid s" "put valid out w s \<Longrightarrow> out s = w"
  by (auto simp: put_def)

context output_stream
begin

lemma number_puts:
  assumes "valid s"
  shows "yields (streamWriteUint8 ops s a) (put valid out (out s @ [a]))"
    "yields (streamWriteUint16 ops s b) (put valid out (out s @ ordered (v_isLittleEndian ops) (le16 b)))"
    "yields (streamWriteUint32 ops s d) (put valid out (out s @ ordered (v_isLittleEndian ops) (le32 d)))"
    "yields (streamWriteUint64 ops s e) (put valid out (out s @ ordered (v_isLittleEndian ops) (le64 e)))"
  using pipeWrite_puts [OF assms]
  by (simp_all add: streamWriteUint8_def streamWriteUint16_def streamWriteUint32_def
       streamWriteUint64_def write_ordered)

lemma address_puts:
  assumes "valid s" and "is_valid_type (coded_type c a)"
  shows "yields (streamWriteRemoteAddress ops c s a)
     (put valid out (out s @ item_bytes (v_isLittleEndian ops) c (ItemAddress a)))"
proof -
  let ?type = "if m_shouldEncodeType c then [remoteAddress_to_byte (m_type a)] else []"
  have "yields (if m_shouldEncodeType c then
          run_bind (streamWriteUint8 ops s (remoteAddress_to_byte (m_type a))) (\<lambda>s. ok (m_type a, s))
        else ok (m_addressType c, s))
       (\<lambda>x. fst x = coded_type c a \<and> put valid out (out s @ ?type) (snd x))"
    using number_puts(1) [OF assms(1), of "remoteAddress_to_byte (m_type a)"] assms(1)
    by (auto simp: coded_type_def yields_def put_def)
  then show ?thesis
    unfolding streamWriteRemoteAddress_def
  proof (rule yields_bind, goal_cases)
    case (1 x)
    then have v: "valid (snd x)" and o': "out (snd x) = out s @ ?type" and f: "fst x = coded_type c a"
      by (auto dest: putD)
    show ?case
      using assms(2) number_puts [OF v] unfolding case_prod_unfold f
      by (cases "coded_type c a") (simp_all add: address_bytes_def o')
  qed
qed

lemma unicode_loop_puts:
  "valid s \<Longrightarrow>
     yields (writeUnicode_loop ops s cs) (put valid out (out s @ concat (map (\<lambda>x. le32 (scast x)) cs)))"
proof (induction cs arbitrary: s)
  case (Cons x cs)
  show ?case
    unfolding writeUnicode_loop.simps
  proof (rule yields_bind [OF pipeWrite_puts [OF Cons.prems]])
    fix s' assume p: "put valid out (out s @ le32 (scast x)) s'"
    show "yields (writeUnicode_loop ops s' cs)
            (put valid out (out s @ concat (map (\<lambda>x. le32 (scast x)) (x # cs))))"
      using Cons.IH [OF putD(1) [OF p]] by (simp add: putD(2) [OF p])
  qed
qed (simp add: put_def)

lemma write_item_puts:
  assumes "valid s" and "item_ok c i"
  shows "yields (write_item ops c s i) (put valid out (out s @ item_bytes (v_isLittleEndian ops) c i))"
proof (cases i)
  case (ItemAddress a)
  then show ?thesis using address_puts [OF assms(1)] assms(2) by simp
next
  case (ItemAscii t)
  then obtain cs where "nonul cs" "t = cstr cs" using assms by (auto simp: cString_inv_def)
  then show ?thesis using ItemAscii pipeWrite_puts [OF assms(1)] by (simp add: writeAsciiNullString_def)
next
  case (ItemUnicode t)
  then obtain cs where t: "t = cstr cs" using assms by (auto simp: cString_inv_def)
  have "yields (writeUnicodeNullString ops s t True)
     (put valid out ((out s @ concat (map (\<lambda>x. le32 (scast x)) cs)) @ le32 0))"
    unfolding writeUnicodeNullString_def if_True
  proof (rule yields_bind)
    show "yields (writeUnicode_loop ops s (take (cString_length t) (m_buffer t)))
       (put valid out (out s @ concat (map (\<lambda>x. le32 (scast x)) cs)))"
      using unicode_loop_puts [OF assms(1), of cs] by (simp add: t)
  next
    fix s' assume p: "put valid out (out s @ concat (map (\<lambda>x. le32 (scast x)) cs)) s'"
    show "yields (pipeWrite ops s' (le32 0)) (put valid out ((out s @ concat (map (\<lambda>x. le32 (scast x)) cs)) @ le32 0))"
      using pipeWrite_puts [OF putD(1) [OF p]] by (simp add: putD(2) [OF p])
  qed
  then show ?thesis by (simp add: ItemUnicode t)
qed (use number_puts [OF assms(1)] in simp_all)

lemma write_items_puts:
  "valid s \<Longrightarrow> list_all (item_ok c) is \<Longrightarrow>
     yields (write_items ops c s is)
       (put valid out (out s @ concat (map (item_bytes (v_isLittleEndian ops) c) is)))"
proof (induction "is" arbitrary: s)
  case (Cons i "is")
  have i: "item_ok c i" using Cons.prems by simp
  show ?case
    unfolding write_items.simps
  proof (rule yields_bind [OF write_item_puts [OF Cons.prems(1) i]])
    fix s' assume p: "put valid out (out s @ item_bytes (v_isLittleEndian ops) c i) s'"
    show "yields (write_items ops c s' is)
            (put valid out (out s @ concat (map (item_bytes (v_isLittleEndian ops) c) (i # is))))"
      using Cons.IH [OF putD(1) [OF p]] Cons.prems by (simp add: putD(2) [OF p])
  qed
qed (simp add: put_def)

end

lemma got_bind:
  assumes "yields m (got valid rest x r)"
    and "\<And>s. valid s \<Longrightarrow> rest s = r \<Longrightarrow> yields (f (x, s)) Q"
  shows "yields (run_bind m f) Q"
  using assms by (force simp: got_def elim!: yieldsE)

lemma unichar_overwrite_all [simp]: "unichar_overwrite c (le32 n) = n"
  using read_bytes(3) [of n "[]"] by (simp add: unichar_overwrite_def memcpy_at_def)

lemma le32_nonempty [simp]: "le32 n \<noteq> []"
  by (simp add: le32_def)

context input_stream
begin

lemma number_got:
  assumes "valid s"
  shows "rest s = [a] @ r \<Longrightarrow> yields (streamReadUint8 ops s) (got valid rest a r)"
    "rest s = ordered (v_isLittleEndian ops) (le16 b) @ r \<Longrightarrow> yields (streamReadUint16 ops s) (got valid rest b r)"
    "rest s = ordered (v_isLittleEndian ops) (le32 d) @ r \<Longrightarrow> yields (streamReadUint32 ops s) (got valid rest d r)"
    "rest s = ordered (v_isLittleEndian ops) (le64 e) @ r \<Longrightarrow> yields (streamReadUint64 ops s) (got valid rest e r)"
  unfolding streamReadUint8_def streamReadUint16_def streamReadUint32_def streamReadUint64_def
  by (rule yields_bind [OF streamRead_exact [OF assms]], assumption, simp, auto simp: got_def)+

lemma address_got:
  assumes "valid s" and "is_valid_type (coded_type c a)"
    and "rest s = item_bytes (v_isLittleEndian ops) c (ItemAddress a) @ r"
  shows "yields (streamReadRemoteAddress ops c s)
     (got valid rest \<lparr>m_union = clipped (coded_type c a) (m_union a), m_type = coded_type c a\<rparr> r)"
proof -
  let ?b = "v_isLittleEndian ops"
  let ?r = "address_bytes ?b (coded_type c a) (m_union a) @ r"
  have "yields (if m_shouldEncodeType c then
          run_bind (streamReadUint8 ops s) (\<lambda>(type, s). ok (remoteAddress_of_byte type, s))
        else ok (m_addressType c, s)) (got valid rest (coded_type c a) ?r)"
  proof (cases "m_shouldEncodeType c")
    case True
    have "yields (run_bind (streamReadUint8 ops s) (\<lambda>(type, s). ok (remoteAddress_of_byte type, s)))
       (got valid rest (coded_type c a) ?r)"
      by (rule yields_bind [OF number_got(1) [OF assms(1), of "remoteAddress_to_byte (m_type a)" ?r]])
         (use assms True in \<open>auto simp: got_def coded_type_def address_of_to_byte\<close>)
    then show ?thesis using True by simp
  qed (use assms in \<open>simp add: coded_type_def\<close>)
  then show ?thesis
    unfolding streamReadRemoteAddress_def
  proof (rule yields_bind, goal_cases)
    case (1 x)
    then have v: "valid (snd x)" and r: "rest (snd x) = ?r" and f: "fst x = coded_type c a"
      by (auto simp: got_def)
    show ?case
    proof (cases "coded_type c a")
      case REMOTE_ADDRESS_16BIT
      show ?thesis
        unfolding case_prod_unfold f REMOTE_ADDRESS_16BIT RemoteAddressEncodingTypes.case
        by (rule yields_bind [OF number_got(2) [OF v, of "ucast (m_union a)" r]])
           (use r in \<open>simp_all add: REMOTE_ADDRESS_16BIT address_bytes_def got_def clipped_def\<close>)
    next
      case REMOTE_ADDRESS_32BIT
      show ?thesis
        unfolding case_prod_unfold f REMOTE_ADDRESS_32BIT RemoteAddressEncodingTypes.case
        by (rule yields_bind [OF number_got(3) [OF v, of "ucast (m_union a)" r]])
           (use r in \<open>simp_all add: REMOTE_ADDRESS_32BIT address_bytes_def got_def clipped_def\<close>)
    next
      case REMOTE_ADDRESS_64BIT
      show ?thesis
        unfolding case_prod_unfold f REMOTE_ADDRESS_64BIT RemoteAddressEncodingTypes.case
        by (rule yields_bind [OF number_got(4) [OF v, of "m_union a" r]])
           (use r in \<open>simp_all add: REMOTE_ADDRESS_64BIT address_bytes_def got_def clipped_def\<close>)
    qed (use assms in simp)
  qed
qed

lemma ascii_got:
  "valid s \<Longrightarrow> nonul cs \<Longrightarrow> length cs < left \<Longrightarrow> rest s = cs @ 0 # r \<Longrightarrow>
     yields (readAsciiString ops s (cstr ds) 0 left) (got valid rest (cstr (ds @ cs)) r)"
proof (induction cs arbitrary: s ds left)
  case Nil
  then obtain k where k: "left = Suc k" by (cases left) auto
  show ?case
    unfolding k readAsciiString.simps
    by (rule got_bind [OF pipeRead_exact [OF Nil.prems(1), of "[0]" r]]) (use Nil.prems in simp_all)
next
  case (Cons x cs)
  then obtain k where k: "left = Suc k" by (cases left) auto
  show ?case
    unfolding k readAsciiString.simps
  proof (rule got_bind [OF pipeRead_exact [OF Cons.prems(1), of "[x]" "cs @ 0 # r"]])
    fix s' assume "valid s'" "rest s' = cs @ 0 # r"
    then show "yields (case ([x], s') of (bs, s) \<Rightarrow>
          if bs = [] then throw EXCEPTION_READ_ERROR
          else let c = hd bs
               in if c \<noteq> 0 then readAsciiString ops s (cString_append_char (cstr ds) c) 0 k
                  else ok (cstr ds, s)) (got valid rest (cstr (ds @ x # cs)) r)"
      using Cons.prems Cons.IH [of s' k "ds @ [x]"] by (simp add: cstr_simps k)
  qed (use Cons.prems in auto)
qed

lemma unicode_got:
  "valid s \<Longrightarrow> nonul cs \<Longrightarrow> length cs < left \<Longrightarrow>
   rest s = concat (map (\<lambda>x. le32 (scast x)) (cs @ [0])) @ r \<Longrightarrow>
     yields (readUnicodeString ops s (cstr ds) c 0 left) (got valid rest (cstr (ds @ cs)) r)"
proof (induction cs arbitrary: s ds c left)
  case Nil
  then obtain k where k: "left = Suc k" by (cases left) auto
  show ?case
    unfolding k readUnicodeString.simps
    by (rule got_bind [OF pipeRead_exact [OF Nil.prems(1), of "le32 0" r]]) (use Nil.prems in simp_all)
next
  case (Cons x cs)
  then obtain k where k: "left = Suc k" by (cases left) auto
  let ?r = "concat (map (\<lambda>x. le32 (scast x)) (cs @ [0])) @ r"
  show ?case
    unfolding k readUnicodeString.simps
  proof (rule got_bind [OF pipeRead_exact [OF Cons.prems(1), of "le32 (scast x)" ?r]])
    fix s' assume s': "valid s'" "rest s' = ?r"
    have "yields (readUnicodeString ops s' (cstr (ds @ [x])) (scast x) 0 k)
            (got valid rest (cstr ((ds @ [x]) @ cs)) r)"
      using s' Cons.prems k by (intro Cons.IH) auto
    then show "yields (case (le32 (scast x), s') of (bs, s) \<Rightarrow>
          if bs = [] then throw EXCEPTION_READ_ERROR
          else let c = unichar_overwrite c bs
               in if c \<noteq> 0 then readUnicodeString ops s (cString_append_char (cstr ds) (cChar_covert2Ascii c)) c 0 k
                  else ok (cstr ds, s)) (got valid rest (cstr (ds @ x # cs)) r)"
      using Cons.prems by (simp add: Let_def cstr_simps)
  qed (use Cons.prems in auto)
qed

lemma read_item_got:
  assumes "valid s" and "item_ok c i" and "rest s = item_bytes (v_isLittleEndian ops) c i @ r"
  shows "yields (read_item ops c s i) (got valid rest (item_read c i) r)"
proof (cases i)
  case (ItemAddress a)
  show ?thesis
    unfolding ItemAddress read_item.simps
    by (rule yields_bind [OF address_got [OF assms(1), of c a r]])
       (use assms in \<open>auto simp: ItemAddress got_def\<close>)
next
  case (ItemAscii t)
  then obtain cs where t: "nonul cs" "t = cstr cs" using assms by (auto simp: cString_inv_def)
  have "yields (readAsciiNullString ops s MAX_CHAR) (got valid rest (cstr cs) r)"
    using ascii_got [OF assms(1) t(1), of MAX_CHAR r "[]"] assms t
    by (simp add: readAsciiNullString_def ItemAscii cstr_simps)
  from got_bind [OF this, of "\<lambda>(t, s). ok (ItemAscii t, s)"] show ?thesis by (simp add: ItemAscii t)
next
  case (ItemUnicode t)
  then obtain cs where t: "nonul cs" "t = cstr cs" using assms by (auto simp: cString_inv_def)
  have "yields (readUnicodeNullString ops s MAX_CHAR) (got valid rest (cstr cs) r)"
    using unicode_got [OF assms(1) t(1), of MAX_CHAR r "[]" 1] assms t
    by (simp add: readUnicodeNullString_def ItemUnicode cstr_simps)
  from got_bind [OF this, of "\<lambda>(t, s). ok (ItemUnicode t, s)"] show ?thesis by (simp add: ItemUnicode t)
next
  case (Item8 n)
  show ?thesis unfolding Item8 read_item.simps
    by (rule yields_bind [OF number_got(1) [OF assms(1), of n r]]) (use assms Item8 in \<open>auto simp: got_def\<close>)
next
  case (Item16 n)
  show ?thesis unfolding Item16 read_item.simps
    by (rule yields_bind [OF number_got(2) [OF assms(1), of n r]]) (use assms Item16 in \<open>auto simp: got_def\<close>)
next
  case (Item32 n)
  show ?thesis unfolding Item32 read_item.simps
    by (rule yields_bind [OF number_got(3) [OF assms(1), of n r]]) (use assms Item32 in \<open>auto simp: got_def\<close>)
next
  case (Item64 n)
  show ?thesis unfolding Item64 read_item.simps
    by (rule yields_bind [OF number_got(4) [OF assms(1), of n r]]) (use assms Item64 in \<open>auto simp: got_def\<close>)
qed

lemma read_items_got:
  "valid s \<Longrightarrow> list_all (item_ok c) is \<Longrightarrow>
   rest s = concat (map (item_bytes (v_isLittleEndian ops) c) is) @ r \<Longrightarrow>
     yields (read_items ops c s is) (got valid rest (map (item_read c) is) r)"
proof (induction "is" arbitrary: s)
  case (Cons i "is")
  let ?r = "concat (map (item_bytes (v_isLittleEndian ops) c) is) @ r"
  show ?case
    unfolding read_items.simps
  proof (rule got_bind [OF read_item_got [OF Cons.prems(1), of c i ?r]])
    fix s' assume s': "valid s'" "rest s' = ?r"
    have "yields (read_items ops c s' is) (got valid rest (map (item_read c) is) r)"
      using s' Cons.prems by (intro Cons.IH) auto
    from got_bind [OF this, of "\<lambda>(is, s). ok (item_read c i # is, s)"]
    show "yields (case (item_read c i, s') of (i, s) \<Rightarrow>
        run_bind (read_items ops c s is) (\<lambda>(is, s). ok (i # is, s))) (got valid rest (map (item_read c) (i # is)) r)"
      by simp
  qed (use Cons.prems in auto)
qed simp

end

lemma take_min_length [simp]: "take (min (length xs) n) xs = take n xs"
  by (simp add: min_def)

context input_stream
begin

lemma readAll_loop_got:
  "valid s \<Longrightarrow> yields (readAll_loop ops s raw) (got valid rest (raw @ rest s) [])"
proof (induction "length (rest s)" arbitrary: s raw rule: less_induct)
  case less
  let ?n = "v_getPipeReadBestRequest ops"
  show ?case
  proof (subst readAll_loop.simps, rule got_bind [OF pipeRead_takes [OF less.prems, of ?n]])
    fix s' assume s': "valid s'" "rest s' = drop ?n (rest s)"
    show "yields (if length (fst (take ?n (rest s), s')) = ?n
                  then readAll_loop ops (snd (take ?n (rest s), s')) (raw @ fst (take ?n (rest s), s'))
                  else ok (raw @ fst (take ?n (rest s), s'), snd (take ?n (rest s), s')))
            (got valid rest (raw @ rest s) [])"
    proof (cases "?n \<le> length (rest s)")
      case True
      have "yields (readAll_loop ops s' (raw @ take ?n (rest s))) (got valid rest ((raw @ take ?n (rest s)) @ rest s') [])"
        using True best s' by (intro less.hyps) auto
      then show ?thesis using True s' by (simp add: min_def)
    qed (use s' best in auto)
  qed
qed

end

locale stream_copy = src: input_stream sops svalid rest + dst: output_stream dops dvalid out
  for sops :: "'s basicIO" and svalid rest and dops :: "'d basicIO" and dvalid out
begin

lemma copyStream_copies:
  "svalid s \<Longrightarrow> dvalid d \<Longrightarrow>
     yields (copyStream dops d sops s)
       (\<lambda>x. put dvalid out (out d @ rest s) (fst x) \<and> svalid (snd x) \<and> rest (snd x) = [])"
proof (induction "length (rest s)" arbitrary: s d rule: less_induct)
  case less
  let ?n = "v_getPipeReadBestRequest sops" and ?r = "rest s"
  have m: "yields (pipeRead_buffer sops s [] ?n)
      (\<lambda>x. fst x = take ?n ?r \<and> fst (snd x) = length (take ?n ?r) \<and> svalid (snd (snd x)) \<and> rest (snd (snd x)) = drop ?n ?r)"
    unfolding pipeRead_buffer_def by (rule got_bind [OF src.pipeRead_takes [OF less.prems(1)]]) auto
  show ?case
  proof (subst copyStream.simps, rule yields_bind [OF m], goal_cases)
    case (1 x)
    have w: "yields (if fst (snd x) > 0 then pipeWrite dops d (take (fst (snd x)) (fst x)) else ok d)
        (put dvalid out (out d @ take ?n ?r))"
      using dst.pipeWrite_puts [OF less.prems(2), of "take ?n ?r"] 1 less.prems(2) src.best by (auto simp: put_def)
    show ?case
    proof (rule yields_bind [OF w], goal_cases)
      case (1 d')
      note d' = putD [OF 1]
      show ?case
      proof (cases "length ?r \<le> ?n")
        case True
        then have "v_isEOS sops (snd (snd x))" using \<open>fst x = take ?n ?r \<and> _\<close> src.eos_law by simp
        then show ?thesis using d' True \<open>fst x = take ?n ?r \<and> _\<close> by (simp add: put_def)
      next
        case False
        then have e: "\<not> v_isEOS sops (snd (snd x))" "0 < fst (snd x)"
          using \<open>fst x = take ?n ?r \<and> _\<close> src.eos_law src.best by auto
        have lt: "length (rest (snd (snd x))) < length ?r" using \<open>fst x = take ?n ?r \<and> _\<close> src.best False by auto
        have sv: "svalid (snd (snd x))" using \<open>fst x = take ?n ?r \<and> _\<close> by simp
        show ?thesis
          using less.hyps [OF lt sv d'(1)] e \<open>fst x = take ?n ?r \<and> _\<close> d'(2) by simp
      qed
    qed
  qed
qed

end

end
