(* ===== verification/XMemoryStream.thy ===== *)
theory XMemoryStream
  imports XBasicIO
begin

text \<open>
  The memory file of stream/memoryStream.cpp, with the shared buffer as the value it holds, and
  the stream that changes the byte order of another one (stream/endianFilterStream.cpp).
\<close>

subsection \<open>The memory file\<close>

record cMemoryStream =
  m_fixedSize :: bool
  m_filePosition :: nat
  m_data :: "uint8 list"

text \<open>The \<open>initSize\<close> first bytes of a new file are what the memory \<open>mem\<close> held.\<close>

definition cMemoryStream_new :: "uint8 list \<Rightarrow> nat \<Rightarrow> bool \<Rightarrow> cMemoryStream" where
  "cMemoryStream_new mem initSize fixedSize =
     \<lparr>m_fixedSize = fixedSize, m_filePosition = 0, m_data = take initSize mem\<rparr>"

definition cMemoryStream_new_data :: "uint8 list \<Rightarrow> bool \<Rightarrow> cMemoryStream" where
  "cMemoryStream_new_data initData fixedSize =
     \<lparr>m_fixedSize = fixedSize, m_filePosition = 0, m_data = initData\<rparr>"

definition cMemoryStream_new_copy :: "cMemoryStream \<Rightarrow> cMemoryStream" where
  "cMemoryStream_new_copy other =
     \<lparr>m_fixedSize = m_fixedSize other, m_filePosition = m_filePosition other, m_data = m_data other\<rparr>"

definition cMemoryStream_fork :: "cMemoryStream \<Rightarrow> cMemoryStream" where
  "cMemoryStream_fork s = cMemoryStream_new_copy s"

definition cMemoryStream_getPointer :: "cMemoryStream \<Rightarrow> nat" where
  "cMemoryStream_getPointer s = m_filePosition s"

definition cMemoryStream_length :: "cMemoryStream \<Rightarrow> nat" where
  "cMemoryStream_length s = length (m_data s)"

definition cMemoryStream_isEOS :: "cMemoryStream \<Rightarrow> bool" where
  "cMemoryStream_isEOS s \<longleftrightarrow> m_filePosition s = length (m_data s)"

definition cMemoryStream_flush :: "cMemoryStream \<Rightarrow> cMemoryStream run" where
  "cMemoryStream_flush s = ok s"

definition cMemoryStream_read :: "cMemoryStream \<Rightarrow> nat \<Rightarrow> (uint8 list \<times> cMemoryStream) run" where
  "cMemoryStream_read s len =
     (let sread = t_min (length (m_data s) - m_filePosition s) len
      in ok (take sread (drop (m_filePosition s) (m_data s)),
             s\<lparr>m_filePosition := m_filePosition s + sread\<rparr>))"

text \<open>The bytes that a growing file gains are all overwritten at once.\<close>

definition cMemoryStream_write :: "cMemoryStream \<Rightarrow> uint8 list \<Rightarrow> (nat \<times> cMemoryStream) run" where
  "cMemoryStream_write s buffer =
     (let swrite = t_min (length (m_data s) - m_filePosition s) (length buffer);
          s = s\<lparr>m_data := memcpy_at (m_data s) (m_filePosition s) buffer swrite,
                m_filePosition := m_filePosition s + swrite\<rparr>
      in if swrite \<noteq> length buffer \<and> \<not> m_fixedSize s then
           let lsize = length buffer - swrite;
               data = m_data s @ replicate lsize 0
           in ok (length buffer,
                  s\<lparr>m_data := memcpy_at data (m_filePosition s) (drop swrite buffer) lsize,
                    m_filePosition := m_filePosition s + lsize\<rparr>)
         else ok (swrite, s))"

text \<open>The negation of the smallest \<open>int\<close> overflows.\<close>

definition cMemoryStream_seek_to :: "nat \<Rightarrow> nat \<Rightarrow> uint32 \<Rightarrow> seekMethod \<Rightarrow> nat res" where
  "cMemoryStream_seek_to pos len distance method =
     (case method of
        IO_SEEK_SET \<Rightarrow> Inr (if sint distance \<le> 0 then 0 else t_min (nat (sint distance)) len)
      | IO_SEEK_CUR \<Rightarrow>
          if sint distance = - (2 ^ 31) then Inl UNDEFINED_BEHAVIOUR
          else if sint distance < 0 \<and> nat (- sint distance) > pos then Inr 0
          else Inr (t_min (nat (int pos + sint distance)) len)
      | IO_SEEK_END \<Rightarrow>
          if sint distance = - (2 ^ 31) then Inl UNDEFINED_BEHAVIOUR
          else if sint distance < 0 \<and> nat (- sint distance) > len then Inr 0
          else Inr (nat (int len + sint distance)))"

definition cMemoryStream_seek :: "cMemoryStream \<Rightarrow> uint32 \<Rightarrow> seekMethod \<Rightarrow> cMemoryStream run" where
  "cMemoryStream_seek s distance method =
     (if \<not> canSeek True True True True distance method then throw EXCEPTION_SEEK_ERROR
      else
        run_bind (of_res (cMemoryStream_seek_to (m_filePosition s) (length (m_data s)) distance method)) (\<lambda>p.
        ok (s\<lparr>m_filePosition := p\<rparr>)))"

definition cMemoryStream_io :: "cMemoryStream basicIO" where
  "cMemoryStream_io =
     \<lparr>v_read = cMemoryStream_read, v_write = cMemoryStream_write, v_flush = cMemoryStream_flush,
      v_isEOS = cMemoryStream_isEOS, v_seek = cMemoryStream_seek, v_length = cMemoryStream_length,
      v_getPointer = cMemoryStream_getPointer, v_getPipeReadBestRequest = 4096, v_isLittleEndian = True,
      canLength = True, canSeekFromBegin = True, canSeekForward = True, canSeekBackward = True,
      canSeekFromEnd = True, canGetPointer = True\<rparr>"

subsection \<open>The byte order of a stream\<close>

text \<open>The filter forwards everything to the stream below and answers for the byte order itself.\<close>

definition cEndianFilterStream :: "'s basicIO \<Rightarrow> bool \<Rightarrow> 's basicIO" where
  "cEndianFilterStream m_stream m_isLittleEndian =
     \<lparr>v_read = (\<lambda>s len. v_read m_stream s len), v_write = (\<lambda>s buffer. v_write m_stream s buffer),
      v_flush = (\<lambda>s. v_flush m_stream s), v_isEOS = (\<lambda>s. v_isEOS m_stream s),
      v_seek = (\<lambda>s distance method. v_seek m_stream s distance method),
      v_length = (\<lambda>s. v_length m_stream s), v_getPointer = (\<lambda>s. v_getPointer m_stream s),
      v_getPipeReadBestRequest = v_getPipeReadBestRequest m_stream,
      v_isLittleEndian = m_isLittleEndian,
      canLength = canLength m_stream, canSeekFromBegin = canSeekFromBegin m_stream,
      canSeekForward = canSeekForward m_stream, canSeekBackward = canSeekBackward m_stream,
      canSeekFromEnd = canSeekFromEnd m_stream, canGetPointer = canGetPointer m_stream\<rparr>"

context input_stream
begin

lemma endian_input: "input_stream (cEndianFilterStream ops b) valid rest"
  by unfold_locales (auto simp: cEndianFilterStream_def best eos_law intro: read_law)


end

context output_stream
begin

lemma endian_output: "output_stream (cEndianFilterStream ops b) valid out"
  by unfold_locales (auto simp: cEndianFilterStream_def intro: write_law)

end

subsection \<open>The file as a stream\<close>

text \<open>The position never passes the end of the data.\<close>

definition cMemoryStream_inv :: "cMemoryStream \<Rightarrow> bool" where
  "cMemoryStream_inv s \<longleftrightarrow> m_filePosition s \<le> length (m_data s)"

definition cMemoryStream_rest :: "cMemoryStream \<Rightarrow> uint8 list" where
  "cMemoryStream_rest s = drop (m_filePosition s) (m_data s)"

definition cMemoryStream_grows :: "cMemoryStream \<Rightarrow> bool" where
  "cMemoryStream_grows s \<longleftrightarrow> cMemoryStream_inv s \<and> \<not> m_fixedSize s"

definition cMemoryStream_written :: "cMemoryStream \<Rightarrow> uint8 list" where
  "cMemoryStream_written s = take (m_filePosition s) (m_data s)"

interpretation mem_in: input_stream cMemoryStream_io cMemoryStream_inv cMemoryStream_rest
proof
  show "0 < v_getPipeReadBestRequest cMemoryStream_io" by (simp add: cMemoryStream_io_def)
next
  fix s :: cMemoryStream and n :: nat
  assume "cMemoryStream_inv s" "0 < n"
  then show "\<exists>m \<le> n. (cMemoryStream_rest s \<noteq> [] \<longrightarrow> 0 < m) \<and>
     yields (v_read cMemoryStream_io s n)
       (got cMemoryStream_inv cMemoryStream_rest (take m (cMemoryStream_rest s)) (drop m (cMemoryStream_rest s)))"
    by (intro exI [of _ "t_min (length (m_data s) - m_filePosition s) n"])
       (auto simp: cMemoryStream_io_def cMemoryStream_read_def Let_def t_min_def cMemoryStream_inv_def
          cMemoryStream_rest_def add.commute)
next
  fix s :: cMemoryStream
  assume "cMemoryStream_inv s"
  then show "v_isEOS cMemoryStream_io s \<longleftrightarrow> cMemoryStream_rest s = []"
    by (auto simp: cMemoryStream_io_def cMemoryStream_isEOS_def cMemoryStream_rest_def cMemoryStream_inv_def)
qed

lemma memory_write_grows:
  assumes "cMemoryStream_grows s"
  shows "yields (cMemoryStream_write s bs)
    (\<lambda>x. fst x = length bs \<and> put cMemoryStream_grows cMemoryStream_written (cMemoryStream_written s @ bs) (snd x))"
proof (cases "length (m_data s) - m_filePosition s < length bs")
  case True
  then show ?thesis
    using assms
    by (auto simp: cMemoryStream_write_def Let_def t_min_def put_def cMemoryStream_grows_def cMemoryStream_inv_def
      cMemoryStream_written_def memcpy_at_def)
next
  case False
  then show ?thesis
    using assms
    by (auto simp: cMemoryStream_write_def Let_def t_min_def put_def cMemoryStream_grows_def cMemoryStream_inv_def
      cMemoryStream_written_def memcpy_at_def)
qed

interpretation mem_out: output_stream cMemoryStream_io cMemoryStream_grows cMemoryStream_written
proof
  fix s :: cMemoryStream and bs :: "uint8 list"
  assume "cMemoryStream_grows s" "bs \<noteq> []"
  then show "\<exists>m > 0. m \<le> length bs \<and>
     yields (v_write cMemoryStream_io s bs)
       (\<lambda>x. fst x = m \<and> put cMemoryStream_grows cMemoryStream_written (cMemoryStream_written s @ take m bs) (snd x))"
    using memory_write_grows [of s bs] by (intro exI [of _ "length bs"]) (auto simp: cMemoryStream_io_def)
qed

interpretation mem_copy: stream_copy cMemoryStream_io cMemoryStream_inv cMemoryStream_rest
  cMemoryStream_io cMemoryStream_grows cMemoryStream_written ..

text \<open>A growing file whose position is its end only gains bytes there.\<close>

definition cMemoryStream_atEnd :: "cMemoryStream \<Rightarrow> bool" where
  "cMemoryStream_atEnd s \<longleftrightarrow> m_filePosition s = length (m_data s) \<and> \<not> m_fixedSize s"

interpretation mem_append: output_stream cMemoryStream_io cMemoryStream_atEnd m_data
proof
  fix s :: cMemoryStream and bs :: "uint8 list"
  assume "cMemoryStream_atEnd s" "bs \<noteq> []"
  then show "\<exists>m > 0. m \<le> length bs \<and>
     yields (v_write cMemoryStream_io s bs)
       (\<lambda>x. fst x = m \<and> put cMemoryStream_atEnd m_data (m_data s @ take m bs) (snd x))"
    by (intro exI [of _ "length bs"])
       (auto simp: cMemoryStream_io_def cMemoryStream_write_def Let_def t_min_def put_def cMemoryStream_atEnd_def memcpy_at_def)
qed

lemma seek_begin [simp]: "cMemoryStream_seek s 0 IO_SEEK_SET = ok (s\<lparr>m_filePosition := 0\<rparr>)"
  by (simp add: cMemoryStream_seek_def canSeek_def cMemoryStream_seek_to_def)

lemma memory_at_begin [simp]:
  "cMemoryStream_inv (s\<lparr>m_filePosition := 0\<rparr>)" "cMemoryStream_rest (s\<lparr>m_filePosition := 0\<rparr>) = m_data s"
  by (simp_all add: cMemoryStream_inv_def cMemoryStream_rest_def)

text \<open>
  C13: numbers, addresses and strings of any number, written one after the other to a new memory
  file in either byte order and with either encoding of addresses, are read back after a seek to
  the beginning: all calls return, every value is the one that was written (an address keeps the
  bits of its encoding), and the file is at its end.
\<close>

theorem stream_items:
  assumes "list_all (item_ok c) is"
  shows "yields
    (run_bind (write_items (cEndianFilterStream cMemoryStream_io b) c (cMemoryStream_new_data [] False) is) (\<lambda>s.
     run_bind (v_seek (cEndianFilterStream cMemoryStream_io b) s 0 IO_SEEK_SET) (\<lambda>s.
     read_items (cEndianFilterStream cMemoryStream_io b) c s is)))
    (\<lambda>x. fst x = map (item_read c) is \<and> cMemoryStream_isEOS (snd x))"
proof -
  let ?ops = "cEndianFilterStream cMemoryStream_io b" and ?s = "cMemoryStream_new_data [] False"
  let ?bytes = "concat (map (item_bytes b c) is)"
  have little: "v_isLittleEndian ?ops = b" by (simp add: cEndianFilterStream_def)
  have new: "cMemoryStream_atEnd ?s" "m_data ?s = []"
    by (simp_all add: cMemoryStream_new_data_def cMemoryStream_atEnd_def)
  have w: "yields (write_items ?ops c ?s is) (put cMemoryStream_atEnd m_data ?bytes)"
    using output_stream.write_items_puts [OF mem_append.endian_output new(1) assms, of b] by (simp add: new little)
  show ?thesis
  proof (rule yields_bind [OF w])
    fix s assume p: "put cMemoryStream_atEnd m_data ?bytes s"
    have "yields (read_items ?ops c (s\<lparr>m_filePosition := 0\<rparr>) is)
        (got cMemoryStream_inv cMemoryStream_rest (map (item_read c) is) [])"
      using p by (intro input_stream.read_items_got [OF mem_in.endian_input]) (simp_all add: assms little put_def)
    then have "yields (read_items ?ops c (s\<lparr>m_filePosition := 0\<rparr>) is)
        (\<lambda>x. fst x = map (item_read c) is \<and> cMemoryStream_isEOS (snd x))"
      using mem_in.eos_law by (elim yields_mono) (auto simp: got_def cMemoryStream_io_def)
    then show "yields (run_bind (v_seek ?ops s 0 IO_SEEK_SET) (\<lambda>s. read_items ?ops c s is))
        (\<lambda>x. fst x = map (item_read c) is \<and> cMemoryStream_isEOS (snd x))"
      by (simp add: cEndianFilterStream_def cMemoryStream_io_def)
  qed
qed

theorem stream_items_witness:
  "list_all (item_ok basicInput_new) [Item16 0xABCD, ItemAscii (cstr [65, 66]), ItemAddress \<lparr>m_union = 0x112345, m_type = REMOTE_ADDRESS_16BIT\<rparr>] \<and>
   yields
    (run_bind (write_items (cEndianFilterStream cMemoryStream_io False) basicInput_new (cMemoryStream_new_data [] False)
        [Item16 0xABCD, ItemAscii (cstr [65, 66]), ItemAddress \<lparr>m_union = 0x112345, m_type = REMOTE_ADDRESS_16BIT\<rparr>]) (\<lambda>s.
     run_bind (v_seek (cEndianFilterStream cMemoryStream_io False) s 0 IO_SEEK_SET) (\<lambda>s.
     read_items (cEndianFilterStream cMemoryStream_io False) basicInput_new s
       [Item16 0, ItemAscii (cstr []), ItemAddress \<lparr>m_union = 0, m_type = REMOTE_ADDRESS_64BIT\<rparr>])))
    (\<lambda>x. fst x = [Item16 0xABCD, ItemAscii (cstr [65, 66]), ItemAddress \<lparr>m_union = 0x2345, m_type = REMOTE_ADDRESS_16BIT\<rparr>] \<and>
         cMemoryStream_isEOS (snd x))"
proof -
  have ok: "list_all (item_ok basicInput_new) [Item16 0xABCD, ItemAscii (cstr [65, 66]), ItemAddress \<lparr>m_union = 0x112345, m_type = REMOTE_ADDRESS_16BIT\<rparr>]"
    by (auto simp: cString_inv_def MAX_CHAR_def coded_type_def basicInput_new_def intro: exI [of _ "[65, 66]"])
  show ?thesis
    using stream_items [OF ok, of False] ok
    by (simp add: coded_type_def basicInput_new_def clipped_def)
qed

lemma memory_write_all:
  assumes "cMemoryStream_inv s" "\<not> (m_fixedSize s \<and> length (m_data s) - m_filePosition s < length bs)"
  shows "yields (cMemoryStream_write s bs)
    (\<lambda>x. fst x = length bs \<and> cMemoryStream_inv (snd x) \<and> m_fixedSize (snd x) = m_fixedSize s \<and>
         m_data (snd x) = cMemoryStream_written s @ bs @ drop (m_filePosition s + length bs) (m_data s) \<and>
         m_filePosition (snd x) = m_filePosition s + length bs)"
proof (cases "length (m_data s) - m_filePosition s < length bs")
  case True
  then show ?thesis using assms
    by (auto simp: cMemoryStream_write_def Let_def t_min_def cMemoryStream_inv_def cMemoryStream_written_def memcpy_at_def)
next
  case False
  then show ?thesis using assms
    by (auto simp: cMemoryStream_write_def Let_def t_min_def cMemoryStream_inv_def cMemoryStream_written_def memcpy_at_def)
qed

text \<open>
  C24: \<open>pipeWrite\<close> to a memory file writes all bytes behind the ones before its position, unless the
  file has a fixed size with too little room: then the loop never ends. \<open>copyStream\<close> from a memory
  file to a growing one appends all that is left of the source and leaves it at its end.
\<close>

theorem memory_writes:
  assumes "cMemoryStream_inv s"
  shows "(if m_fixedSize s \<and> length (m_data s) - m_filePosition s < length bs
          then pipeWrite cMemoryStream_io s bs = None
          else yields (pipeWrite cMemoryStream_io s bs)
                 (\<lambda>s'. cMemoryStream_inv s' \<and> m_fixedSize s' = m_fixedSize s \<and>
                       m_data s' = cMemoryStream_written s @ bs @ drop (m_filePosition s + length bs) (m_data s) \<and>
                       m_filePosition s' = m_filePosition s + length bs)) \<and>
         (\<not> m_fixedSize s \<and> cMemoryStream_inv source \<longrightarrow>
            yields (copyStream cMemoryStream_io s cMemoryStream_io source)
              (\<lambda>x. cMemoryStream_written (fst x) = cMemoryStream_written s @ cMemoryStream_rest source \<and>
                   cMemoryStream_isEOS (snd x)))"
proof (intro conjI impI, goal_cases)
  case 1
  let ?room = "length (m_data s) - m_filePosition s"
  show ?case
  proof (cases "m_fixedSize s \<and> ?room < length bs")
    case True
    let ?s = "s\<lparr>m_data := memcpy_at (m_data s) (m_filePosition s) bs ?room,
                m_filePosition := m_filePosition s + ?room\<rparr>"
    have w: "v_write cMemoryStream_io s bs = ok (?room, ?s)"
      using True by (simp add: cMemoryStream_io_def cMemoryStream_write_def Let_def t_min_def)
    have full: "v_write cMemoryStream_io ?s (drop ?room bs) = ok (0, ?s)"
      using True assms by (simp add: cMemoryStream_io_def cMemoryStream_write_def Let_def t_min_def cMemoryStream_inv_def)
    have "pipeWrite cMemoryStream_io ?s (drop ?room bs) = None"
      by (rule pipeWrite_stuck [OF full]) (use True in simp)
    moreover have "bs \<noteq> []" using True by auto
    ultimately have "pipeWrite cMemoryStream_io s bs = None" using w by (subst pipeWrite.simps) simp
    then show ?thesis using True by simp
  next
    case fits: False
    show ?thesis
    proof (cases "bs = []")
      case True
      then show ?thesis using assms by (simp add: cMemoryStream_written_def)
    next
      case False
      obtain s' where w: "cMemoryStream_write s bs = ok (length bs, s')"
        and s': "cMemoryStream_inv s'" "m_fixedSize s' = m_fixedSize s"
          "m_data s' = cMemoryStream_written s @ bs @ drop (m_filePosition s + length bs) (m_data s)"
          "m_filePosition s' = m_filePosition s + length bs"
        using memory_write_all [OF assms fits] by (auto simp: yields_def)
      have "pipeWrite cMemoryStream_io s bs = ok s'"
        by (rule pipeWrite_once [OF _ False]) (simp add: cMemoryStream_io_def w)
      then show ?thesis using s' fits by simp
    qed
  qed
next
  case 2
  then have g: "cMemoryStream_grows s" "cMemoryStream_inv source" using assms by (auto simp: cMemoryStream_grows_def)
  show ?case
    by (rule yields_mono [OF mem_copy.copyStream_copies [OF g(2,1)]])
       (use mem_in.eos_law in \<open>auto simp: put_def cMemoryStream_io_def\<close>)
qed

theorem memory_writes_witness:
  "cMemoryStream_inv (cMemoryStream_new_data [1, 2, 3] True) \<and>
   pipeWrite cMemoryStream_io (cMemoryStream_new_data [1, 2, 3] True) [9, 9, 9, 9] = None \<and>
   yields (copyStream cMemoryStream_io (cMemoryStream_new_data [] False) cMemoryStream_io (cMemoryStream_new_data [4, 5] True))
     (\<lambda>x. cMemoryStream_written (fst x) = [4, 5] \<and> cMemoryStream_isEOS (snd x))"
  using memory_writes [of "cMemoryStream_new_data [1, 2, 3] True" "[9, 9, 9, 9]" "cMemoryStream_new_data [] False"]
    memory_writes [of "cMemoryStream_new_data [] False" "[]" "cMemoryStream_new_data [4, 5] True"]
  by (simp add: cMemoryStream_inv_def cMemoryStream_new_data_def cMemoryStream_written_def cMemoryStream_rest_def)

end
