(* ===== verification/XRle.thy ===== *)
theory XRle
  imports XMemoryStream
begin

text \<open>
  The run length filter of stream/rle.cpp over any stream: the state of the two directions, the
  flush of a run, the reading loop, and the filter as a stream of its own.
\<close>

subsection \<open>The filter\<close>

record 's cRLEcompression =
  m_stream :: 's
  m_flag :: uint8
  m_w_compression_byte :: uint8
  m_w_count :: uint32
  m_r_is_compress :: bool
  m_r_compression_byte :: uint8
  m_r_count :: uint32

text \<open>\<open>m_r_compression_byte\<close> is not initialised; it holds \<open>mem\<close>.\<close>

definition cRLEcompression_new :: "uint8 \<Rightarrow> 's \<Rightarrow> uint8 \<Rightarrow> 's cRLEcompression" where
  "cRLEcompression_new mem stream flag =
     \<lparr>m_stream = stream, m_flag = flag, m_w_compression_byte = 0, m_w_count = 0,
      m_r_is_compress = False, m_r_compression_byte = mem, m_r_count = 0\<rparr>"

definition rle_out :: "'s basicIO \<Rightarrow> 's cRLEcompression \<Rightarrow> uint8 list \<Rightarrow> 's cRLEcompression run" where
  "rle_out ops r bs = run_bind (pipeWrite ops (m_stream r) bs) (\<lambda>s. ok (r\<lparr>m_stream := s\<rparr>))"

fun rle_flags :: "'s basicIO \<Rightarrow> 's cRLEcompression \<Rightarrow> nat \<Rightarrow> 's cRLEcompression run" where
  "rle_flags ops r 0 = ok r"
| "rle_flags ops r (Suc k) =
     run_bind (rle_out ops r [m_flag r]) (\<lambda>r.
     run_bind (rle_out ops r [m_flag r]) (\<lambda>r. rle_flags ops r k))"

fun rle_plain :: "'s basicIO \<Rightarrow> 's cRLEcompression \<Rightarrow> nat \<Rightarrow> 's cRLEcompression run" where
  "rle_plain ops r 0 = ok r"
| "rle_plain ops r (Suc k) =
     run_bind (rle_out ops r [m_w_compression_byte r]) (\<lambda>r. rle_plain ops r k)"

text \<open>A run of three and more bytes.\<close>

definition rle_run :: "'s basicIO \<Rightarrow> 's cRLEcompression \<Rightarrow> 's cRLEcompression run" where
  "rle_run ops r =
     run_bind (rle_out ops r [m_flag r]) (\<lambda>r.
     run_bind (if m_w_count r = ucast (m_flag r) then rle_out ops r [ucast (m_w_count r - 1)]
               else rle_out ops r [ucast (m_w_count r)]) (\<lambda>r.
     run_bind (rle_out ops r [m_w_compression_byte r]) (\<lambda>r.
     if m_w_count r = ucast (m_flag r) then
       run_bind (rle_out ops r [m_w_compression_byte r]) (\<lambda>r.
       if m_w_compression_byte r = m_flag r then rle_out ops r [m_w_compression_byte r]
       else ok r)
     else ok r)))"

definition rleWriteFlush :: "'s basicIO \<Rightarrow> 's cRLEcompression \<Rightarrow> 's cRLEcompression run" where
  "rleWriteFlush ops r =
     (if m_w_count r < 3 then
        if m_w_compression_byte r = m_flag r then
          run_bind (rle_flags ops r (unat (m_w_count r))) (\<lambda>r. ok (r\<lparr>m_w_count := 0\<rparr>))
        else
          run_bind (rle_plain ops r (unat (m_w_count r))) (\<lambda>r. ok (r\<lparr>m_w_count := 0\<rparr>))
      else run_bind (rle_run ops r) (\<lambda>r. ok (r\<lparr>m_w_count := 0\<rparr>)))"

definition cRLEcompression_flush :: "'s basicIO \<Rightarrow> 's cRLEcompression \<Rightarrow> 's cRLEcompression run" where
  "cRLEcompression_flush ops r =
     run_bind (rleWriteFlush ops r) (\<lambda>r.
     run_bind (v_flush ops (m_stream r)) (\<lambda>s. ok (r\<lparr>m_stream := s\<rparr>)))"

fun rle_write_loop :: "'s basicIO \<Rightarrow> 's cRLEcompression \<Rightarrow> uint8 list \<Rightarrow> 's cRLEcompression run" where
  "rle_write_loop ops r [] = ok r"
| "rle_write_loop ops r (b # bs) =
     (if b = m_w_compression_byte r then
        let r = r\<lparr>m_w_count := m_w_count r + 1\<rparr> in
        run_bind (if m_w_count r = 255 then rleWriteFlush ops r else ok r) (\<lambda>r. rle_write_loop ops r bs)
      else
        run_bind (rleWriteFlush ops r) (\<lambda>r.
        rle_write_loop ops (r\<lparr>m_w_compression_byte := b, m_w_count := 1\<rparr>) bs))"

definition cRLEcompression_write :: "'s basicIO \<Rightarrow> 's cRLEcompression \<Rightarrow> uint8 list \<Rightarrow> (nat \<times> 's cRLEcompression) run" where
  "cRLEcompression_write ops r buffer =
     run_bind (rle_write_loop ops r buffer) (\<lambda>r. ok (length buffer, r))"

text \<open>The body of the reading loop: the next byte, or none at the end of the input.\<close>

definition rle_next :: "'s basicIO \<Rightarrow> 's cRLEcompression \<Rightarrow> (uint8 option \<times> 's cRLEcompression) run" where
  "rle_next ops r =
     (if m_r_is_compress r then
        let r = r\<lparr>m_r_count := m_r_count r - 1\<rparr>;
            r = (if m_r_count r = 0 then r\<lparr>m_r_is_compress := False\<rparr> else r)
        in ok (Some (m_r_compression_byte r), r)
      else
        run_bind (pipeRead ops (m_stream r) 1) (\<lambda>(next_character, s).
        if length next_character \<noteq> 1 then ok (None, r\<lparr>m_stream := s\<rparr>)
        else if hd next_character = m_flag r then
          run_bind (pipeRead ops s 1) (\<lambda>(len, s).
          if length len \<noteq> 1 then throw COMPRESSION_ERROR
          else if hd len = m_flag r then ok (Some (m_flag r), r\<lparr>m_stream := s\<rparr>)
          else
            run_bind (pipeRead ops s 1) (\<lambda>(c, s).
            if length c \<noteq> 1 then throw COMPRESSION_ERROR
            else ok (Some (hd c), r\<lparr>m_stream := s, m_r_compression_byte := hd c,
                                     m_r_count := ucast (hd len) - 1, m_r_is_compress := True\<rparr>)))
        else ok (Some (hd next_character), r\<lparr>m_stream := s\<rparr>)))"

text \<open>The reading loop over the places left in the buffer.\<close>

fun cRLEcompression_read :: "'s basicIO \<Rightarrow> 's cRLEcompression \<Rightarrow> nat \<Rightarrow> (uint8 list \<times> 's cRLEcompression) run" where
  "cRLEcompression_read ops r 0 = ok ([], r)"
| "cRLEcompression_read ops r (Suc k) =
     run_bind (rle_next ops r) (\<lambda>(x, r).
     case x of
       None \<Rightarrow> ok ([], r)
     | Some b \<Rightarrow> run_bind (cRLEcompression_read ops r k) (\<lambda>(bs, r). ok (b # bs, r)))"

definition cRLEcompression_isEOS :: "'s basicIO \<Rightarrow> 's cRLEcompression \<Rightarrow> bool" where
  "cRLEcompression_isEOS ops r \<longleftrightarrow> \<not> m_r_is_compress r \<and> v_isEOS ops (m_stream r)"

text \<open>The table of the filter, with the function that seeks.\<close>

definition cRLEcompression_table :: "'s basicIO \<Rightarrow> ('s cRLEcompression \<Rightarrow> uint32 \<Rightarrow> seekMethod \<Rightarrow> 's cRLEcompression run) \<Rightarrow>
    's cRLEcompression basicIO" where
  "cRLEcompression_table ops seek =
     \<lparr>v_read = cRLEcompression_read ops, v_write = cRLEcompression_write ops, v_flush = cRLEcompression_flush ops,
      v_isEOS = cRLEcompression_isEOS ops, v_seek = seek,
      v_length = (\<lambda>r. v_length ops (m_stream r)), v_getPointer = (\<lambda>r. v_getPointer ops (m_stream r)),
      v_getPipeReadBestRequest = v_getPipeReadBestRequest ops, v_isLittleEndian = v_isLittleEndian ops,
      canLength = False, canSeekFromBegin = canSeekFromBegin ops, canSeekForward = True,
      canSeekBackward = False, canSeekFromEnd = False, canGetPointer = False\<rparr>"

text \<open>Seeking reads up to the new position, and then throws in any case.\<close>

definition cRLEcompression_seek :: "'s basicIO \<Rightarrow> 's cRLEcompression \<Rightarrow> uint32 \<Rightarrow> seekMethod \<Rightarrow> 's cRLEcompression run" where
  "cRLEcompression_seek ops r distance method =
     (let skip = (\<lambda>r. run_bind (pipeRead (cRLEcompression_table ops (\<lambda>_ _ _. throw EXCEPTION_SEEK_ERROR)) r (unat distance))
                   (\<lambda>(bs, r). if length bs \<noteq> unat distance then throw EXCEPTION_SEEK_ERROR else ok r))
      in if \<not> canSeek (canSeekFromBegin ops) True False False distance method then throw EXCEPTION_SEEK_ERROR
         else if method = IO_SEEK_SET then
           run_bind (cRLEcompression_flush ops r) (\<lambda>r.
           run_bind (v_seek ops (m_stream r) 0 IO_SEEK_SET) (\<lambda>s.
           run_bind (skip (r\<lparr>m_stream := s\<rparr>)) (\<lambda>r. throw EXCEPTION_SEEK_ERROR)))
         else if method = IO_SEEK_CUR \<and> 0 \<le> sint distance then
           run_bind (cRLEcompression_flush ops r) (\<lambda>r.
           run_bind (skip r) (\<lambda>r. throw EXCEPTION_SEEK_ERROR))
         else throw EXCEPTION_SEEK_ERROR)"

definition cRLEcompression_io :: "'s basicIO \<Rightarrow> 's cRLEcompression basicIO" where
  "cRLEcompression_io ops = cRLEcompression_table ops (cRLEcompression_seek ops)"

subsection \<open>The code\<close>

text \<open>What a stored sequence stands for.\<close>

fun rle_decode :: "uint8 \<Rightarrow> uint8 list \<Rightarrow> uint8 list" where
  "rle_decode f [] = []"
| "rle_decode f (b # bs) =
     (if b \<noteq> f then b # rle_decode f bs
      else
        case bs of
          [] \<Rightarrow> []
        | l # bs \<Rightarrow>
            if l = f then f # rle_decode f bs
            else (case bs of [] \<Rightarrow> [] | c # bs \<Rightarrow> replicate (unat l) c @ rle_decode f bs))"

text \<open>The stored sequences, one rule for each thing the filter stores.\<close>

inductive rle_code :: "uint8 \<Rightarrow> uint8 list \<Rightarrow> bool" for f where
  code_nil: "rle_code f []"
| code_byte: "b \<noteq> f \<Longrightarrow> rle_code f bs \<Longrightarrow> rle_code f (b # bs)"
| code_flag: "rle_code f bs \<Longrightarrow> rle_code f (f # f # bs)"
| code_run: "l \<noteq> f \<Longrightarrow> 2 \<le> l \<Longrightarrow> rle_code f bs \<Longrightarrow> rle_code f (f # l # c # bs)"

lemma decode_append: "rle_code f a \<Longrightarrow> rle_decode f (a @ b) = rle_decode f a @ rle_decode f b"
  by (induction rule: rle_code.induct) simp_all

lemma rle_code_append: "rle_code f a \<Longrightarrow> rle_code f b \<Longrightarrow> rle_code f (a @ b)"
  by (induction rule: rle_code.induct) (auto intro: rle_code.intros)

lemma decode_length: "rle_code f a \<Longrightarrow> length a \<le> 2 * length (rle_decode f a)"
  by (induction rule: rle_code.induct) (auto simp: word_le_nat_alt)

subsection \<open>Reading\<close>

definition rle_in :: "('s \<Rightarrow> bool) \<Rightarrow> ('s \<Rightarrow> uint8 list) \<Rightarrow> 's cRLEcompression \<Rightarrow> bool" where
  "rle_in valid rest r \<longleftrightarrow>
     valid (m_stream r) \<and> rle_code (m_flag r) (rest (m_stream r)) \<and> (m_r_is_compress r \<longrightarrow> m_r_count r \<noteq> 0)"

definition rle_rest :: "('s \<Rightarrow> uint8 list) \<Rightarrow> 's cRLEcompression \<Rightarrow> uint8 list" where
  "rle_rest rest r =
     (if m_r_is_compress r then replicate (unat (m_r_count r)) (m_r_compression_byte r) else []) @
     rle_decode (m_flag r) (rest (m_stream r))"

lemma unat_minus_1: "(c :: 'a::len word) \<noteq> 0 \<Longrightarrow> unat c = Suc (unat (c - 1))"
  by (metis Suc_pred' unat_eq_zero neq0_conv unat_minus_one)

context input_stream
begin

lemma pipeRead_one_bind:
  assumes "valid s" "rest s = a # as" "\<And>s. valid s \<Longrightarrow> rest s = as \<Longrightarrow> yields (f ([a], s)) P"
  shows "yields (run_bind (pipeRead ops s (Suc 0)) f) P"
  by (rule got_bind [OF pipeRead_exact [OF assms(1), of "[a]" as]]) (use assms in auto)

lemma rle_next_got:
  assumes "rle_in valid rest r"
  shows "yields (rle_next ops r) (\<lambda>x. rle_in valid rest (snd x) \<and>
     (case fst x of None \<Rightarrow> rle_rest rest r = [] \<and> rle_rest rest (snd x) = []
      | Some b \<Rightarrow> rle_rest rest r = b # rle_rest rest (snd x)))" (is "yields _ ?post")
proof (cases "m_r_is_compress r")
  case True
  have "unat (m_r_count r) = Suc (unat (m_r_count r - 1))"
    using assms True by (intro unat_minus_1) (simp add: rle_in_def)
  then show ?thesis using assms True by (auto simp: rle_next_def Let_def rle_in_def rle_rest_def)
next
  case False
  have v: "valid (m_stream r)" and code: "rle_code (m_flag r) (rest (m_stream r))"
    using assms by (auto simp: rle_in_def)
  note unfold = rle_next_def if_not_P [OF False]
  from code show ?thesis
  proof (cases rule: rle_code.cases)
    case code_nil
    have m: "yields (pipeRead ops (m_stream r) 1) (got valid rest [] [])"
      using pipeRead_takes [OF v, of 1] code_nil by simp
    show ?thesis
      unfolding unfold
      by (rule got_bind [OF m]) (use False in \<open>auto simp: code_nil rle_in_def rle_rest_def intro: rle_code.code_nil\<close>)
  next
    case (code_byte b bs)
    have m: "yields (pipeRead ops (m_stream r) 1) (got valid rest [b] bs)"
      using pipeRead_exact [OF v, of "[b]" bs] code_byte by simp
    show ?thesis
      unfolding unfold
      by (rule got_bind [OF m]) (use False code_byte in \<open>auto simp: rle_in_def rle_rest_def\<close>)
  next
    case (code_flag bs)
    let ?f = "m_flag r"
    have m: "yields (pipeRead ops (m_stream r) 1) (got valid rest [?f] (?f # bs))"
      using pipeRead_exact [OF v, of "[?f]" "?f # bs"] code_flag by simp
    show ?thesis
      unfolding unfold
      by (rule got_bind [OF m]) (use False code_flag in \<open>auto simp: rle_in_def rle_rest_def intro!: pipeRead_one_bind\<close>)
  next
    case (code_run l bs c)
    let ?f = "m_flag r"
    have m: "yields (pipeRead ops (m_stream r) 1) (got valid rest [?f] (l # c # bs))"
      using pipeRead_exact [OF v, of "[?f]" "l # c # bs"] code_run by simp
    have l: "unat l = Suc (unat (ucast l - 1 :: uint32))" "(ucast l - 1 :: uint32) \<noteq> 0"
    proof -
      have u: "unat (ucast l :: uint32) = unat l" by (rule unat_ucast_up) simp
      then have two: "2 \<le> unat (ucast l :: uint32)" using code_run by (simp add: word_le_nat_alt)
      then have "(ucast l :: uint32) \<noteq> 0" by (metis not_numeral_le_zero unat_0)
      from unat_minus_1 [OF this] show s: "unat l = Suc (unat (ucast l - 1 :: uint32))" using u by simp
      then show "(ucast l - 1 :: uint32) \<noteq> 0" using two u by (metis Suc_n_not_le_n numeral_2_eq_2 unat_0)
    qed
    show ?thesis
      unfolding unfold
      by (rule got_bind [OF m]) (use False code_run l in \<open>auto simp: rle_in_def rle_rest_def intro!: pipeRead_one_bind\<close>)
  qed
qed

lemma rle_read_takes:
  "rle_in valid rest r \<Longrightarrow>
     yields (cRLEcompression_read ops r n)
       (got (rle_in valid rest) (rle_rest rest) (take n (rle_rest rest r)) (drop n (rle_rest rest r)))"
proof (induction n arbitrary: r)
  case (Suc k)
  show ?case
    unfolding cRLEcompression_read.simps
  proof (rule yields_bind [OF rle_next_got [OF Suc.prems]], goal_cases)
    case (1 x)
    obtain o' r' where x: "x = (o', r')" by (cases x)
    have r': "rle_in valid rest r'" using 1 x by simp
    show ?case
    proof (cases o')
      case (Some b)
      then show ?thesis using 1 by (simp add: x) (rule got_bind [OF Suc.IH [OF r']], simp)
    qed (use 1 x in simp)
  qed
qed simp

end

lemma decode_eq_Nil: "rle_code f bs \<Longrightarrow> rle_decode f bs = [] \<longleftrightarrow> bs = []"
  by (cases rule: rle_code.cases) (auto simp: word_le_nat_alt unat_eq_zero)

context input_stream
begin

lemma rle_input: "input_stream (cRLEcompression_io ops) (rle_in valid rest) (rle_rest rest)"
proof
  show "0 < v_getPipeReadBestRequest (cRLEcompression_io ops)"
    using best by (simp add: cRLEcompression_io_def cRLEcompression_table_def)
next
  fix r :: "'s cRLEcompression" and n :: nat
  assume "rle_in valid rest r" "0 < n"
  then show "\<exists>m \<le> n. (rle_rest rest r \<noteq> [] \<longrightarrow> 0 < m) \<and>
      yields (v_read (cRLEcompression_io ops) r n)
        (got (rle_in valid rest) (rle_rest rest) (take m (rle_rest rest r)) (drop m (rle_rest rest r)))"
    using rle_read_takes [of r n] by (intro exI [of _ n]) (auto simp: cRLEcompression_io_def cRLEcompression_table_def)
next
  fix r :: "'s cRLEcompression"
  assume "rle_in valid rest r"
  then show "v_isEOS (cRLEcompression_io ops) r \<longleftrightarrow> rle_rest rest r = []"
    using eos_law [of "m_stream r"] decode_eq_Nil [of "m_flag r" "rest (m_stream r)"]
    by (auto simp: cRLEcompression_io_def cRLEcompression_table_def cRLEcompression_isEOS_def rle_in_def rle_rest_def
        unat_eq_zero)
qed

end

subsection \<open>Writing\<close>

text \<open>What a run of \<open>n\<close> bytes is stored as.\<close>

definition run_code :: "uint8 \<Rightarrow> uint8 \<Rightarrow> uint32 \<Rightarrow> uint8 list" where
  "run_code f c n =
     (if n < 3 then concat (replicate (unat n) (if c = f then [f, f] else [c]))
      else if n = ucast f then [f, ucast (n - 1), c, c] @ (if c = f then [c] else [])
      else [f, ucast n, c])"

definition rle_sink :: "uint8 \<Rightarrow> ('s \<Rightarrow> bool) \<Rightarrow> ('s \<Rightarrow> uint8 list) \<Rightarrow> 's cRLEcompression \<Rightarrow> bool" where
  "rle_sink f valid out r \<longleftrightarrow>
     m_flag r = f \<and> valid (m_stream r) \<and> rle_code (m_flag r) (out (m_stream r)) \<and> m_w_count r < 255"

definition rle_written :: "('s \<Rightarrow> uint8 list) \<Rightarrow> 's cRLEcompression \<Rightarrow> uint8 list" where
  "rle_written out r =
     rle_decode (m_flag r) (out (m_stream r)) @ replicate (unat (m_w_count r)) (m_w_compression_byte r)"

lemma run_code_code:
  assumes "n \<le> 255"
  shows "rle_code f (run_code f c n) \<and> rle_decode f (run_code f c n) = replicate (unat n) c"
proof (cases "n < 3")
  case True
  have c: "rle_code f (concat (replicate k (if c = f then [f, f] else [c]))) \<and>
        rle_decode f (concat (replicate k (if c = f then [f, f] else [c]))) = replicate k c" for k
    by (induction k) (auto intro: rle_code.intros)
  show ?thesis using c [of "unat n"] True by (simp add: run_code_def)
next
  case False
  have n: "unat n \<le> 255" "3 \<le> unat n" using assms False by (simp_all add: word_le_nat_alt word_less_nat_alt)
  have u: "unat (ucast m :: uint8) = unat m" if "unat m < 256" for m :: uint32
    using that by (simp add: unsigned_ucast_eq unsigned_take_bit_eq take_bit_nat_eq_self)
  have n1: "unat (n - 1) = unat n - 1" using n by (intro unat_minus_one) auto
  have two: "2 \<le> (ucast m :: uint8)" if "unat m < 256" "2 \<le> unat m" for m :: uint32
    using u [OF that(1)] that(2) by (simp add: word_le_nat_alt)
  show ?thesis
  proof (cases "n = ucast f")
    case True
    have f: "unat f = unat n" using True by (simp add: unat_ucast_up)
    let ?l = "ucast (n - 1) :: uint8" and ?tail = "if c = f then [c] else []"
    have ul: "unat ?l = unat n - 1" using u [of "n - 1"] n n1 by simp
    then have l1: "?l \<noteq> f" using f n by auto
    have l2: "2 \<le> ?l" using two [of "n - 1"] n n1 by simp
    have g: "rle_code f ([f, l, c, c] @ ?tail) \<and> rle_decode f ([f, l, c, c] @ ?tail) = replicate (unat l) c @ [c]"
      if "l \<noteq> f" "2 \<le> l" for l
      using that by (cases "c = f") (simp_all add: rle_code.intros)
    have rc: "run_code f c n = [f, ?l, c, c] @ ?tail"
      using False True unfolding run_code_def by (simp only: if_True if_False simp_thms)
    have "replicate (unat n - 1) c @ [c] = replicate (unat n) c"
      using n by (cases "unat n") (simp_all add: replicate_append_same)
    then show ?thesis
      unfolding rc using g [OF l1 l2] unfolding ul by (simp only:)
  next
    case neq: False
    have "(ucast n :: uint8) \<noteq> f"
    proof
      assume "ucast n = f"
      then have "unat f = unat n" using u [of n] n by auto
      then have "n = ucast f" by (simp add: word_unat_eq_iff unat_ucast_up)
      then show False using neq by simp
    qed
    moreover have "2 \<le> (ucast n :: uint8)" using two [of n] n by simp
    ultimately show ?thesis using False neq u [of n] n by (simp add: run_code_def rle_code.intros)
  qed
qed

text \<open>The states that differ from \<open>r\<close> in the stream below, to which \<open>bs\<close> has been written.\<close>

definition emitted :: "('s \<Rightarrow> bool) \<Rightarrow> ('s \<Rightarrow> uint8 list) \<Rightarrow> 's cRLEcompression \<Rightarrow> uint8 list \<Rightarrow> 's cRLEcompression \<Rightarrow> bool" where
  "emitted valid out r bs r' \<longleftrightarrow> (\<exists>s. r' = r\<lparr>m_stream := s\<rparr> \<and> valid s \<and> out s = out (m_stream r) @ bs)"

context output_stream
begin

lemma emitted_trans: "emitted valid out r a r' \<Longrightarrow> emitted valid out r' b r'' \<Longrightarrow> emitted valid out r (a @ b) r''"
  by (auto simp: emitted_def)

lemma emitted_fields:
  "emitted valid out r bs r' \<Longrightarrow> valid (m_stream r') \<and> m_flag r' = m_flag r \<and> m_w_count r' = m_w_count r \<and>
     m_w_compression_byte r' = m_w_compression_byte r"
  by (auto simp: emitted_def)

lemma emitted_Nil: "valid (m_stream r) \<Longrightarrow> emitted valid out r [] r"
  by (auto simp: emitted_def intro!: exI [of _ "m_stream r"])

lemma rle_out_emits: "valid (m_stream r) \<Longrightarrow> yields (rle_out ops r bs) (emitted valid out r bs)"
  unfolding rle_out_def
  by (rule yields_bind [OF pipeWrite_puts]) (auto simp: put_def emitted_def)

lemma emits_bind:
  assumes "yields m (emitted valid out r a)" and "\<And>r'. emitted valid out r a r' \<Longrightarrow> yields (f r') (emitted valid out r' b)"
  shows "yields (run_bind m f) (emitted valid out r (a @ b))"
proof (rule yields_bind [OF assms(1)])
  fix r' assume r': "emitted valid out r a r'"
  show "yields (f r') (emitted valid out r (a @ b))"
    by (rule yields_mono [OF assms(2) [OF r']]) (rule emitted_trans [OF r'])
qed

lemma rle_flags_emits:
  "valid (m_stream r) \<Longrightarrow> yields (rle_flags ops r k) (emitted valid out r (concat (replicate k [m_flag r, m_flag r])))"
proof (induction k arbitrary: r)
  case (Suc k)
  have "yields (rle_flags ops r (Suc k)) (emitted valid out r ([m_flag r] @ [m_flag r] @ concat (replicate k [m_flag r, m_flag r])))"
    unfolding rle_flags.simps
  proof (rule emits_bind [OF rle_out_emits [OF Suc.prems]], rule emits_bind, goal_cases)
    case (1 r1)
    then show ?case using rle_out_emits [of r1 "[m_flag r1]"] emitted_fields [OF 1] by simp
  next
    case (2 r1 r2)
    then show ?case using Suc.IH [of r2] emitted_fields [OF 2(1)] emitted_fields [OF 2(2)] by simp
  qed
  then show ?case by simp
qed (simp add: emitted_Nil)

lemma rle_plain_emits:
  "valid (m_stream r) \<Longrightarrow> yields (rle_plain ops r k) (emitted valid out r (replicate k (m_w_compression_byte r)))"
proof (induction k arbitrary: r)
  case (Suc k)
  have "yields (rle_plain ops r (Suc k)) (emitted valid out r ([m_w_compression_byte r] @ replicate k (m_w_compression_byte r)))"
    unfolding rle_plain.simps
  proof (rule emits_bind [OF rle_out_emits [OF Suc.prems]], goal_cases)
    case (1 r1)
    then show ?case using Suc.IH [of r1] emitted_fields [OF 1] by simp
  qed
  then show ?case by simp
qed (simp add: emitted_Nil)

lemma rle_run_emits:
  assumes "valid (m_stream r)" and run: "\<not> m_w_count r < 3"
  shows "yields (rle_run ops r) (emitted valid out r (run_code (m_flag r) (m_w_compression_byte r) (m_w_count r)))"
proof -
  let ?f = "m_flag r" and ?c = "m_w_compression_byte r" and ?n = "m_w_count r"
  let ?l = "if ?n = ucast ?f then ucast (?n - 1) else (ucast ?n :: uint8)"
  let ?tail = "if ?n = ucast ?f then [?c] @ (if ?c = ?f then [?c] else []) else []"
  have one: "yields (rle_out ops r1 bs) (emitted valid out r1 bs)"
    and same: "m_flag r1 = m_flag r' \<and> m_w_count r1 = m_w_count r' \<and> m_w_compression_byte r1 = m_w_compression_byte r'"
    and skip: "emitted valid out r1 [] r1"
    if "emitted valid out r' a r1" for r' a r1 bs
    using rle_out_emits [of r1 bs] emitted_fields [OF that] emitted_Nil [of r1] by simp_all
  have "run_code ?f ?c ?n = [?f] @ [?l] @ [?c] @ ?tail"
    using run by (auto simp: run_code_def)
  moreover have "yields (rle_run ops r) (emitted valid out r ([?f] @ [?l] @ [?c] @ ?tail))"
    unfolding rle_run_def
  proof (rule emits_bind [OF rle_out_emits [OF assms(1)]], rule emits_bind, goal_cases)
    case (1 r1)
    then show ?case using one [OF 1] same [OF 1] by simp
  next
    case (2 r1 r2)
    note s1 = same [OF 2(1)] and s2 = same [OF 2(2)]
    show ?case
    proof (rule emits_bind, goal_cases)
      case 1
      then show ?case using one [OF 2(2)] s1 s2 by simp
    next
      case (2 r3)
      note s3 = same [OF 2]
      show ?case
      proof (cases "?n = ucast ?f")
        case True
        have "yields (run_bind (rle_out ops r3 [m_w_compression_byte r3]) (\<lambda>r1.
            if m_w_compression_byte r1 = m_flag r1 then rle_out ops r1 [m_w_compression_byte r1]
            else ok r1)) (emitted valid out r3 ([?c] @ (if ?c = ?f then [?c] else [])))"
        proof (rule emits_bind, goal_cases)
          case 1
          then show ?case using one [OF 2] s1 s2 s3 by simp
        next
          case (2 r4)
          then show ?case using one [OF 2] same [OF 2] skip [OF 2] s1 s2 s3 by simp
        qed
        then show ?thesis using True s1 s2 s3 by simp
      next
        case False
        then show ?thesis using skip [OF 2] s1 s2 s3 by simp
      qed
    qed
  qed
  ultimately show ?thesis by simp
qed

lemma rleWriteFlush_emits:
  assumes "valid (m_stream r)"
  shows "yields (rleWriteFlush ops r)
     (\<lambda>r'. \<exists>r1. emitted valid out r (run_code (m_flag r) (m_w_compression_byte r) (m_w_count r)) r1 \<and> r' = r1\<lparr>m_w_count := 0\<rparr>)"
    (is "yields _ ?post")
proof -
  let ?f = "m_flag r" and ?c = "m_w_compression_byte r" and ?n = "m_w_count r"
  have fin: "yields (run_bind m (\<lambda>r. ok (r\<lparr>m_w_count := 0\<rparr>))) ?post"
    if "yields m (emitted valid out r (run_code ?f ?c ?n))" for m
    by (rule yields_bind [OF that]) auto
  consider (flags) "?n < 3" "?c = ?f" | (plain) "?n < 3" "?c \<noteq> ?f" | (run) "\<not> ?n < 3" by blast
  then show ?thesis
  proof cases
    case flags
    then show ?thesis using fin rle_flags_emits [OF assms, of "unat ?n"] by (simp add: rleWriteFlush_def run_code_def)
  next
    case plain
    have "concat (replicate k [x]) = replicate k x" for k and x :: uint8 by (induction k) simp_all
    then show ?thesis
      using plain fin rle_plain_emits [OF assms, of "unat ?n"] by (simp add: rleWriteFlush_def run_code_def)
  next
    case run
    then show ?thesis using fin [OF rle_run_emits [OF assms run]] by (simp add: rleWriteFlush_def)
  qed
qed

end

context output_stream
begin

lemma rleWriteFlush_sink:
  assumes "valid (m_stream r)" "rle_code (m_flag r) (out (m_stream r))" "m_w_count r \<le> 255" "m_flag r = f"
  shows "yields (rleWriteFlush ops r)
     (\<lambda>r'. rle_sink f valid out r' \<and> rle_written out r' = rle_written out r \<and> m_w_count r' = 0)"
  using run_code_code [OF assms(3), of "m_flag r" "m_w_compression_byte r"] assms(4)
  by (intro yields_mono [OF rleWriteFlush_emits [OF assms(1)]])
     (auto simp: emitted_def rle_sink_def rle_written_def decode_append [OF assms(2)]
        intro: rle_code_append [OF assms(2)])

lemma rle_write_loop_sink:
  "rle_sink f valid out r \<Longrightarrow>
     yields (rle_write_loop ops r bs)
       (\<lambda>r'. rle_sink f valid out r' \<and> rle_written out r' = rle_written out r @ bs)"
proof (induction bs arbitrary: r)
  case (Cons b bs)
  have v: "valid (m_stream r)" "rle_code (m_flag r) (out (m_stream r))" and n: "m_w_count r < 255" and f: "m_flag r = f"
    using Cons.prems by (auto simp: rle_sink_def)
  have go: "yields (rle_write_loop ops r' bs)
       (\<lambda>r'. rle_sink f valid out r' \<and> rle_written out r' = rle_written out r @ b # bs)"
    if "rle_sink f valid out r'" "rle_written out r' = rle_written out r @ [b]" for r'
    by (rule yields_mono [OF Cons.IH [OF that(1)]]) (use that in auto)
  show ?case
  proof (cases "b = m_w_compression_byte r")
    case True
    let ?r = "r\<lparr>m_w_count := m_w_count r + 1\<rparr>"
    have u: "unat (m_w_count r + 1) = Suc (unat (m_w_count r))"
    proof -
      have "unat (m_w_count r) < 255" using n by (simp add: word_less_nat_alt)
      then show ?thesis by (simp add: unat_word_ariths)
    qed
    have w: "rle_written out ?r = rle_written out r @ [b]"
      using True by (simp add: rle_written_def u replicate_append_same)
    have le: "m_w_count ?r \<le> 255" using n u by (simp add: word_le_nat_alt word_less_nat_alt)
    have "yields (if m_w_count ?r = 255 then rleWriteFlush ops ?r else ok ?r)
       (\<lambda>r'. rle_sink f valid out r' \<and> rle_written out r' = rle_written out r @ [b])"
    proof (cases "m_w_count ?r = 255")
      case True
      then show ?thesis
        using yields_mono [OF rleWriteFlush_sink [of ?r]] v le w f by simp
    next
      case False
      then show ?thesis using v w le f by (simp add: rle_sink_def order_less_le)
    qed
    from yields_bind [OF this, of "\<lambda>r. rle_write_loop ops r bs"] go
    show ?thesis using True by (auto simp: Let_def)
  next
    case False
    have "yields (rleWriteFlush ops r)
     (\<lambda>r'. rle_sink f valid out r' \<and> rle_written out r' = rle_written out r \<and> m_w_count r' = 0)"
      using v n f by (intro rleWriteFlush_sink) auto
    then show ?thesis
      unfolding rle_write_loop.simps if_not_P [OF False]
    proof (rule yields_bind, goal_cases)
      case (1 r1)
      then have "rle_sink f valid out (r1\<lparr>m_w_compression_byte := b, m_w_count := 1\<rparr>)"
        and "rle_written out (r1\<lparr>m_w_compression_byte := b, m_w_count := 1\<rparr>) = rle_written out r @ [b]"
        by (auto simp: rle_sink_def rle_written_def)
      then show ?case by (rule go)
    qed
  qed
qed (simp add: yields_def)

lemma rle_output: "output_stream (cRLEcompression_io ops) (rle_sink f valid out) (rle_written out)"
proof
  fix r :: "'s cRLEcompression" and bs :: "uint8 list"
  assume "rle_sink f valid out r" "bs \<noteq> []"
  then show "\<exists>m > 0. m \<le> length bs \<and> yields (v_write (cRLEcompression_io ops) r bs)
     (\<lambda>x. fst x = m \<and> put (rle_sink f valid out) (rle_written out) (rle_written out r @ take m bs) (snd x))"
    by (intro exI [of _ "length bs"])
       (auto simp: cRLEcompression_io_def cRLEcompression_table_def cRLEcompression_write_def put_def
         intro!: yields_bind [OF rle_write_loop_sink])
qed

end

interpretation rle_mem_in: input_stream "cRLEcompression_io cMemoryStream_io"
  "rle_in cMemoryStream_inv cMemoryStream_rest" "rle_rest cMemoryStream_rest"
  by (rule mem_in.rle_input)

interpretation rle_mem_out: output_stream "cRLEcompression_io cMemoryStream_io"
  "rle_sink f cMemoryStream_atEnd m_data" "rle_written m_data" for f
  by (rule mem_append.rle_output)


text \<open>
  C14: items written through the run length filter, with any flag byte, to a memory file and
  flushed are read back by a new filter over the file from its beginning: every call returns,
  the values are the ones that were written, the filter is at its end, and the stored file has
  at most twice the bytes of the items.
\<close>

theorem rle_items:
  assumes "list_all (item_ok c) is"
  shows "yields
    (run_bind (write_items (cRLEcompression_io cMemoryStream_io) c
                 (cRLEcompression_new x (cMemoryStream_new_data [] False) flag) is) (\<lambda>r.
     run_bind (cRLEcompression_flush cMemoryStream_io r) (\<lambda>r.
     run_bind (v_seek cMemoryStream_io (m_stream r) 0 IO_SEEK_SET) (\<lambda>s.
     run_bind (read_items (cRLEcompression_io cMemoryStream_io) c (cRLEcompression_new y s flag) is) (\<lambda>(is', r').
     ok (is', m_data s, cRLEcompression_isEOS cMemoryStream_io r'))))))
    (\<lambda>(is', stored, eos). is' = map (item_read c) is \<and> eos \<and>
       length stored \<le> 2 * length (concat (map (item_bytes True c) is)))"
proof -
  let ?ops = "cRLEcompression_io cMemoryStream_io" and ?bytes = "concat (map (item_bytes True c) is)"
  let ?r = "cRLEcompression_new x (cMemoryStream_new_data [] False) flag"
  have little: "v_isLittleEndian ?ops = True"
    by (simp add: cRLEcompression_io_def cRLEcompression_table_def cMemoryStream_io_def)
  have new: "rle_sink flag cMemoryStream_atEnd m_data ?r" "rle_written m_data ?r = []"
    by (simp_all add: rle_sink_def rle_written_def cRLEcompression_new_def cMemoryStream_new_data_def
         cMemoryStream_atEnd_def rle_code.intros)
  have w: "yields (write_items ?ops c ?r is) (put (rle_sink flag cMemoryStream_atEnd m_data) (rle_written m_data) ?bytes)"
    using rle_mem_out.write_items_puts [OF new(1) assms] by (simp add: new(2) little)
  show ?thesis
  proof (rule yields_bind [OF w])
    fix r assume "put (rle_sink flag cMemoryStream_atEnd m_data) (rle_written m_data) ?bytes r"
    then have r: "cMemoryStream_atEnd (m_stream r)" "rle_code (m_flag r) (m_data (m_stream r))"
      "m_w_count r \<le> 255" "m_flag r = flag" "rle_written m_data r = ?bytes"
      by (auto simp: put_def rle_sink_def)
    have fl: "yields (cRLEcompression_flush cMemoryStream_io r)
        (\<lambda>r'. rle_code flag (m_data (m_stream r')) \<and> rle_decode flag (m_data (m_stream r')) = ?bytes)"
      unfolding cRLEcompression_flush_def
      by (rule yields_bind [OF mem_append.rleWriteFlush_sink [OF r(1-4)]])
         (auto simp: cMemoryStream_io_def cMemoryStream_flush_def rle_sink_def rle_written_def r(4) r(5) [unfolded rle_written_def, symmetric])
    show "yields (run_bind (cRLEcompression_flush cMemoryStream_io r) (\<lambda>r.
        run_bind (v_seek cMemoryStream_io (m_stream r) 0 IO_SEEK_SET) (\<lambda>s.
        run_bind (read_items ?ops c (cRLEcompression_new y s flag) is) (\<lambda>(is', r').
        ok (is', m_data s, cRLEcompression_isEOS cMemoryStream_io r')))))
      (\<lambda>(is', stored, eos). is' = map (item_read c) is \<and> eos \<and> length stored \<le> 2 * length ?bytes)"
    proof (rule yields_bind [OF fl], goal_cases)
      case (1 r1)
      let ?s = "m_stream r1\<lparr>m_filePosition := 0\<rparr>"
      have i: "rle_in cMemoryStream_inv cMemoryStream_rest (cRLEcompression_new y ?s flag)"
        "rle_rest cMemoryStream_rest (cRLEcompression_new y ?s flag) = ?bytes"
        using 1 by (simp_all add: rle_in_def rle_rest_def cRLEcompression_new_def)
      have rd: "yields (read_items ?ops c (cRLEcompression_new y ?s flag) is)
          (got (rle_in cMemoryStream_inv cMemoryStream_rest) (rle_rest cMemoryStream_rest) (map (item_read c) is) [])"
        by (rule rle_mem_in.read_items_got [OF i(1) assms]) (simp add: i(2) little)
      have eos: "cRLEcompression_isEOS cMemoryStream_io r'"
        if "rle_in cMemoryStream_inv cMemoryStream_rest r'" "rle_rest cMemoryStream_rest r' = []" for r'
        using rle_mem_in.eos_law [OF that(1)] that(2) by (simp add: cRLEcompression_io_def cRLEcompression_table_def)
      have "yields (run_bind (read_items ?ops c (cRLEcompression_new y ?s flag) is) (\<lambda>(is', r').
          ok (is', m_data ?s, cRLEcompression_isEOS cMemoryStream_io r')))
        (\<lambda>(is', stored, eos). is' = map (item_read c) is \<and> eos \<and> length stored \<le> 2 * length ?bytes)"
        by (rule got_bind [OF rd]) (use 1 decode_length [of flag "m_data (m_stream r1)"] in \<open>simp add: eos\<close>)
      then show ?case by (simp add: cMemoryStream_io_def)
    qed
  qed
qed

theorem rle_items_witness:
  "list_all (item_ok basicInput_new) [Item8 2, Item32 0, Item8 2] \<and>
   yields
    (run_bind (write_items (cRLEcompression_io cMemoryStream_io) basicInput_new
                 (cRLEcompression_new 0 (cMemoryStream_new_data [] False) 2) [Item8 2, Item32 0, Item8 2]) (\<lambda>r.
     run_bind (cRLEcompression_flush cMemoryStream_io r) (\<lambda>r.
     run_bind (v_seek cMemoryStream_io (m_stream r) 0 IO_SEEK_SET) (\<lambda>s.
     run_bind (read_items (cRLEcompression_io cMemoryStream_io) basicInput_new (cRLEcompression_new 0 s 2)
        [Item8 2, Item32 0, Item8 2]) (\<lambda>(is', r').
     ok (is', m_data s, cRLEcompression_isEOS cMemoryStream_io r'))))))
    (\<lambda>(is', stored, eos). is' = [Item8 2, Item32 0, Item8 2] \<and> eos \<and> length stored \<le> 12)"
  using rle_items [of basicInput_new "[Item8 2, Item32 0, Item8 2]" 0 2 0]
  by (simp add: ordered_def)

text \<open>A seek never returns: it throws whatever it finds.\<close>

lemma rle_seek_throws: "\<not> yields (cRLEcompression_seek ops r distance method) P"
proof -
  have "run_bind m (\<lambda>_. throw e) \<noteq> ok x" for m :: "'b run" and e and x :: 'c
    by (cases m) (auto simp: run_bind_def throw_def ok_def split: sum.splits)
  note t = this
  have b: "\<not> yields (run_bind m f) P" if "\<And>x. \<not> yields (f x) P" for m :: "'b run" and f :: "'b \<Rightarrow> 'c run" and P
    using that by (cases m) (auto simp: run_bind_def throw_def ok_def yields_def split: sum.splits)
  show ?thesis
    unfolding cRLEcompression_seek_def Let_def by (auto intro!: b)
qed

end
