(* ===== verification/XBitStream.thy ===== *)
theory XBitStream
  imports XMemoryStream
begin

text \<open>
  The bit filter of stream/bitStream.cpp over any stream: reading and writing single bits and
  numbers of a given width, and the round trip through a memory file.
\<close>

subsection \<open>The filter\<close>

record 's cBitStream =
  m_stream :: 's
  m_read_byte :: uint8
  m_read_bit_position :: nat
  m_write_byte :: uint8
  m_write_bit_position :: nat

text \<open>The two bytes are not initialised; they hold \<open>x\<close> and \<open>y\<close>.\<close>

definition cBitStream_new :: "uint8 \<Rightarrow> uint8 \<Rightarrow> 's \<Rightarrow> 's cBitStream" where
  "cBitStream_new x y stream =
     \<lparr>m_stream = stream, m_read_byte = x, m_read_bit_position = 8, m_write_byte = y, m_write_bit_position = 0\<rparr>"

definition cBitStream_initVars :: "'s cBitStream \<Rightarrow> 's cBitStream" where
  "cBitStream_initVars b = b\<lparr>m_read_bit_position := 8, m_write_bit_position := 0\<rparr>"

definition cBitStream_flush :: "'s basicIO \<Rightarrow> 's cBitStream \<Rightarrow> 's cBitStream run" where
  "cBitStream_flush ops b =
     run_bind (if m_write_bit_position b > 0 then
                 run_bind (v_write ops (m_stream b) [m_write_byte b]) (\<lambda>(n, s).
                 ok (b\<lparr>m_stream := s, m_write_bit_position := 0\<rparr>))
               else ok b) (\<lambda>b.
     run_bind (v_flush ops (m_stream b)) (\<lambda>s. ok (b\<lparr>m_stream := s\<rparr>)))"

definition cBitStream_length :: "'s basicIO \<Rightarrow> 's cBitStream \<Rightarrow> nat" where
  "cBitStream_length ops b = v_length ops (m_stream b) * 8"

definition cBitStream_getPointer :: "'s basicIO \<Rightarrow> 's cBitStream \<Rightarrow> nat" where
  "cBitStream_getPointer ops b = v_getPointer ops (m_stream b) * 8"

definition cBitStream_isEOS :: "'s basicIO \<Rightarrow> 's cBitStream \<Rightarrow> bool" where
  "cBitStream_isEOS ops b \<longleftrightarrow> v_isEOS ops (m_stream b) \<and> m_read_bit_position b = 8"

text \<open>Each byte of the buffer is one bit.\<close>

definition bit_write :: "'s basicIO \<Rightarrow> 's cBitStream \<Rightarrow> uint8 \<Rightarrow> 's cBitStream run" where
  "bit_write ops b x =
     (let bitmask = push_bit (m_write_bit_position b) 1 :: uint8;
          b = b\<lparr>m_write_byte := if x \<noteq> 0 then m_write_byte b OR push_bit (m_write_bit_position b) 1
                               else m_write_byte b AND (0xFF - bitmask),
                m_write_bit_position := m_write_bit_position b + 1\<rparr>
      in if m_write_bit_position b = 8 then
           run_bind (pipeWrite ops (m_stream b) [m_write_byte b]) (\<lambda>s.
           ok (b\<lparr>m_stream := s, m_write_bit_position := 0\<rparr>))
         else ok b)"

fun bit_write_loop :: "'s basicIO \<Rightarrow> 's cBitStream \<Rightarrow> uint8 list \<Rightarrow> 's cBitStream run" where
  "bit_write_loop ops b [] = ok b"
| "bit_write_loop ops b (x # xs) = run_bind (bit_write ops b x) (\<lambda>b. bit_write_loop ops b xs)"

definition cBitStream_write :: "'s basicIO \<Rightarrow> 's cBitStream \<Rightarrow> uint8 list \<Rightarrow> (nat \<times> 's cBitStream) run" where
  "cBitStream_write ops b buffer = run_bind (bit_write_loop ops b buffer) (\<lambda>b. ok (length buffer, b))"

text \<open>The loop over the places left in the buffer.\<close>

fun cBitStream_read :: "'s basicIO \<Rightarrow> 's cBitStream \<Rightarrow> nat \<Rightarrow> (uint8 list \<times> 's cBitStream) run" where
  "cBitStream_read ops b 0 = ok ([], b)"
| "cBitStream_read ops b (Suc k) =
     run_bind (if m_read_bit_position b = 8 then
                 run_bind (pipeRead ops (m_stream b) 1) (\<lambda>(bs, s).
                 if bs = [] then ok (False, b\<lparr>m_stream := s\<rparr>)
                 else ok (True, b\<lparr>m_stream := s, m_read_byte := hd bs, m_read_bit_position := 0\<rparr>))
               else ok (True, b)) (\<lambda>(more, b).
     if \<not> more then ok ([], b)
     else
       let x = drop_bit (m_read_bit_position b) (m_read_byte b) AND 1;
           b = b\<lparr>m_read_bit_position := m_read_bit_position b + 1\<rparr>
       in run_bind (cBitStream_read ops b k) (\<lambda>(xs, b). ok (x # xs, b)))"

fun readBits_loop :: "'s basicIO \<Rightarrow> 's cBitStream \<Rightarrow> nat \<Rightarrow> nat \<Rightarrow> uint32 \<Rightarrow> (uint32 \<times> 's cBitStream) run" where
  "readBits_loop ops b i 0 readed = ok (readed, b)"
| "readBits_loop ops b i (Suc k) readed =
     run_bind (cBitStream_read ops b 1) (\<lambda>(bs, b).
     if length bs \<noteq> 1 then throw EXCEPTION_READ_ERROR
     else if i \<ge> 32 then throw UNDEFINED_BEHAVIOUR
     else readBits_loop ops b (i + 1) k (readed OR push_bit i (ucast (hd bs))))"

definition cBitStream_readBits :: "'s basicIO \<Rightarrow> 's cBitStream \<Rightarrow> uint8 \<Rightarrow> (uint32 \<times> 's cBitStream) run" where
  "cBitStream_readBits ops b numberOfBits = readBits_loop ops b 0 (unat numberOfBits) 0"

fun writeBits_loop :: "'s basicIO \<Rightarrow> 's cBitStream \<Rightarrow> nat \<Rightarrow> uint32 \<Rightarrow> 's cBitStream run" where
  "writeBits_loop ops b 0 number = ok b"
| "writeBits_loop ops b (Suc k) number =
     run_bind (cBitStream_write ops b [ucast (number AND 1)]) (\<lambda>(written, b).
     if written \<noteq> 1 then throw EXCEPTION_WRITE_ERROR
     else writeBits_loop ops b k (drop_bit 1 number))"

definition cBitStream_writeBits :: "'s basicIO \<Rightarrow> 's cBitStream \<Rightarrow> uint32 \<Rightarrow> uint8 \<Rightarrow> 's cBitStream run" where
  "cBitStream_writeBits ops b number numberOfBits =
     (if numberOfBits > 32 then throw EXCEPTION_FORMAT_ERROR
      else writeBits_loop ops b (unat numberOfBits) number)"

text \<open>
  The byte and the bit of a position; the remainder of a negative distance is negative, and as a
  \<open>uint8\<close> it is a number of bits that \<open>readBits\<close> cannot shift by.
\<close>

definition cBitStream_seek :: "'s basicIO \<Rightarrow> 's cBitStream \<Rightarrow> uint32 \<Rightarrow> seekMethod \<Rightarrow> 's cBitStream run" where
  "cBitStream_seek ops b distance method =
     (if \<not> canSeek (canSeekFromBegin ops) (canSeekForward ops) (canSeekBackward ops) (canSeekFromEnd ops)
           distance method then throw EXCEPTION_SEEK_ERROR
      else
        run_bind (cBitStream_flush ops b) (\<lambda>b.
        let bytesSeek = word_of_int (sgn (sint distance) * (\<bar>sint distance\<bar> div 8)) :: uint32;
            bitsSeek = word_of_int (sgn (sint distance) * (\<bar>sint distance\<bar> mod 8)) :: uint8;
            b = cBitStream_initVars b
        in run_bind (v_seek ops (m_stream b) bytesSeek method) (\<lambda>s.
           run_bind (cBitStream_readBits ops (b\<lparr>m_stream := s\<rparr>) bitsSeek) (\<lambda>(readed, b). ok b))))"

definition cBitStream_io :: "'s basicIO \<Rightarrow> 's cBitStream basicIO" where
  "cBitStream_io ops =
     \<lparr>v_read = cBitStream_read ops, v_write = cBitStream_write ops, v_flush = cBitStream_flush ops,
      v_isEOS = cBitStream_isEOS ops, v_seek = cBitStream_seek ops, v_length = cBitStream_length ops,
      v_getPointer = cBitStream_getPointer ops,
      v_getPipeReadBestRequest = v_getPipeReadBestRequest ops, v_isLittleEndian = v_isLittleEndian ops,
      canLength = canLength ops, canSeekFromBegin = canSeekFromBegin ops, canSeekForward = canSeekForward ops,
      canSeekBackward = canSeekBackward ops, canSeekFromEnd = canSeekFromEnd ops, canGetPointer = canGetPointer ops\<rparr>"

subsection \<open>Reading\<close>

definition bits_of :: "uint8 \<Rightarrow> uint8 list" where
  "bits_of x = map (\<lambda>i. drop_bit i x AND 1) [0..<8]"

definition bits_in :: "('s \<Rightarrow> bool) \<Rightarrow> 's cBitStream \<Rightarrow> bool" where
  "bits_in valid b \<longleftrightarrow> valid (m_stream b) \<and> m_read_bit_position b \<le> 8"

definition bits_rest :: "('s \<Rightarrow> uint8 list) \<Rightarrow> 's cBitStream \<Rightarrow> uint8 list" where
  "bits_rest rest b = drop (m_read_bit_position b) (bits_of (m_read_byte b)) @ concat (map bits_of (rest (m_stream b)))"

lemma length_bits_of [simp]: "length (bits_of x) = 8"
  by (simp add: bits_of_def)

lemma drop_bits_of:
  "i < 8 \<Longrightarrow> drop i (bits_of x) = (drop_bit i x AND 1) # drop (Suc i) (bits_of x)"
  by (simp add: bits_of_def Cons_nth_drop_Suc [symmetric])

lemma concat_bits_Nil: "concat (map bits_of xs) = [] \<longleftrightarrow> xs = []"
proof (cases xs)
  case (Cons x xs)
  have "bits_of x \<noteq> []" using length_bits_of [of x] by (metis list.size(3) zero_neq_numeral)
  then show ?thesis using Cons by simp
qed simp

context input_stream
begin

lemma bit_read_takes:
  "bits_in valid b \<Longrightarrow>
     yields (cBitStream_read ops b n)
       (got (bits_in valid) (bits_rest rest) (take n (bits_rest rest b)) (drop n (bits_rest rest b)))"
proof (induction n arbitrary: b)
  case (Suc k)
  have v: "valid (m_stream b)" using Suc.prems by (simp add: bits_in_def)
  have step: "yields (let x = drop_bit (m_read_bit_position b1) (m_read_byte b1) AND 1;
           b = b1\<lparr>m_read_bit_position := m_read_bit_position b1 + 1\<rparr>
       in run_bind (cBitStream_read ops b k) (\<lambda>(xs, b). ok (x # xs, b)))
      (got (bits_in valid) (bits_rest rest) (take (Suc k) (bits_rest rest b)) (drop (Suc k) (bits_rest rest b)))"
    if b1: "valid (m_stream b1)" "m_read_bit_position b1 < 8" "bits_rest rest b1 = bits_rest rest b" for b1
  proof -
    let ?b = "b1\<lparr>m_read_bit_position := m_read_bit_position b1 + 1\<rparr>"
    have "bits_rest rest b1 = (drop_bit (m_read_bit_position b1) (m_read_byte b1) AND 1) # bits_rest rest ?b"
      using b1(2) by (simp add: bits_rest_def drop_bits_of)
    moreover have "bits_in valid ?b" using b1 by (simp add: bits_in_def)
    ultimately show ?thesis
      using b1(3) by (simp add: Let_def) (rule got_bind [OF Suc.IH], auto)
  qed
  show ?case
  proof (cases "m_read_bit_position b = 8")
    case False
    then have "m_read_bit_position b < 8" using Suc.prems by (simp add: bits_in_def)
    then show ?thesis using step [of b] v False by simp
  next
    case True
    have r: "bits_rest rest b = concat (map bits_of (rest (m_stream b)))" using True by (simp add: bits_rest_def)
    let ?next = "run_bind (pipeRead ops (m_stream b) 1) (\<lambda>(bs, s).
       if bs = [] then ok (False, b\<lparr>m_stream := s\<rparr>)
       else ok (True, b\<lparr>m_stream := s, m_read_byte := hd bs, m_read_bit_position := 0\<rparr>))"
    show ?thesis
    proof (cases "rest (m_stream b)")
      case Nil
      have "yields ?next (\<lambda>y. \<not> fst y \<and> bits_in valid (snd y) \<and> bits_rest rest (snd y) = [])"
        by (rule got_bind [OF pipeRead_takes [OF v, of 1]]) (use Nil True in \<open>simp add: bits_in_def bits_rest_def\<close>)
      then show ?thesis
        unfolding cBitStream_read.simps if_P [OF True] by (rule yields_bind) (auto simp: r Nil)
    next
      case (Cons x xs)
      have "yields ?next (\<lambda>y. fst y \<and> valid (m_stream (snd y)) \<and> m_read_bit_position (snd y) = 0 \<and>
          bits_rest rest (snd y) = bits_rest rest b)"
        by (rule got_bind [OF pipeRead_takes [OF v, of 1]]) (use Cons r in \<open>simp add: bits_rest_def\<close>)
      then show ?thesis
        unfolding cBitStream_read.simps if_P [OF True]
      proof (rule yields_bind, goal_cases)
        case (1 y)
        then show ?case using step [of "snd y"] by (simp add: case_prod_unfold)
      qed
    qed
  qed
qed simp

lemma bit_input: "input_stream (cBitStream_io ops) (bits_in valid) (bits_rest rest)"
proof
  show "0 < v_getPipeReadBestRequest (cBitStream_io ops)" using best by (simp add: cBitStream_io_def)
next
  fix b :: "'s cBitStream" and n :: nat
  assume "bits_in valid b" "0 < n"
  then show "\<exists>m \<le> n. (bits_rest rest b \<noteq> [] \<longrightarrow> 0 < m) \<and>
      yields (v_read (cBitStream_io ops) b n)
        (got (bits_in valid) (bits_rest rest) (take m (bits_rest rest b)) (drop m (bits_rest rest b)))"
    using bit_read_takes [of b n] by (intro exI [of _ n]) (simp add: cBitStream_io_def)
next
  fix b :: "'s cBitStream"
  assume b: "bits_in valid b"
  have v: "v_isEOS ops (m_stream b) \<longleftrightarrow> rest (m_stream b) = []"
    using b eos_law by (simp add: bits_in_def)
  have p: "drop (m_read_bit_position b) (bits_of (m_read_byte b)) = [] \<longleftrightarrow> m_read_bit_position b = 8"
    using b by (auto simp: bits_in_def)
  show "v_isEOS (cBitStream_io ops) b \<longleftrightarrow> bits_rest rest b = []"
    by (simp add: cBitStream_io_def cBitStream_isEOS_def bits_rest_def v p concat_bits_Nil del: concat_eq_Nil_conv drop_eq_Nil)
       blast
qed

end

subsection \<open>Writing\<close>

lemma bits_of_bit: "bits_of x = map (\<lambda>i. of_bool (bit x i)) [0..<8]"
  by (simp add: bits_of_def and_one_eq bit_iff_odd_drop_bit odd_iff_mod_2_eq_one)

definition bits_sink :: "('s \<Rightarrow> bool) \<Rightarrow> 's cBitStream \<Rightarrow> bool" where
  "bits_sink valid b \<longleftrightarrow> valid (m_stream b) \<and> m_write_bit_position b < 8"

definition bits_written :: "('s \<Rightarrow> uint8 list) \<Rightarrow> 's cBitStream \<Rightarrow> uint8 list" where
  "bits_written out b =
     concat (map bits_of (out (m_stream b))) @ take (m_write_bit_position b) (bits_of (m_write_byte b))"

text \<open>The bits of a number, the lowest first, and the number that they make at place \<open>i\<close>.\<close>

definition number_bits :: "nat \<Rightarrow> uint32 \<Rightarrow> uint8 list" where
  "number_bits k n = map (\<lambda>i. of_bool (bit n i)) [0..<k]"

fun bits_number :: "nat \<Rightarrow> uint8 list \<Rightarrow> uint32" where
  "bits_number i [] = 0"
| "bits_number i (x # xs) = push_bit i (ucast x) OR bits_number (i + 1) xs"

lemma number_bits_Suc: "number_bits (Suc k) n = of_bool (bit n 0) # number_bits k (drop_bit 1 n)"
  by (simp add: number_bits_def upt_conv_Cons map_Suc_upt [symmetric] bit_simps del: upt_Suc)

lemma length_number_bits [simp]: "length (number_bits k n) = k"
  by (simp add: number_bits_def)

lemma bits_number_bits: "bits_number i (number_bits k n) = push_bit i (take_bit k n)"
proof (induction k arbitrary: i n)
  case (Suc k)
  show ?case
    unfolding number_bits_Suc bits_number.simps Suc.IH
  proof (rule bit_word_eqI)
    fix m assume m: "m < LENGTH(32)"
    consider "m < i" | "m = i" | "i < m" by linarith
    then show "bit (push_bit i (ucast (of_bool (bit n 0) :: uint8)) OR push_bit (i + 1) (take_bit k (drop_bit 1 n))) m =
        bit (push_bit i (take_bit (Suc k) n)) m"
      by cases (use m in \<open>auto simp: bit_simps Suc_diff_Suc simp del: push_bit_Suc\<close>)
  qed
qed (simp add: number_bits_def)

lemma set_bit_bits:
  assumes "p < 8"
  shows "take (Suc p) (bits_of (if v then w OR push_bit p 1 else w AND (0xFF - push_bit p 1))) =
     take p (bits_of w) @ [of_bool v]"
proof -
  have m: "0xFF - push_bit p 1 = (NOT (push_bit p 1) :: uint8)" by (simp add: not_eq_complement)
  show ?thesis
    unfolding m using assms
    by (intro nth_equalityI) (auto simp: bits_of_bit nth_append bit_simps less_Suc_eq)
qed

context output_stream
begin

lemma bit_write_sink:
  assumes "bits_sink valid b"
  shows "yields (bit_write ops b x)
    (put (bits_sink valid) (bits_written out) (bits_written out b @ [of_bool (x \<noteq> 0)]))"
proof -
  let ?p = "m_write_bit_position b"
  let ?w = "if x \<noteq> 0 then m_write_byte b OR push_bit ?p 1 else m_write_byte b AND (0xFF - push_bit ?p 1)"
  have v: "valid (m_stream b)" and p: "?p < 8" using assms by (auto simp: bits_sink_def)
  have t: "take (Suc ?p) (bits_of ?w) = take ?p (bits_of (m_write_byte b)) @ [of_bool (x \<noteq> 0)]"
    by (rule set_bit_bits [OF p])
  obtain w where w: "?w = w" by simp
  have step: "bit_write ops b x =
     (if Suc ?p = 8 then
        run_bind (pipeWrite ops (m_stream b) [w]) (\<lambda>s.
        ok (b\<lparr>m_write_byte := w, m_stream := s, m_write_bit_position := 0\<rparr>))
      else ok (b\<lparr>m_write_byte := w, m_write_bit_position := Suc ?p\<rparr>))"
    by (simp add: bit_write_def Let_def w [symmetric])
  show ?thesis
  proof (cases "Suc ?p = 8")
    case True
    then have "bits_of w = take ?p (bits_of (m_write_byte b)) @ [of_bool (x \<noteq> 0)]"
      using t unfolding w by simp
    then show ?thesis
      unfolding step if_P [OF True]
      by (intro yields_bind [OF pipeWrite_puts [OF v]]) (simp add: put_def bits_sink_def bits_written_def)
  next
    case False
    then show ?thesis
      using v p t unfolding step w by (simp add: put_def bits_sink_def bits_written_def)
  qed
qed

lemma bit_write_loop_sink:
  "bits_sink valid b \<Longrightarrow> yields (bit_write_loop ops b xs)
     (put (bits_sink valid) (bits_written out) (bits_written out b @ map (\<lambda>x. of_bool (x \<noteq> 0)) xs))"
proof (induction xs arbitrary: b)
  case (Cons x xs)
  show ?case
    unfolding bit_write_loop.simps
  proof (rule yields_bind [OF bit_write_sink [OF Cons.prems]], goal_cases)
    case (1 b1)
    then show ?case using Cons.IH [of b1] by (simp add: put_def)
  qed
qed (simp add: put_def)

lemma writeBits_loop_sink:
  "bits_sink valid b \<Longrightarrow> yields (writeBits_loop ops b k n)
     (put (bits_sink valid) (bits_written out) (bits_written out b @ number_bits k n))"
proof (induction k arbitrary: b n)
  case 0
  then show ?case by (simp add: put_def number_bits_def)
next
  case (Suc k)
  let ?x = "ucast (n AND 1) :: uint8"
  have "n AND 1 = of_bool (bit n 0)" by (rule bit_word_eqI) (auto simp: bit_simps)
  then have x: "(?x \<noteq> 0) = bit n 0" by simp
  have "yields (cBitStream_write ops b [?x])
     (\<lambda>y. fst y = 1 \<and> put (bits_sink valid) (bits_written out) (bits_written out b @ [of_bool (bit n 0)]) (snd y))"
    unfolding cBitStream_write_def
    by (rule yields_bind [OF bit_write_loop_sink [OF Suc.prems]]) (simp add: x)
  then show ?case
    unfolding writeBits_loop.simps
  proof (rule yields_bind, goal_cases)
    case (1 y)
    then show ?case using Suc.IH [of "snd y" "drop_bit 1 n"]
      by (simp add: case_prod_unfold put_def number_bits_Suc)
  qed
qed

end

context input_stream
begin

lemma readBits_loop_got:
  "bits_in valid b \<Longrightarrow> bits_rest rest b = xs @ r \<Longrightarrow> length xs = k \<Longrightarrow> i + k \<le> 32 \<Longrightarrow>
     yields (readBits_loop ops b i k readed) (got (bits_in valid) (bits_rest rest) (readed OR bits_number i xs) r)"
proof (induction xs arbitrary: b i k readed)
  case (Cons x xs)
  then obtain k' where k: "k = Suc k'" by (cases k) auto
  have m: "yields (cBitStream_read ops b 1) (got (bits_in valid) (bits_rest rest) [x] (xs @ r))"
    using bit_read_takes [OF Cons.prems(1), of 1] Cons.prems by simp
  show ?case
    unfolding k readBits_loop.simps
  proof (rule got_bind [OF m], goal_cases)
    case (1 b1)
    then show ?case
      using Cons.IH [of b1 k' "i + 1" "readed OR push_bit i (ucast x)"] Cons.prems k by (simp add: or.assoc)
  qed
qed simp

end

fun write_numbers :: "'s basicIO \<Rightarrow> 's cBitStream \<Rightarrow> (uint32 \<times> uint8) list \<Rightarrow> 's cBitStream run" where
  "write_numbers ops b [] = ok b"
| "write_numbers ops b ((n, w) # ps) = run_bind (cBitStream_writeBits ops b n w) (\<lambda>b. write_numbers ops b ps)"

fun read_numbers :: "'s basicIO \<Rightarrow> 's cBitStream \<Rightarrow> uint8 list \<Rightarrow> (uint32 list \<times> 's cBitStream) run" where
  "read_numbers ops b [] = ok ([], b)"
| "read_numbers ops b (w # ws) =
     run_bind (cBitStream_readBits ops b w) (\<lambda>(n, b).
     run_bind (read_numbers ops b ws) (\<lambda>(ns, b). ok (n # ns, b)))"

definition all_bits :: "(uint32 \<times> uint8) list \<Rightarrow> uint8 list" where
  "all_bits ps = concat (map (\<lambda>(n, w). number_bits (unat w) n) ps)"

context output_stream
begin

lemma write_numbers_sink:
  "bits_sink valid b \<Longrightarrow> list_all (\<lambda>(n, w). w \<le> 32) ps \<Longrightarrow>
     yields (write_numbers ops b ps) (put (bits_sink valid) (bits_written out) (bits_written out b @ all_bits ps))"
proof (induction ps arbitrary: b)
  case (Cons p ps)
  obtain n w where p: "p = (n, w)" by (cases p)
  have "yields (cBitStream_writeBits ops b n w)
      (put (bits_sink valid) (bits_written out) (bits_written out b @ number_bits (unat w) n))"
    using writeBits_loop_sink [OF Cons.prems(1)] Cons.prems(2) by (simp add: cBitStream_writeBits_def p not_less)
  then show ?case
    unfolding p write_numbers.simps
  proof (rule yields_bind, goal_cases)
    case (1 b1)
    then show ?case using Cons.IH [of b1] Cons.prems by (simp add: put_def all_bits_def)
  qed
qed (simp add: put_def all_bits_def)

text \<open>The flush stores the bits of the last byte, and bits that fill it up.\<close>

lemma bit_flush_stores:
  assumes "bits_sink valid b"
  shows "yields (if m_write_bit_position b > 0 then
                   run_bind (v_write ops (m_stream b) [m_write_byte b]) (\<lambda>(n, s).
                   ok (b\<lparr>m_stream := s, m_write_bit_position := 0\<rparr>))
                 else ok b)
    (\<lambda>b'. valid (m_stream b') \<and>
       (\<exists>pad. length pad < 8 \<and> concat (map bits_of (out (m_stream b'))) = bits_written out b @ pad))"
proof (cases "m_write_bit_position b > 0")
  case True
  have v: "valid (m_stream b)" using assms by (simp add: bits_sink_def)
  obtain s where s: "v_write ops (m_stream b) [m_write_byte b] = ok (1, s)" "valid s"
    "out s = out (m_stream b) @ [m_write_byte b]"
    using write_law [OF v, of "[m_write_byte b]"] by (force simp: yields_def put_def le_Suc_eq)
  have "bits_of (m_write_byte b) =
      take (m_write_bit_position b) (bits_of (m_write_byte b)) @ drop (m_write_bit_position b) (bits_of (m_write_byte b))"
    by simp
  then show ?thesis
    using True s by (auto simp: bits_written_def intro!: exI [of _ "drop (m_write_bit_position b) (bits_of (m_write_byte b))"])
next
  case False
  then show ?thesis using assms by (auto simp: bits_sink_def bits_written_def)
qed

end

context input_stream
begin

lemma read_numbers_got:
  "bits_in valid b \<Longrightarrow> bits_rest rest b = all_bits ps @ r \<Longrightarrow> list_all (\<lambda>(n, w). w \<le> 32) ps \<Longrightarrow>
     yields (read_numbers ops b (map snd ps))
       (got (bits_in valid) (bits_rest rest) (map (\<lambda>(n, w). take_bit (unat w) n) ps) r)"
proof (induction ps arbitrary: b)
  case (Cons p ps)
  obtain n w where p: "p = (n, w)" by (cases p)
  have "unat w \<le> 32" using Cons.prems(3) by (simp add: p word_le_nat_alt)
  then have m: "yields (cBitStream_readBits ops b w) (got (bits_in valid) (bits_rest rest) (take_bit (unat w) n) (all_bits ps @ r))"
    using readBits_loop_got [OF Cons.prems(1), of "number_bits (unat w) n" "all_bits ps @ r" "unat w" 0 0] Cons.prems(2)
    by (simp add: cBitStream_readBits_def p all_bits_def bits_number_bits)
  show ?case
    unfolding p list.map snd_conv read_numbers.simps
  proof (rule got_bind [OF m], goal_cases)
    case (1 b1)
    have "yields (read_numbers ops b1 (map snd ps))
       (got (bits_in valid) (bits_rest rest) (map (\<lambda>(n, w). take_bit (unat w) n) ps) r)"
      using 1 Cons.prems by (intro Cons.IH) auto
    from got_bind [OF this, of "\<lambda>(ns, b). ok (take_bit (unat w) n # ns, b)"]
    show ?case by simp
  qed
qed (simp add: all_bits_def)

end

interpretation bit_mem_in: input_stream "cBitStream_io cMemoryStream_io"
  "bits_in cMemoryStream_inv" "bits_rest cMemoryStream_rest"
  by (rule mem_in.bit_input)

text \<open>
  C23: numbers of at most 32 bits, each written with its own width through the bit filter to a
  memory file and flushed, are read back with the same widths by a new filter over the file: all
  calls return, each number comes back with the bits of its width, and the file has no more bytes
  than the bits fill.
\<close>

theorem bits_roundtrip:
  assumes "list_all (\<lambda>(n, w). w \<le> 32) ps"
  shows "yields
    (run_bind (write_numbers cMemoryStream_io (cBitStream_new x y (cMemoryStream_new_data [] False)) ps) (\<lambda>b.
     run_bind (cBitStream_flush cMemoryStream_io b) (\<lambda>b.
     run_bind (v_seek cMemoryStream_io (m_stream b) 0 IO_SEEK_SET) (\<lambda>s.
     run_bind (read_numbers cMemoryStream_io (cBitStream_new x' y' s) (map snd ps)) (\<lambda>(ns, b).
     ok (ns, length (m_data s)))))))
    (\<lambda>(ns, len). ns = map (\<lambda>(n, w). take_bit (unat w) n) ps \<and>
                 len = (sum_list (map (unat \<circ> snd) ps) + 7) div 8)"
proof -
  let ?b = "cBitStream_new x y (cMemoryStream_new_data [] False)" and ?io = cMemoryStream_io
  have new: "bits_sink cMemoryStream_atEnd ?b" "bits_written m_data ?b = []"
    by (simp_all add: bits_sink_def bits_written_def cBitStream_new_def cMemoryStream_atEnd_def cMemoryStream_new_data_def)
  have total: "length (all_bits ps) = sum_list (map (unat \<circ> snd) ps)"
    by (induction ps) (auto simp: all_bits_def)
  have len: "length (concat (map bits_of xs)) = 8 * length xs" for xs
    by (induction xs) simp_all
  show ?thesis
  proof (rule yields_bind [OF mem_append.write_numbers_sink [OF new(1) assms]])
    fix b assume "put (bits_sink cMemoryStream_atEnd) (bits_written m_data) (bits_written m_data ?b @ all_bits ps) b"
    then have b: "bits_sink cMemoryStream_atEnd b" "bits_written m_data b = all_bits ps" by (auto simp: put_def new)
    have fl: "yields (cBitStream_flush ?io b)
        (\<lambda>b'. \<exists>pad. length pad < 8 \<and> concat (map bits_of (m_data (m_stream b'))) = all_bits ps @ pad)"
      unfolding cBitStream_flush_def
      by (rule yields_bind [OF mem_append.bit_flush_stores [OF b(1)]])
         (auto simp: b(2) cMemoryStream_io_def cMemoryStream_flush_def)
    show "yields (run_bind (cBitStream_flush ?io b) (\<lambda>b.
        run_bind (v_seek ?io (m_stream b) 0 IO_SEEK_SET) (\<lambda>s.
        run_bind (read_numbers ?io (cBitStream_new x' y' s) (map snd ps)) (\<lambda>(ns, b). ok (ns, length (m_data s))))))
      (\<lambda>(ns, len). ns = map (\<lambda>(n, w). take_bit (unat w) n) ps \<and> len = (sum_list (map (unat \<circ> snd) ps) + 7) div 8)"
    proof (rule yields_bind [OF fl], goal_cases)
      case (1 b1)
      then obtain pad where pad: "length pad < 8" "concat (map bits_of (m_data (m_stream b1))) = all_bits ps @ pad"
        by blast
      let ?s = "m_stream b1\<lparr>m_filePosition := 0\<rparr>"
      have "8 * length (m_data (m_stream b1)) = sum_list (map (unat \<circ> snd) ps) + length pad"
        using arg_cong [OF pad(2), of length] len [of "m_data (m_stream b1)"] total by (simp del: length_concat)
      then have l: "length (m_data ?s) = (sum_list (map (unat \<circ> snd) ps) + 7) div 8" using pad(1) by simp
      have i: "bits_in cMemoryStream_inv (cBitStream_new x' y' ?s)"
        "bits_rest cMemoryStream_rest (cBitStream_new x' y' ?s) = all_bits ps @ pad"
        by (simp_all add: bits_in_def bits_rest_def cBitStream_new_def pad(2))
      have "yields (run_bind (read_numbers ?io (cBitStream_new x' y' ?s) (map snd ps)) (\<lambda>(ns, b). ok (ns, length (m_data ?s))))
        (\<lambda>(ns, len). ns = map (\<lambda>(n, w). take_bit (unat w) n) ps \<and> len = (sum_list (map (unat \<circ> snd) ps) + 7) div 8)"
        by (rule got_bind [OF mem_in.read_numbers_got [OF i assms]]) (simp add: l [simplified])
      then show ?case by (simp add: cMemoryStream_io_def)
    qed
  qed
qed

theorem bits_roundtrip_witness:
  "list_all (\<lambda>(n, w). w \<le> 32) [(5 :: uint32, 3 :: uint8), (0x1FF, 8), (1, 32)] \<and>
   yields
    (run_bind (write_numbers cMemoryStream_io (cBitStream_new 7 9 (cMemoryStream_new_data [] False)) [(5, 3), (0x1FF, 8), (1, 32)]) (\<lambda>b.
     run_bind (cBitStream_flush cMemoryStream_io b) (\<lambda>b.
     run_bind (v_seek cMemoryStream_io (m_stream b) 0 IO_SEEK_SET) (\<lambda>s.
     run_bind (read_numbers cMemoryStream_io (cBitStream_new 0 0 s) [3, 8, 32]) (\<lambda>(ns, b).
     ok (ns, length (m_data s)))))))
    (\<lambda>(ns, len). ns = [5, 0xFF, 1] \<and> len = 6)"
  using bits_roundtrip [of "[(5, 3), (0x1FF, 8), (1, 32)]" 7 9 0 0]
  by (simp add: take_bit_word_eq_self take_bit_eq_mod)

end
