(* ===== verification/XLzw.thy ===== *)
theory XLzw
  imports XBitStream
begin

text \<open>
  The LZW filter of stream/lzw.cpp over any stream: the encoder, the decoder and the round trip
  through a memory file.
\<close>

subsection \<open>The filter\<close>

text \<open>
  Codes, the entries of the table and their number are natural numbers: they have 32 bits in the
  code, which a table of two thousand million entries would pass. Members that the constructor
  leaves alone hold \<open>junk\<close>.
\<close>

record 's cLZWcompression =
  m_bit_stream :: "'s cBitStream"
  m_bitSize :: nat
  m_table :: "(nat \<times> nat) list"
  m_readed_codes :: "nat list"
  start_opcodes :: nat
  m_write_prefix :: nat
  m_write_suffix :: nat
  m_first_write :: bool
  m_first_read :: bool
  m_is_eof :: bool
  m_io_bits :: nat
  m_read_prefix :: nat
  m_read_suffix :: nat

definition cLZWcompression_new :: "uint8 \<Rightarrow> uint8 \<Rightarrow> nat \<Rightarrow> 's \<Rightarrow> uint8 \<Rightarrow> 's cLZWcompression run" where
  "cLZWcompression_new x y junk stream bitSize =
     (if bitSize > 8 then throw EXCEPTION_FORMAT_ERROR
      else
        ok \<lparr>m_bit_stream = cBitStream_new x y stream, m_bitSize = unat bitSize, m_table = [],
            m_readed_codes = [], start_opcodes = 2 ^ unat bitSize + 2, m_write_prefix = junk,
            m_write_suffix = junk, m_first_write = True, m_first_read = True, m_is_eof = False,
            m_io_bits = unat bitSize + 1, m_read_prefix = junk, m_read_suffix = junk\<rparr>)"

definition lzw_put :: "'s basicIO \<Rightarrow> 's cLZWcompression \<Rightarrow> nat \<Rightarrow> 's cLZWcompression run" where
  "lzw_put ops z code =
     run_bind (cBitStream_writeBits ops (m_bit_stream z) (of_nat code) (of_nat (m_io_bits z))) (\<lambda>b.
     ok (z\<lparr>m_bit_stream := b\<rparr>))"

definition cLZWcompression_initNewStream :: "'s basicIO \<Rightarrow> 's cLZWcompression \<Rightarrow> 's cLZWcompression run" where
  "cLZWcompression_initNewStream ops z =
     run_bind (lzw_put ops z (2 ^ m_bitSize z)) (\<lambda>z.
     ok (z\<lparr>m_io_bits := m_bitSize z + 1, m_first_write := True, m_table := []\<rparr>))"

definition cLZWcompression_closeNewStream :: "'s basicIO \<Rightarrow> 's cLZWcompression \<Rightarrow> 's cLZWcompression run" where
  "cLZWcompression_closeNewStream ops z = lzw_put ops z (2 ^ m_bitSize z + 1)"

subsection \<open>Writing\<close>

text \<open>The search of the table: the place of the first entry, or its size.\<close>

fun lzw_search :: "nat \<times> nat \<Rightarrow> (nat \<times> nat) list \<Rightarrow> nat" where
  "lzw_search e [] = 0"
| "lzw_search e (x # xs) = (if x = e then 0 else Suc (lzw_search e xs))"

definition lzw_symbol :: "'s basicIO \<Rightarrow> 's cLZWcompression \<Rightarrow> nat \<Rightarrow> 's cLZWcompression run" where
  "lzw_symbol ops z opcode =
     (let z = z\<lparr>m_write_suffix := opcode\<rparr>;
          pcode = lzw_search (m_write_prefix z, m_write_suffix z) (m_table z);
          found = (pcode < length (m_table z))
      in if \<not> found then
           run_bind (lzw_put ops z (m_write_prefix z)) (\<lambda>z.
           let lpos = length (m_table z);
               z = (if lpos + start_opcodes z = 2 ^ m_io_bits z then z\<lparr>m_io_bits := m_io_bits z + 1\<rparr> else z)
           in ok (z\<lparr>m_table := m_table z @ [(m_write_prefix z, m_write_suffix z)],
                    m_write_prefix := m_write_suffix z\<rparr>))
         else ok (z\<lparr>m_write_prefix := pcode + start_opcodes z\<rparr>))"

fun lzw_write_loop ::
    "'s basicIO \<Rightarrow> nat \<Rightarrow> cMemoryStream cBitStream \<Rightarrow> 's cLZWcompression \<Rightarrow> 's cLZWcompression run" where
  "lzw_write_loop ops 0 input_bitstream z = ok z"
| "lzw_write_loop ops (Suc k) input_bitstream z =
     run_bind (cBitStream_readBits cMemoryStream_io input_bitstream (of_nat (m_bitSize z))) (\<lambda>(opcode, input_bitstream).
     run_bind (lzw_symbol ops z (unat opcode)) (\<lambda>z.
     lzw_write_loop ops k input_bitstream z))"

text \<open>The number of digits is an \<open>unsigned int\<close>; one less than it is the number of rounds.\<close>

definition cLZWcompression_write ::
    "uint8 \<Rightarrow> uint8 \<Rightarrow> 's basicIO \<Rightarrow> 's cLZWcompression \<Rightarrow> uint8 list \<Rightarrow> (nat \<times> 's cLZWcompression) run" where
  "cLZWcompression_write x y ops z buffer =
     (if length buffer = 0 then ok (0, z)
      else if m_bitSize z = 0 then throw UNDEFINED_BEHAVIOUR
      else
        let input_bitstream = cBitStream_new x y (cMemoryStream_new_data buffer True);
            number_of_digits = (length buffer * 8 div m_bitSize z) mod 2 ^ 32
        in run_bind (if m_first_write z then
                       run_bind (cBitStream_readBits cMemoryStream_io input_bitstream (of_nat (m_bitSize z))) (\<lambda>(n, b).
                       ok (b, z\<lparr>m_write_prefix := unat n, m_write_suffix := unat n, m_first_write := False\<rparr>))
                     else ok (input_bitstream, z)) (\<lambda>(input_bitstream, z).
           run_bind (lzw_write_loop ops ((number_of_digits + (2 ^ 32 - 1)) mod 2 ^ 32) input_bitstream z) (\<lambda>z.
           ok (length buffer, z))))"

definition cLZWcompression_flush :: "'s basicIO \<Rightarrow> 's cLZWcompression \<Rightarrow> 's cLZWcompression run" where
  "cLZWcompression_flush ops z =
     run_bind (if \<not> m_first_write z then
                 run_bind (lzw_put ops z (m_write_prefix z)) (\<lambda>z.
                 run_bind (cBitStream_flush ops (m_bit_stream z)) (\<lambda>b.
                 ok (z\<lparr>m_bit_stream := b, m_first_write := True\<rparr>)))
               else ok z) (\<lambda>z.
     run_bind (v_flush ops (m_stream (m_bit_stream z))) (\<lambda>s.
     ok (z\<lparr>m_bit_stream := (m_bit_stream z)\<lparr>m_stream := s\<rparr>\<rparr>)))"

subsection \<open>Reading\<close>

text \<open>
  The decoder writes its symbols to a bit stream over a memory file of the size of the buffer.
  An exception of that stream would keep the code for the next call; \<open>writeBits\<close> throws before
  it changes anything.
\<close>

type_synonym pipe = "cMemoryStream cBitStream"

definition lzw_emit :: "'s cLZWcompression \<Rightarrow> nat \<Rightarrow> pipe \<Rightarrow> (bool \<times> 's cLZWcompression \<times> pipe) run" where
  "lzw_emit z code stream =
     (case cBitStream_writeBits cMemoryStream_io stream (of_nat code) (of_nat (m_bitSize z)) of
        None \<Rightarrow> None
      | Some (Inl e) \<Rightarrow> ok (False, z\<lparr>m_readed_codes := m_readed_codes z @ [code]\<rparr>, stream)
      | Some (Inr stream) \<Rightarrow> ok (True, z, stream))"

definition lzw_entry :: "'s cLZWcompression \<Rightarrow> nat \<Rightarrow> (nat \<times> nat) run" where
  "lzw_entry z pcode =
     (if pcode - start_opcodes z < length (m_table z) then ok (m_table z ! (pcode - start_opcodes z))
      else throw EXCEPTION_OUT_OF_RANGE)"

partial_function (option) cLZWcompression_writeString ::
    "'s cLZWcompression \<Rightarrow> nat \<Rightarrow> pipe \<Rightarrow> (bool \<times> 's cLZWcompression \<times> pipe) run" where
  "cLZWcompression_writeString z pcode stream =
     (if pcode \<ge> start_opcodes z then
        run_bind (lzw_entry z pcode) (\<lambda>e.
        run_bind (cLZWcompression_writeString z (fst e) stream) (\<lambda>r.
        lzw_emit (fst (snd r)) (snd e) (snd (snd r))))
      else lzw_emit z pcode stream)"

text \<open>The first symbol of a code.\<close>

partial_function (option) lzw_first :: "'s cLZWcompression \<Rightarrow> nat \<Rightarrow> nat run" where
  "lzw_first z kpak =
     (if kpak \<ge> start_opcodes z then run_bind (lzw_entry z kpak) (\<lambda>e. lzw_first z (fst e))
      else ok kpak)"

definition cLZWcompression_copyStream :: "pipe \<Rightarrow> uint8 list" where
  "cLZWcompression_copyStream bits_pipe =
     take (cMemoryStream_getPointer (m_stream bits_pipe)) (m_data (m_stream bits_pipe))"

text \<open>
  A new entry with the prefix that was read before; its value is the first symbol of the code,
  which is looked up in the table that already has the entry with its prefix.
\<close>

definition lzw_add :: "'s cLZWcompression \<Rightarrow> nat \<Rightarrow> 's cLZWcompression run" where
  "lzw_add z next_entry =
     (let z = z\<lparr>m_read_suffix := next_entry\<rparr>;
          lpos = length (m_table z);
          z = (if lpos + start_opcodes z + 1 = 2 ^ m_io_bits z then z\<lparr>m_io_bits := m_io_bits z + 1\<rparr> else z);
          z' = z\<lparr>m_table := m_table z @ [(m_read_prefix z, 0)]\<rparr>
      in run_bind (lzw_first z' next_entry) (\<lambda>kpak.
         ok (z\<lparr>m_table := m_table z @ [(m_read_prefix z, kpak)], m_read_prefix := next_entry\<rparr>)))"

text \<open>
  One code of \<open>read\<close>: the filter, the pipe, and what \<open>read\<close> returns when it ends with it. The
  flag \<open>handled\<close> says that the table needs no new entry.
\<close>

definition lzw_learn :: "'s cLZWcompression \<Rightarrow> nat \<Rightarrow> bool \<Rightarrow> 's cLZWcompression run" where
  "lzw_learn z next_entry handled =
     (if handled then ok z
      else if m_first_read z then
        ok (z\<lparr>m_first_read := False, m_read_suffix := next_entry, m_read_prefix := next_entry\<rparr>)
      else lzw_add z next_entry)"

definition lzw_code ::
    "'s cLZWcompression \<Rightarrow> nat \<Rightarrow> pipe \<Rightarrow> (uint8 list option \<times> 's cLZWcompression \<times> pipe) run" where
  "lzw_code z next_entry bits_pipe =
     (let write = (\<lambda>z handled.
            run_bind (cLZWcompression_writeString z next_entry bits_pipe) (\<lambda>(good, z, bits_pipe).
            let ret = (if good then None else Some (cLZWcompression_copyStream bits_pipe)) in
            run_bind (lzw_learn z next_entry handled) (\<lambda>z. ok (ret, z, bits_pipe))))
      in if next_entry < start_opcodes z then
           if next_entry = 2 ^ m_bitSize z then
             ok (None, z\<lparr>m_table := [], m_first_read := True, m_is_eof := False, m_io_bits := m_bitSize z + 1\<rparr>, bits_pipe)
           else if next_entry = 2 ^ m_bitSize z + 1 then
             ok (Some (cLZWcompression_copyStream bits_pipe), z\<lparr>m_is_eof := True\<rparr>, bits_pipe)
           else write z False
         else if next_entry \<ge> start_opcodes z + length (m_table z) then
           run_bind (lzw_add z next_entry) (\<lambda>z. write z True)
         else write z False)"

text \<open>
  At the end of the stream the filter stays at its end; the bits that were left are not read again.
\<close>

partial_function (option) lzw_read_loop ::
    "'s basicIO \<Rightarrow> 's cLZWcompression \<Rightarrow> pipe \<Rightarrow> (uint8 list \<times> 's cLZWcompression) run" where
  "lzw_read_loop ops z bits_pipe =
     (if cBitStream_readBits ops (m_bit_stream z) (of_nat (m_io_bits z)) = throw EXCEPTION_READ_ERROR then
        ok (cLZWcompression_copyStream bits_pipe, z\<lparr>m_is_eof := True\<rparr>)
      else
        run_bind (cBitStream_readBits ops (m_bit_stream z) (of_nat (m_io_bits z))) (\<lambda>x.
        run_bind (lzw_code (z\<lparr>m_bit_stream := snd x\<rparr>) (unat (fst x)) bits_pipe) (\<lambda>r.
        case fst r of
          Some bytes \<Rightarrow> ok (bytes, fst (snd r))
        | None \<Rightarrow> lzw_read_loop ops (fst (snd r)) (snd (snd r)))))"

text \<open>The codes that an earlier call had no room for; \<open>True\<close> when there is room for all of them.\<close>

fun lzw_old_codes :: "'s cLZWcompression \<Rightarrow> nat list \<Rightarrow> pipe \<Rightarrow> (bool \<times> 's cLZWcompression \<times> pipe) run" where
  "lzw_old_codes z [] bits_pipe = ok (True, z\<lparr>m_readed_codes := []\<rparr>, bits_pipe)"
| "lzw_old_codes z (c # cs) bits_pipe =
     (case cBitStream_writeBits cMemoryStream_io bits_pipe (of_nat c) (of_nat (m_bitSize z)) of
        None \<Rightarrow> None
      | Some (Inl e) \<Rightarrow> ok (False, z\<lparr>m_readed_codes := c # cs\<rparr>, bits_pipe)
      | Some (Inr bits_pipe) \<Rightarrow> lzw_old_codes z cs bits_pipe)"

text \<open>The buffer of the call holds the bytes \<open>mem\<close> before.\<close>

definition cLZWcompression_read ::
    "uint8 \<Rightarrow> uint8 \<Rightarrow> uint8 list \<Rightarrow> 's basicIO \<Rightarrow> 's cLZWcompression \<Rightarrow> nat \<Rightarrow> (uint8 list \<times> 's cLZWcompression) run" where
  "cLZWcompression_read x y mem ops z len =
     (if len = 0 then ok ([], z)
      else
        run_bind (lzw_old_codes z (m_readed_codes z) (cBitStream_new x y (cMemoryStream_new mem len True)))
          (\<lambda>(room, z, bits_pipe).
        if \<not> room \<or> m_is_eof z then ok (cLZWcompression_copyStream bits_pipe, z)
        else lzw_read_loop ops z bits_pipe))"

definition cLZWcompression_isEOS :: "'s cLZWcompression \<Rightarrow> bool" where
  "cLZWcompression_isEOS z = m_is_eof z"

definition cLZWcompression_table ::
    "uint8 \<Rightarrow> uint8 \<Rightarrow> (nat \<Rightarrow> uint8 list) \<Rightarrow> 's basicIO \<Rightarrow>
     ('s cLZWcompression \<Rightarrow> uint32 \<Rightarrow> seekMethod \<Rightarrow> 's cLZWcompression run) \<Rightarrow> 's cLZWcompression basicIO" where
  "cLZWcompression_table x y mem ops seek =
     \<lparr>v_read = (\<lambda>z len. cLZWcompression_read x y (mem len) ops z len),
      v_write = cLZWcompression_write x y ops, v_flush = cLZWcompression_flush ops,
      v_isEOS = cLZWcompression_isEOS, v_seek = seek,
      v_length = (\<lambda>z. v_length ops (m_stream (m_bit_stream z))),
      v_getPointer = (\<lambda>z. v_getPointer ops (m_stream (m_bit_stream z))),
      v_getPipeReadBestRequest = v_getPipeReadBestRequest ops, v_isLittleEndian = v_isLittleEndian ops,
      canLength = False, canSeekFromBegin = canSeekFromBegin ops, canSeekForward = True,
      canSeekBackward = False, canSeekFromEnd = False, canGetPointer = False\<rparr>"

text \<open>Seeking reads up to the new position, and then throws in any case.\<close>

definition cLZWcompression_seek ::
    "uint8 \<Rightarrow> uint8 \<Rightarrow> (nat \<Rightarrow> uint8 list) \<Rightarrow> 's basicIO \<Rightarrow>
     's cLZWcompression \<Rightarrow> uint32 \<Rightarrow> seekMethod \<Rightarrow> 's cLZWcompression run" where
  "cLZWcompression_seek x y mem ops z distance method =
     (let skip = (\<lambda>z. run_bind (pipeRead (cLZWcompression_table x y mem ops (\<lambda>_ _ _. throw EXCEPTION_SEEK_ERROR)) z (unat distance))
                   (\<lambda>(bs, z). if length bs \<noteq> unat distance then throw EXCEPTION_SEEK_ERROR else ok z))
      in if \<not> canSeek (canSeekFromBegin ops) True False False distance method then throw EXCEPTION_SEEK_ERROR
         else if method = IO_SEEK_SET then
           run_bind (cLZWcompression_flush ops z) (\<lambda>z.
           run_bind (v_seek ops (m_stream (m_bit_stream z)) 0 IO_SEEK_SET) (\<lambda>s.
           run_bind (skip (z\<lparr>m_bit_stream := (m_bit_stream z)\<lparr>m_stream := s\<rparr>\<rparr>)) (\<lambda>z. throw EXCEPTION_SEEK_ERROR)))
         else if method = IO_SEEK_CUR \<and> 0 \<le> sint distance then
           run_bind (cLZWcompression_flush ops z) (\<lambda>z.
           run_bind (skip z) (\<lambda>z. throw EXCEPTION_SEEK_ERROR))
         else throw EXCEPTION_SEEK_ERROR)"

definition cLZWcompression_io ::
    "uint8 \<Rightarrow> uint8 \<Rightarrow> (nat \<Rightarrow> uint8 list) \<Rightarrow> 's basicIO \<Rightarrow> 's cLZWcompression basicIO" where
  "cLZWcompression_io x y mem ops = cLZWcompression_table x y mem ops (cLZWcompression_seek x y mem ops)"

subsection \<open>The code\<close>

text \<open>The width of the codes when the table has \<open>n\<close> entries, for symbols of eight bits.\<close>

fun lzw_width :: "nat \<Rightarrow> nat" where
  "lzw_width 0 = 9"
| "lzw_width (Suc n) = (if n + 258 = 2 ^ lzw_width n then lzw_width n + 1 else lzw_width n)"

lemma lzw_width_bounds: "n + 258 \<le> 2 ^ lzw_width n \<and> 9 \<le> lzw_width n \<and> (lzw_width n = 9 \<or> 2 ^ (lzw_width n - 1) < n + 258)"
  by (induction n) (auto split: if_splits)

lemma lzw_width_small: "n + 258 \<le> 2 ^ 31 \<Longrightarrow> lzw_width n \<le> 31"
proof (rule ccontr)
  assume n: "n + 258 \<le> 2 ^ 31" "\<not> lzw_width n \<le> 31"
  then have "(2 :: nat) ^ 31 \<le> 2 ^ (lzw_width n - 1)" by (intro power_increasing) simp_all
  then show False using n lzw_width_bounds [of n] by simp
qed

text \<open>The codes of the encoder with their widths: the table, the code that is pending, the symbols.\<close>

fun lzw_encode :: "(nat \<times> nat) list \<Rightarrow> nat \<Rightarrow> nat list \<Rightarrow> (nat \<times> nat) list" where
  "lzw_encode T p [] = [(p, lzw_width (length T))]"
| "lzw_encode T p (x # xs) =
     (if lzw_search (p, x) T < length T then lzw_encode T (lzw_search (p, x) T + 258) xs
      else (p, lzw_width (length T)) # lzw_encode (T @ [(p, x)]) x xs)"

text \<open>The symbols that a code spells in a table.\<close>

inductive spells :: "(nat \<times> nat) list \<Rightarrow> nat \<Rightarrow> nat list \<Rightarrow> bool" for T where
  spells_symbol: "c < 256 \<Longrightarrow> spells T c [c]"
| spells_entry: "i < length T \<Longrightarrow> T ! i = (q, v) \<Longrightarrow> q < 258 + i \<Longrightarrow> v < 256 \<Longrightarrow> spells T q s \<Longrightarrow>
    spells T (258 + i) (s @ [v])"

lemma spells_bounds: "spells T c s \<Longrightarrow> c < 258 + length T \<and> c \<noteq> 256 \<and> c \<noteq> 257 \<and> s \<noteq> [] \<and> (c < 256 \<longrightarrow> s = [c])"
  by (induction rule: spells.induct) auto

lemma spells_append: "spells T c s \<Longrightarrow> spells (T @ U) c s"
  by (induction rule: spells.induct) (auto intro!: spells.intros simp: nth_append)

lemma spells_take: "spells T c s \<Longrightarrow> c < 258 + n \<Longrightarrow> spells (take n T) c s"
proof (induction rule: spells.induct)
  case (spells_entry i q v s)
  then show ?case by (intro spells.spells_entry [of i _ q]) auto
qed (rule spells.spells_symbol)

lemma lzw_search_found: "lzw_search e T < length T \<Longrightarrow> T ! lzw_search e T = e"
  by (induction T) auto

definition entries_ok :: "(nat \<times> nat) list \<Rightarrow> bool" where
  "entries_ok T \<longleftrightarrow> (\<forall>i < length T. fst (T ! i) < 258 + i \<and> snd (T ! i) < 256)"

lemma entries_ok_snoc: "entries_ok T \<Longrightarrow> p < 258 + length T \<Longrightarrow> x < 256 \<Longrightarrow> entries_ok (T @ [(p, x)])"
  by (auto simp: entries_ok_def nth_append less_Suc_eq)

lemma spells_found:
  assumes "entries_ok T" "spells T p s" "lzw_search (p, x) T < length T"
  shows "spells T (lzw_search (p, x) T + 258) (s @ [x])"
proof -
  let ?i = "lzw_search (p, x) T"
  have "T ! ?i = (p, x)" by (rule lzw_search_found [OF assms(3)])
  moreover have "fst (T ! ?i) < 258 + ?i" "snd (T ! ?i) < 256" using assms(1,3) by (auto simp: entries_ok_def)
  ultimately show ?thesis using spells_entry [OF assms(3), of p x s] assms(2) by (simp add: add.commute)
qed

definition code_bits :: "(nat \<times> nat) list \<Rightarrow> uint8 list" where
  "code_bits cs = concat (map (\<lambda>(c, w). number_bits w (of_nat c)) cs)"

lemma code_bits_simps [simp]:
  "code_bits [] = []" "code_bits ((c, w) # cs) = number_bits w (of_nat c) @ code_bits cs"
  "code_bits (as @ bs) = code_bits as @ code_bits bs"
  by (simp_all add: code_bits_def)

subsection \<open>The pipe\<close>

lemma writeBits_byte:
  assumes "0 < k" "m_write_bit_position b + k = 8"
  shows "\<exists>y. writeBits_loop ops b k n =
      run_bind (pipeWrite ops (m_stream b) [y]) (\<lambda>s. ok (b\<lparr>m_write_byte := y, m_stream := s, m_write_bit_position := 0\<rparr>)) \<and>
      bits_of y = take (m_write_bit_position b) (bits_of (m_write_byte b)) @ number_bits k n"
  using assms
proof (induction k arbitrary: b n)
  case (Suc k)
  let ?p = "m_write_bit_position b" let ?x = "ucast (n AND 1) :: uint8"
  let ?w = "if ?x \<noteq> 0 then m_write_byte b OR push_bit ?p 1 else m_write_byte b AND (0xFF - push_bit ?p 1)"
  have "n AND 1 = of_bool (bit n 0)" by (rule bit_word_eqI) (auto simp: bit_simps)
  then have x: "(?x \<noteq> 0) = bit n 0" by simp
  have t: "take (Suc ?p) (bits_of ?w) = take ?p (bits_of (m_write_byte b)) @ [of_bool (?x \<noteq> 0)]"
    by (rule set_bit_bits) (use Suc.prems in simp)
  obtain w where w: "?w = w" by simp
  have tw: "take (Suc ?p) (bits_of w) = take ?p (bits_of (m_write_byte b)) @ [of_bool (bit n 0)]"
    using t unfolding w by (simp only: x)
  have step: "writeBits_loop ops b (Suc k) n =
     run_bind (if Suc ?p = 8 then
        run_bind (pipeWrite ops (m_stream b) [w]) (\<lambda>s.
        ok (b\<lparr>m_write_byte := w, m_stream := s, m_write_bit_position := 0\<rparr>))
      else ok (b\<lparr>m_write_byte := w, m_write_bit_position := Suc ?p\<rparr>)) (\<lambda>b. writeBits_loop ops b k (drop_bit 1 n))"
    by (simp add: bit_write_def Let_def cBitStream_write_def run_bind_assoc w [symmetric])
  show ?case
  proof (cases "k = 0")
    case True
    then have "Suc ?p = 8" using Suc.prems by simp
    then show ?thesis
      unfolding step using tw True
      by (intro exI [of _ w]) (simp add: number_bits_Suc run_bind_assoc, simp add: number_bits_def)
  next
    case False
    let ?b = "b\<lparr>m_write_byte := w, m_write_bit_position := Suc ?p\<rparr>"
    have "Suc ?p \<noteq> 8" using Suc.prems False by simp
    then have s: "writeBits_loop ops b (Suc k) n = writeBits_loop ops ?b k (drop_bit 1 n)" unfolding step by simp
    obtain y where "writeBits_loop ops ?b k (drop_bit 1 n) =
        run_bind (pipeWrite ops (m_stream ?b) [y]) (\<lambda>s. ok (?b\<lparr>m_write_byte := y, m_stream := s, m_write_bit_position := 0\<rparr>))"
      "bits_of y = take (Suc ?p) (bits_of w) @ number_bits k (drop_bit 1 n)"
      using Suc.IH [of ?b "drop_bit 1 n"] False Suc.prems by auto
    then show ?thesis
      unfolding s using tw by (intro exI [of _ y]) (simp add: number_bits_Suc)
  qed
qed simp

lemma bits_of_inject: "bits_of y = bits_of x \<Longrightarrow> y = x"
proof -
  assume e: "bits_of y = bits_of x"
  have "bit y i = bit x i" if "i < 8" for i
    using arg_cong [OF e, of "\<lambda>l. l ! i"] that
    by (simp add: bits_of_bit of_bool_def split: if_splits)
  then show ?thesis by (intro bit_word_eqI) simp
qed

lemma bits_of_number: "bits_of x = number_bits 8 (ucast x)"
  by (simp add: bits_of_bit number_bits_def bit_simps)

text \<open>A pipe that has taken the bytes \<open>out\<close> and has room for \<open>len\<close>.\<close>

definition pipe_at :: "nat \<Rightarrow> uint8 list \<Rightarrow> pipe \<Rightarrow> bool" where
  "pipe_at len out b \<longleftrightarrow>
     m_write_bit_position b = 0 \<and> m_fixedSize (m_stream b) \<and> length (m_data (m_stream b)) = len \<and>
     m_filePosition (m_stream b) = length out \<and> take (length out) (m_data (m_stream b)) = out \<and> length out \<le> len"

lemma pipe_byte:
  assumes "pipe_at len out b" "v < 256"
  shows "if length out < len then \<exists>b'. cBitStream_writeBits cMemoryStream_io b (of_nat v) 8 = ok b' \<and> pipe_at len (out @ [of_nat v]) b'
     else cBitStream_writeBits cMemoryStream_io b (of_nat v) 8 = None"
proof -
  obtain y where y: "writeBits_loop cMemoryStream_io b 8 (of_nat v) =
      run_bind (pipeWrite cMemoryStream_io (m_stream b) [y]) (\<lambda>s. ok (b\<lparr>m_write_byte := y, m_stream := s, m_write_bit_position := 0\<rparr>))"
    "bits_of y = number_bits 8 (of_nat v)"
    using writeBits_byte [of 8 b cMemoryStream_io "of_nat v"] assms(1) by (auto simp: pipe_at_def)
  have "(ucast (of_nat v :: uint8) :: uint32) = of_nat v"
    using assms(2) by (intro word_unat_eq_iff [THEN iffD2]) (simp add: unsigned_ucast_eq unsigned_of_nat take_bit_nat_eq_self)
  then have "bits_of y = bits_of (of_nat v)" using y(2) by (simp add: bits_of_number)
  then have yv: "y = of_nat v" by (rule bits_of_inject)
  let ?s = "m_stream b"
  have s: "m_fixedSize ?s" "m_filePosition ?s = length out" "length (m_data ?s) = len" "take (length out) (m_data ?s) = out"
    "length out \<le> len" using assms(1) by (auto simp: pipe_at_def)
  have e: "cBitStream_writeBits cMemoryStream_io b (of_nat v) 8 = writeBits_loop cMemoryStream_io b 8 (of_nat v)"
    by (simp add: cBitStream_writeBits_def)
  show ?thesis
  proof (cases "length out < len")
    case True
    let ?s' = "?s\<lparr>m_data := take (length out) (m_data ?s) @ y # drop (Suc (length out)) (m_data ?s), m_filePosition := Suc (length out)\<rparr>"
    have "v_write cMemoryStream_io ?s [y] = ok (1, ?s')"
      using s True by (simp add: cMemoryStream_io_def cMemoryStream_write_def Let_def t_min_def memcpy_at_def)
    then have "pipeWrite cMemoryStream_io ?s [y] = ok ?s'" by (intro pipeWrite_once) simp_all
    then show ?thesis unfolding e y(1) using True s yv by (simp add: pipe_at_def)
  next
    case False
    then have "v_write cMemoryStream_io ?s [y] = ok (0, ?s)"
      using s by (simp add: cMemoryStream_io_def cMemoryStream_write_def Let_def t_min_def memcpy_at_def)
    then have "pipeWrite cMemoryStream_io ?s [y] = None" by (rule pipeWrite_stuck) simp
    then show ?thesis unfolding e y(1) using False by simp
  qed
qed

lemma emit_byte:
  assumes "pipe_at len out b" "v < 256" "m_bitSize z = 8"
  shows "if length out < len then \<exists>b'. lzw_emit z v b = ok (True, z, b') \<and> pipe_at len (out @ [of_nat v]) b'
     else lzw_emit z v b = None"
  using pipe_byte [OF assms(1,2)] assms(3) by (auto simp: lzw_emit_def ok_def split: if_splits)

lemma writeString_spells:
  assumes "spells T c s" "m_table z = T" "start_opcodes z = 258" "m_bitSize z = 8" "pipe_at len out b"
  shows "if length out + length s \<le> len then
       \<exists>b'. cLZWcompression_writeString z c b = ok (True, z, b') \<and> pipe_at len (out @ map of_nat s) b'
     else cLZWcompression_writeString z c b = None"
  using assms(1)
proof (induction rule: spells.induct)
  case (spells_symbol c)
  then show ?case
    using emit_byte [OF assms(5), of c z] assms(3,4)
    by (subst (1 2) cLZWcompression_writeString.simps) (simp add: Suc_le_eq)
next
  case (spells_entry i q v s)
  have w: "cLZWcompression_writeString z (258 + i) b =
      run_bind (cLZWcompression_writeString z q b) (\<lambda>r. lzw_emit (fst (snd r)) v (snd (snd r)))"
    using spells_entry.hyps assms(2,3) by (subst cLZWcompression_writeString.simps) (simp add: lzw_entry_def)
  show ?case
  proof (cases "length out + length s \<le> len")
    case True
    then obtain b1 where b1: "cLZWcompression_writeString z q b = ok (True, z, b1)" "pipe_at len (out @ map of_nat s) b1"
      using spells_entry.IH by auto
    then show ?thesis
      unfolding w using emit_byte [OF b1(2) spells_entry.hyps(4) assms(4)]
      by (cases "length out + length s < len") (simp_all add: Suc_le_eq)
  next
    case False
    then show ?thesis unfolding w using spells_entry.IH by simp
  qed
qed

lemma first_spells:
  assumes "spells T c s" "map fst (m_table z) = map fst T" "start_opcodes z = 258"
  shows "lzw_first z c = ok (hd s)"
  using assms(1)
proof (induction rule: spells.induct)
  case (spells_symbol c)
  then show ?case using assms(3) by (subst lzw_first.simps) simp
next
  case (spells_entry i q v s)
  have "length (m_table z) = length T" using arg_cong [OF assms(2), of length] by simp
  moreover have "fst (m_table z ! i) = q"
    using arg_cong [OF assms(2), of "\<lambda>l. l ! i"] spells_entry.hyps(1,2) calculation by simp
  ultimately have "lzw_first z (258 + i) = lzw_first z q"
    using spells_entry.hyps(1) assms(3) by (subst lzw_first.simps) (simp add: lzw_entry_def)
  then show ?case using spells_entry.IH spells_bounds [OF spells_entry.hyps(5)] by simp
qed

subsection \<open>The decoder follows the encoder\<close>

text \<open>The decoder before the next code, when the encoder has the table \<open>T\<close>: it lacks the last entry.\<close>

definition decoder_at :: "(nat \<times> nat) list \<Rightarrow> 's cLZWcompression \<Rightarrow> bool" where
  "decoder_at T z \<longleftrightarrow>
     m_bitSize z = 8 \<and> start_opcodes z = 258 \<and> m_io_bits z = lzw_width (length T) \<and> entries_ok T \<and>
     (if T = [] then m_table z = [] \<and> m_first_read z
      else \<not> m_first_read z \<and> m_table z = butlast T \<and> m_read_prefix z = fst (last T))"

lemma add_entry:
  assumes "decoder_at T z" "T \<noteq> []" "spells T p s" "snd (last T) = hd s"
  shows "lzw_add z p = ok (z\<lparr>m_read_suffix := p, m_io_bits := lzw_width (Suc (length T)), m_table := T, m_read_prefix := p\<rparr>)"
proof -
  have d: "start_opcodes z = 258" "m_io_bits z = lzw_width (length T)" "m_table z = butlast T" "m_read_prefix z = fst (last T)"
    using assms(1,2) by (auto simp: decoder_at_def)
  have l: "length (butlast T) + 259 = length T + 258" using assms(2) by (cases T) auto
  have T: "butlast T @ [(fst (last T), hd s)] = T" using assms(2,4) by (metis append_butlast_last_id prod.collapse)
  have f: "lzw_first z' p = ok (hd s)" if "m_table z' = butlast T @ [(fst (last T), 0)]" "start_opcodes z' = 258" for z' :: "'a cLZWcompression"
  proof (rule first_spells [OF assms(3) _ that(2)])
    have "map fst T = map fst (butlast T @ [last T])" using assms(2) by simp
    then show "map fst (m_table z') = map fst T" unfolding that(1) by (simp del: append_butlast_last_id)
  qed
  show ?thesis
    using d l by (simp add: lzw_add_def Let_def f T)
qed

lemma code_step:
  assumes "decoder_at T z" "spells T p s" "T \<noteq> [] \<longrightarrow> snd (last T) = hd s" "pipe_at len out b" "\<not> m_is_eof z"
  shows "if length out + length s \<le> len then
       \<exists>z' b'. lzw_code z p b = ok (None, z', b') \<and> pipe_at len (out @ map of_nat s) b' \<and>
         m_bit_stream z' = m_bit_stream z \<and> \<not> m_is_eof z' \<and>
         (\<forall>x < 256. decoder_at (T @ [(p, x)]) z')
     else lzw_code z p b = None"
proof -
  have d: "start_opcodes z = 258" "m_bitSize z = 8" "m_io_bits z = lzw_width (length T)" "entries_ok T"
    using assms(1) by (auto simp: decoder_at_def)
  note p = spells_bounds [OF assms(2)]
  have ok': "decoder_at (T @ [(p, x)]) z'" if "m_bitSize z' = 8" "start_opcodes z' = 258" "m_table z' = T"
    "m_read_prefix z' = p" "\<not> m_first_read z'" "m_io_bits z' = lzw_width (Suc (length T))" "x < 256" for x and z' :: "'a cLZWcompression"
    using that d(4) p entries_ok_snoc [of T p x] by (simp add: decoder_at_def)
  show ?thesis
  proof (cases "T = []")
    case True
    then have z: "m_table z = []" "m_first_read z" "p < 258" using assms(1) p by (auto simp: decoder_at_def)
    show ?thesis
      using writeString_spells [of T p s z len out b] True z d assms p
      by (auto simp: lzw_code_def Let_def lzw_learn_def decoder_at_def entries_ok_def split: if_splits)
  next
    case False
    then have z: "m_table z = butlast T" "\<not> m_first_read z" using assms(1) by (auto simp: decoder_at_def)
    note a = add_entry [OF assms(1) False assms(2)] assms(3) False
    show ?thesis
    proof (cases "p < 258 + length (butlast T)")
      case True
      have sp: "spells (butlast T) p s" using spells_take [OF assms(2) True] by (simp add: butlast_conv_take)
      have c: "lzw_code z p b = run_bind (cLZWcompression_writeString z p b) (\<lambda>(good, z, bits_pipe).
            let ret = (if good then None else Some (cLZWcompression_copyStream bits_pipe)) in
            run_bind (lzw_learn z p False) (\<lambda>z. ok (ret, z, bits_pipe)))"
        using True d z p a(3) by (cases T) (simp_all add: lzw_code_def Let_def)
      show ?thesis
        unfolding c using writeString_spells [OF sp z(1) d(1,2) assms(4)] z a assms(5) d
        by (auto simp: lzw_learn_def intro!: ok' split: if_splits)
    next
      case False
      let ?z = "z\<lparr>m_read_suffix := p, m_io_bits := lzw_width (Suc (length T)), m_table := T, m_read_prefix := p\<rparr>"
      have c: "lzw_code z p b = run_bind (cLZWcompression_writeString ?z p b) (\<lambda>(good, z, bits_pipe).
            let ret = (if good then None else Some (cLZWcompression_copyStream bits_pipe)) in
            run_bind (lzw_learn z p True) (\<lambda>z. ok (ret, z, bits_pipe)))"
        using False d z a by (simp add: lzw_code_def Let_def)
      show ?thesis
        unfolding c using writeString_spells [OF assms(2), of ?z len out b] z a assms(4,5) d
        by (auto simp: lzw_learn_def intro!: ok' split: if_splits)
    qed
  qed
qed

lemma unat_of_nat_small: "n < 2 ^ LENGTH('a) \<Longrightarrow> unat (of_nat n :: 'a::len word) = n"
  by (simp add: unsigned_of_nat take_bit_nat_eq_self)

lemma unat_take_code: "w \<le> 31 \<Longrightarrow> p < 2 ^ w \<Longrightarrow> unat (take_bit w (of_nat p :: uint32)) = p"
proof -
  assume w: "w \<le> 31" "p < 2 ^ w"
  have "(2 :: nat) ^ w \<le> 2 ^ 31" using w(1) by (intro power_increasing) simp_all
  then have "unat (of_nat p :: uint32) = p" using w(2) by (intro unat_of_nat_small) simp
  then show ?thesis using w(2) by (simp add: unsigned_take_bit_eq take_bit_nat_eq_self)
qed

lemma unat_width: "w \<le> 31 \<Longrightarrow> unat (of_nat w :: uint8) = w"
  by (rule unat_of_nat_small) simp

context input_stream
begin

lemma read_code:
  assumes "bits_in valid b" "bits_rest rest b = number_bits w (of_nat p) @ r" "w \<le> 31" "p < 2 ^ w"
  shows "\<exists>x. cBitStream_readBits ops b (of_nat w) = ok x \<and> unat (fst x) = p \<and>
     bits_in valid (snd x) \<and> bits_rest rest (snd x) = r"
proof -
  have "yields (cBitStream_readBits ops b (of_nat w)) (got (bits_in valid) (bits_rest rest) (take_bit w (of_nat p)) r)"
    using readBits_loop_got [OF assms(1,2), of w 0 0] assms(3) unat_width [OF assms(3)]
    by (simp add: cBitStream_readBits_def bits_number_bits)
  then show ?thesis using unat_take_code [OF assms(3,4)] by (auto simp: yields_def)
qed

lemma read_short:
  "bits_in valid b \<Longrightarrow> length (bits_rest rest b) < k \<Longrightarrow> i + k \<le> 32 \<Longrightarrow>
     readBits_loop ops b i k readed = throw EXCEPTION_READ_ERROR"
proof (induction k arbitrary: b i readed)
  case (Suc k)
  obtain x where x: "cBitStream_read ops b 1 = ok x" "fst x = take 1 (bits_rest rest b)"
    "bits_in valid (snd x)" "bits_rest rest (snd x) = drop 1 (bits_rest rest b)"
    using bit_read_takes [OF Suc.prems(1), of 1] by (auto simp: yields_def got_def)
  show ?case
  proof (cases "bits_rest rest b")
    case Nil
    then show ?thesis using x by (simp add: case_prod_unfold)
  next
    case (Cons y ys)
    then have "readBits_loop ops (snd x) (i + 1) k r = throw EXCEPTION_READ_ERROR" for r
      using Suc.IH [of "snd x" "i + 1"] Suc.prems x by simp
    then show ?thesis using x Cons Suc.prems by (simp add: case_prod_unfold)
  qed
qed simp

text \<open>The decoder gives back the symbols of the encoder, if they fit; otherwise it never returns.\<close>

lemma read_loop_decodes:
  assumes "decoder_at T z" "spells T p s" "T \<noteq> [] \<longrightarrow> snd (last T) = hd s" "pipe_at len out b" "\<not> m_is_eof z"
    and "list_all (\<lambda>x. x < 256) xs" "length T + length xs + 258 \<le> 2 ^ 31" "length pad < 8"
    and "bits_in valid (m_bit_stream z)" "bits_rest rest (m_bit_stream z) = code_bits (lzw_encode T p xs) @ pad"
  shows "if length out + length (s @ xs) \<le> len then
       \<exists>z'. lzw_read_loop ops z b = ok (out @ map of_nat (s @ xs), z') \<and> m_is_eof z'
     else lzw_read_loop ops z b = None"
  using assms
proof (induction xs arbitrary: T z p s out b)
  case Nil
  let ?w = "lzw_width (length T)"
  have w: "?w \<le> 31" "9 \<le> ?w" "p < 2 ^ ?w" "m_io_bits z = ?w"
    using lzw_width_small [of "length T"] lzw_width_bounds [of "length T"] Nil.prems(1,7) spells_bounds [OF Nil.prems(2)]
    by (auto simp: decoder_at_def)
  obtain x where x: "cBitStream_readBits ops (m_bit_stream z) (of_nat ?w) = ok x" "unat (fst x) = p"
    "bits_in valid (snd x)" "bits_rest rest (snd x) = pad"
    using read_code [OF Nil.prems(9) _ w(1,3), of pad] Nil.prems(10) by auto
  let ?z = "z\<lparr>m_bit_stream := snd x\<rparr>"
  have d: "decoder_at T ?z" using Nil.prems(1) by (simp add: decoder_at_def)
  have l: "lzw_read_loop ops z b = run_bind (lzw_code ?z p b) (\<lambda>r. case fst r of
          Some bytes \<Rightarrow> ok (bytes, fst (snd r)) | None \<Rightarrow> lzw_read_loop ops (fst (snd r)) (snd (snd r)))"
    using x w(4) by (subst lzw_read_loop.simps) simp
  note c = code_step [OF d Nil.prems(2,3,4)]
  show ?case
  proof (cases "length out + length s \<le> len")
    case True
    then obtain z' b' where z': "lzw_code ?z p b = ok (None, z', b')" "pipe_at len (out @ map of_nat s) b'"
      "m_bit_stream z' = snd x" "\<not> m_is_eof z'" "\<forall>x < 256. decoder_at (T @ [(p, x)]) z'"
      using c Nil.prems(5) by auto
    have "decoder_at (T @ [(p, 0)]) z'" using z'(5) by simp
    then have io: "m_io_bits z' = lzw_width (Suc (length T))" by (simp add: decoder_at_def)
    have w': "9 \<le> lzw_width (Suc (length T))" "lzw_width (Suc (length T)) \<le> 32"
      using w by (auto split: if_splits)
    have "readBits_loop ops (snd x) 0 (lzw_width (Suc (length T))) 0 = throw EXCEPTION_READ_ERROR"
      using x(3,4) Nil.prems(8) w' by (intro read_short) auto
    moreover have "unat (of_nat (lzw_width (Suc (length T))) :: uint8) = lzw_width (Suc (length T))"
      using w' by (intro unat_of_nat_small) simp
    ultimately have r: "cBitStream_readBits ops (m_bit_stream z') (of_nat (m_io_bits z')) = throw EXCEPTION_READ_ERROR"
      by (simp add: cBitStream_readBits_def z'(3) io del: lzw_width.simps)
    have "cLZWcompression_copyStream b' = out @ map of_nat s"
      using z'(2) by (simp add: cLZWcompression_copyStream_def pipe_at_def cMemoryStream_getPointer_def)
    then have "lzw_read_loop ops z' b' = ok (out @ map of_nat s, z'\<lparr>m_is_eof := True\<rparr>)"
      by (subst lzw_read_loop.simps) (simp add: r)
    then show ?thesis unfolding l z'(1) using True by simp
  next
    case False
    then show ?thesis unfolding l using c Nil.prems(5) by simp
  qed
next
  case (Cons y ys)
  note p = spells_bounds [OF Cons.prems(2)]
  have e: "entries_ok T" using Cons.prems(1) by (simp add: decoder_at_def)
  let ?i = "lzw_search (p, y) T"
  show ?case
  proof (cases "?i < length T")
    case True
    have "hd (s @ [y]) = hd s" using p by simp
    then show ?thesis
      using Cons.IH [OF Cons.prems(1) spells_found [OF e Cons.prems(2) True] _ Cons.prems(4,5)] Cons.prems(3,6-10) True
      by (simp cong: if_cong)
  next
    case False
    let ?w = "lzw_width (length T)"
    have w: "?w \<le> 31" "p < 2 ^ ?w" "m_io_bits z = ?w"
      using lzw_width_small [of "length T"] lzw_width_bounds [of "length T"] Cons.prems(1,7) p
      by (auto simp: decoder_at_def)
    obtain x where x: "cBitStream_readBits ops (m_bit_stream z) (of_nat ?w) = ok x" "unat (fst x) = p"
      "bits_in valid (snd x)" "bits_rest rest (snd x) = code_bits (lzw_encode (T @ [(p, y)]) y ys) @ pad"
      using read_code [OF Cons.prems(9) _ w(1,2), of "code_bits (lzw_encode (T @ [(p, y)]) y ys) @ pad"] Cons.prems(10) False
      by auto
    let ?z = "z\<lparr>m_bit_stream := snd x\<rparr>"
    have d: "decoder_at T ?z" using Cons.prems(1) by (simp add: decoder_at_def)
    have l: "lzw_read_loop ops z b = run_bind (lzw_code ?z p b) (\<lambda>r. case fst r of
          Some bytes \<Rightarrow> ok (bytes, fst (snd r)) | None \<Rightarrow> lzw_read_loop ops (fst (snd r)) (snd (snd r)))"
      using x w(3) by (subst lzw_read_loop.simps) simp
    note c = code_step [OF d Cons.prems(2,3,4)]
    show ?thesis
    proof (cases "length out + length s \<le> len")
      case True
      then obtain z' b' where z': "lzw_code ?z p b = ok (None, z', b')" "pipe_at len (out @ map of_nat s) b'"
        "m_bit_stream z' = snd x" "\<not> m_is_eof z'" "\<forall>x < 256. decoder_at (T @ [(p, x)]) z'"
        using c Cons.prems(5) by auto
      have d': "decoder_at (T @ [(p, y)]) z'" using z'(5) Cons.prems(6) by simp
      have sy: "spells (T @ [(p, y)]) y [y]" using Cons.prems(6) by (intro spells_symbol) simp
      show ?thesis
        using Cons.IH [OF d' sy _ z'(2,4)] Cons.prems(6-8) x(3,4) z'(3) unfolding l z'(1)
        by (simp add: add.assoc cong: if_cong)
    next
      case False
      then show ?thesis unfolding l using c Cons.prems(5) by simp
    qed
  qed
qed

end

subsection \<open>The encoder\<close>

definition encoder_at :: "(nat \<times> nat) list \<Rightarrow> nat \<Rightarrow> 's cLZWcompression \<Rightarrow> bool" where
  "encoder_at T p z \<longleftrightarrow>
     m_bitSize z = 8 \<and> start_opcodes z = 258 \<and> m_io_bits z = lzw_width (length T) \<and> m_table z = T \<and>
     m_write_prefix z = p \<and> \<not> m_first_write z"

lemma lzw_search_le: "lzw_search e T \<le> length T"
  by (induction T) auto

lemma read_symbol:
  assumes "bits_in cMemoryStream_inv b" "bits_rest cMemoryStream_rest b = bits_of x @ r"
  shows "\<exists>y. cBitStream_readBits cMemoryStream_io b 8 = ok y \<and> unat (fst y) = unat x \<and>
     bits_in cMemoryStream_inv (snd y) \<and> bits_rest cMemoryStream_rest (snd y) = r"
proof -
  have l: "unat x < 2 ^ 8" using unsigned_less [of x, where 'a = nat] by simp
  have "(of_nat (unat x) :: uint32) = ucast x" by simp
  then have "bits_rest cMemoryStream_rest b = number_bits 8 (of_nat (unat x)) @ r"
    using assms(2) by (simp only: bits_of_number)
  then show ?thesis using mem_in.read_code [OF assms(1) _ _ l, of r] by simp
qed

context output_stream
begin

lemma put_code:
  assumes "bits_sink valid (m_bit_stream z)" "m_io_bits z \<le> 31"
  shows "\<exists>b. lzw_put ops z c = ok (z\<lparr>m_bit_stream := b\<rparr>) \<and> bits_sink valid b \<and>
     bits_written out b = bits_written out (m_bit_stream z) @ number_bits (m_io_bits z) (of_nat c)"
proof -
  have u: "unat (of_nat (m_io_bits z) :: uint8) = m_io_bits z" by (rule unat_width [OF assms(2)])
  then have "\<not> (of_nat (m_io_bits z) :: uint8) > 32" using assms(2) by (simp add: word_less_nat_alt)
  then show ?thesis
    using writeBits_loop_sink [OF assms(1), of "m_io_bits z" "of_nat c"] u
    by (auto simp: lzw_put_def cBitStream_writeBits_def yields_def put_def)
qed

lemma write_loop_encodes:
  assumes "encoder_at T p z" "bits_sink valid (m_bit_stream z)"
    and "bits_in cMemoryStream_inv ib" "bits_rest cMemoryStream_rest ib = concat (map bits_of xs)"
    and "length T + length xs + 258 \<le> 2 ^ 31"
  shows "\<exists>z' T' p' cs. lzw_write_loop ops (length xs) ib z = ok z' \<and> encoder_at T' p' z' \<and>
     bits_sink valid (m_bit_stream z') \<and> length T' \<le> length T + length xs \<and>
     lzw_encode T p (map unat xs) = cs @ [(p', lzw_width (length T'))] \<and>
     bits_written out (m_bit_stream z') = bits_written out (m_bit_stream z) @ code_bits cs"
  using assms
proof (induction xs arbitrary: T p z ib)
  case Nil
  then show ?case by auto
next
  case (Cons x xs)
  let ?i = "lzw_search (p, unat x) T"
  have z: "m_bitSize z = 8" "start_opcodes z = 258" "m_io_bits z = lzw_width (length T)" "m_table z = T"
    "m_write_prefix z = p" "\<not> m_first_write z" using Cons.prems(1) by (auto simp: encoder_at_def)
  obtain y where y: "cBitStream_readBits cMemoryStream_io ib 8 = ok y" "unat (fst y) = unat x"
    "bits_in cMemoryStream_inv (snd y)" "bits_rest cMemoryStream_rest (snd y) = concat (map bits_of xs)"
    using read_symbol [OF Cons.prems(3), of x "concat (map bits_of xs)"] Cons.prems(4) by auto
  have l: "lzw_write_loop ops (length (x # xs)) ib z =
      run_bind (lzw_symbol ops z (unat x)) (\<lambda>z. lzw_write_loop ops (length xs) (snd y) z)"
    using y(1,2) z(1) by (simp add: case_prod_unfold)
  show ?case
  proof (cases "?i < length T")
    case True
    let ?z = "z\<lparr>m_write_suffix := unat x, m_write_prefix := ?i + 258\<rparr>"
    have "lzw_symbol ops z (unat x) = ok ?z" using True z by (simp add: lzw_symbol_def Let_def)
    moreover have "encoder_at T (?i + 258) ?z" using z by (simp add: encoder_at_def)
    ultimately show ?thesis
      using Cons.IH [of T "?i + 258" ?z "snd y"] Cons.prems(2,5) y(3,4) True unfolding l by fastforce
  next
    case False
    let ?z = "z\<lparr>m_write_suffix := unat x\<rparr>"
    have w: "lzw_width (length T) \<le> 31" by (rule lzw_width_small) (use Cons.prems(5) in simp)
    obtain b where b: "lzw_put ops ?z p = ok (?z\<lparr>m_bit_stream := b\<rparr>)" "bits_sink valid b"
      "bits_written out b = bits_written out (m_bit_stream z) @ number_bits (lzw_width (length T)) (of_nat p)"
      using put_code [of ?z p] Cons.prems(2) z(3) w by auto
    let ?z' = "?z\<lparr>m_bit_stream := b, m_io_bits := lzw_width (Suc (length T)), m_table := T @ [(p, unat x)], m_write_prefix := unat x\<rparr>"
    have "lzw_symbol ops z (unat x) = ok ?z'"
      using False z b(1) by (simp add: lzw_symbol_def Let_def)
    moreover have "encoder_at (T @ [(p, unat x)]) (unat x) ?z'" using z by (simp add: encoder_at_def)
    moreover obtain z'' T' p' cs where "lzw_write_loop ops (length xs) (snd y) ?z' = ok z''" "encoder_at T' p' z''"
      "bits_sink valid (m_bit_stream z'')" "length T' \<le> length T + Suc (length xs)"
      "lzw_encode (T @ [(p, unat x)]) (unat x) (map unat xs) = cs @ [(p', lzw_width (length T'))]"
      "bits_written out (m_bit_stream z'') = bits_written out b @ code_bits cs"
      using Cons.IH [of "T @ [(p, unat x)]" "unat x" ?z' "snd y"] calculation(2) b(2) y(3,4) Cons.prems(5) by auto
    ultimately show ?thesis
      unfolding l using False b(3)
      by (intro exI [of _ z''] exI [of _ T'] exI [of _ p'] exI [of _ "(p, lzw_width (length T)) # cs"]) simp
  qed
qed

end

subsection \<open>The round trip\<close>

lemma write_encodes:
  assumes "8 * length (d # ds) < 2 ^ 31" "m_bit_stream z = cBitStream_new a b (cMemoryStream_new_data [] False)"
    and "m_bitSize z = 8" "start_opcodes z = 258" "m_io_bits z = 9" "m_table z = []" "m_first_write z"
  shows "\<exists>z' T' p' cs. cLZWcompression_write x y cMemoryStream_io z (d # ds) = ok (length (d # ds), z') \<and>
     encoder_at T' p' z' \<and> bits_sink cMemoryStream_atEnd (m_bit_stream z') \<and> length T' \<le> length ds \<and>
     lzw_encode [] (unat d) (map unat ds) = cs @ [(p', lzw_width (length T'))] \<and>
     bits_written m_data (m_bit_stream z') = code_bits cs"
proof -
  let ?ib = "cBitStream_new x y (cMemoryStream_new_data (d # ds) True)"
  let ?z = "z\<lparr>m_write_prefix := unat d, m_write_suffix := unat d, m_first_write := False\<rparr>"
  have ib: "bits_in cMemoryStream_inv ?ib" "bits_rest cMemoryStream_rest ?ib = bits_of d @ concat (map bits_of ds)"
    by (simp_all add: bits_in_def bits_rest_def cBitStream_new_def cMemoryStream_new_data_def cMemoryStream_inv_def
        cMemoryStream_rest_def)
  obtain i where i: "cBitStream_readBits cMemoryStream_io ?ib 8 = ok i" "unat (fst i) = unat d"
    "bits_in cMemoryStream_inv (snd i)" "bits_rest cMemoryStream_rest (snd i) = concat (map bits_of ds)"
    using read_symbol [OF ib] by blast
  have sink: "bits_sink cMemoryStream_atEnd (m_bit_stream ?z)" "bits_written m_data (m_bit_stream ?z) = []"
    using assms(2) by (simp_all add: bits_sink_def bits_written_def cBitStream_new_def cMemoryStream_atEnd_def
        cMemoryStream_new_data_def)
  have "encoder_at [] (unat d) ?z" using assms by (simp add: encoder_at_def)
  from mem_append.write_loop_encodes [OF this sink(1) i(3,4)] assms(1)
  obtain z' T' p' cs where w: "lzw_write_loop cMemoryStream_io (length ds) (snd i) ?z = ok z'" "encoder_at T' p' z'"
    "bits_sink cMemoryStream_atEnd (m_bit_stream z')" "length T' \<le> length ds"
    "lzw_encode [] (unat d) (map unat ds) = cs @ [(p', lzw_width (length T'))]"
    "bits_written m_data (m_bit_stream z') = code_bits cs"
    unfolding sink(2) by auto
  have n: "(length (d # ds) * 8 div 8 mod 2 ^ 32 + (2 ^ 32 - 1)) mod 2 ^ 32 = length ds"
    using assms(1) by (simp add: mod_if)
  have "cLZWcompression_write x y cMemoryStream_io z (d # ds) = ok (length (d # ds), z')"
    using i(1,2) w(1) n assms(3,7) by (simp add: cLZWcompression_write_def Let_def case_prod_unfold del: length_Cons)
  then show ?thesis using w by blast
qed

lemma flush_encodes:
  assumes "encoder_at T p z" "bits_sink cMemoryStream_atEnd (m_bit_stream z)" "length T + 258 \<le> 2 ^ 31"
  shows "\<exists>z' pad. cLZWcompression_flush cMemoryStream_io z = ok z' \<and> length pad < 8 \<and>
     concat (map bits_of (m_data (m_stream (m_bit_stream z')))) =
       bits_written m_data (m_bit_stream z) @ code_bits [(p, lzw_width (length T))] @ pad"
proof -
  have z: "m_io_bits z = lzw_width (length T)" "m_write_prefix z = p" "\<not> m_first_write z"
    using assms(1) by (auto simp: encoder_at_def)
  obtain b where b: "lzw_put cMemoryStream_io z p = ok (z\<lparr>m_bit_stream := b\<rparr>)" "bits_sink cMemoryStream_atEnd b"
    "bits_written m_data b = bits_written m_data (m_bit_stream z) @ code_bits [(p, lzw_width (length T))]"
    using mem_append.put_code [OF assms(2), of p] lzw_width_small [OF assms(3)] z(1) by auto
  obtain b' pad where b': "cBitStream_flush cMemoryStream_io b = ok b'" "length pad < 8"
    "concat (map bits_of (m_data (m_stream b'))) = bits_written m_data b @ pad"
  proof -
    have "yields (cBitStream_flush cMemoryStream_io b)
        (\<lambda>b'. \<exists>pad. length pad < 8 \<and> concat (map bits_of (m_data (m_stream b'))) = bits_written m_data b @ pad)"
      unfolding cBitStream_flush_def
      by (rule yields_bind [OF mem_append.bit_flush_stores [OF b(2)]])
         (auto simp: cMemoryStream_io_def cMemoryStream_flush_def)
    then show thesis using that by (auto simp: yields_def)
  qed
  let ?z = "z\<lparr>m_bit_stream := b', m_first_write := True\<rparr>"
  have "cLZWcompression_flush cMemoryStream_io z = ok (?z\<lparr>m_bit_stream := b'\<lparr>m_stream := m_stream b'\<rparr>\<rparr>)"
    using z b(1) b'(1) by (simp add: cLZWcompression_flush_def cMemoryStream_io_def cMemoryStream_flush_def)
  then show ?thesis using b(3) b'(2,3) by auto
qed

text \<open>
  C4: data written through the LZW filter with symbols of eight bits to a memory file and flushed
  are read back by a new filter over the file from its beginning. All calls of the writer return;
  a read whose buffer has room for all the data returns them and the filter is at its end, and a
  read with a smaller buffer never returns.
\<close>

theorem lzw_roundtrip:
  assumes "data \<noteq> []" "8 * length data < 2 ^ 31"
  shows "yields
    (run_bind (cLZWcompression_new a b junk (cMemoryStream_new_data [] False) 8) (\<lambda>z.
     run_bind (cLZWcompression_write x y cMemoryStream_io z data) (\<lambda>(n, z).
     run_bind (cLZWcompression_flush cMemoryStream_io z) (\<lambda>z.
     run_bind (v_seek cMemoryStream_io (m_stream (m_bit_stream z)) 0 IO_SEEK_SET) (\<lambda>s.
     run_bind (cLZWcompression_new a' b' junk' s 8) (\<lambda>z. ok (n, z)))))))
    (\<lambda>(n, z). n = length data \<and>
       (\<forall>x' y' mem. if mem = [] then cLZWcompression_read x' y' mem cMemoryStream_io z (length mem) = ok ([], z)
          else if length data \<le> length mem then
            \<exists>z'. cLZWcompression_read x' y' mem cMemoryStream_io z (length mem) = ok (data, z') \<and> cLZWcompression_isEOS z'
          else cLZWcompression_read x' y' mem cMemoryStream_io z (length mem) = None))"
proof -
  obtain d ds where data: "data = d # ds" using assms(1) by (cases data) auto
  obtain z0 where z0: "cLZWcompression_new a b junk (cMemoryStream_new_data [] False) 8 = ok z0"
    "m_bit_stream z0 = cBitStream_new a b (cMemoryStream_new_data [] False)" "m_bitSize z0 = 8" "start_opcodes z0 = 258"
    "m_io_bits z0 = 9" "m_table z0 = []" "m_first_write z0"
    by (simp add: cLZWcompression_new_def)
  obtain z1 T p cs where w: "cLZWcompression_write x y cMemoryStream_io z0 data = ok (length data, z1)"
    "encoder_at T p z1" "bits_sink cMemoryStream_atEnd (m_bit_stream z1)" "length T \<le> length ds"
    "lzw_encode [] (unat d) (map unat ds) = cs @ [(p, lzw_width (length T))]"
    "bits_written m_data (m_bit_stream z1) = code_bits cs"
    using write_encodes [OF assms(2) [unfolded data] z0(2-7)] unfolding data by blast
  obtain z2 pad where f: "cLZWcompression_flush cMemoryStream_io z1 = ok z2" "length pad < 8"
    "concat (map bits_of (m_data (m_stream (m_bit_stream z2)))) = code_bits (lzw_encode [] (unat d) (map unat ds)) @ pad"
    using flush_encodes [OF w(2,3)] w(4-6) assms(2) data by auto
  let ?s = "m_stream (m_bit_stream z2)\<lparr>m_filePosition := 0\<rparr>"
  obtain z3 where z3: "cLZWcompression_new a' b' junk' ?s 8 = ok z3" "m_bit_stream z3 = cBitStream_new a' b' ?s"
    "m_readed_codes z3 = []" "\<not> m_is_eof z3" "decoder_at [] z3"
    by (simp add: cLZWcompression_new_def decoder_at_def entries_ok_def)
  have i: "bits_in cMemoryStream_inv (m_bit_stream z3)"
    "bits_rest cMemoryStream_rest (m_bit_stream z3) = code_bits (lzw_encode [] (unat d) (map unat ds)) @ pad"
    by (simp_all add: z3(2) bits_in_def bits_rest_def cBitStream_new_def f(3))
  have same: "z3\<lparr>m_readed_codes := []\<rparr> = z3" using z3(3) by (cases z3) simp
  have small: "unat e < 256" for e :: uint8
    using unsigned_less [of e, where 'a = nat] by simp
  have sp: "spells [] (unat d) [unat d]" by (intro spells_symbol small)
  have sym: "list_all (\<lambda>x. x < 256) (map unat ds)" by (simp add: list_all_iff small)
  have restored: "map of_nat ([unat d] @ map unat ds) = data" by (simp add: data comp_def)
  have r: "if length data \<le> length mem then
        \<exists>z'. cLZWcompression_read x' y' mem cMemoryStream_io z3 (length mem) = ok (data, z') \<and> cLZWcompression_isEOS z'
      else cLZWcompression_read x' y' mem cMemoryStream_io z3 (length mem) = None" if "mem \<noteq> []" for x' y' mem
  proof -
    let ?b = "cBitStream_new x' y' (cMemoryStream_new mem (length mem) True)"
    have "pipe_at (length mem) [] ?b" by (simp add: pipe_at_def cBitStream_new_def cMemoryStream_new_def)
    from mem_in.read_loop_decodes [OF z3(5) sp _ this z3(4) sym _ f(2) i] assms(2)
    have "if length data \<le> length mem then
        \<exists>z'. lzw_read_loop cMemoryStream_io z3 ?b = ok (data, z') \<and> m_is_eof z'
      else lzw_read_loop cMemoryStream_io z3 ?b = None"
      unfolding restored by (simp add: data cong: if_cong)
    moreover have "cLZWcompression_read x' y' mem cMemoryStream_io z3 (length mem) = lzw_read_loop cMemoryStream_io z3 ?b"
      using that by (simp add: cLZWcompression_read_def z3(3,4) same)
    ultimately show ?thesis by (simp add: cLZWcompression_isEOS_def)
  qed
  have empty: "cLZWcompression_read x' y' [] cMemoryStream_io z3 (length ([] :: uint8 list)) = ok ([], z3)" for x' y'
    by (simp add: cLZWcompression_read_def)
  have sk: "v_seek cMemoryStream_io = cMemoryStream_seek" by (simp add: cMemoryStream_io_def)
  show ?thesis
    by (simp only: z0(1) w(1) f(1) z3(1) run_bind_simps yields_ok prod.case sk seek_begin)
      (intro conjI refl allI, metis (no_types) empty r)
qed

theorem lzw_roundtrip_witness:
  "[1, 1, 1] \<noteq> ([] :: uint8 list) \<and> 8 * length [1, 1, 1 :: uint8] < 2 ^ 31 \<and>
   yields
    (run_bind (cLZWcompression_new 0 0 0 (cMemoryStream_new_data [] False) 8) (\<lambda>z.
     run_bind (cLZWcompression_write 0 0 cMemoryStream_io z [1, 1, 1]) (\<lambda>(n, z).
     run_bind (cLZWcompression_flush cMemoryStream_io z) (\<lambda>z.
     run_bind (v_seek cMemoryStream_io (m_stream (m_bit_stream z)) 0 IO_SEEK_SET) (\<lambda>s.
     run_bind (cLZWcompression_new 0 0 0 s 8) (\<lambda>z. ok (n, z)))))))
    (\<lambda>(n, z). n = 3 \<and>
       (\<exists>z'. cLZWcompression_read 0 0 [0, 0, 0, 0] cMemoryStream_io z 4 = ok ([1, 1, 1], z') \<and> cLZWcompression_isEOS z') \<and>
       cLZWcompression_read 0 0 [0] cMemoryStream_io z 1 = None)"
proof -
  let ?data = "[1, 1, 1] :: uint8 list"
  have "?data \<noteq> []" "8 * length ?data < 2 ^ 31" by simp_all
  note t = lzw_roundtrip [OF this, of 0 0 0 0 0 0 0 0]
  show ?thesis
  proof (intro conjI, goal_cases)
    case 3
    show ?case
    proof (rule yields_mono [OF t], clarify, goal_cases)
      case (1 n z)
      from 1 [THEN spec, of 0, THEN spec, of 0] have
        m: "\<And>mem. if mem = [] then cLZWcompression_read 0 0 mem cMemoryStream_io z (length mem) = ok ([], z)
          else if length ?data \<le> length mem then
            \<exists>z'. cLZWcompression_read 0 0 mem cMemoryStream_io z (length mem) = ok (?data, z') \<and> cLZWcompression_isEOS z'
          else cLZWcompression_read 0 0 mem cMemoryStream_io z (length mem) = None" by blast
      show ?case using m [of "[0, 0, 0, 0]"] m [of "[0]"] by (simp add: eval_nat_numeral)
    qed
  qed simp_all
qed

end
