(* ===== verification/XCacheStream.thy ===== *)
theory XCacheStream
  imports XMemoryStream
begin

text \<open>
  The caching filter of stream/cacheStream.cpp over any stream. Its writing half keeps the contract
  of an output stream; its reading half returns the right bytes, and answers for the end of the
  stream below, so the reading loop may stop before the cache is empty.
\<close>

subsection \<open>The filter\<close>

text \<open>The two caches are buffers whose sizes do not change.\<close>

record 's cCacheStream =
  m_stream :: 's
  m_readCache :: "uint8 list"
  m_writeCache :: "uint8 list"
  m_readPosition :: nat
  m_writePosition :: nat
  m_readUse :: nat
  m_writeUse :: nat

text \<open>The new buffers hold the bytes \<open>r\<close> and \<open>w\<close>.\<close>

definition cCacheStream_new :: "uint8 list \<Rightarrow> uint8 list \<Rightarrow> 's \<Rightarrow> 's cCacheStream" where
  "cCacheStream_new r w stream =
     \<lparr>m_stream = stream, m_readCache = r, m_writeCache = w, m_readPosition = 0, m_writePosition = 0,
      m_readUse = 0, m_writeUse = 0\<rparr>"

definition cCacheStream_flush :: "'s basicIO \<Rightarrow> 's cCacheStream \<Rightarrow> 's cCacheStream run" where
  "cCacheStream_flush ops c =
     run_bind (pipeWrite ops (m_stream c) (take (m_writePosition c) (m_writeCache c))) (\<lambda>s.
     run_bind (v_flush ops s) (\<lambda>s.
     ok (c\<lparr>m_stream := s, m_writePosition := 0, m_readPosition := 0, m_readUse := 0, m_writeUse := 0\<rparr>)))"

definition cCacheStream_length :: "'s basicIO \<Rightarrow> 's cCacheStream \<Rightarrow> nat" where
  "cCacheStream_length ops c = v_length ops (m_stream c)"

definition cCacheStream_getPointer :: "'s basicIO \<Rightarrow> 's cCacheStream \<Rightarrow> nat" where
  "cCacheStream_getPointer ops c = v_getPointer ops (m_stream c)"

definition cCacheStream_seek :: "'s basicIO \<Rightarrow> 's cCacheStream \<Rightarrow> uint32 \<Rightarrow> seekMethod \<Rightarrow> 's cCacheStream run" where
  "cCacheStream_seek ops c distance method =
     run_bind (cCacheStream_flush ops c) (\<lambda>c.
     run_bind (v_seek ops (m_stream c) distance method) (\<lambda>s. ok (c\<lparr>m_stream := s\<rparr>)))"

definition cCacheStream_isEOS :: "'s basicIO \<Rightarrow> 's cCacheStream \<Rightarrow> bool" where
  "cCacheStream_isEOS ops c = v_isEOS ops (m_stream c)"

definition cCacheStream_write :: "'s basicIO \<Rightarrow> 's cCacheStream \<Rightarrow> uint8 list \<Rightarrow> (nat \<times> 's cCacheStream) run" where
  "cCacheStream_write ops c buffer =
     run_bind (if m_writePosition c = length (m_writeCache c) then
                 run_bind (pipeWrite ops (m_stream c) (take (m_writePosition c) (m_writeCache c))) (\<lambda>s.
                 ok (c\<lparr>m_stream := s, m_writePosition := 0\<rparr>))
               else ok c) (\<lambda>c.
     let written = t_min (length buffer) (length (m_writeCache c) - m_writePosition c)
     in ok (written,
            c\<lparr>m_writeCache := memcpy_at (m_writeCache c) (m_writePosition c) buffer written,
              m_writePosition := m_writePosition c + written\<rparr>))"

definition cCacheStream_read :: "'s basicIO \<Rightarrow> 's cCacheStream \<Rightarrow> nat \<Rightarrow> (uint8 list \<times> 's cCacheStream) run" where
  "cCacheStream_read ops c len =
     run_bind (if m_readPosition c = m_readUse c then
                 run_bind (v_read ops (m_stream c) (length (m_readCache c))) (\<lambda>(bs, s).
                 ok (c\<lparr>m_stream := s, m_readCache := memcpy_at (m_readCache c) 0 bs (length bs),
                       m_readUse := length bs, m_readPosition := 0\<rparr>))
               else ok c) (\<lambda>c.
     let lread = t_min len (m_readUse c - m_readPosition c)
     in ok (take lread (drop (m_readPosition c) (m_readCache c)), c\<lparr>m_readPosition := m_readPosition c + lread\<rparr>))"

definition cCacheStream_io :: "'s basicIO \<Rightarrow> 's cCacheStream basicIO" where
  "cCacheStream_io ops =
     \<lparr>v_read = cCacheStream_read ops, v_write = cCacheStream_write ops, v_flush = cCacheStream_flush ops,
      v_isEOS = cCacheStream_isEOS ops, v_seek = cCacheStream_seek ops, v_length = cCacheStream_length ops,
      v_getPointer = cCacheStream_getPointer ops,
      v_getPipeReadBestRequest = v_getPipeReadBestRequest ops, v_isLittleEndian = v_isLittleEndian ops,
      canLength = canLength ops, canSeekFromBegin = canSeekFromBegin ops, canSeekForward = canSeekForward ops,
      canSeekBackward = canSeekBackward ops, canSeekFromEnd = canSeekFromEnd ops, canGetPointer = canGetPointer ops\<rparr>"

subsection \<open>Writing\<close>

definition cache_sink :: "('s \<Rightarrow> bool) \<Rightarrow> 's cCacheStream \<Rightarrow> bool" where
  "cache_sink valid c \<longleftrightarrow> valid (m_stream c) \<and> 0 < length (m_writeCache c) \<and> m_writePosition c \<le> length (m_writeCache c)"

definition cache_written :: "('s \<Rightarrow> uint8 list) \<Rightarrow> 's cCacheStream \<Rightarrow> uint8 list" where
  "cache_written out c = out (m_stream c) @ take (m_writePosition c) (m_writeCache c)"

context output_stream
begin

lemma cache_write_puts:
  assumes "cache_sink valid c" "bs \<noteq> []"
  shows "\<exists>m > 0. m \<le> length bs \<and> yields (cCacheStream_write ops c bs)
     (\<lambda>x. fst x = m \<and> put (cache_sink valid) (cache_written out) (cache_written out c @ take m bs) (snd x))"
proof -
  let ?drained = "if m_writePosition c = length (m_writeCache c) then
                 run_bind (pipeWrite ops (m_stream c) (take (m_writePosition c) (m_writeCache c))) (\<lambda>s.
                 ok (c\<lparr>m_stream := s, m_writePosition := 0\<rparr>))
               else ok c"
  obtain p where p: "(if m_writePosition c = length (m_writeCache c) then 0 else m_writePosition c) = p" by simp
  let ?m = "t_min (length bs) (length (m_writeCache c) - p)"
  have v: "valid (m_stream c)" using assms(1) by (simp add: cache_sink_def)
  have d: "yields ?drained (\<lambda>c'. valid (m_stream c') \<and> m_writePosition c' = p \<and> m_writeCache c' = m_writeCache c \<and>
      cache_written out c' = cache_written out c)"
  proof (cases "m_writePosition c = length (m_writeCache c)")
    case True
    show ?thesis unfolding if_P [OF True]
      by (rule yields_bind [OF pipeWrite_puts [OF v]]) (use p True in \<open>auto simp: put_def cache_written_def\<close>)
  qed (use v p in simp)
  have m: "0 < ?m" "?m \<le> length bs" "?m \<le> length (m_writeCache c) - p" "p \<le> length (m_writeCache c)"
    using assms p by (auto simp: t_min_def cache_sink_def split: if_splits)
  have "yields (cCacheStream_write ops c bs)
     (\<lambda>x. fst x = ?m \<and> put (cache_sink valid) (cache_written out) (cache_written out c @ take ?m bs) (snd x))"
    unfolding cCacheStream_write_def
  proof (rule yields_bind [OF d], goal_cases)
    case (1 c')
    have pm: "p + ?m \<le> length (m_writeCache c)" using m(3,4) by linarith
    have w: "take (p + ?m) (memcpy_at (m_writeCache c) p bs ?m) = take p (m_writeCache c) @ take ?m bs"
      using m by (intro take_memcpy_at) simp_all
    have l: "length (memcpy_at (m_writeCache c) p bs ?m) = length (m_writeCache c)"
      by (rule length_memcpy_at [OF pm m(2)])
    show ?case
      using 1 assms(1) m pm w l by (auto simp: Let_def put_def cache_sink_def cache_written_def)
  qed
  then show ?thesis using m by blast
qed

lemma cache_output: "output_stream (cCacheStream_io ops) (cache_sink valid) (cache_written out)"
  by unfold_locales (use cache_write_puts in \<open>simp add: cCacheStream_io_def\<close>)

end

subsection \<open>Reading\<close>

definition cache_in :: "('s \<Rightarrow> bool) \<Rightarrow> 's cCacheStream \<Rightarrow> bool" where
  "cache_in valid c \<longleftrightarrow> valid (m_stream c) \<and> 0 < length (m_readCache c) \<and> m_readPosition c \<le> m_readUse c \<and>
     m_readUse c \<le> length (m_readCache c)"

definition cache_held :: "'s cCacheStream \<Rightarrow> uint8 list" where
  "cache_held c = drop (m_readPosition c) (take (m_readUse c) (m_readCache c))"

definition cache_rest :: "('s \<Rightarrow> uint8 list) \<Rightarrow> 's cCacheStream \<Rightarrow> uint8 list" where
  "cache_rest rest c = cache_held c @ rest (m_stream c)"

context input_stream
begin

lemma cache_read_got:
  assumes "cache_in valid c" "0 < n"
  shows "\<exists>m c'. cCacheStream_read ops c n = ok (take m (cache_rest rest c), c') \<and> cache_in valid c' \<and>
     cache_rest rest c' = drop m (cache_rest rest c) \<and> m \<le> n \<and> m \<le> length (cache_rest rest c) \<and>
     (cache_rest rest c \<noteq> [] \<longrightarrow> 0 < m) \<and> (m = n \<or> cache_held c' = [])"
proof -
  have tail: "\<exists>m c'. ok (take (t_min n (m_readUse c1 - m_readPosition c1)) (drop (m_readPosition c1) (m_readCache c1)),
          c1\<lparr>m_readPosition := m_readPosition c1 + t_min n (m_readUse c1 - m_readPosition c1)\<rparr>) =
        ok (take m (cache_rest rest c), c') \<and> cache_in valid c' \<and>
     cache_rest rest c' = drop m (cache_rest rest c) \<and> m \<le> n \<and> m \<le> length (cache_rest rest c) \<and>
     (cache_rest rest c \<noteq> [] \<longrightarrow> 0 < m) \<and> (m = n \<or> cache_held c' = [])"
    if c1: "cache_in valid c1" "cache_rest rest c1 = cache_rest rest c" "cache_held c1 = [] \<longrightarrow> rest (m_stream c1) = []" for c1
  proof -
    let ?m = "t_min n (m_readUse c1 - m_readPosition c1)"
    let ?c = "c1\<lparr>m_readPosition := m_readPosition c1 + ?m\<rparr>"
    have h: "length (cache_held c1) = m_readUse c1 - m_readPosition c1"
      using c1(1) by (simp add: cache_in_def cache_held_def)
    have r: "cache_rest rest c = cache_held c1 @ rest (m_stream c1)" using c1(2) by (simp only: cache_rest_def)
    have "take ?m (drop (m_readPosition c1) (m_readCache c1)) = take ?m (cache_held c1)"
      by (simp add: cache_held_def drop_take t_min_def)
    moreover have "take ?m (cache_held c1) = take ?m (cache_rest rest c)"
      using h by (simp add: r t_min_def)
    moreover have "cache_held ?c = drop ?m (cache_held c1)" by (simp add: cache_held_def add.commute)
    moreover have "drop ?m (cache_held c1) @ rest (m_stream c1) = drop ?m (cache_rest rest c)"
      using h by (simp add: r t_min_def)
    moreover have "cache_in valid ?c" using c1(1) by (auto simp: cache_in_def t_min_def)
    moreover have "?m = n \<or> drop ?m (cache_held c1) = []"
      using h by (cases "n \<le> m_readUse c1 - m_readPosition c1") simp_all
    moreover have "cache_rest rest c \<noteq> [] \<longrightarrow> 0 < ?m"
      using h c1(3) assms(2) by (cases "cache_held c1") (auto simp: r)
    moreover have "?m \<le> length (cache_rest rest c)" using h by (simp add: r t_min_def)
    moreover have "?m \<le> n" by (simp add: t_min_def)
    ultimately show ?thesis
      by (intro exI [of _ ?m] exI [of _ ?c]) (simp add: cache_rest_def)
  qed
  show ?thesis
  proof (cases "m_readPosition c = m_readUse c")
    case False
    then have "cache_held c \<noteq> []" using assms(1) by (auto simp: cache_in_def cache_held_def)
    then show ?thesis using tail [of c] assms(1) False by (simp add: cCacheStream_read_def Let_def)
  next
    case True
    have v: "valid (m_stream c)" "0 < length (m_readCache c)" using assms(1) by (auto simp: cache_in_def)
    have e: "cache_held c = []" using True by (simp add: cache_held_def)
    obtain m s where m: "m \<le> length (m_readCache c)" "rest (m_stream c) \<noteq> [] \<longrightarrow> 0 < m"
      and s: "v_read ops (m_stream c) (length (m_readCache c)) = ok (take m (rest (m_stream c)), s)" "valid s"
        "rest s = drop m (rest (m_stream c))"
      using read_law [OF v] by (auto simp: yields_def got_def)
    let ?bs = "take m (rest (m_stream c))"
    let ?c = "c\<lparr>m_stream := s, m_readCache := memcpy_at (m_readCache c) 0 ?bs (length ?bs), m_readUse := length ?bs, m_readPosition := 0\<rparr>"
    have l: "length ?bs \<le> length (m_readCache c)" using m(1) by simp
    have "length (memcpy_at (m_readCache c) 0 ?bs (length ?bs)) = length (m_readCache c)"
      by (rule length_memcpy_at) (use l in simp_all)
    then have i: "cache_in valid ?c" using s(2) l v(2) by (simp add: cache_in_def)
    have h: "cache_held ?c = ?bs" by (simp add: cache_held_def memcpy_at_def)
    have "cache_rest rest ?c = cache_rest rest c" using h e s(3) by (simp add: cache_rest_def)
    moreover have "cache_held ?c = [] \<longrightarrow> rest (m_stream ?c) = []" unfolding h using m(2) s(3) by auto
    ultimately show ?thesis using tail [OF i] True s(1) by (simp add: cCacheStream_read_def Let_def)
  qed
qed

text \<open>The reading loop is right for requests up to the best size of one request.\<close>

lemma cache_pipeRead:
  "cache_in valid c \<Longrightarrow> n \<le> v_getPipeReadBestRequest ops \<Longrightarrow>
     yields (pipeRead (cCacheStream_io ops) c n) (got (cache_in valid) (cache_rest rest) (take n (cache_rest rest c)) (drop n (cache_rest rest c)))"
proof (induction n arbitrary: c rule: less_induct)
  case (less n)
  show ?case
  proof (cases "n = 0")
    case True
    then show ?thesis using less.prems by (subst pipeRead.simps) simp
  next
    case False
    then obtain m c' where c': "cCacheStream_read ops c n = ok (take m (cache_rest rest c), c')" "cache_in valid c'"
      "cache_rest rest c' = drop m (cache_rest rest c)" "m \<le> n" "m \<le> length (cache_rest rest c)"
      "cache_rest rest c \<noteq> [] \<longrightarrow> 0 < m" "m = n \<or> cache_held c' = []"
      using cache_read_got [OF less.prems(1)] by blast
    have best': "t_min n (v_getPipeReadBestRequest (cCacheStream_io ops)) = n"
      using less.prems(2) by (simp add: t_min_def cCacheStream_io_def)
    have r: "v_read (cCacheStream_io ops) c n = ok (take m (cache_rest rest c), c')" using c'(1) by (simp add: cCacheStream_io_def)
    have e: "v_isEOS (cCacheStream_io ops) c' \<longleftrightarrow> rest (m_stream c') = []"
      using eos_law [of "m_stream c'"] c'(2) by (simp add: cCacheStream_io_def cCacheStream_isEOS_def cache_in_def)
    show ?thesis
    proof (cases "v_isEOS (cCacheStream_io ops) c'")
      case True
      then have "m = n \<or> cache_rest rest c' = []" using c'(7) e by (auto simp: cache_rest_def)
      then have "take m (cache_rest rest c) = take n (cache_rest rest c) \<and> drop m (cache_rest rest c) = drop n (cache_rest rest c)"
        using c'(3,4) by auto
      then show ?thesis using False True r best' c'(2,3) by (subst pipeRead.simps) simp
    next
      case more: False
      then have "cache_rest rest c \<noteq> []" using e c'(3) by (auto simp: cache_rest_def)
      then have "n - m < n" using c'(6) False by simp
      then have "yields (pipeRead (cCacheStream_io ops) c' (n - m))
          (got (cache_in valid) (cache_rest rest) (take (n - m) (cache_rest rest c')) (drop (n - m) (cache_rest rest c')))"
        using less.IH [OF _ c'(2)] less.prems(2) by simp
      then obtain c2 where r2: "pipeRead (cCacheStream_io ops) c' (n - m) = ok (take (n - m) (drop m (cache_rest rest c)), c2)"
        "cache_in valid c2" "cache_rest rest c2 = drop n (cache_rest rest c)"
        using c'(3,4) by (auto simp: yields_def got_def)
      have "take m (cache_rest rest c) @ take (n - m) (drop m (cache_rest rest c)) = take n (cache_rest rest c)"
        using c'(4) by (rule take_drop_split)
      then show ?thesis
        using False more r r2 best' c'(4,5) by (subst pipeRead.simps) (simp add: min_def)
    qed
  qed
qed

end

subsection \<open>A cached memory file\<close>

interpretation cache_mem_out: output_stream "cCacheStream_io cMemoryStream_io"
  "cache_sink cMemoryStream_atEnd" "cache_written m_data"
  by (rule mem_append.cache_output)

fun write_all :: "'s basicIO \<Rightarrow> 's \<Rightarrow> uint8 list list \<Rightarrow> 's run" where
  "write_all ops s [] = ok s"
| "write_all ops s (bs # bss) = run_bind (pipeWrite ops s bs) (\<lambda>s. write_all ops s bss)"

fun read_all :: "'s basicIO \<Rightarrow> 's \<Rightarrow> nat list \<Rightarrow> (uint8 list \<times> 's) run" where
  "read_all ops s [] = ok ([], s)"
| "read_all ops s (n # ns) =
     run_bind (pipeRead ops s n) (\<lambda>(bs, s). run_bind (read_all ops s ns) (\<lambda>(cs, s). ok (bs @ cs, s)))"

context output_stream
begin

lemma write_all_puts:
  "valid s \<Longrightarrow> yields (write_all ops s bss) (put valid out (out s @ concat bss))"
proof (induction bss arbitrary: s)
  case (Cons bs bss)
  show ?case unfolding write_all.simps
  proof (rule yields_bind [OF pipeWrite_puts [OF Cons.prems]], goal_cases)
    case (1 s')
    then show ?case using Cons.IH [of s'] by (simp add: put_def)
  qed
qed (simp add: put_def)

end

context input_stream
begin

lemma cache_read_all:
  "cache_in valid c \<Longrightarrow> list_all (\<lambda>n. n \<le> v_getPipeReadBestRequest ops) ns \<Longrightarrow>
     yields (read_all (cCacheStream_io ops) c ns)
       (got (cache_in valid) (cache_rest rest) (take (sum_list ns) (cache_rest rest c)) (drop (sum_list ns) (cache_rest rest c)))"
proof (induction ns arbitrary: c)
  case (Cons n ns)
  have n: "n \<le> v_getPipeReadBestRequest ops" and ns: "list_all (\<lambda>n. n \<le> v_getPipeReadBestRequest ops) ns"
    using Cons.prems(2) by auto
  show ?case unfolding read_all.simps
  proof (rule got_bind [OF cache_pipeRead [OF Cons.prems(1) n]], goal_cases)
    case (1 c')
    have m: "yields (read_all (cCacheStream_io ops) c' ns)
       (got (cache_in valid) (cache_rest rest) (take (sum_list ns) (drop n (cache_rest rest c))) (drop (sum_list ns + n) (cache_rest rest c)))"
      using Cons.IH [OF 1(1) ns] 1(2) by (simp add: add.commute)
    show ?case unfolding prod.case
      by (rule got_bind [OF m]) (simp add: take_add add.commute)
  qed
qed simp

end

lemma cache_flush_puts:
  assumes "cache_sink cMemoryStream_atEnd c"
  shows "yields (cCacheStream_flush cMemoryStream_io c) (\<lambda>c'. m_data (m_stream c') = cache_written m_data c)"
  unfolding cCacheStream_flush_def
  by (rule yields_bind [OF mem_append.pipeWrite_puts])
    (use assms in \<open>auto simp: cache_sink_def put_def cache_written_def cMemoryStream_io_def cMemoryStream_flush_def\<close>)

text \<open>
  C25: blocks of any lengths that are written through a cache of any size to a memory file and
  flushed are stored one after the other, and every call returns. Reads of at most 4096 bytes
  through a cache return the bytes of the file one after the other, to its end. But the filter
  reports the end of the stream below: when the cache holds the whole file, a longer read stops
  after 4096 bytes.
\<close>

theorem cache_reads_writes:
  assumes "r \<noteq> []" "w \<noteq> []" "list_all (\<lambda>n. n \<le> 4096) ns"
    and "4096 < n" "n \<le> length data" "length data \<le> length r"
  shows "yields (run_bind (write_all (cCacheStream_io cMemoryStream_io) (cCacheStream_new r w (cMemoryStream_new_data [] False)) bss) (\<lambda>c.
           cCacheStream_flush cMemoryStream_io c)) (\<lambda>c. m_data (m_stream c) = concat bss) \<and>
    yields (read_all (cCacheStream_io cMemoryStream_io) (cCacheStream_new r w (cMemoryStream_new_data bs fixed)) ns)
      (\<lambda>x. fst x = take (sum_list ns) bs) \<and>
    yields (pipeRead (cCacheStream_io cMemoryStream_io) (cCacheStream_new r w (cMemoryStream_new_data data fixed)) n)
      (\<lambda>x. fst x = take 4096 data)"
proof (intro conjI)
  let ?c = "cCacheStream_new r w (cMemoryStream_new_data [] False)"
  have c: "cache_sink cMemoryStream_atEnd ?c" "cache_written m_data ?c = []"
    using assms(2) by (simp_all add: cache_sink_def cache_written_def cCacheStream_new_def cMemoryStream_atEnd_def cMemoryStream_new_data_def)
  show "yields (run_bind (write_all (cCacheStream_io cMemoryStream_io) ?c bss) (\<lambda>c. cCacheStream_flush cMemoryStream_io c))
      (\<lambda>c. m_data (m_stream c) = concat bss)"
  proof (rule yields_bind [OF cache_mem_out.write_all_puts [OF c(1)]], goal_cases)
    case (1 c')
    then show ?case using cache_flush_puts [of c'] c(2) by (auto simp: put_def)
  qed
next
  let ?c = "cCacheStream_new r w (cMemoryStream_new_data bs fixed)"
  have c: "cache_in cMemoryStream_inv ?c" "cache_rest cMemoryStream_rest ?c = bs"
    using assms(1) by (simp_all add: cache_in_def cache_rest_def cache_held_def cCacheStream_new_def cMemoryStream_new_data_def
        cMemoryStream_inv_def cMemoryStream_rest_def)
  have "list_all (\<lambda>n. n \<le> v_getPipeReadBestRequest cMemoryStream_io) ns" using assms(3) by (simp add: cMemoryStream_io_def)
  from mem_in.cache_read_all [OF c(1) this]
  show "yields (read_all (cCacheStream_io cMemoryStream_io) ?c ns) (\<lambda>x. fst x = take (sum_list ns) bs)"
    by (rule yields_mono) (simp add: got_def c(2))
next
  let ?s = "cMemoryStream_new_data data fixed"
  let ?c = "cCacheStream_new r w ?s"
  let ?c' = "?c\<lparr>m_stream := ?s\<lparr>m_filePosition := length data\<rparr>, m_readCache := memcpy_at r 0 data (length data),
    m_readUse := length data, m_readPosition := 4096\<rparr>"
  have "v_read cMemoryStream_io ?s (length r) = ok (data, ?s\<lparr>m_filePosition := length data\<rparr>)"
    using assms(6) by (simp add: cMemoryStream_io_def cMemoryStream_read_def cMemoryStream_new_data_def t_min_def Let_def)
  then have "cCacheStream_read cMemoryStream_io ?c 4096 = ok (take 4096 data, ?c')"
    using assms(4-6) by (simp add: cCacheStream_read_def cCacheStream_new_def t_min_def Let_def memcpy_at_def)
  then have r: "v_read (cCacheStream_io cMemoryStream_io) ?c (t_min n (v_getPipeReadBestRequest (cCacheStream_io cMemoryStream_io))) =
      ok (take 4096 data, ?c')"
    using assms(4) by (simp add: cCacheStream_io_def t_min_def) (simp add: cMemoryStream_io_def)
  have e: "v_isEOS (cCacheStream_io cMemoryStream_io) ?c'"
    by (simp add: cCacheStream_io_def cCacheStream_isEOS_def cMemoryStream_io_def cMemoryStream_isEOS_def cMemoryStream_new_data_def)
  have "pipeRead (cCacheStream_io cMemoryStream_io) ?c n = ok (take 4096 data, ?c')"
    using assms(4) r e by (subst pipeRead.simps) simp
  then show "yields (pipeRead (cCacheStream_io cMemoryStream_io) ?c n) (\<lambda>x. fst x = take 4096 data)" by simp
qed

theorem cache_reads_writes_witness:
  "yields (run_bind (write_all (cCacheStream_io cMemoryStream_io)
             (cCacheStream_new (replicate 4097 0) [0] (cMemoryStream_new_data [] False)) [[1, 2], [3]]) (\<lambda>c.
           cCacheStream_flush cMemoryStream_io c)) (\<lambda>c. m_data (m_stream c) = [1, 2, 3]) \<and>
    yields (read_all (cCacheStream_io cMemoryStream_io)
             (cCacheStream_new (replicate 4097 0) [0] (cMemoryStream_new_data [5, 6] False)) [1, 1])
      (\<lambda>x. fst x = [5, 6]) \<and>
    yields (pipeRead (cCacheStream_io cMemoryStream_io)
             (cCacheStream_new (replicate 4097 0) [0] (cMemoryStream_new_data (replicate 4097 7) False)) 4097)
      (\<lambda>x. fst x = replicate 4096 7)"
  using cache_reads_writes [of "replicate 4097 0" "[0]" "[1, 1]" 4097 "replicate 4097 7" "[[1, 2], [3]]" "[5, 6]" False]
  by simp

end
