(* ===== verification/XBraces.thy ===== *)
theory XBraces
  imports XStringProps
begin

text \<open>
  The counter of braces of parser/braces.cpp: the stack of open braces with the cache of its last
  one, and the language that it accepts.
\<close>

subsection \<open>The counter\<close>

definition m_braces :: "(character \<times> character) list" where
  "m_braces = [(ch CHR ''{'', ch CHR ''}''), (ch CHR ''['', ch CHR '']''), (ch CHR ''('', ch CHR '')'')]"

record Braces =
  m_state :: "character list"
  m_stateCache :: character

definition Braces_isOpenBrace :: "character \<Rightarrow> bool" where
  "Braces_isOpenBrace data \<longleftrightarrow> List.find (\<lambda>b. fst b = data) m_braces \<noteq> None"

definition Braces_isCloseBrace :: "character \<Rightarrow> bool" where
  "Braces_isCloseBrace data \<longleftrightarrow> List.find (\<lambda>b. snd b = data) m_braces \<noteq> None"

definition Braces_isMatch :: "character \<Rightarrow> character \<Rightarrow> bool res" where
  "Braces_isMatch op cl =
     (case List.find (\<lambda>b. fst b = op) m_braces of
        Some b \<Rightarrow> Inr (snd b = cl)
      | None \<Rightarrow> Inl EXCEPTION_ASSERTION)"

definition Braces_getCloseCharacter :: "character \<Rightarrow> character res" where
  "Braces_getCloseCharacter op =
     (case List.find (\<lambda>b. fst b = op) m_braces of
        Some b \<Rightarrow> Inr (snd b)
      | None \<Rightarrow> Inl EXCEPTION_ASSERTION)"

definition Braces_getNextCloserCharacer :: "Braces \<Rightarrow> character res" where
  "Braces_getNextCloserCharacer b = Braces_getCloseCharacter (m_stateCache b)"

definition Braces_new :: "character \<Rightarrow> Braces res" where
  "Braces_new braces =
     (if \<not> Braces_isOpenBrace braces then Inl (BRACES_EXCEPTION braces (ch CHR ''}''))
      else Inr \<lparr>m_state = [braces], m_stateCache = braces\<rparr>)"

text \<open>A closing brace after the end of the block would step back from the end of an empty list.\<close>

definition Braces_eatCharacter :: "Braces \<Rightarrow> character \<Rightarrow> (bool \<times> Braces) res" where
  "Braces_eatCharacter b data =
     (if Braces_isOpenBrace data then
        Inr (False, b\<lparr>m_state := m_state b @ [data], m_stateCache := data\<rparr>)
      else if Braces_isCloseBrace data then
        bind_res (Braces_isMatch (m_stateCache b) data) (\<lambda>match.
        if \<not> match then
          bind_res (Braces_getNextCloserCharacer b) (\<lambda>e. Inl (BRACES_EXCEPTION data e))
        else if m_state b = [] then Inl UNDEFINED_BEHAVIOUR
        else if length (m_state b) = 1 then Inr (True, b\<lparr>m_state := []\<rparr>)
        else Inr (False, b\<lparr>m_state := butlast (m_state b), m_stateCache := last (butlast (m_state b))\<rparr>))
      else Inr (False, b))"

subsection \<open>Balanced text\<close>

text \<open>Characters are fed to the counter until it reports the end of the block.\<close>

fun feed :: "Braces \<Rightarrow> character list \<Rightarrow> (bool \<times> character list \<times> Braces) res" where
  "feed b [] = Inr (False, [], b)"
| "feed b (x # xs) =
     bind_res (Braces_eatCharacter b x) (\<lambda>(stop, b). if stop then Inr (True, xs, b) else feed b xs)"

definition plain :: "character \<Rightarrow> bool" where
  "plain c \<longleftrightarrow> \<not> Braces_isOpenBrace c \<and> \<not> Braces_isCloseBrace c"

inductive balanced :: "character list \<Rightarrow> bool" where
  bal_nil: "balanced []"
| bal_plain: "plain c \<Longrightarrow> balanced xs \<Longrightarrow> balanced (c # xs)"
| bal_block: "(op, cl) \<in> set m_braces \<Longrightarrow> balanced xs \<Longrightarrow> balanced ys \<Longrightarrow> balanced (op # xs @ cl # ys)"

text \<open>The states of the counter before the end of the block.\<close>

definition Braces_inv :: "Braces \<Rightarrow> bool" where
  "Braces_inv b \<longleftrightarrow> m_state b \<noteq> [] \<and> m_stateCache b = last (m_state b) \<and> list_all Braces_isOpenBrace (m_state b)"

lemma brace_pairs:
  assumes "(op, cl) \<in> set m_braces"
  shows "Braces_isOpenBrace op" "\<not> Braces_isOpenBrace cl" "Braces_isCloseBrace cl"
    "Braces_isMatch op x = Inr (x = cl)" "Braces_getCloseCharacter op = Inr cl"
  using assms
  by (auto simp: m_braces_def Braces_isOpenBrace_def Braces_isCloseBrace_def Braces_isMatch_def
      Braces_getCloseCharacter_def ch_def)

lemma open_pair: "Braces_isOpenBrace op \<Longrightarrow> \<exists>cl. (op, cl) \<in> set m_braces"
  by (auto simp: m_braces_def Braces_isOpenBrace_def split: if_splits)

lemma open_not_close: "Braces_isOpenBrace c \<Longrightarrow> \<not> Braces_isCloseBrace c"
  by (auto simp: m_braces_def Braces_isOpenBrace_def Braces_isCloseBrace_def ch_def split: if_splits)

lemma eat_plain: "plain c \<Longrightarrow> Braces_eatCharacter b c = Inr (False, b)"
  by (simp add: plain_def Braces_eatCharacter_def)

lemma eat_open:
  "Braces_isOpenBrace c \<Longrightarrow> Braces_inv b \<Longrightarrow>
     Braces_eatCharacter b c = Inr (False, b\<lparr>m_state := m_state b @ [c], m_stateCache := c\<rparr>) \<and>
     Braces_inv (b\<lparr>m_state := m_state b @ [c], m_stateCache := c\<rparr>)"
  by (simp add: Braces_eatCharacter_def Braces_inv_def)

text \<open>What a closing brace does on the stack \<open>st @ [op]\<close>.\<close>

lemma eat_close:
  assumes "Braces_inv b" "m_state b = st @ [op]" "(op, cl) \<in> set m_braces" "Braces_isCloseBrace c"
  shows "Braces_eatCharacter b c =
     (if c \<noteq> cl then Inl (BRACES_EXCEPTION c cl)
      else if st = [] then Inr (True, b\<lparr>m_state := []\<rparr>)
      else Inr (False, b\<lparr>m_state := st, m_stateCache := last st\<rparr>))"
  using assms brace_pairs [OF assms(3)] open_not_close [of c]
  by (auto simp: Braces_eatCharacter_def Braces_getNextCloserCharacer_def Braces_inv_def)

lemma feed_balanced:
  "balanced xs \<Longrightarrow> Braces_inv b \<Longrightarrow> feed b (xs @ zs) = feed b zs"
proof (induction arbitrary: b zs rule: balanced.induct)
  case (bal_block op cl xs ys)
  let ?b = "b\<lparr>m_state := m_state b @ [op], m_stateCache := op\<rparr>"
  note p = brace_pairs [OF bal_block.hyps(1)]
  have e: "Braces_eatCharacter b op = Inr (False, ?b)" and i: "Braces_inv ?b"
    using eat_open [OF p(1) bal_block.prems] by auto
  have c: "Braces_eatCharacter ?b cl = Inr (False, b)"
    using eat_close [OF i _ bal_block.hyps(1) p(3), of "m_state b"] bal_block.prems
    by (simp add: Braces_inv_def)
  show ?case using e c bal_block.IH(1) [OF i, of "cl # ys @ zs"] bal_block.IH(2) [OF bal_block.prems, of zs] by simp
qed (auto simp: eat_plain)

text \<open>The text that closes the braces of a stack, innermost first.\<close>

fun closes :: "character list \<Rightarrow> character list \<Rightarrow> character list \<Rightarrow> bool" where
  "closes [] xs ys \<longleftrightarrow> xs = ys"
| "closes (op # st) xs ys \<longleftrightarrow>
     (\<exists>body cl r. xs = body @ cl # r \<and> balanced body \<and> (op, cl) \<in> set m_braces \<and> closes st r ys)"

lemma closes_append: "balanced as \<Longrightarrow> balanced bs \<Longrightarrow> balanced (as @ bs)"
  by (induction rule: balanced.induct) (auto intro: balanced.intros)

lemma closes_prepend:
  assumes "\<And>body. balanced body \<Longrightarrow> balanced (p @ body)" "closes (op # st) xs ys"
  shows "closes (op # st) (p @ xs) ys"
  using assms by (simp, metis append.assoc)

lemma feed_closes:
  "feed b xs = Inr (True, ys, b') \<Longrightarrow> Braces_inv b \<Longrightarrow> closes (rev (m_state b)) xs ys"
proof (induction xs arbitrary: b)
  case (Cons x xs)
  obtain st op where st: "m_state b = st @ [op]" and op: "Braces_isOpenBrace op"
    using Cons.prems(2) by (cases "m_state b" rule: rev_cases) (auto simp: Braces_inv_def)
  obtain cl where cl: "(op, cl) \<in> set m_braces" using open_pair [OF op] by blast
  consider "plain x" | "Braces_isOpenBrace x" | "Braces_isCloseBrace x" by (auto simp: plain_def)
  then show ?case
  proof cases
    case 1
    then have "closes (rev (m_state b)) xs ys" using Cons by (simp add: eat_plain)
    then show ?thesis using closes_prepend [of "[x]" op "rev st" xs ys] 1 st by (simp add: bal_plain del: closes.simps)
  next
    case 2
    let ?b = "b\<lparr>m_state := m_state b @ [x], m_stateCache := x\<rparr>"
    have "closes (rev (m_state ?b)) xs ys"
      using Cons.IH [of ?b] Cons.prems eat_open [OF 2 Cons.prems(2)] by simp
    then have "closes (x # op # rev st) xs ys" using st by (simp del: closes.simps)
    then obtain body cl' r where "xs = body @ cl' # r" "balanced body" "(x, cl') \<in> set m_braces"
      and c: "closes (op # rev st) r ys" unfolding closes.simps(2) [of x] by blast
    then show ?thesis
      using closes_prepend [OF _ c, of "x # body @ [cl']"] st by (simp add: bal_block del: closes.simps)
  next
    case 3
    note e = eat_close [OF Cons.prems(2) st cl 3]
    have x: "x = cl" using Cons.prems(1) e by (auto split: if_splits)
    have "closes (rev st) xs ys"
    proof (cases "st = []")
      case True
      then show ?thesis using Cons.prems(1) e x by simp
    next
      case False
      have "Braces_inv (b\<lparr>m_state := st, m_stateCache := last st\<rparr>)"
        using Cons.prems(2) st False by (simp add: Braces_inv_def)
      then show ?thesis using Cons.IH [of "b\<lparr>m_state := st, m_stateCache := last st\<rparr>"] Cons.prems(1) e x False by simp
    qed
    then show ?thesis
      using st cl x by (auto intro!: exI [of _ "[]"] bal_nil)
  qed
qed simp

text \<open>
  C37: a block that starts with an open brace ends exactly behind the first text that is balanced
  and followed by the brace that closes it; a closing brace of another kind throws, naming the
  one that was expected, and the constructor refuses everything but an open brace.
\<close>

theorem braces_block:
  "if Braces_isOpenBrace op then
     (\<exists>b. Braces_new op = Inr b \<and>
       (\<forall>xs ys. (\<exists>b'. feed b xs = Inr (True, ys, b')) \<longleftrightarrow>
          (\<exists>body cl. balanced body \<and> (op, cl) \<in> set m_braces \<and> xs = body @ cl # ys)) \<and>
       (\<forall>body c cl ys. balanced body \<and> (op, cl) \<in> set m_braces \<and> Braces_isCloseBrace c \<and> c \<noteq> cl \<longrightarrow>
          feed b (body @ c # ys) = Inl (BRACES_EXCEPTION c cl)))
   else Braces_new op = Inl (BRACES_EXCEPTION op (ch CHR ''}''))"
proof (cases "Braces_isOpenBrace op")
  case op: True
  let ?b = "\<lparr>m_state = [op], m_stateCache = op\<rparr>"
  have i: "Braces_inv ?b" using op by (simp add: Braces_inv_def)
  have "(\<exists>b. Braces_new op = Inr b \<and>
       (\<forall>xs ys. (\<exists>b'. feed b xs = Inr (True, ys, b')) \<longleftrightarrow>
          (\<exists>body cl. balanced body \<and> (op, cl) \<in> set m_braces \<and> xs = body @ cl # ys)) \<and>
       (\<forall>body c cl ys. balanced body \<and> (op, cl) \<in> set m_braces \<and> Braces_isCloseBrace c \<and> c \<noteq> cl \<longrightarrow>
          feed b (body @ c # ys) = Inl (BRACES_EXCEPTION c cl)))"
  proof (rule exI [of _ ?b], intro conjI allI impI iffI)
    show "Braces_new op = Inr ?b" using op by (simp add: Braces_new_def)
  next
    fix xs ys assume "\<exists>b'. feed ?b xs = Inr (True, ys, b')"
    then obtain b' where "feed ?b xs = Inr (True, ys, b')" by blast
    from feed_closes [OF this i]
    show "\<exists>body cl. balanced body \<and> (op, cl) \<in> set m_braces \<and> xs = body @ cl # ys" by auto
  next
    fix xs ys assume "\<exists>body cl. balanced body \<and> (op, cl) \<in> set m_braces \<and> xs = body @ cl # ys"
    then obtain body cl where b: "balanced body" "(op, cl) \<in> set m_braces" "xs = body @ cl # ys" by blast
    then show "\<exists>b'. feed ?b xs = Inr (True, ys, b')"
      using feed_balanced [OF b(1) i] eat_close [OF i _ b(2) brace_pairs(3) [OF b(2)], of "[]"] by simp
  next
    fix body c cl ys
    assume "balanced body \<and> (op, cl) \<in> set m_braces \<and> Braces_isCloseBrace c \<and> c \<noteq> cl"
    then show "feed ?b (body @ c # ys) = Inl (BRACES_EXCEPTION c cl)"
      using feed_balanced [OF _ i] eat_close [OF i _ _ _, of "[]" op cl c] by simp
  qed
  then show ?thesis using op by simp
qed (simp add: Braces_new_def)

theorem braces_block_witness:
  "Braces_isOpenBrace (ch CHR ''('') \<and>
   (\<exists>b b'. Braces_new (ch CHR ''('') = Inr b \<and> feed b (lit ''a[x]{}) c'') = Inr (True, lit '' c'', b')) \<and>
   Braces_new (ch CHR ''x'') = Inl (BRACES_EXCEPTION (ch CHR ''x'') (ch CHR ''}''))"
proof -
  have op: "Braces_isOpenBrace (ch CHR ''('')" "\<not> Braces_isOpenBrace (ch CHR ''x'')"
    by (simp_all add: Braces_isOpenBrace_def m_braces_def ch_def)
  have plain: "plain (ch CHR ''a'')" "plain (ch CHR ''x'')"
    by (simp_all add: plain_def Braces_isOpenBrace_def Braces_isCloseBrace_def m_braces_def ch_def)
  have b: "balanced (lit ''a[x]{}'')"
    using bal_plain [OF plain(1) bal_block [of "ch CHR ''[''" "ch CHR '']''" "[ch CHR ''x'']" "[ch CHR ''{'', ch CHR ''}'']"]]
      bal_plain [OF plain(2) bal_nil] bal_block [of "ch CHR ''{''" "ch CHR ''}''" "[]" "[]"] bal_nil
    by (simp add: m_braces_def lit_def ch_def)
  have m: "(ch CHR ''('', ch CHR '')'') \<in> set m_braces" by (simp add: m_braces_def)
  obtain b0 where n: "Braces_new (ch CHR ''('') = Inr b0"
    and f: "\<And>xs ys. (\<exists>b'. feed b0 xs = Inr (True, ys, b')) \<longleftrightarrow>
        (\<exists>body cl. balanced body \<and> (ch CHR ''('', cl) \<in> set m_braces \<and> xs = body @ cl # ys)"
    using braces_block [of "ch CHR ''(''", unfolded if_P [OF op(1)]] by blast
  have "lit ''a[x]{}) c'' = lit ''a[x]{}'' @ ch CHR '')'' # lit '' c''" by (simp add: lit_def ch_def)
  then have "\<exists>b'. feed b0 (lit ''a[x]{}) c'') = Inr (True, lit '' c'', b')" using f b m by blast
  then show ?thesis using op(1) n braces_block [of "ch CHR ''x''", unfolded if_not_P [OF op(2)]] by blast
qed

end
