(* ===== verification/XDataStream.thy ===== *)
theory XDataStream
  imports XBasicIO
begin

text \<open>
  The hexadecimal formats of data/datastream.cpp, the comparison of remote addresses
  (remoteAddress.cpp), and the types and variables of parser/types.cpp and parser/variable.cpp.
\<close>

subsection \<open>Hexadecimal formats\<close>

definition hexUpperStrip :: "character list" where
  "hexUpperStrip = lit ''0123456789ABCDEF'' @ [0]"

definition DB :: "uint8 \<Rightarrow> uint8 \<Rightarrow> uint8" where
  "DB c nonPrintable = (if c < 0x20 \<or> c > 0x7F then nonPrintable else c)"

definition HEXHIGH :: "uint8 \<Rightarrow> character" where
  "HEXHIGH c = hexUpperStrip ! unat (drop_bit 4 c)"

definition HEXLOW :: "uint8 \<Rightarrow> character" where
  "HEXLOW c = hexUpperStrip ! unat (c AND 0x0F)"

definition HEXBYTE :: "uint8 \<Rightarrow> cString" where
  "HEXBYTE c =
     cString_plus (cString_new_char (hexUpperStrip ! unat (drop_bit 4 c)))
                  (cString_new_char (hexUpperStrip ! unat (c AND 0x0F)))"

definition HEXWORD :: "uint16 \<Rightarrow> cString" where
  "HEXWORD n = cString_plus (HEXBYTE (ucast (drop_bit 8 n))) (HEXBYTE (ucast (n AND 0xFF)))"

definition HEXDWORD :: "uint32 \<Rightarrow> cString" where
  "HEXDWORD n = cString_plus (HEXWORD (ucast (drop_bit 16 n))) (HEXWORD (ucast (n AND 0xFFFF)))"

definition HEXQWORD :: "uint64 \<Rightarrow> cString" where
  "HEXQWORD n = cString_plus (HEXDWORD (ucast (drop_bit 32 n))) (HEXDWORD (ucast (n AND 0xFFFFFFFF)))"

text \<open>The shortest format that the code has; the bits above the 32nd are cut off.\<close>

definition HEXNUMBER :: "uint64 \<Rightarrow> cString" where
  "HEXNUMBER number =
     (if number < 0x100 then HEXBYTE (ucast number)
      else if number < 0x10000 then HEXWORD (ucast number)
      else HEXDWORD (ucast number))"

definition HEXREMOTEADDRESS :: "remoteAddressNumericValue \<Rightarrow> cString" where
  "HEXREMOTEADDRESS address =
     (case m_type address of
        REMOTE_ADDRESS_16BIT \<Rightarrow> HEXWORD (ucast (m_union address))
      | REMOTE_ADDRESS_32BIT \<Rightarrow> HEXDWORD (ucast (m_union address))
      | REMOTE_ADDRESS_64BIT \<Rightarrow> HEXQWORD (m_union address)
      | REMOTE_ADDRESS_INVALID _ \<Rightarrow> cString_new (Some (lit ''UNKNOWN'' @ [0])))"

subsection \<open>Remote addresses\<close>

definition remoteAddress_new :: "uint64 \<Rightarrow> RemoteAddressEncodingTypes \<Rightarrow> remoteAddressNumericValue" where
  "remoteAddress_new address type = \<lparr>m_union = address, m_type = type\<rparr>"

definition remoteAddress_new_default :: remoteAddressNumericValue where
  "remoteAddress_new_default = \<lparr>m_union = 0, m_type = DEFAULT_REMOTE_ADDRESS_ENCODING\<rparr>"

definition HEXADDRESS :: "uint64 \<Rightarrow> cString" where
  "HEXADDRESS address = HEXREMOTEADDRESS (remoteAddress_new address DEFAULT_REMOTE_ADDRESS_ENCODING)"

definition remoteAddress_getClipedAddress :: "remoteAddressNumericValue \<Rightarrow> uint64 res" where
  "remoteAddress_getClipedAddress a =
     (case m_type a of
        REMOTE_ADDRESS_16BIT \<Rightarrow> Inr (m_union a AND 0xFFFF)
      | REMOTE_ADDRESS_32BIT \<Rightarrow> Inr (m_union a AND 0xFFFFFFFF)
      | REMOTE_ADDRESS_64BIT \<Rightarrow> Inr (m_union a)
      | REMOTE_ADDRESS_INVALID _ \<Rightarrow> Inl EXCEPTION_ASSERTION)"

definition remoteAddress_eq :: "remoteAddressNumericValue \<Rightarrow> remoteAddressNumericValue \<Rightarrow> bool res" where
  "remoteAddress_eq a other =
     bind_res (remoteAddress_getClipedAddress a) (\<lambda>x.
     bind_res (remoteAddress_getClipedAddress other) (\<lambda>y. Inr (x = y)))"

definition remoteAddress_less :: "remoteAddressNumericValue \<Rightarrow> remoteAddressNumericValue \<Rightarrow> bool res" where
  "remoteAddress_less a other =
     bind_res (remoteAddress_getClipedAddress a) (\<lambda>x.
     bind_res (remoteAddress_getClipedAddress other) (\<lambda>y. Inr (x < y)))"

text \<open>\<open>>=\<close> and \<open><=\<close> as \<open>MAKE_SIMPLE_OPERATORS\<close> derives them.\<close>

definition remoteAddress_isInsideRange ::
    "remoteAddressNumericValue \<Rightarrow> remoteAddressNumericValue \<Rightarrow> remoteAddressNumericValue \<Rightarrow> bool res" where
  "remoteAddress_isInsideRange a start end =
     bind_res (remoteAddress_less a start) (\<lambda>below.
     if below then Inr False
     else
       bind_res (remoteAddress_less a end) (\<lambda>less.
       if less then Inr True else remoteAddress_eq a end))"

definition remoteAddress_getAddressValue :: "remoteAddressNumericValue \<Rightarrow> uint64 res" where
  "remoteAddress_getAddressValue a =
     (case DEFAULT_REMOTE_ADDRESS_ENCODING of
        REMOTE_ADDRESS_16BIT \<Rightarrow>
          bind_res (CHECK (m_union a \<le> 0xFFFF)) (\<lambda>_. Inr (ucast (ucast (m_union a) :: uint16)))
      | REMOTE_ADDRESS_32BIT \<Rightarrow>
          bind_res (CHECK (m_union a \<le> 0xFFFFFFFF)) (\<lambda>_. Inr (ucast (ucast (m_union a) :: uint32)))
      | REMOTE_ADDRESS_64BIT \<Rightarrow> Inr (m_union a)
      | REMOTE_ADDRESS_INVALID _ \<Rightarrow> Inl EXCEPTION_ASSERTION)"

subsection \<open>Types and variables\<close>

datatype Types =
    TYPE_UINT8 | TYPE_UINT16 | TYPE_UINT32
  | TYPE_INT8 | TYPE_INT16 | TYPE_INT32
  | TYPE_STRING | TYPE_VOID

definition m_typeStrings :: "(Types \<times> character list) list" where
  "m_typeStrings =
     [(TYPE_UINT8, lit ''uint8'' @ [0]), (TYPE_UINT16, lit ''uint16'' @ [0]), (TYPE_UINT32, lit ''uint32'' @ [0]),
      (TYPE_INT8, lit ''int8'' @ [0]), (TYPE_INT16, lit ''int16'' @ [0]), (TYPE_INT32, lit ''int32'' @ [0]),
      (TYPE_STRING, lit ''string'' @ [0]), (TYPE_VOID, lit ''void'' @ [0])]"

fun m_typeSize :: "Types \<Rightarrow> uint64" where
  "m_typeSize TYPE_UINT8 = 1"
| "m_typeSize TYPE_UINT16 = 2"
| "m_typeSize TYPE_UINT32 = 4"
| "m_typeSize TYPE_INT8 = 1"
| "m_typeSize TYPE_INT16 = 2"
| "m_typeSize TYPE_INT32 = 4"
| "m_typeSize TYPE_STRING = 0xFFFFFFFF"
| "m_typeSize TYPE_VOID = 0"

definition Types_getType :: "cString \<Rightarrow> Types res" where
  "Types_getType typeName =
     (case List.find (\<lambda>t. cString_compare_chars typeName (snd t) = EqualTo) m_typeStrings of
        Some t \<Rightarrow> Inr (fst t)
      | None \<Rightarrow> Inl EXCEPTION_ASSERTION)"

fun Types_isUnsignedIntegerType :: "Types \<Rightarrow> bool" where
  "Types_isUnsignedIntegerType TYPE_UINT8 = True"
| "Types_isUnsignedIntegerType TYPE_UINT16 = True"
| "Types_isUnsignedIntegerType TYPE_UINT32 = True"
| "Types_isUnsignedIntegerType _ = False"

fun Types_isSignedIntegerType :: "Types \<Rightarrow> bool" where
  "Types_isSignedIntegerType TYPE_INT8 = True"
| "Types_isSignedIntegerType TYPE_INT16 = True"
| "Types_isSignedIntegerType TYPE_INT32 = True"
| "Types_isSignedIntegerType _ = False"

definition Types_isIntegerType :: "Types \<Rightarrow> bool" where
  "Types_isIntegerType t \<longleftrightarrow> Types_isUnsignedIntegerType t \<or> Types_isSignedIntegerType t"

definition Types_isStringType :: "Types \<Rightarrow> bool" where
  "Types_isStringType t \<longleftrightarrow> t = TYPE_STRING"

text \<open>The union of the numbers is its 32 bits; a narrow store changes the low bits only.\<close>

record BasicVariable =
  m_vtype :: Types
  m_vdata :: uint32
  m_string :: cString

definition EYE_CATCHER :: uint32 where
  "EYE_CATCHER = 0xCDCDCDCD"

definition BasicVariable_new :: "Types \<Rightarrow> BasicVariable" where
  "BasicVariable_new type = \<lparr>m_vtype = type, m_vdata = EYE_CATCHER, m_string = cString_createEmptyString\<rparr>"

definition BasicVariable_getString :: "BasicVariable \<Rightarrow> cString res" where
  "BasicVariable_getString v =
     bind_res (CHECK (Types_isStringType (m_vtype v))) (\<lambda>_. Inr (m_string v))"

definition BasicVariable_setString :: "BasicVariable \<Rightarrow> cString \<Rightarrow> BasicVariable res" where
  "BasicVariable_setString v other =
     bind_res (CHECK (Types_isStringType (m_vtype v))) (\<lambda>_. Inr (v\<lparr>m_string := cString_assign other\<rparr>))"

definition union_low8 :: "uint32 \<Rightarrow> uint8 \<Rightarrow> uint32" where
  "union_low8 u n = (u AND NOT (mask 8)) OR ucast n"

definition union_low16 :: "uint32 \<Rightarrow> uint16 \<Rightarrow> uint32" where
  "union_low16 u n = (u AND NOT (mask 16)) OR ucast n"

text \<open>An \<open>int\<close> is given by its 32 bits.\<close>

definition BasicVariable_getSignedInteger :: "BasicVariable \<Rightarrow> uint32 res" where
  "BasicVariable_getSignedInteger v =
     bind_res (CHECK (Types_isSignedIntegerType (m_vtype v))) (\<lambda>_.
     Inr (case m_vtype v of
            TYPE_INT8 \<Rightarrow> scast (ucast (m_vdata v) :: uint8)
          | TYPE_INT16 \<Rightarrow> scast (ucast (m_vdata v) :: uint16)
          | TYPE_INT32 \<Rightarrow> m_vdata v
          | _ \<Rightarrow> EYE_CATCHER))"

definition BasicVariable_setSignedInteger :: "BasicVariable \<Rightarrow> uint32 \<Rightarrow> BasicVariable res" where
  "BasicVariable_setSignedInteger v other =
     bind_res (CHECK (Types_isSignedIntegerType (m_vtype v))) (\<lambda>_.
     case m_vtype v of
       TYPE_INT8 \<Rightarrow>
         bind_res (CHECK (- 128 \<le> sint other \<and> sint other \<le> 127)) (\<lambda>_.
         Inr (v\<lparr>m_vdata := union_low8 (m_vdata v) (ucast other)\<rparr>))
     | TYPE_INT16 \<Rightarrow>
         bind_res (CHECK (- 32768 \<le> sint other \<and> sint other \<le> 32767)) (\<lambda>_.
         Inr (v\<lparr>m_vdata := union_low16 (m_vdata v) (ucast other)\<rparr>))
     | TYPE_INT32 \<Rightarrow>
         bind_res (CHECK (- 2147483648 \<le> sint other \<and> sint other \<le> 2147483647)) (\<lambda>_.
         Inr (v\<lparr>m_vdata := other\<rparr>))
     | _ \<Rightarrow> Inr v)"

definition BasicVariable_getUnsignedInteger :: "BasicVariable \<Rightarrow> uint64 res" where
  "BasicVariable_getUnsignedInteger v =
     bind_res (CHECK (Types_isUnsignedIntegerType (m_vtype v))) (\<lambda>_.
     Inr (case m_vtype v of
            TYPE_UINT8 \<Rightarrow> ucast (ucast (m_vdata v) :: uint8)
          | TYPE_UINT16 \<Rightarrow> ucast (ucast (m_vdata v) :: uint16)
          | TYPE_UINT32 \<Rightarrow> ucast (m_vdata v)
          | _ \<Rightarrow> ucast EYE_CATCHER))"

definition BasicVariable_setUnsignedInteger :: "BasicVariable \<Rightarrow> uint64 \<Rightarrow> BasicVariable res" where
  "BasicVariable_setUnsignedInteger v other =
     bind_res (CHECK (Types_isUnsignedIntegerType (m_vtype v))) (\<lambda>_.
     case m_vtype v of
       TYPE_UINT8 \<Rightarrow>
         bind_res (CHECK (other \<le> 0xFF)) (\<lambda>_. Inr (v\<lparr>m_vdata := union_low8 (m_vdata v) (ucast other)\<rparr>))
     | TYPE_UINT16 \<Rightarrow>
         bind_res (CHECK (other \<le> 0xFFFF)) (\<lambda>_. Inr (v\<lparr>m_vdata := union_low16 (m_vdata v) (ucast other)\<rparr>))
     | TYPE_UINT32 \<Rightarrow>
         bind_res (CHECK (other \<le> 0xFFFFFFFF)) (\<lambda>_. Inr (v\<lparr>m_vdata := ucast other\<rparr>))
     | _ \<Rightarrow> Inr v)"

text \<open>The number constructor of a string may run forever on a bad base; it returns for base ten.\<close>

definition BasicVariable_makeString :: "BasicVariable \<Rightarrow> cString run" where
  "BasicVariable_makeString v =
     (let prefix = cString_new (Some (lit ''0x'' @ [0])) in
      case m_vtype v of
        TYPE_UINT8 \<Rightarrow> ok (cString_plus prefix (HEXBYTE (ucast (m_vdata v))))
      | TYPE_UINT16 \<Rightarrow> ok (cString_plus prefix (HEXWORD (ucast (m_vdata v))))
      | TYPE_UINT32 \<Rightarrow> ok (cString_plus prefix (HEXDWORD (m_vdata v)))
      | TYPE_STRING \<Rightarrow> ok (m_string v)
      | TYPE_VOID \<Rightarrow> ok (cString_new (Some (lit ''void'' @ [0])))
      | _ \<Rightarrow> run_bind (of_res (BasicVariable_getSignedInteger v)) (\<lambda>n. cString_new_int32 n 10))"

record VariableType =
  m_name :: cString
  m_vardata :: BasicVariable

definition VariableType_new :: "cString \<Rightarrow> BasicVariable \<Rightarrow> VariableType" where
  "VariableType_new name data = \<lparr>m_name = cString_new_copy name, m_vardata = data\<rparr>"


subsection \<open>The digits that are printed\<close>

text \<open>The last \<open>k\<close> digits of a number in base 16, most significant first.\<close>

fun hexdigits :: "nat \<Rightarrow> nat \<Rightarrow> nat list" where
  "hexdigits 0 n = []"
| "hexdigits (Suc k) n = hexdigits k (n div 16) @ [n mod 16]"

lemma hexdigits_bound: "d \<in> set (hexdigits k n) \<Longrightarrow> d < 16"
  by (induction k arbitrary: n) auto

lemma length_hexdigits [simp]: "length (hexdigits k n) = k"
  by (induction k arbitrary: n) auto

lemma hexdigits_append: "hexdigits (j + k) n = hexdigits j (n div 16 ^ k) @ hexdigits k n"
  by (induction k arbitrary: n) (auto simp flip: div_mult2_eq)

lemma hexdigits_mod: "k \<le> m \<Longrightarrow> hexdigits k (n mod 16 ^ m) = hexdigits k n"
proof (induction k arbitrary: n m)
  case (Suc k)
  obtain m' where m: "m = Suc m'" using Suc.prems by (cases m) auto
  have "n mod 16 ^ m div 16 = n div 16 mod 16 ^ m'" "n mod 16 ^ m mod 16 = n mod 16"
    unfolding m by (simp_all add: mod_mult2_eq)
  then show ?case using Suc.IH [of m' "n div 16"] Suc.prems m by simp
qed simp

lemma hexdigits_value: "foldl (\<lambda>v d. v * 16 + d) 0 (hexdigits k n) = n mod 16 ^ k"
proof (induction k arbitrary: n)
  case (Suc k)
  then show ?case using mod_mult2_eq [of n 16 "16 ^ k"] by simp
qed simp

lemma hex_strip: "d < 16 \<Longrightarrow> hexUpperStrip ! d = strip d"
proof -
  have "\<forall>d \<in> set [0..<16]. hexUpperStrip ! d = strip d" by code_simp
  then show "d < 16 \<Longrightarrow> hexUpperStrip ! d = strip d" by simp
qed

lemma nonul_hexdigits [simp]: "nonul (map strip (hexdigits k n))"
  by (rule nonul_strip) (use hexdigits_bound in force)

lemma unat_and_mask: "unat (w AND mask k) = unat w mod 2 ^ k" for w :: "'a::len word"
  unfolding take_bit_eq_mask [symmetric] unsigned_take_bit_eq by (rule take_bit_eq_mod)

lemma unat_drop: "unat (drop_bit k w) = unat w div 2 ^ k" for w :: "'a::len word"
  unfolding unat_drop_bit_eq by (rule drop_bit_eq_div)

lemma HEXBYTE_simp [cstr_simps]: "HEXBYTE c = cstr (map strip (hexdigits 2 (unat c)))"
proof -
  have h: "unat (drop_bit 4 c) = unat c div 16" "unat (c AND 0x0F) = unat c mod 16"
    using unat_and_mask [of c 4] by (simp_all add: unat_drop mask_eq_exp_minus_1)
  have b: "unat c div 16 < 16" using unsigned_less [of c, where 'a = nat] by simp
  show ?thesis
    using b strip_nonzero [of "unat c div 16"] strip_nonzero [of "unat c mod 16"]
    by (simp add: HEXBYTE_def h hex_strip cstr_simps numeral_2_eq_2)
qed

lemma HEX_halves:
  fixes w :: "'a::len word"
  assumes "LENGTH('a) = 4 * (k + k)"
  shows "hexdigits k (unat (drop_bit (4 * k) w)) @ hexdigits k (unat w mod 16 ^ k) = hexdigits (k + k) (unat w)"
  by (simp add: hexdigits_append hexdigits_mod unat_drop power_mult)

lemma HEXWORD_simp [cstr_simps]: "HEXWORD n = cstr (map strip (hexdigits 4 (unat n)))"
proof -
  have l: "unat (ucast (drop_bit 8 n) :: uint8) = unat (drop_bit 8 n)"
    using unsigned_less [of n, where 'a = nat] by (simp add: unsigned_ucast_eq unat_drop take_bit_nat_eq_self)
  have r: "unat (ucast (n AND 0xFF) :: uint8) = unat n mod 16 ^ 2"
    using unat_and_mask [of n 8] by (simp add: unsigned_ucast_eq mask_eq_exp_minus_1 take_bit_eq_mod)
  show ?thesis
    using HEX_halves [of 2 n] by (simp add: HEXWORD_def cstr_simps l r flip: map_append)
qed

lemma HEXDWORD_simp [cstr_simps]: "HEXDWORD n = cstr (map strip (hexdigits 8 (unat n)))"
proof -
  have l: "unat (ucast (drop_bit 16 n) :: uint16) = unat (drop_bit 16 n)"
    using unsigned_less [of n, where 'a = nat] by (simp add: unsigned_ucast_eq unat_drop take_bit_nat_eq_self)
  have r: "unat (ucast (n AND 0xFFFF) :: uint16) = unat n mod 16 ^ 4"
    using unat_and_mask [of n 16] by (simp add: unsigned_ucast_eq mask_eq_exp_minus_1 take_bit_eq_mod)
  show ?thesis
    using HEX_halves [of 4 n] by (simp add: HEXDWORD_def cstr_simps l r flip: map_append)
qed

lemma HEXQWORD_simp [cstr_simps]: "HEXQWORD n = cstr (map strip (hexdigits 16 (unat n)))"
proof -
  have l: "unat (ucast (drop_bit 32 n) :: uint32) = unat (drop_bit 32 n)"
    using unsigned_less [of n, where 'a = nat] by (simp add: unsigned_ucast_eq unat_drop take_bit_nat_eq_self)
  have r: "unat (ucast (n AND 0xFFFFFFFF) :: uint32) = unat n mod 16 ^ 8"
    using unat_and_mask [of n 32] by (simp add: unsigned_ucast_eq mask_eq_exp_minus_1 take_bit_eq_mod)
  show ?thesis
    using HEX_halves [of 8 n] by (simp add: HEXQWORD_def cstr_simps l r flip: map_append)
qed

subsection \<open>Properties of variables\<close>

lemma ucast_low:
  "ucast (union_low8 u n) = n" "ucast (union_low16 u k) = k"
  unfolding union_low8_def union_low16_def
  by (rule bit_word_eqI; auto simp: bit_simps dest: bit_imp_le_length)+

lemma unsigned_fits:
  fixes n :: uint64
  shows "unat n < 0x100 \<Longrightarrow> ucast (ucast n :: uint8) = n" "unat n < 0x10000 \<Longrightarrow> ucast (ucast n :: uint16) = n"
    "unat n < 0x100000000 \<Longrightarrow> ucast (ucast n :: uint32) = n"
proof -
  have "unat n < 2 ^ k \<Longrightarrow> take_bit k n = n" for k :: nat
    by (rule word_unat_eq_iff [THEN iffD2]) (simp add: unsigned_take_bit_eq take_bit_nat_eq_self)
  moreover have "ucast (ucast n :: uint8) = take_bit 8 n" "ucast (ucast n :: uint16) = take_bit 16 n"
    "ucast (ucast n :: uint32) = take_bit 32 n"
    by (rule bit_word_eqI; auto simp: bit_simps)+
  ultimately show "unat n < 0x100 \<Longrightarrow> ucast (ucast n :: uint8) = n" "unat n < 0x10000 \<Longrightarrow> ucast (ucast n :: uint16) = n"
    "unat n < 0x100000000 \<Longrightarrow> ucast (ucast n :: uint32) = n" by simp_all
qed

lemma signed_fits:
  fixes n :: uint32
  shows "- 128 \<le> sint n \<Longrightarrow> sint n < 128 \<Longrightarrow> scast (ucast n :: uint8) = n"
    "- 32768 \<le> sint n \<Longrightarrow> sint n < 32768 \<Longrightarrow> scast (ucast n :: uint16) = n"
proof -
  have "- (2 ^ k) \<le> sint n \<Longrightarrow> sint n < 2 ^ k \<Longrightarrow> k < 31 \<Longrightarrow> signed_take_bit k n = n" for k
  proof (rule signed_word_eqI)
    assume k: "- (2 ^ k) \<le> sint n" "sint n < 2 ^ k" "k < 31"
    have "sint (signed_take_bit k n) = signed_take_bit k (sint n)"
      using k(3) by (intro bit_eqI) (auto simp: bit_simps min_def)
    then show "sint (signed_take_bit k n) = sint n" using signed_take_bit_int_eq_self [OF k(1,2)] by simp
  qed
  moreover have "scast (ucast n :: uint8) = signed_take_bit 7 n" "scast (ucast n :: uint16) = signed_take_bit 15 n"
    by (rule bit_word_eqI; auto simp: bit_simps min_def)+
  ultimately show "- 128 \<le> sint n \<Longrightarrow> sint n < 128 \<Longrightarrow> scast (ucast n :: uint8) = n"
    "- 32768 \<le> sint n \<Longrightarrow> sint n < 32768 \<Longrightarrow> scast (ucast n :: uint16) = n" by simp_all
qed

lemma below_limits:
  fixes n :: uint64
  shows "n \<le> 0xFF \<longleftrightarrow> unat n < 0x100" "n \<le> 0xFFFF \<longleftrightarrow> unat n < 0x10000"
    "n \<le> 0xFFFFFFFF \<longleftrightarrow> unat n < 0x100000000"
  unfolding word_le_nat_alt by (simp_all add: le_less_Suc_eq le_eq_less_or_eq; linarith)+

lemma type_limits:
  "unat (m_typeSize TYPE_UINT8) = 1" "unat (m_typeSize TYPE_UINT16) = 2" "unat (m_typeSize TYPE_UINT32) = 4"
  "unat (m_typeSize TYPE_INT8) = 1" "unat (m_typeSize TYPE_INT16) = 2" "unat (m_typeSize TYPE_INT32) = 4"
  by simp_all

lemma set_unsigned:
  assumes "Types_isUnsignedIntegerType (m_vtype v)"
  shows "BasicVariable_setUnsignedInteger v n =
       (if unat n < 2 ^ (8 * unat (m_typeSize (m_vtype v))) then
          Inr (v\<lparr>m_vdata := (case m_vtype v of TYPE_UINT8 \<Rightarrow> union_low8 (m_vdata v) (ucast n)
                             | TYPE_UINT16 \<Rightarrow> union_low16 (m_vdata v) (ucast n) | _ \<Rightarrow> ucast n)\<rparr>)
        else Inl EXCEPTION_ASSERTION)"
  using assms unfolding BasicVariable_setUnsignedInteger_def CHECK_def below_limits
  by (cases "m_vtype v") (simp_all only: type_limits Types_isUnsignedIntegerType.simps Types.case simp_thms
      if_True bind_res_Inr, simp_all)

lemma set_signed:
  assumes "Types_isSignedIntegerType (m_vtype v)"
  shows "BasicVariable_setSignedInteger v n =
       (if - (2 ^ (8 * unat (m_typeSize (m_vtype v)) - 1)) \<le> sint n \<and>
           sint n < 2 ^ (8 * unat (m_typeSize (m_vtype v)) - 1) then
          Inr (v\<lparr>m_vdata := (case m_vtype v of TYPE_INT8 \<Rightarrow> union_low8 (m_vdata v) (ucast n)
                             | TYPE_INT16 \<Rightarrow> union_low16 (m_vdata v) (ucast n) | _ \<Rightarrow> n)\<rparr>)
        else Inl EXCEPTION_ASSERTION)"
proof -
  have "sint n \<le> 127 \<longleftrightarrow> sint n < 128" "sint n \<le> 32767 \<longleftrightarrow> sint n < 32768"
    "sint n \<le> 2147483647 \<longleftrightarrow> sint n < 2147483648" by linarith+
  note l = this
  show ?thesis
  using assms unfolding BasicVariable_setSignedInteger_def CHECK_def l
  by (cases "m_vtype v") (simp_all only: type_limits Types_isSignedIntegerType.simps Types.case simp_thms
      if_True bind_res_Inr, simp_all)
qed

lemma get_unsigned:
  assumes t: "Types_isUnsignedIntegerType (m_vtype v)"
    and n: "unat n < 2 ^ (8 * unat (m_typeSize (m_vtype v)))"
  obtains v' where "BasicVariable_setUnsignedInteger v n = Inr v'" "m_vtype v' = m_vtype v"
    "m_string v' = m_string v" "BasicVariable_getUnsignedInteger v' = Inr n"
proof -
  let ?v = "v\<lparr>m_vdata := (case m_vtype v of TYPE_UINT8 \<Rightarrow> union_low8 (m_vdata v) (ucast n)
                             | TYPE_UINT16 \<Rightarrow> union_low16 (m_vdata v) (ucast n) | _ \<Rightarrow> ucast n)\<rparr>"
  have s: "BasicVariable_setUnsignedInteger v n = Inr ?v" using set_unsigned [OF t] n by simp
  have "BasicVariable_getUnsignedInteger ?v = Inr n"
  proof (cases "m_vtype v")
    case TYPE_UINT8
    then show ?thesis using n unsigned_fits(1) [of n] by (simp add: BasicVariable_getUnsignedInteger_def ucast_low)
  next
    case TYPE_UINT16
    then show ?thesis using n unsigned_fits(2) [of n] by (simp add: BasicVariable_getUnsignedInteger_def ucast_low)
  next
    case TYPE_UINT32
    then show ?thesis using n unsigned_fits(3) [of n] by (simp add: BasicVariable_getUnsignedInteger_def)
  qed (use t in simp_all)
  then show thesis using that [of ?v] s by simp
qed

lemma get_signed:
  assumes t: "Types_isSignedIntegerType (m_vtype v)"
    and n: "- (2 ^ (8 * unat (m_typeSize (m_vtype v)) - 1)) \<le> sint n"
      "sint n < 2 ^ (8 * unat (m_typeSize (m_vtype v)) - 1)"
  obtains v' where "BasicVariable_setSignedInteger v n = Inr v'" "m_vtype v' = m_vtype v"
    "m_string v' = m_string v" "BasicVariable_getSignedInteger v' = Inr n"
proof -
  let ?v = "v\<lparr>m_vdata := (case m_vtype v of TYPE_INT8 \<Rightarrow> union_low8 (m_vdata v) (ucast n)
                             | TYPE_INT16 \<Rightarrow> union_low16 (m_vdata v) (ucast n) | _ \<Rightarrow> n)\<rparr>"
  have s: "BasicVariable_setSignedInteger v n = Inr ?v" using set_signed [OF t] n by simp
  have "BasicVariable_getSignedInteger ?v = Inr n"
  proof (cases "m_vtype v")
    case TYPE_INT8
    then show ?thesis using n signed_fits(1) [of n] by (simp add: BasicVariable_getSignedInteger_def ucast_low)
  next
    case TYPE_INT16
    then show ?thesis using n signed_fits(2) [of n] by (simp add: BasicVariable_getSignedInteger_def ucast_low)
  next
    case TYPE_INT32
    then show ?thesis using n by (simp add: BasicVariable_getSignedInteger_def)
  qed (use t in simp_all)
  then show thesis using that [of ?v] s by simp
qed

lemma getType_names:
  "(t, name) \<in> set m_typeStrings \<Longrightarrow> Types_getType (cString_new (Some name)) = Inr t"
proof -
  have "list_all (\<lambda>(t, name). Types_getType (cString_new (Some name)) = Inr t) m_typeStrings" by code_simp
  then show "(t, name) \<in> set m_typeStrings \<Longrightarrow> Types_getType (cString_new (Some name)) = Inr t"
    by (auto simp: list_all_iff)
qed

subsection \<open>Properties of remote addresses\<close>

definition address_bits :: "RemoteAddressEncodingTypes \<Rightarrow> nat" where
  "address_bits t = (case t of REMOTE_ADDRESS_16BIT \<Rightarrow> 16 | REMOTE_ADDRESS_32BIT \<Rightarrow> 32 | _ \<Rightarrow> 64)"

definition address_valid :: "remoteAddressNumericValue \<Rightarrow> bool" where
  "address_valid a \<longleftrightarrow> (case m_type a of REMOTE_ADDRESS_INVALID _ \<Rightarrow> False | _ \<Rightarrow> True)"

lemma getClipedAddress_simp:
  "remoteAddress_getClipedAddress a =
     (if address_valid a then Inr (take_bit (address_bits (m_type a)) (m_union a)) else Inl EXCEPTION_ASSERTION)"
proof -
  have m: "(0xFFFF :: uint64) = mask 16" "(0xFFFFFFFF :: uint64) = mask 32"
    by (simp_all add: mask_eq_exp_minus_1)
  have "take_bit 64 (m_union a) = m_union a" by (rule bit_word_eqI) (simp add: bit_simps)
  then show ?thesis unfolding remoteAddress_getClipedAddress_def address_valid_def address_bits_def m
    by (cases "m_type a") (simp_all add: take_bit_eq_mask)
qed

lemma isInsideRange_simp:
  assumes "address_valid a" "address_valid s" "address_valid e"
  shows "remoteAddress_isInsideRange a s e =
     Inr (take_bit (address_bits (m_type s)) (m_union s) \<le> take_bit (address_bits (m_type a)) (m_union a) \<and>
          take_bit (address_bits (m_type a)) (m_union a) \<le> take_bit (address_bits (m_type e)) (m_union e))"
  using assms by (auto simp: remoteAddress_isInsideRange_def remoteAddress_less_def remoteAddress_eq_def getClipedAddress_simp)

subsection \<open>Values of variables\<close>

text \<open>
  C38: a variable of an integer type takes exactly the values of its type: the others throw and
  change nothing, the value set is the value read, and the type stays. Reading or writing a
  variable as a value of another kind throws, and a type is found under its name.
\<close>

theorem variable_values:
  "(if Types_isUnsignedIntegerType (m_vtype v) then
      if unat n < 2 ^ (8 * unat (m_typeSize (m_vtype v))) then
        \<exists>v'. BasicVariable_setUnsignedInteger v n = Inr v' \<and> m_vtype v' = m_vtype v \<and>
             BasicVariable_getUnsignedInteger v' = Inr n
      else BasicVariable_setUnsignedInteger v n = Inl EXCEPTION_ASSERTION
    else BasicVariable_setUnsignedInteger v n = Inl EXCEPTION_ASSERTION \<and>
         BasicVariable_getUnsignedInteger v = Inl EXCEPTION_ASSERTION) \<and>
   (if Types_isSignedIntegerType (m_vtype v) then
      if - (2 ^ (8 * unat (m_typeSize (m_vtype v)) - 1)) \<le> sint k \<and>
         sint k < 2 ^ (8 * unat (m_typeSize (m_vtype v)) - 1) then
        \<exists>v'. BasicVariable_setSignedInteger v k = Inr v' \<and> m_vtype v' = m_vtype v \<and>
             BasicVariable_getSignedInteger v' = Inr k
      else BasicVariable_setSignedInteger v k = Inl EXCEPTION_ASSERTION
    else BasicVariable_setSignedInteger v k = Inl EXCEPTION_ASSERTION \<and>
         BasicVariable_getSignedInteger v = Inl EXCEPTION_ASSERTION) \<and>
   (if Types_isStringType (m_vtype v) then
      \<exists>v'. BasicVariable_setString v s = Inr v' \<and> m_vtype v' = m_vtype v \<and>
           BasicVariable_getString v' = Inr (cString_assign s)
    else BasicVariable_setString v s = Inl EXCEPTION_ASSERTION \<and>
         BasicVariable_getString v = Inl EXCEPTION_ASSERTION) \<and>
   (\<exists>name. (m_vtype v, name) \<in> set m_typeStrings \<and> Types_getType (cString_new (Some name)) = Inr (m_vtype v))"
proof (intro conjI, goal_cases)
  case 1
  show ?case
    using get_unsigned [of v n] set_unsigned [of v n]
    by (auto simp: BasicVariable_setUnsignedInteger_def BasicVariable_getUnsignedInteger_def)
next
  case 2
  show ?case
    using get_signed [of v k] set_signed [of v k]
    by (auto simp: BasicVariable_setSignedInteger_def BasicVariable_getSignedInteger_def)
next
  case 3
  show ?case by (simp add: BasicVariable_setString_def BasicVariable_getString_def)
next
  case 4
  have "\<exists>name. (m_vtype v, name) \<in> set m_typeStrings" by (cases "m_vtype v") (auto simp: m_typeStrings_def)
  then show ?case using getType_names by blast
qed

end
