(* ===== verification/XParser.thy ===== *)
theory XParser
  imports XBraces XDataStream
begin

text \<open>
  The parser of parser/parser.cpp: a cursor over a buffer of characters that counts lines, the
  readers of words, names, quoted strings, numbers, blocks and variables, and the functions that
  blank out comments before parsing.
\<close>

lemma bind_res_cong [fundef_cong]:
  "m = m' \<Longrightarrow> (\<And>x. m' = Inr x \<Longrightarrow> f x = g x) \<Longrightarrow> bind_res m f = bind_res m' g"
  by (cases m') auto

subsection \<open>The cursor\<close>

text \<open>
  The buffer is the list \<open>m_data\<close>; \<open>m_length\<close> and \<open>m_end\<close> are its length. The pointer never
  passes the end (the code asserts it), so being at the end is \<open>length \<le> pointer\<close>. A parser
  that has thrown is not used again, so an exception carries no state; its message is dropped.
\<close>

record Parser =
  m_data :: "character list"
  m_pointer :: nat
  m_lineNumber :: uint64
  m_filename :: cString

definition Parser_unknownFilename :: cString where
  "Parser_unknownFilename = cString_new (Some (lit ''<Unknown>'' @ [0]))"

definition Parser_new :: "character list option \<Rightarrow> nat \<Rightarrow> uint64 \<Rightarrow> cString \<Rightarrow> Parser res" where
  "Parser_new data pointer lineNumber filename =
     (case data of
        None \<Rightarrow> Inl EXCEPTION_ASSERTION
      | Some data \<Rightarrow>
          bind_res (CHECK (0 < length data)) (\<lambda>_.
          bind_res (CHECK (pointer < length data)) (\<lambda>_.
          Inr \<lparr>m_data = data, m_pointer = pointer, m_lineNumber = lineNumber, m_filename = filename\<rparr>)))"

definition Parser_new_copy :: "Parser \<Rightarrow> Parser" where
  "Parser_new_copy other =
     \<lparr>m_data = m_data other, m_pointer = m_pointer other, m_lineNumber = m_lineNumber other,
      m_filename = m_filename other\<rparr>"

definition PARSER_CHECK :: "bool \<Rightarrow> unit res" where
  "PARSER_CHECK n = (if \<not> n then Inl PARSER_EXCEPTION else Inr ())"

definition Parser_internalIsEOS :: "Parser \<Rightarrow> nat \<Rightarrow> bool" where
  "Parser_internalIsEOS p pointer \<longleftrightarrow> length (m_data p) \<le> pointer \<or> m_data p ! pointer = 0"

definition Parser_isEOS :: "Parser \<Rightarrow> bool" where
  "Parser_isEOS p = Parser_internalIsEOS p (m_pointer p)"

definition Parser_checkNotEOS :: "Parser \<Rightarrow> unit res" where
  "Parser_checkNotEOS p = PARSER_CHECK (\<not> Parser_isEOS p)"

definition Parser_peekChar :: "Parser \<Rightarrow> character res" where
  "Parser_peekChar p = bind_res (Parser_checkNotEOS p) (\<lambda>_. Inr (m_data p ! m_pointer p))"

definition Parser_readChar :: "Parser \<Rightarrow> (character \<times> Parser) res" where
  "Parser_readChar p =
     bind_res (Parser_checkNotEOS p) (\<lambda>_.
     (let ret = m_data p ! m_pointer p;
          p = p\<lparr>m_pointer := m_pointer p + 1\<rparr>
      in Inr (ret, if cChar_isNewLine ret then p\<lparr>m_lineNumber := m_lineNumber p + 1\<rparr> else p)))"

text \<open>The characters that are left.\<close>

definition Parser_rest :: "Parser \<Rightarrow> character list" where
  "Parser_rest p = drop (m_pointer p) (m_data p)"

lemma isEOS_rest: "Parser_isEOS p \<longleftrightarrow> Parser_rest p = [] \<or> hd (Parser_rest p) = 0"
  by (cases "m_pointer p < length (m_data p)")
    (simp_all add: Parser_isEOS_def Parser_internalIsEOS_def Parser_rest_def hd_drop_conv_nth)

lemma readChar_shrinks:
  "Parser_readChar p = Inr (c, q) \<Longrightarrow> length (Parser_rest q) < length (Parser_rest p)"
  by (auto simp: Parser_readChar_def Parser_checkNotEOS_def PARSER_CHECK_def Let_def Parser_isEOS_def
      Parser_internalIsEOS_def Parser_rest_def not_le split: if_splits)

subsection \<open>Blanks, words and names\<close>

function readBlanksUntilEOL_loop :: "Parser \<Rightarrow> character \<Rightarrow> (bool \<times> Parser) res" where
  "readBlanksUntilEOL_loop p c =
     (if cChar_isBlanket c then
        bind_res (Parser_readChar p) (\<lambda>(_, p).
        if Parser_isEOS p then Inr (True, p)
        else bind_res (Parser_peekChar p) (\<lambda>c. readBlanksUntilEOL_loop p c))
      else Inr (cChar_isNewLine c, p))"
  by auto

termination
  by (relation "measure (\<lambda>(p, c). length (Parser_rest p))") (auto dest: readChar_shrinks)

definition Parser_readBlanksUntilEOL :: "Parser \<Rightarrow> (bool \<times> Parser) res" where
  "Parser_readBlanksUntilEOL p =
     (if Parser_isEOS p then Inr (True, p)
      else bind_res (Parser_peekChar p) (\<lambda>c. readBlanksUntilEOL_loop p c))"

function getBlanks_loop :: "Parser \<Rightarrow> cString \<Rightarrow> character \<Rightarrow> (cString \<times> Parser) res" where
  "getBlanks_loop p ret c =
     (if cChar_isBlanket c \<or> cChar_isNewLine c then
        bind_res (Parser_readChar p) (\<lambda>(_, p).
        if Parser_isEOS p then Inr (cString_append_char ret c, p)
        else bind_res (Parser_peekChar p) (\<lambda>c'. getBlanks_loop p (cString_append_char ret c) c'))
      else Inr (ret, p))"
  by auto

termination
  by (relation "measure (\<lambda>(p, r, c). length (Parser_rest p))") (auto dest: readChar_shrinks)

definition Parser_getBlanks :: "Parser \<Rightarrow> (cString \<times> Parser) res" where
  "Parser_getBlanks p =
     (if Parser_isEOS p then Inr (cString_createEmptyString, p)
      else bind_res (Parser_peekChar p) (\<lambda>c. getBlanks_loop p cString_createEmptyString c))"

definition Parser_readBlanks :: "Parser \<Rightarrow> Parser res" where
  "Parser_readBlanks p = bind_res (Parser_getBlanks p) (\<lambda>(_, p). Inr p)"

function readWord_loop :: "Parser \<Rightarrow> cString \<Rightarrow> character \<Rightarrow> (cString \<times> Parser) res" where
  "readWord_loop p ret c =
     (if \<not> cChar_isBlanket c \<and> \<not> cChar_isNewLine c then
        bind_res (Parser_readChar p) (\<lambda>(_, p).
        if Parser_isEOS p then Inr (cString_append_char ret c, p)
        else bind_res (Parser_peekChar p) (\<lambda>c'. readWord_loop p (cString_append_char ret c) c'))
      else Inr (ret, p))"
  by auto

termination
  by (relation "measure (\<lambda>(p, r, c). length (Parser_rest p))") (auto dest: readChar_shrinks)

definition Parser_readWord :: "Parser \<Rightarrow> (cString \<times> Parser) res" where
  "Parser_readWord p =
     (if Parser_isEOS p then Inr (cString_createEmptyString, p)
      else
        bind_res (Parser_peekChar p) (\<lambda>c.
        bind_res (PARSER_CHECK (\<not> cChar_isBlanket c)) (\<lambda>_.
        readWord_loop p cString_createEmptyString c)))"

function readCString_loop :: "Parser \<Rightarrow> cString \<Rightarrow> (cString \<times> Parser) res" where
  "readCString_loop p ret =
     (if Parser_isEOS p then Inr (ret, p)
      else
        bind_res (Parser_peekChar p) (\<lambda>c.
        if cChar_isLetter c \<or> cChar_isDigit c \<or> c = ch CHR ''_'' then
          bind_res (Parser_readChar p) (\<lambda>(c, p). readCString_loop p (cString_append_char ret c))
        else Inr (ret, p)))"
  by auto

termination
  by (relation "measure (\<lambda>(p, r). length (Parser_rest p))") (auto dest: readChar_shrinks)

definition Parser_readCString :: "Parser \<Rightarrow> bool \<Rightarrow> (cString \<times> Parser) res" where
  "Parser_readCString p isFirstLetter =
     bind_res (Parser_readChar p) (\<lambda>(c, p).
     bind_res (if isFirstLetter then PARSER_CHECK (cChar_isLetter c \<or> c = ch CHR ''_'') else Inr ()) (\<lambda>_.
     readCString_loop p (cString_new_char c)))"

text \<open>The pointer is restored, the line number is not.\<close>

definition Parser_peekCString :: "Parser \<Rightarrow> bool \<Rightarrow> (cString \<times> Parser) res" where
  "Parser_peekCString p isFirstLetter =
     bind_res (Parser_readCString p isFirstLetter) (\<lambda>(ret, q). Inr (ret, q\<lparr>m_pointer := m_pointer p\<rparr>))"

subsection \<open>Quoted and special strings\<close>

definition readQuate_escape :: "character \<Rightarrow> character res" where
  "readQuate_escape c =
     (if c = ch CHR ''a'' then Inr 7
      else if c = ch CHR ''b'' then Inr 8
      else if c = ch CHR ''f'' then Inr 12
      else if c = ch CHR ''n'' then Inr 10
      else if c = ch CHR ''r'' then Inr 13
      else if c = ch CHR ''t'' then Inr 9
      else if c = ch CHR ''v'' then Inr 11
      else if c = 39 \<or> c = 34 \<or> c = 92 \<or> c = ch CHR ''?'' then Inr c
      else Inl PARSER_EXCEPTION)"

function readQuate_loop :: "Parser \<Rightarrow> bool \<Rightarrow> cString \<Rightarrow> character \<Rightarrow> (cString \<times> Parser) res" where
  "readQuate_loop p isCString ret c =
     (if c \<noteq> 34 then
        if c = 92 \<and> isCString then
          bind_res (Parser_readChar p) (\<lambda>(c, p).
          bind_res (readQuate_escape c) (\<lambda>c.
          bind_res (Parser_readChar p) (\<lambda>(c', p).
          readQuate_loop p isCString (cString_append_char ret c) c')))
        else
          bind_res (Parser_readChar p) (\<lambda>(c', p).
          readQuate_loop p isCString (cString_append_char ret c) c')
      else Inr (ret, p))"
  by auto

termination
  by (relation "measure (\<lambda>(p, b, r, c). length (Parser_rest p))")
    (auto dest!: readChar_shrinks)

definition Parser_readQuateString :: "Parser \<Rightarrow> bool \<Rightarrow> (cString \<times> Parser) res" where
  "Parser_readQuateString p isCString =
     bind_res (Parser_readChar p) (\<lambda>(c, p).
     bind_res (PARSER_CHECK (c = 34)) (\<lambda>_.
     bind_res (Parser_readChar p) (\<lambda>(c, p).
     readQuate_loop p isCString cString_createEmptyString c)))"

definition special_char :: "character \<Rightarrow> bool" where
  "special_char c \<longleftrightarrow>
     cChar_isLetter c \<or> cChar_isDigit c \<or> c = ch CHR ''_'' \<or> c = ch CHR ''.'' \<or> c = ch CHR ''$''"

text \<open>The name in the braces behind a dollar sign.\<close>

definition readSpecial_mark :: "Parser \<Rightarrow> cString \<Rightarrow> (cString \<times> Parser) res" where
  "readSpecial_mark p ret =
     bind_res (Parser_readChar p) (\<lambda>(c, p).
     bind_res (PARSER_CHECK (c = ch CHR ''('')) (\<lambda>_.
     bind_res (Parser_readCString p True) (\<lambda>(add, p).
     bind_res (Parser_readChar p) (\<lambda>(c, p).
     bind_res (PARSER_CHECK (c = ch CHR '')'')) (\<lambda>_.
     (let ret = cString_append_char (cString_append_char ret (ch CHR ''$'')) (ch CHR ''('');
          ret = cString_concat ret add
      in Inr (cString_append_char ret (ch CHR '')''), p)))))))"

declare readCString_loop.simps [simp del] readBlanksUntilEOL_loop.simps [simp del] getBlanks_loop.simps [simp del]
  readWord_loop.simps [simp del] readQuate_loop.simps [simp del]

lemma readCString_loop_shrinks:
  "readCString_loop p ret = Inr (s, q) \<Longrightarrow> length (Parser_rest q) \<le> length (Parser_rest p)"
proof (induction p ret rule: readCString_loop.induct)
  case (1 p ret)
  show ?case
  proof (cases "Parser_isEOS p")
    case False
    then obtain c where c: "Parser_peekChar p = Inr c"
      by (auto simp: Parser_peekChar_def Parser_checkNotEOS_def PARSER_CHECK_def)
    note s = "1.prems" [unfolded readCString_loop.simps [of p]]
    show ?thesis
    proof (cases "cChar_isLetter c \<or> cChar_isDigit c \<or> c = ch CHR ''_''")
      case True
      then obtain c' p' where r: "Parser_readChar p = Inr (c', p')"
        and l: "readCString_loop p' (cString_append_char ret c') = Inr (s, q)"
        using s False c by (auto simp: bind_res_eq_Inr)
      show ?thesis using "1.IH" [OF False c True r refl l] readChar_shrinks [OF r] by simp
    qed (use s False c in simp)
  qed (use "1.prems" in \<open>simp add: readCString_loop.simps\<close>)
qed

lemma readCString_shrinks:
  "Parser_readCString p b = Inr (s, q) \<Longrightarrow> length (Parser_rest q) < length (Parser_rest p)"
  by (auto simp: Parser_readCString_def bind_res_eq_Inr split: prod.splits
      dest!: readChar_shrinks readCString_loop_shrinks)

lemma readSpecial_mark_shrinks:
  "readSpecial_mark p ret = Inr (s, q) \<Longrightarrow> length (Parser_rest q) < length (Parser_rest p)"
  by (auto simp: readSpecial_mark_def bind_res_eq_Inr Let_def split: prod.splits
      dest!: readChar_shrinks readCString_shrinks)

function readSpecial_loop :: "Parser \<Rightarrow> cString \<Rightarrow> character \<Rightarrow> (cString \<times> Parser) res" where
  "readSpecial_loop p ret c =
     (if special_char c then
        bind_res (if c = ch CHR ''$'' then readSpecial_mark p ret else Inr (cString_append_char ret c, p)) (\<lambda>(ret, q).
        if Parser_isEOS q then Inr (ret, q)
        else bind_res (Parser_readChar q) (\<lambda>(c, q). readSpecial_loop q ret c))
      else Inr (ret, p))"
  by auto

termination
  by (relation "measure (\<lambda>(p, r, c). length (Parser_rest p))")
    (auto split: if_splits dest!: readChar_shrinks readSpecial_mark_shrinks)

declare readSpecial_loop.simps [simp del]

definition Parser_readSpeicalString :: "Parser \<Rightarrow> (cString \<times> Parser) res" where
  "Parser_readSpeicalString p =
     bind_res (Parser_readChar p) (\<lambda>(c, p).
     bind_res (readSpecial_loop p cString_createEmptyString c) (\<lambda>(ret, p).
     bind_res (PARSER_CHECK (0 < cString_length ret)) (\<lambda>_. Inr (ret, p))))"

subsection \<open>Numbers\<close>

text \<open>The digits are promoted to \<open>int\<close>, and the sum wraps around: the code does not test for an overflow.\<close>

definition hex_value :: "character \<Rightarrow> uint64" where
  "hex_value nextDigit = scast nextDigit - scast (ch CHR ''A'') + 10"

function isCUnsigned_loop :: "cString \<Rightarrow> bool \<Rightarrow> nat \<Rightarrow> uint64 \<Rightarrow> uint64 option res" where
  "isCUnsigned_loop number isHex i ret =
     (if i < cString_length number then
        bind_res (cString_get number i) (\<lambda>c.
          if cChar_isLetter (cChar_getUppercase c) then
            if cChar_getUppercase c = ch CHR ''L'' then
              Inr (if i \<noteq> cString_length number - 1 then None else Some ret)
            else if \<not> (isHex \<and> ch CHR ''A'' \<le>s cChar_getUppercase c \<and> cChar_getUppercase c \<le>s ch CHR ''F'')
            then Inr None
            else isCUnsigned_loop number isHex (i + 1)
                   (ret * (if isHex then 16 else 10) + hex_value (cChar_getUppercase c))
          else if \<not> cChar_isDigit (cChar_getUppercase c) then Inr None
          else isCUnsigned_loop number isHex (i + 1)
                 (ret * (if isHex then 16 else 10) + cChar_getDigit (cChar_getUppercase c)))
      else Inr (Some ret))"
  by auto

termination
  by (relation "measure (\<lambda>(n, h, i, r). cString_length n - i)") auto

declare isCUnsigned_loop.simps [simp del]

text \<open>\<open>Some\<close> is the number behind the pointer, and \<open>None\<close> the value false.\<close>

definition isCUnsigned_number :: "cString \<Rightarrow> uint64 option res" where
  "isCUnsigned_number number =
     bind_res (cString_get number 0) (\<lambda>c.
     if c = ch CHR ''0'' then
       if cString_length number = 1 then Inr (Some 0)
       else
         bind_res (cString_get number 1) (\<lambda>x.
         if x \<noteq> ch CHR ''x'' then Inr None else isCUnsigned_loop number True 2 0)
     else isCUnsigned_loop number False 0 0)"

definition Parser_isCUnsignedInteger :: "Parser \<Rightarrow> bool \<Rightarrow> (uint64 option \<times> Parser) res" where
  "Parser_isCUnsignedInteger p shouldAdvancePosition =
     bind_res (Parser_readCString (if shouldAdvancePosition then p else Parser_new_copy p) False) (\<lambda>(number, object).
     bind_res (isCUnsigned_number number) (\<lambda>ret.
     Inr (ret, if shouldAdvancePosition then object else p)))"

definition Parser_readCUnsignedInteger :: "Parser \<Rightarrow> (uint64 \<times> Parser) res" where
  "Parser_readCUnsignedInteger p =
     bind_res (Parser_isCUnsignedInteger p True) (\<lambda>(ret, p).
     case ret of None \<Rightarrow> Inl PARSER_EXCEPTION | Some n \<Rightarrow> Inr (n, p))"

function readHex_loop :: "cString \<Rightarrow> nat \<Rightarrow> uint64 \<Rightarrow> uint64 res" where
  "readHex_loop number i ret =
     (if i < cString_length number then
        bind_res (cString_get number i) (\<lambda>c.
          if cChar_isLetter (cChar_getUppercase c) then
            if cChar_getUppercase c = ch CHR ''L'' \<or> cChar_getUppercase c = ch CHR ''H'' then
              bind_res (PARSER_CHECK (i = cString_length number - 1)) (\<lambda>_. Inr ret)
            else
              bind_res (PARSER_CHECK (ch CHR ''A'' \<le>s cChar_getUppercase c \<and> cChar_getUppercase c \<le>s ch CHR ''F''))
                (\<lambda>_. readHex_loop number (i + 1) (ret * 16 + hex_value (cChar_getUppercase c)))
          else readHex_loop number (i + 1) (ret * 16 + cChar_getDigit (cChar_getUppercase c)))
      else Inr ret)"
  by auto

termination
  by (relation "measure (\<lambda>(n, i, r). cString_length n - i)") auto

declare readHex_loop.simps [simp del]

definition Parser_readHexString :: "Parser \<Rightarrow> (uint64 \<times> Parser) res" where
  "Parser_readHexString p =
     bind_res (Parser_readCString p False) (\<lambda>(number, p).
     bind_res (readHex_loop number 0 0) (\<lambda>ret. Inr (ret, p)))"

definition Parser_readSignedValue :: "Parser \<Rightarrow> (bool \<times> Parser) res" where
  "Parser_readSignedValue p =
     bind_res (Parser_checkNotEOS p) (\<lambda>_.
     bind_res (Parser_peekChar p) (\<lambda>c.
     if c = ch CHR ''-'' then bind_res (Parser_readChar p) (\<lambda>(_, p). Inr (True, p))
     else
       bind_res (Parser_peekChar p) (\<lambda>c.
       if c = ch CHR ''+'' then bind_res (Parser_readChar p) (\<lambda>(_, p). Inr (False, p))
       else Inr (False, p))))"

subsection \<open>Blocks and variables\<close>

text \<open>The line number is counted a second time, and a quote hides the braces up to the next one or the end of the line.\<close>

function readBraces_loop :: "Parser \<Rightarrow> Braces \<Rightarrow> bool \<Rightarrow> bool \<Rightarrow> (bool \<times> Braces \<times> Parser) res" where
  "readBraces_loop p b stop isString =
     (if \<not> stop \<and> m_pointer p < length (m_data p) then
        bind_res (Parser_readChar p) (\<lambda>(c, q).
        if (if c = 34 then \<not> (if cChar_isNewLine c then False else isString)
            else (if cChar_isNewLine c then False else isString))
        then readBraces_loop (if cChar_isNewLine c then q\<lparr>m_lineNumber := m_lineNumber q + 1\<rparr> else q) b stop True
        else
          bind_res (Braces_eatCharacter b c) (\<lambda>(stop, b).
          readBraces_loop (if cChar_isNewLine c then q\<lparr>m_lineNumber := m_lineNumber q + 1\<rparr> else q) b stop False))
      else Inr (stop, b, p))"
  by auto

termination
  by (relation "measure (\<lambda>(p, b, s, i). length (Parser_rest p))")
    (auto dest!: readChar_shrinks simp: Parser_rest_def)

declare readBraces_loop.simps [simp del]

definition readBraces_try :: "Parser \<Rightarrow> Parser res" where
  "readBraces_try p =
     bind_res (Parser_readChar p) (\<lambda>(c, p).
     bind_res (Braces_new c) (\<lambda>b.
     bind_res (readBraces_loop p b False False) (\<lambda>(stop, b, p).
     bind_res (if \<not> stop then
                 bind_res (Braces_getNextCloserCharacer b) (\<lambda>e. Inl (BRACES_EXCEPTION (ch CHR ''?'') e))
               else Inr ()) (\<lambda>_.
     Inr (if m_pointer p = length (m_data p) then p\<lparr>m_pointer := m_pointer p - 1\<rparr> else p)))))"

definition Parser_readBracesBlock :: "Parser \<Rightarrow> Parser res" where
  "Parser_readBracesBlock p =
     (case readBraces_try p of Inl (BRACES_EXCEPTION _ _) \<Rightarrow> Inl PARSER_EXCEPTION | r \<Rightarrow> r)"

text \<open>
  A negative number is the negation of the number as an \<open>int\<close>, which is undefined for the least
  one; a number without a sign is cut to an \<open>int\<close>.
\<close>

definition Parser_readVariable :: "Parser \<Rightarrow> Types \<Rightarrow> (BasicVariable \<times> Parser) res" where
  "Parser_readVariable p type =
     (let retData = BasicVariable_new type in
      if Types_isIntegerType type then
        bind_res (if Types_isSignedIntegerType type then Parser_readSignedValue p else Inr (False, p)) (\<lambda>(isSigned, p).
        bind_res (Parser_readCUnsignedInteger p) (\<lambda>(number, p).
        if isSigned then
          bind_res (PARSER_CHECK (number \<le> 0x80000000)) (\<lambda>_.
          if (ucast number :: uint32) = 0x80000000 then Inl UNDEFINED_BEHAVIOUR
          else bind_res (BasicVariable_setSignedInteger retData (- ucast number)) (\<lambda>v. Inr (v, p)))
        else if Types_isSignedIntegerType type then
          bind_res (BasicVariable_setSignedInteger retData (ucast number)) (\<lambda>v. Inr (v, p))
        else bind_res (BasicVariable_setUnsignedInteger retData number) (\<lambda>v. Inr (v, p))))
      else if Types_isStringType type then
        bind_res (Parser_readQuateString p True) (\<lambda>(s, p).
        bind_res (BasicVariable_setString retData s) (\<lambda>v. Inr (v, p)))
      else Inl PARSER_EXCEPTION)"

subsection \<open>Comments\<close>

text \<open>The flags of the loop of \<open>removeComments\<close>, by their names.\<close>

record commentState =
  isComment :: bool
  isEndl :: bool
  isMagicSlash :: bool
  isMagicStar :: bool
  isString :: bool

definition space :: character where
  "space = ch CHR '' ''"

definition comment_slash :: "nat \<Rightarrow> character list \<Rightarrow> commentState \<Rightarrow> character list \<times> commentState" where
  "comment_slash i stream st =
     (if \<not> isComment st then
        if isMagicSlash st then
          (stream[i := space, i - 1 := space],
           st\<lparr>isMagicSlash := False, isEndl := True, isComment := True, isMagicStar := False\<rparr>)
        else (stream, st\<lparr>isMagicSlash := True, isMagicStar := False\<rparr>)
      else if isMagicStar st then
        (stream[i := space, i - 1 := space],
         st\<lparr>isMagicSlash := False, isComment := False, isMagicStar := False\<rparr>)
      else (stream, st\<lparr>isMagicStar := False\<rparr>))"

definition comment_star :: "nat \<Rightarrow> character list \<Rightarrow> commentState \<Rightarrow> character list \<times> commentState" where
  "comment_star i stream st =
     (if \<not> isComment st then
        if isMagicSlash st then
          (stream[i := space, i - 1 := space], st\<lparr>isEndl := False, isComment := True, isMagicSlash := False\<rparr>)
        else (stream, st\<lparr>isMagicStar := True, isMagicSlash := False\<rparr>)
      else (stream[i := space], st\<lparr>isMagicStar := True, isMagicSlash := False\<rparr>))"

definition comment_other :: "nat \<Rightarrow> character list \<Rightarrow> commentState \<Rightarrow> character list \<times> commentState" where
  "comment_other i stream st =
     (let newLine = cChar_isNewLine (stream ! i);
          st = st\<lparr>isMagicSlash := False, isMagicStar := False, isString := (if newLine then False else isString st)\<rparr>
      in if isComment st then
           if isEndl st \<and> newLine then (stream, st\<lparr>isComment := False\<rparr>)
           else (if \<not> newLine then stream[i := space] else stream, st)
         else (stream, st))"

definition comment_step :: "character list \<times> commentState \<Rightarrow> nat \<Rightarrow> character list \<times> commentState" where
  "comment_step x i =
     (case x of (stream, st) \<Rightarrow>
        if stream ! i = ch CHR ''/'' \<and> \<not> isString st then comment_slash i stream st
        else if stream ! i = ch CHR ''*'' \<and> \<not> isString st then comment_star i stream st
        else if stream ! i = 34 then
          if \<not> isComment st then (stream, st\<lparr>isString := \<not> isString st\<rparr>)
          else (stream[i := space], st)
        else comment_other i stream st)"

definition comment_init :: commentState where
  "comment_init = \<lparr>isComment = False, isEndl = False, isMagicSlash = False, isMagicStar = False, isString = False\<rparr>"

definition Parser_removeComments :: "character list \<Rightarrow> character list" where
  "Parser_removeComments stream =
     (if length stream = 0 then stream else fst (foldl comment_step (stream, comment_init) [0..<length stream]))"

definition Parser_removeDoubleNewLine :: "character list \<Rightarrow> character list" where
  "Parser_removeDoubleNewLine stream =
     foldl (\<lambda>s i. if s ! i = 13 \<and> s ! (i + 1) = 10 \<or> s ! i = 10 \<and> s ! (i + 1) = 13
                  then s[i := space, i + 1 := 10] else s)
       stream [0..<length stream - 1]"

definition Parser_easyParsing :: "character list \<Rightarrow> character list" where
  "Parser_easyParsing stream = Parser_removeDoubleNewLine (Parser_removeComments stream)"

subsection \<open>Texts with comments\<close>

text \<open>
  Texts that are built of code, quoted strings and comments. In code a slash is followed by
  another character than a slash, a star or a quote; a quoted string ends on its line; the
  body of a comment has no slash, and the body of a line comment is one line.
\<close>

datatype segment =
    Code "character list"
  | Quoted "character list"
  | LineComment "character list" character
  | BlockComment "character list"

definition slash :: character where "slash = ch CHR ''/''"
definition star :: character where "star = ch CHR ''*''"

fun code_ok :: "character list \<Rightarrow> bool" where
  "code_ok [] = True"
| "code_ok [c] \<longleftrightarrow> c \<noteq> slash \<and> c \<noteq> 34"
| "code_ok (c # d # cs) \<longleftrightarrow> c \<noteq> 34 \<and> (c = slash \<longrightarrow> d \<noteq> slash \<and> d \<noteq> star) \<and> code_ok (d # cs)"

fun segment_ok :: "segment \<Rightarrow> bool" where
  "segment_ok (Code cs) = code_ok cs"
| "segment_ok (Quoted cs) \<longleftrightarrow> list_all (\<lambda>c. c \<noteq> 34 \<and> \<not> cChar_isNewLine c) cs"
| "segment_ok (LineComment cs nl) \<longleftrightarrow> list_all (\<lambda>c. c \<noteq> slash \<and> \<not> cChar_isNewLine c) cs \<and> cChar_isNewLine nl"
| "segment_ok (BlockComment cs) \<longleftrightarrow> list_all (\<lambda>c. c \<noteq> slash) cs"

fun segment_text :: "segment \<Rightarrow> character list" where
  "segment_text (Code cs) = cs"
| "segment_text (Quoted cs) = 34 # cs @ [34]"
| "segment_text (LineComment cs nl) = slash # slash # cs @ [nl]"
| "segment_text (BlockComment cs) = slash # star # cs @ [star, slash]"

definition blanked :: "character list \<Rightarrow> character list" where
  "blanked = map (\<lambda>c. if cChar_isNewLine c then c else space)"

fun segment_blank :: "segment \<Rightarrow> character list" where
  "segment_blank (Code cs) = cs"
| "segment_blank (Quoted cs) = 34 # cs @ [34]"
| "segment_blank (LineComment cs nl) = space # space # blanked cs @ [nl]"
| "segment_blank (BlockComment cs) = space # space # blanked cs @ [space, space]"

text \<open>
  The loop on the part of the stream behind \<open>pre\<close>: what it has done to the characters before
  is a list of the same length.
\<close>

definition comment_run :: "character list \<Rightarrow> character list \<Rightarrow> commentState \<Rightarrow> character list \<times> commentState" where
  "comment_run pre cs st = foldl comment_step (pre @ cs, st) [length pre..<length pre + length cs]"

lemma comment_run_Nil [simp]: "comment_run pre [] st = (pre, st)"
  by (simp add: comment_run_def)

lemma comment_run_Cons:
  assumes "comment_step (pre @ c # cs, st) (length pre) = (pre' @ cs, st')" "length pre' = Suc (length pre)"
  shows "comment_run pre (c # cs) st = comment_run pre' cs st'"
proof -
  have "[length pre..<length pre + length (c # cs)] = length pre # [length pre'..<length pre' + length cs]"
    using assms(2) by (simp add: upt_conv_Cons del: upt_Suc)
  then show ?thesis using assms(1) by (simp add: comment_run_def)
qed

lemma space_facts [simp]:
  "slash \<noteq> star" "slash \<noteq> 34" "star \<noteq> 34" "ch CHR ''/'' = slash" "ch CHR ''*'' = star" "star \<noteq> slash"
  "\<not> cChar_isNewLine slash" "\<not> cChar_isNewLine star" "\<not> cChar_isNewLine 34" "\<not> cChar_isNewLine space"
  by (simp_all add: slash_def star_def ch_def cChar_isNewLine_def space_def)

text \<open>What the loop does to one character, outside and inside of comments.\<close>

lemma run_plain:
  assumes "\<not> isComment st" "c \<noteq> 34" "c \<noteq> slash \<or> isString st" "c \<noteq> star \<or> isString st"
  shows "comment_run pre (c # cs) st = comment_run (pre @ [c]) cs
     (st\<lparr>isMagicSlash := False, isMagicStar := False, isString := isString st \<and> \<not> cChar_isNewLine c\<rparr>)"
  using assms by (intro comment_run_Cons)
    (auto simp: comment_step_def comment_other_def nth_append Let_def)

lemma run_quote:
  assumes "\<not> isComment st"
  shows "comment_run pre (34 # cs) st = comment_run (pre @ [34]) cs (st\<lparr>isString := \<not> isString st\<rparr>)"
  using assms by (intro comment_run_Cons) (auto simp: comment_step_def nth_append)

lemma run_slash:
  assumes "\<not> isComment st" "\<not> isString st" "\<not> isMagicSlash st"
  shows "comment_run pre (slash # cs) st = comment_run (pre @ [slash]) cs (st\<lparr>isMagicSlash := True, isMagicStar := False\<rparr>)"
  using assms by (intro comment_run_Cons) (auto simp: comment_step_def comment_slash_def nth_append)

lemma run_star:
  assumes "\<not> isComment st" "\<not> isString st" "\<not> isMagicSlash st"
  shows "comment_run pre (star # cs) st = comment_run (pre @ [star]) cs (st\<lparr>isMagicStar := True, isMagicSlash := False\<rparr>)"
  using assms by (intro comment_run_Cons) (auto simp: comment_step_def comment_star_def nth_append)

lemma run_open:
  assumes "\<not> isComment st" "\<not> isString st" "isMagicSlash st"
  shows "comment_run (pre @ [x]) (slash # cs) st = comment_run (pre @ [space, space]) cs
       (st\<lparr>isMagicSlash := False, isEndl := True, isComment := True, isMagicStar := False\<rparr>)"
    "comment_run (pre @ [x]) (star # cs) st = comment_run (pre @ [space, space]) cs
       (st\<lparr>isEndl := False, isComment := True, isMagicSlash := False\<rparr>)"
  using assms by (intro comment_run_Cons;
      auto simp: comment_step_def comment_slash_def comment_star_def nth_append list_update_append)+

lemma run_inside:
  assumes "isComment st" "\<not> isString st" "c \<noteq> slash" "\<not> (isEndl st \<and> cChar_isNewLine c)"
  shows "\<exists>b. comment_run pre (c # cs) st =
     comment_run (pre @ blanked [c]) cs (st\<lparr>isMagicSlash := isMagicSlash st \<and> b, isMagicStar := isMagicStar st \<and> b \<or> c = star\<rparr>)"
proof (cases "c = star \<or> c = 34")
  case True
  then show ?thesis
    by (intro exI [of _ "c = 34"] comment_run_Cons)
      (use assms in \<open>auto simp: comment_step_def comment_star_def nth_append list_update_append blanked_def\<close>)
next
  case False
  then show ?thesis
    by (intro exI [of _ False] comment_run_Cons)
      (use assms in \<open>auto simp: comment_step_def comment_other_def nth_append list_update_append blanked_def Let_def\<close>)
qed

lemma run_endl:
  assumes "isComment st" "isEndl st" "cChar_isNewLine c"
  shows "comment_run pre (c # cs) st = comment_run (pre @ [c]) cs
     (st\<lparr>isMagicSlash := False, isMagicStar := False, isString := False, isComment := False\<rparr>)"
proof -
  have "c \<noteq> slash" "c \<noteq> star" "c \<noteq> 34" using assms(3) by auto
  then show ?thesis using assms
    by (intro comment_run_Cons) (auto simp: comment_step_def comment_other_def nth_append Let_def)
qed

lemma run_close:
  assumes "isComment st" "\<not> isString st" "isMagicStar st"
  shows "comment_run (pre @ [x]) (slash # cs) st = comment_run (pre @ [space, space]) cs
     (st\<lparr>isMagicSlash := False, isComment := False, isMagicStar := False\<rparr>)"
  using assms by (intro comment_run_Cons)
    (auto simp: comment_step_def comment_slash_def nth_append list_update_append)

definition outside :: "commentState \<Rightarrow> bool" where
  "outside st \<longleftrightarrow> \<not> isComment st \<and> \<not> isMagicSlash st \<and> \<not> isString st"

lemma run_code:
  assumes "code_ok cs" "\<not> isComment st" "\<not> isString st"
    "isMagicSlash st \<longrightarrow> cs \<noteq> [] \<and> hd cs \<noteq> slash \<and> hd cs \<noteq> star"
  shows "\<exists>st'. outside st' \<and> comment_run pre (cs @ rest) st = comment_run (pre @ cs) rest st'"
  using assms
proof (induction cs arbitrary: pre st)
  case Nil
  then show ?case by (auto simp: outside_def)
next
  case (Cons c cs)
  have q: "c \<noteq> 34" and cs: "code_ok cs" using Cons.prems(1) by (cases cs; simp)+
  consider "c = slash" | "c = star" | "c \<noteq> slash" "c \<noteq> star" by blast
  then obtain st1 where st1: "comment_run pre (c # cs @ rest) st = comment_run (pre @ [c]) (cs @ rest) st1"
    "\<not> isComment st1" "\<not> isString st1" "isMagicSlash st1 \<longrightarrow> c = slash"
  proof cases
    case 1
    then show thesis using that [of "st\<lparr>isMagicSlash := True, isMagicStar := False\<rparr>"] run_slash [of st] Cons.prems by auto
  next
    case 2
    then show thesis using that [of "st\<lparr>isMagicStar := True, isMagicSlash := False\<rparr>"] run_star [of st] Cons.prems by auto
  next
    case 3
    then show thesis
      using that [of "st\<lparr>isMagicSlash := False, isMagicStar := False, isString := isString st \<and> \<not> cChar_isNewLine c\<rparr>"]
        run_plain [of st c] q Cons.prems by auto
  qed
  have "isMagicSlash st1 \<longrightarrow> cs \<noteq> [] \<and> hd cs \<noteq> slash \<and> hd cs \<noteq> star"
    using st1(4) Cons.prems(1) by (cases cs) auto
  from Cons.IH [OF cs st1(2,3) this, of "pre @ [c]"] show ?case using st1(1) by auto
qed

lemma run_string:
  assumes "list_all (\<lambda>c. c \<noteq> 34 \<and> \<not> cChar_isNewLine c) cs" "\<not> isComment st" "isString st" "\<not> isMagicSlash st"
  shows "\<exists>st'. outside st' \<and> comment_run pre (cs @ 34 # rest) st = comment_run (pre @ cs @ [34]) rest st'"
  using assms
proof (induction cs arbitrary: pre st)
  case Nil
  then show ?case
    using run_quote [of st pre rest] by (intro exI [of _ "st\<lparr>isString := False\<rparr>"]) (simp add: outside_def)
next
  case (Cons c cs)
  let ?st = "st\<lparr>isMagicSlash := False, isMagicStar := False, isString := isString st \<and> \<not> cChar_isNewLine c\<rparr>"
  have "comment_run pre (c # cs @ 34 # rest) st = comment_run (pre @ [c]) (cs @ 34 # rest) ?st"
    using run_plain [of st c pre] Cons.prems by simp
  then show ?case using Cons.IH [of ?st "pre @ [c]"] Cons.prems by auto
qed

lemma run_body:
  assumes "list_all (\<lambda>c. c \<noteq> slash \<and> \<not> (isEndl st \<and> cChar_isNewLine c)) cs" "isComment st" "\<not> isString st"
  shows "\<exists>st'. comment_run pre (cs @ rest) st = comment_run (pre @ blanked cs) rest st' \<and>
           isComment st' \<and> \<not> isString st' \<and> isEndl st' = isEndl st"
  using assms
proof (induction cs arbitrary: pre st)
  case Nil
  then show ?case by (auto simp: blanked_def)
next
  case (Cons c cs)
  obtain b where b: "comment_run pre (c # cs @ rest) st = comment_run (pre @ blanked [c]) (cs @ rest)
      (st\<lparr>isMagicSlash := isMagicSlash st \<and> b, isMagicStar := isMagicStar st \<and> b \<or> c = star\<rparr>)" (is "_ = comment_run _ _ ?st")
    using run_inside [of st c pre "cs @ rest"] Cons.prems by auto
  have "blanked (c # cs) = blanked [c] @ blanked cs" by (simp add: blanked_def)
  then show ?case using Cons.IH [of ?st "pre @ blanked [c]"] Cons.prems b by auto
qed

lemma run_segment:
  assumes "segment_ok s" "outside st"
  shows "\<exists>st'. outside st' \<and> comment_run pre (segment_text s @ rest) st = comment_run (pre @ segment_blank s) rest st'"
proof (cases s)
  case (Code cs)
  then show ?thesis using run_code [of cs st pre rest] assms by (simp add: outside_def)
next
  case (Quoted cs)
  have "comment_run pre (34 # cs @ 34 # rest) st =
      comment_run (pre @ [34]) (cs @ 34 # rest) (st\<lparr>isString := True\<rparr>)"
    using run_quote [of st pre "cs @ 34 # rest"] assms(2) by (simp add: outside_def)
  then show ?thesis
    using run_string [of cs "st\<lparr>isString := True\<rparr>" "pre @ [34]" rest] assms Quoted by (simp add: outside_def)
next
  case (LineComment cs nl)
  have s: "\<not> isComment st" "\<not> isString st" "\<not> isMagicSlash st" using assms(2) by (simp_all add: outside_def)
  let ?s1 = "st\<lparr>isMagicSlash := True, isMagicStar := False\<rparr>"
  let ?s2 = "?s1\<lparr>isMagicSlash := False, isEndl := True, isComment := True, isMagicStar := False\<rparr>"
  have o: "comment_run pre (segment_text s @ rest) st = comment_run (pre @ [space, space]) (cs @ nl # rest) ?s2"
    using run_slash [OF s, of pre] run_open(1) [of ?s1 pre slash "cs @ nl # rest"] s LineComment by simp
  have l: "list_all (\<lambda>c. c \<noteq> slash \<and> \<not> (isEndl ?s2 \<and> cChar_isNewLine c)) cs"
    using assms(1) LineComment by (simp add: list_all_iff)
  obtain s3 where s3: "comment_run (pre @ [space, space]) (cs @ nl # rest) ?s2 = comment_run (pre @ [space, space] @ blanked cs) (nl # rest) s3"
    "isComment s3" "\<not> isString s3" "isEndl s3"
    using run_body [OF l, of "pre @ [space, space]" "nl # rest"] s by auto
  show ?thesis
    using run_endl [OF s3(2,4), of nl "pre @ [space, space] @ blanked cs" rest] o s3(1) assms(1) LineComment
    by (intro exI [of _ "s3\<lparr>isMagicSlash := False, isMagicStar := False, isString := False, isComment := False\<rparr>"])
      (simp add: outside_def)
next
  case (BlockComment cs)
  have s: "\<not> isComment st" "\<not> isString st" "\<not> isMagicSlash st" using assms(2) by (simp_all add: outside_def)
  let ?s1 = "st\<lparr>isMagicSlash := True, isMagicStar := False\<rparr>"
  let ?s2 = "?s1\<lparr>isEndl := False, isComment := True, isMagicSlash := False\<rparr>"
  have o: "comment_run pre (segment_text s @ rest) st = comment_run (pre @ [space, space]) (cs @ star # slash # rest) ?s2"
    using run_slash [OF s, of pre] run_open(2) [of ?s1 pre slash "cs @ star # slash # rest"] s BlockComment by simp
  have l: "list_all (\<lambda>c. c \<noteq> slash \<and> \<not> (isEndl ?s2 \<and> cChar_isNewLine c)) cs"
    using assms(1) BlockComment by (simp add: list_all_iff)
  let ?p = "pre @ [space, space] @ blanked cs"
  obtain s3 where s3: "comment_run (pre @ [space, space]) (cs @ star # slash # rest) ?s2 = comment_run ?p (star # slash # rest) s3"
    "isComment s3" "\<not> isString s3" "\<not> isEndl s3"
    using run_body [OF l, of "pre @ [space, space]" "star # slash # rest"] s by auto
  obtain s4 where s4: "comment_run ?p (star # slash # rest) s3 = comment_run (?p @ [space]) (slash # rest) s4"
    "isComment s4" "\<not> isString s4" "isMagicStar s4"
    using run_inside [of s3 star ?p "slash # rest"] s3 by (auto simp: blanked_def)
  show ?thesis
    using run_close [OF s4(2,3,4), of ?p space rest] o s3(1) s4 BlockComment
    by (intro exI [of _ "s4\<lparr>isMagicSlash := False, isComment := False, isMagicStar := False\<rparr>"])
      (simp add: outside_def)
qed

lemma run_segments:
  "list_all segment_ok segs \<Longrightarrow> outside st \<Longrightarrow>
     fst (comment_run pre (concat (map segment_text segs)) st) = pre @ concat (map segment_blank segs)"
proof (induction segs arbitrary: pre st)
  case (Cons s segs)
  obtain st' where "outside st'" "comment_run pre (segment_text s @ concat (map segment_text segs)) st =
      comment_run (pre @ segment_blank s) (concat (map segment_text segs)) st'"
    using run_segment [of s st pre] Cons.prems by auto
  then show ?case using Cons.IH [of st' "pre @ segment_blank s"] Cons.prems by simp
qed simp

lemma removeComments_run: "Parser_removeComments stream = fst (comment_run [] stream comment_init)"
  by (simp add: Parser_removeComments_def comment_run_def)

text \<open>On any text: characters are kept or blanked, and the ends of lines stay.\<close>

definition kept :: "character list \<Rightarrow> character list \<Rightarrow> bool" where
  "kept = list_all2 (\<lambda>a b. b = a \<or> b = space \<and> \<not> cChar_isNewLine a)"

lemma kept_blank:
  assumes "kept s t" "i < length t" "\<not> cChar_isNewLine (t ! i)"
  shows "kept s (t[i := space])"
  using assms unfolding kept_def list_all2_conv_all_nth
  by (auto simp: nth_list_update)

lemma comment_step_kept:
  assumes "kept s t" "i < length t" "isMagicSlash st \<or> isMagicStar st \<longrightarrow> 0 < i \<and> \<not> cChar_isNewLine (t ! (i - 1))"
    and x: "comment_step (t, st) i = (t', st')"
  shows "kept s t' \<and> length t' = length t \<and>
     (isMagicSlash st' \<or> isMagicStar st' \<longrightarrow> \<not> cChar_isNewLine (t' ! i))"
proof -
  have two: "kept s (t[i := space, i - 1 := space])" if "0 < i" "\<not> cChar_isNewLine (t ! i)" "\<not> cChar_isNewLine (t ! (i - 1))"
    using kept_blank [of s "t[i := space]" "i - 1"] kept_blank [OF assms(1,2)] that assms(2) by simp
  have one: "kept s (t[i := space])" if "\<not> cChar_isNewLine (t ! i)"
    using kept_blank [OF assms(1,2)] that .
  note cs = comment_step_def comment_slash_def comment_star_def comment_other_def Let_def
  consider "t ! i = slash" "\<not> isString st" | "t ! i = star" "\<not> isString st" | "t ! i = 34"
    | "t ! i = slash \<or> t ! i = star" "isString st" | "t ! i \<noteq> slash" "t ! i \<noteq> star" "t ! i \<noteq> 34" by blast
  then show ?thesis
  proof cases
    case 1
    then show ?thesis using two assms x by (auto simp: cs split: if_splits)
  next
    case 2
    then show ?thesis using two one assms x by (auto simp: cs split: if_splits)
  next
    case 3
    then show ?thesis using one assms x by (auto simp: cs split: if_splits)
  next
    case 4
    then show ?thesis using one assms x by (auto simp: cs split: if_splits)
  next
    case 5
    then show ?thesis using one assms x by (auto simp: cs split: if_splits)
  qed
qed

lemma removeComments_kept: "kept s (Parser_removeComments s)"
proof -
  have "n \<le> length s \<Longrightarrow> (case foldl comment_step (s, comment_init) [0..<n] of (t, st) \<Rightarrow>
      kept s t \<and> length t = length s \<and>
      (isMagicSlash st \<or> isMagicStar st \<longrightarrow> 0 < n \<and> \<not> cChar_isNewLine (t ! (n - 1))))" for n
  proof (induction n)
    case 0
    then show ?case by (simp add: comment_init_def kept_def list.rel_refl)
  next
    case (Suc n)
    obtain t st where t: "foldl comment_step (s, comment_init) [0..<n] = (t, st)" by fastforce
    obtain t' st' where t': "comment_step (t, st) n = (t', st')" by fastforce
    show ?case using comment_step_kept [OF _ _ _ t', of s] Suc t t' by simp
  qed
  from this [of "length s"] show ?thesis
    by (auto simp: Parser_removeComments_def kept_def split: prod.splits)
qed

text \<open>
  C30: in a text built of code, quoted strings on one line, and comments without a slash inside,
  \<open>removeComments\<close> blanks exactly the comments, with their marks, and keeps the ends of their
  lines. On any text it keeps the length, and every character or a blank in its place, never
  blanking the end of a line. Outside of that form it errs: a star and a slash end a line comment,
  a slash inside a comment stays, and a slash, an empty string and a slash begin a comment.
\<close>

theorem removeComments_blanks:
  assumes "list_all segment_ok segs"
  shows "Parser_removeComments (concat (map segment_text segs)) = concat (map segment_blank segs) \<and>
    kept s (Parser_removeComments s) \<and>
    Parser_removeComments (lit ''//a*/b'') = lit ''     b'' \<and>
    Parser_removeComments (lit ''/*a/b*/'') = lit ''   /   '' \<and>
    Parser_removeComments (map of_char [CHR ''/'', CHR 0x22, CHR 0x22, CHR ''/'', CHR ''b'']) =
      map of_char [CHR ''/'', CHR 0x22, CHR '' '', CHR '' '', CHR '' '']"
proof (intro conjI)
  show "Parser_removeComments (concat (map segment_text segs)) = concat (map segment_blank segs)"
    using run_segments [OF assms, of comment_init "[]"] removeComments_run
    by (simp add: outside_def comment_init_def)
  show "kept s (Parser_removeComments s)" by (rule removeComments_kept)
qed code_simp+

theorem removeComments_blanks_witness:
  "Parser_removeComments (lit ''a/b//c*'' @ [13, 10] @ lit ''/*d'' @ [10] @ lit ''**/'' @ [34] @ lit ''/*'' @ [34]) =
     lit ''a/b    '' @ [13, 10] @ lit ''   '' @ [10] @ lit ''   '' @ [34] @ lit ''/*'' @ [34]"
proof -
  let ?segs = "[Code (lit ''a/b''), LineComment (lit ''c*'') 13, Code [10],
     BlockComment (lit ''d'' @ [10] @ lit ''*''), Quoted (lit ''/*'')]"
  have "list_all segment_ok ?segs" by code_simp
  from removeComments_blanks [OF this]
  have "Parser_removeComments (concat (map segment_text ?segs)) = concat (map segment_blank ?segs)" by (rule conjunct1)
  moreover have "concat (map segment_text ?segs) =
      lit ''a/b//c*'' @ [13, 10] @ lit ''/*d'' @ [10] @ lit ''**/'' @ [34] @ lit ''/*'' @ [34]" by code_simp
  moreover have "concat (map segment_blank ?segs) =
      lit ''a/b    '' @ [13, 10] @ lit ''   '' @ [10] @ lit ''   '' @ [34] @ lit ''/*'' @ [34]" by code_simp
  ultimately show ?thesis by (simp only:)
qed

subsection \<open>Reading what has been printed\<close>

definition Parser_inv :: "Parser \<Rightarrow> bool" where
  "Parser_inv p \<longleftrightarrow> m_pointer p \<le> length (m_data p)"

text \<open>The cursor behind the next \<open>n\<close> characters.\<close>

definition Parser_skip :: "nat \<Rightarrow> Parser \<Rightarrow> Parser" where
  "Parser_skip n p =
     p\<lparr>m_pointer := m_pointer p + n,
       m_lineNumber := m_lineNumber p + of_nat (length (filter cChar_isNewLine (take n (Parser_rest p))))\<rparr>"

lemma skip_0 [simp]: "Parser_skip 0 p = p"
  by (simp add: Parser_skip_def)

lemma rest_skip [simp]: "Parser_rest (Parser_skip n p) = drop n (Parser_rest p)"
  by (simp add: Parser_skip_def Parser_rest_def add.commute)

lemma skip_skip [simp]: "Parser_skip n (Parser_skip m p) = Parser_skip (m + n) p"
proof -
  have "Parser_rest (p\<lparr>m_pointer := a, m_lineNumber := b\<rparr>) = drop a (m_data p)" for a b
    by (simp add: Parser_rest_def)
  then show ?thesis
    by (simp add: Parser_skip_def Parser_rest_def take_add add.assoc add.commute)
qed

lemma readChar_rest:
  "Parser_rest p = c # cs \<Longrightarrow> c \<noteq> 0 \<Longrightarrow> Parser_readChar p = Inr (c, Parser_skip 1 p)"
proof -
  assume r: "Parser_rest p = c # cs" "c \<noteq> 0"
  have "m_pointer p < length (m_data p)" using r(1) by (metis Parser_rest_def drop_all list.distinct(1) not_le)
  then have "m_data p ! m_pointer p = c" using r(1) by (metis Parser_rest_def hd_drop_conv_nth list.sel(1))
  then show ?thesis
    using r isEOS_rest [of p]
    by (simp add: Parser_readChar_def Parser_checkNotEOS_def PARSER_CHECK_def Parser_skip_def Let_def)
qed

lemma peekChar_rest:
  "Parser_rest p = c # cs \<Longrightarrow> c \<noteq> 0 \<Longrightarrow> Parser_peekChar p = Inr c"
proof -
  assume r: "Parser_rest p = c # cs" "c \<noteq> 0"
  have "m_pointer p < length (m_data p)" using r(1) by (metis Parser_rest_def drop_all list.distinct(1) not_le)
  then have "m_data p ! m_pointer p = c" using r(1) by (metis Parser_rest_def hd_drop_conv_nth list.sel(1))
  then show ?thesis
    using r isEOS_rest [of p] by (simp add: Parser_peekChar_def Parser_checkNotEOS_def PARSER_CHECK_def)
qed

text \<open>Names, and what ends them.\<close>

definition word_char :: "character \<Rightarrow> bool" where
  "word_char c \<longleftrightarrow> cChar_isLetter c \<or> cChar_isDigit c \<or> c = ch CHR ''_''"

definition word_end :: "character list \<Rightarrow> bool" where
  "word_end xs \<longleftrightarrow> xs = [] \<or> \<not> word_char (hd xs)"

lemma word_char_nonzero: "word_char c \<Longrightarrow> c \<noteq> 0"
proof -
  have "\<not> word_char 0" by code_simp
  then show "word_char c \<Longrightarrow> c \<noteq> 0" by auto
qed

lemma readCString_loop_rest:
  "Parser_rest p = ws @ xs \<Longrightarrow> list_all word_char ws \<Longrightarrow> word_end xs \<Longrightarrow>
     readCString_loop p (cstr a) = Inr (cstr (a @ ws), Parser_skip (length ws) p)"
proof (induction ws arbitrary: p a)
  case Nil
  show ?case
  proof (cases "Parser_isEOS p")
    case False
    then obtain c cs where c: "Parser_rest p = c # cs" "c \<noteq> 0"
      using isEOS_rest [of p] by (cases "Parser_rest p") auto
    then have "\<not> word_char c" using Nil by (auto simp: word_end_def)
    then show ?thesis
      using False peekChar_rest [OF c] by (subst readCString_loop.simps) (simp add: word_char_def)
  qed (subst readCString_loop.simps, simp)
next
  case (Cons c ws)
  have c: "c \<noteq> 0" "word_char c" using Cons.prems(2) word_char_nonzero by auto
  have r: "Parser_rest p = c # ws @ xs" using Cons.prems(1) by simp
  have e: "\<not> Parser_isEOS p" using r c(1) isEOS_rest [of p] by simp
  have "readCString_loop p (cstr a) = readCString_loop (Parser_skip 1 p) (cstr (a @ [c]))"
    using e c peekChar_rest [OF r c(1)] readChar_rest [OF r c(1)]
    by (subst readCString_loop.simps) (simp add: word_char_def cstr_simps)
  then show ?case using Cons.IH [of "Parser_skip 1 p" "a @ [c]"] Cons.prems r by simp
qed

lemma readCString_rest:
  assumes "Parser_rest p = c # ws @ xs" "c \<noteq> 0" "list_all word_char ws" "word_end xs"
    "\<not> first \<or> cChar_isLetter c \<or> c = ch CHR ''_''"
  shows "Parser_readCString p first = Inr (cstr (c # ws), Parser_skip (length (c # ws)) p)"
  using assms readChar_rest [OF assms(1,2)] readCString_loop_rest [of "Parser_skip 1 p" ws xs "[c]"]
  by (auto simp: Parser_readCString_def cstr_simps PARSER_CHECK_def)

text \<open>Quoted strings: the writer puts a backslash before the characters that have a letter.\<close>

definition escape :: "character \<Rightarrow> character list" where
  "escape c =
     (if c = 7 then [92, ch CHR ''a''] else if c = 8 then [92, ch CHR ''b'']
      else if c = 12 then [92, ch CHR ''f''] else if c = 10 then [92, ch CHR ''n'']
      else if c = 13 then [92, ch CHR ''r''] else if c = 9 then [92, ch CHR ''t'']
      else if c = 11 then [92, ch CHR ''v''] else if c = 34 then [92, 34] else if c = 92 then [92, 92] else [c])"

lemma readQuate_step:
  assumes "Parser_rest p = r" "c # r = escape d @ x # xs" "d \<noteq> 0" "x \<noteq> 0"
  shows "readQuate_loop p True (cstr a) c = readQuate_loop (Parser_skip (length (escape d)) p) True (cstr (a @ [d])) x"
proof (cases "escape d = [d]")
  case True
  then have d: "c = d" "r = x # xs" using assms(2) by auto
  have "d \<noteq> 34" "d \<noteq> 92" using True by (auto simp: escape_def)
  then show ?thesis
    using True d assms(1,3) readChar_rest [of p x xs, OF _ assms(4)]
    by (subst readQuate_loop.simps) (simp add: cstr_simps)
next
  case False
  then obtain e where e: "escape d = [92, e]" "readQuate_escape e = Inr d" "e \<noteq> 0"
    by (auto simp: escape_def readQuate_escape_def ch_def split: if_splits)
  then have c: "c = 92" "Parser_rest p = e # x # xs" using assms(1,2) by auto
  then show ?thesis
    using e assms(3) readChar_rest [OF c(2) e(3)] readChar_rest [of "Parser_skip 1 p" x xs, OF _ assms(4)]
    by (subst readQuate_loop.simps) (simp add: cstr_simps)
qed

lemma escape_nonzero: "c \<noteq> 0 \<Longrightarrow> escape c \<noteq> [] \<and> hd (escape c) \<noteq> 0"
  by (simp add: escape_def)

lemma readQuate_rest:
  "nonul cs \<Longrightarrow> c # Parser_rest p = concat (map escape cs) @ 34 # xs \<Longrightarrow>
     readQuate_loop p True (cstr a) c = Inr (cstr (a @ cs), Parser_skip (length (concat (map escape cs))) p)"
proof (induction cs arbitrary: c p a)
  case Nil
  then show ?case by (subst readQuate_loop.simps) simp
next
  case (Cons d cs)
  have d: "d \<noteq> 0" and cs: "nonul cs" using Cons.prems(1) by (auto simp: nonul_def)
  obtain x ys where x: "concat (map escape cs) @ 34 # xs = x # ys" by (cases "concat (map escape cs)") auto
  have x0: "x \<noteq> 0"
  proof (cases cs)
    case (Cons e es)
    then show ?thesis using x escape_nonzero [of e] cs by (cases "escape e") (auto simp: nonul_def)
  qed (use x in simp)
  have e: "c # Parser_rest p = escape d @ x # ys" using Cons.prems(2) x by simp
  have "length (escape d) \<noteq> 0" using escape_nonzero [OF d] by simp
  then have r: "x # Parser_rest (Parser_skip (length (escape d)) p) = concat (map escape cs) @ 34 # xs"
    using x e by (cases "escape d") (auto simp: drop_Cons')
  show ?case
    using readQuate_step [OF refl e d x0] Cons.IH [OF cs r] by (simp add: add.commute)
qed

subsection \<open>Numbers that are read back\<close>

lemma below_16:
  assumes "list_all P [0..<16]" "d < 16"
  shows "P d"
  using assms by (simp add: list_all_iff)

lemma digit_facts:
  assumes "d < 16"
  shows "cChar_getUppercase (strip d) = strip d" "word_char (strip d)"
    "cChar_isLetter (strip d) \<longleftrightarrow> 10 \<le> d" "d < 10 \<longrightarrow> cChar_isDigit (strip d)" "strip d \<noteq> ch CHR ''L''"
    "10 \<le> d \<longrightarrow> ch CHR ''A'' \<le>s strip d \<and> strip d \<le>s ch CHR ''F''"
    "10 \<le> d \<longrightarrow> hex_value (strip d) = of_nat d"
    "d < 10 \<longrightarrow> cChar_getDigit (strip d) = of_nat d" "strip d = ch CHR ''0'' \<longleftrightarrow> d = 0"
    "strip d \<noteq> ch CHR ''-''" "strip d \<noteq> ch CHR ''+''"
  by (rule below_16 [OF _ assms]; code_simp)+

abbreviation radix :: "bool \<Rightarrow> nat" where
  "radix isHex \<equiv> if isHex then 16 else 10"

lemma drop_eq_Cons:
  assumes "drop i cs = x # xs"
  shows "i < length cs" "cs ! i = x" "drop (Suc i) cs = xs"
proof -
  show i: "i < length cs" using assms by (cases "i < length cs") auto
  show "cs ! i = x" "drop (Suc i) cs = xs" using assms Cons_nth_drop_Suc [OF i] by auto
qed

lemma isCUnsigned_loop_digits:
  "length cs < 2 ^ 31 \<Longrightarrow> drop i cs = map strip ds \<Longrightarrow> \<forall>d \<in> set ds. d < radix h \<Longrightarrow>
     isCUnsigned_loop (cstr cs) h i (of_nat r) = Inr (Some (of_nat (foldl (\<lambda>v d. v * radix h + d) r ds)))"
proof (induction ds arbitrary: i r)
  case Nil
  then show ?case by (subst isCUnsigned_loop.simps) simp
next
  case (Cons d ds)
  have i: "i < length cs" and c: "cs ! i = strip d" and r: "drop (Suc i) cs = map strip ds"
    using drop_eq_Cons [of i cs] Cons.prems(2) by simp_all
  have d: "d < 16" "d < radix h" using Cons.prems(3) by (auto split: if_splits)
  note f = digit_facts [OF d(1)]
  have g: "cString_get (cstr cs) i = Inr (strip d)" using i c Cons.prems(1) by (simp add: get_simp)
  have "isCUnsigned_loop (cstr cs) h i (of_nat r) = isCUnsigned_loop (cstr cs) h (Suc i) (of_nat (r * radix h + d))"
  proof (cases "d < 10")
    case True
    then show ?thesis using i g f by (subst isCUnsigned_loop.simps) simp
  next
    case False
    then show ?thesis using i g f d(2) by (subst isCUnsigned_loop.simps) (simp split: if_splits)
  qed
  then show ?case using Cons.IH [OF Cons.prems(1) r, of "r * radix h + d"] Cons.prems(3) by simp
qed

lemma isCUnsigned_hex:
  "k < 2 ^ 30 \<Longrightarrow> isCUnsigned_number (cstr (ch CHR ''0'' # ch CHR ''x'' # map strip (hexdigits k n))) = Inr (Some (of_nat (n mod 16 ^ k)))"
proof -
  assume k: "k < 2 ^ 30"
  let ?cs = "ch CHR ''0'' # ch CHR ''x'' # map strip (hexdigits k n)"
  have "isCUnsigned_loop (cstr ?cs) True 2 (of_nat 0) = Inr (Some (of_nat (n mod 16 ^ k)))"
    using isCUnsigned_loop_digits [of ?cs 2 "hexdigits k n" True 0] hexdigits_bound k by (simp add: hexdigits_value)
  then show ?thesis using k get_simp [of 0 ?cs] get_simp [of 1 ?cs] by (simp add: isCUnsigned_number_def)
qed

lemma isCUnsigned_decimal:
  assumes "is_numeral 10 n ds" "n < 2 ^ 64"
  shows "isCUnsigned_number (cstr (map strip ds)) = Inr (Some (of_nat n))"
proof -
  obtain d es where ds: "ds = d # es" "d < 10" "\<forall>e \<in> set ds. e < radix False" "d = 0 \<Longrightarrow> es = []"
    using assms(1) by (cases ds) (auto simp: is_numeral_def)
  have v: "foldl (\<lambda>v d. v * 10 + d) 0 ds = n" using assms(1) by (simp add: is_numeral_def)
  have l: "length ds < 2 ^ 31" using numeral_length [OF assms(1) _ assms(2)] by simp
  have "isCUnsigned_loop (cstr (map strip ds)) False 0 (of_nat 0) = Inr (Some (of_nat n))"
    using isCUnsigned_loop_digits [of "map strip ds" 0 ds False 0] ds(3) v l by simp
  then show ?thesis
    using ds v l digit_facts(9) [of d] get_simp [of 0 "map strip ds"] by (auto simp: isCUnsigned_number_def)
qed

lemma readCUnsigned_rest:
  assumes "Parser_rest p = c # ws @ xs" "list_all word_char (c # ws)" "word_end xs"
    "isCUnsigned_number (cstr (c # ws)) = Inr (Some n)"
  shows "Parser_readCUnsignedInteger p = Inr (n, Parser_skip (length (c # ws)) p)"
  using readCString_rest [OF assms(1) _ _ assms(3), of False] assms(2,4) word_char_nonzero [of c]
  by (simp add: Parser_readCUnsignedInteger_def Parser_isCUnsignedInteger_def)

lemma word_chars_strip: "\<forall>d \<in> set ds. d < 16 \<Longrightarrow> list_all word_char (map strip ds)"
  using digit_facts(2) by (auto simp: list_all_iff)

lemma read_hex:
  assumes "Parser_rest p = lit ''0x'' @ map strip (hexdigits k n) @ xs" "word_end xs" "k < 2 ^ 30"
  shows "Parser_readCUnsignedInteger p = Inr (of_nat (n mod 16 ^ k), Parser_skip (k + 2) p)"
proof -
  have l: "lit ''0x'' = [ch CHR ''0'', ch CHR ''x'']" by (simp add: lit_def ch_def)
  have w: "word_char (ch CHR ''0'')" "word_char (ch CHR ''x'')" by code_simp+
  show ?thesis
    using readCUnsigned_rest [of p "ch CHR ''0''" "ch CHR ''x'' # map strip (hexdigits k n)" xs]
      assms w isCUnsigned_hex [of k n] word_chars_strip [of "hexdigits k n"] hexdigits_bound
    by (simp add: l)
qed

lemma read_decimal:
  assumes "Parser_rest p = map strip ds @ xs" "word_end xs" "is_numeral 10 n ds" "n < 2 ^ 64"
  shows "Parser_readCUnsignedInteger p = Inr (of_nat n, Parser_skip (length ds) p)"
proof -
  obtain d es where ds: "ds = d # es" using assms(3) by (cases ds) (auto simp: is_numeral_def)
  have "list_all word_char (map strip ds)"
    by (rule word_chars_strip) (use assms(3) in \<open>auto simp: is_numeral_def\<close>)
  then show ?thesis
    using readCUnsigned_rest [of p "strip d" "map strip es" xs] assms(1,2) isCUnsigned_decimal [OF assms(3,4)]
    by (simp add: ds)
qed

subsection \<open>Variables that are read back\<close>

definition same_value :: "BasicVariable \<Rightarrow> BasicVariable \<Rightarrow> bool" where
  "same_value v w \<longleftrightarrow>
     m_vtype v = m_vtype w \<and> BasicVariable_getUnsignedInteger v = BasicVariable_getUnsignedInteger w \<and>
     BasicVariable_getSignedInteger v = BasicVariable_getSignedInteger w \<and>
     BasicVariable_getString v = BasicVariable_getString w"

lemma ucast_of_nat: "ucast w = of_nat (unat w)" for w :: "'a::len word"
  by simp

lemma unat_below_hex: "LENGTH('a) = 4 * k \<Longrightarrow> unat w < 16 ^ k" for w :: "'a::len word"
  using unsigned_less [of w, where 'a = nat] by (simp add: power_mult)

lemma makeString_unsigned:
  assumes "Types_isUnsignedIntegerType (m_vtype v)"
  shows "\<exists>k n. BasicVariable_getUnsignedInteger v = Inr (of_nat n) \<and> n < 16 ^ k \<and>
     k = 2 * unat (m_typeSize (m_vtype v)) \<and>
     BasicVariable_makeString v = ok (cstr (lit ''0x'' @ map strip (hexdigits k n)))"
proof -
  have c: "cString_new (Some (lit ''0x'' @ [0])) = cstr (lit ''0x'')"
    using new_simps(3) [of "lit ''0x''" "[]"] by (simp add: lit_def)
  have p: "cString_plus (cstr (lit ''0x'')) (cstr (map strip (hexdigits k n))) = cstr (lit ''0x'' @ map strip (hexdigits k n))"
    for k n by (rule plus_simp) (simp_all add: lit_def)
  consider "m_vtype v = TYPE_UINT8" | "m_vtype v = TYPE_UINT16" | "m_vtype v = TYPE_UINT32"
    using assms by (cases "m_vtype v") simp_all
  then show ?thesis
  proof cases
    case 1
    let ?w = "ucast (m_vdata v) :: uint8"
    have "BasicVariable_getUnsignedInteger v = Inr (of_nat (unat ?w))"
      using 1 by (simp only: BasicVariable_getUnsignedInteger_def Types_isUnsignedIntegerType.simps
          CHECK_True bind_res_Inr Types.case ucast_of_nat)
    moreover have "BasicVariable_makeString v = ok (cstr (lit ''0x'' @ map strip (hexdigits 2 (unat ?w))))"
      using 1 by (simp only: BasicVariable_makeString_def Let_def c Types.case HEXBYTE_simp p)
    moreover have "unat ?w < 16 ^ 2" by (rule unat_below_hex) simp
    moreover have "2 = 2 * unat (m_typeSize (m_vtype v))" using 1 by simp
    ultimately show ?thesis by blast
  next
    case 2
    let ?w = "ucast (m_vdata v) :: uint16"
    have "BasicVariable_getUnsignedInteger v = Inr (of_nat (unat ?w))"
      using 2 by (simp only: BasicVariable_getUnsignedInteger_def Types_isUnsignedIntegerType.simps
          CHECK_True bind_res_Inr Types.case ucast_of_nat)
    moreover have "BasicVariable_makeString v = ok (cstr (lit ''0x'' @ map strip (hexdigits 4 (unat ?w))))"
      using 2 by (simp only: BasicVariable_makeString_def Let_def c Types.case HEXWORD_simp p)
    moreover have "unat ?w < 16 ^ 4" by (rule unat_below_hex) simp
    moreover have "4 = 2 * unat (m_typeSize (m_vtype v))" using 2 by simp
    ultimately show ?thesis by blast
  next
    case 3
    have "BasicVariable_getUnsignedInteger v = Inr (of_nat (unat (m_vdata v)))"
      using 3 by (simp only: BasicVariable_getUnsignedInteger_def Types_isUnsignedIntegerType.simps
          CHECK_True bind_res_Inr Types.case ucast_of_nat)
    moreover have "BasicVariable_makeString v = ok (cstr (lit ''0x'' @ map strip (hexdigits 8 (unat (m_vdata v)))))"
      using 3 by (simp only: BasicVariable_makeString_def Let_def c Types.case HEXDWORD_simp p)
    moreover have "unat (m_vdata v) < 16 ^ 8" by (rule unat_below_hex) simp
    moreover have "8 = 2 * unat (m_typeSize (m_vtype v))" using 3 by simp
    ultimately show ?thesis by blast
  qed
qed

lemma sint_scast_uint32:
  "sint (scast w :: uint32) = sint w" "sint (scast k :: uint32) = sint k" for w :: uint8 and k :: uint16
  using sint_ge [of w] sint_lt [of w] sint_ge [of k] sint_lt [of k]
  by (simp_all add: signed_scast_eq signed_take_bit_int_eq_self)

lemma getSigned_range:
  assumes "Types_isSignedIntegerType (m_vtype v)"
  shows "\<exists>n. BasicVariable_getSignedInteger v = Inr n \<and>
     - (2 ^ (8 * unat (m_typeSize (m_vtype v)) - 1)) \<le> sint n \<and>
     sint n < 2 ^ (8 * unat (m_typeSize (m_vtype v)) - 1)"
proof -
  consider "m_vtype v = TYPE_INT8" | "m_vtype v = TYPE_INT16" | "m_vtype v = TYPE_INT32"
    using assms by (cases "m_vtype v") simp_all
  then show ?thesis
  proof cases
    case 1
    have "BasicVariable_getSignedInteger v = Inr (scast (ucast (m_vdata v) :: uint8))"
      using 1 by (simp add: BasicVariable_getSignedInteger_def)
    then show ?thesis
      using sint_ge [of "ucast (m_vdata v) :: uint8"] sint_lt [of "ucast (m_vdata v) :: uint8"] 1
      by (simp add: sint_scast_uint32 del: signed_scast_eq)
  next
    case 2
    have "BasicVariable_getSignedInteger v = Inr (scast (ucast (m_vdata v) :: uint16))"
      using 2 by (simp add: BasicVariable_getSignedInteger_def)
    then show ?thesis
      using sint_ge [of "ucast (m_vdata v) :: uint16"] sint_lt [of "ucast (m_vdata v) :: uint16"] 2
      by (simp add: sint_scast_uint32)
  next
    case 3
    then show ?thesis using sint_ge [of "m_vdata v"] sint_lt [of "m_vdata v"]
      by (simp add: BasicVariable_getSignedInteger_def)
  qed
qed

lemma makeString_signed:
  assumes "Types_isSignedIntegerType (m_vtype v)" "BasicVariable_getSignedInteger v = Inr n" "sint n \<noteq> - (2 ^ 31)"
  shows "\<exists>ds. BasicVariable_makeString v = ok (cstr ((if sint n < 0 then lit ''-'' else []) @ map strip ds)) \<and>
     is_numeral 10 (nat \<bar>sint n\<bar>) ds"
  using new_int32_simp [of 10 n] assms
  by (cases "m_vtype v") (auto simp: BasicVariable_makeString_def ok_def)

lemma power_16_8: "(16 :: nat) ^ (2 * s) = 2 ^ (8 * s)"
  using power_mult [of "2 :: nat" 4 "2 * s"] by simp

lemma readVariable_unsigned:
  assumes t: "Types_isUnsignedIntegerType t" and n: "n < 16 ^ (2 * unat (m_typeSize t))"
    and r: "Parser_rest p = lit ''0x'' @ map strip (hexdigits (2 * unat (m_typeSize t)) n) @ ys" "word_end ys"
  shows "\<exists>w. Parser_readVariable p t = Inr (w, Parser_skip (2 * unat (m_typeSize t) + 2) p) \<and> m_vtype w = t \<and>
     BasicVariable_getUnsignedInteger w = Inr (of_nat n)"
proof -
  let ?v = "BasicVariable_new t"
  have v: "m_vtype ?v = t" by (simp add: BasicVariable_new_def)
  have i: "Types_isIntegerType t" "\<not> Types_isSignedIntegerType t" using t by (cases t; simp add: Types_isIntegerType_def)+
  have s: "unat (m_typeSize t) \<le> 4" using t by (cases t) simp_all
  then have "(2 :: nat) ^ (8 * unat (m_typeSize t)) \<le> 2 ^ 32" by (intro power_increasing) simp_all
  then have b: "unat (of_nat n :: uint64) < 2 ^ (8 * unat (m_typeSize (m_vtype ?v)))"
    using n by (simp add: v power_16_8 unsigned_of_nat take_bit_nat_eq_self)
  obtain w where "BasicVariable_setUnsignedInteger ?v (of_nat n) = Inr w" "m_vtype w = t"
    "BasicVariable_getUnsignedInteger w = Inr (of_nat n)"
    using get_unsigned [OF _ b] t v by metis
  moreover have "Parser_readCUnsignedInteger p = Inr (of_nat n, Parser_skip (2 * unat (m_typeSize t) + 2) p)"
    using read_hex [OF r] n s by simp
  ultimately show ?thesis using i by (simp add: Parser_readVariable_def)
qed

lemma of_nat_abs_sint: "(of_nat (nat \<bar>sint n\<bar>) :: uint32) = (if sint n < 0 then - n else n)" for n :: uint32
proof (cases "sint n < 0")
  case True
  then have "(of_nat (nat \<bar>sint n\<bar>) :: uint32) = of_int (- sint n)" by (simp add: of_nat_nat)
  also have "\<dots> = - n" by simp
  finally show ?thesis using True by simp
next
  case False
  then have "(of_nat (nat \<bar>sint n\<bar>) :: uint32) = of_int (sint n)" by (simp add: of_nat_nat)
  then show ?thesis using False by simp
qed

lemma abs_sint_bound: "nat \<bar>sint n\<bar> \<le> 2147483648" for n :: uint32
  using sint_ge [of n] sint_lt [of n] by simp

lemma ucast_of_nat_64: "k \<le> 2147483648 \<Longrightarrow> ucast (of_nat k :: uint64) = (of_nat k :: uint32)"
  by (simp add: unsigned_of_nat take_bit_nat_eq_self flip: ucast_of_nat)

lemma of_nat_le_2_31: "k \<le> 2147483648 \<Longrightarrow> (of_nat k :: uint64) \<le> 0x80000000"
  by (simp add: word_le_nat_alt unsigned_of_nat take_bit_nat_eq_self)

lemma readSigned_rest:
  assumes "Parser_rest p = (if neg then lit ''-'' else []) @ map strip ds @ ys" "is_numeral 10 n ds"
  shows "Parser_readSignedValue p = Inr (neg, if neg then Parser_skip 1 p else p)"
proof -
  obtain d es where ds: "ds = d # es" "d < 10" using assms(2) by (cases ds) (auto simp: is_numeral_def)
  have m: "lit ''-'' = [ch CHR ''-'']" "ch CHR ''-'' \<noteq> 0" by (simp_all add: lit_def ch_def)
  have d0: "strip d \<noteq> 0" using ds(2) strip_nonzero [of d] by simp
  show ?thesis
  proof (cases neg)
    case True
    then have r: "Parser_rest p = ch CHR ''-'' # map strip ds @ ys" using assms(1) m(1) by simp
    then have "\<not> Parser_isEOS p" using isEOS_rest [of p] m(2) by simp
    then show ?thesis using readChar_rest [OF r m(2)] peekChar_rest [OF r m(2)] True
      by (simp add: Parser_readSignedValue_def Parser_checkNotEOS_def PARSER_CHECK_def)
  next
    case False
    then have r: "Parser_rest p = strip d # map strip es @ ys" using assms(1) ds(1) by simp
    then have "\<not> Parser_isEOS p" using isEOS_rest [of p] d0 by simp
    then show ?thesis using peekChar_rest [OF r d0] digit_facts(10,11) [of d] ds(2) False
      by (simp add: Parser_readSignedValue_def Parser_checkNotEOS_def PARSER_CHECK_def)
  qed
qed

lemma readVariable_signed:
  assumes t: "Types_isSignedIntegerType t"
    and n: "- (2 ^ (8 * unat (m_typeSize t) - 1)) \<le> sint n" "sint n < 2 ^ (8 * unat (m_typeSize t) - 1)"
    and ds: "is_numeral 10 (nat \<bar>sint n\<bar>) ds"
    and r: "Parser_rest p = (if sint n < 0 then lit ''-'' else []) @ map strip ds @ ys" "word_end ys"
  shows "if n = 0x80000000 then Parser_readVariable p t = Inl UNDEFINED_BEHAVIOUR
     else \<exists>w. Parser_readVariable p t = Inr (w, Parser_skip (length ((if sint n < 0 then lit ''-'' else []) @ map strip ds)) p) \<and>
       m_vtype w = t \<and> BasicVariable_getSignedInteger w = Inr n"
proof -
  let ?v = "BasicVariable_new t" let ?neg = "sint n < 0" let ?p = "if ?neg then Parser_skip 1 p else p"
  let ?k = "nat \<bar>sint n\<bar>" let ?q = "Parser_skip (length ds) ?p"
  have v: "m_vtype ?v = t" by (simp add: BasicVariable_new_def)
  have i: "Types_isIntegerType t" using t by (cases t; simp add: Types_isIntegerType_def)
  have l: "length (lit ''-'') = 1" by (simp add: lit_def)
  have q: "?q = Parser_skip (length ((if ?neg then lit ''-'' else []) @ map strip ds)) p"
    by (simp add: l)
  have "Parser_rest ?p = map strip ds @ ys" using r(1) l by simp
  then have num: "Parser_readCUnsignedInteger ?p = Inr (of_nat ?k, ?q)" using read_decimal [OF _ r(2) ds] abs_sint_bound [of n] by simp
  have k: "(ucast (of_nat ?k :: uint64) :: uint32) = (if ?neg then - n else n)"
    unfolding ucast_of_nat_64 [OF abs_sint_bound] by (rule of_nat_abs_sint)
  have le: "(of_nat ?k :: uint64) \<le> 0x80000000"
    by (rule of_nat_le_2_31 [OF abs_sint_bound])
  obtain w where w: "BasicVariable_setSignedInteger ?v n = Inr w" "m_vtype w = t"
    "BasicVariable_getSignedInteger w = Inr n"
    using get_signed [of ?v n] t n v by metis
  have min: "- n = 0x80000000 \<longleftrightarrow> n = 0x80000000"
  proof -
    have "(- 0x80000000 :: uint32) = 0x80000000" by code_simp
    then show ?thesis using neg_equal_iff_equal [of n "0x80000000"] by metis
  qed
  have pos: "n = 0x80000000 \<Longrightarrow> ?neg" by simp
  show ?thesis
    using readSigned_rest [OF r(1) ds] num k le w min pos i t unfolding q [symmetric]
    by (cases ?neg) (auto simp: Parser_readVariable_def PARSER_CHECK_def)
qed

lemma readVariable_integer:
  assumes "Types_isIntegerType (m_vtype v)"
  shows "if BasicVariable_getSignedInteger v = Inr 0x80000000 then
      BasicVariable_makeString v = throw UNDEFINED_BEHAVIOUR \<and>
      (\<forall>p ys. Parser_rest p = lit ''-2147483648'' @ ys \<and> word_end ys \<longrightarrow>
         Parser_readVariable p (m_vtype v) = Inl UNDEFINED_BEHAVIOUR)
    else \<exists>xs. BasicVariable_makeString v = ok (cstr xs) \<and>
      (\<forall>p ys. Parser_rest p = xs @ ys \<and> word_end ys \<longrightarrow>
         (\<exists>w. Parser_readVariable p (m_vtype v) = Inr (w, Parser_skip (length xs) p) \<and> same_value v w))"
proof -
  have s: "BasicVariable_getString v = Inl EXCEPTION_ASSERTION \<and> \<not> Types_isStringType (m_vtype v)"
    using assms by (cases "m_vtype v") (simp_all add: BasicVariable_getString_def Types_isStringType_def Types_isIntegerType_def)
  show ?thesis
  proof (cases "Types_isUnsignedIntegerType (m_vtype v)")
    case True
    then have ns: "\<not> Types_isSignedIntegerType (m_vtype v)" by (cases "m_vtype v") simp_all
    let ?k = "2 * unat (m_typeSize (m_vtype v))"
    obtain n where n: "BasicVariable_getUnsignedInteger v = Inr (of_nat n)" "n < 16 ^ ?k"
      "BasicVariable_makeString v = ok (cstr (lit ''0x'' @ map strip (hexdigits ?k n)))"
      using makeString_unsigned [OF True] by blast
    have l: "length (lit ''0x'' @ map strip (hexdigits ?k n)) = ?k + 2" by (simp add: lit_def)
    have "same_value v w" if "m_vtype w = m_vtype v" "BasicVariable_getUnsignedInteger w = Inr (of_nat n)" for w
      using that n(1) ns s by (simp add: same_value_def BasicVariable_getSignedInteger_def BasicVariable_getString_def)
    moreover have "BasicVariable_getSignedInteger v \<noteq> Inr 0x80000000"
      using ns by (simp add: BasicVariable_getSignedInteger_def)
    ultimately have read: "\<exists>w. Parser_readVariable p (m_vtype v) =
          Inr (w, Parser_skip (length (lit ''0x'' @ map strip (hexdigits ?k n))) p) \<and> same_value v w"
      if "Parser_rest p = (lit ''0x'' @ map strip (hexdigits ?k n)) @ ys \<and> word_end ys" for p ys
      using readVariable_unsigned [OF True n(2), of p ys] that unfolding append_assoc l by auto
    have ne: "BasicVariable_getSignedInteger v \<noteq> Inr 0x80000000"
      using ns by (simp add: BasicVariable_getSignedInteger_def)
    show ?thesis
      unfolding if_not_P [OF ne] using n(3) read by blast
  next
    case False
    then have sg: "Types_isSignedIntegerType (m_vtype v)" using assms by (simp add: Types_isIntegerType_def)
    obtain n where n: "BasicVariable_getSignedInteger v = Inr n"
      "- (2 ^ (8 * unat (m_typeSize (m_vtype v)) - 1)) \<le> sint n"
      "sint n < 2 ^ (8 * unat (m_typeSize (m_vtype v)) - 1)"
      using getSigned_range [OF sg] by blast
    show ?thesis
    proof (cases "n = 0x80000000")
      case True
      let ?ds = "[2, 1, 4, 7, 4, 8, 3, 6, 4, 8] :: nat list"
      have neg: "sint (0x80000000 :: uint32) = - 2147483648" by simp
      have num: "is_numeral 10 (nat \<bar>sint n\<bar>) ?ds" unfolding True neg by (simp add: is_numeral_def)
      have strip: "map strip ?ds = lit ''2147483648''" by code_simp
      have sign: "lit ''-2147483648'' = lit ''-'' @ lit ''2147483648''" by (simp add: lit_def)
      have "Parser_readVariable p (m_vtype v) = Inl UNDEFINED_BEHAVIOUR"
        if r: "Parser_rest p = lit ''-2147483648'' @ ys" and e: "word_end ys" for p ys
      proof -
        have "Parser_rest p = (if sint n < 0 then lit ''-'' else []) @ map strip ?ds @ ys"
          unfolding strip r sign True neg by simp
        from readVariable_signed [OF sg n(2,3) num this e] show ?thesis using True by (simp only: if_True simp_thms)
      qed
      moreover have "BasicVariable_makeString v = throw UNDEFINED_BEHAVIOUR"
        using n(1) sg new_int_least(2) [of n 10] True neg
        by (cases "m_vtype v") (simp_all add: BasicVariable_makeString_def throw_def)
      ultimately show ?thesis unfolding n(1) True by (simp only: if_True simp_thms) blast
    next
      case False
      have "sint n \<noteq> sint (0x80000000 :: uint32)" using False signed_word_eqI [of n "0x80000000"] by blast
      then have least: "sint n \<noteq> - (2 ^ 31)" by simp
      obtain ds where ds: "BasicVariable_makeString v = ok (cstr ((if sint n < 0 then lit ''-'' else []) @ map strip ds))"
        "is_numeral 10 (nat \<bar>sint n\<bar>) ds"
        using makeString_signed [OF sg n(1) least] by blast
      have "same_value v w" if "m_vtype w = m_vtype v" "BasicVariable_getSignedInteger w = Inr n" for w
        using that n(1) \<open>\<not> Types_isUnsignedIntegerType (m_vtype v)\<close> s by (simp add: same_value_def BasicVariable_getUnsignedInteger_def BasicVariable_getString_def)
      moreover have "\<exists>w. Parser_readVariable p (m_vtype v) =
          Inr (w, Parser_skip (length ((if sint n < 0 then lit ''-'' else []) @ map strip ds)) p) \<and>
          m_vtype w = m_vtype v \<and> BasicVariable_getSignedInteger w = Inr n"
        if r: "Parser_rest p = ((if sint n < 0 then lit ''-'' else []) @ map strip ds) @ ys \<and> word_end ys" for p ys
        using readVariable_signed [OF sg n(2,3) ds(2), of p ys] r False unfolding append_assoc if_not_P [OF False] by blast
      ultimately have read: "\<exists>w. Parser_readVariable p (m_vtype v) =
          Inr (w, Parser_skip (length ((if sint n < 0 then lit ''-'' else []) @ map strip ds)) p) \<and> same_value v w"
        if "Parser_rest p = ((if sint n < 0 then lit ''-'' else []) @ map strip ds) @ ys \<and> word_end ys" for p ys
        using that by blast
      have ne: "BasicVariable_getSignedInteger v \<noteq> Inr 0x80000000" using n(1) False by simp
      show ?thesis
        unfolding if_not_P [OF ne] using ds(1) read by blast
    qed
  qed
qed

lemma readVariable_string:
  assumes cs: "nonul cs" and r: "Parser_rest p = 34 # concat (map escape cs) @ 34 # ys"
  shows "\<exists>w. Parser_readVariable p TYPE_STRING = Inr (w, Parser_skip (length (concat (map escape cs)) + 2) p) \<and>
           BasicVariable_getString w = Inr (cstr cs)"
proof -
  obtain x xs where x: "concat (map escape cs) @ 34 # ys = x # xs" by (cases "concat (map escape cs)") auto
  have "x \<noteq> 0"
  proof (cases cs)
    case (Cons e es)
    then show ?thesis using x escape_nonzero [of e] cs by (cases "escape e") (auto simp: nonul_def)
  qed (use x in simp)
  then have c: "Parser_readChar (Parser_skip 1 p) = Inr (x, Parser_skip 2 p)"
    using readChar_rest [of "Parser_skip 1 p" x xs] r x by (simp add: numeral_2_eq_2)
  have "readQuate_loop (Parser_skip 2 p) True (cstr []) x =
      Inr (cstr ([] @ cs), Parser_skip (length (concat (map escape cs))) (Parser_skip 2 p))"
    by (rule readQuate_rest [OF cs, of _ _ ys]) (use r x in \<open>simp add: numeral_2_eq_2\<close>)
  then have "Parser_readQuateString p True = Inr (cstr cs, Parser_skip (length (concat (map escape cs)) + 2) p)"
    using readChar_rest [OF r] c
    by (simp add: Parser_readQuateString_def PARSER_CHECK_def cstr_simps cString_createEmptyString_def cstr_def)
  then show ?thesis
    using cs by (simp add: Parser_readVariable_def Types_isIntegerType_def Types_isStringType_def BasicVariable_setString_def
        BasicVariable_getString_def BasicVariable_new_def assign_simp)
qed

text \<open>
  C15: a variable that is printed can be read back. For every integer variable but one \<open>makeString\<close>
  returns, and where the parser finds that text, with anything but a letter, a digit or an
  underscore behind it, it reads a variable of that type with the same value and stops behind the
  text; the least number of 32 bits, whose negation overflows, can neither be printed nor
  read. A string is read back from its text between quotes with the special characters escaped.
\<close>

theorem parser_variables:
  assumes "Types_isIntegerType (m_vtype v)"
  shows "(if BasicVariable_getSignedInteger v = Inr 0x80000000 then
      BasicVariable_makeString v = throw UNDEFINED_BEHAVIOUR \<and>
      (\<forall>p ys. Parser_rest p = lit ''-2147483648'' @ ys \<and> word_end ys \<longrightarrow>
         Parser_readVariable p (m_vtype v) = Inl UNDEFINED_BEHAVIOUR)
    else \<exists>xs. BasicVariable_makeString v = ok (cstr xs) \<and>
      (\<forall>p ys. Parser_rest p = xs @ ys \<and> word_end ys \<longrightarrow>
         (\<exists>w. Parser_readVariable p (m_vtype v) = Inr (w, Parser_skip (length xs) p) \<and> same_value v w))) \<and>
   (\<forall>p cs ys. nonul cs \<and> Parser_rest p = 34 # concat (map escape cs) @ 34 # ys \<longrightarrow>
      (\<exists>w. Parser_readVariable p TYPE_STRING = Inr (w, Parser_skip (length (concat (map escape cs)) + 2) p) \<and>
           BasicVariable_getString w = Inr (cstr cs)))"
  using readVariable_integer [OF assms] readVariable_string by blast

theorem parser_variables_witness:
  "Types_isIntegerType (m_vtype (BasicVariable_new TYPE_UINT32)) \<and>
   (\<exists>xs w. BasicVariable_makeString (BasicVariable_new TYPE_UINT32) = ok (cstr xs) \<and>
      Parser_readVariable \<lparr>m_data = xs @ lit '';'', m_pointer = 0, m_lineNumber = 1, m_filename = Parser_unknownFilename\<rparr>
          TYPE_UINT32 =
        Inr (w, Parser_skip (length xs)
                  \<lparr>m_data = xs @ lit '';'', m_pointer = 0, m_lineNumber = 1, m_filename = Parser_unknownFilename\<rparr>) \<and>
      same_value (BasicVariable_new TYPE_UINT32) w)"
proof -
  let ?v = "BasicVariable_new TYPE_UINT32"
  let ?p = "\<lambda>xs. \<lparr>m_data = xs @ lit '';'', m_pointer = 0, m_lineNumber = 1, m_filename = Parser_unknownFilename\<rparr>"
  have t: "Types_isIntegerType (m_vtype ?v)" by code_simp
  have s: "BasicVariable_getSignedInteger ?v \<noteq> Inr 0x80000000" by code_simp
  have e: "word_end (lit '';'')" by code_simp
  obtain xs where xs: "BasicVariable_makeString ?v = ok (cstr xs)"
    and r: "\<And>p ys. Parser_rest p = xs @ ys \<Longrightarrow> word_end ys \<Longrightarrow>
      \<exists>w. Parser_readVariable p (m_vtype ?v) = Inr (w, Parser_skip (length xs) p) \<and> same_value ?v w"
    using parser_variables [OF t] s by metis
  have "Parser_rest (?p xs) = xs @ lit '';''" by (simp add: Parser_rest_def)
  from r [OF this e] xs t show ?thesis by (simp add: BasicVariable_new_def)
qed

end
