(* ===== verification/XOrderedList.thy ===== *)
theory XOrderedList
  imports XList XStringProps
begin

text \<open>
  The ordered list of data/orderedList.h and data/orderedList.inl: a linked list that \<open>add\<close> keeps
  ordered by the \<open>operator <\<close> of the objects.
\<close>

subsection \<open>The operations\<close>

definition cOrderedList_new :: "'a node_heap \<Rightarrow> ('a node_heap \<times> cList) res" where
  "cOrderedList_new h = cList_new h"

definition cOrderedList_new_copy :: "'a node_heap \<Rightarrow> cList \<Rightarrow> ('a node_heap \<times> cList) res option" where
  "cOrderedList_new_copy h other = cList_new_copy h other"

text \<open>\<open>add\<close> looks for the first object that is greater and inserts in front of it.\<close>

partial_function (option) add_loop ::
  "('a \<Rightarrow> 'a \<Rightarrow> bool) \<Rightarrow> 'a node_heap \<Rightarrow> cList \<Rightarrow> 'a \<Rightarrow> ptr \<Rightarrow> ('a node_heap \<times> cList) res option"
where
  "add_loop lt h l node i =
     (if i \<noteq> cList_end l then
        case iterator_get h i of
          Inl e \<Rightarrow> Some (Inl e)
        | Inr x \<Rightarrow>
            if lt node x then Some (cList_insert_at h l i node)
            else (case iterator_next h i of Inl e \<Rightarrow> Some (Inl e) | Inr i \<Rightarrow> add_loop lt h l node i)
      else Some (cList_append h l node))"

definition cOrderedList_add ::
  "('a \<Rightarrow> 'a \<Rightarrow> bool) \<Rightarrow> 'a node_heap \<Rightarrow> cList \<Rightarrow> 'a \<Rightarrow> ('a node_heap \<times> cList) res option"
where
  "cOrderedList_add lt h l node = add_loop lt h l node (cList_begin l)"

definition cOrderedList_isEmpty :: "cList \<Rightarrow> bool" where
  "cOrderedList_isEmpty l = cList_isEmpty l"

definition cOrderedList_first :: "'a node_heap \<Rightarrow> cList \<Rightarrow> 'a res" where
  "cOrderedList_first h l = iterator_get h (cList_begin l)"

definition cOrderedList_pop2null :: "'a node_heap \<Rightarrow> cList \<Rightarrow> ('a node_heap \<times> cList) res" where
  "cOrderedList_pop2null h l =
     bind_res (cList_remove_at h l (cList_begin l)) (\<lambda>(h, l, _). Inr (h, l))"

subsection \<open>What the code asks of \<open>operator <\<close>\<close>

locale node_order =
  fixes valid :: "'a \<Rightarrow> bool" and lt :: "'a \<Rightarrow> 'a \<Rightarrow> bool"
  assumes asym: "valid x \<Longrightarrow> valid y \<Longrightarrow> lt x y \<Longrightarrow> \<not> lt y x"
    and cotrans: "valid x \<Longrightarrow> valid y \<Longrightarrow> valid z \<Longrightarrow> lt x z \<Longrightarrow> lt x y \<or> lt y z"

text \<open>Where \<open>add\<close> puts an object: behind all objects that are not greater.\<close>

definition add_spec :: "('a \<Rightarrow> 'a \<Rightarrow> bool) \<Rightarrow> 'a \<Rightarrow> 'a list \<Rightarrow> 'a list" where
  "add_spec lt x xs = takeWhile (\<lambda>y. \<not> lt x y) xs @ x # dropWhile (\<lambda>y. \<not> lt x y) xs"

definition in_order :: "('a \<Rightarrow> 'a \<Rightarrow> bool) \<Rightarrow> 'a list \<Rightarrow> bool" where
  "in_order lt xs \<longleftrightarrow> sorted_wrt (\<lambda>x y. \<not> lt y x) xs"

lemma mset_add_spec: "mset (add_spec lt x xs) = add_mset x (mset xs)"
proof -
  have "mset xs = mset (takeWhile (\<lambda>y. \<not> lt x y) xs) + mset (dropWhile (\<lambda>y. \<not> lt x y) xs)"
    by (metis mset_append takeWhile_dropWhile_id)
  then show ?thesis by (simp add: add_spec_def)
qed

lemma set_add_spec: "set (add_spec lt x xs) = insert x (set xs)"
  by (metis mset_add_spec set_mset_add_mset_insert set_mset_mset)

context node_order
begin

lemma nle_trans: "valid x \<Longrightarrow> valid y \<Longrightarrow> valid z \<Longrightarrow> \<not> lt y x \<Longrightarrow> \<not> lt z y \<Longrightarrow> \<not> lt z x"
  using cotrans by blast

lemma irrefl: "valid x \<Longrightarrow> \<not> lt x x"
  using asym by blast

lemma tail_greater:
  assumes "in_order lt xs" and "valid x" and "\<forall>y \<in> set xs. valid y"
    and y: "y \<in> set (dropWhile (\<lambda>y. \<not> lt x y) xs)"
  shows "lt x y"
proof -
  obtain z zs where z: "dropWhile (\<lambda>y. \<not> lt x y) xs = z # zs"
    using y by (cases "dropWhile (\<lambda>y. \<not> lt x y) xs") auto
  have xz: "lt x z" using hd_dropWhile [of "\<lambda>y. \<not> lt x y" xs] z by simp
  obtain us where xs: "xs = us @ z # zs" using z by (metis takeWhile_dropWhile_id)
  have y': "y \<in> set (z # zs)" using y z by simp
  then have v: "valid z" "valid y" using assms(3) xs by auto
  have "y = z \<or> \<not> lt y z" using assms(1) y' xs by (auto simp: in_order_def sorted_wrt_append)
  then show ?thesis using xz cotrans [OF assms(2) v(2,1) xz] by blast
qed

text \<open>\<open>add\<close> keeps the order, and objects that compare equal stay in the order they came.\<close>

lemma add_in_order:
  assumes "in_order lt xs" and "valid x" and "\<forall>y \<in> set xs. valid y"
  shows "in_order lt (add_spec lt x xs)"
proof -
  obtain us vs where uv: "us = takeWhile (\<lambda>y. \<not> lt x y) xs" "vs = dropWhile (\<lambda>y. \<not> lt x y) xs" by blast
  then have xs: "xs = us @ vs" by simp
  have u: "\<not> lt x y" if "y \<in> set us" for y using set_takeWhileD that uv(1) by fast
  have w: "\<not> lt y x" if "y \<in> set vs" for y
  proof -
    have "valid y" using that assms(3) xs by simp
    then show ?thesis using tail_greater [OF assms, of y] that uv(2) asym assms(2) by blast
  qed
  have "sorted_wrt (\<lambda>x y. \<not> lt y x) (us @ vs)" using assms(1) by (simp add: in_order_def xs)
  then show ?thesis
    unfolding in_order_def add_spec_def uv [symmetric] using u w by (auto simp: sorted_wrt_append)
qed

lemma add_stable:
  assumes "in_order lt xs" and "valid x" and "\<forall>y \<in> set xs. valid y"
  shows "filter (\<lambda>y. \<not> lt x y \<and> \<not> lt y x) (add_spec lt x xs) =
         filter (\<lambda>y. \<not> lt x y \<and> \<not> lt y x) xs @ [x]"
proof -
  obtain us vs where uv: "us = takeWhile (\<lambda>y. \<not> lt x y) xs" "vs = dropWhile (\<lambda>y. \<not> lt x y) xs" by blast
  then have xs: "xs = us @ vs" by simp
  have "lt x y" if "y \<in> set vs" for y using tail_greater [OF assms] that uv(2) by blast
  then have "filter (\<lambda>y. \<not> lt x y \<and> \<not> lt y x) vs = []" by (simp add: filter_empty_conv)
  then show ?thesis
    unfolding add_spec_def uv [symmetric] using xs irrefl [OF assms(2)] by simp
qed

text \<open>The first object of an ordered list is a least one.\<close>

lemma first_least:
  "in_order lt xs \<Longrightarrow> xs \<noteq> [] \<Longrightarrow> \<forall>y \<in> set xs. valid y \<Longrightarrow> y \<in> set xs \<Longrightarrow> \<not> lt y (hd xs)"
  using irrefl by (cases xs) (auto simp: in_order_def)

lemma tl_in_order: "in_order lt xs \<Longrightarrow> in_order lt (tl xs)"
  by (cases xs) (auto simp: in_order_def)

end

subsection \<open>Sequences of calls\<close>

lemma add_loop_simp:
  "dseg (nodes h) pv ns (map Some vs) (Some e) \<Longrightarrow> e \<notin> set ns \<Longrightarrow> m_last l = Some e \<Longrightarrow>
     add_loop lt h l x (hdp ns (Some e)) =
       (let k = length (takeWhile (\<lambda>y. \<not> lt x y) vs) in
        Some (if k < length vs then cList_insert_at h l (hdp (drop k ns) (Some e)) x else cList_append h l x))"
proof (induction ns arbitrary: pv vs)
  case Nil
  then show ?case by (subst add_loop.simps) (simp add: cList_end_def)
next
  case (Cons n ns)
  then obtain v vs' where v: "vs = v # vs'" by (cases vs) auto
  have n: "nodes h n = Some \<lparr>information = Some v, node_next = hdp ns (Some e), node_prev = pv\<rparr>"
    using Cons.prems(1) v by simp
  show ?case
    using Cons.IH [of "Some n" vs'] Cons.prems v
    by (subst add_loop.simps)
      (auto simp: iterator_get_def iterator_next_def load_Some [OF n] cList_end_def Let_def)
qed

datatype 'a ordered_call = Add 'a | First | Pop | Empty | Copy

datatype 'a ordered_answer = Okay | Object 'a | Holds bool

fun ordered_spec :: "('a \<Rightarrow> 'a \<Rightarrow> bool) \<Rightarrow> 'a list \<Rightarrow> 'a ordered_call \<Rightarrow> ('a list \<times> 'a ordered_answer) option" where
  "ordered_spec lt xs (Add x) = Some (add_spec lt x xs, Okay)"
| "ordered_spec lt xs First = (case xs of [] \<Rightarrow> None | x # _ \<Rightarrow> Some (xs, Object x))"
| "ordered_spec lt xs Pop = (case xs of [] \<Rightarrow> None | _ # ys \<Rightarrow> Some (ys, Okay))"
| "ordered_spec lt xs Empty = Some (xs, Holds (xs = []))"
| "ordered_spec lt xs Copy = Some (xs, Okay)"

text \<open>A call on the list; \<open>Copy\<close> replaces the list by a copy of it, and frees the old one.\<close>

fun ordered_step ::
  "('a \<Rightarrow> 'a \<Rightarrow> bool) \<Rightarrow> 'a node_heap \<Rightarrow> cList \<Rightarrow> 'a ordered_call \<Rightarrow>
     ('a node_heap \<times> cList \<times> 'a ordered_answer) res option"
where
  "ordered_step lt h l (Add x) = map_option (map_sum id (\<lambda>(h, l). (h, l, Okay))) (cOrderedList_add lt h l x)"
| "ordered_step lt h l First = Some (map_sum id (\<lambda>x. (h, l, Object x)) (cOrderedList_first h l))"
| "ordered_step lt h l Pop = Some (map_sum id (\<lambda>(h, l). (h, l, Okay)) (cOrderedList_pop2null h l))"
| "ordered_step lt h l Empty = Some (Inr (h, l, Holds (cOrderedList_isEmpty l)))"
| "ordered_step lt h l Copy =
     (case cOrderedList_new_copy h l of
        None \<Rightarrow> None
      | Some (Inl e) \<Rightarrow> Some (Inl e)
      | Some (Inr (h, l')) \<Rightarrow> map_option (map_sum id (\<lambda>(h, _). (h, l', Okay))) (cList_freeList h l))"

lemma add_refines:
  assumes o: "owned h0 h l ns e xs"
  shows "\<exists>h' l' ns' e'. cOrderedList_add lt h l x = Some (Inr (h', l')) \<and> owned h0 h' l' ns' e' (add_spec lt x xs)"
proof -
  let ?k = "length (takeWhile (\<lambda>y. \<not> lt x y) xs)"
  have k: "?k \<le> length xs" by (rule length_takeWhile_le)
  have td: "take ?k xs = takeWhile (\<lambda>y. \<not> lt x y) xs" "drop ?k xs = dropWhile (\<lambda>y. \<not> lt x y) xs"
    by (simp_all add: takeWhile_eq_take [symmetric] dropWhile_eq_drop)
  have a: "cOrderedList_add lt h l x =
      Some (if ?k < length xs then cList_insert_at h l (hdp (drop ?k ns) (Some e)) x else cList_append h l x)"
    using add_loop_simp [OF owned_seg(1,2,4) [OF o], of lt x] owned_seg(3) [OF o]
    by (simp add: cOrderedList_add_def cList_begin_def Let_def)
  have ch: "changed r = Inr (h', l', Done) \<Longrightarrow> r = Inr (h', l')" for r :: "('a node_heap \<times> cList) res" and h' l'
    by (cases r) (auto simp: changed_def)
  show ?thesis
  proof (cases "?k < length xs")
    case True
    have e: "hdp (drop ?k ns) (Some e) = Some (hd (drop ?k ns @ [e]))" by (cases "drop ?k ns") auto
    have s: "list_spec xs (InsertAt ?k x) = Some (add_spec lt x xs, Done)"
      using k by (simp only: list_spec.simps if_True td add_spec_def)
    obtain h' l' ns' e' where r: "list_step h l (InsertAt ?k x) = Some (Inr (h', l', Done))"
      "owned h0 h' l' ns' e' (add_spec lt x xs)"
      using list_step_refines [OF o s] by blast
    have "cList_insert_at h l (hdp (drop ?k ns) (Some e)) x = Inr (h', l')"
      using r(1) owned_split(3) [OF o k] unfolding e by (intro ch) simp
    then show ?thesis using a True r(2) by auto
  next
    case False
    then have "?k = length xs" using k by simp
    then have "add_spec lt x xs = xs @ [x]" using td by (simp add: add_spec_def)
    then have s: "list_spec xs (Append x) = Some (add_spec lt x xs, Done)" by simp
    obtain h' l' ns' e' where r: "list_step h l (Append x) = Some (Inr (h', l', Done))"
      "owned h0 h' l' ns' e' (add_spec lt x xs)"
      using list_step_refines [OF o s] by blast
    have "cList_append h l x = Inr (h', l')" using r(1) by (intro ch) simp
    then show ?thesis using a False r(2) by auto
  qed
qed

lemma copy_refines:
  assumes o: "owned h0 h l ns e xs"
  shows "\<exists>h' l' h'' ns' e'. cOrderedList_new_copy h l = Some (Inr (h', l')) \<and>
           cList_freeList h' l = Some (Inr (h'', \<lparr>m_first = None, m_last = None\<rparr>)) \<and> owned h0 h'' l' ns' e' xs"
proof -
  have r: "cList_rep h l ns e xs" by (rule owned_rep [OF o])
  have w: "\<forall>a. nodes h a \<noteq> None \<longrightarrow> a < top h" using r by (simp add: cList_rep_def)
  obtain h2 l2 e2 where i: "cList_initList h = Inr (h2, l2)" "owned h h2 l2 [] e2 []"
    using initList_owned [OF w] by blast
  obtain h' l' ns' e' where c: "cList_clone h2 l2 l False = Some (Inr (h', l'))" "owned h h' l' ns' e' xs"
    using clone_owned [OF r i(2)] by blast
  have n: "cOrderedList_new_copy h l = Some (Inr (h', l'))"
    by (simp add: cOrderedList_new_copy_def cList_new_copy_def i(1) c(1))
  txt \<open>Freeing the old nodes leaves the new ones.\<close>
  let ?old = "set (ns @ [e])" and ?new = "set (ns' @ [e'])"
  have d: "dom (nodes h) = dom (nodes h0) \<union> ?old" "dom (nodes h0) \<inter> ?old = {}"
    "\<forall>a \<in> dom (nodes h0). nodes h a = nodes h0 a" using o by (simp_all add: owned_def)
  have d': "dom (nodes h') = dom (nodes h) \<union> ?new" "dom (nodes h) \<inter> ?new = {}"
    "\<forall>a \<in> dom (nodes h). nodes h' a = nodes h a" using c(2) by (simp_all add: owned_def)
  let ?h0 = "h'\<lparr>nodes := \<lambda>a. if a \<in> ?old then None else nodes h' a\<rparr>"
  have dh: "dom (nodes ?h0) = dom (nodes h') - ?old" by (auto simp: dom_def)
  have "owned ?h0 h' l ns e xs"
    unfolding owned_def
  proof (intro conjI)
    show "cList_rep h' l ns e xs" by (rule rep_frame [OF r c(2)])
    have "?old \<subseteq> dom (nodes h')" unfolding d'(1) d(1) by blast
    then show "dom (nodes h') = dom (nodes ?h0) \<union> ?old" unfolding dh by blast
    show "dom (nodes ?h0) \<inter> ?old = {}" unfolding dh by blast
    show "\<forall>a \<in> dom (nodes ?h0). nodes h' a = nodes ?h0 a" unfolding dh by simp
  qed
  from freeList_owned [OF this] obtain h'' where f: "cList_freeList h' l = Some (Inr (h'', \<lparr>m_first = None, m_last = None\<rparr>))"
    "nodes h'' = nodes ?h0" "top h'' = top h'" by blast
  have r': "cList_rep h' l' ns' e' xs" by (rule owned_rep [OF c(2)])
  have at: "nodes h'' a = (if a \<in> ?old then None else nodes h' a)" for a by (simp add: f(2))
  have new: "\<forall>a \<in> ?new. nodes h'' a = nodes h' a"
  proof
    fix a assume that: "a \<in> ?new"
    have "a \<notin> ?old" using that d'(2) unfolding d(1) by blast
    then show "nodes h'' a = nodes h' a" using at [of a] by simp
  qed
  have "dseg (nodes h') None (ns' @ [e']) (map Some xs @ [None]) None" using r' unfolding cList_rep_def by (elim conjE)
  then have seg: "dseg (nodes h'') None (ns' @ [e']) (map Some xs @ [None]) None" by (simp only: dseg_cong [OF new])
  have al: "\<forall>a. nodes h' a \<noteq> None \<longrightarrow> a < top h'" using r' unfolding cList_rep_def by (elim conjE)
  have al': "\<forall>a. nodes h'' a \<noteq> None \<longrightarrow> a < top h''"
  proof (intro allI impI)
    fix a assume "nodes h'' a \<noteq> None"
    then have "nodes h' a \<noteq> None" using at [of a] by (simp split: if_splits)
    then show "a < top h''" using al f(3) by simp
  qed
  have "cList_rep h'' l' ns' e' xs" using r' seg al' unfolding cList_rep_def by (intro conjI) (elim conjE, assumption)+
  moreover have "dom (nodes h'') = dom (nodes h0) \<union> ?new"
  proof -
    have "dom (nodes h'') = dom (nodes h') - ?old" unfolding dh [symmetric] f(2) ..
    also have "\<dots> = dom (nodes h0) \<union> ?new" using d(2) d'(2) unfolding d'(1) d(1) by blast
    finally show ?thesis .
  qed
  moreover have "nodes h'' a = nodes h0 a" if "a \<in> dom (nodes h0)" for a
  proof -
    have a: "a \<notin> ?old" using that d(2) by blast
    have b: "a \<in> dom (nodes h)" using that unfolding d(1) by blast
    have "nodes h'' a = nodes h' a" using at [of a] a by simp
    also have "\<dots> = nodes h a" by (rule bspec [OF d'(3) b])
    also have "\<dots> = nodes h0 a" by (rule bspec [OF d(3) that])
    finally show ?thesis .
  qed
  moreover have "dom (nodes h0) \<inter> ?new = {}" using d'(2) unfolding d(1) by blast
  ultimately have "owned h0 h'' l' ns' e' xs" by (simp add: owned_def)
  then show ?thesis using n f(1) by blast
qed

lemma ordered_step_refines:
  assumes o: "owned h0 h l ns e xs" and s: "ordered_spec lt xs c = Some (ys, ans)"
  shows "\<exists>h' l' ns' e'. ordered_step lt h l c = Some (Inr (h', l', ans)) \<and> owned h0 h' l' ns' e' ys"
proof (cases c)
  case (Add x)
  obtain h' l' ns' e' where a: "cOrderedList_add lt h l x = Some (Inr (h', l'))"
    "owned h0 h' l' ns' e' (add_spec lt x xs)" using add_refines [OF o] by blast
  have "ordered_step lt h l c = Some (Inr (h', l', ans))" "ys = add_spec lt x xs" using a(1) s Add by auto
  then show ?thesis using a(2) by blast
next
  case First
  then obtain x zs where x: "xs = x # zs" using s by (cases xs) auto
  obtain n ms where n: "ns = n # ms" using owned_length [OF o] x by (cases ns) auto
  have "nodes h n = Some \<lparr>information = Some x, node_next = hdp ms (Some e), node_prev = None\<rparr>"
    using owned_seg(1) [OF o] x n by simp
  then have "cOrderedList_first h l = Inr x"
    using owned_seg(3) [OF o] n by (simp add: cOrderedList_first_def cList_begin_def iterator_get_def load_Some)
  then show ?thesis using o s First x by auto
next
  case Pop
  then obtain x where x: "xs = x # ys" "ans = Okay" using s by (cases xs) auto
  then have "list_spec xs (RemoveAt 0) = Some (ys, Done)" by simp
  from list_step_refines [OF o this] obtain h' l' ns' e' where
    r: "list_step h l (RemoveAt 0) = Some (Inr (h', l', Done))" "owned h0 h' l' ns' e' ys" by blast
  have "cOrderedList_pop2null h l = Inr (h', l')"
    using r(1) by (cases "cList_remove_at h l (cList_begin l)") (auto simp: cOrderedList_pop2null_def)
  then have "ordered_step lt h l c = Some (Inr (h', l', ans))" using Pop x(2) by simp
  then show ?thesis using r(2) by blast
next
  case Empty
  have "cList_isEmpty l \<longleftrightarrow> xs = []"
    using rep_first_last [OF owned_rep [OF o]] owned_length [OF o] by (auto simp: cList_isEmpty_def)
  then show ?thesis using o s Empty by (auto simp: cOrderedList_isEmpty_def)
next
  case Copy
  obtain h' l' h'' ns' e' where a: "cOrderedList_new_copy h l = Some (Inr (h', l'))"
    "cList_freeList h' l = Some (Inr (h'', \<lparr>m_first = None, m_last = None\<rparr>))" "owned h0 h'' l' ns' e' xs"
    using copy_refines [OF o] by blast
  have "ordered_step lt h l c = Some (Inr (h'', l', ans))" "ys = xs" using a(1,2) s Copy by auto
  then show ?thesis using a(3) by blast
qed

fun ordered_spec_run ::
  "('a \<Rightarrow> 'a \<Rightarrow> bool) \<Rightarrow> 'a list \<Rightarrow> 'a ordered_call list \<Rightarrow> ('a list \<times> 'a ordered_answer list) option"
where
  "ordered_spec_run lt xs [] = Some (xs, [])"
| "ordered_spec_run lt xs (c # cs) =
     (case ordered_spec lt xs c of None \<Rightarrow> None
      | Some (ys, a) \<Rightarrow> map_option (\<lambda>(zs, as). (zs, a # as)) (ordered_spec_run lt ys cs))"

fun ordered_run ::
  "('a \<Rightarrow> 'a \<Rightarrow> bool) \<Rightarrow> 'a node_heap \<Rightarrow> cList \<Rightarrow> 'a ordered_call list \<Rightarrow>
     ('a node_heap \<times> cList \<times> 'a ordered_answer list) res option"
where
  "ordered_run lt h l [] = Some (Inr (h, l, []))"
| "ordered_run lt h l (c # cs) =
     (case ordered_step lt h l c of
        None \<Rightarrow> None
      | Some (Inl e) \<Rightarrow> Some (Inl e)
      | Some (Inr (h, l, a)) \<Rightarrow> map_option (map_sum id (\<lambda>(h, l, as). (h, l, a # as))) (ordered_run lt h l cs))"

lemma ordered_run_refines:
  "owned h0 h l ns e xs \<Longrightarrow> ordered_spec_run lt xs cs = Some (ys, as) \<Longrightarrow>
     \<exists>h' l' ns' e'. ordered_run lt h l cs = Some (Inr (h', l', as)) \<and> owned h0 h' l' ns' e' ys"
proof (induction cs arbitrary: h l ns e xs as)
  case (Cons c cs)
  obtain zs a bs where z: "ordered_spec lt xs c = Some (zs, a)" "ordered_spec_run lt zs cs = Some (ys, bs)" "as = a # bs"
    using Cons.prems(2) by (auto split: option.splits)
  obtain h1 l1 ns1 e1 where s: "ordered_step lt h l c = Some (Inr (h1, l1, a))" "owned h0 h1 l1 ns1 e1 zs"
    using ordered_step_refines [OF Cons.prems(1) z(1)] by blast
  obtain h' l' ns' e' where r: "ordered_run lt h1 l1 cs = Some (Inr (h', l', bs))" "owned h0 h' l' ns' e' ys"
    using Cons.IH [OF s(2) z(2)] by blast
  have "ordered_run lt h l (c # cs) = Some (Inr (h', l', as))" using s(1) r(1) z(3) by simp
  then show ?case using r(2) by blast
qed auto

definition added :: "'a ordered_call list \<Rightarrow> 'a set" where
  "added calls = {x. Add x \<in> set calls}"


context node_order
begin

lemma run_in_order:
  "ordered_spec_run lt xs cs = Some (ys, as) \<Longrightarrow> in_order lt xs \<Longrightarrow> \<forall>x \<in> set xs \<union> added cs. valid x \<Longrightarrow>
     in_order lt ys \<and> set ys \<subseteq> set xs \<union> added cs"
proof (induction cs arbitrary: xs as)
  case (Cons c cs)
  obtain zs a bs where z: "ordered_spec lt xs c = Some (zs, a)" "ordered_spec_run lt zs cs = Some (ys, bs)"
    using Cons.prems(1) by (auto split: option.splits)
  have c: "in_order lt zs \<and> set zs \<subseteq> set xs \<union> added [c]"
  proof (cases c)
    case (Add x)
    have "in_order lt (add_spec lt x xs)"
      by (rule add_in_order) (use Cons.prems Add in \<open>auto simp: added_def\<close>)
    then show ?thesis using z(1) Add by (auto simp: set_add_spec added_def)
  next
    case Pop
    then show ?thesis using z(1) Cons.prems(2) by (cases xs) (auto simp: in_order_def)
  qed (use z(1) Cons.prems(2) in \<open>auto split: list.splits\<close>)
  have ad: "added [c] \<subseteq> added (c # cs)" "added cs \<subseteq> added (c # cs)" by (auto simp: added_def)
  have "in_order lt ys \<and> set ys \<subseteq> set zs \<union> added cs"
    by (rule Cons.IH [OF z(2)]) (use c Cons.prems(3) ad in blast)+
  then show ?case using c ad by blast
qed simp

end

text \<open>
  C8: any sequence of \<open>add\<close>, \<open>first\<close>, \<open>pop2null\<close>, \<open>isEmpty\<close> and copies on a new list returns what
  the calls return on a list of objects that is always in the order of \<open>operator <\<close>, where an
  object is added behind the ones that are not greater. So \<open>first\<close> is the least object, and among
  equal ones the oldest. The operator has to be a strict weak order on the objects that are added;
  the list must not be empty for \<open>first\<close> and \<open>pop2null\<close>.
\<close>

theorem orderedList_refines:
  assumes "node_order valid lt" and "\<forall>x. Add x \<in> set calls \<longrightarrow> valid x"
    and "\<forall>a. nodes h0 a \<noteq> None \<longrightarrow> a < top h0" and "ordered_spec_run lt [] calls = Some (xs, answers)"
  shows "\<exists>h l h' l' ns e. cOrderedList_new h0 = Inr (h, l) \<and>
           ordered_run lt h l calls = Some (Inr (h', l', answers)) \<and> owned h0 h' l' ns e xs \<and>
           sorted_wrt (\<lambda>x y. \<not> lt y x) xs \<and>
           (xs \<noteq> [] \<longrightarrow> cOrderedList_first h' l' = Inr (hd xs) \<and> (\<forall>y \<in> set xs. \<not> lt y (hd xs)))"
proof -
  obtain h l e where n: "cList_initList h0 = Inr (h, l)" "owned h0 h l [] e []"
    using initList_owned [OF assms(3)] by blast
  obtain h' l' ns e' where r: "ordered_run lt h l calls = Some (Inr (h', l', answers))" "owned h0 h' l' ns e' xs"
    using ordered_run_refines [OF n(2) assms(4)] by blast
  have v: "\<forall>x \<in> set [] \<union> added calls. valid x" using assms(2) by (simp add: added_def)
  have "in_order lt []" by (simp add: in_order_def)
  from node_order.run_in_order [OF assms(1,4) this v] have s: "in_order lt xs" "set xs \<subseteq> added calls" by simp_all
  have f: "cOrderedList_first h' l' = Inr (hd xs) \<and> (\<forall>y \<in> set xs. \<not> lt y (hd xs))" if ne: "xs \<noteq> []"
  proof
    have vx: "\<forall>y \<in> set xs. valid y" using s(2) v by blast
    show "\<forall>y \<in> set xs. \<not> lt y (hd xs)"
      using node_order.first_least [OF assms(1) s(1) ne vx] by blast
    obtain x ys where x: "xs = x # ys" using ne by (cases xs) auto
    then have "ordered_spec lt xs First = Some (xs, Object x)" by simp
    from ordered_step_refines [OF r(2) this] show "cOrderedList_first h' l' = Inr (hd xs)"
      using x by (cases "cOrderedList_first h' l'") auto
  qed
  have "cOrderedList_new h0 = Inr (h, l)" using n(1) by (simp add: cOrderedList_new_def cList_new_def)
  then show ?thesis using r s(1) f unfolding in_order_def by blast
qed

subsection \<open>Orders of the library\<close>

interpretation uint_order: node_order "\<lambda>_. True" "(<) :: uint64 \<Rightarrow> uint64 \<Rightarrow> bool"
  by unfold_locales auto

text \<open>The \<open>operator <\<close> of strings, which ignores the case of letters.\<close>

interpretation string_order: node_order "\<lambda>s. \<exists>a. nonul a \<and> s = cstr a" cString_less
proof unfold_locales
  have lt: "cString_less (cstr a) (cstr b) \<longleftrightarrow> map cChar_getLowercase a < map cChar_getLowercase b"
    if "nonul a" "nonul b" for a b
    using that by (auto simp: cString_less_def cstr_simps Let_def)
  fix x y z
  assume x: "\<exists>a. nonul a \<and> x = cstr a" and y: "\<exists>a. nonul a \<and> y = cstr a"
  show "\<not> cString_less y x" if "cString_less x y" using x y that lt by auto
  assume z: "\<exists>a. nonul a \<and> z = cstr a"
  show "cString_less x y \<or> cString_less y z" if "cString_less x z"
    using x y z that by (auto simp: lt)
qed

theorem orderedList_refines_witness:
  "\<exists>h l h' l' ns e. cOrderedList_new \<lparr>nodes = Map.empty, top = 0\<rparr> = Inr (h, l) \<and>
     ordered_run cString_less h l
       [Add (cstr (lit ''b'')), Add (cstr (lit ''A'')), Add (cstr (lit ''a'')), First, Pop, Empty] =
         Some (Inr (h', l', [Okay, Okay, Okay, Object (cstr (lit ''A'')), Okay, Holds False])) \<and>
     owned \<lparr>nodes = Map.empty, top = 0\<rparr> h' l' ns e [cstr (lit ''a''), cstr (lit ''b'')] \<and>
     cOrderedList_first h' l' = Inr (cstr (lit ''a''))"
proof -
  let ?calls = "[Add (cstr (lit ''b'')), Add (cstr (lit ''A'')), Add (cstr (lit ''a'')), First, Pop, Empty]"
  have nn: "nonul (lit ''a'')" "nonul (lit ''A'')" "nonul (lit ''b'')" by (simp_all add: lit_def ch_def)
  have v: "\<forall>x. Add x \<in> set ?calls \<longrightarrow> (\<exists>a. nonul a \<and> x = cstr a)" using nn by auto
  have w: "\<forall>a. nodes \<lparr>nodes = Map.empty :: nat \<Rightarrow> cString ListNode option, top = 0\<rparr> a \<noteq> None \<longrightarrow>
      a < top \<lparr>nodes = Map.empty :: nat \<Rightarrow> cString ListNode option, top = 0\<rparr>" by simp
  have c: "cString_less (cstr (lit ''A'')) (cstr (lit ''b''))" "\<not> cString_less (cstr (lit ''a'')) (cstr (lit ''A''))"
    "cString_less (cstr (lit ''a'')) (cstr (lit ''b''))"
    by code_simp+
  have "ordered_spec_run cString_less [] ?calls =
      Some ([cstr (lit ''a''), cstr (lit ''b'')], [Okay, Okay, Okay, Object (cstr (lit ''A'')), Okay, Holds False])"
    by (simp add: add_spec_def c)
  from orderedList_refines [OF string_order.node_order_axioms v w this] show ?thesis by fastforce
qed

end
