(* ===== verification/XGraph.thy ===== *)
theory XGraph
  imports XSetArray
begin

text \<open>
  Coloured graphs: \<open>GraphNode\<close> of data/graph.h and \<open>cGraph\<close> of data/graph.inl. The nodes of a graph
  are the objects of a linked list, which keep their place in memory while the list grows; the
  neighbours of a node are pointers to such objects. So a graph is the list of the addresses of
  its nodes, in the order of the list, and the nodes are cells of a memory.
\<close>

subsection \<open>Nodes\<close>

record ('i, 's) GraphNode =
  m_id :: 'i
  m_value :: 's
  m_possibleColors :: cSetArray
  m_chosenColor :: uint64
  m_neighbors :: "nat list"
  m_numberOfPossibleColors :: uint64

record ('i, 's) graph_mem =
  cells :: "nat \<Rightarrow> ('i, 's) GraphNode option"
  next_cell :: nat

text \<open>
  The constructor; \<open>mem\<close> is what the memory of the bits holds before they are set. The colour is
  \<open>-1\<close> until one is chosen.
\<close>

definition GraphNode_new :: "'i \<Rightarrow> 's \<Rightarrow> uint64 \<Rightarrow> uint32 list \<Rightarrow> ('i, 's) GraphNode res" where
  "GraphNode_new ident v numberOfPossibleColors mem =
     bind_res (cSetArray_new (unat numberOfPossibleColors) True True mem) (\<lambda>colors.
     Inr \<lparr>m_id = ident, m_value = v, m_possibleColors = colors, m_chosenColor = -1, m_neighbors = [],
       m_numberOfPossibleColors = numberOfPossibleColors\<rparr>)"

definition GraphNode_getChosenColor :: "('i, 's) GraphNode \<Rightarrow> int" where
  "GraphNode_getChosenColor n = sint (ucast (m_chosenColor n) :: uint32)"

definition GraphNode_setChosenColor :: "('i, 's) GraphNode \<Rightarrow> uint64 \<Rightarrow> ('i, 's) GraphNode res" where
  "GraphNode_setChosenColor n color =
     bind_res (CHECK (color < m_numberOfPossibleColors n)) (\<lambda>_. Inr (n\<lparr>m_chosenColor := color\<rparr>))"

definition GraphNode_setValue :: "('i, 's) GraphNode \<Rightarrow> 's \<Rightarrow> ('i, 's) GraphNode" where
  "GraphNode_setValue n v = n\<lparr>m_value := v\<rparr>"

text \<open>Following a pointer to a node.\<close>

definition deref :: "('i, 's) graph_mem \<Rightarrow> nat \<Rightarrow> ('i, 's) GraphNode res" where
  "deref m p = (case cells m p of None \<Rightarrow> Inl UNDEFINED_BEHAVIOUR | Some n \<Rightarrow> Inr n)"

fun isNeighbor_loop :: "('i, 's) graph_mem \<Rightarrow> nat list \<Rightarrow> 'i \<Rightarrow> bool res" where
  "isNeighbor_loop m [] ident = Inr False"
| "isNeighbor_loop m (p # ps) ident =
     bind_res (deref m p) (\<lambda>n. if m_id n = ident then Inr True else isNeighbor_loop m ps ident)"

definition GraphNode_isNeighbor :: "('i, 's) graph_mem \<Rightarrow> ('i, 's) GraphNode \<Rightarrow> 'i \<Rightarrow> bool res" where
  "GraphNode_isNeighbor m n ident = isNeighbor_loop m (m_neighbors n) ident"

text \<open>The methods of the node at \<open>p\<close> that change it.\<close>

definition GraphNode_addEdge :: "('i, 's) graph_mem \<Rightarrow> nat \<Rightarrow> nat \<Rightarrow> ('i, 's) graph_mem res" where
  "GraphNode_addEdge m p newNeighbor =
     bind_res (deref m p) (\<lambda>n.
     Inr (m\<lparr>cells := (cells m)(p \<mapsto> n\<lparr>m_neighbors := m_neighbors n @ [newNeighbor]\<rparr>)\<rparr>))"

definition GraphNode_addEdgeNoDup :: "('i, 's) graph_mem \<Rightarrow> nat \<Rightarrow> nat \<Rightarrow> ('i, 's) graph_mem res" where
  "GraphNode_addEdgeNoDup m p newNeighbor =
     bind_res (deref m p) (\<lambda>n.
     bind_res (deref m newNeighbor) (\<lambda>q.
     bind_res (GraphNode_isNeighbor m n (m_id q)) (\<lambda>b.
     if \<not> b then GraphNode_addEdge m p newNeighbor else Inr m)))"

subsection \<open>Graphs\<close>

record cGraph =
  m_nodes :: "nat list"
  m_colors :: uint64

definition cGraph_new :: "uint64 \<Rightarrow> cGraph" where
  "cGraph_new numberOfPossibleColors = \<lparr>m_nodes = [], m_colors = numberOfPossibleColors\<rparr>"

text \<open>
  The scan for the node with an identifier. \<open>isConnected\<close>, \<open>isNodeExists\<close> and \<open>getNode\<close> have this
  loop each, with a different end.
\<close>

fun node_loop :: "('i, 's) graph_mem \<Rightarrow> nat list \<Rightarrow> 'i \<Rightarrow> nat option res" where
  "node_loop m [] ident = Inr None"
| "node_loop m (p # ps) ident =
     bind_res (deref m p) (\<lambda>n. if m_id n = ident then Inr (Some p) else node_loop m ps ident)"

definition cGraph_isNodeExists :: "('i, 's) graph_mem \<Rightarrow> cGraph \<Rightarrow> 'i \<Rightarrow> bool res" where
  "cGraph_isNodeExists m g ident = bind_res (node_loop m (m_nodes g) ident) (\<lambda>r. Inr (r \<noteq> None))"

definition cGraph_getNode :: "('i, 's) graph_mem \<Rightarrow> cGraph \<Rightarrow> 'i \<Rightarrow> nat option res" where
  "cGraph_getNode m g ident = node_loop m (m_nodes g) ident"

definition cGraph_isConnected :: "('i, 's) graph_mem \<Rightarrow> cGraph \<Rightarrow> 'i \<Rightarrow> 'i \<Rightarrow> bool res" where
  "cGraph_isConnected m g id1 id2 =
     bind_res (node_loop m (m_nodes g) id1) (\<lambda>r.
     case r of None \<Rightarrow> Inr False
     | Some p \<Rightarrow> bind_res (deref m p) (\<lambda>n. GraphNode_isNeighbor m n id2))"

definition cGraph_addNode ::
  "('i, 's) graph_mem \<Rightarrow> cGraph \<Rightarrow> 'i \<Rightarrow> 's \<Rightarrow> uint32 list \<Rightarrow> (('i, 's) graph_mem \<times> cGraph) res"
where
  "cGraph_addNode m g ident v mem =
     bind_res (cGraph_isNodeExists m g ident) (\<lambda>b.
     if b then Inr (m, g)
     else bind_res (GraphNode_new ident v (m_colors g) mem) (\<lambda>tmp.
       Inr (m\<lparr>cells := (cells m)(next_cell m \<mapsto> tmp), next_cell := next_cell m + 1\<rparr>,
            g\<lparr>m_nodes := m_nodes g @ [next_cell m]\<rparr>)))"

text \<open>The scan of \<open>connectNodes\<close> for both nodes; a node that has both identifiers is the first one.\<close>

fun connect_loop ::
  "('i, 's) graph_mem \<Rightarrow> nat list \<Rightarrow> 'i \<Rightarrow> 'i \<Rightarrow> nat option \<Rightarrow> nat option \<Rightarrow> (nat option \<times> nat option) res"
where
  "connect_loop m [] id1 id2 graphNode1 graphNode2 = Inr (graphNode1, graphNode2)"
| "connect_loop m (p # ps) id1 id2 graphNode1 graphNode2 =
     bind_res (deref m p) (\<lambda>n.
     if m_id n = id1 then connect_loop m ps id1 id2 (Some p) graphNode2
     else if m_id n = id2 then connect_loop m ps id1 id2 graphNode1 (Some p)
     else connect_loop m ps id1 id2 graphNode1 graphNode2)"

definition cGraph_connectNodes ::
  "('i, 's) graph_mem \<Rightarrow> cGraph \<Rightarrow> 'i \<Rightarrow> 'i \<Rightarrow> bool \<Rightarrow> ('i, 's) graph_mem res"
where
  "cGraph_connectNodes m g id1 id2 dup =
     bind_res (connect_loop m (m_nodes g) id1 id2 None None) (\<lambda>r.
     case r of
       (Some graphNode1, Some graphNode2) \<Rightarrow>
         if dup then
           bind_res (GraphNode_addEdge m graphNode1 graphNode2) (\<lambda>m.
           GraphNode_addEdge m graphNode2 graphNode1)
         else
           bind_res (GraphNode_addEdgeNoDup m graphNode1 graphNode2) (\<lambda>m.
           GraphNode_addEdgeNoDup m graphNode2 graphNode1)
     | _ \<Rightarrow> Inr m)"

definition cGraph_isEmpty :: "cGraph \<Rightarrow> bool" where
  "cGraph_isEmpty g \<longleftrightarrow> m_nodes g = []"

definition cGraph_getNumberOfNodes :: "cGraph \<Rightarrow> nat" where
  "cGraph_getNumberOfNodes g = length (m_nodes g)"

text \<open>The two loops of \<open>makeClique\<close>.\<close>

fun clique_inner :: "('i, 's) graph_mem \<Rightarrow> cGraph \<Rightarrow> 'i \<Rightarrow> 'i list \<Rightarrow> ('i, 's) graph_mem res" where
  "clique_inner m g id1 [] = Inr m"
| "clique_inner m g id1 (id2 # ids) =
     bind_res (cGraph_connectNodes m g id1 id2 False) (\<lambda>m. clique_inner m g id1 ids)"

fun clique_outer :: "('i, 's) graph_mem \<Rightarrow> cGraph \<Rightarrow> 'i list \<Rightarrow> 'i list \<Rightarrow> ('i, 's) graph_mem res" where
  "clique_outer m g ids [] = Inr m"
| "clique_outer m g ids (id1 # rest) =
     bind_res (clique_inner m g id1 ids) (\<lambda>m. clique_outer m g ids rest)"

definition cGraph_makeClique :: "('i, 's) graph_mem \<Rightarrow> cGraph \<Rightarrow> 'i list \<Rightarrow> ('i, 's) graph_mem res" where
  "cGraph_makeClique m g ids = clique_outer m g ids ids"

text \<open>
  The copy constructor assigns the list of the nodes only: it copies every node with its pointers,
  so the neighbours of the copy are the nodes of \<open>other\<close>, and the number of colours is whatever the
  memory held.
\<close>

fun copy_nodes :: "('i, 's) graph_mem \<Rightarrow> nat list \<Rightarrow> nat list \<Rightarrow> (('i, 's) graph_mem \<times> nat list) res" where
  "copy_nodes m [] copied = Inr (m, copied)"
| "copy_nodes m (p # ps) copied =
     bind_res (deref m p) (\<lambda>n.
     copy_nodes (m\<lparr>cells := (cells m)(next_cell m \<mapsto> n), next_cell := next_cell m + 1\<rparr>) ps
       (copied @ [next_cell m]))"

definition cGraph_new_copy :: "('i, 's) graph_mem \<Rightarrow> cGraph \<Rightarrow> uint64 \<Rightarrow> (('i, 's) graph_mem \<times> cGraph) res" where
  "cGraph_new_copy m other junk =
     bind_res (copy_nodes m (m_nodes other) []) (\<lambda>(m, ns). Inr (m, \<lparr>m_nodes = ns, m_colors = junk\<rparr>))"

subsection \<open>Well formed graphs\<close>

definition node_at :: "('i, 's) graph_mem \<Rightarrow> nat \<Rightarrow> ('i, 's) GraphNode" where
  "node_at m p = the (cells m p)"

abbreviation ident_at :: "('i, 's) graph_mem \<Rightarrow> nat \<Rightarrow> 'i" where
  "ident_at m p \<equiv> m_id (node_at m p)"

text \<open>
  The nodes have different identifiers, the neighbours of a node are other nodes of the graph, and
  each edge is listed as often at one end as at the other.
\<close>

definition graph_inv :: "('i, 's) graph_mem \<Rightarrow> cGraph \<Rightarrow> bool" where
  "graph_inv m g \<longleftrightarrow>
     distinct (map (ident_at m) (m_nodes g)) \<and>
     (\<forall>p \<in> set (m_nodes g). cells m p \<noteq> None) \<and>
     (\<forall>p. cells m p \<noteq> None \<longrightarrow> p < next_cell m) \<and>
     (\<forall>p \<in> set (m_nodes g). set (m_neighbors (node_at m p)) \<subseteq> set (m_nodes g) - {p}) \<and>
     (\<forall>p \<in> set (m_nodes g). \<forall>q \<in> set (m_nodes g).
        count_list (m_neighbors (node_at m p)) q = count_list (m_neighbors (node_at m q)) p)"

definition graph_ids :: "('i, 's) graph_mem \<Rightarrow> cGraph \<Rightarrow> 'i list" where
  "graph_ids m g = map (ident_at m) (m_nodes g)"

definition graph_edges :: "('i, 's) graph_mem \<Rightarrow> cGraph \<Rightarrow> ('i \<times> 'i) set" where
  "graph_edges m g =
     {(ident_at m p, ident_at m q) |p q. p \<in> set (m_nodes g) \<and> q \<in> set (m_neighbors (node_at m p))}"

lemma edges_image:
  "graph_edges m g = (\<lambda>(p, q). (ident_at m p, ident_at m q)) `
     {(p, q). p \<in> set (m_nodes g) \<and> q \<in> set (m_neighbors (node_at m p))}"
  unfolding graph_edges_def by (auto simp: image_iff) blast?

lemma deref_node: "cells m p \<noteq> None \<Longrightarrow> deref m p = Inr (node_at m p)"
  by (auto simp: deref_def node_at_def)

lemma isNeighbor_loop_simp:
  "\<forall>p \<in> set ps. cells m p \<noteq> None \<Longrightarrow> isNeighbor_loop m ps i = Inr (i \<in> ident_at m ` set ps)"
  by (induction ps) (auto simp: deref_node)

lemma node_loop_simp:
  "\<forall>p \<in> set ps. cells m p \<noteq> None \<Longrightarrow> node_loop m ps i = Inr (find (\<lambda>p. ident_at m p = i) ps)"
  by (induction ps) (auto simp: deref_node)

lemma find_ident:
  "find (\<lambda>p. ident_at m p = i) ps = None \<longleftrightarrow> i \<notin> ident_at m ` set ps"
  by (auto simp: find_None_iff)

lemma invD:
  assumes "graph_inv m g"
  shows "distinct (map (ident_at m) (m_nodes g))" "\<forall>p \<in> set (m_nodes g). cells m p \<noteq> None"
    "\<forall>p. cells m p \<noteq> None \<longrightarrow> p < next_cell m"
    "\<And>p q. p \<in> set (m_nodes g) \<Longrightarrow> q \<in> set (m_neighbors (node_at m p)) \<Longrightarrow> q \<in> set (m_nodes g) \<and> q \<noteq> p"
    "\<And>p q. p \<in> set (m_nodes g) \<Longrightarrow> q \<in> set (m_nodes g) \<Longrightarrow>
        count_list (m_neighbors (node_at m p)) q = count_list (m_neighbors (node_at m q)) p"
  using assms unfolding graph_inv_def by (elim conjE, assumption | blast)+

lemma same_ident:
  "graph_inv m g \<Longrightarrow> p \<in> set (m_nodes g) \<Longrightarrow> q \<in> set (m_nodes g) \<Longrightarrow> ident_at m p = ident_at m q \<Longrightarrow> p = q"
  using invD(1) [of m g] by (auto simp: distinct_map dest: inj_onD)

lemma neighbor_sym:
  assumes "graph_inv m g" and "p \<in> set (m_nodes g)" and "q \<in> set (m_nodes g)"
  shows "q \<in> set (m_neighbors (node_at m p)) \<longleftrightarrow> p \<in> set (m_neighbors (node_at m q))"
  using invD(5) [OF assms] by (metis count_list_0_iff)

lemma isNeighbor_simp:
  assumes "graph_inv m g" and "p \<in> set (m_nodes g)" and "n = node_at m p"
  shows "GraphNode_isNeighbor m n i = Inr (i \<in> ident_at m ` set (m_neighbors (node_at m p)))"
proof -
  have "\<forall>q \<in> set (m_neighbors (node_at m p)). cells m q \<noteq> None"
    using invD(2,4) [OF assms(1)] assms(2) by blast
  then show ?thesis unfolding assms(3) GraphNode_isNeighbor_def by (rule isNeighbor_loop_simp)
qed

lemma is_neighbor:
  assumes "graph_inv m g" and "p \<in> set (m_nodes g)" and "q \<in> set (m_nodes g)"
  shows "ident_at m q \<in> ident_at m ` set (m_neighbors (node_at m p)) \<longleftrightarrow> q \<in> set (m_neighbors (node_at m p))"
  using same_ident [OF assms(1,3)] invD(4) [OF assms(1,2)] by blast

lemma find_node:
  assumes "graph_inv m g" and "p \<in> set (m_nodes g)"
  shows "find (\<lambda>q. ident_at m q = ident_at m p) (m_nodes g) = Some p"
proof (cases "find (\<lambda>q. ident_at m q = ident_at m p) (m_nodes g)")
  case None
  then show ?thesis using assms(2) by (auto simp: find_None_iff)
next
  case (Some q)
  then have "q \<in> set (m_nodes g)" "ident_at m q = ident_at m p" by (auto simp: find_Some_iff)
  then show ?thesis using same_ident [OF assms(1) _ assms(2)] Some by simp
qed

lemma isNodeExists_simp:
  "graph_inv m g \<Longrightarrow> cGraph_isNodeExists m g i = Inr (i \<in> set (graph_ids m g))"
  using find_ident [of m i "m_nodes g"]
  by (simp only: cGraph_isNodeExists_def node_loop_simp [OF invD(2)] bind_res_Inr graph_ids_def set_map) simp

lemma isConnected_simp:
  assumes "graph_inv m g"
  shows "cGraph_isConnected m g a b = Inr ((a, b) \<in> graph_edges m g)"
proof (cases "a \<in> ident_at m ` set (m_nodes g)")
  case True
  then obtain p where p: "p \<in> set (m_nodes g)" "ident_at m p = a" by blast
  have e: "(a, b) \<in> graph_edges m g \<longleftrightarrow> b \<in> ident_at m ` set (m_neighbors (node_at m p))"
  proof
    assume "(a, b) \<in> graph_edges m g"
    then obtain r q where r: "r \<in> set (m_nodes g)" "ident_at m r = a" "q \<in> set (m_neighbors (node_at m r))" "b = ident_at m q"
      by (auto simp: graph_edges_def)
    have "r = p" by (rule same_ident [OF assms r(1) p(1)]) (simp add: r(2) p(2))
    then show "b \<in> ident_at m ` set (m_neighbors (node_at m p))" using r(3,4) by blast
  next
    assume "b \<in> ident_at m ` set (m_neighbors (node_at m p))"
    then show "(a, b) \<in> graph_edges m g" using p by (auto simp: graph_edges_def)
  qed
  have f: "node_loop m (m_nodes g) a = Inr (Some p)"
    using node_loop_simp [OF invD(2) [OF assms], of a] find_node [OF assms p(1)] p(2) by simp
  have "deref m p = Inr (node_at m p)" by (rule deref_node) (rule bspec [OF invD(2) [OF assms] p(1)])
  then show ?thesis
    using isNeighbor_simp [OF assms p(1) refl, of b] by (simp only: cGraph_isConnected_def f e bind_res_Inr option.case)
next
  case False
  then have e: "(a, b) \<notin> graph_edges m g" by (auto simp: graph_edges_def)
  have "find (\<lambda>p. ident_at m p = a) (m_nodes g) = None" using False by (simp only: find_ident not_False_eq_True)
  then have "node_loop m (m_nodes g) a = Inr None" using node_loop_simp [OF invD(2) [OF assms], of a] by simp
  then show ?thesis using e by (simp add: cGraph_isConnected_def)
qed

lemma connect_loop_simp:
  "distinct (map (ident_at m) ps) \<Longrightarrow> \<forall>p \<in> set ps. cells m p \<noteq> None \<Longrightarrow>
     connect_loop m ps i j g1 g2 =
       Inr (case find (\<lambda>p. ident_at m p = i) ps of None \<Rightarrow> g1 | Some p \<Rightarrow> Some p,
            if i = j then g2 else case find (\<lambda>p. ident_at m p = j) ps of None \<Rightarrow> g2 | Some p \<Rightarrow> Some p)"
proof (induction ps arbitrary: g1 g2)
  case (Cons p ps)
  have "find (\<lambda>q. ident_at m q = ident_at m p) ps = None"
    using Cons.prems(1) by (simp only: find_ident) simp
  then show ?case using Cons by (auto simp: deref_node)
qed simp

text \<open>An edge that is added at both ends.\<close>

definition linked_mem :: "('i, 's) graph_mem \<Rightarrow> nat \<Rightarrow> nat \<Rightarrow> ('i, 's) graph_mem" where
  "linked_mem m p q =
     m\<lparr>cells := (cells m)(p \<mapsto> (node_at m p)\<lparr>m_neighbors := m_neighbors (node_at m p) @ [q]\<rparr>,
                         q \<mapsto> (node_at m q)\<lparr>m_neighbors := m_neighbors (node_at m q) @ [p]\<rparr>)\<rparr>"

lemma linked_node:
  assumes "p \<noteq> q"
  shows "node_at (linked_mem m p q) r =
    (if r = p then (node_at m p)\<lparr>m_neighbors := m_neighbors (node_at m p) @ [q]\<rparr>
     else if r = q then (node_at m q)\<lparr>m_neighbors := m_neighbors (node_at m q) @ [p]\<rparr> else node_at m r)"
    "ident_at (linked_mem m p q) r = ident_at m r"
  using assms by (auto simp: node_at_def linked_mem_def)

lemma linked_inv:
  assumes "graph_inv m g" and "p \<in> set (m_nodes g)" and "q \<in> set (m_nodes g)" and "p \<noteq> q"
  shows "graph_inv (linked_mem m p q) g" "graph_ids (linked_mem m p q) g = graph_ids m g"
    "graph_edges (linked_mem m p q) g =
       graph_edges m g \<union> {(ident_at m p, ident_at m q), (ident_at m q, ident_at m p)}"
proof -
  note n = linked_node [OF assms(4), of m]
  have k: "cells (linked_mem m p q) r \<noteq> None \<longleftrightarrow> cells m r \<noteq> None" for r
    using invD(2) [OF assms(1)] assms(2,3) by (auto simp: linked_mem_def)
  have nx: "next_cell (linked_mem m p q) = next_cell m" by (simp add: linked_mem_def)
  show "graph_ids (linked_mem m p q) g = graph_ids m g" by (simp add: graph_ids_def n(2))
  have i: "map (ident_at (linked_mem m p q)) (m_nodes g) = map (ident_at m) (m_nodes g)" by (simp add: n(2))
  have a: "set (m_neighbors (node_at (linked_mem m p q) r)) \<subseteq> set (m_nodes g) - {r}" if "r \<in> set (m_nodes g)" for r
    using invD(4) [OF assms(1) that] assms(2-4) by (auto simp: n(1))
  have b: "count_list (m_neighbors (node_at (linked_mem m p q) r)) t =
      count_list (m_neighbors (node_at (linked_mem m p q) t)) r" if "r \<in> set (m_nodes g)" "t \<in> set (m_nodes g)" for r t
    using invD(5) [OF assms(1) that] assms(4) by (auto simp: n(1))
  show "graph_inv (linked_mem m p q) g"
    unfolding graph_inv_def i nx k using invD(1-3) [OF assms(1)] a b by blast
  show "graph_edges (linked_mem m p q) g =
       graph_edges m g \<union> {(ident_at m p, ident_at m q), (ident_at m q, ident_at m p)}"
  proof -
    have e: "r \<in> set (m_nodes g) \<Longrightarrow> t \<in> set (m_neighbors (node_at (linked_mem m p q) r)) \<longleftrightarrow>
        t \<in> set (m_neighbors (node_at m r)) \<or> (r, t) = (p, q) \<or> (r, t) = (q, p)" for r t
      using assms(4) by (auto simp: n(1))
    have "{(r, t). r \<in> set (m_nodes g) \<and> t \<in> set (m_neighbors (node_at (linked_mem m p q) r))} =
        {(r, t). r \<in> set (m_nodes g) \<and> t \<in> set (m_neighbors (node_at m r))} \<union> {(p, q), (q, p)}"
      using e assms(2,3) by fast
    then show ?thesis by (simp add: edges_image n(2) image_Un)
  qed
qed

text \<open>\<open>connectNodes\<close>: nothing happens unless both nodes exist and are different.\<close>

lemma addEdge_both:
  assumes "cells m p \<noteq> None" and "cells m q \<noteq> None" and "p \<noteq> q"
  shows "bind_res (GraphNode_addEdge m p q) (\<lambda>m. GraphNode_addEdge m q p) = Inr (linked_mem m p q)"
  using assms by (auto simp: GraphNode_addEdge_def deref_def linked_mem_def node_at_def)

lemma addEdgeNoDup_both:
  assumes "graph_inv m g" and "p \<in> set (m_nodes g)" and "q \<in> set (m_nodes g)" and "p \<noteq> q"
  shows "bind_res (GraphNode_addEdgeNoDup m p q) (\<lambda>m. GraphNode_addEdgeNoDup m q p) =
      Inr (if q \<in> set (m_neighbors (node_at m p)) then m else linked_mem m p q)"
proof -
  have c: "cells m p \<noteq> None" "cells m q \<noteq> None" using invD(2) [OF assms(1)] assms(2,3) by blast+
  have i: "ident_at m q \<in> ident_at m ` set (m_neighbors (node_at m p)) \<longleftrightarrow> q \<in> set (m_neighbors (node_at m p))"
    by (rule is_neighbor [OF assms(1-3)])
  have i': "ident_at m p \<in> ident_at m ` set (m_neighbors (node_at m q)) \<longleftrightarrow> q \<in> set (m_neighbors (node_at m p))"
    using is_neighbor [OF assms(1,3,2)] neighbor_sym [OF assms(1-3)] by blast
  have a: "GraphNode_addEdgeNoDup m p q =
      (if q \<in> set (m_neighbors (node_at m p)) then Inr m else GraphNode_addEdge m p q)"
    using c isNeighbor_simp [OF assms(1,2) refl, of "ident_at m q"] i
    by (simp add: GraphNode_addEdgeNoDup_def deref_node)
  show ?thesis
  proof (cases "q \<in> set (m_neighbors (node_at m p))")
    case True
    then show ?thesis
      using a c isNeighbor_simp [OF assms(1,3) refl, of "ident_at m p"] i'
      by (simp add: GraphNode_addEdgeNoDup_def deref_node)
  next
    case False
    let ?m = "m\<lparr>cells := (cells m)(p \<mapsto> (node_at m p)\<lparr>m_neighbors := m_neighbors (node_at m p) @ [q]\<rparr>)\<rparr>"
    have e: "GraphNode_addEdge m p q = Inr ?m" using c by (simp add: GraphNode_addEdge_def deref_node)
    have nq: "node_at ?m q = node_at m q" "\<And>r. ident_at ?m r = ident_at m r"
      using assms(4) by (simp_all add: node_at_def)
    have d: "deref ?m q = Inr (node_at m q)" "deref ?m p = Inr (node_at ?m p)"
      using c assms(4) by (auto simp: deref_def node_at_def)
    have "\<forall>r \<in> set (m_neighbors (node_at m q)). cells ?m r \<noteq> None"
      using invD(2,4) [OF assms(1)] assms(3) by auto
    from isNeighbor_loop_simp [OF this, of "ident_at m p"]
    have "GraphNode_isNeighbor ?m (node_at m q) (ident_at m p) = Inr False"
      using i' False by (simp add: GraphNode_isNeighbor_def nq(2))
    then have "GraphNode_addEdgeNoDup ?m q p = GraphNode_addEdge ?m q p"
      using d nq(2) [of p] by (simp add: GraphNode_addEdgeNoDup_def)
    then show ?thesis using a e False addEdge_both [OF c assms(4)] by simp
  qed
qed

definition edge :: "'i list \<Rightarrow> 'i \<Rightarrow> 'i \<Rightarrow> ('i \<times> 'i) set" where
  "edge ids a b = (if a \<in> set ids \<and> b \<in> set ids \<and> a \<noteq> b then {(a, b), (b, a)} else {})"

lemma connectNodes_simp:
  assumes "graph_inv m g"
  shows "\<exists>m'. cGraph_connectNodes m g a b dup = Inr m' \<and> graph_inv m' g \<and> graph_ids m' g = graph_ids m g \<and>
           graph_edges m' g = graph_edges m g \<union> edge (graph_ids m g) a b"
proof (cases "a \<in> set (graph_ids m g) \<and> b \<in> set (graph_ids m g) \<and> a \<noteq> b")
  case True
  then obtain p q where p: "p \<in> set (m_nodes g)" "ident_at m p = a" and q: "q \<in> set (m_nodes g)" "ident_at m q = b"
    by (auto simp: graph_ids_def)
  have pq: "p \<noteq> q" using True p(2) q(2) by auto
  have c: "cells m p \<noteq> None" "cells m q \<noteq> None" using invD(2) [OF assms] p(1) q(1) by blast+
  have l: "connect_loop m (m_nodes g) a b None None = Inr (Some p, Some q)"
    using connect_loop_simp [OF invD(1,2) [OF assms], of a b None None] find_node [OF assms p(1)]
      find_node [OF assms q(1)] p(2) q(2) True by simp
  note li = linked_inv [OF assms p(1) q(1) pq]
  have e: "edge (graph_ids m g) a b = {(a, b), (b, a)}" using True by (simp add: edge_def)
  have "q \<in> set (m_neighbors (node_at m p)) \<Longrightarrow> {(a, b), (b, a)} \<subseteq> graph_edges m g"
    using neighbor_sym [OF assms p(1) q(1)] p q by (auto simp: graph_edges_def)
  then show ?thesis
    using addEdge_both [OF c pq] addEdgeNoDup_both [OF assms p(1) q(1) pq] li assms e p(2) q(2)
    by (cases dup; cases "q \<in> set (m_neighbors (node_at m p))") (auto simp: cGraph_connectNodes_def l)
next
  case False
  have "cGraph_connectNodes m g a b dup = Inr m"
  proof (cases "a = b")
    case True
    then show ?thesis
      using connect_loop_simp [OF invD(1,2) [OF assms], of a b None None]
      by (simp add: cGraph_connectNodes_def split: option.split)
  next
    case False
    then have "find (\<lambda>p. ident_at m p = a) (m_nodes g) = None \<or> find (\<lambda>p. ident_at m p = b) (m_nodes g) = None"
      using \<open>\<not> (a \<in> set (graph_ids m g) \<and> b \<in> set (graph_ids m g) \<and> a \<noteq> b)\<close>
      unfolding find_ident graph_ids_def by auto
    then show ?thesis
      using connect_loop_simp [OF invD(1,2) [OF assms], of a b None None]
      by (auto simp: cGraph_connectNodes_def split: option.split)
  qed
  then show ?thesis using assms False by (auto simp: edge_def)
qed

definition clique :: "'i list \<Rightarrow> 'i list \<Rightarrow> ('i \<times> 'i) set" where
  "clique ids js = {(a, b). a \<in> set js \<and> b \<in> set js \<and> a \<in> set ids \<and> b \<in> set ids \<and> a \<noteq> b}"

lemma clique_inner_simp:
  "graph_inv m g \<Longrightarrow> \<exists>m'. clique_inner m g a bs = Inr m' \<and> graph_inv m' g \<and> graph_ids m' g = graph_ids m g \<and>
     graph_edges m' g = graph_edges m g \<union> (\<Union>b \<in> set bs. edge (graph_ids m g) a b)"
proof (induction bs arbitrary: m)
  case (Cons b bs)
  obtain m1 where m1: "cGraph_connectNodes m g a b False = Inr m1" "graph_inv m1 g" "graph_ids m1 g = graph_ids m g"
    "graph_edges m1 g = graph_edges m g \<union> edge (graph_ids m g) a b"
    using connectNodes_simp [OF Cons.prems] by blast
  obtain m2 where m2: "clique_inner m1 g a bs = Inr m2" "graph_inv m2 g" "graph_ids m2 g = graph_ids m g"
    "graph_edges m2 g = graph_edges m1 g \<union> (\<Union>b \<in> set bs. edge (graph_ids m g) a b)"
    using Cons.IH [OF m1(2)] m1(3) by auto
  show ?case using m1(1) m2 m1(4) by (intro exI [of _ m2]) auto
qed simp

lemma clique_outer_simp:
  "graph_inv m g \<Longrightarrow> \<exists>m'. clique_outer m g ids as = Inr m' \<and> graph_inv m' g \<and> graph_ids m' g = graph_ids m g \<and>
     graph_edges m' g = graph_edges m g \<union> (\<Union>a \<in> set as. \<Union>b \<in> set ids. edge (graph_ids m g) a b)"
proof (induction "as" arbitrary: m)
  case (Cons a "as")
  obtain m1 where m1: "clique_inner m g a ids = Inr m1" "graph_inv m1 g" "graph_ids m1 g = graph_ids m g"
    "graph_edges m1 g = graph_edges m g \<union> (\<Union>b \<in> set ids. edge (graph_ids m g) a b)"
    using clique_inner_simp [OF Cons.prems] by blast
  obtain m2 where m2: "clique_outer m1 g ids as = Inr m2" "graph_inv m2 g" "graph_ids m2 g = graph_ids m g"
    "graph_edges m2 g = graph_edges m1 g \<union> (\<Union>a \<in> set as. \<Union>b \<in> set ids. edge (graph_ids m g) a b)"
    using Cons.IH [OF m1(2)] m1(3) by auto
  show ?case using m1(1) m2 m1(4) by (intro exI [of _ m2]) auto
qed simp

lemma makeClique_simp:
  assumes "graph_inv m g"
  shows "\<exists>m'. cGraph_makeClique m g ids = Inr m' \<and> graph_inv m' g \<and> graph_ids m' g = graph_ids m g \<and>
           graph_edges m' g = graph_edges m g \<union> clique (graph_ids m g) ids"
proof -
  have "(\<Union>a \<in> set ids. \<Union>b \<in> set ids. edge (graph_ids m g) a b) = clique (graph_ids m g) ids"
    by (auto simp: clique_def edge_def split: if_splits)
  then show ?thesis using clique_outer_simp [OF assms, of ids ids] by (simp add: cGraph_makeClique_def)
qed

text \<open>A node whose identifier is new, and one whose identifier is not.\<close>

lemma addNode_old:
  "graph_inv m g \<Longrightarrow> i \<in> set (graph_ids m g) \<Longrightarrow> cGraph_addNode m g i v mem = Inr (m, g)"
  by (simp add: cGraph_addNode_def isNodeExists_simp)

lemma addNode_new:
  assumes "graph_inv m g" and "i \<notin> set (graph_ids m g)" and "(unat (m_colors g) + 31) div 32 \<le> length mem \<and> unat (m_colors g) + 31 < 2 ^ 64"
  shows "\<exists>m' g'. cGraph_addNode m g i v mem = Inr (m', g') \<and> graph_inv m' g' \<and>
           graph_ids m' g' = graph_ids m g @ [i] \<and> graph_edges m' g' = graph_edges m g \<and> m_colors g' = m_colors g \<and>
           m_value (node_at m' (last (m_nodes g'))) = v \<and>
           cSetArray_bits (m_possibleColors (node_at m' (last (m_nodes g')))) = replicate (unat (m_colors g)) True"
proof -
  obtain s where s: "cSetArray_new (unat (m_colors g)) True True mem = Inr s" "cSetArray_bits s = replicate (unat (m_colors g)) True"
    using setArray_new_reset [of "unat (m_colors g)" mem True] assms(3) by blast
  let ?p = "next_cell m"
  let ?n = "\<lparr>m_id = i, m_value = v, m_possibleColors = s, m_chosenColor = - 1, m_neighbors = [],
      m_numberOfPossibleColors = m_colors g\<rparr>"
  let ?m = "m\<lparr>cells := (cells m)(?p \<mapsto> ?n), next_cell := Suc ?p\<rparr>" and ?g = "g\<lparr>m_nodes := m_nodes g @ [?p]\<rparr>"
  have e: "cGraph_addNode m g i v mem = Inr (?m, ?g)"
    using assms(2) by (simp add: cGraph_addNode_def isNodeExists_simp [OF assms(1)] GraphNode_new_def s(1))
  have p: "?p \<notin> set (m_nodes g)" using invD(2,3) [OF assms(1)] by blast
  have n: "node_at ?m q = (if q = ?p then ?n else node_at m q)" for q by (simp add: node_at_def)
  have old: "map (ident_at ?m) (m_nodes g) = map (ident_at m) (m_nodes g)" using p by (auto simp: n)
  have gi: "graph_ids ?m ?g = graph_ids m g @ [i]" using old by (simp add: graph_ids_def n)
  moreover have "graph_inv ?m ?g"
    unfolding graph_inv_def
  proof (intro conjI)
    show "distinct (map (ident_at ?m) (m_nodes ?g))"
      using gi invD(1) [OF assms(1)] assms(2) unfolding graph_ids_def by (simp only: distinct_append) simp
    show "\<forall>q \<in> set (m_nodes ?g). cells ?m q \<noteq> None" using invD(2) [OF assms(1)] by simp
    show "\<forall>q. cells ?m q \<noteq> None \<longrightarrow> q < next_cell ?m" using invD(3) [OF assms(1)] by (auto simp: less_Suc_eq)
    show "\<forall>q \<in> set (m_nodes ?g). set (m_neighbors (node_at ?m q)) \<subseteq> set (m_nodes ?g) - {q}"
      using invD(4) [OF assms(1)] by (auto simp: n)
    have z: "count_list (m_neighbors (node_at m q)) ?p = 0" if "q \<in> set (m_nodes g)" for q
      using invD(4) [OF assms(1) that] p by (auto simp: count_list_0_iff)
    show "\<forall>q \<in> set (m_nodes ?g). \<forall>r \<in> set (m_nodes ?g).
        count_list (m_neighbors (node_at ?m q)) r = count_list (m_neighbors (node_at ?m r)) q"
      using invD(5) [OF assms(1)] z p by (auto simp: n)
  qed
  moreover have "graph_edges ?m ?g = graph_edges m g"
  proof -
    have "{(q, r). q \<in> set (m_nodes ?g) \<and> r \<in> set (m_neighbors (node_at ?m q))} =
        {(q, r). q \<in> set (m_nodes g) \<and> r \<in> set (m_neighbors (node_at m q))}"
      using p by (auto simp: n split: if_splits)
    moreover have "(\<lambda>(q, r). (ident_at ?m q, ident_at ?m r)) ` {(q, r). q \<in> set (m_nodes g) \<and> r \<in> set (m_neighbors (node_at m q))} =
        (\<lambda>(q, r). (ident_at m q, ident_at m r)) ` {(q, r). q \<in> set (m_nodes g) \<and> r \<in> set (m_neighbors (node_at m q))}"
      using p invD(4) [OF assms(1)] by (intro image_cong) (auto simp: n)
    ultimately show ?thesis unfolding edges_image by simp
  qed
  ultimately show ?thesis using e s(2) by (simp add: n)
qed

subsection \<open>Sequences of calls\<close>

datatype ('i, 's) graph_call =
    AddNode 'i 's "uint32 list"
  | ConnectNodes 'i 'i bool
  | MakeClique "'i list"
  | IsConnected 'i 'i
  | IsNodeExists 'i
  | GetNumberOfNodes
  | IsEmptyGraph

datatype graph_answer = Finished | Truth bool | Number nat

text \<open>A graph as the list of its identifiers and the set of its edges.\<close>

fun graph_spec ::
  "'i list \<times> ('i \<times> 'i) set \<Rightarrow> ('i, 's) graph_call \<Rightarrow> ('i list \<times> ('i \<times> 'i) set) \<times> graph_answer"
where
  "graph_spec (ids, E) (AddNode i v mem) = ((if i \<in> set ids then ids else ids @ [i], E), Finished)"
| "graph_spec (ids, E) (ConnectNodes a b dup) = ((ids, E \<union> edge ids a b), Finished)"
| "graph_spec (ids, E) (MakeClique js) = ((ids, E \<union> clique ids js), Finished)"
| "graph_spec (ids, E) (IsConnected a b) = ((ids, E), Truth ((a, b) \<in> E))"
| "graph_spec (ids, E) (IsNodeExists i) = ((ids, E), Truth (i \<in> set ids))"
| "graph_spec (ids, E) GetNumberOfNodes = ((ids, E), Number (length ids))"
| "graph_spec (ids, E) IsEmptyGraph = ((ids, E), Truth (ids = []))"

fun graph_step ::
  "('i, 's) graph_mem \<Rightarrow> cGraph \<Rightarrow> ('i, 's) graph_call \<Rightarrow> (('i, 's) graph_mem \<times> cGraph \<times> graph_answer) res"
where
  "graph_step m g (AddNode i v mem) = bind_res (cGraph_addNode m g i v mem) (\<lambda>(m, g). Inr (m, g, Finished))"
| "graph_step m g (ConnectNodes a b dup) = bind_res (cGraph_connectNodes m g a b dup) (\<lambda>m. Inr (m, g, Finished))"
| "graph_step m g (MakeClique js) = bind_res (cGraph_makeClique m g js) (\<lambda>m. Inr (m, g, Finished))"
| "graph_step m g (IsConnected a b) = bind_res (cGraph_isConnected m g a b) (\<lambda>r. Inr (m, g, Truth r))"
| "graph_step m g (IsNodeExists i) = bind_res (cGraph_isNodeExists m g i) (\<lambda>r. Inr (m, g, Truth r))"
| "graph_step m g GetNumberOfNodes = Inr (m, g, Number (cGraph_getNumberOfNodes g))"
| "graph_step m g IsEmptyGraph = Inr (m, g, Truth (cGraph_isEmpty g))"

fun graph_spec_run where
  "graph_spec_run G [] = (G, [])"
| "graph_spec_run G (c # cs) =
     (let (G, a) = graph_spec G c; (G, as) = graph_spec_run G cs in (G, a # as))"

fun graph_run where
  "graph_run m g [] = Inr (m, g, [])"
| "graph_run m g (c # cs) =
     bind_res (graph_step m g c) (\<lambda>(m, g, a). bind_res (graph_run m g cs) (\<lambda>(m, g, as). Inr (m, g, a # as)))"

fun enough_mem :: "uint64 \<Rightarrow> ('i, 's) graph_call \<Rightarrow> bool" where
  "enough_mem colors (AddNode i v mem) \<longleftrightarrow> (unat colors + 31) div 32 \<le> length mem \<and> unat colors + 31 < 2 ^ 64"
| "enough_mem colors _ \<longleftrightarrow> True"

definition graph_rep :: "('i, 's) graph_mem \<Rightarrow> cGraph \<Rightarrow> uint64 \<Rightarrow> 'i list \<times> ('i \<times> 'i) set \<Rightarrow> bool" where
  "graph_rep m g colors G \<longleftrightarrow> graph_inv m g \<and> m_colors g = colors \<and> (graph_ids m g, graph_edges m g) = G"

lemma graph_step_refines:
  assumes "graph_rep m g k G" and "enough_mem k c" and "graph_spec G c = (G', a)"
  shows "\<exists>m' g'. graph_step m g c = Inr (m', g', a) \<and> graph_rep m' g' k G'"
proof -
  have i: "graph_inv m g" "m_colors g = k" and G: "G = (graph_ids m g, graph_edges m g)"
    using assms(1) by (auto simp: graph_rep_def)
  show ?thesis
  proof (cases c)
    case (AddNode x v mem)
    show ?thesis
    proof (cases "x \<in> set (graph_ids m g)")
      case True
      then show ?thesis using AddNode assms addNode_old [OF i(1) True] G by auto
    next
      case False
      have "(unat (m_colors g) + 31) div 32 \<le> length mem \<and> unat (m_colors g) + 31 < 2 ^ 64" using assms(2) AddNode i(2) by simp
      from addNode_new [OF i(1) False this, of v] obtain m' g' where
        "cGraph_addNode m g x v mem = Inr (m', g')" "graph_rep m' g' k (graph_ids m g @ [x], graph_edges m g)"
        using i(2) unfolding graph_rep_def by auto
      then show ?thesis using AddNode False assms(3) G by auto
    qed
  next
    case (ConnectNodes x y dup)
    obtain m' where "cGraph_connectNodes m g x y dup = Inr m'"
      "graph_rep m' g k (graph_ids m g, graph_edges m g \<union> edge (graph_ids m g) x y)"
      using connectNodes_simp [OF i(1), of x y dup] i(2) unfolding graph_rep_def by auto
    then show ?thesis using ConnectNodes assms(3) G by auto
  next
    case (MakeClique js)
    obtain m' where "cGraph_makeClique m g js = Inr m'"
      "graph_rep m' g k (graph_ids m g, graph_edges m g \<union> clique (graph_ids m g) js)"
      using makeClique_simp [OF i(1), of "js"] i(2) unfolding graph_rep_def by auto
    then show ?thesis using MakeClique assms(3) G by auto
  next
    case (IsConnected x y)
    then show ?thesis using assms(1,3) G isConnected_simp [OF i(1)] by auto
  next
    case (IsNodeExists x)
    then show ?thesis using assms(1,3) G isNodeExists_simp [OF i(1)] by auto
  next
    case GetNumberOfNodes
    then show ?thesis using assms(1,3) G by (auto simp: cGraph_getNumberOfNodes_def graph_ids_def)
  next
    case IsEmptyGraph
    then show ?thesis using assms(1,3) G by (auto simp: cGraph_isEmpty_def graph_ids_def)
  qed
qed

lemma graph_run_refines:
  "graph_rep m g k G \<Longrightarrow> \<forall>c \<in> set cs. enough_mem k c \<Longrightarrow> graph_spec_run G cs = (G', as) \<Longrightarrow>
     \<exists>m' g'. graph_run m g cs = Inr (m', g', as) \<and> graph_rep m' g' k G'"
proof (induction cs arbitrary: m g G as)
  case (Cons c cs)
  obtain G1 a where s: "graph_spec G c = (G1, a)" by (cases "graph_spec G c")
  obtain bs where b: "graph_spec_run G1 cs = (G', bs)" "as = a # bs"
    using Cons.prems(3) s by (cases "graph_spec_run G1 cs") auto
  have e: "enough_mem k c" "\<forall>c \<in> set cs. enough_mem k c" using Cons.prems(2) by simp_all
  obtain m1 g1 where m1: "graph_step m g c = Inr (m1, g1, a)" "graph_rep m1 g1 k G1"
    using graph_step_refines [OF Cons.prems(1) e(1) s] by blast
  obtain m2 g2 where "graph_run m1 g1 cs = Inr (m2, g2, bs)" "graph_rep m2 g2 k G'"
    using Cons.IH [OF m1(2) e(2) b(1)] by blast
  then show ?case using m1(1) b(2) by simp
qed simp

text \<open>The edges of the graph on the side of the calls: between different nodes, in both directions.\<close>

lemma spec_edges:
  "graph_spec G c = (G', a) \<Longrightarrow> sym (snd G) \<and> irrefl (snd G) \<and> snd G \<subseteq> set (fst G) \<times> set (fst G) \<and> distinct (fst G) \<Longrightarrow>
     sym (snd G') \<and> irrefl (snd G') \<and> snd G' \<subseteq> set (fst G') \<times> set (fst G') \<and> distinct (fst G')"
  by (cases G; cases c) (auto simp: edge_def clique_def sym_def irrefl_def split: if_splits)

lemma spec_run_edges:
  "graph_spec_run G cs = (G', as) \<Longrightarrow>
     sym (snd G) \<and> irrefl (snd G) \<and> snd G \<subseteq> set (fst G) \<times> set (fst G) \<and> distinct (fst G) \<Longrightarrow>
     sym (snd G') \<and> irrefl (snd G') \<and> snd G' \<subseteq> set (fst G') \<times> set (fst G') \<and> distinct (fst G')"
proof (induction cs arbitrary: G as)
  case (Cons c cs)
  obtain G1 a where s: "graph_spec G c = (G1, a)" by (cases "graph_spec G c")
  obtain bs where b: "graph_spec_run G1 cs = (G', bs)"
    using Cons.prems(1) s by (cases "graph_spec_run G1 cs") auto
  show ?case by (rule Cons.IH [OF b spec_edges [OF s Cons.prems(2)]])
qed simp

text \<open>
  C9: any sequence of \<open>addNode\<close>, \<open>connectNodes\<close>, \<open>makeClique\<close> and the queries on a new graph
  returns what the calls return on a list of identifiers and a set of edges: a node with an
  identifier that exists is not added, an edge joins two different nodes that exist and can be
  asked for from both ends, and \<open>makeClique\<close> joins all pairs. The lists of neighbours stay
  symmetric, duplicates included.
\<close>

theorem graph_refines:
  assumes "\<forall>p. cells m p \<noteq> None \<longrightarrow> p < next_cell m" and "\<forall>c \<in> set calls. enough_mem colors c"
    and "graph_spec_run ([], {}) calls = ((ids, E), answers)"
  shows "\<exists>m' g. graph_run m (cGraph_new colors) calls = Inr (m', g, answers) \<and> graph_inv m' g \<and>
           graph_ids m' g = ids \<and> graph_edges m' g = E \<and> sym E \<and> irrefl E \<and> E \<subseteq> set ids \<times> set ids \<and> distinct ids"
proof -
  have r: "graph_rep m (cGraph_new colors) colors ([], {})"
    using assms(1) by (simp add: graph_rep_def graph_inv_def cGraph_new_def graph_ids_def graph_edges_def)
  obtain m' g where g: "graph_run m (cGraph_new colors) calls = Inr (m', g, answers)" "graph_rep m' g colors (ids, E)"
    using graph_run_refines [OF r assms(2,3)] by blast
  have "sym (snd (ids, E)) \<and> irrefl (snd (ids, E)) \<and> snd (ids, E) \<subseteq> set (fst (ids, E)) \<times> set (fst (ids, E)) \<and>
      distinct (fst (ids, E))"
    by (rule spec_run_edges [OF assms(3)]) (simp add: sym_def irrefl_def)
  then show ?thesis using g by (auto simp: graph_rep_def)
qed

theorem graph_refines_witness:
  "\<exists>m' g. graph_run \<lparr>cells = Map.empty, next_cell = 0\<rparr> (cGraph_new 3)
      [AddNode (1 :: nat) CHR ''a'' [0], AddNode 2 CHR ''b'' [0], AddNode 3 CHR ''c'' [0], AddNode 2 CHR ''x'' [0],
       ConnectNodes 1 2 True, ConnectNodes 1 1 False, IsConnected 2 1, IsConnected 2 3, MakeClique [1, 2, 3, 4],
       IsConnected 2 3, GetNumberOfNodes] =
      Inr (m', g, [Finished, Finished, Finished, Finished, Finished, Finished, Truth True, Truth False, Finished,
        Truth True, Number 3]) \<and> graph_ids m' g = [1, 2, 3]"
proof -
  let ?calls = "[AddNode (1 :: nat) CHR ''a'' [0], AddNode 2 CHR ''b'' [0], AddNode 3 CHR ''c'' [0], AddNode 2 CHR ''x'' [0],
       ConnectNodes 1 2 True, ConnectNodes 1 1 False, IsConnected 2 1, IsConnected 2 3, MakeClique [1, 2, 3, 4],
       IsConnected 2 3, GetNumberOfNodes]"
  have a: "\<forall>p. cells \<lparr>cells = Map.empty :: nat \<Rightarrow> (nat, char) GraphNode option, next_cell = 0\<rparr> p \<noteq> None \<longrightarrow>
      p < next_cell \<lparr>cells = Map.empty :: nat \<Rightarrow> (nat, char) GraphNode option, next_cell = 0\<rparr>" by simp
  have b: "\<forall>c \<in> set ?calls. enough_mem 3 c" by simp
  have c: "graph_spec_run ([], {}) ?calls = (([1, 2, 3], {(1, 2), (2, 1)} \<union> clique [1, 2, 3] [1, 2, 3, 4]),
      [Finished, Finished, Finished, Finished, Finished, Finished, Truth True, Truth False, Finished,
        Truth True, Number 3])"
    by (simp add: edge_def clique_def)
  show ?thesis using graph_refines [OF a b c] by blast
qed

text \<open>
  The copy of a graph has nodes of its own, but their neighbours are the nodes of the original. So
  the copy of a graph with an edge is not well formed.
\<close>

lemma copy_nodes_simp:
  "\<forall>p \<in> set ps. cells m p \<noteq> None \<and> p < next_cell m \<Longrightarrow>
     \<exists>m' qs. copy_nodes m ps acc = Inr (m', acc @ qs) \<and> length qs = length ps \<and>
       (\<forall>q \<in> set qs. next_cell m \<le> q) \<and> (\<forall>i < length ps. node_at m' (qs ! i) = node_at m (ps ! i)) \<and>
       (\<forall>p < next_cell m. cells m' p = cells m p)"
proof (induction ps arbitrary: m acc)
  case (Cons p ps)
  let ?m = "m\<lparr>cells := (cells m)(next_cell m \<mapsto> node_at m p), next_cell := next_cell m + 1\<rparr>"
  have p: "deref m p = Inr (node_at m p)" using Cons.prems by (auto intro: deref_node)
  have n: "node_at ?m q = node_at m q" if "q < next_cell m" for q using that by (simp add: node_at_def)
  have "\<forall>q \<in> set ps. cells ?m q \<noteq> None \<and> q < next_cell ?m" using Cons.prems by (simp add: less_Suc_eq)
  from Cons.IH [OF this, of "acc @ [next_cell m]"] obtain m' qs where
    c: "copy_nodes ?m ps (acc @ [next_cell m]) = Inr (m', (acc @ [next_cell m]) @ qs)" "length qs = length ps"
      "\<forall>q \<in> set qs. next_cell ?m \<le> q" "\<forall>i < length ps. node_at m' (qs ! i) = node_at ?m (ps ! i)"
      "\<forall>q < next_cell ?m. cells m' q = cells ?m q" by blast
  have e: "copy_nodes m (p # ps) acc = Inr (m', acc @ next_cell m # qs)" using c(1) p by simp
  have "node_at m' ((next_cell m # qs) ! i) = node_at m ((p # ps) ! i)" if "i < length (p # ps)" for i
  proof (cases i)
    case 0
    then show ?thesis using c(5) by (simp add: node_at_def)
  next
    case (Suc j)
    then have j: "j < length ps" using that by simp
    then have "ps ! j < next_cell m" using Cons.prems by simp
    then show ?thesis using c(4) j n Suc by simp
  qed
  moreover have "\<forall>q \<in> set (next_cell m # qs). next_cell m \<le> q" using c(3) by auto
  moreover have "\<forall>q < next_cell m. cells m' q = cells m q" using c(5) by auto
  ultimately show ?case using e c(2) by (intro exI [of _ m'] exI [of _ "next_cell m # qs"]) auto
qed simp

lemma copy_shares_neighbours:
  assumes "graph_inv m g"
  shows "\<exists>m' g'. cGraph_new_copy m g junk = Inr (m', g') \<and> m_colors g' = junk \<and>
           length (m_nodes g') = length (m_nodes g) \<and> set (m_nodes g') \<inter> set (m_nodes g) = {} \<and>
           (\<forall>i < length (m_nodes g). node_at m' (m_nodes g' ! i) = node_at m (m_nodes g ! i)) \<and>
           (graph_edges m g \<noteq> {} \<longrightarrow> \<not> graph_inv m' g')"
proof -
  have "\<forall>p \<in> set (m_nodes g). cells m p \<noteq> None \<and> p < next_cell m" using invD(2,3) [OF assms] by blast
  from copy_nodes_simp [OF this, of "[]"] obtain m' qs where c: "copy_nodes m (m_nodes g) [] = Inr (m', qs)"
    "length qs = length (m_nodes g)" "\<forall>q \<in> set qs. next_cell m \<le> q"
    "\<forall>i < length (m_nodes g). node_at m' (qs ! i) = node_at m (m_nodes g ! i)" by auto
  have d: "set qs \<inter> set (m_nodes g) = {}" using c(3) invD(2,3) [OF assms] by fastforce
  have "\<not> graph_inv m' \<lparr>m_nodes = qs, m_colors = junk\<rparr>" if "graph_edges m g \<noteq> {}"
  proof
    assume i: "graph_inv m' \<lparr>m_nodes = qs, m_colors = junk\<rparr>"
    obtain p q where p: "p \<in> set (m_nodes g)" "q \<in> set (m_neighbors (node_at m p))"
      using \<open>graph_edges m g \<noteq> {}\<close> by (auto simp: graph_edges_def)
    obtain k where k: "k < length (m_nodes g)" "m_nodes g ! k = p" using p(1) by (auto simp: in_set_conv_nth)
    have "q \<in> set (m_neighbors (node_at m' (qs ! k)))" using c(4) k p(2) by simp
    moreover have "qs ! k \<in> set qs" using k(1) c(2) by simp
    ultimately have "q \<in> set qs" using invD(4) [OF i] by simp
    then show False using d invD(4) [OF assms p] by blast
  qed
  then show ?thesis using c d by (simp add: cGraph_new_copy_def)
qed

end
