(* ===== verification/XSmartPtr.thy ===== *)
theory XSmartPtr
  imports XPrelude
begin

text \<open>
  Reference counted pointers: \<open>cCounter\<close> (data/counter.h, data/counter.cpp) and \<open>cSmartPtr\<close>
  (data/smartptr.h, data/smartptr.inl). The heap holds counters and objects. A section under the
  global lock is one step, and what an assignment or a destructor does between two such sections
  can be interleaved with the steps of other threads. The destructor of the object is code of the
  client and is not modelled beyond the object being gone.
\<close>

subsection \<open>Counters\<close>

text \<open>
  \<open>counter_t\<close> is the 32 bit \<open>int\<close>: counting past its ends is undefined behaviour, as is the use of
  a null pointer or of a counter that was deleted.
\<close>

definition MAX_INT :: int where
  "MAX_INT = 0x7FFFFFFF"

type_synonym counter_heap = "nat \<Rightarrow> int option"

definition cCounter_getValue :: "counter_heap \<Rightarrow> nat option \<Rightarrow> int res" where
  "cCounter_getValue cs p =
     (case p of None \<Rightarrow> Inl UNDEFINED_BEHAVIOUR
      | Some c \<Rightarrow> (case cs c of None \<Rightarrow> Inl UNDEFINED_BEHAVIOUR | Some n \<Rightarrow> Inr n))"

definition cCounter_setValue :: "counter_heap \<Rightarrow> nat option \<Rightarrow> int \<Rightarrow> counter_heap res" where
  "cCounter_setValue cs p newValue =
     bind_res (cCounter_getValue cs p) (\<lambda>_. Inr (cs(the p \<mapsto> newValue)))"

definition cCounter_increase :: "counter_heap \<Rightarrow> nat option \<Rightarrow> (counter_heap \<times> int) res" where
  "cCounter_increase cs p =
     bind_res (cCounter_getValue cs p) (\<lambda>n.
       if n = MAX_INT then Inl UNDEFINED_BEHAVIOUR else Inr (cs(the p \<mapsto> n + 1), n + 1))"

definition cCounter_decrease :: "counter_heap \<Rightarrow> nat option \<Rightarrow> (counter_heap \<times> int) res" where
  "cCounter_decrease cs p =
     bind_res (cCounter_getValue cs p) (\<lambda>n.
       if n = - MAX_INT - 1 then Inl UNDEFINED_BEHAVIOUR else Inr (cs(the p \<mapsto> n - 1), n - 1))"

definition delete_counter :: "counter_heap \<Rightarrow> nat option \<Rightarrow> counter_heap res" where
  "delete_counter cs p = bind_res (cCounter_getValue cs p) (\<lambda>_. Inr (cs(the p := None)))"

subsection \<open>Pointers\<close>

datatype DestructionMethod =
    SMARTPTR_DESTRUCT_NONE
  | SMARTPTR_DESTRUCT_DELETE
  | SMARTPTR_DESTRUCT_ARRAY_DELETE

record cSmartPtr =
  m_object :: "nat option"
  m_refrenceCounter :: "nat option"
  m_destructionType :: DestructionMethod

text \<open>
  Where the operation that writes a pointer stands: \<open>Stable\<close> when there is none, \<open>Released\<close> behind
  the first locked section of \<open>free\<close>, with its answer and what is done after \<open>free\<close>, and
  \<open>Cleared\<close> before the second locked section of an assignment.
\<close>

datatype rest = ThenDestroyed | ThenAssign nat

datatype phase = Stable | Released bool rest | Cleared nat

text \<open>
  The memory: the pointers that exist, the counters, the objects that exist, and for the theorems
  the objects no pointer was made for yet and the objects \<open>free\<close> gave up, with the method.
\<close>

record sp_state =
  vars :: "nat \<Rightarrow> (cSmartPtr \<times> phase) option"
  counters :: counter_heap
  next_counter :: nat
  objects :: "nat set"
  next_object :: nat
  raw :: "nat set"
  given_up :: "(nat \<times> DestructionMethod) list"

definition sp_init :: sp_state where
  "sp_init = \<lparr>vars = Map.empty, counters = Map.empty, next_counter = 0, objects = {},
     next_object = 0, raw = {}, given_up = []\<rparr>"

definition new_cCounter :: "sp_state \<Rightarrow> int \<Rightarrow> sp_state \<times> nat option" where
  "new_cCounter s initValue =
     (s\<lparr>counters := (counters s)(next_counter s \<mapsto> initValue), next_counter := next_counter s + 1\<rparr>,
      Some (next_counter s))"

definition cSmartPtr_new :: "sp_state \<Rightarrow> nat \<Rightarrow> sp_state" where
  "cSmartPtr_new s v =
     (let (s, counter) = new_cCounter s 1 in
      s\<lparr>vars := (vars s)(v \<mapsto>
          (\<lparr>m_object = None, m_refrenceCounter = counter,
            m_destructionType = SMARTPTR_DESTRUCT_DELETE\<rparr>, Stable))\<rparr>)"

definition cSmartPtr_new_object :: "sp_state \<Rightarrow> nat \<Rightarrow> nat option \<Rightarrow> DestructionMethod \<Rightarrow> sp_state" where
  "cSmartPtr_new_object s v object destructionType =
     (let (s, counter) = new_cCounter s 1 in
      s\<lparr>vars := (vars s)(v \<mapsto>
          (\<lparr>m_object = object, m_refrenceCounter = counter, m_destructionType = destructionType\<rparr>, Stable)),
        raw := raw s - set_option object\<rparr>)"

definition this_ptr :: "sp_state \<Rightarrow> nat \<Rightarrow> cSmartPtr res" where
  "this_ptr s v = (case vars s v of None \<Rightarrow> Inl UNDEFINED_BEHAVIOUR | Some (p, _) \<Rightarrow> Inr p)"

text \<open>The two halves of \<open>free\<close>: the test under the lock, and what follows it.\<close>

definition cSmartPtr_decreaseAndTest :: "sp_state \<Rightarrow> nat \<Rightarrow> (sp_state \<times> bool) res" where
  "cSmartPtr_decreaseAndTest s v =
     bind_res (this_ptr s v) (\<lambda>p.
     bind_res (cCounter_decrease (counters s) (m_refrenceCounter p)) (\<lambda>(cs, n).
     Inr (s\<lparr>counters := cs\<rparr>, n = 0)))"

definition delete_object :: "sp_state \<Rightarrow> nat \<Rightarrow> DestructionMethod \<Rightarrow> sp_state res" where
  "delete_object s ob method =
     (if ob \<notin> objects s then Inl UNDEFINED_BEHAVIOUR
      else
        let s = s\<lparr>given_up := given_up s @ [(ob, method)]\<rparr> in
        case method of
          SMARTPTR_DESTRUCT_NONE \<Rightarrow> Inr s
        | SMARTPTR_DESTRUCT_DELETE \<Rightarrow> Inr (s\<lparr>objects := objects s - {ob}\<rparr>)
        | SMARTPTR_DESTRUCT_ARRAY_DELETE \<Rightarrow> Inr (s\<lparr>objects := objects s - {ob}\<rparr>))"

definition cSmartPtr_free_rest :: "sp_state \<Rightarrow> nat \<Rightarrow> bool \<Rightarrow> phase \<Rightarrow> sp_state res" where
  "cSmartPtr_free_rest s v zero ph =
     bind_res (this_ptr s v) (\<lambda>p.
     bind_res
       (if zero then
          bind_res (case m_object p of None \<Rightarrow> Inr s
                    | Some ob \<Rightarrow> delete_object s ob (m_destructionType p)) (\<lambda>s.
          bind_res (delete_counter (counters s) (m_refrenceCounter p)) (\<lambda>cs.
          Inr (s\<lparr>counters := cs\<rparr>)))
        else Inr s) (\<lambda>s.
     Inr (s\<lparr>vars := (vars s)(v \<mapsto> (p\<lparr>m_refrenceCounter := None, m_object := None\<rparr>, ph))\<rparr>)))"

text \<open>
  The section under the lock that the copy constructor and \<open>operator =\<close> share: take the fields of
  \<open>other\<close> and count the reference.
\<close>

definition cSmartPtr_take :: "sp_state \<Rightarrow> nat \<Rightarrow> nat \<Rightarrow> sp_state res" where
  "cSmartPtr_take s v other =
     bind_res (this_ptr s other) (\<lambda>q.
     bind_res (cCounter_increase (counters s) (m_refrenceCounter q)) (\<lambda>(cs, n).
     Inr (s\<lparr>vars := (vars s)(v \<mapsto> (q, Stable)), counters := cs\<rparr>)))"

definition cSmartPtr_new_copy :: "sp_state \<Rightarrow> nat \<Rightarrow> nat \<Rightarrow> sp_state res" where
  "cSmartPtr_new_copy s v other = cSmartPtr_take s v other"

text \<open>The operations without interruption.\<close>

definition cSmartPtr_free :: "sp_state \<Rightarrow> nat \<Rightarrow> phase \<Rightarrow> sp_state res" where
  "cSmartPtr_free s v ph =
     bind_res (cSmartPtr_decreaseAndTest s v) (\<lambda>(s, zero). cSmartPtr_free_rest s v zero ph)"

definition cSmartPtr_destroy :: "sp_state \<Rightarrow> nat \<Rightarrow> sp_state res" where
  "cSmartPtr_destroy s v =
     bind_res (cSmartPtr_free s v Stable) (\<lambda>s. Inr (s\<lparr>vars := (vars s)(v := None)\<rparr>))"

definition cSmartPtr_assign :: "sp_state \<Rightarrow> nat \<Rightarrow> nat \<Rightarrow> sp_state res" where
  "cSmartPtr_assign s v other =
     (if v \<noteq> other then
        bind_res (cSmartPtr_free s v (Cleared other)) (\<lambda>s. cSmartPtr_take s v other)
      else Inr s)"

definition cSmartPtr_eq :: "cSmartPtr \<Rightarrow> cSmartPtr \<Rightarrow> bool" where
  "cSmartPtr_eq this other = (if m_object this = m_object other then True else False)"

definition cSmartPtr_neq :: "cSmartPtr \<Rightarrow> cSmartPtr \<Rightarrow> bool" where
  "cSmartPtr_neq this other = (\<not> cSmartPtr_eq this other)"

definition cSmartPtr_getDestructMethod :: "cSmartPtr \<Rightarrow> DestructionMethod" where
  "cSmartPtr_getDestructMethod this = m_destructionType this"

definition cSmartPtr_setDestructMethod :: "sp_state \<Rightarrow> nat \<Rightarrow> DestructionMethod \<Rightarrow> sp_state res" where
  "cSmartPtr_setDestructMethod s v destructionType =
     bind_res (this_ptr s v) (\<lambda>p.
     Inr (s\<lparr>vars := (vars s)(v \<mapsto> (p\<lparr>m_destructionType := destructionType\<rparr>, Stable))\<rparr>))"

definition cSmartPtr_isEmpty :: "cSmartPtr \<Rightarrow> bool" where
  "cSmartPtr_isEmpty this \<longleftrightarrow> m_object this = None"

definition cSmartPtr_getPointer :: "cSmartPtr \<Rightarrow> nat option" where
  "cSmartPtr_getPointer this = m_object this"

definition cSmartPtr_getCounter :: "sp_state \<Rightarrow> cSmartPtr \<Rightarrow> int res" where
  "cSmartPtr_getCounter s this = cCounter_getValue (counters s) (m_refrenceCounter this)"

subsection \<open>Steps of the threads\<close>

text \<open>
  One step of some thread. \<open>NewObject\<close> is a \<open>new\<close> of the client. \<open>Destroy\<close> and \<open>Assign\<close> are the
  first locked section of the destructor and of \<open>operator =\<close>; \<open>FinishFree\<close> is the rest of
  \<open>free\<close> and \<open>FinishAssign\<close> the second locked section.
\<close>

datatype sp_action =
    NewObject
  | New nat
  | NewWith nat "nat option" DestructionMethod
  | NewCopy nat nat
  | SetMethod nat DestructionMethod
  | Destroy nat
  | Assign nat nat
  | FinishFree nat
  | FinishAssign nat

definition begin_free :: "sp_state \<Rightarrow> nat \<Rightarrow> rest \<Rightarrow> sp_state res" where
  "begin_free s v k =
     bind_res (cSmartPtr_decreaseAndTest s v) (\<lambda>(s, zero).
     bind_res (this_ptr s v) (\<lambda>p. Inr (s\<lparr>vars := (vars s)(v \<mapsto> (p, Released zero k))\<rparr>)))"

fun sp_exec :: "sp_state \<Rightarrow> sp_action \<Rightarrow> sp_state res" where
  "sp_exec s NewObject =
     Inr (s\<lparr>objects := insert (next_object s) (objects s), raw := insert (next_object s) (raw s),
            next_object := next_object s + 1\<rparr>)"
| "sp_exec s (New v) = Inr (cSmartPtr_new s v)"
| "sp_exec s (NewWith v ob m) = Inr (cSmartPtr_new_object s v ob m)"
| "sp_exec s (NewCopy v w) = cSmartPtr_new_copy s v w"
| "sp_exec s (SetMethod v m) = cSmartPtr_setDestructMethod s v m"
| "sp_exec s (Destroy v) = begin_free s v ThenDestroyed"
| "sp_exec s (Assign v w) = (if v \<noteq> w then begin_free s v (ThenAssign w) else Inr s)"
| "sp_exec s (FinishFree v) =
     (case vars s v of
        Some (_, Released zero ThenDestroyed) \<Rightarrow>
          bind_res (cSmartPtr_free_rest s v zero Stable) (\<lambda>s. Inr (s\<lparr>vars := (vars s)(v := None)\<rparr>))
      | Some (_, Released zero (ThenAssign w)) \<Rightarrow> cSmartPtr_free_rest s v zero (Cleared w)
      | _ \<Rightarrow> Inl UNDEFINED_BEHAVIOUR)"
| "sp_exec s (FinishAssign v) =
     (case vars s v of Some (_, Cleared w) \<Rightarrow> cSmartPtr_take s v w | _ \<Rightarrow> Inl UNDEFINED_BEHAVIOUR)"

text \<open>
  What the client has to respect: a pointer is not written by one thread while another one writes
  or reads it, it is used between its construction and its destruction, and an object is handed
  to one pointer only.
\<close>

type_synonym var_map = "nat \<Rightarrow> (cSmartPtr \<times> phase) option"

definition stable :: "var_map \<Rightarrow> nat \<Rightarrow> bool" where
  "stable V v \<longleftrightarrow> (\<exists>p. V v = Some (p, Stable))"

definition source_of :: "phase \<Rightarrow> nat option" where
  "source_of ph = (case ph of Cleared w \<Rightarrow> Some w | Released _ (ThenAssign w) \<Rightarrow> Some w | _ \<Rightarrow> None)"

definition being_read :: "var_map \<Rightarrow> nat \<Rightarrow> bool" where
  "being_read V w \<longleftrightarrow> (\<exists>v p ph. V v = Some (p, ph) \<and> source_of ph = Some w)"

fun allowed :: "sp_state \<Rightarrow> sp_action \<Rightarrow> bool" where
  "allowed s NewObject \<longleftrightarrow> True"
| "allowed s (New v) \<longleftrightarrow> vars s v = None"
| "allowed s (NewWith v ob m) \<longleftrightarrow> vars s v = None \<and> set_option ob \<subseteq> raw s"
| "allowed s (NewCopy v w) \<longleftrightarrow> vars s v = None \<and> stable (vars s) w"
| "allowed s (SetMethod v m) \<longleftrightarrow> stable (vars s) v \<and> \<not> being_read (vars s) v"
| "allowed s (Destroy v) \<longleftrightarrow> stable (vars s) v \<and> \<not> being_read (vars s) v"
| "allowed s (Assign v w) \<longleftrightarrow> stable (vars s) v \<and> \<not> being_read (vars s) v \<and> stable (vars s) w"
| "allowed s (FinishFree v) \<longleftrightarrow> (\<exists>p b k. vars s v = Some (p, Released b k))"
| "allowed s (FinishAssign v) \<longleftrightarrow> (\<exists>p w. vars s v = Some (p, Cleared w))"

inductive sp_reach :: "sp_state \<Rightarrow> bool" where
  init: "sp_reach sp_init"
| step: "sp_reach s \<Longrightarrow> allowed s a \<Longrightarrow> sp_exec s a = Inr s' \<Longrightarrow> sp_reach s'"

subsection \<open>The invariant\<close>

text \<open>
  \<open>refs\<close> are the pointers that have a reference to a counter, \<open>dyings\<close> the one whose thread is
  about to delete the object and the counter.
\<close>

definition refs :: "var_map \<Rightarrow> nat \<Rightarrow> nat set" where
  "refs V c = {v. \<exists>p. V v = Some (p, Stable) \<and> m_refrenceCounter p = Some c}"

definition dyings :: "var_map \<Rightarrow> nat \<Rightarrow> nat set" where
  "dyings V c = {v. \<exists>p k. V v = Some (p, Released True k) \<and> m_refrenceCounter p = Some c}"

definition object_of :: "var_map \<Rightarrow> nat \<Rightarrow> nat option" where
  "object_of V v = (case V v of None \<Rightarrow> None | Some (p, _) \<Rightarrow> m_object p)"

lemma refs_upd [simp]:
  "refs (V(v \<mapsto> (p, ph))) c =
     (if ph = Stable \<and> m_refrenceCounter p = Some c then insert v (refs V c) else refs V c - {v})"
  "refs (V(v := None)) c = refs V c - {v}"
  by (auto simp: refs_def)

lemma dyings_upd [simp]:
  "dyings (V(v \<mapsto> (p, ph))) c =
     (if (\<exists>k. ph = Released True k) \<and> m_refrenceCounter p = Some c then insert v (dyings V c)
      else dyings V c - {v})"
  "dyings (V(v := None)) c = dyings V c - {v}"
  by (auto simp: dyings_def)

lemma object_of_upd [simp]:
  "object_of (V(v \<mapsto> (p, ph))) u = (if u = v then m_object p else object_of V u)"
  "object_of (V(v := None)) u = (if u = v then None else object_of V u)"
  by (auto simp: object_of_def)

lemma stable_upd [simp]:
  "stable (V(v \<mapsto> (p, ph))) u \<longleftrightarrow> (if u = v then ph = Stable else stable V u)"
  "stable (V(v := None)) u \<longleftrightarrow> u \<noteq> v \<and> stable V u"
  by (auto simp: stable_def)

lemma finite_refs: "finite (dom V) \<Longrightarrow> finite (refs V c)"
  by (rule finite_subset [of _ "dom V"]) (auto simp: refs_def)

definition cell_ok :: "var_map \<Rightarrow> counter_heap \<Rightarrow> nat \<Rightarrow> nat \<Rightarrow> bool" where
  "cell_ok V cs fresh c \<longleftrightarrow>
     (case cs c of
        None \<Rightarrow> refs V c = {} \<and> dyings V c = {}
      | Some n \<Rightarrow> c < fresh \<and> n = int (card (refs V c)) \<and>
          (if refs V c = {} then \<exists>v. dyings V c = {v} else dyings V c = {}))"

definition var_ok :: "var_map \<Rightarrow> nat \<Rightarrow> bool" where
  "var_ok V v \<longleftrightarrow>
     (case V v of
        None \<Rightarrow> True
      | Some (p, ph) \<Rightarrow>
          (ph = Stable \<or> (\<exists>k. ph = Released True k) \<longrightarrow> m_refrenceCounter p \<noteq> None) \<and>
          (\<forall>w. source_of ph = Some w \<longrightarrow> stable V w))"

definition counts :: "sp_state \<Rightarrow> bool" where
  "counts s \<longleftrightarrow> finite (dom (vars s)) \<and> (\<forall>v. var_ok (vars s) v) \<and>
     (\<forall>c. cell_ok (vars s) (counters s) (next_counter s) c)"

text \<open>
  The objects of a counter, as its pointers name them, and who an object belongs to: nobody yet,
  one counter, or nobody any more.
\<close>

definition tied :: "var_map \<Rightarrow> nat \<Rightarrow> nat option set" where
  "tied V c = object_of V ` (refs V c \<union> dyings V c)"

abbreviation gone :: "sp_state \<Rightarrow> nat set" where
  "gone s \<equiv> fst ` set (given_up s)"

definition owners :: "sp_state \<Rightarrow> (nat \<Rightarrow> nat option set) \<Rightarrow> bool" where
  "owners s T \<longleftrightarrow>
     (\<forall>c x y. x \<in> T c \<longrightarrow> y \<in> T c \<longrightarrow> x = y) \<and>
     (\<forall>c c' ob. Some ob \<in> T c \<longrightarrow> Some ob \<in> T c' \<longrightarrow> c = c') \<and>
     (\<forall>c ob. Some ob \<in> T c \<longrightarrow> ob < next_object s \<and> ob \<notin> raw s \<and> ob \<notin> gone s) \<and>
     raw s \<union> gone s \<subseteq> {..<next_object s} \<and> raw s \<inter> gone s = {} \<and> distinct (map fst (given_up s)) \<and>
     objects s = {..<next_object s} - {ob. \<exists>m. (ob, m) \<in> set (given_up s) \<and> m \<noteq> SMARTPTR_DESTRUCT_NONE} \<and>
     (\<forall>ob < next_object s. ob \<in> raw s \<or> ob \<in> gone s \<or> (\<exists>c. Some ob \<in> T c))"

definition sp_inv :: "sp_state \<Rightarrow> bool" where
  "sp_inv s \<longleftrightarrow> counts s \<and> owners s (tied (vars s))"

text \<open>What a pointer in use finds.\<close>

lemma countsD:
  assumes "counts s"
  shows "finite (dom (vars s))" "\<forall>v. var_ok (vars s) v" "var_ok (vars s) v"
    "cell_ok (vars s) (counters s) (next_counter s) c" "finite (refs (vars s) c)"
  using assms by (simp_all add: counts_def finite_refs)

lemma has_counter:
  assumes "counts s" and "vars s v = Some (p, ph)" and "ph = Stable \<or> (\<exists>k. ph = Released True k)"
  obtains c where "m_refrenceCounter p = Some c"
  using countsD(3) [OF assms(1), of v] assms(2,3) that unfolding var_ok_def by auto

lemma stable_cell:
  assumes "counts s" and "vars s v = Some (p, Stable)" and "m_refrenceCounter p = Some c"
  shows "v \<in> refs (vars s) c" "counters s c = Some (int (card (refs (vars s) c)))"
    "dyings (vars s) c = {}" "c < next_counter s" "0 < card (refs (vars s) c)"
proof -
  show r: "v \<in> refs (vars s) c" using assms(2,3) by (simp add: refs_def)
  then show "counters s c = Some (int (card (refs (vars s) c)))" "dyings (vars s) c = {}" "c < next_counter s"
    using countsD(4) [OF assms(1), of c] by (auto simp: cell_ok_def split: option.splits if_splits)
  show "0 < card (refs (vars s) c)" using r countsD(5) [OF assms(1)] by (auto simp: card_gt_0_iff)
qed

lemma dying_cell:
  assumes "counts s" and "vars s v = Some (p, Released True k)" and "m_refrenceCounter p = Some c"
  shows "counters s c = Some 0" "refs (vars s) c = {}" "dyings (vars s) c = {v}"
proof -
  have d: "v \<in> dyings (vars s) c" using assms(2,3) by (simp add: dyings_def)
  then show "refs (vars s) c = {}" "counters s c = Some 0" "dyings (vars s) c = {v}"
    using countsD(4) [OF assms(1), of c] by (auto simp: cell_ok_def split: option.splits if_splits)
qed

lemma no_var: "V v = None \<Longrightarrow> v \<notin> refs V c \<and> v \<notin> dyings V c"
  by (simp add: refs_def dyings_def)

lemma fresh_cell:
  assumes "counts s"
  shows "counters s (next_counter s) = None" "refs (vars s) (next_counter s) = {}"
    "dyings (vars s) (next_counter s) = {}"
  using countsD(4) [OF assms, of "next_counter s"] by (auto simp: cell_ok_def split: option.splits)

text \<open>A pointer that changes leaves the cells of the other counters alone.\<close>

lemma cell_ok_other:
  assumes "cell_ok V cs fresh d" and "cs' d = cs d" and "fresh \<le> fresh'"
    and "v \<notin> refs V d" "v \<notin> dyings V d"
    and "m_refrenceCounter p \<noteq> Some d \<or> (ph \<noteq> Stable \<and> (\<forall>k. ph \<noteq> Released True k))"
  shows "cell_ok (V(v \<mapsto> (p, ph))) cs' fresh' d"
proof -
  have "refs (V(v \<mapsto> (p, ph))) d = refs V d" "dyings (V(v \<mapsto> (p, ph))) d = dyings V d"
    using assms(4-6) by auto
  then show ?thesis using assms(1-3) by (auto simp: cell_ok_def split: option.splits)
qed

lemma one_counter:
  "V v = Some (p, ph) \<Longrightarrow> m_refrenceCounter p \<noteq> Some d \<Longrightarrow> v \<notin> refs V d \<and> v \<notin> dyings V d"
  by (auto simp: refs_def dyings_def)

lemma var_ok_upd:
  assumes "\<forall>u. var_ok V u"
    and "ph = Stable \<or> (\<exists>k. ph = Released True k) \<Longrightarrow> m_refrenceCounter p \<noteq> None"
    and "\<And>w. source_of ph = Some w \<Longrightarrow> stable V w \<and> w \<noteq> v"
    and "ph = Stable \<or> \<not> being_read V v"
  shows "\<forall>u. var_ok (V(v \<mapsto> (p, ph))) u"
  using assms unfolding var_ok_def being_read_def by (auto split: option.splits) blast+

lemma var_ok_remove:
  assumes "\<forall>u. var_ok V u" and "\<not> being_read V v"
  shows "\<forall>u. var_ok (V(v := None)) u"
  using assms unfolding var_ok_def being_read_def by (auto split: option.splits) blast+

text \<open>The first locked section of \<open>free\<close>.\<close>

lemma last_ref: "v \<in> refs V c \<Longrightarrow> card (refs V c) = 1 \<longleftrightarrow> refs V c = {v}"
  by (auto simp: card_1_singleton_iff)

lemma begin_free_eq:
  assumes "counts s" and "vars s v = Some (p, Stable)" and "m_refrenceCounter p = Some c"
  shows "begin_free s v k = Inr (s\<lparr>counters := (counters s)(c \<mapsto> int (card (refs (vars s) c)) - 1),
      vars := (vars s)(v \<mapsto> (p, Released (refs (vars s) c = {v}) k))\<rparr>)"
proof -
  have n: "int (card (refs (vars s) c)) = 1 \<longleftrightarrow> refs (vars s) c = {v}"
    using last_ref [OF stable_cell(1) [OF assms]] by simp
  show ?thesis
    using assms(2,3) stable_cell(2) [OF assms] n
    by (simp add: begin_free_def cSmartPtr_decreaseAndTest_def this_ptr_def
      cCounter_decrease_def cCounter_getValue_def MAX_INT_def)
qed

lemma begin_free_counts:
  assumes "counts s" and "vars s v = Some (p, Stable)" and "m_refrenceCounter p = Some c"
    and "\<not> being_read (vars s) v" and "\<And>w. k = ThenAssign w \<Longrightarrow> stable (vars s) w \<and> w \<noteq> v"
  shows "counts (s\<lparr>counters := (counters s)(c \<mapsto> int (card (refs (vars s) c)) - 1),
      vars := (vars s)(v \<mapsto> (p, Released (refs (vars s) c = {v}) k))\<rparr>)"
proof -
  let ?ph = "Released (refs (vars s) c = {v}) k"
  note v = stable_cell [OF assms(1-3)]
  have a: "\<forall>u. var_ok ((vars s)(v \<mapsto> (p, ?ph))) u"
    by (rule var_ok_upd [OF countsD(2) [OF assms(1)]])
      (use assms(3-5) in \<open>auto simp: source_of_def split: rest.splits\<close>)
  have "cell_ok ((vars s)(v \<mapsto> (p, ?ph))) ((counters s)(c \<mapsto> int (card (refs (vars s) c)) - 1)) (next_counter s) d" for d
  proof (cases "d = c")
    case True
    have "int (card (refs (vars s) c - {v})) = int (card (refs (vars s) c)) - 1"
      using v(1,5) by (simp add: card_Diff_singleton_if of_nat_diff)
    moreover have "refs (vars s) c - {v} = {} \<longleftrightarrow> refs (vars s) c = {v}" using v(1) by auto
    ultimately show ?thesis
      using v(3,4) True assms(3) by (simp add: cell_ok_def)
  next
    case False
    have "v \<notin> refs (vars s) d \<and> v \<notin> dyings (vars s) d"
      using one_counter [of "vars s" v p Stable d] assms(2,3) False by simp
    then show ?thesis
      using False assms(3) by (intro cell_ok_other [OF countsD(4) [OF assms(1)]]) auto
  qed
  then show ?thesis using a assms(1) by (simp add: counts_def)
qed

lemma object_image:
  "v \<notin> A \<Longrightarrow> object_of (V(v := x)) ` A = object_of V ` A"
  by (rule image_cong) (auto simp: object_of_def)

lemma tied_other:
  assumes "v \<notin> refs V d" and "v \<notin> dyings V d"
    and "m_refrenceCounter p \<noteq> Some d \<or> (ph \<noteq> Stable \<and> (\<forall>k. ph \<noteq> Released True k))"
  shows "tied (V(v \<mapsto> (p, ph))) d = tied V d"
proof -
  have "refs (V(v \<mapsto> (p, ph))) d = refs V d" "dyings (V(v \<mapsto> (p, ph))) d = dyings V d" using assms by auto
  moreover have "object_of (V(v \<mapsto> (p, ph))) ` (refs V d \<union> dyings V d) = object_of V ` (refs V d \<union> dyings V d)"
    by (rule object_image) (use assms(1,2) in simp)
  ultimately show ?thesis by (simp only: tied_def)
qed

lemma ownersD:
  assumes "owners s T"
  shows "\<And>c x y. x \<in> T c \<Longrightarrow> y \<in> T c \<Longrightarrow> x = y"
    "\<And>ob c c'. Some ob \<in> T c \<Longrightarrow> Some ob \<in> T c' \<Longrightarrow> c = c'"
    "\<And>ob c. Some ob \<in> T c \<Longrightarrow> ob < next_object s \<and> ob \<notin> raw s \<and> ob \<notin> gone s"
    "raw s \<union> gone s \<subseteq> {..<next_object s}" "raw s \<inter> gone s = {}" "distinct (map fst (given_up s))"
    "objects s = {..<next_object s} - {ob. \<exists>m. (ob, m) \<in> set (given_up s) \<and> m \<noteq> SMARTPTR_DESTRUCT_NONE}"
    "\<And>ob. ob < next_object s \<Longrightarrow> ob \<in> raw s \<or> ob \<in> gone s \<or> (\<exists>c. Some ob \<in> T c)"
    "\<And>ob c. Some ob \<in> T c \<Longrightarrow> ob \<in> objects s"
proof -
  note u = assms [unfolded owners_def]
  show "\<And>c x y. x \<in> T c \<Longrightarrow> y \<in> T c \<Longrightarrow> x = y" using conjunct1 [OF u] by blast
  note u = conjunct2 [OF u]
  show "\<And>ob c c'. Some ob \<in> T c \<Longrightarrow> Some ob \<in> T c' \<Longrightarrow> c = c'" using conjunct1 [OF u] by blast
  note u = conjunct2 [OF u]
  show t: "\<And>ob c. Some ob \<in> T c \<Longrightarrow> ob < next_object s \<and> ob \<notin> raw s \<and> ob \<notin> gone s" using conjunct1 [OF u] by blast
  note u = conjunct2 [OF u]
  show "raw s \<union> gone s \<subseteq> {..<next_object s}" "raw s \<inter> gone s = {}" "distinct (map fst (given_up s))"
    "\<And>ob. ob < next_object s \<Longrightarrow> ob \<in> raw s \<or> ob \<in> gone s \<or> (\<exists>c. Some ob \<in> T c)"
    using u by simp_all
  show o: "objects s = {..<next_object s} - {ob. \<exists>m. (ob, m) \<in> set (given_up s) \<and> m \<noteq> SMARTPTR_DESTRUCT_NONE}"
    using u by (elim conjE)
  show "\<And>ob c. Some ob \<in> T c \<Longrightarrow> ob \<in> objects s" using t unfolding o by force
qed

lemma ownersI:
  assumes "\<And>c x y. x \<in> T c \<Longrightarrow> y \<in> T c \<Longrightarrow> x = y"
    and "\<And>ob c c'. Some ob \<in> T c \<Longrightarrow> Some ob \<in> T c' \<Longrightarrow> c = c'"
    and "\<And>ob c. Some ob \<in> T c \<Longrightarrow> ob < next_object s \<and> ob \<notin> raw s \<and> ob \<notin> gone s"
    and "raw s \<union> gone s \<subseteq> {..<next_object s}" and "raw s \<inter> gone s = {}" and "distinct (map fst (given_up s))"
    and "objects s = {..<next_object s} - {ob. \<exists>m. (ob, m) \<in> set (given_up s) \<and> m \<noteq> SMARTPTR_DESTRUCT_NONE}"
    and "\<And>ob. ob < next_object s \<Longrightarrow> ob \<in> raw s \<or> ob \<in> gone s \<or> (\<exists>c. Some ob \<in> T c)"
  shows "owners s T"
proof -
  have "\<forall>c x y. x \<in> T c \<longrightarrow> y \<in> T c \<longrightarrow> x = y" using assms(1) by blast
  moreover have "\<forall>c c' ob. Some ob \<in> T c \<longrightarrow> Some ob \<in> T c' \<longrightarrow> c = c'" using assms(2) by blast
  moreover have "\<forall>c ob. Some ob \<in> T c \<longrightarrow> ob < next_object s \<and> ob \<notin> raw s \<and> ob \<notin> gone s"
    using assms(3) by blast
  moreover have "\<forall>ob < next_object s. ob \<in> raw s \<or> ob \<in> gone s \<or> (\<exists>c. Some ob \<in> T c)" using assms(8) by blast
  ultimately show ?thesis unfolding owners_def using assms(4-7) by (intro conjI)
qed

lemma owners_cong [simp]:
  "owners (s\<lparr>vars := V\<rparr>) T = owners s T" "owners (s\<lparr>counters := cs\<rparr>) T = owners s T"
  "owners (s\<lparr>next_counter := n\<rparr>) T = owners s T"
  by (simp_all add: owners_def)

lemma tied_eq: "owners s T \<Longrightarrow> x \<in> T c \<Longrightarrow> T c = {x}"
  using ownersD(1) by blast

lemma begin_free_owners:
  assumes "counts s" and "vars s v = Some (p, Stable)" and "m_refrenceCounter p = Some c"
    and "owners s (tied (vars s))"
  shows "tied ((vars s)(v \<mapsto> (p, Released (refs (vars s) c = {v}) k))) = tied (vars s)"
proof
  fix d
  note v = stable_cell [OF assms(1-3)]
  have ob: "object_of (vars s) v = m_object p" using assms(2) by (simp add: object_of_def)
  have t: "tied (vars s) c = {m_object p}"
    by (rule tied_eq [OF assms(4)]) (simp only: tied_def ob [symmetric], rule imageI, simp add: v(1))
  let ?V = "(vars s)(v \<mapsto> (p, Released (refs (vars s) c = {v}) k))"
  show "tied ?V d = tied (vars s) d"
  proof (cases "d = c")
    case True
    have "object_of ?V ` (refs ?V c \<union> dyings ?V c) = {m_object p}"
    proof (cases "refs (vars s) c = {v}")
      case True
      have "refs ?V c \<union> dyings ?V c = {v}" by (simp add: True v(3) assms(3))
      then show ?thesis by simp
    next
      case False
      then have ne: "refs (vars s) c - {v} \<noteq> {}" using v(1) by blast
      have e: "refs ?V c \<union> dyings ?V c = refs (vars s) c - {v}" by (simp add: False v(3))
      have "object_of ?V ` (refs (vars s) c - {v}) = object_of (vars s) ` (refs (vars s) c - {v})"
        by (rule object_image) simp
      moreover have "object_of (vars s) ` (refs (vars s) c - {v}) \<subseteq> {m_object p}"
        unfolding t [symmetric] tied_def by (rule image_mono) blast
      ultimately show ?thesis unfolding e using ne by (simp add: subset_singleton_iff)
    qed
    then show ?thesis using True t by (simp only: tied_def)
  next
    case False
    have "v \<notin> refs (vars s) d \<and> v \<notin> dyings (vars s) d"
      using one_counter [of "vars s" v p Stable d] assms(2,3) False by simp
    then show ?thesis using False assms(3) by (intro tied_other) auto
  qed
qed

lemma begin_free_inv:
  assumes "sp_inv s" and "stable (vars s) v" and "\<not> being_read (vars s) v"
    and "\<And>w. k = ThenAssign w \<Longrightarrow> stable (vars s) w \<and> w \<noteq> v"
  shows "\<exists>s'. begin_free s v k = Inr s' \<and> sp_inv s'"
proof -
  obtain p where p: "vars s v = Some (p, Stable)" using assms(2) by (auto simp: stable_def)
  have i: "counts s" "owners s (tied (vars s))" using assms(1) by (simp_all add: sp_inv_def)
  obtain c where c: "m_refrenceCounter p = Some c" using has_counter [OF i(1) p] by blast
  have "sp_inv (s\<lparr>counters := (counters s)(c \<mapsto> int (card (refs (vars s) c)) - 1),
      vars := (vars s)(v \<mapsto> (p, Released (refs (vars s) c = {v}) k))\<rparr>)"
    using begin_free_counts [OF i(1) p c assms(3,4)] begin_free_owners [OF i(1) p c i(2)] i(2)
    by (simp add: sp_inv_def owners_def)
  then show ?thesis using begin_free_eq [OF i(1) p c] by blast
qed

text \<open>
  The rest of \<open>free\<close>. Either way the pointer is then tied to nothing: it is gone, or it waits for
  the second half of an assignment.
\<close>

definition let_go :: "var_map \<Rightarrow> nat \<Rightarrow> var_map \<Rightarrow> bool" where
  "let_go V v V' \<longleftrightarrow> finite (dom V') \<and> (\<forall>u. var_ok V' u) \<and> (\<forall>d. refs V' d = refs V d - {v}) \<and>
     (\<forall>d. dyings V' d = dyings V d - {v}) \<and> (\<forall>u. u \<noteq> v \<longrightarrow> object_of V' u = object_of V u)"

lemma let_go_cleared:
  assumes "counts s" and "vars s v = Some (p, Released b (ThenAssign w))" and "\<not> being_read (vars s) v"
  shows "let_go (vars s) v ((vars s)(v \<mapsto> (q, Cleared w)))"
proof -
  have "stable (vars s) w \<and> w \<noteq> v"
    using countsD(3) [OF assms(1), of v] assms(2) by (auto simp: var_ok_def stable_def source_of_def)
  then have "\<forall>u. var_ok ((vars s)(v \<mapsto> (q, Cleared w))) u"
    by (intro var_ok_upd [OF countsD(2) [OF assms(1)]]) (use assms(3) in \<open>auto simp: source_of_def\<close>)
  then show ?thesis using countsD(1) [OF assms(1)] by (simp add: let_go_def)
qed

lemma let_go_removed:
  assumes "counts s" and "\<not> being_read (vars s) v"
  shows "let_go (vars s) v ((vars s)(v := None))"
  using countsD(1) [OF assms(1)] var_ok_remove [OF countsD(2) [OF assms(1)] assms(2)]
  by (simp add: let_go_def)

lemma let_go_tied:
  assumes "let_go V v V'" and "v \<notin> refs V d" and "v \<notin> dyings V d"
  shows "refs V' d = refs V d" "dyings V' d = dyings V d" "tied V' d = tied V d"
proof -
  show r: "refs V' d = refs V d" "dyings V' d = dyings V d" using assms by (auto simp: let_go_def)
  have "object_of V' ` (refs V d \<union> dyings V d) = object_of V ` (refs V d \<union> dyings V d)"
    using assms by (intro image_cong) (auto simp: let_go_def)
  then show "tied V' d = tied V d" by (simp add: tied_def r)
qed

lemma cell_ok_cong:
  assumes "cell_ok V cs fresh d" and "refs V' d = refs V d" and "dyings V' d = dyings V d"
    and "cs' d = cs d" and "fresh \<le> fresh'"
  shows "cell_ok V' cs' fresh' d"
proof (cases "cs d")
  case None
  then show ?thesis using assms(1) unfolding cell_ok_def assms(2-4) by simp
next
  case (Some n)
  have "d < fresh" using assms(1) Some by (simp add: cell_ok_def)
  then have "d < fresh'" using assms(5) by simp
  then show ?thesis using assms(1) Some unfolding cell_ok_def assms(2-4) by simp
qed

lemma let_go_other:
  assumes "sp_inv s" and "vars s v = Some (p, Released False k)" and "let_go (vars s) v V'"
  shows "sp_inv (s\<lparr>vars := V'\<rparr>)"
proof -
  have i: "counts s" "owners s (tied (vars s))" using assms(1) by (simp_all add: sp_inv_def)
  have v: "v \<notin> refs (vars s) d" "v \<notin> dyings (vars s) d" for d using assms(2) by (auto simp: refs_def dyings_def)
  note e = let_go_tied [OF assms(3) v]
  have "cell_ok V' (counters s) (next_counter s) d" for d
    by (rule cell_ok_cong [OF countsD(4) [OF i(1)]]) (simp_all add: e)
  moreover have "tied V' = tied (vars s)" by (rule ext) (rule e)
  ultimately show ?thesis
    using assms(3) i(2) by (simp add: sp_inv_def counts_def let_go_def owners_def)
qed

text \<open>The object and the counter go with the last pointer.\<close>

definition drop_object :: "sp_state \<Rightarrow> nat option \<Rightarrow> DestructionMethod \<Rightarrow> sp_state" where
  "drop_object s ob m =
     (case ob of None \<Rightarrow> s
      | Some ob \<Rightarrow> s\<lparr>given_up := given_up s @ [(ob, m)],
          objects := (if m = SMARTPTR_DESTRUCT_NONE then objects s else objects s - {ob})\<rparr>)"

lemma owners_drop:
  assumes "owners s T" and "T c = {ob}" and "\<And>d. T' d = (if d = c then {} else T d)"
  shows "owners (drop_object s ob m) T'"
proof (cases ob)
  case None
  have T: "x \<in> T d" if "x \<in> T' d" for x d using assms(3) that by (simp split: if_splits)
  have c: "Some b \<in> T' d \<longleftrightarrow> Some b \<in> T d" for b d using assms(2,3) None by auto
  show ?thesis unfolding drop_object_def None option.case
  proof (rule ownersI)
    show "x = y" if "x \<in> T' d" "y \<in> T' d" for d x y using ownersD(1) [OF assms(1)] T that by blast
    show "d = d'" if "Some b \<in> T' d" "Some b \<in> T' d'" for d d' b using ownersD(2) [OF assms(1)] T that by blast
    show "b < next_object s \<and> b \<notin> raw s \<and> b \<notin> gone s" if "Some b \<in> T' d" for b d
      by (rule ownersD(3) [OF assms(1) T [OF that]])
    show "b \<in> raw s \<or> b \<in> gone s \<or> (\<exists>d. Some b \<in> T' d)" if "b < next_object s" for b
      using ownersD(8) [OF assms(1) that] by (simp only: c)
  qed (rule ownersD(4-7) [OF assms(1)])+
next
  case (Some a)
  have a: "a < next_object s" "a \<notin> raw s" "a \<notin> gone s" "a \<in> objects s"
    using ownersD(3) [OF assms(1), of a c] ownersD(9) [OF assms(1), of a c] assms(2) Some by simp_all
  have n: "Some a \<notin> T' d" for d
    using ownersD(2) [OF assms(1), of a c d] assms(2,3) Some by auto
  have T: "x \<in> T d" if "x \<in> T' d" for x d using assms(3) that by (simp split: if_splits)
  show ?thesis
  proof (rule ownersI)
    show "x = y" if "x \<in> T' d" "y \<in> T' d" for d x y using ownersD(1) [OF assms(1)] T that by blast
    show "d = d'" if "Some b \<in> T' d" "Some b \<in> T' d'" for d d' b using ownersD(2) [OF assms(1)] T that by blast
    show "b < next_object (drop_object s ob m) \<and> b \<notin> raw (drop_object s ob m) \<and> b \<notin> gone (drop_object s ob m)"
      if "Some b \<in> T' d" for b d
      using ownersD(3) [OF assms(1) T [OF that]] n [of d] that Some by (auto simp: drop_object_def)
    show "b \<in> raw (drop_object s ob m) \<or> b \<in> gone (drop_object s ob m) \<or> (\<exists>d. Some b \<in> T' d)"
      if "b < next_object (drop_object s ob m)" for b
    proof -
      have "b < next_object s" using that Some by (simp add: drop_object_def)
      from ownersD(8) [OF assms(1) this] consider "b \<in> raw s" | "b \<in> gone s" | d where "Some b \<in> T d" by blast
      then show ?thesis
      proof cases
        case 3
        then show ?thesis using Some assms(2) assms(3) [of d] by (cases "d = c") (auto simp: drop_object_def)
      qed (simp_all add: drop_object_def Some)
    qed
  qed (use ownersD(4-7) [OF assms(1)] a Some in \<open>auto simp: drop_object_def\<close>)
qed

lemma free_rest_True:
  assumes "sp_inv s" and "vars s v = Some (p, Released True k)" and "m_refrenceCounter p = Some c"
  shows "cSmartPtr_free_rest s v True ph =
      Inr ((drop_object s (m_object p) (m_destructionType p))\<lparr>counters := (counters s)(c := None),
        vars := (vars s)(v \<mapsto> (p\<lparr>m_refrenceCounter := None, m_object := None\<rparr>, ph))\<rparr>)"
proof -
  have i: "counts s" "owners s (tied (vars s))" using assms(1) by (simp_all add: sp_inv_def)
  have d: "v \<in> dyings (vars s) c" using assms(2,3) by (simp add: dyings_def)
  have "object_of (vars s) v = m_object p" using assms(2) by (simp add: object_of_def)
  then have "m_object p \<in> tied (vars s) c" using d unfolding tied_def by force
  then have "ob \<in> objects s" if "m_object p = Some ob" for ob
    using ownersD(9) [OF i(2)] that by simp
  then show ?thesis
    using assms(2,3) dying_cell(1) [OF i(1) assms(2,3)]
    by (cases "m_object p"; cases "m_destructionType p")
      (simp_all add: cSmartPtr_free_rest_def this_ptr_def delete_object_def delete_counter_def
        cCounter_getValue_def drop_object_def Let_def)
qed

lemma let_go_last:
  assumes "sp_inv s" and "vars s v = Some (p, Released True k)" and "m_refrenceCounter p = Some c"
    and "let_go (vars s) v V'"
  shows "sp_inv ((drop_object s (m_object p) m)\<lparr>counters := (counters s)(c := None), vars := V'\<rparr>)"
proof -
  have i: "counts s" "owners s (tied (vars s))" using assms(1) by (simp_all add: sp_inv_def)
  note d = dying_cell [OF i(1) assms(2,3)]
  have v: "v \<notin> refs (vars s) e \<and> v \<notin> dyings (vars s) e" if "e \<noteq> c" for e
    using one_counter [of "vars s" v p "Released True k" e] assms(2,3) that by simp
  have lc: "refs V' c = {}" "dyings V' c = {}" using d assms(4) by (auto simp: let_go_def)
  have "cell_ok V' ((counters s)(c := None)) (next_counter s) e" for e
  proof (cases "e = c")
    case False
    show ?thesis
      by (rule cell_ok_cong [OF countsD(4) [OF i(1)]])
        (use let_go_tied(1,2) [OF assms(4), of e] v [OF False] False in simp_all)
  qed (simp add: cell_ok_def lc)
  moreover have "tied V' e = (if e = c then {} else tied (vars s) e)" for e
    using let_go_tied(3) [OF assms(4), of e] v [of e] lc by (cases "e = c") (simp_all add: tied_def)
  moreover have "tied (vars s) c = {m_object p}"
    using assms(2) d by (simp add: tied_def object_of_def)
  moreover have "next_counter (drop_object s (m_object p) m) = next_counter s"
    by (simp add: drop_object_def split: option.splits)
  moreover have "finite (dom V')" "\<forall>u. var_ok V' u" using assms(4) by (simp_all add: let_go_def)
  ultimately show ?thesis
    using owners_drop [OF i(2), of c "m_object p" "tied V'" m] by (simp add: sp_inv_def counts_def)
qed

subsection \<open>The other steps\<close>

text \<open>The section that takes a reference, for a new pointer and for one that was cleared.\<close>

lemma take_inv:
  assumes "sp_inv s" and "stable (vars s) w"
    and "\<And>d. v \<notin> refs (vars s) d \<and> v \<notin> dyings (vars s) d"
  shows "cSmartPtr_take s v w = Inl UNDEFINED_BEHAVIOUR \<and> nat MAX_INT \<le> card (dom (vars s)) \<or>
           (\<exists>s'. cSmartPtr_take s v w = Inr s' \<and> sp_inv s')"
proof -
  obtain p where p: "vars s w = Some (p, Stable)" using assms(2) by (auto simp: stable_def)
  have i: "counts s" "owners s (tied (vars s))" using assms(1) by (simp_all add: sp_inv_def)
  obtain c where c: "m_refrenceCounter p = Some c" using has_counter [OF i(1) p] by blast
  note w = stable_cell [OF i(1) p c]
  let ?n = "card (refs (vars s) c)"
  let ?s = "s\<lparr>vars := (vars s)(v \<mapsto> (p, Stable)), counters := (counters s)(c \<mapsto> int ?n + 1)\<rparr>"
  have n: "?n \<le> card (dom (vars s))"
    using countsD(1) [OF i(1)] by (intro card_mono) (auto simp: refs_def)
  have e: "cSmartPtr_take s v w = (if int ?n = MAX_INT then Inl UNDEFINED_BEHAVIOUR else Inr ?s)"
    using p c w(2) by (simp add: cSmartPtr_take_def this_ptr_def cCounter_increase_def cCounter_getValue_def)
  have "sp_inv ?s"
  proof -
    have "\<forall>u. var_ok ((vars s)(v \<mapsto> (p, Stable))) u"
      by (rule var_ok_upd [OF countsD(2) [OF i(1)]]) (use c in \<open>auto simp: source_of_def\<close>)
    moreover have "cell_ok ((vars s)(v \<mapsto> (p, Stable))) ((counters s)(c \<mapsto> int ?n + 1)) (next_counter s) d" for d
    proof (cases "d = c")
      case True
      then show ?thesis
        using w(3,4) c assms(3) countsD(5) [OF i(1)] by (simp add: cell_ok_def)
    next
      case False
      then show ?thesis
        using assms(3) c by (intro cell_ok_other [OF countsD(4) [OF i(1)]]) simp_all
    qed
    moreover have "tied ((vars s)(v \<mapsto> (p, Stable))) = tied (vars s)"
    proof
      fix d
      show "tied ((vars s)(v \<mapsto> (p, Stable))) d = tied (vars s) d"
    proof (cases "d = c")
      case True
      have ob: "object_of (vars s) w = m_object p" using p by (simp add: object_of_def)
      have t: "m_object p \<in> tied (vars s) c" using w(1) unfolding tied_def ob [symmetric] by simp
      have e: "refs ((vars s)(v \<mapsto> (p, Stable))) c \<union> dyings ((vars s)(v \<mapsto> (p, Stable))) c =
          insert v (refs (vars s) c \<union> dyings (vars s) c)" using c w(3) by simp
      have "object_of ((vars s)(v \<mapsto> (p, Stable))) ` (refs (vars s) c \<union> dyings (vars s) c) = tied (vars s) c"
        unfolding tied_def by (rule object_image) (simp add: assms(3))
      then show ?thesis
        unfolding True tied_def [of "(vars s)(v \<mapsto> (p, Stable))"] e image_insert
        by (simp only: object_of_upd simp_thms if_True insert_absorb [OF t])
    next
      case False
      then show ?thesis using assms(3) c by (intro tied_other) simp_all
    qed
    qed
    ultimately show ?thesis
      using countsD(1) [OF i(1)] i(2) by (simp add: sp_inv_def counts_def)
  qed
  then show ?thesis using e n by (auto simp: MAX_INT_def)
qed

text \<open>A new pointer comes with a new counter.\<close>

lemma new_object_inv:
  assumes "sp_inv s" and "vars s v = None" and "set_option ob \<subseteq> raw s"
  shows "sp_inv (cSmartPtr_new_object s v ob m)"
proof -
  let ?c = "next_counter s" and ?p = "\<lparr>m_object = ob, m_refrenceCounter = Some (next_counter s), m_destructionType = m\<rparr>"
  let ?V = "(vars s)(v \<mapsto> (?p, Stable))"
  have i: "counts s" "owners s (tied (vars s))" using assms(1) by (simp_all add: sp_inv_def)
  have v: "v \<notin> refs (vars s) d" "v \<notin> dyings (vars s) d" for d using no_var [of "vars s" v, OF assms(2)] by simp_all
  note f = fresh_cell [OF i(1)]
  have a: "\<forall>u. var_ok ?V u"
    by (rule var_ok_upd [OF countsD(2) [OF i(1)]]) (auto simp: source_of_def)
  have b: "cell_ok ?V ((counters s)(?c \<mapsto> 1)) (?c + 1) d" for d
  proof (cases "d = ?c")
    case True
    then show ?thesis by (simp add: cell_ok_def f)
  next
    case False
    then show ?thesis using v by (intro cell_ok_other [OF countsD(4) [OF i(1)]]) simp_all
  qed
  have t: "tied ?V d = (if d = ?c then {ob} else tied (vars s) d)" for d
  proof (cases "d = ?c")
    case True
    then show ?thesis by (simp add: tied_def f)
  next
    case False
    then show ?thesis using v tied_other [of v "vars s" d ?p Stable] by simp
  qed
  have T: "Some x \<in> tied (vars s) d \<or> d = ?c \<and> ob = Some x" if "Some x \<in> tied ?V d" for x d
    using that by (simp add: t split: if_splits)
  have "owners (s\<lparr>raw := raw s - set_option ob\<rparr>) (tied ?V)"
  proof (rule ownersI)
    show "x = y" if "x \<in> tied ?V d" "y \<in> tied ?V d" for d x y
      using ownersD(1) [OF i(2)] that by (auto simp: t split: if_splits)
    show "d = d'" if "Some x \<in> tied ?V d" "Some x \<in> tied ?V d'" for d d' x
      using T [OF that(1)] T [OF that(2)] ownersD(2) [OF i(2), of x d d'] ownersD(3) [OF i(2), of x] assms(3) by auto
    show "x < next_object (s\<lparr>raw := raw s - set_option ob\<rparr>) \<and> x \<notin> raw (s\<lparr>raw := raw s - set_option ob\<rparr>) \<and>
        x \<notin> gone (s\<lparr>raw := raw s - set_option ob\<rparr>)" if "Some x \<in> tied ?V d" for x d
      using T [OF that] ownersD(3) [OF i(2), of x d] ownersD(4,5) [OF i(2)] assms(3) by auto
    show "x \<in> raw (s\<lparr>raw := raw s - set_option ob\<rparr>) \<or> x \<in> gone (s\<lparr>raw := raw s - set_option ob\<rparr>) \<or>
        (\<exists>d. Some x \<in> tied ?V d)" if "x < next_object (s\<lparr>raw := raw s - set_option ob\<rparr>)" for x
    proof -
      have "x < next_object s" using that by simp
      from ownersD(8) [OF i(2) this] consider "x \<in> raw s" | "x \<in> gone s" | d where "Some x \<in> tied (vars s) d" by blast
      then show ?thesis
      proof cases
        case 1
        then show ?thesis using t [of ?c] by (cases "ob = Some x") auto
      next
        case 3
        then have "d \<noteq> ?c" by (auto simp: tied_def f)
        then show ?thesis using 3 t [of d] by auto
      qed simp
    qed
  qed (use ownersD(4-7) [OF i(2)] in auto)
  then show ?thesis
    using a b countsD(1) [OF i(1)]
    by (simp add: sp_inv_def counts_def cSmartPtr_new_object_def new_cCounter_def owners_def)
qed

lemma new_ptr_inv:
  "sp_inv s \<Longrightarrow> vars s v = None \<Longrightarrow> sp_inv (cSmartPtr_new s v)"
  using new_object_inv [of s v None SMARTPTR_DESTRUCT_DELETE]
  by (simp add: cSmartPtr_new_def cSmartPtr_new_object_def new_cCounter_def)

lemma set_method_inv:
  assumes "sp_inv s" and "stable (vars s) v"
  shows "\<exists>s'. cSmartPtr_setDestructMethod s v m = Inr s' \<and> sp_inv s'"
proof -
  obtain p where p: "vars s v = Some (p, Stable)" using assms(2) by (auto simp: stable_def)
  have i: "counts s" "owners s (tied (vars s))" using assms(1) by (simp_all add: sp_inv_def)
  let ?V = "(vars s)(v \<mapsto> (p\<lparr>m_destructionType := m\<rparr>, Stable))"
  have r: "refs ?V = refs (vars s)" "dyings ?V = dyings (vars s)" "object_of ?V = object_of (vars s)"
    using p by (auto simp: fun_eq_iff refs_def dyings_def object_of_def)
  have "m_refrenceCounter p \<noteq> None" using has_counter [OF i(1) p] by fastforce
  then have "\<forall>u. var_ok ?V u"
    by (intro var_ok_upd [OF countsD(2) [OF i(1)]]) (auto simp: source_of_def)
  moreover have "cell_ok ?V (counters s) (next_counter s) d" for d
    by (rule cell_ok_cong [OF countsD(4) [OF i(1)]]) (simp_all only: r order_refl)
  moreover have "tied ?V = tied (vars s)" by (rule ext) (simp only: tied_def r)
  ultimately have "sp_inv (s\<lparr>vars := ?V\<rparr>)" using countsD(1) [OF i(1)] i(2) by (simp add: sp_inv_def counts_def)
  then show ?thesis using p by (simp add: cSmartPtr_setDestructMethod_def this_ptr_def)
qed

lemma new_raw_inv:
  assumes "sp_inv s"
  shows "sp_inv (s\<lparr>objects := insert (next_object s) (objects s), raw := insert (next_object s) (raw s),
            next_object := next_object s + 1\<rparr>)" (is "sp_inv ?s")
proof -
  have i: "counts s" "owners s (tied (vars s))" using assms(1) by (simp_all add: sp_inv_def)
  have "owners ?s (tied (vars s))"
  proof (rule ownersI)
    show "x = y" if "x \<in> tied (vars s) d" "y \<in> tied (vars s) d" for d x y using ownersD(1) [OF i(2)] that by blast
    show "d = d'" if "Some x \<in> tied (vars s) d" "Some x \<in> tied (vars s) d'" for d d' x
      using ownersD(2) [OF i(2)] that by blast
    show "x < next_object ?s \<and> x \<notin> raw ?s \<and> x \<notin> gone ?s" if "Some x \<in> tied (vars s) d" for x d
      using ownersD(3) [OF i(2) that] by auto
    show "x \<in> raw ?s \<or> x \<in> gone ?s \<or> (\<exists>d. Some x \<in> tied (vars s) d)" if "x < next_object ?s" for x
      using ownersD(8) [OF i(2), of x] that by (auto simp: less_Suc_eq)
    show "objects ?s = {..<next_object ?s} - {ob. \<exists>m. (ob, m) \<in> set (given_up ?s) \<and> m \<noteq> SMARTPTR_DESTRUCT_NONE}"
    proof -
      have "(next_object s, m) \<notin> set (given_up s)" for m using ownersD(4) [OF i(2)] by force
      then show ?thesis using ownersD(7) [OF i(2)] by (auto simp: less_Suc_eq)
    qed
  qed (use ownersD(4-6) [OF i(2)] in \<open>auto simp: less_Suc_eq\<close>)
  then show ?thesis using i(1) by (simp add: sp_inv_def counts_def)
qed

subsection \<open>Every step is safe and keeps the invariant\<close>

lemma pending_not_read:
  assumes "counts s" and "vars s v = Some (p, ph)" and "ph \<noteq> Stable"
  shows "\<not> being_read (vars s) v"
  using countsD(3) [OF assms(1)] assms(2,3)
  by (force simp: being_read_def var_ok_def stable_def split: option.splits)

lemma free_rest_False:
  assumes "vars s v = Some (p, Released False k)"
  shows "cSmartPtr_free_rest s v False ph =
      Inr (s\<lparr>vars := (vars s)(v \<mapsto> (p\<lparr>m_refrenceCounter := None, m_object := None\<rparr>, ph))\<rparr>)"
  using assms by (simp add: cSmartPtr_free_rest_def this_ptr_def)

lemma finish_free_inv:
  assumes "sp_inv s" and "vars s v = Some (p, Released b k)"
  shows "\<exists>s'. sp_exec s (FinishFree v) = Inr s' \<and> sp_inv s'"
proof -
  have i: "counts s" using assms(1) by (simp add: sp_inv_def)
  have nr: "\<not> being_read (vars s) v" by (rule pending_not_read [OF i assms(2)]) simp
  let ?V = "case k of ThenDestroyed \<Rightarrow> (vars s)(v := None)
    | ThenAssign w \<Rightarrow> (vars s)(v \<mapsto> (p\<lparr>m_refrenceCounter := None, m_object := None\<rparr>, Cleared w))"
  have l: "let_go (vars s) v ?V"
    using let_go_removed [OF i nr] let_go_cleared [OF i _ nr, of p b] assms(2) by (simp split: rest.splits)
  show ?thesis
  proof (cases b)
    case False
    have "sp_exec s (FinishFree v) = Inr (s\<lparr>vars := ?V\<rparr>)"
      using assms(2) free_rest_False [of s v p k] False by (simp split: rest.splits)
    then show ?thesis using let_go_other [OF assms(1) _ l, of p k] assms(2) False by simp
  next
    case True
    obtain c where c: "m_refrenceCounter p = Some c" using has_counter [OF i assms(2)] True by blast
    have "sp_exec s (FinishFree v) =
        Inr ((drop_object s (m_object p) (m_destructionType p))\<lparr>counters := (counters s)(c := None), vars := ?V\<rparr>)"
      using assms(2) free_rest_True [OF assms(1) _ c] True by (simp split: rest.splits)
    then show ?thesis
      using let_go_last [OF assms(1) _ c l, of k "m_destructionType p"] assms(2) True by simp
  qed
qed

lemma sp_step_inv:
  assumes "sp_inv s" and "allowed s a"
  shows "sp_exec s a = Inl UNDEFINED_BEHAVIOUR \<and> nat MAX_INT \<le> card (dom (vars s)) \<or>
           (\<exists>s'. sp_exec s a = Inr s' \<and> sp_inv s')"
proof (cases a)
  case NewObject
  then show ?thesis using new_raw_inv [OF assms(1)] by simp
next
  case (New v)
  then show ?thesis using new_ptr_inv [OF assms(1)] assms(2) by simp
next
  case (NewWith v ob m)
  then show ?thesis using new_object_inv [OF assms(1)] assms(2) by simp
next
  case (NewCopy v w)
  then have v: "vars s v = None" and w: "stable (vars s) w" using assms(2) by simp_all
  show ?thesis
    unfolding NewCopy sp_exec.simps cSmartPtr_new_copy_def
    by (rule take_inv [OF assms(1) w]) (rule no_var [of "vars s", OF v])
next
  case (SetMethod v m)
  then show ?thesis using set_method_inv [OF assms(1)] assms(2) by simp
next
  case (Destroy v)
  then show ?thesis using begin_free_inv [OF assms(1), of v ThenDestroyed] assms(2) by simp
next
  case (Assign v w)
  then show ?thesis using begin_free_inv [OF assms(1), of v "ThenAssign w"] assms by auto
next
  case (FinishFree v)
  then show ?thesis using finish_free_inv [OF assms(1), of v] assms(2) by auto
next
  case (FinishAssign v)
  then obtain p w where p: "vars s v = Some (p, Cleared w)" using assms(2) by auto
  have "counts s" using assms(1) by (simp add: sp_inv_def)
  from countsD(3) [OF this, of v] p have w: "stable (vars s) w" by (simp add: var_ok_def source_of_def)
  have "sp_exec s a = cSmartPtr_take s v w" using FinishAssign p by simp
  then show ?thesis
    using take_inv [OF assms(1) w, of v] p by (simp add: refs_def dyings_def)
qed

lemma sp_init_inv: "sp_inv sp_init"
  by (auto simp: sp_inv_def sp_init_def counts_def var_ok_def cell_ok_def owners_def tied_def refs_def dyings_def)

lemma sp_reach_inv: "sp_reach s \<Longrightarrow> sp_inv s"
proof (induction rule: sp_reach.induct)
  case init
  show ?case by (rule sp_init_inv)
next
  case (step s a s')
  then show ?case using sp_step_inv [OF step.IH, of a] by auto
qed

subsection \<open>What the pointers promise\<close>

text \<open>Without interruption the steps are the operations.\<close>

lemma destroy_steps:
  assumes "vars s v = Some (p, Stable)"
  shows "cSmartPtr_destroy s v =
      bind_res (sp_exec s (Destroy v)) (\<lambda>s. sp_exec s (FinishFree v))"
proof (cases "cCounter_decrease (counters s) (m_refrenceCounter p)")
  case (Inr r)
  then show ?thesis using assms
    by (cases r; cases "m_object p"; cases "m_destructionType p")
      (simp_all add: cSmartPtr_destroy_def cSmartPtr_free_def cSmartPtr_decreaseAndTest_def begin_free_def
        this_ptr_def cSmartPtr_free_rest_def delete_object_def delete_counter_def cCounter_getValue_def
        Let_def split: option.splits)
qed (use assms in \<open>simp add: cSmartPtr_destroy_def cSmartPtr_free_def cSmartPtr_decreaseAndTest_def
  begin_free_def this_ptr_def\<close>)

lemma assign_steps:
  assumes "vars s v = Some (p, Stable)" and "v \<noteq> w"
  shows "cSmartPtr_assign s v w =
      bind_res (sp_exec s (Assign v w)) (\<lambda>s. bind_res (sp_exec s (FinishFree v)) (\<lambda>s. sp_exec s (FinishAssign v)))"
proof (cases "cCounter_decrease (counters s) (m_refrenceCounter p)")
  case (Inr r)
  then show ?thesis using assms
    by (cases r; cases "m_object p"; cases "m_destructionType p")
      (simp_all add: cSmartPtr_assign_def cSmartPtr_free_def cSmartPtr_decreaseAndTest_def begin_free_def
        this_ptr_def cSmartPtr_free_rest_def delete_object_def delete_counter_def cCounter_getValue_def
        Let_def split: option.splits)
qed (use assms in \<open>simp add: cSmartPtr_assign_def cSmartPtr_free_def cSmartPtr_decreaseAndTest_def
  begin_free_def this_ptr_def\<close>)

lemma same_object:
  assumes "sp_inv s" and "vars s v = Some (p, Stable)" and "m_refrenceCounter p = Some c"
    and "m_object p = Some ob"
  shows "refs (vars s) c = {u. \<exists>q. vars s u = Some (q, Stable) \<and> m_object q = Some ob}" "ob \<in> objects s"
proof -
  have i: "counts s" "owners s (tied (vars s))" using assms(1) by (simp_all add: sp_inv_def)
  have t: "m_object q \<in> tied (vars s) d" if "vars s u = Some (q, Stable)" "m_refrenceCounter q = Some d" for u q d
  proof -
    have "object_of (vars s) u \<in> tied (vars s) d"
      unfolding tied_def by (rule imageI) (use that in \<open>simp add: refs_def\<close>)
    then show ?thesis using that(1) by (simp add: object_of_def)
  qed
  have p: "Some ob \<in> tied (vars s) c" using t [OF assms(2,3)] assms(4) by simp
  show "ob \<in> objects s" by (rule ownersD(9) [OF i(2) p])
  show "refs (vars s) c = {u. \<exists>q. vars s u = Some (q, Stable) \<and> m_object q = Some ob}"
  proof (intro set_eqI iffI)
    fix u assume "u \<in> refs (vars s) c"
    then obtain q where q: "vars s u = Some (q, Stable)" "m_refrenceCounter q = Some c" by (auto simp: refs_def)
    have "m_object q = Some ob" by (rule ownersD(1) [OF i(2) t [OF q] p])
    then show "u \<in> {u. \<exists>q. vars s u = Some (q, Stable) \<and> m_object q = Some ob}" using q by blast
  next
    fix u assume "u \<in> {u. \<exists>q. vars s u = Some (q, Stable) \<and> m_object q = Some ob}"
    then obtain q where q: "vars s u = Some (q, Stable)" "m_object q = Some ob" by blast
    obtain d where d: "m_refrenceCounter q = Some d" using has_counter [OF i(1) q(1)] by blast
    have "d = c" using t [OF q(1) d] unfolding q(2) by (rule ownersD(2) [OF i(2) _ p])
    then show "u \<in> refs (vars s) c" using q d by (auto simp: refs_def)
  qed
qed

text \<open>
  C2: whatever the threads do, in any order, as long as no pointer is used by two of them at once
  and less than \<open>2 ^ 31 - 1\<close> pointers exist, every step of the constructors, the destructor, the
  assignment and \<open>setDestructMethod\<close> is defined: no null counter and no deleted counter is used, no
  counter overflows, and no object is deleted that is gone.
\<close>

theorem smartptr_steps_defined:
  assumes "sp_reach s" and "allowed s a" and "card (dom (vars s)) < nat MAX_INT"
  shows "\<exists>s'. sp_exec s a = Inr s' \<and> sp_reach s'"
  using sp_step_inv [OF sp_reach_inv [OF assms(1)] assms(2)] sp_reach.step [OF assms(1,2)] assms(3) by auto

text \<open>One object with two pointers.\<close>

definition shared_ptr :: cSmartPtr where
  "shared_ptr = \<lparr>m_object = Some 0, m_refrenceCounter = Some 0, m_destructionType = SMARTPTR_DESTRUCT_DELETE\<rparr>"

definition shared_state :: sp_state where
  "shared_state =
     \<lparr>vars = [0 \<mapsto> (shared_ptr, Stable), 1 \<mapsto> (shared_ptr, Stable)], counters = [0 \<mapsto> 2],
       next_counter = 1, objects = {0}, next_object = 1, raw = {}, given_up = []\<rparr>"

lemma shared_state_reach: "sp_reach shared_state"
proof -
  obtain s1 where s1: "sp_exec sp_init NewObject = Inr s1" "sp_reach s1"
    using sp_reach.step [OF sp_reach.init, of NewObject] by simp
  obtain s2 where s2: "sp_exec s1 (NewWith 0 (Some 0) SMARTPTR_DESTRUCT_DELETE) = Inr s2" "sp_reach s2"
    using sp_reach.step [OF s1(2), of "NewWith 0 (Some 0) SMARTPTR_DESTRUCT_DELETE"] s1(1) by (force simp: sp_init_def)
  have v: "vars s2 = [0 \<mapsto> (\<lparr>m_object = Some 0, m_refrenceCounter = Some 0,
      m_destructionType = SMARTPTR_DESTRUCT_DELETE\<rparr>, Stable)]"
    using s1(1) s2(1) by (auto simp: sp_init_def cSmartPtr_new_object_def new_cCounter_def)
  have "sp_exec s2 (NewCopy 1 0) = Inr shared_state"
    using s1(1) s2(1)
    by (auto simp: sp_init_def cSmartPtr_new_object_def new_cCounter_def cSmartPtr_new_copy_def cSmartPtr_take_def
      this_ptr_def cCounter_increase_def cCounter_getValue_def MAX_INT_def shared_state_def shared_ptr_def)
  then show ?thesis using sp_reach.step [OF s2(2), of "NewCopy 1 0"] v by (simp add: stable_def)
qed

lemma shared_state_allowed: "allowed shared_state (Destroy 0)"
  by (auto simp: shared_state_def stable_def being_read_def source_of_def split: if_splits phase.splits rest.splits)

theorem smartptr_steps_defined_witness:
  "sp_reach shared_state \<and> allowed shared_state (Destroy 0) \<and>
   (\<exists>s'. sp_exec shared_state (Destroy 0) = Inr s' \<and> sp_reach s')"
proof -
  have "dom (vars shared_state) = {0, 1}" by (auto simp: shared_state_def)
  then have "card (dom (vars shared_state)) < nat MAX_INT" by (simp add: MAX_INT_def)
  then show ?thesis
    using smartptr_steps_defined [OF shared_state_reach shared_state_allowed] shared_state_reach shared_state_allowed
    by blast
qed

text \<open>
  The lock does not protect the pointer itself: a thread that copies a pointer which another
  thread is destroying takes the counter after it reached zero.
\<close>

lemma copy_while_destroyed:
  "\<exists>s1 s2. sp_exec (cSmartPtr_new sp_init 0) (Destroy 0) = Inr s1 \<and> sp_exec s1 (FinishFree 0) = Inr s2 \<and>
     cSmartPtr_getCounter s2 (fst (the (vars s1 0))) = Inl UNDEFINED_BEHAVIOUR \<and>
     (\<exists>s3. sp_exec s1 (NewCopy 1 0) = Inr s3 \<and> (\<exists>s4. sp_exec s3 (FinishFree 0) = Inr s4 \<and>
        sp_exec s4 (Destroy 1) = Inl UNDEFINED_BEHAVIOUR))"
  by (simp add: sp_init_def cSmartPtr_new_def new_cCounter_def begin_free_def cSmartPtr_decreaseAndTest_def
    this_ptr_def cCounter_decrease_def cCounter_increase_def cCounter_getValue_def MAX_INT_def cSmartPtr_free_rest_def
    delete_counter_def cSmartPtr_getCounter_def cSmartPtr_new_copy_def cSmartPtr_take_def)

lemma counted_pointers:
  assumes s: "sp_inv s" and p: "vars s v = Some (p, Stable)" "m_object p = Some ob"
  shows "ob \<in> objects s" "cSmartPtr_getCounter s p =
      Inr (int (card {u. \<exists>q. vars s u = Some (q, Stable) \<and> cSmartPtr_getPointer q = Some ob}))"
proof -
  have i: "counts s" using s by (simp add: sp_inv_def)
  obtain c where c: "m_refrenceCounter p = Some c" using has_counter [OF i p(1)] by blast
  note o = same_object [OF s p(1) c p(2)]
  show "ob \<in> objects s" by (rule o(2))
  show "cSmartPtr_getCounter s p =
      Inr (int (card {u. \<exists>q. vars s u = Some (q, Stable) \<and> cSmartPtr_getPointer q = Some ob}))"
    using stable_cell(2) [OF i p(1) c] c o(1)
    by (simp add: cSmartPtr_getCounter_def cCounter_getValue_def cSmartPtr_getPointer_def)
qed

lemma no_pointers:
  assumes s: "sp_inv s" and that: "vars s = Map.empty"
  shows "counters s = Map.empty \<and> {..<next_object s} = raw s \<union> gone s \<and> raw s \<inter> gone s = {} \<and>
    objects s = raw s \<union> {ob. (ob, SMARTPTR_DESTRUCT_NONE) \<in> set (given_up s)}"
proof -
  have i: "counts s" "owners s (tied (vars s))" using s by (simp_all add: sp_inv_def)
  have e: "refs (vars s) c = {}" "dyings (vars s) c = {}" "tied (vars s) c = {}" for c
    using that by (simp_all add: refs_def dyings_def tied_def)
  have "counters s c = None" for c
    using countsD(4) [OF i(1), of c] by (auto simp: cell_ok_def e split: option.splits)
  then have c: "counters s = Map.empty" by (rule ext)
  have r: "{..<next_object s} = raw s \<union> gone s"
  proof
    show "{..<next_object s} \<subseteq> raw s \<union> gone s" using ownersD(8) [OF i(2)] by (auto simp: e)
  qed (rule ownersD(4) [OF i(2)])
  have d: "m = m'" if "(ob, m) \<in> set (given_up s)" "(ob, m') \<in> set (given_up s)" for ob m m'
    using ownersD(6) [OF i(2)] that by (meson eq_key_imp_eq_value)
  have "objects s = raw s \<union> {ob. (ob, SMARTPTR_DESTRUCT_NONE) \<in> set (given_up s)}"
  proof (intro set_eqI iffI)
    fix ob assume "ob \<in> objects s"
    then have o: "ob \<in> raw s \<union> gone s" "\<forall>m. (ob, m) \<in> set (given_up s) \<longrightarrow> m = SMARTPTR_DESTRUCT_NONE"
      unfolding ownersD(7) [OF i(2)] r by auto
    then show "ob \<in> raw s \<union> {ob. (ob, SMARTPTR_DESTRUCT_NONE) \<in> set (given_up s)}" by auto
  next
    fix ob assume o: "ob \<in> raw s \<union> {ob. (ob, SMARTPTR_DESTRUCT_NONE) \<in> set (given_up s)}"
    then have "ob \<in> raw s \<union> gone s" by force
    moreover have "m = SMARTPTR_DESTRUCT_NONE" if "(ob, m) \<in> set (given_up s)" for m
    proof -
      have "ob \<notin> raw s" using ownersD(5) [OF i(2)] that by force
      then show ?thesis using o d [OF that] by blast
    qed
    ultimately show "ob \<in> objects s" unfolding ownersD(7) [OF i(2)] r by blast
  qed
  then show ?thesis using c r ownersD(5) [OF i(2)] by (intro conjI)
qed

text \<open>
  C3: the counter of a pointer in use is the number of pointers in use that name its object, and
  the object exists. An object is given up at most once, and when no pointer is left there is no
  counter, and every object that a pointer was made for was given up.
\<close>

theorem smartptr_counts:
  assumes "sp_reach s"
  shows "(\<forall>v p ob. vars s v = Some (p, Stable) \<and> m_object p = Some ob \<longrightarrow> ob \<in> objects s \<and>
            cSmartPtr_getCounter s p =
              Inr (int (card {u. \<exists>q. vars s u = Some (q, Stable) \<and> cSmartPtr_getPointer q = Some ob}))) \<and>
         distinct (map fst (given_up s)) \<and>
         (vars s = Map.empty \<longrightarrow> counters s = Map.empty \<and>
            {..<next_object s} = raw s \<union> fst ` set (given_up s) \<and> raw s \<inter> fst ` set (given_up s) = {} \<and>
            objects s = raw s \<union> {ob. (ob, SMARTPTR_DESTRUCT_NONE) \<in> set (given_up s)})"
proof -
  have s: "sp_inv s" by (rule sp_reach_inv [OF assms])
  then have "owners s (tied (vars s))" by (simp add: sp_inv_def)
  then show ?thesis
    using counted_pointers [OF s] no_pointers [OF s] ownersD(6) [of s]
    by (intro conjI allI impI; (elim conjE)?) simp_all
qed

theorem smartptr_counts_witness:
  "sp_reach shared_state \<and> 0 \<in> objects shared_state \<and>
   cSmartPtr_getCounter shared_state shared_ptr = Inr 2"
proof -
  have v: "vars shared_state 0 = Some (shared_ptr, Stable)" "m_object shared_ptr = Some 0"
    by (simp_all add: shared_state_def shared_ptr_def)
  have "{u. \<exists>q. vars shared_state u = Some (q, Stable) \<and> cSmartPtr_getPointer q = Some 0} = {0, 1}"
    by (auto simp: shared_state_def shared_ptr_def cSmartPtr_getPointer_def split: if_splits)
  then show ?thesis
    using conjunct1 [OF smartptr_counts [OF shared_state_reach]] v shared_state_reach by force
qed

end
