(* ===== verification/XMemoryAccess.thy ===== *)
theory XMemoryAccess
  imports XMemoryStream XDataStream
begin

text \<open>
  Virtual memory: the interface \<open>cVirtualMemoryAccesser\<close>, its implementation on the memory of the
  process (\<open>cThreadUnsafeMemoryAccesser\<close>) and on a buffer (\<open>cStreamMemoryAccesser\<close>), the list of
  holes \<open>cFragmentsDescriptor\<close> (os/*.cpp), and the stream over an accesser
  (stream/memoryAccesserStream.cpp).
\<close>

subsection \<open>The memory of the process\<close>

text \<open>Addresses that are not mapped are \<open>None\<close>; touching one is undefined behaviour.\<close>

type_synonym process_memory = "uint64 \<Rightarrow> uint8 option"

fun mem_get :: "process_memory \<Rightarrow> uint64 \<Rightarrow> nat \<Rightarrow> uint8 list res" where
  "mem_get M a 0 = Inr []"
| "mem_get M a (Suc n) =
     (case M a of None \<Rightarrow> Inl UNDEFINED_BEHAVIOUR
      | Some b \<Rightarrow> bind_res (mem_get M (a + 1) n) (\<lambda>bs. Inr (b # bs)))"

fun mem_put :: "process_memory \<Rightarrow> uint64 \<Rightarrow> uint8 list \<Rightarrow> process_memory res" where
  "mem_put M a [] = Inr M"
| "mem_put M a (b # bs) =
     (case M a of None \<Rightarrow> Inl UNDEFINED_BEHAVIOUR | Some _ \<Rightarrow> mem_put (M(a \<mapsto> b)) (a + 1) bs)"

definition MAX_PHYSICAL_ADDRESS :: uint64 where
  "MAX_PHYSICAL_ADDRESS = -1"

subsection \<open>Holes\<close>

record MemoryRange =
  m_start :: remoteAddressNumericValue
  m_end :: remoteAddressNumericValue

type_synonym fragments = "MemoryRange list"

definition cFragmentsDescriptor_new :: fragments where
  "cFragmentsDescriptor_new = []"

fun cFragmentsDescriptor_isMemoryValid :: "fragments \<Rightarrow> remoteAddressNumericValue \<Rightarrow> bool res" where
  "cFragmentsDescriptor_isMemoryValid [] address = Inr True"
| "cFragmentsDescriptor_isMemoryValid (i # is) address =
     bind_res (remoteAddress_isInsideRange address (m_start i) (m_end i)) (\<lambda>b.
     if b then Inr False else cFragmentsDescriptor_isMemoryValid is address)"

definition cFragmentsDescriptor_appendFragmentBlock ::
  "fragments \<Rightarrow> remoteAddressNumericValue \<Rightarrow> remoteAddressNumericValue \<Rightarrow> fragments"
where
  "cFragmentsDescriptor_appendFragmentBlock f start end = f @ [\<lparr>m_start = start, m_end = end\<rparr>]"

definition cFragmentsDescriptor_getFragmentation :: "fragments \<Rightarrow> fragments" where
  "cFragmentsDescriptor_getFragmentation f = f"

definition MemoryRange_serialize :: "'s basicIO \<Rightarrow> addressCoding \<Rightarrow> 's \<Rightarrow> MemoryRange \<Rightarrow> 's run" where
  "MemoryRange_serialize ops c s r =
     run_bind (streamWriteRemoteAddress ops c s (m_start r)) (\<lambda>s.
     streamWriteRemoteAddress ops c s (m_end r))"

definition MemoryRange_deserialize :: "'s basicIO \<Rightarrow> addressCoding \<Rightarrow> 's \<Rightarrow> (MemoryRange \<times> 's) run" where
  "MemoryRange_deserialize ops c s =
     run_bind (streamReadRemoteAddress ops c s) (\<lambda>(a, s).
     run_bind (streamReadRemoteAddress ops c s) (\<lambda>(b, s).
     ok (\<lparr>m_start = a, m_end = b\<rparr>, s)))"

fun fragments_write_loop :: "'s basicIO \<Rightarrow> addressCoding \<Rightarrow> 's \<Rightarrow> fragments \<Rightarrow> 's run" where
  "fragments_write_loop ops c s [] = ok s"
| "fragments_write_loop ops c s (i # is) =
     run_bind (MemoryRange_serialize ops c s i) (\<lambda>s. fragments_write_loop ops c s is)"

definition cFragmentsDescriptor_serialize :: "'s basicIO \<Rightarrow> addressCoding \<Rightarrow> 's \<Rightarrow> fragments \<Rightarrow> 's run" where
  "cFragmentsDescriptor_serialize ops c s f =
     (let count = length f in
      run_bind (of_res (CHECK (count \<le> 0xFFFF))) (\<lambda>_.
      run_bind (streamWriteUint16 ops s (word_of_nat count)) (\<lambda>s.
      fragments_write_loop ops c s f)))"

fun fragments_read_loop :: "'s basicIO \<Rightarrow> addressCoding \<Rightarrow> 's \<Rightarrow> fragments \<Rightarrow> nat \<Rightarrow> (fragments \<times> 's) run" where
  "fragments_read_loop ops c s f 0 = ok (f, s)"
| "fragments_read_loop ops c s f (Suc k) =
     run_bind (MemoryRange_deserialize ops c s) (\<lambda>(newRange, s).
     fragments_read_loop ops c s (f @ [newRange]) k)"

text \<open>The ranges that were there are removed.\<close>

definition cFragmentsDescriptor_deserialize ::
  "'s basicIO \<Rightarrow> addressCoding \<Rightarrow> 's \<Rightarrow> fragments \<Rightarrow> (fragments \<times> 's) run"
where
  "cFragmentsDescriptor_deserialize ops c s f =
     run_bind (streamReadUint16 ops s) (\<lambda>(count, s). fragments_read_loop ops c s [] (unat count))"

subsection \<open>The interface of an accesser\<close>

text \<open>
  \<open>memread\<close> answers whether all bytes were read and gives what it stored in the buffer, with
  \<open>None\<close> for a byte it did not store, and the holes with the ones it found.
\<close>

record 'a accesser =
  a_memread :: "'a \<Rightarrow> uint64 \<Rightarrow> nat \<Rightarrow> fragments option \<Rightarrow> (bool \<times> uint8 option list \<times> fragments option) res"
  a_write :: "'a \<Rightarrow> uint64 \<Rightarrow> uint8 list \<Rightarrow> (bool \<times> 'a) res"
  a_isWritableInterface :: bool

text \<open>Using a byte of the buffer that was not stored is undefined behaviour.\<close>

definition stored :: "uint8 option list \<Rightarrow> uint8 list res" where
  "stored bs = (if None \<in> set bs then Inl UNDEFINED_BEHAVIOUR else Inr (map the bs))"

text \<open>A \<open>uint\<close> has 64 bits here, but \<open>readUint\<close> reads 32.\<close>

definition cVirtualMemoryAccesser_readUint :: "'a accesser \<Rightarrow> 'a \<Rightarrow> uint64 \<Rightarrow> uint64 res" where
  "cVirtualMemoryAccesser_readUint acc m address =
     bind_res (a_memread acc m address 4 None) (\<lambda>(success, buf, _).
     if \<not> success then Inl EXCEPTION_OUT_OF_RANGE
     else bind_res (stored buf) (\<lambda>buf. Inr (ucast (cEndian_readUint32 buf True))))"

definition cVirtualMemoryAccesser_writeUint :: "'a accesser \<Rightarrow> 'a \<Rightarrow> uint64 \<Rightarrow> uint64 \<Rightarrow> 'a res" where
  "cVirtualMemoryAccesser_writeUint acc m address v =
     bind_res (a_write acc m address (cEndian_writeUint64 (replicate 8 0) v True)) (\<lambda>(success, m).
     if \<not> success then Inl EXCEPTION_OUT_OF_RANGE else Inr m)"

definition cVirtualMemoryAccesser_at :: "'a accesser \<Rightarrow> 'a \<Rightarrow> uint64 \<Rightarrow> uint8 res" where
  "cVirtualMemoryAccesser_at acc m address =
     bind_res (a_memread acc m address 1 None) (\<lambda>(success, ret, _).
     if \<not> success then Inl EXCEPTION_OUT_OF_RANGE else bind_res (stored ret) (\<lambda>ret. Inr (hd ret)))"

subsection \<open>The memory of this process\<close>

record cThreadUnsafeMemoryAccesser =
  m_memory :: process_memory
  m_startAddress :: uint64
  m_endAddress :: uint64
  m_virtualBase :: "uint64 option"

text \<open>\<open>m_virtualBase\<close> is \<open>None\<close> when \<open>m_isVirtualRelocation\<close> is false.\<close>

definition cThreadUnsafeMemoryAccesser_new ::
  "process_memory \<Rightarrow> uint64 \<Rightarrow> uint64 \<Rightarrow> cThreadUnsafeMemoryAccesser"
where
  "cThreadUnsafeMemoryAccesser_new M startAddress endAddress =
     \<lparr>m_memory = M, m_startAddress = startAddress, m_endAddress = endAddress, m_virtualBase = None\<rparr>"

definition cThreadUnsafeMemoryAccesser_new_virtual ::
  "process_memory \<Rightarrow> uint64 \<Rightarrow> uint64 \<Rightarrow> uint64 \<Rightarrow> cThreadUnsafeMemoryAccesser"
where
  "cThreadUnsafeMemoryAccesser_new_virtual M startAddress endAddress virtualBase =
     \<lparr>m_memory = M, m_startAddress = startAddress, m_endAddress = endAddress, m_virtualBase = Some virtualBase\<rparr>"

text \<open>The sum in the test for an overflow is a 64 bit sum itself and wraps around.\<close>

definition cThreadUnsafeMemoryAccesser_getAddress :: "cThreadUnsafeMemoryAccesser \<Rightarrow> uint64 \<Rightarrow> uint64 res" where
  "cThreadUnsafeMemoryAccesser_getAddress m address =
     (case m_virtualBase m of
        Some base \<Rightarrow>
          bind_res (CHECK (address \<ge> base)) (\<lambda>_.
          let ret = address - base in
          bind_res (CHECK (ret + m_startAddress m < MAX_PHYSICAL_ADDRESS)) (\<lambda>_.
          let ret = ret + m_startAddress m in
          bind_res (CHECK (ret \<le> m_endAddress m)) (\<lambda>_. Inr ret)))
      | None \<Rightarrow>
          bind_res (CHECK (address + m_startAddress m < MAX_PHYSICAL_ADDRESS)) (\<lambda>_.
          let ret = address + m_startAddress m in
          bind_res (CHECK (ret \<le> m_endAddress m)) (\<lambda>_. Inr ret)))"

definition cThreadUnsafeMemoryAccesser_memread ::
  "cThreadUnsafeMemoryAccesser \<Rightarrow> uint64 \<Rightarrow> nat \<Rightarrow> fragments option \<Rightarrow> (bool \<times> uint8 option list \<times> fragments option) res"
where
  "cThreadUnsafeMemoryAccesser_memread m address len fragments =
     (if len = 0 then Inr (True, [], fragments)
      else
        bind_res (cThreadUnsafeMemoryAccesser_getAddress m (address + word_of_nat len - 1)) (\<lambda>_.
        bind_res (cThreadUnsafeMemoryAccesser_getAddress m address) (\<lambda>p.
        bind_res (mem_get (m_memory m) p len) (\<lambda>bs. Inr (True, map Some bs, fragments)))))"

definition cThreadUnsafeMemoryAccesser_write ::
  "cThreadUnsafeMemoryAccesser \<Rightarrow> uint64 \<Rightarrow> uint8 list \<Rightarrow> (bool \<times> cThreadUnsafeMemoryAccesser) res"
where
  "cThreadUnsafeMemoryAccesser_write m address buffer =
     (if length buffer = 0 then Inr (True, m)
      else
        bind_res (cThreadUnsafeMemoryAccesser_getAddress m (address + word_of_nat (length buffer) - 1)) (\<lambda>_.
        bind_res (cThreadUnsafeMemoryAccesser_getAddress m address) (\<lambda>p.
        bind_res (mem_put (m_memory m) p buffer) (\<lambda>M. Inr (True, m\<lparr>m_memory := M\<rparr>)))))"

definition thread_accesser :: "cThreadUnsafeMemoryAccesser accesser" where
  "thread_accesser =
     \<lparr>a_memread = cThreadUnsafeMemoryAccesser_memread, a_write = cThreadUnsafeMemoryAccesser_write,
      a_isWritableInterface = True\<rparr>"

text \<open>A buffer of \<open>n\<close> bytes that the process holds at the address \<open>a\<close>.\<close>

definition cStreamMemoryAccesser_updateStreamBoundries ::
  "cThreadUnsafeMemoryAccesser \<Rightarrow> uint64 \<Rightarrow> nat \<Rightarrow> cThreadUnsafeMemoryAccesser"
where
  "cStreamMemoryAccesser_updateStreamBoundries m a n =
     m\<lparr>m_startAddress := a, m_endAddress := a + word_of_nat n\<rparr>"

definition cStreamMemoryAccesser_new :: "process_memory \<Rightarrow> uint64 \<Rightarrow> nat \<Rightarrow> cThreadUnsafeMemoryAccesser" where
  "cStreamMemoryAccesser_new M a n =
     cStreamMemoryAccesser_updateStreamBoundries
       (cThreadUnsafeMemoryAccesser_new M 0 MAX_PHYSICAL_ADDRESS) a n"

subsection \<open>The stream over an accesser\<close>

record 'a cMemoryAccesserStream =
  m_accesser :: 'a
  m_position :: uint64
  m_startOffset :: uint64
  m_endOffset :: uint64
  m_ignoreFragments :: bool

definition cMemoryAccesserStream_new ::
  "'a \<Rightarrow> uint64 \<Rightarrow> uint64 \<Rightarrow> bool \<Rightarrow> bool \<Rightarrow> 'a cMemoryAccesserStream res"
where
  "cMemoryAccesserStream_new memory startAddress endAddress ignoreFragments isFix =
     bind_res (CHECK isFix) (\<lambda>_.
     bind_res (CHECK (endAddress \<ge> startAddress)) (\<lambda>_.
     Inr \<lparr>m_accesser = memory, m_position = startAddress, m_startOffset = startAddress,
       m_endOffset = endAddress, m_ignoreFragments = ignoreFragments\<rparr>))"

text \<open>The copy constructor leaves \<open>m_ignoreFragments\<close> as the memory was.\<close>

definition cMemoryAccesserStream_new_copy :: "'a cMemoryAccesserStream \<Rightarrow> bool \<Rightarrow> 'a cMemoryAccesserStream" where
  "cMemoryAccesserStream_new_copy other junk =
     \<lparr>m_accesser = m_accesser other, m_position = m_position other, m_startOffset = m_startOffset other,
       m_endOffset = m_endOffset other, m_ignoreFragments = junk\<rparr>"

definition cMemoryAccesserStream_fork :: "'a cMemoryAccesserStream \<Rightarrow> bool \<Rightarrow> 'a cMemoryAccesserStream" where
  "cMemoryAccesserStream_fork s junk = cMemoryAccesserStream_new_copy s junk"

definition cMemoryAccesserStream_forkRegion ::
  "'a cMemoryAccesserStream \<Rightarrow> uint64 \<Rightarrow> uint64 \<Rightarrow> 'a cMemoryAccesserStream res"
where
  "cMemoryAccesserStream_forkRegion s virtualStart virtualEnd =
     cMemoryAccesserStream_new (m_accesser s) (virtualStart + m_startOffset s) (virtualEnd + m_startOffset s)
       False True"

definition cMemoryAccesserStream_getPointer :: "'a cMemoryAccesserStream \<Rightarrow> nat" where
  "cMemoryAccesserStream_getPointer s = unat (m_position s - m_startOffset s)"

definition cMemoryAccesserStream_length :: "'a cMemoryAccesserStream \<Rightarrow> nat" where
  "cMemoryAccesserStream_length s = unat (m_endOffset s - m_startOffset s)"

definition cMemoryAccesserStream_isEOS :: "'a cMemoryAccesserStream \<Rightarrow> bool" where
  "cMemoryAccesserStream_isEOS s \<longleftrightarrow> m_position s = m_endOffset s"

definition cMemoryAccesserStream_flush :: "'a cMemoryAccesserStream \<Rightarrow> 'a cMemoryAccesserStream run" where
  "cMemoryAccesserStream_flush s = ok s"

text \<open>With \<open>m_ignoreFragments\<close> the buffer is cleared first, so a byte that is not stored is zero.\<close>

definition cMemoryAccesserStream_read ::
  "'a accesser \<Rightarrow> 'a cMemoryAccesserStream \<Rightarrow> nat \<Rightarrow> (uint8 list \<times> 'a cMemoryAccesserStream) run"
where
  "cMemoryAccesserStream_read acc s len =
     (if len = 0 then ok ([], s)
      else
        let sread = t_min (unat (m_endOffset s - m_position s)) len in
        run_bind (of_res (CHECK (sread \<noteq> 0))) (\<lambda>_.
        run_bind (of_res (a_memread acc (m_accesser s) (m_position s) sread None)) (\<lambda>(success, buffer, _).
        if \<not> m_ignoreFragments s \<and> \<not> success then throw EXCEPTION_ASSERTION
        else
          run_bind (of_res (if m_ignoreFragments s then Inr (map (\<lambda>b. case b of None \<Rightarrow> 0 | Some x \<Rightarrow> x) buffer)
                            else stored buffer)) (\<lambda>buffer.
          ok (buffer, s\<lparr>m_position := m_position s + word_of_nat sread\<rparr>)))))"

definition cMemoryAccesserStream_isStreamWriteable :: "'a accesser \<Rightarrow> bool" where
  "cMemoryAccesserStream_isStreamWriteable acc = a_isWritableInterface acc"

definition cMemoryAccesserStream_write ::
  "'a accesser \<Rightarrow> 'a cMemoryAccesserStream \<Rightarrow> uint8 list \<Rightarrow> (nat \<times> 'a cMemoryAccesserStream) run"
where
  "cMemoryAccesserStream_write acc s buffer =
     run_bind (of_res (CHECK (cMemoryAccesserStream_isStreamWriteable acc))) (\<lambda>_.
     if length buffer = 0 then ok (0, s)
     else
       let swrite = t_min (unat (m_endOffset s - m_position s)) (length buffer) in
       run_bind (of_res (CHECK (swrite \<noteq> 0))) (\<lambda>_.
       run_bind (of_res (a_write acc (m_accesser s) (m_position s) (take swrite buffer))) (\<lambda>(success, m).
       if \<not> success then throw EXCEPTION_ASSERTION
       else ok (swrite, s\<lparr>m_accesser := m, m_position := m_position s + word_of_nat swrite\<rparr>))))"

text \<open>A distance is a 32 bit \<open>int\<close> that is extended to 64 bits; the negation of the least one overflows.\<close>

definition cMemoryAccesserStream_seek ::
  "'a cMemoryAccesserStream \<Rightarrow> uint32 \<Rightarrow> seekMethod \<Rightarrow> 'a cMemoryAccesserStream run"
where
  "cMemoryAccesserStream_seek s distance method =
     (if \<not> canSeek True True True True distance method then throw EXCEPTION_SEEK_ERROR
      else
        let pos = m_position s - m_startOffset s;
            len = m_endOffset s - m_startOffset s;
            d = scast distance :: uint64
        in run_bind (of_res
          (case method of
             IO_SEEK_SET \<Rightarrow> Inr (if sint distance \<le> 0 then 0 else t_min d len)
           | IO_SEEK_CUR \<Rightarrow>
               if sint distance = - (2 ^ 31) then Inl UNDEFINED_BEHAVIOUR
               else if sint distance < 0 \<and> - d > pos then Inr 0
               else Inr (t_min (pos + d) len)
           | IO_SEEK_END \<Rightarrow>
               if sint distance = - (2 ^ 31) then Inl UNDEFINED_BEHAVIOUR
               else if sint distance < 0 \<and> - d > len then Inr 0
               else Inr (len + d))) (\<lambda>pos.
        ok (s\<lparr>m_position := pos + m_startOffset s\<rparr>)))"

definition cMemoryAccesserStream_io :: "'a accesser \<Rightarrow> 'a cMemoryAccesserStream basicIO" where
  "cMemoryAccesserStream_io acc =
     \<lparr>v_read = cMemoryAccesserStream_read acc, v_write = cMemoryAccesserStream_write acc,
      v_flush = cMemoryAccesserStream_flush, v_isEOS = cMemoryAccesserStream_isEOS,
      v_seek = cMemoryAccesserStream_seek, v_length = cMemoryAccesserStream_length,
      v_getPointer = cMemoryAccesserStream_getPointer, v_getPipeReadBestRequest = 4096, v_isLittleEndian = True,
      canLength = True, canSeekFromBegin = True, canSeekForward = True, canSeekBackward = True,
      canSeekFromEnd = True, canGetPointer = True\<rparr>"

subsection \<open>The holes on a stream\<close>

definition range_items :: "fragments \<Rightarrow> item list" where
  "range_items f = concat (map (\<lambda>r. [ItemAddress (m_start r), ItemAddress (m_end r)]) f)"

lemma run_bind_cong_ok: "(\<And>x. f x = g x) \<Longrightarrow> run_bind m f = run_bind m g"
  by (metis ext)

lemma write_loop_items: "fragments_write_loop ops c s f = write_items ops c s (range_items f)"
proof (induction f arbitrary: s)
  case (Cons r f)
  then show ?case by (simp add: range_items_def MemoryRange_serialize_def run_bind_assoc)
qed (simp add: range_items_def)

lemma serialize_items:
  "length f \<le> 0xFFFF \<Longrightarrow>
     cFragmentsDescriptor_serialize ops c s f = write_items ops c s (Item16 (word_of_nat (length f)) # range_items f)"
  by (simp add: cFragmentsDescriptor_serialize_def write_loop_items Let_def)

definition range_ok :: "addressCoding \<Rightarrow> MemoryRange \<Rightarrow> bool" where
  "range_ok c r \<longleftrightarrow> is_valid_type (coded_type c (m_start r)) \<and> is_valid_type (coded_type c (m_end r))"

text \<open>What is read back: an address keeps the bits and the type of its encoding.\<close>

definition coded :: "addressCoding \<Rightarrow> remoteAddressNumericValue \<Rightarrow> remoteAddressNumericValue" where
  "coded c a = \<lparr>m_union = clipped (coded_type c a) (m_union a), m_type = coded_type c a\<rparr>"

definition range_read :: "addressCoding \<Rightarrow> MemoryRange \<Rightarrow> MemoryRange" where
  "range_read c r = \<lparr>m_start = coded c (m_start r), m_end = coded c (m_end r)\<rparr>"

lemma range_items_ok: "list_all (range_ok c) f \<Longrightarrow> list_all (item_ok c) (range_items f)"
  by (induction f) (auto simp: range_items_def range_ok_def)

context input_stream
begin

lemma fragments_read_loop_got:
  "valid s \<Longrightarrow> list_all (range_ok c) f \<Longrightarrow>
   rest s = concat (map (item_bytes (v_isLittleEndian ops) c) (range_items f)) @ r \<Longrightarrow>
     yields (fragments_read_loop ops c s g (length f)) (got valid rest (g @ map (range_read c) f) r)"
proof (induction f arbitrary: s g)
  case (Cons x f)
  let ?b = "\<lambda>a. item_bytes (v_isLittleEndian ops) c (ItemAddress a)"
  let ?r = "concat (map (item_bytes (v_isLittleEndian ops) c) (range_items f)) @ r"
  have items: "range_items (x # f) = ItemAddress (m_start x) # ItemAddress (m_end x) # range_items f"
    by (simp add: range_items_def)
  have one: "yields (streamReadRemoteAddress ops c s) (got valid rest (coded c a) q)"
    if "valid s" "rest s = ?b a @ q" "is_valid_type (coded_type c a)" for s a q
  proof -
    have "yields (read_items ops c s [ItemAddress a]) (got valid rest (map (item_read c) [ItemAddress a]) q)"
      by (rule read_items_got) (use that in simp_all)
    then show ?thesis
      by (cases "streamReadRemoteAddress ops c s")
        (auto simp: yields_def run_bind_def throw_def ok_def coded_def split: sum.splits)
  qed
  have v: "is_valid_type (coded_type c (m_start x))" "is_valid_type (coded_type c (m_end x))" "list_all (range_ok c) f"
    using Cons.prems(2) by (simp_all add: range_ok_def [of c x])
  have D: "yields (MemoryRange_deserialize ops c s) (got valid rest (range_read c x) ?r)"
    unfolding MemoryRange_deserialize_def
  proof (rule yields_bind [OF one [OF Cons.prems(1) _ v(1), of "?b (m_end x) @ ?r"]])
    show "rest s = ?b (m_start x) @ ?b (m_end x) @ ?r" using Cons.prems(3) by (simp add: items)
    fix y assume y: "got valid rest (coded c (m_start x)) (?b (m_end x) @ ?r) y"
    then obtain t where t: "y = (coded c (m_start x), t)" "valid t" "rest t = ?b (m_end x) @ ?r" by (cases y) simp
    have "yields (run_bind (streamReadRemoteAddress ops c t) (\<lambda>(b, s). ok (\<lparr>m_start = coded c (m_start x), m_end = b\<rparr>, s)))
        (got valid rest (range_read c x) ?r)"
      by (rule yields_bind [OF one [OF t(2,3) v(2)]]) (auto simp: got_def range_read_def)
    then show "yields (case y of (a, s) \<Rightarrow> run_bind (streamReadRemoteAddress ops c s) (\<lambda>(b, s). ok (\<lparr>m_start = a, m_end = b\<rparr>, s)))
        (got valid rest (range_read c x) ?r)"
      by (simp add: t(1))
  qed
  have "yields (run_bind (MemoryRange_deserialize ops c s) (\<lambda>(newRange, s).
      fragments_read_loop ops c s (g @ [newRange]) (length f))) (got valid rest (g @ range_read c x # map (range_read c) f) r)"
  proof (rule yields_bind [OF D])
    fix y assume y: "got valid rest (range_read c x) ?r y"
    then obtain t where t: "y = (range_read c x, t)" "valid t" "rest t = ?r" by (cases y) simp
    show "yields (case y of (newRange, s) \<Rightarrow> fragments_read_loop ops c s (g @ [newRange]) (length f))
        (got valid rest (g @ range_read c x # map (range_read c) f) r)"
      using Cons.IH [OF t(2) v(3) t(3), of "g @ [range_read c x]"] by (simp add: t(1))
  qed
  then show ?case by simp
qed (simp add: range_items_def)

end

text \<open>
  Up to 65535 holes that are written to a new memory file, in either byte order and with
  either encoding of addresses, are read back after a seek to the beginning, in their order and
  in place of the ones that were there; more holes throw before anything is written.
\<close>

theorem fragments_roundtrip:
  assumes "list_all (range_ok c) f"
  shows "if length f \<le> 0xFFFF then
      yields
        (run_bind (cFragmentsDescriptor_serialize (cEndianFilterStream cMemoryStream_io b) c (cMemoryStream_new_data [] False) f) (\<lambda>s.
         run_bind (v_seek (cEndianFilterStream cMemoryStream_io b) s 0 IO_SEEK_SET) (\<lambda>s.
         cFragmentsDescriptor_deserialize (cEndianFilterStream cMemoryStream_io b) c s g)))
        (\<lambda>x. fst x = map (range_read c) f \<and> cMemoryStream_isEOS (snd x))
    else cFragmentsDescriptor_serialize (cEndianFilterStream cMemoryStream_io b) c (cMemoryStream_new_data [] False) f =
      throw EXCEPTION_ASSERTION"
proof (cases "length f \<le> 0xFFFF")
  case True
  let ?ops = "cEndianFilterStream cMemoryStream_io b" and ?s = "cMemoryStream_new_data [] False"
  let ?items = "Item16 (word_of_nat (length f)) # range_items f"
  let ?bytes = "concat (map (item_bytes b c) ?items)"
  have little: "v_isLittleEndian ?ops = b" by (simp add: cEndianFilterStream_def)
  have new: "cMemoryStream_atEnd ?s" "m_data ?s = []"
    by (simp_all add: cMemoryStream_new_data_def cMemoryStream_atEnd_def)
  have ok: "list_all (item_ok c) ?items" using range_items_ok [OF assms] by simp
  have w: "yields (cFragmentsDescriptor_serialize ?ops c ?s f) (put cMemoryStream_atEnd m_data ?bytes)"
    unfolding serialize_items [OF True]
    using output_stream.write_items_puts [OF mem_append.endian_output new(1) ok, of b] by (simp add: new little)
  have count: "unat (word_of_nat (length f) :: uint16) = length f"
    using True by (simp add: unat_of_nat take_bit_nat_eq_self)
  have "yields
      (run_bind (cFragmentsDescriptor_serialize ?ops c ?s f) (\<lambda>s.
       run_bind (v_seek ?ops s 0 IO_SEEK_SET) (\<lambda>s. cFragmentsDescriptor_deserialize ?ops c s g)))
      (\<lambda>x. fst x = map (range_read c) f \<and> cMemoryStream_isEOS (snd x))"
  proof (rule yields_bind [OF w])
    fix s assume p: "put cMemoryStream_atEnd m_data ?bytes s"
    let ?t = "s\<lparr>m_filePosition := 0\<rparr>"
    let ?r = "concat (map (item_bytes b c) (range_items f))"
    have "yields (read_items ?ops c ?t [Item16 (word_of_nat (length f))])
        (got cMemoryStream_inv cMemoryStream_rest (map (item_read c) [Item16 (word_of_nat (length f))]) ?r)"
      using p by (intro input_stream.read_items_got [OF mem_in.endian_input]) (simp_all add: little put_def)
    then have n: "yields (streamReadUint16 ?ops ?t) (got cMemoryStream_inv cMemoryStream_rest (word_of_nat (length f)) ?r)"
      by (cases "streamReadUint16 ?ops ?t")
        (auto simp: yields_def run_bind_def throw_def ok_def split: sum.splits)
    have "yields (cFragmentsDescriptor_deserialize ?ops c ?t g)
        (got cMemoryStream_inv cMemoryStream_rest (map (range_read c) f) [])"
      unfolding cFragmentsDescriptor_deserialize_def
    proof (rule yields_bind [OF n])
      fix y assume y: "got cMemoryStream_inv cMemoryStream_rest (word_of_nat (length f) :: uint16) ?r y"
      then have "yields (fragments_read_loop ?ops c (snd y) [] (length f))
          (got cMemoryStream_inv cMemoryStream_rest ([] @ map (range_read c) f) [])"
        by (intro input_stream.fragments_read_loop_got [OF mem_in.endian_input _ assms]) (auto simp: little got_def)
      then show "yields (case y of (n, s) \<Rightarrow> fragments_read_loop ?ops c s [] (unat n))
          (got cMemoryStream_inv cMemoryStream_rest (map (range_read c) f) [])"
        using y count by (cases y) simp
    qed
    then have "yields (cFragmentsDescriptor_deserialize ?ops c ?t g)
        (\<lambda>x. fst x = map (range_read c) f \<and> cMemoryStream_isEOS (snd x))"
      using mem_in.eos_law by (elim yields_mono) (auto simp: got_def cMemoryStream_io_def)
    then show "yields (run_bind (v_seek ?ops s 0 IO_SEEK_SET) (\<lambda>s. cFragmentsDescriptor_deserialize ?ops c s g))
        (\<lambda>x. fst x = map (range_read c) f \<and> cMemoryStream_isEOS (snd x))"
      by (simp add: cEndianFilterStream_def cMemoryStream_io_def)
  qed
  then show ?thesis using True by simp
next
  case False
  then show ?thesis by (simp add: cFragmentsDescriptor_serialize_def Let_def CHECK_def throw_def)
qed

theorem fragments_roundtrip_witness:
  "list_all (range_ok basicInput_new) [\<lparr>m_start = \<lparr>m_union = 0x10, m_type = REMOTE_ADDRESS_32BIT\<rparr>,
      m_end = \<lparr>m_union = 0x1000000FF, m_type = REMOTE_ADDRESS_32BIT\<rparr>\<rparr>] \<and>
   yields
     (run_bind (cFragmentsDescriptor_serialize (cEndianFilterStream cMemoryStream_io False) basicInput_new (cMemoryStream_new_data [] False)
        [\<lparr>m_start = \<lparr>m_union = 0x10, m_type = REMOTE_ADDRESS_32BIT\<rparr>,
          m_end = \<lparr>m_union = 0x1000000FF, m_type = REMOTE_ADDRESS_32BIT\<rparr>\<rparr>]) (\<lambda>s.
      run_bind (v_seek (cEndianFilterStream cMemoryStream_io False) s 0 IO_SEEK_SET) (\<lambda>s.
      cFragmentsDescriptor_deserialize (cEndianFilterStream cMemoryStream_io False) basicInput_new s [])))
     (\<lambda>x. fst x = [\<lparr>m_start = \<lparr>m_union = 0x10, m_type = REMOTE_ADDRESS_32BIT\<rparr>,
          m_end = \<lparr>m_union = 0xFF, m_type = REMOTE_ADDRESS_32BIT\<rparr>\<rparr>] \<and> cMemoryStream_isEOS (snd x))"
proof -
  let ?f = "[\<lparr>m_start = \<lparr>m_union = 0x10, m_type = REMOTE_ADDRESS_32BIT\<rparr>,
      m_end = \<lparr>m_union = 0x1000000FF, m_type = REMOTE_ADDRESS_32BIT\<rparr>\<rparr>]"
  have ok: "list_all (range_ok basicInput_new) ?f"
    by (simp add: range_ok_def coded_type_def basicInput_new_def)
  have r: "map (range_read basicInput_new) ?f = [\<lparr>m_start = \<lparr>m_union = 0x10, m_type = REMOTE_ADDRESS_32BIT\<rparr>,
      m_end = \<lparr>m_union = 0xFF, m_type = REMOTE_ADDRESS_32BIT\<rparr>\<rparr>]"
    by (simp add: range_read_def coded_def clipped_def coded_type_def basicInput_new_def)
  show ?thesis using fragments_roundtrip [OF ok, of False "[]"] ok unfolding r by simp
qed

subsection \<open>Mapped memory\<close>

definition mapped :: "process_memory \<Rightarrow> uint64 \<Rightarrow> uint8 list \<Rightarrow> bool" where
  "mapped M a bs \<longleftrightarrow> (\<forall>i < length bs. M (a + word_of_nat i) = Some (bs ! i))"

lemma mapped_Cons: "mapped M a (b # bs) \<longleftrightarrow> M a = Some b \<and> mapped M (a + 1) bs"
  by (auto simp: mapped_def less_Suc_eq_0_disj add.assoc)

lemma mapped_append: "mapped M a (xs @ ys) \<longleftrightarrow> mapped M a xs \<and> mapped M (a + word_of_nat (length xs)) ys"
proof (induction xs arbitrary: a)
  case (Cons x xs)
  then show ?case by (simp add: mapped_Cons add.assoc)
qed (simp add: mapped_def)

lemma mem_get_mapped: "mapped M a bs \<Longrightarrow> mem_get M a (length bs) = Inr bs"
  by (induction bs arbitrary: a) (simp_all add: mapped_Cons)

text \<open>Writing over mapped bytes changes these bytes only.\<close>

definition region :: "uint64 \<Rightarrow> nat \<Rightarrow> uint64 set" where
  "region a n = (\<lambda>i. a + word_of_nat i) ` {..<n}"

lemma region_Suc: "region a (Suc n) = insert a (region (a + 1) n)"
  unfolding region_def lessThan_Suc_eq_insert_0 image_insert image_image
  by (simp add: add.assoc)

lemma region_mem: "i < n \<Longrightarrow> a + word_of_nat i \<in> region a n"
  by (auto simp: region_def)

lemma mapped_cong: "\<forall>x \<in> region a (length bs). M' x = M x \<Longrightarrow> mapped M' a bs = mapped M a bs"
  using region_mem [of _ "length bs" a] by (auto simp: mapped_def)

lemma not_in_region: "n < 2 ^ 64 \<Longrightarrow> a \<notin> region (a + 1) n"
proof
  assume n: "n < 2 ^ 64" "a \<in> region (a + 1) n"
  then obtain i where i: "i < n" "a = a + 1 + word_of_nat i" by (auto simp: region_def)
  from i(2) have z: "word_of_nat (Suc i) = (0 :: uint64)" by (simp add: add.assoc)
  have "unat (word_of_nat (Suc i) :: uint64) = Suc i"
    using i(1) n(1) by (simp only: unat_of_nat) (simp add: take_bit_nat_eq_self)
  then show False unfolding z by simp
qed

lemma mem_put_mapped:
  assumes "mapped M a xs" and "length xs = length bs" and "length bs \<le> 2 ^ 64"
  shows "\<exists>M'. mem_put M a bs = Inr M' \<and> mapped M' a bs \<and> (\<forall>x. x \<notin> region a (length bs) \<longrightarrow> M' x = M x)"
  using assms
proof (induction bs arbitrary: M a xs)
  case Nil
  then show ?case by (simp add: mapped_def)
next
  case (Cons b bs)
  then obtain x ys where x: "xs = x # ys" by (cases xs) auto
  have m: "M a = Some x" "mapped M (a + 1) ys" using Cons.prems(1) x by (simp_all add: mapped_Cons)
  have n: "length ys = length bs" "length bs < 2 ^ 64" using Cons.prems(2,3) x by simp_all
  have "mapped (M(a \<mapsto> b)) (a + 1) ys = mapped M (a + 1) ys"
    by (rule mapped_cong) (use not_in_region [of "length ys" a] n in auto)
  then have "mapped (M(a \<mapsto> b)) (a + 1) ys" using m(2) by simp
  from Cons.IH [OF this n(1) order_less_imp_le [OF n(2)]] obtain M'
    where M': "mem_put (M(a \<mapsto> b)) (a + 1) bs = Inr M'" "mapped M' (a + 1) bs"
    "\<forall>x. x \<notin> region (a + 1) (length bs) \<longrightarrow> M' x = (M(a \<mapsto> b)) x"
    by blast
  have "M' a = Some b" using M'(3) not_in_region [OF n(2), of a] by simp
  then show ?case using M' m(1) by (auto simp: mapped_Cons region_Suc)
qed

subsection \<open>A buffer in the memory\<close>

text \<open>
  A buffer of the process: its bytes are mapped at an address, and neither it nor the byte behind
  it reaches the end of the address space.
\<close>

definition buffer_at :: "process_memory \<Rightarrow> uint64 \<Rightarrow> uint8 list \<Rightarrow> bool" where
  "buffer_at M a bs \<longleftrightarrow> mapped M a bs \<and> unat a + length bs < 2 ^ 64 - 1"

lemma word_sum_less:
  "unat (a :: uint64) + k < 2 ^ 64 \<Longrightarrow> unat (a + word_of_nat k) = unat a + k"
proof -
  assume l: "unat a + k < 2 ^ 64"
  then have "unat (word_of_nat k :: uint64) = k" by (simp add: unat_of_nat take_bit_nat_eq_self)
  then show ?thesis using l by (subst unat_plus_simple [THEN iffD1]) (simp_all add: word_le_nat_alt unat_word_ariths)
qed

lemma region_iff:
  assumes "unat a + n < 2 ^ 64"
  shows "x \<in> region a n \<longleftrightarrow> unat a \<le> unat x \<and> unat x < unat a + n"
proof
  assume "x \<in> region a n"
  then obtain i where "i < n" "x = a + word_of_nat i" by (auto simp: region_def)
  then show "unat a \<le> unat x \<and> unat x < unat a + n" using assms by (simp add: word_sum_less)
next
  assume x: "unat a \<le> unat x \<and> unat x < unat a + n"
  have "unat (a + word_of_nat (unat x - unat a)) = unat a + (unat x - unat a)"
    using x assms by (intro word_sum_less) simp
  then have "a + word_of_nat (unat x - unat a) = x" using x by (simp add: word_unat_eq_iff)
  moreover have "unat x - unat a < n" using x by linarith
  ultimately show "x \<in> region a n" using region_mem [of "unat x - unat a" n a] by metis
qed

lemma getAddress_buffer:
  assumes "buffer_at M a bs"
  shows "cThreadUnsafeMemoryAccesser_getAddress (cStreamMemoryAccesser_new M a (length bs)) x =
      (if unat (x + a) \<le> unat a + length bs then Inr (x + a) else Inl EXCEPTION_ASSERTION)"
proof -
  have n: "unat a + length bs < 2 ^ 64 - 1" using assms by (simp add: buffer_at_def)
  have e: "unat (- 1 :: uint64) = 2 ^ 64 - 1" by (simp add: unsigned_minus_1_eq_mask mask_eq_exp_minus_1)
  have k: "unat (a + word_of_nat (length bs)) = unat a + length bs" using n by (simp add: word_sum_less)
  have "x + a \<le> a + word_of_nat (length bs) \<longleftrightarrow> unat (x + a) \<le> unat a + length bs"
    using k by (simp add: word_le_nat_alt)
  moreover have "x + a < MAX_PHYSICAL_ADDRESS" if "unat (x + a) \<le> unat a + length bs"
    using that n e by (simp add: word_less_nat_alt MAX_PHYSICAL_ADDRESS_def)
  ultimately show ?thesis
    by (auto simp: cThreadUnsafeMemoryAccesser_getAddress_def cStreamMemoryAccesser_new_def Let_def CHECK_def
      cStreamMemoryAccesser_updateStreamBoundries_def cThreadUnsafeMemoryAccesser_new_def)
qed

lemma m_memory_new: "m_memory (cStreamMemoryAccesser_new M a n) = M"
  by (simp add: cStreamMemoryAccesser_new_def
    cStreamMemoryAccesser_updateStreamBoundries_def cThreadUnsafeMemoryAccesser_new_def)

lemma new_update_memory: "cStreamMemoryAccesser_new M a n \<lparr>m_memory := M'\<rparr> = cStreamMemoryAccesser_new M' a n"
  by (simp add: cStreamMemoryAccesser_new_def
    cStreamMemoryAccesser_updateStreamBoundries_def cThreadUnsafeMemoryAccesser_new_def)

text \<open>An access is decided by the addresses of its first and its last byte.\<close>

definition access_ok :: "uint64 \<Rightarrow> nat \<Rightarrow> uint64 \<Rightarrow> nat \<Rightarrow> bool" where
  "access_ok a len x n \<longleftrightarrow> unat (x + a) \<le> unat a + len \<and> unat (x + word_of_nat n - 1 + a) \<le> unat a + len"

lemma memread_buffer:
  "buffer_at M a bs \<Longrightarrow> 0 < n \<Longrightarrow>
   cThreadUnsafeMemoryAccesser_memread (cStreamMemoryAccesser_new M a (length bs)) x n fr =
     (if access_ok a (length bs) x n then bind_res (mem_get M (x + a) n) (\<lambda>r. Inr (True, map Some r, fr))
      else Inl EXCEPTION_ASSERTION)"
  by (auto simp: cThreadUnsafeMemoryAccesser_memread_def getAddress_buffer m_memory_new access_ok_def)

lemma write_buffer:
  "buffer_at M a bs \<Longrightarrow> ws \<noteq> [] \<Longrightarrow>
   cThreadUnsafeMemoryAccesser_write (cStreamMemoryAccesser_new M a (length bs)) x ws =
     (if access_ok a (length bs) x (length ws)
      then bind_res (mem_put M (x + a) ws) (\<lambda>M. Inr (True, cStreamMemoryAccesser_new M a (length bs)))
      else Inl EXCEPTION_ASSERTION)"
  by (auto simp: cThreadUnsafeMemoryAccesser_write_def getAddress_buffer m_memory_new new_update_memory access_ok_def)

lemma word_last: "0 < n \<Longrightarrow> word_of_nat k + word_of_nat n - 1 + a = a + (word_of_nat (k + n - 1) :: uint64)"
  by (cases n) (simp_all add: algebra_simps)

lemma access_ok_offset:
  assumes "unat a + k + n < 2 ^ 64" and "0 < n"
  shows "access_ok a len (word_of_nat k) n \<longleftrightarrow> k + n \<le> len + 1"
proof -
  have "unat (word_of_nat k + a) = unat a + k" using assms word_sum_less [of a k] by (simp add: add.commute)
  moreover have "unat (a + word_of_nat (k + n - 1)) = unat a + (k + n - 1)" using assms by (intro word_sum_less) simp
  ultimately show ?thesis unfolding access_ok_def word_last [OF assms(2)] using assms(2) by linarith
qed

lemma mapped_part:
  assumes "mapped M a bs" and "k + n \<le> length bs"
  shows "mapped M (a + word_of_nat k) (take n (drop k bs))"
proof -
  have "bs = take k bs @ take n (drop k bs) @ drop n (drop k bs)" by (simp only: append_take_drop_id)
  then have "mapped M a (take k bs @ take n (drop k bs) @ drop n (drop k bs))" using assms(1) by simp
  then show ?thesis using assms(2) by (simp add: mapped_append)
qed

lemma mem_get_part:
  "mapped M a bs \<Longrightarrow> k + n \<le> length bs \<Longrightarrow> mem_get M (word_of_nat k + a) n = Inr (take n (drop k bs))"
  using mem_get_mapped [OF mapped_part [of M a bs k n]] by (simp add: add.commute)

lemma mem_put_part:
  assumes "buffer_at M a bs" and "k + length ws \<le> length bs"
  shows "\<exists>M'. mem_put M (word_of_nat k + a) ws = Inr M' \<and>
      buffer_at M' a (take k bs @ ws @ drop (k + length ws) bs)"
proof -
  let ?n = "length ws" and ?p = "a + word_of_nat k"
  have m: "mapped M a bs" and l: "unat a + length bs < 2 ^ 64 - 1" using assms(1) by (simp_all add: buffer_at_def)
  have p: "unat ?p = unat a + k" using l assms(2) by (intro word_sum_less) simp
  obtain M' where M': "mem_put M ?p ws = Inr M'" "mapped M' ?p ws"
    and same: "\<forall>x. x \<notin> region ?p ?n \<longrightarrow> M' x = M x"
    using mem_put_mapped [OF mapped_part [OF m assms(2)], of ws] assms(2) l by auto
  have r: "x \<in> region ?p ?n \<longleftrightarrow> unat a + k \<le> unat x \<and> unat x < unat a + k + ?n" for x
    using region_iff [of ?p ?n x] p l assms(2) by simp
  have "mapped M' a (take k bs) = mapped M a (take k bs)"
  proof (rule mapped_cong, rule ballI)
    fix x assume "x \<in> region a (length (take k bs))"
    then have "unat x < unat a + k" using region_iff [of a "length (take k bs)" x] l assms(2) by simp
    then show "M' x = M x" using same r by simp
  qed
  moreover have "mapped M a (take k bs)" using mapped_part [OF m, of 0 k] assms(2) by simp
  ultimately have A: "mapped M' a (take k bs)" by simp
  let ?q = "?p + word_of_nat ?n" and ?d = "drop (k + ?n) bs"
  have q: "unat ?q = unat a + k + ?n" using word_sum_less [of ?p ?n] p l assms(2) by simp
  have "mapped M' ?q ?d = mapped M ?q ?d"
  proof (rule mapped_cong, rule ballI)
    fix x assume "x \<in> region ?q (length ?d)"
    then have "unat a + k + ?n \<le> unat x" using region_iff [of ?q "length ?d" x] q l assms(2) by simp
    then show "M' x = M x" using same r by simp
  qed
  moreover have "mapped M ?q ?d"
    using mapped_part [OF m, of "k + ?n" "length bs - (k + ?n)"] assms(2) by (simp add: add.assoc)
  ultimately have B: "mapped M' ?q ?d" by simp
  have "mapped M' a (take k bs @ ws @ ?d)"
    using A B M'(2) assms(2) by (simp add: mapped_append)
  then show ?thesis using M'(1) l assms(2) by (auto simp: buffer_at_def add.commute)
qed

subsection \<open>What an accesser promises\<close>

text \<open>
  An accesser stands for the bytes of a memory: inside of it \<open>memread\<close> gives them and \<open>write\<close>
  replaces them. What happens outside is up to the accesser.
\<close>

locale memory_accesser =
  fixes acc :: "'a accesser"
    and valid :: "'a \<Rightarrow> bool"
    and view :: "'a \<Rightarrow> uint8 list"
  assumes memread_law: "valid m \<Longrightarrow> 0 < n \<Longrightarrow> k + n \<le> length (view m) \<Longrightarrow>
      a_memread acc m (word_of_nat k) n fr = Inr (True, map Some (take n (drop k (view m))), fr)"
    and write_law: "valid m \<Longrightarrow> ws \<noteq> [] \<Longrightarrow> k + length ws \<le> length (view m) \<Longrightarrow>
      \<exists>m'. a_write acc m (word_of_nat k) ws = Inr (True, m') \<and> valid m' \<and>
        view m' = take k (view m) @ ws @ drop (k + length ws) (view m)"
    and size_law: "valid m \<Longrightarrow> length (view m) < 2 ^ 64"
    and writable: "a_isWritableInterface acc"
begin

definition region_valid :: "'a cMemoryAccesserStream \<Rightarrow> bool" where
  "region_valid s \<longleftrightarrow> valid (m_accesser s) \<and> m_startOffset s \<le> m_position s \<and> m_position s \<le> m_endOffset s \<and>
     unat (m_endOffset s) \<le> length (view (m_accesser s))"

definition rest :: "'a cMemoryAccesserStream \<Rightarrow> uint8 list" where
  "rest s = take (unat (m_endOffset s) - unat (m_position s)) (drop (unat (m_position s)) (view (m_accesser s)))"

lemma region_left:
  assumes "region_valid s"
  shows "unat (m_endOffset s - m_position s) = unat (m_endOffset s) - unat (m_position s)"
    and "length (rest s) = unat (m_endOffset s) - unat (m_position s)"
    and "unat (m_position s) \<le> unat (m_endOffset s)"
  using assms by (auto simp: region_valid_def rest_def unat_sub word_le_nat_alt)

lemma region_advance:
  assumes "region_valid s" and "n \<le> length (rest s)"
  shows "unat (m_position s + word_of_nat n) = unat (m_position s) + n"
proof (rule word_sum_less)
  have "unat (m_endOffset s) < 2 ^ 64" using unsigned_less [of "m_endOffset s"] by simp
  then show "unat (m_position s) + n < 2 ^ 64" using assms(2) region_left [OF assms(1)] by linarith
qed

lemma stream_read:
  assumes "region_valid s" and "0 < n" and "rest s \<noteq> []"
  shows "yields (cMemoryAccesserStream_read acc s n)
      (got region_valid rest (take (min n (length (rest s))) (rest s)) (drop (min n (length (rest s))) (rest s)))"
proof -
  let ?m = "min n (length (rest s))" and ?p = "unat (m_position s)"
  note l = region_left [OF assms(1)]
  have m: "t_min (unat (m_endOffset s - m_position s)) n = ?m" "0 < ?m"
    using l assms(2) assms(3) [unfolded length_0_conv [symmetric]] by (auto simp: t_min_def min_def)
  have v: "valid (m_accesser s)" "unat (m_endOffset s) \<le> length (view (m_accesser s))"
    using assms(1) by (simp_all add: region_valid_def)
  have k: "?p + ?m \<le> length (view (m_accesser s))" using l v(2) min.cobounded2 [of n "length (rest s)"] by linarith
  have r: "take ?m (drop ?p (view (m_accesser s))) = take ?m (rest s)"
    using l by (simp add: rest_def min_def)
  have a: "a_memread acc (m_accesser s) (m_position s) ?m None = Inr (True, map Some (take ?m (rest s)), None)"
    using memread_law [OF v(1) m(2) k, of None] by (simp add: r)
  have p: "unat (m_position s + word_of_nat ?m) = ?p + ?m" by (rule region_advance [OF assms(1)]) simp
  let ?t = "s\<lparr>m_position := m_position s + word_of_nat ?m\<rparr>"
  have "region_valid ?t" using assms(1) p l by (auto simp: region_valid_def word_le_nat_alt min_def)
  moreover have "rest ?t = drop ?m (rest s)"
    using p by (simp add: rest_def drop_take add.commute)
  moreover have "cMemoryAccesserStream_read acc s n = ok (take ?m (rest s), ?t)"
    using assms(2) m a
    by (auto simp: cMemoryAccesserStream_read_def Let_def CHECK_def stored_def comp_def)
  ultimately show ?thesis by simp
qed

lemma stream_write:
  assumes "region_valid s" and "ws \<noteq> []" and "length ws \<le> length (rest s)"
  shows "\<exists>t. cMemoryAccesserStream_write acc s ws = ok (length ws, t) \<and> region_valid t \<and>
      rest t = drop (length ws) (rest s) \<and>
      t = s\<lparr>m_accesser := m_accesser t, m_position := m_position s + word_of_nat (length ws)\<rparr> \<and>
      view (m_accesser t) = take (unat (m_position s)) (view (m_accesser s)) @ ws @
        drop (unat (m_position s) + length ws) (view (m_accesser s))"
proof -
  let ?n = "length ws" and ?p = "unat (m_position s)" and ?w = "view (m_accesser s)"
  note l = region_left [OF assms(1)]
  have m: "t_min (unat (m_endOffset s - m_position s)) ?n = ?n"
    using l assms(3) by (auto simp: t_min_def)
  have v: "valid (m_accesser s)" "unat (m_endOffset s) \<le> length ?w"
    using assms(1) by (simp_all add: region_valid_def)
  have k: "?p + ?n \<le> length ?w" using l v(2) assms(3) by simp
  from write_law [OF v(1) assms(2) k] obtain m' where m': "a_write acc (m_accesser s) (m_position s) ws = Inr (True, m')"
    "valid m'" "view m' = take ?p ?w @ ws @ drop (?p + ?n) ?w"
    by auto
  have p: "unat (m_position s + word_of_nat ?n) = ?p + ?n" by (rule region_advance [OF assms(1,3)])
  let ?t = "s\<lparr>m_accesser := m', m_position := m_position s + word_of_nat ?n\<rparr>"
  have "region_valid ?t" using assms(1,3) p l m' k by (auto simp: region_valid_def word_le_nat_alt)
  moreover have "rest ?t = drop ?n (rest s)"
    using p m'(3) k by (simp add: rest_def drop_take add.commute)
  moreover have "cMemoryAccesserStream_write acc s ws = ok (?n, ?t)"
    using assms(2) m m'(1) writable
    by (auto simp: cMemoryAccesserStream_write_def Let_def CHECK_def cMemoryAccesserStream_isStreamWriteable_def)
  ultimately show ?thesis using m'(3) by (intro exI [of _ ?t]) simp
qed

end

sublocale memory_accesser \<subseteq> region: nonempty_input "cMemoryAccesserStream_io acc" region_valid rest
proof unfold_locales
  fix s assume v: "region_valid s"
  show "v_isEOS (cMemoryAccesserStream_io acc) s \<longleftrightarrow> rest s = []"
    using region_left [OF v] by (auto simp: cMemoryAccesserStream_io_def cMemoryAccesserStream_isEOS_def
      word_unat_eq_iff simp flip: length_0_conv)
  fix n :: nat assume n: "0 < n" "rest s \<noteq> []"
  then show "\<exists>m>0. m \<le> n \<and> yields (v_read (cMemoryAccesserStream_io acc) s n)
      (got region_valid rest (take m (rest s)) (drop m (rest s)))"
    using stream_read [OF v n] by (intro exI [of _ "min n (length (rest s))"]) (simp add: cMemoryAccesserStream_io_def)
qed (simp add: cMemoryAccesserStream_io_def)

subsection \<open>The buffer keeps the promise\<close>

definition buffer_valid :: "cThreadUnsafeMemoryAccesser \<Rightarrow> bool" where
  "buffer_valid m \<longleftrightarrow> (\<exists>M a bs. m = cStreamMemoryAccesser_new M a (length bs) \<and> buffer_at M a bs)"

definition buffer_view :: "cThreadUnsafeMemoryAccesser \<Rightarrow> uint8 list" where
  "buffer_view m = map (\<lambda>i. the (m_memory m (m_startAddress m + word_of_nat i)))
     [0..<unat (m_endAddress m - m_startAddress m)]"

lemma buffer_view_new: "buffer_at M a bs \<Longrightarrow> buffer_view (cStreamMemoryAccesser_new M a (length bs)) = bs"
  by (rule nth_equalityI)
    (simp_all add: buffer_view_def buffer_at_def mapped_def cStreamMemoryAccesser_new_def
      cStreamMemoryAccesser_updateStreamBoundries_def cThreadUnsafeMemoryAccesser_new_def
      unat_of_nat take_bit_nat_eq_self)

lemma buffer_length: "buffer_at M a bs \<Longrightarrow> unat a + length bs < 2 ^ 64 - 1"
  by (simp add: buffer_at_def)

interpretation buffer: memory_accesser thread_accesser buffer_valid buffer_view
proof unfold_locales
  fix m n k fr assume m: "buffer_valid m" "0 < n" "k + n \<le> length (buffer_view m)"
  then obtain M a bs where b: "m = cStreamMemoryAccesser_new M a (length bs)" "buffer_at M a bs"
    by (auto simp: buffer_valid_def)
  have k: "k + n \<le> length bs" using m(3) by (simp add: b buffer_view_new)
  then have "access_ok a (length bs) (word_of_nat k) n"
    using access_ok_offset [of a k n "length bs"] buffer_length [OF b(2)] m(2) by simp
  then show "a_memread thread_accesser m (word_of_nat k) n fr = Inr (True, map Some (take n (drop k (buffer_view m))), fr)"
    using mem_get_part [of M a bs k n] b k m(2)
    by (simp add: thread_accesser_def memread_buffer buffer_view_new buffer_at_def)
next
  fix m and ws :: "uint8 list" and k
  assume m: "buffer_valid m" "ws \<noteq> []" "k + length ws \<le> length (buffer_view m)"
  then obtain M a bs where b: "m = cStreamMemoryAccesser_new M a (length bs)" "buffer_at M a bs"
    by (auto simp: buffer_valid_def)
  let ?bs = "take k bs @ ws @ drop (k + length ws) bs"
  have k: "k + length ws \<le> length bs" using m(3) by (simp add: b buffer_view_new)
  then have len: "length ?bs = length bs" by simp
  have ok: "access_ok a (length bs) (word_of_nat k) (length ws)"
    using access_ok_offset [of a k "length ws" "length bs"] buffer_length [OF b(2)] m(2) k by simp
  obtain M' where M': "mem_put M (word_of_nat k + a) ws = Inr M'" "buffer_at M' a ?bs"
    using mem_put_part [OF b(2) k] by blast
  let ?m = "cStreamMemoryAccesser_new M' a (length bs)"
  have "a_write thread_accesser m (word_of_nat k) ws = Inr (True, ?m)"
    using ok M'(1) write_buffer [OF b(2) m(2)] by (simp add: thread_accesser_def b(1))
  moreover have "buffer_valid ?m" using M'(2) len unfolding buffer_valid_def by metis
  moreover have "buffer_view ?m = ?bs" using buffer_view_new [OF M'(2)] by (simp only: len)
  ultimately show "\<exists>m'. a_write thread_accesser m (word_of_nat k) ws = Inr (True, m') \<and> buffer_valid m' \<and>
      buffer_view m' = take k (buffer_view m) @ ws @ drop (k + length ws) (buffer_view m)"
    by (auto simp: b buffer_view_new)
qed (auto simp: thread_accesser_def buffer_valid_def buffer_at_def buffer_view_new)

text \<open>
  C11: the accesser of a buffer of bytes gives the bytes of a region that lies in the buffer and
  throws for one that ends more than one byte behind it; a region that ends exactly one byte
  behind is read (the end is compared with \<open><=\<close>), and so is, from the addresses below the buffer,
  one whose start is below zero (the test for an overflow wraps around itself).
\<close>

theorem accesser_bounds:
  assumes "buffer_at M a bs" and "0 < n" and "unat a + k + n < 2 ^ 64" and "n \<le> j" and "j \<le> unat a"
  shows "cThreadUnsafeMemoryAccesser_memread (cStreamMemoryAccesser_new M a (length bs)) (word_of_nat k) n fr =
      (if k + n \<le> length bs then Inr (True, map Some (take n (drop k bs)), fr)
       else if k + n = length bs + 1
       then bind_res (mem_get M (word_of_nat k + a) n) (\<lambda>r. Inr (True, map Some r, fr))
       else Inl EXCEPTION_ASSERTION) \<and>
    cThreadUnsafeMemoryAccesser_memread (cStreamMemoryAccesser_new M a (length bs)) (- word_of_nat j) n fr =
      bind_res (mem_get M (a - word_of_nat j) n) (\<lambda>r. Inr (True, map Some r, fr))"
proof
  show "cThreadUnsafeMemoryAccesser_memread (cStreamMemoryAccesser_new M a (length bs)) (word_of_nat k) n fr =
      (if k + n \<le> length bs then Inr (True, map Some (take n (drop k bs)), fr)
       else if k + n = length bs + 1
       then bind_res (mem_get M (word_of_nat k + a) n) (\<lambda>r. Inr (True, map Some r, fr))
       else Inl EXCEPTION_ASSERTION)"
    using access_ok_offset [OF assms(3,2), of "length bs"] mem_get_part [of M a bs k n] assms(1,2)
    by (auto simp: memread_buffer buffer_at_def)
  have a: "unat a < 2 ^ 64" using unsigned_less [of a] by simp
  then have j: "unat (a - word_of_nat j) = unat a - j"
    using assms(5) by (subst unat_sub) (simp_all add: word_le_nat_alt unat_of_nat take_bit_nat_eq_self)
  have l: "unat (a - word_of_nat j + word_of_nat (n - 1)) = unat a - j + (n - 1)"
    unfolding j [symmetric] by (rule word_sum_less) (use j a assms(2,4,5) in linarith)
  have e: "- word_of_nat j + word_of_nat n - 1 + a = a - word_of_nat j + word_of_nat (n - 1)"
    "- word_of_nat j + a = a - word_of_nat j"
    using assms(2) by (cases n; simp)+
  have "access_ok a (length bs) (- word_of_nat j) n"
    unfolding access_ok_def e l j using assms(2,4,5) by linarith
  then show "cThreadUnsafeMemoryAccesser_memread (cStreamMemoryAccesser_new M a (length bs)) (- word_of_nat j) n fr =
      bind_res (mem_get M (a - word_of_nat j) n) (\<lambda>r. Inr (True, map Some r, fr))"
    using memread_buffer [OF assms(1,2)] by simp
qed

definition example_memory :: process_memory where
  "example_memory x = (if 0x1000 \<le> x \<and> x < 0x1010 then Some (ucast x) else None)"

theorem accesser_bounds_witness:
  "buffer_at example_memory 0x1004 [4, 5] \<and>
   cThreadUnsafeMemoryAccesser_memread (cStreamMemoryAccesser_new example_memory 0x1004 2) (word_of_nat 1) 2 None =
     Inr (True, [Some 5, Some 6], None) \<and>
   cThreadUnsafeMemoryAccesser_memread (cStreamMemoryAccesser_new example_memory 0x1004 2) (- word_of_nat 3) 2 None =
     Inr (True, [Some 1, Some 2], None)"
proof -
  have b: "buffer_at example_memory 0x1004 [4, 5]"
    by (simp add: buffer_at_def mapped_Cons example_memory_def) (simp add: mapped_def)
  have "mapped example_memory (word_of_nat 1 + 0x1004) [5, 6]" "mapped example_memory (0x1004 - word_of_nat 3) [1, 2]"
    by (simp_all add: mapped_Cons example_memory_def) (simp_all add: mapped_def)
  note p = this
  have l2: "length [x, y] = 2" for x y :: uint8 by simp
  note m = mem_get_mapped [OF p(1), unfolded l2] mem_get_mapped [OF p(2), unfolded l2]
  have l: "length [4, 5 :: uint8] = 2" "unat (0x1004 :: uint64) = 0x1004" by simp_all
  show ?thesis
    using accesser_bounds [OF b, of 2 1 3 None] b unfolding l m by simp
qed

text \<open>
  C12: what is written through a stream over a region of a buffer is read back after a seek to
  the same place, together with the old bytes behind it; the reading loop stops at the end of the
  region, and a read that starts there throws instead of giving nothing.
\<close>

theorem accesser_stream:
  assumes "buffer_at M a bs" and "lo \<le> hi" and "hi \<le> length bs"
    and "ws \<noteq> []" and "k + length ws \<le> hi - lo" and "k < 2 ^ 31" and "0 < n"
  shows "yields
      (run_bind (of_res (cMemoryAccesserStream_new (cStreamMemoryAccesser_new M a (length bs))
         (word_of_nat lo) (word_of_nat hi) False True)) (\<lambda>s.
       run_bind (v_seek (cMemoryAccesserStream_io thread_accesser) s (word_of_nat k) IO_SEEK_SET) (\<lambda>s.
       run_bind (pipeWrite (cMemoryAccesserStream_io thread_accesser) s ws) (\<lambda>s.
       run_bind (v_seek (cMemoryAccesserStream_io thread_accesser) s (word_of_nat k) IO_SEEK_SET) (\<lambda>s.
       pipeRead (cMemoryAccesserStream_io thread_accesser) s n)))))
      (\<lambda>x. fst x = take n (ws @ drop (lo + k + length ws) (take hi bs)) \<and>
        (v_isEOS (cMemoryAccesserStream_io thread_accesser) (snd x) \<longrightarrow>
           pipeRead (cMemoryAccesserStream_io thread_accesser) (snd x) n = throw EXCEPTION_ASSERTION))"
proof -
  let ?io = "cMemoryAccesserStream_io thread_accesser"
  let ?m = "cStreamMemoryAccesser_new M a (length bs)"
  let ?s = "\<lambda>m p. \<lparr>m_accesser = m, m_position = p, m_startOffset = word_of_nat lo,
    m_endOffset = word_of_nat hi, m_ignoreFragments = False\<rparr>"
  let ?p = "word_of_nat k + word_of_nat lo :: uint64"
  have len: "length bs < 2 ^ 64" using assms(1) by (simp add: buffer_at_def)
  have w: "unat (word_of_nat i :: uint64) = i" if "i \<le> length bs" for i
    using that len by (simp add: unat_of_nat take_bit_nat_eq_self)
  have u: "unat (word_of_nat lo :: uint64) = lo" "unat (word_of_nat hi :: uint64) = hi" "unat ?p = lo + k"
    using w [of lo] w [of hi] w [of "k + lo"] assms(2,3,5) by (simp_all add: add.commute)
  have v: "buffer_valid ?m" using assms(1) unfolding buffer_valid_def by blast
  have new: "cMemoryAccesserStream_new ?m (word_of_nat lo) (word_of_nat hi) False True = Inr (?s ?m (word_of_nat lo))"
    using assms(2) u by (simp add: cMemoryAccesserStream_new_def CHECK_def word_le_nat_alt)
  have i: "sint (word_of_nat k :: uint32) = int k" "scast (word_of_nat k :: uint32) = (word_of_nat k :: uint64)"
    using assms(6) by (simp_all add: signed_of_nat signed_take_bit_int_eq_self)
  have le: "word_of_nat k \<le> (word_of_nat hi - word_of_nat lo :: uint64)"
    using w [of k] u(1,2) assms(2,3,5) by (simp add: word_le_nat_alt unat_sub)
  have seek: "v_seek ?io (?s m q) (word_of_nat k) IO_SEEK_SET = ok (?s m ?p)" for m q
    using i le by (cases "k = 0")
      (simp_all add: cMemoryAccesserStream_io_def cMemoryAccesserStream_seek_def canSeek_def Let_def min_absorb1)
  have valid: "buffer.region_valid (?s ?m ?p)"
    using u v assms(2,3,5) buffer_view_new [OF assms(1)]
    by (simp add: buffer.region_valid_def word_le_nat_alt)
  have rest: "buffer.rest (?s ?m ?p) = drop (lo + k) (take hi bs)"
    using u buffer_view_new [OF assms(1)] by (simp add: buffer.rest_def drop_take)
  have fits: "length ws \<le> length (buffer.rest (?s ?m ?p))"
    unfolding rest using assms(2,3,5) by (simp add: min_absorb2)
  obtain t where t: "cMemoryAccesserStream_write thread_accesser (?s ?m ?p) ws = ok (length ws, t)"
    "t = (?s ?m ?p)\<lparr>m_accesser := m_accesser t, m_position := ?p + word_of_nat (length ws)\<rparr>"
    "buffer.region_valid t" "buffer_view (m_accesser t) = take (lo + k) bs @ ws @ drop (lo + k + length ws) bs"
    using buffer.stream_write [OF valid assms(4) fits] u buffer_view_new [OF assms(1)] by auto
  let ?t = "?s (m_accesser t) ?p"
  have "cMemoryAccesserStream_write thread_accesser (?s ?m ?p) ws = ok (length ws, t)" by (rule t(1))
  then have wr: "pipeWrite ?io (?s ?m ?p) ws = ok t"
    by (intro pipeWrite_once) (simp_all add: cMemoryAccesserStream_io_def assms(4))
  have st: "t = ?s (m_accesser t) (?p + word_of_nat (length ws))" by (subst t(2)) simp
  have seek2: "v_seek ?io t (word_of_nat k) IO_SEEK_SET = ok ?t" by (subst st) (rule seek)
  have valid2: "buffer.region_valid ?t"
    using t(3) valid t(4) assms(3,5) u arg_cong [OF st, of m_endOffset]
    by (auto simp: buffer.region_valid_def)
  have rest2: "buffer.rest ?t = ws @ drop (lo + k + length ws) (take hi bs)"
    using t(4) u assms(2,3,5) by (simp add: buffer.rest_def drop_take add.commute)
  have "yields (pipeRead ?io ?t n) (got buffer.region_valid buffer.rest (take n (buffer.rest ?t)) (drop n (buffer.rest ?t)))"
    by (rule buffer.region.pipeRead_takes_some [OF valid2]) (simp add: rest2 assms(4))
  then have "yields (pipeRead ?io ?t n) (\<lambda>x. fst x = take n (ws @ drop (lo + k + length ws) (take hi bs)) \<and>
      (v_isEOS ?io (snd x) \<longrightarrow> pipeRead ?io (snd x) n = throw EXCEPTION_ASSERTION))"
  proof (rule yields_mono)
    fix x assume x: "got buffer.region_valid buffer.rest (take n (buffer.rest ?t)) (drop n (buffer.rest ?t)) x"
    have "pipeRead ?io s n = throw EXCEPTION_ASSERTION" if "v_isEOS ?io s" for s
      using that assms(7)
      by (subst pipeRead.simps) (simp add: cMemoryAccesserStream_io_def cMemoryAccesserStream_isEOS_def
        cMemoryAccesserStream_read_def CHECK_def t_min_def)
    then show "fst x = take n (ws @ drop (lo + k + length ws) (take hi bs)) \<and>
      (v_isEOS ?io (snd x) \<longrightarrow> pipeRead ?io (snd x) n = throw EXCEPTION_ASSERTION)"
      using x by (simp add: got_def rest2)
  qed
  then show ?thesis by (simp add: new seek wr seek2)
qed

theorem accesser_stream_witness:
  "buffer_at example_memory 0x1004 [4, 5, 6, 7] \<and>
   yields
     (run_bind (of_res (cMemoryAccesserStream_new (cStreamMemoryAccesser_new example_memory 0x1004 (length [4, 5, 6, 7 :: uint8]))
        (word_of_nat 1) (word_of_nat 4) False True)) (\<lambda>s.
      run_bind (v_seek (cMemoryAccesserStream_io thread_accesser) s (word_of_nat 1) IO_SEEK_SET) (\<lambda>s.
      run_bind (pipeWrite (cMemoryAccesserStream_io thread_accesser) s [9]) (\<lambda>s.
      run_bind (v_seek (cMemoryAccesserStream_io thread_accesser) s (word_of_nat 1) IO_SEEK_SET) (\<lambda>s.
      pipeRead (cMemoryAccesserStream_io thread_accesser) s 5)))))
     (\<lambda>x. fst x = take 5 ([9] @ drop (1 + 1 + length [9 :: uint8]) (take 4 [4, 5, 6, 7])) \<and>
       (v_isEOS (cMemoryAccesserStream_io thread_accesser) (snd x) \<longrightarrow>
          pipeRead (cMemoryAccesserStream_io thread_accesser) (snd x) 5 = throw EXCEPTION_ASSERTION)) \<and>
   take 5 ([9] @ drop (1 + 1 + length [9 :: uint8]) (take 4 [4, 5, 6, 7 :: uint8])) = [9, 7]"
proof (intro conjI)
  show b: "buffer_at example_memory 0x1004 [4, 5, 6, 7]"
    by (simp add: buffer_at_def mapped_Cons example_memory_def) (simp add: mapped_def)
  show "yields
     (run_bind (of_res (cMemoryAccesserStream_new (cStreamMemoryAccesser_new example_memory 0x1004 (length [4, 5, 6, 7 :: uint8]))
        (word_of_nat 1) (word_of_nat 4) False True)) (\<lambda>s.
      run_bind (v_seek (cMemoryAccesserStream_io thread_accesser) s (word_of_nat 1) IO_SEEK_SET) (\<lambda>s.
      run_bind (pipeWrite (cMemoryAccesserStream_io thread_accesser) s [9]) (\<lambda>s.
      run_bind (v_seek (cMemoryAccesserStream_io thread_accesser) s (word_of_nat 1) IO_SEEK_SET) (\<lambda>s.
      pipeRead (cMemoryAccesserStream_io thread_accesser) s 5)))))
     (\<lambda>x. fst x = take 5 ([9] @ drop (1 + 1 + length [9 :: uint8]) (take 4 [4, 5, 6, 7])) \<and>
       (v_isEOS (cMemoryAccesserStream_io thread_accesser) (snd x) \<longrightarrow>
          pipeRead (cMemoryAccesserStream_io thread_accesser) (snd x) 5 = throw EXCEPTION_ASSERTION))"
    by (rule accesser_stream [OF b]) simp_all
qed simp

end
