(* ===== verification/XText.thy ===== *)
theory XText
  imports XMemoryAccess
begin

text \<open>
  Text streams (stream/stringerStream.cpp, marginStringerStream.cpp): a stringer turns values into
  strings and, when it waits for new lines, gives them to the virtual \<open>outputString\<close> a line at a
  time; the string stream keeps them, the margin stream indents them on another stringer. The two
  hexadecimal dumps (data/datastream.inl, utils/dumpMemory.cpp) print on any stringer.
\<close>

subsection \<open>The stringer\<close>

text \<open>
  \<open>derived\<close> holds the members of the derived class, on which its \<open>outputString\<close> acts. The lock is
  held inside of \<open>flushBuffer\<close>, \<open>flushEndlBuffer\<close> and \<open>addToRepository\<close> only; this is one thread.
\<close>

record 'd cStringerStream =
  m_lineRepository :: cString
  m_shouldWaitToNewLine :: bool
  m_base :: uint64
  derived :: 'd

definition DEFAULT_BASE :: uint64 where
  "DEFAULT_BASE = 10"

text \<open>The new line characters, with their terminator.\<close>

definition endl :: "character list" where
  "endl = [10, 0]"

definition cStringerStream_new :: "bool \<Rightarrow> 'd \<Rightarrow> 'd cStringerStream" where
  "cStringerStream_new shouldWaitToNewLine d =
     \<lparr>m_lineRepository = cString_new None, m_shouldWaitToNewLine = shouldWaitToNewLine,
      m_base = DEFAULT_BASE, derived = d\<rparr>"

text \<open>\<open>None\<close> when there is nothing to emit out.\<close>

definition cStringerStream_flushBuffer :: "'d cStringerStream \<Rightarrow> cString option \<times> 'd cStringerStream" where
  "cStringerStream_flushBuffer s =
     (let ret = m_lineRepository s in
      (if cString_length ret > 0 then Some ret else None, s\<lparr>m_lineRepository := cString_createEmptyString\<rparr>))"

definition cStringerStream_flushEndlBuffer :: "'d cStringerStream \<Rightarrow> (cString option \<times> 'd cStringerStream) res" where
  "cStringerStream_flushEndlBuffer s =
     (let els = cString_new (Some endl) in
      bind_res (cString_find (m_lineRepository s) els 0) (\<lambda>index.
      if index = cString_length (m_lineRepository s) then Inr (None, s)
      else
        let llen = cChar_getStrlen endl;
            ret = cString_left (m_lineRepository s) (to_int (index + llen))
        in Inr (Some ret, s\<lparr>m_lineRepository := cString_right (m_lineRepository s)
              (to_int (cString_length (m_lineRepository s) - index - llen))\<rparr>)))"

text \<open>\<open>out\<close> is the virtual function \<open>outputString\<close>.\<close>

definition cStringerStream_output :: "('d \<Rightarrow> cString \<Rightarrow> 'd run) \<Rightarrow> 'd cStringerStream \<Rightarrow> cString \<Rightarrow> 'd cStringerStream run" where
  "cStringerStream_output out s string = run_bind (out (derived s) string) (\<lambda>d. ok (s\<lparr>derived := d\<rparr>))"

definition cStringerStream_flush :: "('d \<Rightarrow> cString \<Rightarrow> 'd run) \<Rightarrow> 'd cStringerStream \<Rightarrow> 'd cStringerStream run" where
  "cStringerStream_flush out s =
     (case cStringerStream_flushBuffer s of
        (None, s) \<Rightarrow> ok s
      | (Some ret, s) \<Rightarrow> cStringerStream_output out s ret)"

definition cStringerStream_setBase :: "'d cStringerStream \<Rightarrow> uint64 \<Rightarrow> 'd cStringerStream" where
  "cStringerStream_setBase s newBase = s\<lparr>m_base := newBase\<rparr>"

definition cStringerStream_getBase :: "'d cStringerStream \<Rightarrow> uint64" where
  "cStringerStream_getBase s = m_base s"

partial_function (option) cStringerStream_flushNewLines ::
  "('d \<Rightarrow> cString \<Rightarrow> 'd run) \<Rightarrow> 'd cStringerStream \<Rightarrow> 'd cStringerStream run"
where
  "cStringerStream_flushNewLines out s =
     (case cStringerStream_flushEndlBuffer s of
        Inl e \<Rightarrow> throw e
      | Inr (None, s) \<Rightarrow> ok s
      | Inr (Some ret, s) \<Rightarrow>
          run_bind (cStringerStream_output out s ret) (\<lambda>s. cStringerStream_flushNewLines out s))"

definition cStringerStream_addToRepository :: "'d cStringerStream \<Rightarrow> cString \<Rightarrow> 'd cStringerStream" where
  "cStringerStream_addToRepository s data = s\<lparr>m_lineRepository := cString_concat (m_lineRepository s) data\<rparr>"

text \<open>\<open>operator <<\<close> on a string.\<close>

definition cStringerStream_put :: "('d \<Rightarrow> cString \<Rightarrow> 'd run) \<Rightarrow> 'd cStringerStream \<Rightarrow> cString \<Rightarrow> 'd cStringerStream run" where
  "cStringerStream_put out s string =
     (if m_shouldWaitToNewLine s
      then cStringerStream_flushNewLines out (cStringerStream_addToRepository s string)
      else cStringerStream_output out s string)"

text \<open>The operators on characters and on C strings, over the one on strings.\<close>

definition put_char :: "('s \<Rightarrow> cString \<Rightarrow> 's run) \<Rightarrow> 's \<Rightarrow> character \<Rightarrow> 's run" where
  "put_char emit s c = emit s (cString_new_char c)"

definition put_chars :: "('s \<Rightarrow> cString \<Rightarrow> 's run) \<Rightarrow> 's \<Rightarrow> character list \<Rightarrow> 's run" where
  "put_chars emit s asciiString = emit s (cString_new (Some asciiString))"

text \<open>The operators on numbers.\<close>

definition cStringerStream_put_int32 :: "('d \<Rightarrow> cString \<Rightarrow> 'd run) \<Rightarrow> 'd cStringerStream \<Rightarrow> uint32 \<Rightarrow> 'd cStringerStream run" where
  "cStringerStream_put_int32 out s n = run_bind (cString_new_int32 n (m_base s)) (cStringerStream_put out s)"

definition cStringerStream_put_int64 :: "('d \<Rightarrow> cString \<Rightarrow> 'd run) \<Rightarrow> 'd cStringerStream \<Rightarrow> uint64 \<Rightarrow> 'd cStringerStream run" where
  "cStringerStream_put_int64 out s n = run_bind (cString_new_int64 n (m_base s)) (cStringerStream_put out s)"

definition cStringerStream_put_uint8 :: "('d \<Rightarrow> cString \<Rightarrow> 'd run) \<Rightarrow> 'd cStringerStream \<Rightarrow> uint8 \<Rightarrow> 'd cStringerStream run" where
  "cStringerStream_put_uint8 out s n = run_bind (cString_new_uint32 (ucast n) (m_base s)) (cStringerStream_put out s)"

definition cStringerStream_put_uint16 :: "('d \<Rightarrow> cString \<Rightarrow> 'd run) \<Rightarrow> 'd cStringerStream \<Rightarrow> uint16 \<Rightarrow> 'd cStringerStream run" where
  "cStringerStream_put_uint16 out s n = run_bind (cString_new_uint32 (ucast n) (m_base s)) (cStringerStream_put out s)"

definition cStringerStream_put_uint32 :: "('d \<Rightarrow> cString \<Rightarrow> 'd run) \<Rightarrow> 'd cStringerStream \<Rightarrow> uint32 \<Rightarrow> 'd cStringerStream run" where
  "cStringerStream_put_uint32 out s n = run_bind (cString_new_uint32 n (m_base s)) (cStringerStream_put out s)"

definition cStringerStream_put_uint64 :: "('d \<Rightarrow> cString \<Rightarrow> 'd run) \<Rightarrow> 'd cStringerStream \<Rightarrow> uint64 \<Rightarrow> 'd cStringerStream run" where
  "cStringerStream_put_uint64 out s n = run_bind (cString_new_uint64 n (m_base s)) (cStringerStream_put out s)"

subsection \<open>The derived streams\<close>

text \<open>A string stream keeps its text in \<open>m_data\<close>.\<close>

definition cStringStream_new :: "cString cStringerStream" where
  "cStringStream_new = cStringerStream_new False (cString_new None)"

definition cStringStream_getData :: "cString cStringerStream \<Rightarrow> cString" where
  "cStringStream_getData s = derived s"

definition cStringStream_clean :: "cString cStringerStream \<Rightarrow> cString cStringerStream" where
  "cStringStream_clean s = s\<lparr>derived := cString_createEmptyString\<rparr>"

definition cStringStream_outputString :: "cString \<Rightarrow> cString \<Rightarrow> cString run" where
  "cStringStream_outputString data string = ok (cString_concat data string)"

definition cNullStringerStream_outputString :: "unit \<Rightarrow> cString \<Rightarrow> unit run" where
  "cNullStringerStream_outputString d string = ok d"

text \<open>A margin stream refers to the stream below it, of any kind, which \<open>emit\<close> writes on.\<close>

record 's margin =
  m_output :: 's
  m_margin :: uint64
  m_marginChar :: cString

definition cMarginStringerStream_new :: "'s \<Rightarrow> uint64 \<Rightarrow> character \<Rightarrow> 's margin cStringerStream" where
  "cMarginStringerStream_new output margin marginChar =
     cStringerStream_new True \<lparr>m_output = output, m_margin = margin, m_marginChar = cString_new_char marginChar\<rparr>"

definition cMarginStringerStream_setMargin :: "'s margin cStringerStream \<Rightarrow> uint64 \<Rightarrow> 's margin cStringerStream" where
  "cMarginStringerStream_setMargin s newMargin = s\<lparr>derived := (derived s)\<lparr>m_margin := newMargin\<rparr>\<rparr>"

definition cMarginStringerStream_getMargin :: "'s margin cStringerStream \<Rightarrow> uint64" where
  "cMarginStringerStream_getMargin s = m_margin (derived s)"

definition cMarginStringerStream_increase :: "'s margin cStringerStream \<Rightarrow> uint64 \<Rightarrow> 's margin cStringerStream" where
  "cMarginStringerStream_increase s marginInc =
     s\<lparr>derived := (derived s)\<lparr>m_margin := m_margin (derived s) + marginInc\<rparr>\<rparr>"

definition cMarginStringerStream_decrease :: "'s margin cStringerStream \<Rightarrow> uint64 \<Rightarrow> 's margin cStringerStream" where
  "cMarginStringerStream_decrease s marginDec =
     s\<lparr>derived := (derived s)\<lparr>m_margin := m_margin (derived s) - marginDec\<rparr>\<rparr>"

definition cMarginStringerStream_outputString :: "('s \<Rightarrow> cString \<Rightarrow> 's run) \<Rightarrow> 's margin \<Rightarrow> cString \<Rightarrow> 's margin run" where
  "cMarginStringerStream_outputString emit d string =
     run_bind (emit (m_output d) (cString_dup (m_marginChar d) (unat (m_margin d)))) (\<lambda>s.
     run_bind (emit s string) (\<lambda>s. ok (d\<lparr>m_output := s\<rparr>)))"

subsection \<open>The dump of a buffer\<close>

text \<open>
  \<open>DATA8\<close>, a dump of bytes. The row \<open>data\<close> of the printed characters starts with what its
  memory held.
\<close>

record DUMP =
  d_flags :: uint32
  d_elementsInRow :: nat
  d_startAddress :: uint64
  d_segmentName :: "character list option"

definition DATA_USE_ADDRESS :: uint32 where
  "DATA_USE_ADDRESS = 1"

definition DATA8_new :: DUMP where
  "DATA8_new = \<lparr>d_flags = DATA_USE_ADDRESS, d_elementsInRow = 16, d_startAddress = 0, d_segmentName = None\<rparr>"

fun put_row :: "('s \<Rightarrow> cString \<Rightarrow> 's run) \<Rightarrow> 's \<Rightarrow> uint8 list \<Rightarrow> 's run" where
  "put_row emit s [] = ok s"
| "put_row emit s (c # cs) = run_bind (put_char emit s c) (\<lambda>s. put_row emit s cs)"

definition put_address :: "('s \<Rightarrow> cString \<Rightarrow> 's run) \<Rightarrow> DUMP \<Rightarrow> 's \<Rightarrow> uint64 \<Rightarrow> 's run" where
  "put_address emit obj s address =
     run_bind
       (case d_segmentName obj of None \<Rightarrow> ok s
        | Some name \<Rightarrow> run_bind (put_chars emit s name) (\<lambda>s. put_chars emit s (lit '':'' @ [0]))) (\<lambda>s.
     if d_flags obj AND DATA_USE_ADDRESS \<noteq> 0
     then run_bind (emit s (HEXADDRESS address)) (\<lambda>s. put_chars emit s (lit ''   '' @ [0]))
     else ok s)"

fun hexDump_loop ::
  "('s \<Rightarrow> cString \<Rightarrow> 's run) \<Rightarrow> DUMP \<Rightarrow> uint8 list \<Rightarrow> uint64 \<Rightarrow> nat \<Rightarrow> uint8 list \<Rightarrow> 's \<Rightarrow> (nat \<times> uint8 list \<times> 's) run"
where
  "hexDump_loop emit obj [] address element data s = ok (element, data, s)"
| "hexDump_loop emit obj (db # bs) address element data s =
     run_bind (if element = 0 then put_address emit obj s address else ok s) (\<lambda>s.
     if element \<ge> length data then throw EXCEPTION_OUT_OF_RANGE
     else
       let data = data[element := DB db 0x2E] in
       run_bind (put_char emit s (HEXHIGH db)) (\<lambda>s.
       run_bind (put_char emit s (HEXLOW db)) (\<lambda>s.
       run_bind (if odd element then put_chars emit s (lit '' '' @ [0]) else ok s) (\<lambda>s.
       let element = (element + 1) mod d_elementsInRow obj in
       run_bind
         (if element = 0
          then run_bind (put_row emit s (take (d_elementsInRow obj) data)) (\<lambda>s. put_chars emit s endl)
          else ok s) (\<lambda>s.
       hexDump_loop emit obj bs (address + 1) element data s)))))"

fun put_padding :: "('s \<Rightarrow> cString \<Rightarrow> 's run) \<Rightarrow> nat \<Rightarrow> nat \<Rightarrow> 's \<Rightarrow> 's run" where
  "put_padding emit element 0 s = ok s"
| "put_padding emit element (Suc k) s =
     run_bind (put_chars emit s (lit ''  '' @ [0])) (\<lambda>s.
     run_bind (if odd element then put_chars emit s (lit '' '' @ [0]) else ok s) (\<lambda>s.
     put_padding emit (element + 1) k s))"

definition hexDumpObject ::
  "('s \<Rightarrow> cString \<Rightarrow> 's run) \<Rightarrow> DUMP \<Rightarrow> uint8 list \<Rightarrow> (nat \<Rightarrow> uint8) \<Rightarrow> 's \<Rightarrow> 's run"
where
  "hexDumpObject emit obj bytes mem s =
     run_bind (hexDump_loop emit obj bytes (d_startAddress obj) 0 (map mem [0..<d_elementsInRow obj]) s) (\<lambda>(element, data, s).
     if element = 0 then ok s
     else
       run_bind (put_padding emit element (d_elementsInRow obj - element) s) (\<lambda>s.
       run_bind (put_row emit s (take element data)) (\<lambda>s.
       put_chars emit s endl)))"

text \<open>\<open>write\<close> and the operator on a buffer print the dump.\<close>

definition cStringerStream_write ::
  "('d \<Rightarrow> cString \<Rightarrow> 'd run) \<Rightarrow> 'd cStringerStream \<Rightarrow> uint8 list \<Rightarrow> (nat \<Rightarrow> uint8) \<Rightarrow> (nat \<times> 'd cStringerStream) run"
where
  "cStringerStream_write out s buffer mem =
     run_bind (hexDumpObject (cStringerStream_put out) DATA8_new buffer mem s) (\<lambda>s. ok (length buffer, s))"

definition cStringerStream_put_buffer ::
  "('d \<Rightarrow> cString \<Rightarrow> 'd run) \<Rightarrow> 'd cStringerStream \<Rightarrow> uint8 list \<Rightarrow> (nat \<Rightarrow> uint8) \<Rightarrow> 'd cStringerStream run"
where
  "cStringerStream_put_buffer out s rawData mem =
     run_bind (cStringerStream_write out s rawData mem) (\<lambda>(_, s). ok s)"

subsection \<open>The dump of a memory\<close>

text \<open>The two constructors, which \<open>m_shouldReadMemory\<close> tells apart.\<close>

datatype 'a DumpMemory =
    Dump_memory (dump_memory: 'a) (dump_start: uint64) (dump_end: uint64) (dump_relocation: uint64) (dump_count: nat)
  | Dump_buffer (dump_buffer: "uint8 list") (dump_fragments: fragments) (dump_address: remoteAddressNumericValue) (dump_count: nat)

definition DumpMemory_new_memory :: "'a \<Rightarrow> uint64 \<Rightarrow> uint64 \<Rightarrow> uint64 \<Rightarrow> nat \<Rightarrow> 'a DumpMemory" where
  "DumpMemory_new_memory memory startAddress endAddress relocation elementsCount =
     (if startAddress > endAddress
      then Dump_memory memory endAddress startAddress relocation elementsCount
      else Dump_memory memory startAddress endAddress relocation elementsCount)"

definition DumpMemory_new_buffer :: "uint8 list \<Rightarrow> fragments \<Rightarrow> remoteAddressNumericValue \<Rightarrow> nat \<Rightarrow> 'a DumpMemory" where
  "DumpMemory_new_buffer buffer fragments startAddress elementsCount =
     Dump_buffer buffer fragments startAddress elementsCount"

definition next_address :: "remoteAddressNumericValue \<Rightarrow> nat \<Rightarrow> remoteAddressNumericValue" where
  "next_address a n = a\<lparr>m_union := m_union a + word_of_nat n\<rparr>"

definition data_at :: "uint8 option list \<Rightarrow> nat \<Rightarrow> uint8 res" where
  "data_at data j =
     (if j < length data then case data ! j of None \<Rightarrow> Inl UNDEFINED_BEHAVIOUR | Some b \<Rightarrow> Inr b
      else Inl UNDEFINED_BEHAVIOUR)"

text \<open>The break in the middle is behind the byte \<open>count / 2 - 1\<close>, a number that wraps around.\<close>

definition put_break :: "('s \<Rightarrow> cString \<Rightarrow> 's run) \<Rightarrow> nat \<Rightarrow> nat \<Rightarrow> 's \<Rightarrow> 's run" where
  "put_break emit elementsCount j s =
     (if word_of_nat j = (word_of_nat (elementsCount div 2) - 1 :: uint64) then put_chars emit s (lit ''-'' @ [0])
      else if odd j then put_chars emit s (lit '' '' @ [0])
      else ok s)"

fun dump_bytes ::
  "('s \<Rightarrow> cString \<Rightarrow> 's run) \<Rightarrow> nat \<Rightarrow> fragments \<Rightarrow> uint8 option list \<Rightarrow> nat \<Rightarrow> nat \<Rightarrow> remoteAddressNumericValue \<Rightarrow> 's \<Rightarrow> 's run"
where
  "dump_bytes emit elementsCount fragments data j 0 addr s = ok s"
| "dump_bytes emit elementsCount fragments data j (Suc k) addr s =
     run_bind (of_res (cFragmentsDescriptor_isMemoryValid fragments addr)) (\<lambda>valid.
     run_bind
       (if valid then run_bind (of_res (data_at data j)) (\<lambda>b. emit s (HEXBYTE b))
        else put_chars emit s (lit ''??'' @ [0])) (\<lambda>s.
     run_bind (put_break emit elementsCount j s) (\<lambda>s.
     dump_bytes emit elementsCount fragments data (j + 1) k (next_address addr 1) s)))"

fun dump_padding :: "('s \<Rightarrow> cString \<Rightarrow> 's run) \<Rightarrow> nat \<Rightarrow> nat \<Rightarrow> 's \<Rightarrow> 's run" where
  "dump_padding emit j 0 s = ok s"
| "dump_padding emit j (Suc k) s =
     run_bind (if odd j then put_chars emit s (lit ''   '' @ [0]) else put_chars emit s (lit ''  '' @ [0])) (\<lambda>s.
     dump_padding emit (j + 1) k s)"

fun dump_characters ::
  "('s \<Rightarrow> cString \<Rightarrow> 's run) \<Rightarrow> fragments \<Rightarrow> uint8 option list \<Rightarrow> nat \<Rightarrow> nat \<Rightarrow> remoteAddressNumericValue \<Rightarrow> 's \<Rightarrow> 's run"
where
  "dump_characters emit fragments data j 0 addr s = ok s"
| "dump_characters emit fragments data j (Suc k) addr s =
     run_bind (of_res (cFragmentsDescriptor_isMemoryValid fragments addr)) (\<lambda>valid.
     run_bind
       (if valid
        then run_bind (of_res (data_at data j)) (\<lambda>b.
          if \<not> cChar_isPrintable b then put_chars emit s (lit ''.'' @ [0]) else put_char emit s b)
        else put_chars emit s (lit ''?'' @ [0])) (\<lambda>s.
     dump_characters emit fragments data (j + 1) k (next_address addr 1) s))"

definition DumpMemory_internalDumpLine ::
  "('s \<Rightarrow> cString \<Rightarrow> 's run) \<Rightarrow> nat \<Rightarrow> remoteAddressNumericValue \<Rightarrow> nat \<Rightarrow> uint8 option list \<Rightarrow> fragments \<Rightarrow> 's \<Rightarrow> 's run"
where
  "DumpMemory_internalDumpLine emit elementsCount pos cnt data fragments s =
     run_bind (emit s (HEXREMOTEADDRESS pos)) (\<lambda>s.
     run_bind (put_chars emit s (lit ''   '' @ [0])) (\<lambda>s.
     run_bind (dump_bytes emit elementsCount fragments data 0 cnt pos s) (\<lambda>s.
     run_bind (dump_padding emit cnt (elementsCount - cnt) s) (\<lambda>s.
     run_bind (put_chars emit s (lit '' '' @ [0])) (\<lambda>s.
     run_bind (dump_characters emit fragments data 0 cnt pos s) (\<lambda>s.
     put_chars emit s endl))))))"

text \<open>A byte that \<open>memread\<close> does not store keeps what the row before left there.\<close>

definition DumpMemory_dumpLine ::
  "'a accesser \<Rightarrow> ('s \<Rightarrow> cString \<Rightarrow> 's run) \<Rightarrow> 'a DumpMemory \<Rightarrow> uint64 \<Rightarrow> nat \<Rightarrow> uint8 option list \<Rightarrow> 's \<Rightarrow>
     (uint8 option list \<times> 's) run"
where
  "DumpMemory_dumpLine acc emit m pos cnt data s =
     run_bind (of_res (a_memread acc (dump_memory m) pos (length data) (Some cFragmentsDescriptor_new))) (\<lambda>(_, bs, fragments).
     let data = map2 (\<lambda>old new. if new = None then old else new) data bs in
     run_bind (DumpMemory_internalDumpLine emit (dump_count m)
         (remoteAddress_new (pos - dump_relocation m) DEFAULT_REMOTE_ADDRESS_ENCODING) cnt data (the fragments) s) (\<lambda>s.
     ok (data, s)))"

fun dump_memory_lines ::
  "'a accesser \<Rightarrow> ('s \<Rightarrow> cString \<Rightarrow> 's run) \<Rightarrow> 'a DumpMemory \<Rightarrow> nat \<Rightarrow> uint64 \<Rightarrow> uint8 option list \<Rightarrow> 's \<Rightarrow>
     (uint64 \<times> uint8 option list \<times> 's) run"
where
  "dump_memory_lines acc emit m 0 pos data s = ok (pos, data, s)"
| "dump_memory_lines acc emit m (Suc k) pos data s =
     run_bind (DumpMemory_dumpLine acc emit m pos (dump_count m) data s) (\<lambda>(data, s).
     dump_memory_lines acc emit m k (pos + word_of_nat (dump_count m)) data s)"

fun dump_buffer_lines ::
  "('s \<Rightarrow> cString \<Rightarrow> 's run) \<Rightarrow> nat \<Rightarrow> fragments \<Rightarrow> nat \<Rightarrow> remoteAddressNumericValue \<Rightarrow> uint8 list \<Rightarrow> 's \<Rightarrow>
     (remoteAddressNumericValue \<times> uint8 list \<times> 's) run"
where
  "dump_buffer_lines emit elementsCount fragments 0 addr pos s = ok (addr, pos, s)"
| "dump_buffer_lines emit elementsCount fragments (Suc k) addr pos s =
     run_bind (DumpMemory_internalDumpLine emit elementsCount addr elementsCount (map Some pos) fragments s) (\<lambda>s.
     dump_buffer_lines emit elementsCount fragments k (next_address addr elementsCount) (drop elementsCount pos) s)"

text \<open>\<open>operator <<\<close> on a dump. A row of no elements divides by zero.\<close>

definition put_DumpMemory ::
  "'a accesser \<Rightarrow> ('s \<Rightarrow> cString \<Rightarrow> 's run) \<Rightarrow> 'a DumpMemory \<Rightarrow> (nat \<Rightarrow> uint8 option) \<Rightarrow> 's \<Rightarrow> 's run"
where
  "put_DumpMemory acc emit m mem s =
     (if dump_count m = 0 then throw UNDEFINED_BEHAVIOUR
      else case m of
        Dump_memory a start end relocation n \<Rightarrow>
          run_bind (dump_memory_lines acc emit m (unat (end - start) div n) start (map mem [0..<n]) s) (\<lambda>(pos, data, s).
          let left = end - pos in
          if left \<noteq> 0
          then run_bind (DumpMemory_dumpLine acc emit m pos (unat left) data s) (\<lambda>(_, s). ok s)
          else ok s)
      | Dump_buffer buffer fragments address n \<Rightarrow>
          run_bind (dump_buffer_lines emit n fragments (length buffer div n) address buffer s) (\<lambda>(addr, pos, s).
          if pos \<noteq> []
          then DumpMemory_internalDumpLine emit n addr (length pos) (map Some pos) fragments s
          else ok s))"

subsection \<open>Lines\<close>

text \<open>The complete lines of a text, each with its new line character, and what is left behind them.\<close>

fun full_lines :: "character list \<Rightarrow> character list list" where
  "full_lines [] = []"
| "full_lines (c # cs) =
     (if c = 10 then [10] # full_lines cs
      else case full_lines cs of [] \<Rightarrow> [] | l # ls \<Rightarrow> (c # l) # ls)"

fun last_line :: "character list \<Rightarrow> character list" where
  "last_line [] = []"
| "last_line (c # cs) = (if c = 10 \<or> 10 \<in> set cs then last_line cs else c # cs)"

lemma full_lines_Nil_iff: "full_lines cs = [] \<longleftrightarrow> 10 \<notin> set cs"
  by (induction cs) (auto split: list.splits)

lemma last_line_id: "10 \<notin> set cs \<Longrightarrow> last_line cs = cs"
  by (induction cs) auto

lemma full_lines_cut: "10 \<notin> set a \<Longrightarrow> full_lines (a @ 10 # b) = (a @ [10]) # full_lines b"
  by (induction a) auto

lemma last_line_cut: "10 \<notin> set a \<Longrightarrow> last_line (a @ 10 # b) = last_line b"
  by (induction a) auto

lemma cut_line:
  assumes "10 \<in> set cs"
  obtains a b where "cs = a @ 10 # b" "10 \<notin> set a"
  using split_list_first [OF assms] by blast

lemma lines_text: "concat (full_lines cs) @ last_line cs = cs"
proof (induction "length cs" arbitrary: cs rule: less_induct)
  case less
  show ?case
  proof (cases "10 \<in> set cs")
    case True
    then obtain a b where "cs = a @ 10 # b" "10 \<notin> set a" by (rule cut_line)
    then show ?thesis using less [of b] by (simp add: full_lines_cut last_line_cut)
  qed (simp add: full_lines_Nil_iff [THEN iffD2] last_line_id)
qed

lemma last_line_no_newline: "10 \<notin> set (last_line cs)"
  by (induction cs) auto

lemma last_line_sub: "set (last_line cs) \<subseteq> set cs" "length (last_line cs) \<le> length cs"
  by (induction cs) auto

lemma lines_append:
  "full_lines (a @ b) = full_lines a @ full_lines (last_line a @ b)"
  "last_line (a @ b) = last_line (last_line a @ b)"
proof (induction "length a" arbitrary: a rule: less_induct)
  case less
  {
    case 1
    show ?case
    proof (cases "10 \<in> set a")
      case True
      then obtain x y where "a = x @ 10 # y" "10 \<notin> set x" by (rule cut_line)
      then show ?thesis using less(1) [of y] by (simp add: full_lines_cut last_line_cut)
    qed (simp add: full_lines_Nil_iff [THEN iffD2] last_line_id)
  next
    case 2
    show ?case
    proof (cases "10 \<in> set a")
      case True
      then obtain x y where "a = x @ 10 # y" "10 \<notin> set x" by (rule cut_line)
      then show ?thesis using less(2) [of y] by (simp add: last_line_cut)
    qed (simp add: last_line_id)
  }
qed

lemma full_lines_prefix: "\<forall>l \<in> set (full_lines cs). \<exists>a. l = a @ [10] \<and> 10 \<notin> set a"
proof (induction "length cs" arbitrary: cs rule: less_induct)
  case less
  show ?case
  proof (cases "10 \<in> set cs")
    case True
    then obtain a b where "cs = a @ 10 # b" "10 \<notin> set a" by (rule cut_line)
    then show ?thesis using less [of b] by (auto simp: full_lines_cut)
  qed (simp add: full_lines_Nil_iff [THEN iffD2])
qed

subsection \<open>A stringer puts out one line at a time\<close>

lemma endl_string: "cString_new (Some endl) = cstr [10]" "cChar_getStrlen endl = 1"
  using new_simps(3) [of "[10]" "[]"] strlen_simp [of "[10]" "[]"] by (simp_all add: endl_def)

lemma find_newline:
  "10 \<notin> set a \<Longrightarrow> cString_find (cstr (a @ 10 # b)) (cstr [10]) 0 = Inr (length a)"
  by (rule find_single) (auto simp: nth_append in_set_conv_nth)

lemma find_no_newline: "10 \<notin> set a \<Longrightarrow> cString_find (cstr a) (cstr [10]) 0 = Inr (length a)"
  by (rule find_single) (auto simp: in_set_conv_nth)

lemma flushEndlBuffer_line:
  assumes "m_lineRepository s = cstr (a @ 10 # b)" and "10 \<notin> set a" and "nonul (a @ 10 # b)"
    and "length (a @ 10 # b) < 2 ^ 31"
  shows "cStringerStream_flushEndlBuffer s = Inr (Some (cstr (a @ [10])), s\<lparr>m_lineRepository := cstr b\<rparr>)"
proof -
  have "nat (1 + int (length a)) = Suc (length a)" by simp
  then show ?thesis
    using assms find_newline [of a b] left_simp [OF assms(3,4)] right_simp [OF assms(3,4)]
    by (simp add: cStringerStream_flushEndlBuffer_def Let_def endl_string to_int_small)
qed

lemma flushEndlBuffer_none:
  "m_lineRepository s = cstr a \<Longrightarrow> 10 \<notin> set a \<Longrightarrow> cStringerStream_flushEndlBuffer s = Inr (None, s)"
  by (simp add: cStringerStream_flushEndlBuffer_def Let_def endl_string find_no_newline)

subsection \<open>What a stream of text promises\<close>

text \<open>
  \<open>R s h\<close>: the state \<open>s\<close> of the stream is one that is reached by the text \<open>h\<close>. A stream may refuse
  texts that do not fit.
\<close>

locale text_sink =
  fixes emit :: "'s \<Rightarrow> cString \<Rightarrow> 's run"
    and R :: "'s \<Rightarrow> character list \<Rightarrow> bool"
    and fits :: "character list \<Rightarrow> bool"
  assumes emit_law: "R s h \<Longrightarrow> nonul cs \<Longrightarrow> fits (h @ cs) \<Longrightarrow> yields (emit s (cstr cs)) (\<lambda>t. R t (h @ cs))"
    and fits_law: "fits (a @ b) \<Longrightarrow> fits a"

definition indent :: "character list \<Rightarrow> character list \<Rightarrow> character list" where
  "indent p h = concat (map ((@) p) (full_lines h))"

lemma indent_simps:
  "10 \<notin> set a \<Longrightarrow> indent p (a @ 10 # b) = p @ a @ 10 # indent p b"
  "10 \<notin> set a \<Longrightarrow> indent p a = []"
  by (simp_all add: indent_def full_lines_cut full_lines_Nil_iff [THEN iffD2])

lemma indent_append: "indent p (a @ b) = indent p a @ indent p (last_line a @ b)"
  using lines_append(1) [of a b] by (simp add: indent_def)

definition margin_text :: "'s margin \<Rightarrow> character list \<Rightarrow> bool" where
  "margin_text d p \<longleftrightarrow> (\<exists>c. nonul c \<and> m_marginChar d = cstr c \<and> p = concat (replicate (unat (m_margin d)) c))"

definition margin_rel ::
  "character list \<Rightarrow> ('s \<Rightarrow> character list \<Rightarrow> bool) \<Rightarrow> 's margin cStringerStream \<Rightarrow> character list \<Rightarrow> bool"
where
  "margin_rel p R s h \<longleftrightarrow> m_shouldWaitToNewLine s \<and> margin_text (derived s) p \<and> nonul h \<and>
     m_lineRepository s = cstr (last_line h) \<and> R (m_output (derived s)) (indent p h)"

definition margin_fits :: "character list \<Rightarrow> (character list \<Rightarrow> bool) \<Rightarrow> character list \<Rightarrow> bool" where
  "margin_fits p fits h \<longleftrightarrow> length h < 2 ^ 31 \<and> fits (indent p h)"

definition margin_put :: "('s \<Rightarrow> cString \<Rightarrow> 's run) \<Rightarrow> 's margin cStringerStream \<Rightarrow> cString \<Rightarrow> 's margin cStringerStream run" where
  "margin_put emit = cStringerStream_put (cMarginStringerStream_outputString emit)"

context text_sink
begin

lemma margin_output:
  assumes "margin_text d p" and "R (m_output d) h" and "nonul cs" and "fits (h @ p @ cs)"
  shows "yields (cMarginStringerStream_outputString emit d (cstr cs))
      (\<lambda>e. R (m_output e) (h @ p @ cs) \<and> e = d\<lparr>m_output := m_output e\<rparr>)"
proof -
  obtain c where c: "nonul c" "m_marginChar d = cstr c" "p = concat (replicate (unat (m_margin d)) c)"
    using assms(1) by (auto simp: margin_text_def)
  have p: "nonul p" "cString_dup (m_marginChar d) (unat (m_margin d)) = cstr p"
    using c by (simp_all add: nonul_concat_replicate dup_simp)
  have f: "fits (h @ p)" by (rule fits_law [of _ cs]) (use assms(4) in simp)
  show ?thesis
    unfolding cMarginStringerStream_outputString_def p(2)
    by (rule yields_bind [OF emit_law [OF assms(2) p(1) f]], rule yields_bind [OF emit_law [of _ "h @ p", OF _ assms(3)]])
      (use assms(4) in simp_all)
qed

lemma margin_flush:
  assumes "m_lineRepository s = cstr r" and "nonul r" and "length r < 2 ^ 31"
    and "margin_text (derived s) p" and "R (m_output (derived s)) h" and "fits (h @ indent p r)"
  shows "yields (cStringerStream_flushNewLines (cMarginStringerStream_outputString emit) s)
      (\<lambda>t. m_lineRepository t = cstr (last_line r) \<and> m_shouldWaitToNewLine t = m_shouldWaitToNewLine s \<and>
        margin_text (derived t) p \<and> R (m_output (derived t)) (h @ indent p r))"
  using assms
proof (induction "length r" arbitrary: r s h rule: less_induct)
  case less
  show ?case
  proof (cases "10 \<in> set r")
    case False
    then show ?thesis using less.prems
      by (subst cStringerStream_flushNewLines.simps)
        (simp add: flushEndlBuffer_none last_line_id indent_simps)
  next
    case True
    then obtain a b where r: "r = a @ 10 # b" "10 \<notin> set a" by (rule cut_line)
    let ?s = "s\<lparr>m_lineRepository := cstr b\<rparr>" and ?h = "h @ p @ a @ [10]"
    have n: "nonul (a @ [10])" "nonul b" "length b < length r" "length b < 2 ^ 31" using less.prems(2,3) r by simp_all
    have f: "fits (?h @ indent p b)" using less.prems(6) r by (simp add: indent_simps)
    have line: "cStringerStream_flushEndlBuffer s = Inr (Some (cstr (a @ [10])), ?s)"
      using less.prems r by (intro flushEndlBuffer_line) simp_all
    have f': "fits (h @ p @ a @ [10])" by (rule fits_law [of _ "indent p b"]) (use f in simp)
    have "yields (cMarginStringerStream_outputString emit (derived s) (cstr (a @ [10])))
        (\<lambda>e. R (m_output e) ?h \<and> e = (derived s)\<lparr>m_output := m_output e\<rparr>)"
      by (rule margin_output [OF less.prems(4,5) n(1) f'])
    then obtain e where e: "cMarginStringerStream_outputString emit (derived s) (cstr (a @ [10])) = ok e"
      "R (m_output e) ?h" "e = (derived s)\<lparr>m_output := m_output e\<rparr>"
      by (rule yieldsE) blast
    have m: "margin_text e p" using less.prems(4) by (subst e(3)) (simp add: margin_text_def)
    have "yields (cStringerStream_flushNewLines (cMarginStringerStream_outputString emit) (?s\<lparr>derived := e\<rparr>))
      (\<lambda>t. m_lineRepository t = cstr (last_line b) \<and> m_shouldWaitToNewLine t = m_shouldWaitToNewLine (?s\<lparr>derived := e\<rparr>) \<and>
        margin_text (derived t) p \<and> R (m_output (derived t)) (?h @ indent p b))"
      by (rule less.hyps [OF n(3)]) (use n f e(2) m in simp_all)
    then show ?thesis
      using line e(1) r by (subst cStringerStream_flushNewLines.simps)
        (simp add: cStringerStream_output_def last_line_cut indent_simps)
  qed
qed

lemma margin_sink: "text_sink (margin_put emit) (margin_rel p R) (margin_fits p fits)"
proof
  fix s h and cs :: "character list"
  assume s: "margin_rel p R s h" and cs: "nonul cs" and f: "margin_fits p fits (h @ cs)"
  let ?r = "last_line h @ cs" and ?g = "indent p h"
  have h: "nonul h" "m_lineRepository s = cstr (last_line h)" "margin_text (derived s) p" "m_shouldWaitToNewLine s"
    "R (m_output (derived s)) ?g"
    using s by (simp_all add: margin_rel_def)
  have r: "nonul ?r" "length ?r < 2 ^ 31"
    using h(1) cs f last_line_sub [of h] by (auto simp: nonul_def margin_fits_def)
  have add: "m_lineRepository (cStringerStream_addToRepository s (cstr cs)) = cstr ?r"
    using h(1,2) cs r(1) by (simp add: cStringerStream_addToRepository_def cstr_simps)
  have "yields (cStringerStream_flushNewLines (cMarginStringerStream_outputString emit) (cStringerStream_addToRepository s (cstr cs)))
      (\<lambda>t. m_lineRepository t = cstr (last_line ?r) \<and> m_shouldWaitToNewLine t = m_shouldWaitToNewLine (cStringerStream_addToRepository s (cstr cs)) \<and>
        margin_text (derived t) p \<and> R (m_output (derived t)) (?g @ indent p ?r))"
    by (rule margin_flush [OF add r]) (use h f in \<open>simp_all add: cStringerStream_addToRepository_def margin_fits_def indent_append [of p h cs]\<close>)
  then have "yields (cStringerStream_flushNewLines (cMarginStringerStream_outputString emit) (cStringerStream_addToRepository s (cstr cs)))
      (\<lambda>t. margin_rel p R t (h @ cs))"
    by (rule yields_mono)
      (use h cs in \<open>simp add: margin_rel_def cStringerStream_addToRepository_def indent_append [of p h cs] lines_append(2) [of h cs]\<close>)
  then show "yields (margin_put emit s (cstr cs)) (\<lambda>t. margin_rel p R t (h @ cs))"
    using h(4) by (simp add: margin_put_def cStringerStream_put_def)
next
  fix a b assume "margin_fits p fits (a @ b)"
  then show "margin_fits p fits a"
    using fits_law by (auto simp: margin_fits_def indent_append [of p a b])
qed

lemma margin_flush_rest:
  assumes "margin_rel p R s h" and "fits (indent p h @ p @ last_line h)"
  shows "yields (cStringerStream_flush (cMarginStringerStream_outputString emit) s)
      (\<lambda>t. m_lineRepository t = cstr [] \<and>
        R (m_output (derived t)) (indent p h @ (if last_line h = [] then [] else p @ last_line h)))"
proof -
  have h: "nonul (last_line h)" "m_lineRepository s = cstr (last_line h)" "margin_text (derived s) p"
    "R (m_output (derived s)) (indent p h)"
    using assms(1) last_line_sub [of h] by (auto simp: margin_rel_def nonul_def)
  show ?thesis
  proof (cases "last_line h = []")
    case True
    then show ?thesis using h by (simp add: cStringerStream_flush_def cStringerStream_flushBuffer_def Let_def cstr_simps)
  next
    case False
    then show ?thesis
      using h margin_output [OF h(3,4,1) assms(2)]
      by (auto simp: cStringerStream_flush_def cStringerStream_flushBuffer_def Let_def cstr_simps
        cStringerStream_output_def yields_def)
  qed
qed

end

subsection \<open>Strings and margins\<close>

definition str_put :: "cString cStringerStream \<Rightarrow> cString \<Rightarrow> cString cStringerStream run" where
  "str_put = cStringerStream_put cStringStream_outputString"

definition str_rel :: "cString cStringerStream \<Rightarrow> character list \<Rightarrow> bool" where
  "str_rel s h \<longleftrightarrow> \<not> m_shouldWaitToNewLine s \<and> nonul h \<and> cStringStream_getData s = cstr h"

interpretation str: text_sink str_put str_rel "\<lambda>_. True"
  by unfold_locales
    (auto simp: str_put_def str_rel_def cStringerStream_put_def cStringerStream_output_def
      cStringStream_outputString_def cStringStream_getData_def concat_simp)

interpretation margin_str: text_sink "margin_put str_put" "margin_rel p str_rel" "margin_fits p (\<lambda>_. True)" for p
  by (rule str.margin_sink)

interpretation margin_margin_str: text_sink "margin_put (margin_put str_put)" "margin_rel p (margin_rel q str_rel)"
    "margin_fits p (margin_fits q (\<lambda>_. True))" for p q
  by (rule margin_str.margin_sink)

text \<open>A sequence of \<open>operator <<\<close>.\<close>

fun put_all :: "('s \<Rightarrow> cString \<Rightarrow> 's run) \<Rightarrow> 's \<Rightarrow> cString list \<Rightarrow> 's run" where
  "put_all emit s [] = ok s"
| "put_all emit s (c # cs) = run_bind (emit s c) (\<lambda>s. put_all emit s cs)"

context text_sink
begin

lemma put_all_law:
  "R s h \<Longrightarrow> list_all nonul css \<Longrightarrow> fits (h @ concat css) \<Longrightarrow>
     yields (put_all emit s (map cstr css)) (\<lambda>t. R t (h @ concat css))"
proof (induction css arbitrary: s h)
  case (Cons cs css)
  have f: "fits (h @ cs)" by (rule fits_law [of _ "concat css"]) (use Cons.prems(3) in simp)
  have "yields (run_bind (emit s (cstr cs)) (\<lambda>s. put_all emit s (map cstr css))) (\<lambda>t. R t ((h @ cs) @ concat css))"
    by (rule yields_bind [OF emit_law [OF Cons.prems(1) _ f] Cons.IH]) (use Cons.prems in simp_all)
  then show ?case by simp
qed simp

end

lemma indent_indent: "10 \<notin> set p \<Longrightarrow> indent q (indent p h) = indent (q @ p) h"
proof (induction "length h" arbitrary: h rule: less_induct)
  case less
  show ?case
  proof (cases "10 \<in> set h")
    case True
    then obtain a b where h: "h = a @ 10 # b" "10 \<notin> set a" by (rule cut_line)
    have "indent q (indent p h) = indent q ((p @ a) @ 10 # indent p b)" using h by (simp add: indent_simps)
    also have "\<dots> = q @ p @ a @ 10 # indent q (indent p b)" using h less.prems by (subst indent_simps) auto
    finally show ?thesis using less.hyps [of b] h less.prems by (simp add: indent_simps)
  qed (simp add: indent_simps)
qed

lemma new_string_rel: "str_rel cStringStream_new []"
  by (simp add: str_rel_def cStringStream_new_def cStringStream_getData_def cStringerStream_new_def cstr_simps)

lemma new_margin_rel:
  assumes "R s []" and "c \<noteq> 0"
  shows "margin_rel (replicate (unat n) c) R (cMarginStringerStream_new s n c) []"
proof -
  have "margin_text \<lparr>m_output = s, m_margin = n, m_marginChar = cString_new_char c\<rparr> (replicate (unat n) c)"
    unfolding margin_text_def using assms(2)
    by (intro exI [of _ "[c]"]) (simp add: cstr_simps concat_replicate_single)
  then show ?thesis
    using assms(1) by (simp add: margin_rel_def cMarginStringerStream_new_def cStringerStream_new_def cstr_simps indent_simps)
qed

text \<open>
  C26: however a text is cut into the strings that are put into a margin stream over a string
  stream, the string stream holds its complete lines, each behind the margin, and what is left is
  put out by \<open>flush\<close>, behind a margin of its own; margin streams over margin streams add
  their margins.
\<close>

theorem margin_lines:
  assumes "list_all nonul css" and "c \<noteq> 0" and "c \<noteq> 10" and "d \<noteq> 0"
    and "length (concat css) < 2 ^ 31" and "length (indent (replicate (unat n) c) (concat css)) < 2 ^ 31"
  shows "yields
      (run_bind (put_all (margin_put str_put) (cMarginStringerStream_new cStringStream_new n c) (map cstr css)) (\<lambda>s.
       run_bind (cStringerStream_flush (cMarginStringerStream_outputString str_put) s) (\<lambda>t. ok (s, t))))
      (\<lambda>(s, t). let m = replicate (unat n) c; l = last_line (concat css) in
         cStringStream_getData (m_output (derived s)) = cstr (indent m (concat css)) \<and>
         cStringStream_getData (m_output (derived t)) =
           cstr (indent m (concat css) @ (if l = [] then [] else m @ l))) \<and>
    yields
      (put_all (margin_put (margin_put str_put))
         (cMarginStringerStream_new (cMarginStringerStream_new cStringStream_new k d) n c) (map cstr css))
      (\<lambda>s. cStringStream_getData (m_output (derived (m_output (derived s)))) =
         cstr (indent (replicate (unat k) d @ replicate (unat n) c) (concat css)))"
proof
  let ?h = "concat css" and ?m = "replicate (unat n) c" and ?k = "replicate (unat k) d"
  have A: "yields (put_all (margin_put str_put) (cMarginStringerStream_new cStringStream_new n c) (map cstr css))
      (\<lambda>t. margin_rel ?m str_rel t ([] @ ?h))"
    by (rule margin_str.put_all_law [OF new_margin_rel [of str_rel, OF new_string_rel assms(2)] assms(1)])
      (use assms(5) in \<open>simp add: margin_fits_def\<close>)
  show "yields
      (run_bind (put_all (margin_put str_put) (cMarginStringerStream_new cStringStream_new n c) (map cstr css)) (\<lambda>s.
       run_bind (cStringerStream_flush (cMarginStringerStream_outputString str_put) s) (\<lambda>t. ok (s, t))))
      (\<lambda>(s, t). let m = ?m; l = last_line ?h in
         cStringStream_getData (m_output (derived s)) = cstr (indent m ?h) \<and>
         cStringStream_getData (m_output (derived t)) = cstr (indent m ?h @ (if l = [] then [] else m @ l)))"
  proof (rule yields_bind [OF A])
    fix s assume s: "margin_rel ?m str_rel s ([] @ ?h)"
    show "yields (run_bind (cStringerStream_flush (cMarginStringerStream_outputString str_put) s) (\<lambda>t. ok (s, t)))
      (\<lambda>(s, t). let m = ?m; l = last_line ?h in
         cStringStream_getData (m_output (derived s)) = cstr (indent m ?h) \<and>
         cStringStream_getData (m_output (derived t)) = cstr (indent m ?h @ (if l = [] then [] else m @ l)))"
      by (rule yields_bind [OF str.margin_flush_rest [OF s TrueI]])
        (use s in \<open>auto simp: margin_rel_def str_rel_def Let_def\<close>)
  qed
  let ?inner = "cMarginStringerStream_new cStringStream_new k d"
  have "yields (put_all (margin_put (margin_put str_put)) (cMarginStringerStream_new ?inner n c) (map cstr css))
      (\<lambda>t. margin_rel ?m (margin_rel ?k str_rel) t ([] @ ?h))"
    by (rule margin_margin_str.put_all_law [OF new_margin_rel [of "margin_rel ?k str_rel", OF new_margin_rel [of str_rel, OF new_string_rel assms(4)] assms(2)] assms(1)])
      (use assms(5,6) in \<open>simp add: margin_fits_def\<close>)
  then show "yields (put_all (margin_put (margin_put str_put)) (cMarginStringerStream_new ?inner n c) (map cstr css))
      (\<lambda>s. cStringStream_getData (m_output (derived (m_output (derived s)))) = cstr (indent (?k @ ?m) ?h))"
    by (rule yields_mono) (use assms(3) in \<open>simp add: margin_rel_def str_rel_def indent_indent\<close>)
qed

theorem margin_lines_witness:
  "list_all nonul [[97, 10, 98], [99, 10, 100]] \<and>
   yields
     (put_all (margin_put (margin_put str_put))
        (cMarginStringerStream_new (cMarginStringerStream_new cStringStream_new 1 45) 2 32) (map cstr [[97, 10, 98], [99, 10, 100]]))
     (\<lambda>s. cStringStream_getData (m_output (derived (m_output (derived s)))) =
        cstr [45, 32, 32, 97, 10, 45, 32, 32, 98, 99, 10])"
proof -
  have "list_all nonul [[97, 10, 98], [99, 10, 100]]" by simp
  note lines = margin_lines [OF this, of 32 45 2 1, THEN conjunct2]
  have r: "replicate (unat (2 :: uint64)) (32 :: character) = [32, 32]" "replicate (unat (1 :: uint64)) (45 :: character) = [45]"
    by code_simp+
  have i: "indent ([45] @ [32, 32]) (concat [[97, 10, 98], [99, 10, 100]]) = [45, 32, 32, 97, 10, 45, 32, 32, 98, 99, 10]"
    by (simp add: indent_def)
  have b: "length (concat [[97, 10, 98], [99, 10, 100 :: character]]) < 2 ^ 31"
    "length (indent [32, 32] (concat [[97, 10, 98], [99, 10, 100]])) < 2 ^ 31"
    by (simp_all add: indent_def)
  show ?thesis
    using lines [unfolded r i, OF _ _ _ b] by simp
qed

subsection \<open>What an operation prints\<close>

context text_sink
begin

definition prints :: "('s \<Rightarrow> 's run) \<Rightarrow> character list \<Rightarrow> bool" where
  "prints f cs \<longleftrightarrow> (\<forall>s h. R s h \<longrightarrow> fits (h @ cs) \<longrightarrow> yields (f s) (\<lambda>t. R t (h @ cs)))"

lemma prints_ok: "prints (\<lambda>s. ok s) []"
  by (simp add: prints_def)

lemma prints_okI: "(\<And>s. f s = ok s) \<Longrightarrow> prints f []"
  by (simp add: prints_def)

lemma prints_bind: "prints f a \<Longrightarrow> prints g b \<Longrightarrow> prints (\<lambda>s. run_bind (f s) g) (a @ b)"
  unfolding prints_def
proof (intro allI impI)
  fix s h assume f: "\<forall>s h. R s h \<longrightarrow> fits (h @ a) \<longrightarrow> yields (f s) (\<lambda>t. R t (h @ a))"
    and g: "\<forall>s h. R s h \<longrightarrow> fits (h @ b) \<longrightarrow> yields (g s) (\<lambda>t. R t (h @ b))"
    and s: "R s h" "fits (h @ a @ b)"
  have "fits (h @ a)" by (rule fits_law [of _ b]) (use s(2) in simp)
  then have "yields (f s) (\<lambda>t. R t (h @ a))" using f s(1) by blast
  then show "yields (run_bind (f s) g) (\<lambda>t. R t (h @ a @ b))"
    by (rule yields_bind) (use g s(2) in fastforce)
qed

lemma prints_emit: "nonul cs \<Longrightarrow> prints (\<lambda>s. emit s (cstr cs)) cs"
  by (simp add: prints_def emit_law)

lemma prints_chars: "nonul cs \<Longrightarrow> prints (\<lambda>s. put_chars emit s (cs @ [0])) cs"
  using prints_emit [of cs] new_simps(3) [of cs "[]"] by (simp add: put_chars_def)

lemma prints_char: "c \<noteq> 0 \<Longrightarrow> prints (\<lambda>s. put_char emit s c) [c]"
  using prints_emit [of "[c]"] by (simp add: put_char_def new_char_simp)

lemma prints_row: "nonul cs \<Longrightarrow> prints (\<lambda>s. put_row emit s cs) cs"
proof (induction cs)
  case (Cons c cs)
  then show ?case using prints_bind [OF prints_char [of c]] by simp
qed (simp add: prints_ok)

lemma prints_if: "(b \<Longrightarrow> prints f x) \<Longrightarrow> (\<not> b \<Longrightarrow> prints g y) \<Longrightarrow> prints (\<lambda>s. if b then f s else g s) (if b then x else y)"
  by simp

lemma prints_endl: "prints (\<lambda>s. put_chars emit s endl) [10]"
  using prints_chars [of "[10]"] by (simp add: endl_def)

end

subsection \<open>The rows of a dump\<close>

text \<open>
  A row shows the bytes as pairs of digits, a space behind every second pair, and then as
  characters; in the last row spaces stand for the bytes that are missing.
\<close>

definition hex2 :: "uint8 \<Rightarrow> character list" where
  "hex2 b = map strip (hexdigits 2 (unat b))"

fun cells :: "nat \<Rightarrow> uint8 list \<Rightarrow> character list" where
  "cells j [] = []"
| "cells j (b # bs) = hex2 b @ (if odd j then [32] else []) @ cells (j + 1) bs"

fun blanks :: "nat \<Rightarrow> nat \<Rightarrow> character list" where
  "blanks j 0 = []"
| "blanks j (Suc k) = [32, 32] @ (if odd j then [32] else []) @ blanks (j + 1) k"

definition row_address :: "DUMP \<Rightarrow> uint64 \<Rightarrow> character list" where
  "row_address obj a =
     (case d_segmentName obj of None \<Rightarrow> [] | Some name \<Rightarrow> takeWhile (\<lambda>c. c \<noteq> 0) name @ [58]) @
     (if d_flags obj AND DATA_USE_ADDRESS \<noteq> 0 then map strip (hexdigits 16 (unat a)) @ [32, 32, 32] else [])"

definition row_text :: "DUMP \<Rightarrow> uint64 \<Rightarrow> uint8 list \<Rightarrow> character list" where
  "row_text obj a row =
     row_address obj a @ cells 0 row @ blanks (length row) (d_elementsInRow obj - length row) @
     map (\<lambda>b. DB b 0x2E) row @ [10]"

function dump_text :: "DUMP \<Rightarrow> uint64 \<Rightarrow> uint8 list \<Rightarrow> character list" where
  "dump_text obj a bs =
     (if bs = [] \<or> d_elementsInRow obj = 0 then []
      else row_text obj a (take (d_elementsInRow obj) bs) @
        dump_text obj (a + word_of_nat (d_elementsInRow obj)) (drop (d_elementsInRow obj) bs))"
  by pat_completeness auto
termination by (relation "measure (\<lambda>(obj, a, bs). length bs)") auto

declare dump_text.simps [simp del]

lemma length_cells: "length (cells j bs) = length (blanks j (length bs))"
  by (induction j bs rule: cells.induct) (simp_all add: hex2_def numeral_2_eq_2)

lemma blanks_append: "blanks j (m + n) = blanks j m @ blanks (j + m) n"
  by (induction m arbitrary: j) simp_all

text \<open>The characters of every row start in the same column behind the address.\<close>

lemma row_column: "length row \<le> n \<Longrightarrow> length (cells 0 row @ blanks (length row) (n - length row)) = length (blanks 0 n)"
  using blanks_append [of 0 "length row" "n - length row"] by (simp add: length_cells)

fun tail_text :: "DUMP \<Rightarrow> uint64 \<Rightarrow> uint8 list \<Rightarrow> uint8 list \<Rightarrow> character list" where
  "tail_text obj a xs [] =
     (if xs = [] then []
      else blanks (length xs) (d_elementsInRow obj - length xs) @ map (\<lambda>b. DB b 0x2E) xs @ [10])"
| "tail_text obj a xs (b # bs) =
     (if xs = [] then row_address obj a else []) @ hex2 b @ (if odd (length xs) then [32] else []) @
     (if length xs + 1 = d_elementsInRow obj
      then map (\<lambda>b. DB b 0x2E) (xs @ [b]) @ [10] @ tail_text obj (a + 1) [] bs
      else tail_text obj (a + 1) (xs @ [b]) bs)"

lemma tail_row:
  "length xs < d_elementsInRow obj \<Longrightarrow>
   tail_text obj a xs bs =
     (if xs = [] \<and> bs = [] then []
      else (let row = take (d_elementsInRow obj - length xs) bs in
        (if xs = [] then row_address obj a else []) @ cells (length xs) row @
        blanks (length xs + length row) (d_elementsInRow obj - (length xs + length row)) @
        map (\<lambda>b. DB b 0x2E) (xs @ row) @ [10] @
        tail_text obj (a + word_of_nat (d_elementsInRow obj - length xs)) [] (drop (d_elementsInRow obj - length xs) bs)))"
proof (induction bs arbitrary: xs a)
  case (Cons b bs)
  show ?case
  proof (cases "length xs + 1 = d_elementsInRow obj")
    case True
    then have "d_elementsInRow obj - length xs = 1" by simp
    then show ?thesis using True by (simp add: Let_def)
  next
    case False
    then have n: "length (xs @ [b]) < d_elementsInRow obj" using Cons.prems by simp
    then obtain k where k: "d_elementsInRow obj - length xs = Suc k" "d_elementsInRow obj - length (xs @ [b]) = k"
      by (metis Suc_diff_Suc Cons.prems length_append_singleton)
    have "d_elementsInRow obj = length xs + Suc k" using k(1) Cons.prems by simp
    then have "word_of_nat (d_elementsInRow obj) - word_of_nat (length xs) = (1 + word_of_nat k :: uint64)" by simp
    then show ?thesis using False Cons.IH [OF n, of "a + 1"] k by (simp add: Let_def)
  qed
qed (simp add: Let_def)

lemma tail_dump: "0 < d_elementsInRow obj \<Longrightarrow> tail_text obj a [] bs = dump_text obj a bs"
proof (induction "length bs" arbitrary: a bs rule: less_induct)
  case less
  show ?case
  proof (cases "bs = []")
    case True
    then show ?thesis by (simp add: dump_text.simps)
  next
    case False
    let ?n = "d_elementsInRow obj"
    have "tail_text obj (a + word_of_nat ?n) [] (drop ?n bs) = dump_text obj (a + word_of_nat ?n) (drop ?n bs)"
      by (rule less.hyps) (use False less.prems in auto)
    then show ?thesis
      using tail_row [of "[]" obj a bs] False less.prems
      by (subst dump_text.simps) (simp add: Let_def row_text_def)
  qed
qed

lemma DB_nonzero: "DB b 0x2E \<noteq> 0"
  by (auto simp: DB_def)

lemma HEX_digit_chars: "put_char emit s (HEXHIGH b) = emit s (cstr [strip (unat b div 16)])"
  "put_char emit s (HEXLOW b) = emit s (cstr [strip (unat b mod 16)])" "hex2 b = [strip (unat b div 16), strip (unat b mod 16)]"
  "strip (unat b div 16) \<noteq> 0" "strip (unat b mod 16) \<noteq> 0"
proof -
  have h: "unat (drop_bit 4 b) = unat b div 16" "unat (b AND 0x0F) = unat b mod 16"
    using unat_and_mask [of b 4] by (simp_all add: unat_drop mask_eq_exp_minus_1)
  have l: "unat b div 16 < 16" using unsigned_less [of b, where 'a = nat] by simp
  show z: "strip (unat b div 16) \<noteq> 0" "strip (unat b mod 16) \<noteq> 0"
    by (rule strip_nonzero, use l in simp)+
  show "put_char emit s (HEXHIGH b) = emit s (cstr [strip (unat b div 16)])"
    "put_char emit s (HEXLOW b) = emit s (cstr [strip (unat b mod 16)])"
    using z l by (simp_all add: put_char_def HEXHIGH_def HEXLOW_def h hex_strip new_char_simp)
  show "hex2 b = [strip (unat b div 16), strip (unat b mod 16)]" using l by (simp add: hex2_def numeral_2_eq_2)
qed

lemma HEXADDRESS_text: "HEXADDRESS a = cstr (map strip (hexdigits 16 (unat a)))"
  by (simp add: HEXADDRESS_def HEXREMOTEADDRESS_def remoteAddress_new_def DEFAULT_REMOTE_ADDRESS_ENCODING_def HEXQWORD_simp)

lemma new_terminated: "0 \<in> set name \<Longrightarrow> cString_new (Some name) = cstr (takeWhile (\<lambda>c. c \<noteq> 0) name)"
proof -
  assume "0 \<in> set name"
  then obtain a b where "name = a @ 0 # b" "0 \<notin> set a" using split_list_first by metis
  then show ?thesis using new_simps(3) [of a b] by (simp add: nonul_def)
qed

definition segment_ok :: "DUMP \<Rightarrow> bool" where
  "segment_ok obj \<longleftrightarrow> (case d_segmentName obj of None \<Rightarrow> True | Some name \<Rightarrow> 0 \<in> set name)"

context text_sink
begin

lemma prints_address: "segment_ok obj \<Longrightarrow> prints (\<lambda>s. put_address emit obj s a) (row_address obj a)"
proof -
  assume ok: "segment_ok obj"
  have seg: "prints (\<lambda>s. case d_segmentName obj of None \<Rightarrow> ok s
        | Some name \<Rightarrow> run_bind (put_chars emit s name) (\<lambda>s. put_chars emit s (lit '':'' @ [0])))
      (case d_segmentName obj of None \<Rightarrow> [] | Some name \<Rightarrow> takeWhile (\<lambda>c. c \<noteq> 0) name @ [58])"
  proof (cases "d_segmentName obj")
    case None
    then show ?thesis by (simp add: prints_ok)
  next
    case (Some name)
    have n: "nonul (takeWhile (\<lambda>c. c \<noteq> 0) name)" by (auto simp: nonul_def dest: set_takeWhileD)
    have "prints (\<lambda>s. put_chars emit s name) (takeWhile (\<lambda>c. c \<noteq> 0) name)"
      using prints_emit [OF n] ok Some by (simp add: put_chars_def new_terminated segment_ok_def)
    then show ?thesis using prints_bind [OF _ prints_chars [of "[58]"]] Some by (simp add: lit_def)
  qed
  have addr: "prints (\<lambda>s. if d_flags obj AND DATA_USE_ADDRESS \<noteq> 0
        then run_bind (emit s (HEXADDRESS a)) (\<lambda>s. put_chars emit s (lit ''   '' @ [0])) else ok s)
      (if d_flags obj AND DATA_USE_ADDRESS \<noteq> 0 then map strip (hexdigits 16 (unat a)) @ [32, 32, 32] else [])"
    using prints_bind [OF prints_emit [OF nonul_hexdigits [of 16 "unat a"]] prints_chars [of "[32, 32, 32]"]]
    by (intro prints_if) (simp_all add: HEXADDRESS_text prints_ok lit_def)
  show ?thesis
    using prints_bind [OF seg addr] by (simp add: put_address_def row_address_def)
qed

lemma prints_space: "prints (\<lambda>s. if odd j then put_chars emit s (lit '' '' @ [0]) else ok s) (if odd j then [32] else [])"
  using prints_chars [of "[32]"] by (intro prints_if) (simp_all add: lit_def prints_ok)

lemma prints_digits: "prints g cs \<Longrightarrow> prints (\<lambda>s. run_bind (put_char emit s (HEXHIGH b)) (\<lambda>s. run_bind (put_char emit s (HEXLOW b)) g)) (hex2 b @ cs)"
  using prints_bind [OF prints_emit [of "[strip (unat b div 16)]"] prints_bind [OF prints_emit [of "[strip (unat b mod 16)]"]], of g cs]
  by (simp add: HEX_digit_chars)

lemma prints_padding: "prints (\<lambda>s. put_padding emit j k s) (blanks j k)"
proof (induction k arbitrary: j)
  case (Suc k)
  have "prints (\<lambda>s. run_bind (put_chars emit s ([32, 32] @ [0])) (\<lambda>s.
      run_bind (if odd j then put_chars emit s (lit '' '' @ [0]) else ok s) (\<lambda>s. put_padding emit (j + 1) k s)))
      ([32, 32] @ (if odd j then [32] else []) @ blanks (j + 1) k)"
    by (intro prints_bind prints_chars prints_space Suc) simp_all
  then show ?case by (simp add: lit_def)
qed (simp add: prints_okI)

lemma prints_hexDump:
  assumes "segment_ok obj" and "length xs < d_elementsInRow obj" and "length data = d_elementsInRow obj"
    and "take (length xs) data = map (\<lambda>b. DB b 0x2E) xs"
  shows "prints (\<lambda>s. run_bind (hexDump_loop emit obj bs a (length xs) data s) (\<lambda>(element, data, s).
      if element = 0 then ok s
      else run_bind (put_padding emit element (d_elementsInRow obj - element) s) (\<lambda>s.
        run_bind (put_row emit s (take element data)) (\<lambda>s. put_chars emit s endl)))) (tail_text obj a xs bs)"
  using assms
proof (induction bs arbitrary: a xs data)
  case Nil
  have n: "nonul (map (\<lambda>b. DB b 0x2E) xs)" by (auto simp: nonul_def DB_nonzero dest: sym)
  have "prints (\<lambda>s. run_bind (put_padding emit (length xs) (d_elementsInRow obj - length xs) s) (\<lambda>s.
        run_bind (put_row emit s (map (\<lambda>b. DB b 0x2E) xs)) (\<lambda>s. put_chars emit s endl)))
      (blanks (length xs) (d_elementsInRow obj - length xs) @ map (\<lambda>b. DB b 0x2E) xs @ [10])"
    by (intro prints_bind prints_padding prints_row n prints_endl)
  then show ?case using Nil by (simp add: prints_okI)
next
  case (Cons b bs)
  let ?n = "d_elementsInRow obj" and ?data = "data[length xs := DB b 0x2E]"
  let ?finish = "\<lambda>(element, data, s). if element = 0 then ok s
      else run_bind (put_padding emit element (?n - element) s) (\<lambda>s.
        run_bind (put_row emit s (take element data)) (\<lambda>s. put_chars emit s endl))"
  have row: "take (Suc (length xs)) ?data = map (\<lambda>b. DB b 0x2E) (xs @ [b])"
    using Cons.prems(2,3,4) by (simp add: take_Suc_conv_app_nth)
  have nz: "nonul (map (\<lambda>b. DB b 0x2E) ys)" for ys by (auto simp: nonul_def DB_nonzero dest: sym)
  have rest: "prints (\<lambda>s. run_bind
      (if (length xs + 1) mod ?n = 0 then run_bind (put_row emit s (take ?n ?data)) (\<lambda>s. put_chars emit s endl) else ok s)
      (\<lambda>s. run_bind (hexDump_loop emit obj bs (a + 1) ((length xs + 1) mod ?n) ?data s) ?finish))
      (if length xs + 1 = ?n
       then map (\<lambda>b. DB b 0x2E) (xs @ [b]) @ [10] @ tail_text obj (a + 1) [] bs
       else tail_text obj (a + 1) (xs @ [b]) bs)"
  proof (cases "length xs + 1 = ?n")
    case True
    have "prints (\<lambda>s. run_bind (hexDump_loop emit obj bs (a + 1) (length ([] :: uint8 list)) ?data s) ?finish) (tail_text obj (a + 1) [] bs)"
      by (rule Cons.IH) (use Cons.prems in auto)
    then have "prints (\<lambda>s. run_bind (run_bind (put_row emit s (map (\<lambda>b. DB b 0x2E) (xs @ [b]))) (\<lambda>s. put_chars emit s endl))
        (\<lambda>s. run_bind (hexDump_loop emit obj bs (a + 1) 0 ?data s) ?finish))
        ((map (\<lambda>b. DB b 0x2E) (xs @ [b]) @ [10]) @ tail_text obj (a + 1) [] bs)"
      by (intro prints_bind prints_row nz prints_endl) simp
    then show ?thesis using True row by simp
  next
    case False
    then have lt: "length (xs @ [b]) < ?n" "(length xs + 1) mod ?n = length (xs @ [b])" using Cons.prems(2) by simp_all
    have "prints (\<lambda>s. run_bind (hexDump_loop emit obj bs (a + 1) (length (xs @ [b])) ?data s) ?finish) (tail_text obj (a + 1) (xs @ [b]) bs)"
      by (rule Cons.IH) (use Cons.prems lt row in auto)
    then show ?thesis using False lt by simp
  qed
  have "prints (\<lambda>s. run_bind (if length xs = 0 then put_address emit obj s a else ok s) (\<lambda>s.
      run_bind (put_char emit s (HEXHIGH b)) (\<lambda>s.
      run_bind (put_char emit s (HEXLOW b)) (\<lambda>s.
      run_bind (if odd (length xs) then put_chars emit s (lit '' '' @ [0]) else ok s) (\<lambda>s.
      run_bind
        (if (length xs + 1) mod ?n = 0 then run_bind (put_row emit s (take ?n ?data)) (\<lambda>s. put_chars emit s endl) else ok s)
        (\<lambda>s. run_bind (hexDump_loop emit obj bs (a + 1) ((length xs + 1) mod ?n) ?data s) ?finish))))))
      ((if length xs = 0 then row_address obj a else []) @ hex2 b @ (if odd (length xs) then [32] else []) @
       (if length xs + 1 = ?n
       then map (\<lambda>b. DB b 0x2E) (xs @ [b]) @ [10] @ tail_text obj (a + 1) [] bs
       else tail_text obj (a + 1) (xs @ [b]) bs))"
    by (intro prints_bind prints_if prints_address [OF Cons.prems(1)] prints_ok prints_digits prints_space rest)
  then show ?case
    using Cons.prems(2,3) by (simp add: run_bind_assoc Let_def cong: if_cong)
qed

lemma prints_hexDumpObject:
  "segment_ok obj \<Longrightarrow> 0 < d_elementsInRow obj \<Longrightarrow>
     prints (\<lambda>s. hexDumpObject emit obj bs mem s) (dump_text obj (d_startAddress obj) bs)"
  using prints_hexDump [of obj "[]" "map mem [0..<d_elementsInRow obj]" bs "d_startAddress obj"]
  by (simp add: hexDumpObject_def tail_dump)

end

subsection \<open>The lines of a memory dump\<close>

text \<open>
  \<open>vis i\<close> tells whether the byte \<open>i\<close> of the line lies outside the holes. The mark in the middle
  takes the place of a space, or adds a column when \<open>n div 2\<close> is odd.
\<close>

definition address_text :: "remoteAddressNumericValue \<Rightarrow> character list" where
  "address_text a =
     (case m_type a of
        REMOTE_ADDRESS_16BIT \<Rightarrow> map strip (hexdigits 4 (unat (m_union a)))
      | REMOTE_ADDRESS_32BIT \<Rightarrow> map strip (hexdigits 8 (unat (m_union a)))
      | REMOTE_ADDRESS_64BIT \<Rightarrow> map strip (hexdigits 16 (unat (m_union a)))
      | REMOTE_ADDRESS_INVALID _ \<Rightarrow> lit ''UNKNOWN'')"

fun dump_cells :: "nat \<Rightarrow> (nat \<Rightarrow> bool) \<Rightarrow> nat \<Rightarrow> uint8 list \<Rightarrow> character list" where
  "dump_cells n vis j [] = []"
| "dump_cells n vis j (b # bs) =
     (if vis j then hex2 b else [63, 63]) @ (if j + 1 = n div 2 then [45] else if odd j then [32] else []) @
     dump_cells n vis (j + 1) bs"

fun dump_printed :: "(nat \<Rightarrow> bool) \<Rightarrow> nat \<Rightarrow> uint8 list \<Rightarrow> character list" where
  "dump_printed vis j [] = []"
| "dump_printed vis j (b # bs) = (if \<not> vis j then 63 else if cChar_isPrintable b then b else 46) # dump_printed vis (j + 1) bs"

definition line_text :: "nat \<Rightarrow> remoteAddressNumericValue \<Rightarrow> (nat \<Rightarrow> bool) \<Rightarrow> uint8 list \<Rightarrow> character list" where
  "line_text n a vis bs =
     address_text a @ [32, 32, 32] @ dump_cells n vis 0 bs @ blanks (length bs) (n - length bs) @ [32] @
     dump_printed vis 0 bs @ [10]"

function memory_text :: "nat \<Rightarrow> remoteAddressNumericValue \<Rightarrow> (nat \<Rightarrow> bool) \<Rightarrow> uint8 list \<Rightarrow> character list" where
  "memory_text n a vis bs =
     (if bs = [] \<or> n = 0 then []
      else line_text n a vis (take n bs) @ memory_text n (next_address a n) (\<lambda>i. vis (i + n)) (drop n bs))"
  by pat_completeness auto
termination by (relation "measure (\<lambda>(n, a, vis, bs). length bs)") auto

declare memory_text.simps [simp del]

lemma next_address_add: "next_address (next_address a i) j = next_address a (i + j)"
  by (simp add: next_address_def add.assoc)

lemma next_address_0 [simp]: "next_address a 0 = a"
  by (simp add: next_address_def)

lemma HEXREMOTEADDRESS_text: "HEXREMOTEADDRESS a = cstr (address_text a)" "nonul (address_text a)"
proof -
  have m: "hexdigits 4 (unat (ucast n :: uint16)) = hexdigits 4 (unat n)"
    "hexdigits 8 (unat (ucast n :: uint32)) = hexdigits 8 (unat n)" for n :: uint64
    using hexdigits_mod [of 4 4 "unat n"] hexdigits_mod [of 8 8 "unat n"]
    by (simp_all add: unsigned_ucast_eq take_bit_eq_mod)
  show "HEXREMOTEADDRESS a = cstr (address_text a)"
    using new_simps(3) [of "lit ''UNKNOWN''" "[]"]
    by (cases "m_type a") (simp_all add: HEXREMOTEADDRESS_def address_text_def HEXWORD_simp HEXDWORD_simp HEXQWORD_simp m lit_def)
  show "nonul (address_text a)"
    by (cases "m_type a") (simp_all add: address_text_def lit_def)
qed

lemma break_position:
  assumes "j < n" and "n < 2 ^ 64"
  shows "word_of_nat j = (word_of_nat (n div 2) - 1 :: uint64) \<longleftrightarrow> j + 1 = n div 2"
proof (cases "n div 2 = 0")
  case True
  have "unat (- 1 :: uint64) = 2 ^ 64 - 1" by (simp add: unsigned_minus_1_eq_mask mask_eq_exp_minus_1)
  moreover have "unat (word_of_nat j :: uint64) = j" using assms by (simp add: unat_of_nat take_bit_nat_eq_self)
  ultimately show ?thesis using True assms by (auto simp: word_unat_eq_iff)
next
  case False
  then obtain k where k: "n div 2 = Suc k" by (cases "n div 2") auto
  have "unat (word_of_nat j :: uint64) = j" "unat (word_of_nat k :: uint64) = k"
    using assms k by (simp_all add: unat_of_nat take_bit_nat_eq_self)
  then show ?thesis using k by (auto simp: word_unat_eq_iff)
qed

definition holes_ok :: "fragments \<Rightarrow> remoteAddressNumericValue \<Rightarrow> (nat \<Rightarrow> bool) \<Rightarrow> nat \<Rightarrow> bool" where
  "holes_ok fr a vis n \<longleftrightarrow> (\<forall>i < n. cFragmentsDescriptor_isMemoryValid fr (next_address a i) = Inr (vis i))"

lemma holes_step: "holes_ok fr a vis (Suc n) \<longleftrightarrow>
    cFragmentsDescriptor_isMemoryValid fr a = Inr (vis 0) \<and> holes_ok fr (next_address a 1) (\<lambda>i. vis (Suc i)) n"
  by (auto simp: holes_ok_def next_address_add less_Suc_eq_0_disj)

lemma holes_shift: "holes_ok fr a vis (m + n) \<Longrightarrow> holes_ok fr (next_address a m) (\<lambda>i. vis (i + m)) n"
  by (simp add: holes_ok_def next_address_add add.commute)

lemma holes_mono: "holes_ok fr a vis n \<Longrightarrow> m \<le> n \<Longrightarrow> holes_ok fr a vis m"
  by (simp add: holes_ok_def)

context text_sink
begin

lemma prints_cell:
  "prints (\<lambda>s. if v then run_bind (of_res (Inr b)) (\<lambda>b. emit s (HEXBYTE b)) else put_chars emit s (lit ''??'' @ [0]))
     (if v then hex2 b else [63, 63])"
  using prints_emit [of "hex2 b"] prints_chars [of "[63, 63]"]
  by (intro prints_if) (simp_all add: HEXBYTE_simp hex2_def lit_def)

lemma prints_break:
  "j < n \<Longrightarrow> n < 2 ^ 64 \<Longrightarrow>
     prints (\<lambda>s. put_break emit n j s) (if j + 1 = n div 2 then [45] else if odd j then [32] else [])"
  unfolding put_break_def break_position
  using prints_chars [of "[45]"] prints_space [of j] by (intro prints_if) (simp_all add: lit_def)

lemma prints_dump_bytes:
  assumes "holes_ok fr a vis (length bs)" and "\<forall>i < length bs. data_at data (j + i) = Inr (bs ! i)"
    and "j + length bs \<le> n" and "n < 2 ^ 64"
  shows "prints (\<lambda>s. dump_bytes emit n fr data j (length bs) a s) (dump_cells n (\<lambda>i. vis (i - j)) j bs)"
  using assms
proof (induction bs arbitrary: a vis j)
  case (Cons b bs)
  have v: "cFragmentsDescriptor_isMemoryValid fr a = Inr (vis 0)" "holes_ok fr (next_address a 1) (\<lambda>i. vis (Suc i)) (length bs)"
    using Cons.prems(1) by (simp_all add: holes_step)
  have d: "data_at data j = Inr b" "\<forall>i < length bs. data_at data (j + 1 + i) = Inr (bs ! i)"
    using Cons.prems(2) by (auto simp: less_Suc_eq_0_disj all_conj_distrib)
  have c: "dump_cells n (\<lambda>i. vis (Suc (i - Suc j))) (Suc j) bs = dump_cells n (\<lambda>i. vis (i - j)) (Suc j) bs"
  proof -
    have "dump_cells n f k bs = dump_cells n g k bs" if "\<forall>i \<ge> k. f i = g i" for f g k
      using that by (induction bs arbitrary: k) simp_all
    moreover have "Suc (i - Suc j) = i - j" if "i \<ge> Suc j" for i using that by simp
    ultimately show ?thesis by simp
  qed
  have "prints (\<lambda>s. run_bind
      (if vis 0 then run_bind (of_res (Inr b)) (\<lambda>b. emit s (HEXBYTE b)) else put_chars emit s (lit ''??'' @ [0])) (\<lambda>s.
      run_bind (put_break emit n j s) (\<lambda>s. dump_bytes emit n fr data (j + 1) (length bs) (next_address a 1) s)))
      ((if vis 0 then hex2 b else [63, 63]) @ (if j + 1 = n div 2 then [45] else if odd j then [32] else []) @
       dump_cells n (\<lambda>i. vis (Suc (i - (j + 1)))) (j + 1) bs)"
    by (intro prints_bind prints_cell prints_break Cons.IH [OF v(2) d(2)]) (use Cons.prems in simp_all)
  then show ?case using v(1) d(1) c by (simp cong: if_cong)
qed (simp add: prints_okI)

lemma prints_dump_padding: "prints (\<lambda>s. dump_padding emit j k s) (blanks j k)"
proof (induction k arbitrary: j)
  case (Suc k)
  have "prints (\<lambda>s. if odd j then put_chars emit s (lit ''   '' @ [0]) else put_chars emit s (lit ''  '' @ [0]))
      ([32, 32] @ (if odd j then [32] else []))"
    using prints_chars [of "[32, 32, 32]"] prints_chars [of "[32, 32]"] by (simp add: lit_def)
  from prints_bind [OF this Suc] show ?case by simp
qed (simp add: prints_okI)

lemma prints_dump_characters:
  assumes "holes_ok fr a vis (length bs)" and "\<forall>i < length bs. data_at data (j + i) = Inr (bs ! i)"
  shows "prints (\<lambda>s. dump_characters emit fr data j (length bs) a s) (dump_printed (\<lambda>i. vis (i - j)) j bs)"
  using assms
proof (induction bs arbitrary: a vis j)
  case (Cons b bs)
  have v: "cFragmentsDescriptor_isMemoryValid fr a = Inr (vis 0)" "holes_ok fr (next_address a 1) (\<lambda>i. vis (Suc i)) (length bs)"
    using Cons.prems(1) by (simp_all add: holes_step)
  have d: "data_at data j = Inr b" "\<forall>i < length bs. data_at data (j + 1 + i) = Inr (bs ! i)"
    using Cons.prems(2) by (auto simp: less_Suc_eq_0_disj all_conj_distrib)
  have c: "dump_printed (\<lambda>i. vis (Suc (i - Suc j))) (Suc j) bs = dump_printed (\<lambda>i. vis (i - j)) (Suc j) bs"
  proof -
    have "dump_printed f k bs = dump_printed g k bs" if "\<forall>i \<ge> k. f i = g i" for f g k
      using that by (induction bs arbitrary: k) simp_all
    moreover have "Suc (i - Suc j) = i - j" if "i \<ge> Suc j" for i using that by simp
    ultimately show ?thesis by simp
  qed
  have p: "b \<noteq> 0" if "cChar_isPrintable b" using that by (auto simp: cChar_isPrintable_def)
  have "prints (\<lambda>s. if vis 0 then run_bind (of_res (Inr b)) (\<lambda>b.
        if \<not> cChar_isPrintable b then put_chars emit s (lit ''.'' @ [0]) else put_char emit s b)
      else put_chars emit s (lit ''?'' @ [0])) [if \<not> vis 0 then 63 else if cChar_isPrintable b then b else 46]"
    using prints_chars [of "[46]"] prints_chars [of "[63]"] prints_char [OF p] by (simp add: lit_def)
  from prints_bind [OF this Cons.IH [OF v(2) d(2)]] show ?case using v(1) d(1) c by (simp cong: if_cong)
qed (simp add: prints_okI)

lemma prints_line:
  assumes "holes_ok fr a vis (length bs)" and "\<forall>i < length bs. data_at data i = Inr (bs ! i)"
    and "length bs \<le> n" and "n < 2 ^ 64"
  shows "prints (\<lambda>s. DumpMemory_internalDumpLine emit n a (length bs) data fr s) (line_text n a vis bs)"
proof -
  have c: "prints (\<lambda>s. dump_bytes emit n fr data 0 (length bs) a s) (dump_cells n vis 0 bs)"
    using prints_dump_bytes [of fr a vis bs data 0 n] assms by simp
  have p: "prints (\<lambda>s. dump_characters emit fr data 0 (length bs) a s) (dump_printed vis 0 bs)"
    using prints_dump_characters [of fr a vis bs data 0] assms by simp
  have l: "lit ''   '' = [32, 32, 32]" "lit '' '' = [32]" by (simp_all add: lit_def)
  show ?thesis
    unfolding DumpMemory_internalDumpLine_def line_text_def HEXREMOTEADDRESS_text(1) l
    by (intro prints_bind prints_emit prints_chars HEXREMOTEADDRESS_text(2) c p prints_dump_padding prints_endl) simp_all
qed

end

lemma data_at_Some: "i < length bs \<Longrightarrow> data_at (map Some bs) i = Inr (bs ! i)"
  by (simp add: data_at_def)

context text_sink
begin

lemma prints_dump_buffer:
  assumes "0 < n" and "n < 2 ^ 64" and "holes_ok fr a vis (length bs)"
  shows "prints (\<lambda>s. run_bind (dump_buffer_lines emit n fr (length bs div n) a bs s) (\<lambda>(addr, pos, s).
      if pos \<noteq> [] then DumpMemory_internalDumpLine emit n addr (length pos) (map Some pos) fr s else ok s))
      (memory_text n a vis bs)"
  using assms(3)
proof (induction "length bs div n" arbitrary: bs a vis)
  case 0
  then have l: "length bs < n" using assms(1) by (metis div_eq_0_iff not_gr0)
  show ?case
  proof (cases "bs = []")
    case True
    then show ?thesis by (simp add: memory_text.simps prints_okI)
  next
    case False
    have "prints (\<lambda>s. DumpMemory_internalDumpLine emit n a (length bs) (map Some bs) fr s) (line_text n a vis bs)"
      by (rule prints_line [OF 0(2)]) (use l assms(2) in \<open>simp_all add: data_at_Some\<close>)
    then show ?thesis using False l assms(1) 0(1) by (subst memory_text.simps) (simp add: memory_text.simps [of n _ _ "[]"])
  qed
next
  case (Suc k)
  have l: "n \<le> length bs" using Suc.hyps(2) assms(1) by (metis div_less not_le nat.distinct(1))
  have "Suc k = Suc ((length bs - n) div n)" using Suc.hyps(2) le_div_geq [OF assms(1) l] by (rule trans)
  then have "k = (length bs - n) div n" by (rule Suc_inject)
  then have k: "length (drop n bs) div n = k" by (simp only: length_drop)
  have h: "holes_ok fr a vis (length (take n bs))" "holes_ok fr (next_address a n) (\<lambda>i. vis (i + n)) (length (drop n bs))"
    using holes_mono [OF Suc.prems, of n] holes_shift [of fr a vis n "length bs - n"] Suc.prems l by (simp_all add: min_absorb2)
  let ?rest = "\<lambda>(addr, pos, s). if pos \<noteq> [] then DumpMemory_internalDumpLine emit n addr (length pos) (map Some pos) fr s else ok s"
  have A: "prints (\<lambda>s. DumpMemory_internalDumpLine emit n a (length (take n bs)) (map Some bs) fr s) (line_text n a vis (take n bs))"
    by (rule prints_line [OF h(1)]) (use l assms(2) in \<open>simp_all add: data_at_Some\<close>)
  have B: "prints (\<lambda>s. run_bind (dump_buffer_lines emit n fr (length (drop n bs) div n) (next_address a n) (drop n bs) s) ?rest)
      (memory_text n (next_address a n) (\<lambda>i. vis (i + n)) (drop n bs))"
    by (rule Suc.hyps(1) [OF k [symmetric] h(2)])
  have "bs \<noteq> []" using l assms(1) by auto
  then show ?case
    using prints_bind [OF A B] l k Suc.hyps(2) [symmetric] assms(1)
    by (subst memory_text.simps) (simp add: run_bind_assoc min_absorb2)
qed

lemma prints_DumpMemory_buffer:
  "0 < n \<Longrightarrow> n < 2 ^ 64 \<Longrightarrow> holes_ok fr a vis (length bs) \<Longrightarrow>
     prints (\<lambda>s. put_DumpMemory acc emit (DumpMemory_new_buffer bs fr a n) mem s) (memory_text n a vis bs)"
  using prints_dump_buffer by (simp add: put_DumpMemory_def DumpMemory_new_buffer_def)

end

locale memory_dump = text_sink emit R fits + memory_accesser acc valid view
  for emit :: "'s \<Rightarrow> cString \<Rightarrow> 's run" and R :: "'s \<Rightarrow> character list \<Rightarrow> bool" and fits :: "character list \<Rightarrow> bool"
    and acc :: "'a accesser" and valid :: "'a \<Rightarrow> bool" and view :: "'a \<Rightarrow> uint8 list"
begin

lemma prints_dumpLine:
  assumes "valid (dump_memory m)" and "length data = dump_count m" and "0 < dump_count m" and "dump_count m < 2 ^ 64"
    and "p + dump_count m \<le> length (view (dump_memory m))" and "k \<le> dump_count m"
    and "\<And>data. length data = dump_count m \<Longrightarrow> prints (\<lambda>s. g (data, s)) cs"
  shows "prints (\<lambda>s. run_bind (DumpMemory_dumpLine acc emit m (word_of_nat p) k data s) g)
      (line_text (dump_count m) (remoteAddress_new (word_of_nat p - dump_relocation m) DEFAULT_REMOTE_ADDRESS_ENCODING)
         (\<lambda>_. True) (take k (drop p (view (dump_memory m)))) @ cs)"
proof -
  let ?n = "dump_count m" and ?a = "remoteAddress_new (word_of_nat p - dump_relocation m) DEFAULT_REMOTE_ADDRESS_ENCODING"
  let ?row = "take ?n (drop p (view (dump_memory m)))" and ?bs = "take k (drop p (view (dump_memory m)))"
  have l: "length ?row = ?n" "length ?bs = k" using assms(5,6) by simp_all
  have r: "a_memread acc (dump_memory m) (word_of_nat p) ?n (Some cFragmentsDescriptor_new) =
      Inr (True, map Some ?row, Some [])"
    using memread_law [OF assms(1,3,5), of "Some []"] by (simp add: cFragmentsDescriptor_new_def)
  have z: "map2 (\<lambda>old new. if new = None then old else new) data (map Some ?row) = map Some ?row"
    using assms(2) l(1) by (intro nth_equalityI) simp_all
  have "prints (\<lambda>s. DumpMemory_internalDumpLine emit ?n ?a (length ?bs) (map Some ?row) [] s) (line_text ?n ?a (\<lambda>_. True) ?bs)"
    by (rule prints_line) (use l assms(4,5,6) in \<open>simp_all add: holes_ok_def data_at_def\<close>)
  from prints_bind [OF this assms(7) [of "map Some ?row"]] show ?thesis
    using l assms(2) r z by (simp add: DumpMemory_dumpLine_def run_bind_assoc Let_def)
qed

lemma prints_dump_memory:
  assumes "valid (dump_memory m)" and "0 < dump_count m" and "dump_count m < 2 ^ 64"
    and "length data = dump_count m"
    and "p + k * dump_count m + (if r = 0 then 0 else dump_count m) \<le> length (view (dump_memory m))"
    and "r < dump_count m" and "end = word_of_nat (p + k * dump_count m + r)"
  shows "prints (\<lambda>s. run_bind (dump_memory_lines acc emit m k (word_of_nat p) data s) (\<lambda>(pos, data, s).
      if end - pos \<noteq> 0 then run_bind (DumpMemory_dumpLine acc emit m pos (unat (end - pos)) data s) (\<lambda>(_, s). ok s) else ok s))
      (memory_text (dump_count m) (remoteAddress_new (word_of_nat p - dump_relocation m) DEFAULT_REMOTE_ADDRESS_ENCODING)
         (\<lambda>_. True) (take (k * dump_count m + r) (drop p (view (dump_memory m)))))"
  using assms(4,5,7)
proof (induction k arbitrary: p data)
  case 0
  have e: "end - word_of_nat p = word_of_nat r" using 0(3) by simp
  have r: "unat (word_of_nat r :: uint64) = r" using assms(3,6) by (simp add: unat_of_nat take_bit_nat_eq_self)
  show ?case
  proof (cases "r = 0")
    case True
    then show ?thesis using e by (simp add: memory_text.simps prints_okI)
  next
    case False
    let ?bs = "take r (drop p (view (dump_memory m)))"
    have nz: "(word_of_nat r :: uint64) \<noteq> 0" using False r by (metis unat_0)
    have "?bs \<noteq> []" "length ?bs = r" using False 0(2) assms(6) by auto
    then have "memory_text (dump_count m) a (\<lambda>_. True) ?bs = line_text (dump_count m) a (\<lambda>_. True) ?bs @ []" for a
      using assms(2,6) by (subst memory_text.simps) (simp add: memory_text.simps [of _ _ _ "[]"] min_absorb2)
    moreover have "prints (\<lambda>s. run_bind (DumpMemory_dumpLine acc emit m (word_of_nat p) r data s) (\<lambda>(_, s). ok s))
      (line_text (dump_count m) (remoteAddress_new (word_of_nat p - dump_relocation m) DEFAULT_REMOTE_ADDRESS_ENCODING)
         (\<lambda>_. True) ?bs @ [])"
      by (rule prints_dumpLine [OF assms(1) 0(1) assms(2,3)]) (use 0(2) False assms(6) in \<open>simp_all add: prints_okI\<close>)
    moreover have "end \<noteq> word_of_nat p" using e nz by auto
    ultimately show ?thesis using e r by simp
  qed
next
  case (Suc k)
  let ?n = "dump_count m" and ?w = "view (dump_memory m)" and ?q = "p + dump_count m"
  let ?a = "\<lambda>p. remoteAddress_new (word_of_nat p - dump_relocation m) DEFAULT_REMOTE_ADDRESS_ENCODING"
  let ?g = "\<lambda>(pos, data, s). if end - pos \<noteq> 0
    then run_bind (DumpMemory_dumpLine acc emit m pos (unat (end - pos)) data s) (\<lambda>(_, s). ok s) else ok s"
  have l: "?q + k * ?n + (if r = 0 then 0 else ?n) \<le> length ?w" using Suc.prems(2) by (simp add: algebra_simps)
  have e: "end = word_of_nat (?q + k * ?n + r)" using Suc.prems(3) by (simp add: algebra_simps)
  have IH: "prints (\<lambda>s. run_bind (dump_memory_lines acc emit m k (word_of_nat p + word_of_nat ?n) data s) ?g)
      (memory_text ?n (?a ?q) (\<lambda>_. True) (take (k * ?n + r) (drop ?q ?w)))" if "length data = ?n" for data
    using Suc.IH [OF that l e] by simp
  have "prints (\<lambda>s. run_bind (DumpMemory_dumpLine acc emit m (word_of_nat p) ?n data s)
      (\<lambda>(data, s). run_bind (dump_memory_lines acc emit m k (word_of_nat p + word_of_nat ?n) data s) ?g))
      (line_text ?n (?a p) (\<lambda>_. True) (take ?n (drop p ?w)) @ memory_text ?n (?a ?q) (\<lambda>_. True) (take (k * ?n + r) (drop ?q ?w)))"
    by (rule prints_dumpLine [OF assms(1) Suc.prems(1) assms(2,3)]) (use l IH in simp_all)
  moreover have "memory_text ?n (?a p) (\<lambda>_. True) (take (Suc k * ?n + r) (drop p ?w)) =
      line_text ?n (?a p) (\<lambda>_. True) (take ?n (drop p ?w)) @ memory_text ?n (?a ?q) (\<lambda>_. True) (take (k * ?n + r) (drop ?q ?w))"
  proof -
    have "take (Suc k * ?n + r) (drop p ?w) \<noteq> []" using l assms(2) by auto
    moreover have "take ?n (take (Suc k * ?n + r) (drop p ?w)) = take ?n (drop p ?w)" by (simp add: min_def)
    moreover have "drop ?n (take (Suc k * ?n + r) (drop p ?w)) = take (k * ?n + r) (drop ?q ?w)"
      by (simp add: drop_take add.commute)
    moreover have "next_address (?a p) ?n = ?a ?q"
      by (simp add: next_address_def remoteAddress_new_def algebra_simps)
    ultimately show ?thesis using assms(2) by (subst memory_text.simps) simp
  qed
  ultimately show ?case by (simp add: run_bind_assoc split_def)
qed

lemma prints_DumpMemory:
  assumes "valid a" and "0 < n" and "n < 2 ^ 64" and "p \<le> q" and "q \<le> length (view a)"
    and "p + (q - p + n - 1) div n * n \<le> length (view a)"
  shows "prints (\<lambda>s. put_DumpMemory acc emit (DumpMemory_new_memory a (word_of_nat p) (word_of_nat q) relocation n) mem s)
      (memory_text n (remoteAddress_new (word_of_nat p - relocation) DEFAULT_REMOTE_ADDRESS_ENCODING) (\<lambda>_. True)
         (take (q - p) (drop p (view a))))"
proof -
  let ?m = "Dump_memory a (word_of_nat p) (word_of_nat q) relocation n"
  define k r where kr: "k = (q - p) div n" "r = (q - p) mod n"
  have s: "q - p = k * n + r" "r < n" using assms(2) kr by simp_all
  have q: "q = p + k * n + r" using s(1) assms(4) by simp
  have u: "unat (word_of_nat q :: uint64) = q" "unat (word_of_nat p :: uint64) = p"
    using size_law [OF assms(1)] assms(4,5) by (simp_all add: unat_of_nat take_bit_nat_eq_self)
  then have d: "unat (word_of_nat q - word_of_nat p :: uint64) = q - p" "\<not> (word_of_nat q < (word_of_nat p :: uint64))"
    using assms(4) by (simp_all add: unat_sub word_le_nat_alt word_less_nat_alt)
  have "(q - p + n - 1) div n = (if r = 0 then k else Suc k)"
  proof (cases "r = 0")
    case True
    then have e: "q - p + n - 1 = n - 1 + k * n" using s assms(2) by simp
    show ?thesis unfolding e using True assms(2) div_mult_self1 [of n "n - 1" k] by simp
  next
    case False
    then have e: "q - p + n - 1 = r - 1 + Suc k * n" using s by simp
    show ?thesis unfolding e using False s(2) assms(2) div_mult_self1 [of n "r - 1" "Suc k"] by simp
  qed
  then have l: "p + k * n + (if r = 0 then 0 else n) \<le> length (view a)" using assms(6) by (simp split: if_splits)
  have "prints (\<lambda>s. run_bind (dump_memory_lines acc emit ?m k (word_of_nat p) (map mem [0..<n]) s) (\<lambda>(pos, data, s).
      if word_of_nat q - pos \<noteq> 0
      then run_bind (DumpMemory_dumpLine acc emit ?m pos (unat (word_of_nat q - pos)) data s) (\<lambda>(_, s). ok s) else ok s))
      (memory_text (dump_count ?m) (remoteAddress_new (word_of_nat p - dump_relocation ?m) DEFAULT_REMOTE_ADDRESS_ENCODING)
         (\<lambda>_. True) (take (k * dump_count ?m + r) (drop p (view (dump_memory ?m)))))"
  proof (rule prints_dump_memory)
    show "p + k * dump_count ?m + (if r = 0 then 0 else dump_count ?m) \<le> length (view (dump_memory ?m))"
      unfolding DumpMemory.sel by (rule l)
    show "word_of_nat q = word_of_nat (p + k * dump_count ?m + r)" unfolding DumpMemory.sel q [symmetric] ..
  qed (use assms(1,2,3) s(2) in simp_all)
  then show ?thesis
    using d assms(2)
    by (simp add: put_DumpMemory_def DumpMemory_new_memory_def Let_def s(1) [symmetric] kr(1) [symmetric])
qed

end

subsection \<open>Dumps of buffers and memories\<close>

interpretation buffer_dump: memory_dump str_put str_rel "\<lambda>_. True" thread_accesser buffer_valid buffer_view
  by unfold_locales

text \<open>What a new string stream holds.\<close>

lemma str_prints:
  assumes "str.prints f cs"
  shows "yields (f cStringStream_new) (\<lambda>s. cStringStream_getData s = cstr cs)"
proof -
  have "yields (f cStringStream_new) (\<lambda>s. str_rel s ([] @ cs))"
    using assms new_string_rel unfolding str.prints_def by blast
  then show ?thesis by (rule yields_mono) (simp add: str_rel_def)
qed

lemma short_region_throws:
  assumes "buffer_at M a bs" and "p < q" and "q - p < n" and "q \<le> length bs" and "length bs + 1 < p + n"
    and "unat a + p + n < 2 ^ 64"
  shows "put_DumpMemory thread_accesser emit
      (DumpMemory_new_memory (cStreamMemoryAccesser_new M a (length bs)) (word_of_nat p) (word_of_nat q) relocation n) mem s =
    throw EXCEPTION_ASSERTION"
proof -
  have u: "unat (word_of_nat q :: uint64) = q" "unat (word_of_nat p :: uint64) = p"
    using assms(2,4) buffer_length [OF assms(1)] by (simp_all add: unat_of_nat take_bit_nat_eq_self)
  have d: "unat (word_of_nat q - word_of_nat p :: uint64) = q - p" "\<not> (word_of_nat q < (word_of_nat p :: uint64))"
    "word_of_nat q \<noteq> (word_of_nat p :: uint64)"
    using assms(2) u by (auto simp: unat_sub word_le_nat_alt word_less_nat_alt)
  have "\<not> access_ok a (length bs) (word_of_nat p) n"
    using access_ok_offset [of a p n "length bs"] assms(3,5,6) by simp
  then have "a_memread thread_accesser (cStreamMemoryAccesser_new M a (length bs)) (word_of_nat p) n fr = Inl EXCEPTION_ASSERTION" for fr
    using memread_buffer [OF assms(1), of n "word_of_nat p" fr] assms(3) by (simp add: thread_accesser_def)
  then show ?thesis
    using d assms(3) by (simp add: put_DumpMemory_def DumpMemory_new_memory_def DumpMemory_dumpLine_def Let_def)
qed

text \<open>
  C27: the dump of a buffer is its rows, each with the address, the digits and the characters of
  its bytes; the dump of a part of a memory is that of the bytes with its holes; a part of the
  memory that ends in a row which reaches behind the memory throws, although it lies inside.
\<close>

theorem dumps_print:
  assumes "segment_ok obj" and "0 < d_elementsInRow obj"
    and "buffer_at M a bs" and "0 < n" and "n < 2 ^ 64" and "p < q" and "q \<le> length bs"
    and "holes_ok fr addr vis (length bs)" and "unat a + p + n < 2 ^ 64"
  shows "yields (hexDumpObject str_put obj bs mem cStringStream_new)
      (\<lambda>s. cStringStream_getData s = cstr (dump_text obj (d_startAddress obj) bs)) \<and>
    yields (put_DumpMemory acc str_put (DumpMemory_new_buffer bs fr addr n) junk cStringStream_new)
      (\<lambda>s. cStringStream_getData s = cstr (memory_text n addr vis bs)) \<and>
    (let memory = DumpMemory_new_memory (cStreamMemoryAccesser_new M a (length bs)) (word_of_nat p) (word_of_nat q) relocation n
     in (if p + (q - p + n - 1) div n * n \<le> length bs
         then yields (put_DumpMemory thread_accesser str_put memory junk cStringStream_new)
           (\<lambda>s. cStringStream_getData s = cstr (memory_text n
              (remoteAddress_new (word_of_nat p - relocation) DEFAULT_REMOTE_ADDRESS_ENCODING) (\<lambda>_. True) (take (q - p) (drop p bs))))
         else q - p < n \<and> length bs + 1 < p + n \<longrightarrow>
           put_DumpMemory thread_accesser str_put memory junk cStringStream_new = throw EXCEPTION_ASSERTION))"
proof (intro conjI)
  show "yields (hexDumpObject str_put obj bs mem cStringStream_new)
      (\<lambda>s. cStringStream_getData s = cstr (dump_text obj (d_startAddress obj) bs))"
    by (rule str_prints [OF str.prints_hexDumpObject [OF assms(1,2)]])
  show "yields (put_DumpMemory acc str_put (DumpMemory_new_buffer bs fr addr n) junk cStringStream_new)
      (\<lambda>s. cStringStream_getData s = cstr (memory_text n addr vis bs))"
    by (rule str_prints [OF str.prints_DumpMemory_buffer [OF assms(4,5,8)]])
  let ?m = "cStreamMemoryAccesser_new M a (length bs)"
  have v: "buffer_valid ?m" "buffer_view ?m = bs"
    using assms(3) buffer_view_new [OF assms(3)] unfolding buffer_valid_def by blast+
  let ?memory = "DumpMemory_new_memory ?m (word_of_nat p) (word_of_nat q) relocation n"
  have fits: "yields (put_DumpMemory thread_accesser str_put ?memory junk cStringStream_new)
      (\<lambda>s. cStringStream_getData s = cstr (memory_text n
         (remoteAddress_new (word_of_nat p - relocation) DEFAULT_REMOTE_ADDRESS_ENCODING) (\<lambda>_. True) (take (q - p) (drop p bs))))"
    if "p + (q - p + n - 1) div n * n \<le> length bs"
    by (rule str_prints, rule buffer_dump.prints_DumpMemory [OF v(1), unfolded v(2)])
      (use assms(4,5,6,7) that in simp_all)
  have fails: "put_DumpMemory thread_accesser str_put ?memory junk cStringStream_new = throw EXCEPTION_ASSERTION"
    if "q - p < n \<and> length bs + 1 < p + n"
    using short_region_throws [OF assms(3,6) conjunct1 [OF that] assms(7) conjunct2 [OF that] assms(9)] .
  show "let memory = ?memory
     in (if p + (q - p + n - 1) div n * n \<le> length bs
         then yields (put_DumpMemory thread_accesser str_put memory junk cStringStream_new)
           (\<lambda>s. cStringStream_getData s = cstr (memory_text n
              (remoteAddress_new (word_of_nat p - relocation) DEFAULT_REMOTE_ADDRESS_ENCODING) (\<lambda>_. True) (take (q - p) (drop p bs))))
         else q - p < n \<and> length bs + 1 < p + n \<longrightarrow>
           put_DumpMemory thread_accesser str_put memory junk cStringStream_new = throw EXCEPTION_ASSERTION)"
    unfolding Let_def using fits fails by presburger
qed

theorem dumps_print_witness:
  "segment_ok DATA8_new \<and> buffer_at example_memory 0x1004 [4, 5, 6] \<and>
   yields (put_DumpMemory thread_accesser str_put (DumpMemory_new_buffer [4, 5, 6] [] \<lparr>m_union = 0, m_type = REMOTE_ADDRESS_16BIT\<rparr> 2)
       (\<lambda>_. None) cStringStream_new)
     (\<lambda>s. cStringStream_getData s = cstr (lit ''0000   04-05  ..'' @ [10] @ lit ''0002   06-    .'' @ [10])) \<and>
   put_DumpMemory thread_accesser str_put
     (DumpMemory_new_memory (cStreamMemoryAccesser_new example_memory 0x1004 (length [4, 5, 6 :: uint8])) (word_of_nat 2) (word_of_nat 3) 0 4)
     (\<lambda>_. None) cStringStream_new = throw EXCEPTION_ASSERTION"
proof -
  have ok: "segment_ok DATA8_new" "0 < d_elementsInRow DATA8_new"
    by (simp_all add: DATA8_new_def segment_ok_def)
  have b: "buffer_at example_memory 0x1004 [4, 5, 6]"
    by (simp add: buffer_at_def mapped_Cons example_memory_def) (simp add: mapped_def)
  let ?a = "\<lparr>m_union = 0, m_type = REMOTE_ADDRESS_16BIT\<rparr>"
  have h: "holes_ok [] ?a (\<lambda>_. True) (length [4, 5, 6 :: uint8])" by (simp add: holes_ok_def)
  have t: "memory_text 2 ?a (\<lambda>_. True) [4, 5, 6] = lit ''0000   04-05  ..'' @ [10] @ lit ''0002   06-    .'' @ [10]"
    by code_simp
  have l: "unat (0x1004 :: uint64) = 0x1004" by simp
  note first = dumps_print [OF ok b, of 2 2 3 "[]" ?a "\<lambda>_. True" "\<lambda>_. 0" thread_accesser "\<lambda>_. None" 0, unfolded t]
  note second = dumps_print [OF ok b, of 4 2 3 "[]" ?a "\<lambda>_. True" "\<lambda>_. 0" thread_accesser "\<lambda>_. None" 0]
  show ?thesis
    using first [OF _ _ _ _ h] second [OF _ _ _ _ h] ok(1) b by (simp add: l Let_def)
qed

end
