(* ===== verification/XFilename.thy ===== *)
theory XFilename
  imports XStringProps
begin

text \<open>
  File names (os/filename.cpp) and the parser of DOS names (os/WindowsOS/winFilename.cpp), the one
  parser that the library has. Its translation of a path with \<open>.\<close> and \<open>..\<close> is a machine with a stack of
  names; \<open>cFilename\<close> confines a relative name to its base path.
\<close>

subsection \<open>Names and separators\<close>

definition m_directorySeperatorWindows :: character where
  "m_directorySeperatorWindows = ch CHR 0x5C"

definition m_directorySeperatorUnix :: character where
  "m_directorySeperatorUnix = ch CHR ''/''"

definition m_directoryCurrentDirectory :: "character list" where
  "m_directoryCurrentDirectory = lit ''.'' @ [0]"

definition m_directoryPreviousDirectory :: "character list" where
  "m_directoryPreviousDirectory = lit ''..'' @ [0]"

definition cFilename_isDirectorySeperator :: "character \<Rightarrow> bool" where
  "cFilename_isDirectorySeperator c \<longleftrightarrow> c = m_directorySeperatorWindows \<or> c = m_directorySeperatorUnix"

definition cFilename_isPreviousDirectoryMarker :: "cString \<Rightarrow> bool" where
  "cFilename_isPreviousDirectoryMarker directoryName \<longleftrightarrow>
     cString_icompare_chars directoryName m_directoryPreviousDirectory = EqualTo"

definition cFilename_isCurrentDirectoryMarker :: "cString \<Rightarrow> bool" where
  "cFilename_isCurrentDirectoryMarker directoryName \<longleftrightarrow>
     cString_icompare_chars directoryName m_directoryCurrentDirectory = EqualTo"

text \<open>The last argument counts the characters that are left.\<close>

fun readDirectory_end :: "cString \<Rightarrow> nat \<Rightarrow> nat \<Rightarrow> nat" where
  "readDirectory_end filename end 0 = end"
| "readDirectory_end filename end (Suc k) =
     (if \<not> cFilename_isDirectorySeperator (m_buffer filename ! end)
      then readDirectory_end filename (end + 1) k else end)"

definition cFilename_readDirectory :: "cString \<Rightarrow> nat \<Rightarrow> cString" where
  "cFilename_readDirectory filename startPosition =
     cString_part filename startPosition
       (readDirectory_end filename startPosition (cString_length filename - startPosition))"

definition isNameCharacter :: "character \<Rightarrow> bool" where
  "isNameCharacter c \<longleftrightarrow>
     cChar_isLetter c \<or> cChar_isDigit c \<or> cChar_isBraces c \<or> cChar_isSeperator c \<or>
     cFilename_isDirectorySeperator c \<or> c \<in> set (map ch ''~!@#$%^&-_=+'') \<or> c = ch CHR 0x27 \<or> c = ch CHR '' ''"

definition cFilename_checkRelativeNameValidation :: "cString \<Rightarrow> bool" where
  "cFilename_checkRelativeNameValidation relativeName \<longleftrightarrow>
     list_all isNameCharacter (take (cString_length relativeName) (m_buffer relativeName))"

subsection \<open>The parser of DOS names\<close>

definition cDosDirectoryParser_isAbsolutePath :: "cString \<Rightarrow> bool" where
  "cDosDirectoryParser_isAbsolutePath filename \<longleftrightarrow>
     \<not> cString_length filename < 3 \<and>
     \<not> (cChar_getUppercase (m_buffer filename ! 0) <s ch CHR ''A'' \<or>
        ch CHR ''Z'' <s cChar_getUppercase (m_buffer filename ! 0)) \<and>
     \<not> (m_buffer filename ! 1 \<noteq> ch CHR '':'' \<or> \<not> cFilename_isDirectorySeperator (m_buffer filename ! 2))"

text \<open>The loop over the names of a path, with the stack of the names that were read.\<close>

function dos_names :: "cString \<Rightarrow> nat \<Rightarrow> cString list \<Rightarrow> cString list res" where
  "dos_names absolutePath i directories =
     (if i < cString_length absolutePath then
        let newDirectory = cFilename_readDirectory absolutePath i;
            i' = i + (cString_length newDirectory + 1)
        in if \<not> cFilename_isCurrentDirectoryMarker newDirectory then
             if cFilename_isPreviousDirectoryMarker newDirectory
             then dos_names absolutePath i' (if directories \<noteq> [] then butlast directories else directories)
             else if cFilename_checkRelativeNameValidation newDirectory
             then dos_names absolutePath i' (directories @ [newDirectory])
             else Inl EXCEPTION_OUT_OF_RANGE
           else dos_names absolutePath i' directories
      else Inr directories)"
  by pat_completeness auto
termination by (relation "measure (\<lambda>(p, i, d). cString_length p - i)") (auto simp: Let_def)

declare dos_names.simps [simp del]

fun dos_join :: "cString \<Rightarrow> cString \<Rightarrow> cString list \<Rightarrow> cString res" where
  "dos_join absolutePath ret [] = Inr ret"
| "dos_join absolutePath ret (j # js) =
     (let ret = cString_concat ret j in
      bind_res (if js \<noteq> [] then Inr True
                else map_sum id cFilename_isDirectorySeperator (cString_get absolutePath (cString_length absolutePath - 1))) (\<lambda>b.
      dos_join absolutePath (if b then cString_append_char ret m_directorySeperatorWindows else ret) js))"

definition cDosDirectoryParser_translateAbsolutePath :: "cString \<Rightarrow> cString res" where
  "cDosDirectoryParser_translateAbsolutePath absolutePath =
     (let ret = cString_left absolutePath 3 in
      bind_res (dos_names absolutePath 3 []) (\<lambda>directories.
      if directories = [] then Inr ret else dos_join absolutePath ret directories))"

definition cDosFilenameParser_getDatabaseName :: "cString \<Rightarrow> cString" where
  "cDosFilenameParser_getDatabaseName absoluteTranslatedPath = cString_left absoluteTranslatedPath 2"

text \<open>A position below zero wraps around and is then behind the string.\<close>

fun last_separator :: "cString \<Rightarrow> nat \<Rightarrow> nat res" where
  "last_separator filename i =
     (if i \<ge> 2 then
        bind_res (cString_get filename i) (\<lambda>c.
        if cFilename_isDirectorySeperator c then Inr i else last_separator filename (i - 1))
      else Inl EXCEPTION_ASSERTION)"

declare last_separator.simps [simp del]

definition cDosFilenameParser_getLastDirectorySeparator :: "cString \<Rightarrow> nat res" where
  "cDosFilenameParser_getLastDirectorySeparator filename =
     (if cString_length filename = 0 then Inl EXCEPTION_OUT_OF_RANGE
      else last_separator filename (cString_length filename - 1))"

definition cDosFilenameParser_getDirectoryName :: "cString \<Rightarrow> cString res" where
  "cDosFilenameParser_getDirectoryName absoluteTranslatedPath =
     bind_res (cDosFilenameParser_getLastDirectorySeparator absoluteTranslatedPath) (\<lambda>i.
     Inr (cString_left absoluteTranslatedPath (to_int (i + 1))))"

definition cDosFilenameParser_getFilename :: "cString \<Rightarrow> cString res" where
  "cDosFilenameParser_getFilename absoluteTranslatedPath =
     bind_res (cDosFilenameParser_getLastDirectorySeparator absoluteTranslatedPath) (\<lambda>i.
     Inr (cString_right absoluteTranslatedPath (to_int (cString_length absoluteTranslatedPath - i - 1))))"

subsection \<open>File names\<close>

datatype FilenameParser = cDosFilenameParser

record cFilename =
  m_filename :: cString
  m_directoryParser :: FilenameParser

definition cFilename_new :: "cString \<Rightarrow> FilenameParser option \<Rightarrow> cFilename res" where
  "cFilename_new fullpath parser =
     bind_res (CHECK (parser \<noteq> None)) (\<lambda>_. Inr \<lparr>m_filename = fullpath, m_directoryParser = the parser\<rparr>)"

definition cFilename_enforceDirectory :: "cString \<Rightarrow> cString res" where
  "cFilename_enforceDirectory filename =
     (if cString_length filename = 0 then Inl EXCEPTION_OUT_OF_RANGE
      else bind_res (cString_get filename (cString_length filename - 1)) (\<lambda>c.
        Inr (if \<not> cFilename_isDirectorySeperator c then cString_append_char filename m_directorySeperatorWindows
             else filename)))"

definition cFilename_new_append :: "cFilename \<Rightarrow> cString \<Rightarrow> bool \<Rightarrow> bool \<Rightarrow> cFilename res" where
  "cFilename_new_append basePath relativeFilenamePath shouldStepBackward enforceDirectory =
     (let path = (if cDosDirectoryParser_isAbsolutePath relativeFilenamePath then relativeFilenamePath
                  else cString_plus (m_filename basePath) relativeFilenamePath)
      in bind_res (cDosDirectoryParser_translateAbsolutePath path) (\<lambda>name.
         bind_res (if enforceDirectory then cFilename_enforceDirectory name else Inr name) (\<lambda>name.
         bind_res
           (if \<not> shouldStepBackward
            then CHECK (cString_icompare (cString_left name (to_int (cString_length (m_filename basePath))))
              (m_filename basePath) = EqualTo)
            else Inr ()) (\<lambda>_.
         Inr \<lparr>m_filename = name,
           m_directoryParser =
             (if cDosDirectoryParser_isAbsolutePath relativeFilenamePath then cDosFilenameParser
              else m_directoryParser basePath)\<rparr>))))"

definition cFilename_getFullPath :: "cFilename \<Rightarrow> cString" where
  "cFilename_getFullPath f = m_filename f"

definition cFilename_getDatabaseName :: "cFilename \<Rightarrow> cString" where
  "cFilename_getDatabaseName f = cDosFilenameParser_getDatabaseName (m_filename f)"

definition cFilename_getDirectoryName :: "cFilename \<Rightarrow> cFilename res" where
  "cFilename_getDirectoryName f =
     bind_res (cDosFilenameParser_getDirectoryName (m_filename f)) (\<lambda>name.
     cFilename_new name (Some (m_directoryParser f)))"

definition cFilename_getFilename :: "cFilename \<Rightarrow> cString res" where
  "cFilename_getFilename f = cDosFilenameParser_getFilename (m_filename f)"

subsection \<open>Paths as lists of names\<close>

abbreviation sep :: "character \<Rightarrow> bool" where
  "sep \<equiv> cFilename_isDirectorySeperator"

function names :: "character list \<Rightarrow> character list list" where
  "names cs =
     (if cs = [] then []
      else takeWhile (\<lambda>c. \<not> sep c) cs # names (drop (Suc (length (takeWhile (\<lambda>c. \<not> sep c) cs))) cs))"
  by pat_completeness auto
termination by (relation "measure length") auto

declare names.simps [simp del]

text \<open>What the stack holds behind a list of names.\<close>

fun walk :: "character list list \<Rightarrow> character list list \<Rightarrow> character list list res" where
  "walk st [] = Inr st"
| "walk st (n # ns) =
     (if n = lit ''.'' then walk st ns
      else if n = lit ''..'' then walk (butlast st) ns
      else if list_all isNameCharacter n then walk (st @ [n]) ns
      else Inl EXCEPTION_OUT_OF_RANGE)"

fun joined :: "bool \<Rightarrow> character list list \<Rightarrow> character list" where
  "joined t [] = []"
| "joined t (j # js) = j @ (if js \<noteq> [] \<or> t then [0x5C] else []) @ joined t js"

definition clean :: "character list \<Rightarrow> bool" where
  "clean n \<longleftrightarrow> n \<noteq> lit ''.'' \<and> n \<noteq> lit ''..'' \<and> list_all isNameCharacter n"

lemma names_Nil [simp]: "names [] = []"
  by (simp add: names.simps)

lemma names_cut: "list_all (\<lambda>c. \<not> sep c) a \<Longrightarrow> sep x \<Longrightarrow> names (a @ x # b) = a # names b"
  by (subst names.simps) (simp add: takeWhile_append list_all_iff takeWhile_eq_all_conv [THEN iffD2])

lemma names_one: "list_all (\<lambda>c. \<not> sep c) a \<Longrightarrow> a \<noteq> [] \<Longrightarrow> names a = [a]"
  by (subst names.simps) (simp add: list_all_iff takeWhile_eq_all_conv [THEN iffD2])

lemma names_step:
  "cs \<noteq> [] \<Longrightarrow> names cs = takeWhile (\<lambda>c. \<not> sep c) cs # names (drop (Suc (length (takeWhile (\<lambda>c. \<not> sep c) cs))) cs)"
  by (subst names.simps) simp

lemma names_parts: "n \<in> set (names cs) \<Longrightarrow> list_all (\<lambda>c. \<not> sep c) n \<and> set n \<subseteq> set cs"
proof (induction "length cs" arbitrary: cs rule: less_induct)
  case less
  let ?t = "takeWhile (\<lambda>c. \<not> sep c) cs"
  have ne: "cs \<noteq> []" using less.prems by auto
  then consider "n = ?t" | "n \<in> set (names (drop (Suc (length ?t)) cs))" using less.prems names_step [OF ne] by auto
  then show ?case
  proof cases
    case 1
    then show ?thesis by (auto simp: list_all_iff dest: set_takeWhileD)
  next
    case 2
    have "length (drop (Suc (length ?t)) cs) < length cs" using ne by simp
    from less.hyps [OF this 2] show ?thesis using set_drop_subset [of "Suc (length ?t)" cs] by blast
  qed
qed

lemma names_snoc: "n \<in> set (names (cs @ [x])) \<Longrightarrow> sep x \<Longrightarrow> n \<in> set (names cs) \<or> n = []"
proof (induction "length cs" arbitrary: cs rule: less_induct)
  case less
  show ?case
  proof (cases "\<exists>y \<in> set cs. sep y")
    case True
    then obtain a y b where cs: "cs = a @ y # b" "sep y" "\<forall>z \<in> set a. \<not> sep z" by (rule split_list_first_propE)
    then have "list_all (\<lambda>c. \<not> sep c) a" by (simp add: list_all_iff)
    then have "names cs = a # names b" "names (cs @ [x]) = a # names (b @ [x])"
      using cs(1,2) by (simp_all add: names_cut)
    then show ?thesis using less cs(1) by auto
  next
    case False
    then have a: "list_all (\<lambda>c. \<not> sep c) cs" by (simp add: list_all_iff)
    then show ?thesis using less.prems names_cut [OF a less.prems(2), of "[]"] names_one [OF a] by (cases "cs = []") auto
  qed
qed

lemma sep_backslash: "sep 0x5C" "m_directorySeperatorWindows = 0x5C"
  by (simp_all add: cFilename_isDirectorySeperator_def m_directorySeperatorWindows_def ch_def)

subsection \<open>The parser on well formed strings\<close>

lemma readDirectory_end_simp:
  "i + k = length cs \<Longrightarrow> readDirectory_end (cstr cs) i k = i + length (takeWhile (\<lambda>c. \<not> sep c) (drop i cs))"
proof (induction k arbitrary: i)
  case (Suc k)
  then have "drop i cs = cs ! i # drop (Suc i) cs" "(cs @ [0]) ! i = cs ! i"
    by (simp_all add: Cons_nth_drop_Suc nth_append)
  then show ?case using Suc.IH [of "Suc i"] Suc.prems by simp
qed simp

lemma readDirectory_simp:
  assumes "nonul cs" and "i \<le> length cs"
  shows "cFilename_readDirectory (cstr cs) i = cstr (takeWhile (\<lambda>c. \<not> sep c) (drop i cs))"
proof -
  let ?d = "drop i cs" and ?P = "\<lambda>c. \<not> sep c"
  have "take (length (takeWhile ?P ?d)) ?d = takeWhile ?P ?d" by (metis takeWhile_eq_take)
  then show ?thesis
    using assms readDirectory_end_simp [of i "length cs - i" cs] by (simp add: cFilename_readDirectory_def part_simp)
qed

lemma lower_dot: "cChar_getLowercase c = 46 \<longleftrightarrow> c = 46"
proof -
  have "\<forall>n \<in> set [0..<256]. cChar_getLowercase (word_of_nat n) = 46 \<longrightarrow> n = 46" by code_simp
  then have "unat c = 46" if "cChar_getLowercase c = 46"
    using that unsigned_less [of c, where 'a = nat] by (auto dest: bspec [of _ _ "unat c"])
  then have "c = 46" if "cChar_getLowercase c = 46" using that by (simp add: word_unat_eq_iff)
  moreover have "cChar_getLowercase 46 = 46" by (simp add: cChar_getLowercase_def ch_def word_sle_eq)
  ultimately show ?thesis by blast
qed

lemma marker_simps:
  assumes "nonul n"
  shows "cFilename_isCurrentDirectoryMarker (cstr n) \<longleftrightarrow> n = lit ''.''"
    and "cFilename_isPreviousDirectoryMarker (cstr n) \<longleftrightarrow> n = lit ''..''"
proof -
  have e: "cString_icompare_chars (cstr n) (lit s @ [0]) = cString_icompare (cstr n) (cstr (lit s))" for s
    by (simp add: cString_icompare_def)
  have "map cChar_getLowercase n = [46] \<longleftrightarrow> n = [46]" "map cChar_getLowercase n = [46, 46] \<longleftrightarrow> n = [46, 46]"
    by (auto simp: map_eq_Cons_conv lower_dot)
  then show "cFilename_isCurrentDirectoryMarker (cstr n) \<longleftrightarrow> n = lit ''.''"
    "cFilename_isPreviousDirectoryMarker (cstr n) \<longleftrightarrow> n = lit ''..''"
    unfolding cFilename_isCurrentDirectoryMarker_def cFilename_isPreviousDirectoryMarker_def
      m_directoryCurrentDirectory_def m_directoryPreviousDirectory_def e
    using assms lower_dot [of 46] by (simp_all add: icompare_simp lit_def Let_def)
qed

lemma validation_simp: "cFilename_checkRelativeNameValidation (cstr n) \<longleftrightarrow> list_all isNameCharacter n"
  by (simp add: cFilename_checkRelativeNameValidation_def)

lemma dos_names_simp:
  "nonul cs \<Longrightarrow> dos_names (cstr cs) i (map cstr st) = map_sum id (map cstr) (walk st (names (drop i cs)))"
proof (induction "length cs - i" arbitrary: i st rule: less_induct)
  case less
  show ?case
  proof (cases "i < length cs")
    case False
    then show ?thesis by (subst dos_names.simps) simp
  next
    case True
    let ?n = "takeWhile (\<lambda>c. \<not> sep c) (drop i cs)"
    have n: "nonul ?n" using less.prems by auto
    have names: "names (drop i cs) = ?n # names (drop (i + (length ?n + 1)) cs)"
      using True by (subst names.simps) (simp add: add.commute)
    have IH: "dos_names (cstr cs) (i + (length ?n + 1)) (map cstr st) =
        map_sum id (map cstr) (walk st (names (drop (i + (length ?n + 1)) cs)))" for st
      using less.hyps [of "i + (length ?n + 1)" st] less.prems True by simp
    have r: "cFilename_readDirectory (cstr cs) i = cstr ?n" using True less.prems by (simp add: readDirectory_simp)
    have step: "dos_names (cstr cs) i (map cstr st) =
       (if ?n = lit ''.'' then dos_names (cstr cs) (i + (length ?n + 1)) (map cstr st)
        else if ?n = lit ''..'' then dos_names (cstr cs) (i + (length ?n + 1)) (map cstr (butlast st))
        else if list_all isNameCharacter ?n then dos_names (cstr cs) (i + (length ?n + 1)) (map cstr (st @ [?n]))
        else Inl EXCEPTION_OUT_OF_RANGE)"
      using True by (subst dos_names.simps) (auto simp: r marker_simps [OF n] validation_simp Let_def map_butlast)
    show ?thesis unfolding step IH names by simp
  qed
qed

lemma joined_snoc: "joined t (js @ [j]) = joined True js @ j @ (if t then [0x5C] else [])"
  by (induction js) auto

lemma last_simp: "cs \<noteq> [] \<Longrightarrow> length cs < 2 ^ 31 \<Longrightarrow> cString_get (cstr cs) (length cs - 1) = Inr (last cs)"
  by (simp add: get_simp last_conv_nth)

lemma dos_join_simp:
  "cs \<noteq> [] \<Longrightarrow> length cs < 2 ^ 31 \<Longrightarrow> nonul r \<Longrightarrow> list_all nonul js \<Longrightarrow>
     dos_join (cstr cs) (cstr r) (map cstr js) = Inr (cstr (r @ joined (sep (last cs)) js))"
proof (induction js arbitrary: r)
  case (Cons j js)
  have l: "cString_get (cstr cs) (length cs - Suc 0) = Inr (last cs)" using last_simp [OF Cons.prems(1,2)] by simp
  have s: "cString_append_char (cstr (r @ j)) m_directorySeperatorWindows = cstr (r @ j @ [0x5C])"
    by (simp add: sep_backslash append_char_simp)
  show ?case
    using Cons.prems l Cons.IH [of "r @ j"] Cons.IH [of "r @ j @ [0x5C]"] s
    by (cases "js = []") (simp_all add: concat_simp)
qed simp

lemma list_all_butlast: "list_all P st \<Longrightarrow> list_all P (butlast st)"
  by (auto simp: list_all_iff dest: in_set_butlastD)

lemma walk_names:
  "walk st ns = Inr st' \<Longrightarrow> list_all P st \<Longrightarrow> list_all P ns \<Longrightarrow> list_all P st'"
proof (induction ns arbitrary: st)
  case (Cons n ns)
  then consider "walk st ns = Inr st'" | "walk (butlast st) ns = Inr st'" | "walk (st @ [n]) ns = Inr st'"
    by (simp split: if_splits)
  then show ?case using Cons.IH Cons.prems(2,3) list_all_butlast [OF Cons.prems(2)] by cases simp_all
qed simp

lemma walk_clean: "walk st ns = Inr st' \<Longrightarrow> list_all clean st \<Longrightarrow> list_all clean st'"
proof (induction ns arbitrary: st)
  case (Cons n ns)
  then consider "walk st ns = Inr st'" | "walk (butlast st) ns = Inr st'" | "walk (st @ [n]) ns = Inr st'" "clean n"
    by (simp add: clean_def split: if_splits)
  then show ?case using Cons.IH Cons.prems(2) list_all_butlast [OF Cons.prems(2)] by cases simp_all
qed simp

lemma walk_id: "list_all clean ns \<Longrightarrow> walk st ns = Inr (st @ ns)"
  by (induction ns arbitrary: st) (auto simp: clean_def)

text \<open>What the translation of a path gives.\<close>

definition translated :: "character list \<Rightarrow> character list res" where
  "translated cs = map_sum id (\<lambda>st. take 3 cs @ joined (sep (last cs)) st) (walk [] (names (drop 3 cs)))"

lemma names_nonul: "nonul cs \<Longrightarrow> list_all nonul (names (drop n cs))"
  using names_parts [of _ "drop n cs"] set_drop_subset [of n cs] by (fastforce simp: list_all_iff nonul_def)

lemma translate_simp:
  assumes "nonul cs" and "length cs < 2 ^ 31"
  shows "cDosDirectoryParser_translateAbsolutePath (cstr cs) = map_sum id cstr (translated cs)"
proof (cases "walk [] (names (drop 3 cs))")
  case (Inl e)
  then show ?thesis
    using dos_names_simp [OF assms(1), of 3 "[]"]
    by (simp add: cDosDirectoryParser_translateAbsolutePath_def translated_def)
next
  case (Inr st)
  have st: "list_all nonul st" using walk_names [OF Inr _ names_nonul [OF assms(1)]] by simp
  have l: "cString_left (cstr cs) 3 = cstr (take 3 cs)" using left_simp [OF assms, of 3] by simp
  have ne: "cs \<noteq> []" if "st \<noteq> []" using that Inr by auto
  have n: "nonul (take 3 cs)" using assms(1) by auto
  show ?thesis
    using dos_names_simp [OF assms(1), of 3 "[]"] Inr l st ne dos_join_simp [OF _ assms(2) n st]
    by (cases "st = []") (simp_all add: cDosDirectoryParser_translateAbsolutePath_def translated_def)
qed

lemma names_joined:
  assumes "list_all (list_all (\<lambda>c. \<not> sep c)) js"
  shows "names (joined t js) = (if js \<noteq> [] \<and> \<not> t \<and> last js = [] then butlast js else js)"
  using assms
proof (induction js)
  case (Cons j js)
  have j: "list_all (\<lambda>c. \<not> sep c) j" using Cons.prems by simp
  have c: "names (j @ 0x5C # x) = j # names x" for x by (rule names_cut [OF j sep_backslash(1)])
  show ?case
    using Cons j names_one [OF j] c [of "joined t js"] c [of "[]"] by (cases "js = []") auto
qed simp

lemma translated_again: "translated cs = Inr r \<Longrightarrow> translated r = Inr r"
proof -
  assume "translated cs = Inr r"
  then obtain st where st: "walk [] (names (drop 3 cs)) = Inr st" and r: "r = take 3 cs @ joined (sep (last cs)) st"
    by (cases "walk [] (names (drop 3 cs))") (simp_all add: translated_def)
  have clean: "list_all clean st" using walk_clean [OF st] by simp
  have ns: "list_all (list_all (\<lambda>c. \<not> sep c)) st"
    using walk_names [OF st, of "list_all (\<lambda>c. \<not> sep c)"] names_parts [of _ "drop 3 cs"] by (simp add: list_all_iff)
  show "translated r = Inr r"
  proof (cases "st = []")
    case True
    then show ?thesis using r by (simp add: translated_def)
  next
    case False
    then have "names (drop 3 cs) \<noteq> []" using st by auto
    then have "drop 3 cs \<noteq> []" by (metis names_Nil)
    then have l: "length (take 3 cs) = 3" by simp
    then have d: "drop 3 r = joined (sep (last cs)) st" "take 3 r = take 3 cs" using r by simp_all
    obtain js j where js: "st = js @ [j]" using False by (metis rev_exhaust)
    have cj: "list_all clean js" "list_all clean st" "list_all (\<lambda>c. \<not> sep c) j" using clean ns js by simp_all
    have n: "names (drop 3 r) = (if \<not> sep (last cs) \<and> j = [] then js else st)"
      using names_joined [OF ns, of "sep (last cs)"] js d(1) by simp
    show ?thesis
    proof (cases "sep (last cs)")
      case True
      then have "last r = 0x5C" using r js by (simp add: joined_snoc)
      then show ?thesis using True n d r walk_id [OF cj(2), of "[]"] by (simp add: translated_def sep_backslash)
    next
      case no: False
      show ?thesis
      proof (cases "j = []")
        case True
        have e: "joined (sep (last cs)) st = joined True js" using no True js by (simp add: joined_snoc)
        show ?thesis
        proof (cases "js = []")
          case True
          then show ?thesis using no n d r e \<open>j = []\<close> by (simp add: translated_def)
        next
          case False
          then obtain ks k where "js = ks @ [k]" by (metis rev_exhaust)
          then have "last r = 0x5C" using r e by (simp add: joined_snoc)
          then show ?thesis using no n d r e \<open>j = []\<close> walk_id [OF cj(1), of "[]"] by (simp add: translated_def sep_backslash)
        qed
      next
        case False
        then have "last r = last j" using r js no by (simp add: joined_snoc)
        then have "\<not> sep (last r)" using cj(3) False by (simp add: list_all_iff)
        then show ?thesis using no n d r False walk_id [OF cj(2), of "[]"] by (simp add: translated_def)
      qed
    qed
  qed
qed

lemma translated_names: "translated cs = Inr r \<Longrightarrow> \<forall>n \<in> set (names (drop 3 r)). clean n"
proof -
  assume "translated cs = Inr r"
  then obtain st where st: "walk [] (names (drop 3 cs)) = Inr st" and r: "r = take 3 cs @ joined (sep (last cs)) st"
    by (cases "walk [] (names (drop 3 cs))") (simp_all add: translated_def)
  have clean: "list_all clean st" using walk_clean [OF st] by simp
  have ns: "list_all (list_all (\<lambda>c. \<not> sep c)) st"
    using walk_names [OF st, of "list_all (\<lambda>c. \<not> sep c)"] names_parts [of _ "drop 3 cs"] by (simp add: list_all_iff)
  show ?thesis
  proof (cases "st = []")
    case True
    then show ?thesis using r by simp
  next
    case False
    then have "drop 3 cs \<noteq> []" using st by auto
    then have "drop 3 r = joined (sep (last cs)) st" using r by simp
    then show ?thesis using names_joined [OF ns, of "sep (last cs)"] clean by (auto simp: list_all_iff dest: in_set_butlastD)
  qed
qed

lemma joined_nonul: "list_all nonul st \<Longrightarrow> nonul (joined t st)"
  by (induction st) auto

lemma translated_nonul: "nonul cs \<Longrightarrow> translated cs = Inr r \<Longrightarrow> nonul r"
proof (cases "walk [] (names (drop 3 cs))")
  case (Inr st)
  assume a: "nonul cs" "translated cs = Inr r"
  have "list_all nonul st" using walk_names [OF Inr _ names_nonul [OF a(1)]] by simp
  then show ?thesis using a Inr by (auto simp: translated_def joined_nonul)
qed (simp add: translated_def)

text \<open>The translation does not make a path longer by more than one character.\<close>

abbreviation weight :: "character list list \<Rightarrow> nat" where
  "weight ns \<equiv> sum_list (map (\<lambda>n. Suc (length n)) ns)"

lemma weight_joined: "length (joined t ns) \<le> weight ns"
  by (induction ns) auto

lemma weight_walk: "walk st ns = Inr st' \<Longrightarrow> weight st' \<le> weight st + weight ns"
proof (induction ns arbitrary: st)
  case (Cons n ns)
  have b: "weight (butlast st) \<le> weight st" by (cases st rule: rev_cases) simp_all
  from Cons.prems consider "walk st ns = Inr st'" | "walk (butlast st) ns = Inr st'" | "walk (st @ [n]) ns = Inr st'"
    by (simp split: if_splits)
  then show ?case
  proof cases
    case 1 from Cons.IH [OF this] show ?thesis by simp
  next
    case 2 from Cons.IH [OF this] show ?thesis using b by simp
  next
    case 3 from Cons.IH [OF this] show ?thesis by simp
  qed
qed simp

lemma weight_names: "weight (names cs) \<le> Suc (length cs)"
proof (induction "length cs" arbitrary: cs rule: less_induct)
  case less
  let ?t = "takeWhile (\<lambda>c. \<not> sep c) cs"
  show ?case
  proof (cases "cs = []")
    case False
    let ?d = "drop (Suc (length ?t)) cs"
    have t: "length ?t \<le> length cs" by (rule length_takeWhile_le)
    show ?thesis
    proof (cases "?d = []")
      case True
      then have "names cs = [?t]" using names_step [OF False] by simp
      then show ?thesis using t by simp
    next
      case ne: False
      then have "Suc (length ?t) < length cs" by (simp add: not_le)
      moreover have "weight (names ?d) \<le> Suc (length ?d)" by (rule less.hyps) (use False in simp)
      ultimately show ?thesis using names_step [OF False] by simp
    qed
  qed simp
qed

lemma translated_length: "translated cs = Inr r \<Longrightarrow> length r \<le> length cs + 1"
proof -
  assume "translated cs = Inr r"
  then obtain st where st: "walk [] (names (drop 3 cs)) = Inr st" and r: "r = take 3 cs @ joined (sep (last cs)) st"
    by (cases "walk [] (names (drop 3 cs))") (simp_all add: translated_def)
  show ?thesis
  proof (cases "drop 3 cs = []")
    case True
    then show ?thesis using st r by simp
  next
    case False
    have "length (joined (sep (last cs)) st) \<le> Suc (length (drop 3 cs))"
      using weight_joined [of "sep (last cs)" st] weight_walk [OF st] weight_names [of "drop 3 cs"] by simp
    then show ?thesis using r False by simp
  qed
qed

subsection \<open>What a file name is\<close>

text \<open>
  C10: a file name that is made from a base path and a relative name without the right to step
  back begins with the base path, up to the case of the letters, and none of the names behind the
  drive is \<open>.\<close> or \<open>..\<close> or has a character that is not allowed; a relative name that leads out of the
  base path, or has such a character, throws.
\<close>

theorem filename_confined:
  assumes "nonul base" and "nonul rel" and "length base + length rel < 2 ^ 31 - 2"
  shows "case cFilename_new_append \<lparr>m_filename = cstr base, m_directoryParser = cDosFilenameParser\<rparr> (cstr rel) False enforce of
      Inr f \<Rightarrow> \<exists>cs. cFilename_getFullPath f = cstr cs \<and>
        map cChar_getLowercase (take (length base) cs) = map cChar_getLowercase base \<and>
        (\<forall>n \<in> set (names (drop 3 cs)). clean n)
    | Inl e \<Rightarrow> e = EXCEPTION_ASSERTION \<or> e = EXCEPTION_OUT_OF_RANGE"
proof -
  let ?f = "\<lparr>m_filename = cstr base, m_directoryParser = cDosFilenameParser\<rparr>"
  define path where "path = (if cDosDirectoryParser_isAbsolutePath (cstr rel) then rel else base @ rel)"
  have p: "nonul path" "length path < 2 ^ 31 - 2" using assms by (simp_all add: path_def)
  have path: "(if cDosDirectoryParser_isAbsolutePath (cstr rel) then cstr rel else cString_plus (cstr base) (cstr rel)) = cstr path"
    using assms(1,2) by (simp add: path_def plus_simp)
  have app: "cFilename_new_append ?f (cstr rel) False enforce =
      bind_res (cDosDirectoryParser_translateAbsolutePath (cstr path)) (\<lambda>name.
      bind_res (if enforce then cFilename_enforceDirectory name else Inr name) (\<lambda>name.
      bind_res (CHECK (cString_icompare (cString_left name (to_int (length base))) (cstr base) = EqualTo)) (\<lambda>_.
      Inr \<lparr>m_filename = name, m_directoryParser = cDosFilenameParser\<rparr>)))"
    unfolding path [symmetric] by (simp add: cFilename_new_append_def Let_def)
  have to: "to_int (length base) = int (length base)" using assms(3) by (intro to_int_small) simp
  show ?thesis
  proof (cases "translated path")
    case (Inl e)
    have "walk st ns = Inl e \<Longrightarrow> e = EXCEPTION_OUT_OF_RANGE" for st ns e
      by (induction ns arbitrary: st) (auto split: if_splits)
    then have "e = EXCEPTION_OUT_OF_RANGE" using Inl by (cases "walk [] (names (drop 3 path))") (auto simp: translated_def)
    then show ?thesis
      using Inl translate_simp [OF p(1)] p(2) by (simp add: app)
  next
    case (Inr r)
    have r: "nonul r" "length r < 2 ^ 31 - 1" "\<forall>n \<in> set (names (drop 3 r)). clean n"
      using translated_nonul [OF p(1) Inr] translated_length [OF Inr] p(2) translated_names [OF Inr] by simp_all
    have t: "cDosDirectoryParser_translateAbsolutePath (cstr path) = Inr (cstr r)"
      using translate_simp [OF p(1)] p(2) Inr by simp
    define e where "e = (if enforce then if r = [] then Inl EXCEPTION_OUT_OF_RANGE
      else Inr (if sep (last r) then r else r @ [0x5C]) else Inr r)"
    have enforce: "(if enforce then cFilename_enforceDirectory (cstr r) else Inr (cstr r)) = map_sum id cstr e"
      using last_simp [of r] r(1,2)
      by (auto simp: cFilename_enforceDirectory_def e_def sep_backslash append_char_simp)
    show ?thesis
    proof (cases e)
      case (Inl x)
      then have "x = EXCEPTION_OUT_OF_RANGE" by (auto simp: e_def split: if_splits)
      then show ?thesis using Inl t enforce by (simp add: app)
    next
      case (Inr cs)
      then have cs: "cs = r \<or> cs = r @ [0x5C]" by (auto simp: e_def split: if_splits)
      have n: "nonul cs" "length cs < 2 ^ 31" using cs r(1,2) by auto
      have c: "\<forall>n \<in> set (names (drop 3 cs)). clean n"
      proof
        fix n assume n: "n \<in> set (names (drop 3 cs))"
        have "drop 3 cs = drop 3 r \<or> drop 3 cs = drop 3 r @ [0x5C]" using cs by (cases "length r < 3") auto
        then have "n \<in> set (names (drop 3 r)) \<or> n = []" using n names_snoc [OF _ sep_backslash(1)] by metis
        then show "clean n" using r(3) by (auto simp: clean_def lit_def)
      qed
      have i: "cString_icompare (cString_left (cstr cs) (int (length base))) (cstr base) = EqualTo \<longleftrightarrow>
          map cChar_getLowercase (take (length base) cs) = map cChar_getLowercase base"
        using n assms(1) nonul_sub(1) [OF n(1)] by (simp add: left_simp icompare_simp Let_def)
      show ?thesis
        using t enforce Inr i c
        by (auto simp: app to CHECK_def cFilename_getFullPath_def)
    qed
  qed
qed

theorem filename_confined_witness:
  "\<exists>f. cFilename_new_append \<lparr>m_filename = cstr (lit ''C:'' @ [0x5C] @ lit ''tmp'' @ [0x5C]), m_directoryParser = cDosFilenameParser\<rparr>
       (cstr (lit ''../TMP/./a.c'')) False False = Inr f \<and>
     cFilename_getFullPath f = cstr (lit ''C:'' @ [0x5C] @ lit ''TMP'' @ [0x5C] @ lit ''a.c'') \<and>
     (\<exists>cs. cFilename_getFullPath f = cstr cs \<and>
        map cChar_getLowercase (take (length (lit ''C:'' @ [0x5C] @ lit ''tmp'' @ [0x5C])) cs) =
          map cChar_getLowercase (lit ''C:'' @ [0x5C] @ lit ''tmp'' @ [0x5C]) \<and>
        (\<forall>n \<in> set (names (drop 3 cs)). clean n))"
proof -
  let ?b = "lit ''C:'' @ [0x5C] @ lit ''tmp'' @ [0x5C]" and ?r = "lit ''../TMP/./a.c''"
  let ?f = "\<lparr>m_filename = cstr (lit ''C:'' @ [0x5C] @ lit ''TMP'' @ [0x5C] @ lit ''a.c''), m_directoryParser = cDosFilenameParser\<rparr>"
  have "nonul ?b" "nonul ?r" "length ?b + length ?r < 2 ^ 31 - 2" by (simp_all add: lit_def)
  note confined = filename_confined [OF this, of False]
  have "cFilename_new_append \<lparr>m_filename = cstr ?b, m_directoryParser = cDosFilenameParser\<rparr> (cstr ?r) False False = Inr ?f"
    by code_simp
  then show ?thesis using confined by (intro exI [of _ ?f]) (simp add: cFilename_getFullPath_def)
qed

lemma last_separator_simp:
  "length cs < 2 ^ 31 \<Longrightarrow> i < length cs \<Longrightarrow>
   (case last_separator (cstr cs) i of
      Inr k \<Rightarrow> 2 \<le> k \<and> k \<le> i \<and> sep (cs ! k) \<and> (\<forall>j. k < j \<longrightarrow> j \<le> i \<longrightarrow> \<not> sep (cs ! j))
    | Inl e \<Rightarrow> e = EXCEPTION_ASSERTION \<and> (\<forall>j. 2 \<le> j \<longrightarrow> j \<le> i \<longrightarrow> \<not> sep (cs ! j)))"
proof (induction i rule: less_induct)
  case (less i)
  have g: "cString_get (cstr cs) i = Inr (cs ! i)" using less.prems by (simp add: get_simp)
  show ?case
  proof (cases "2 \<le> i \<and> \<not> sep (cs ! i)")
    case True
    then have e: "last_separator (cstr cs) i = last_separator (cstr cs) (i - 1)" using g by (subst last_separator.simps) simp
    have j: "j \<le> i \<longleftrightarrow> j = i \<or> j \<le> i - 1" for j using True by auto
    have "i - 1 < i" "length cs < 2 ^ 31" "i - 1 < length cs" using True less.prems by auto
    from less.IH [OF this] show ?thesis
      unfolding e using True by (auto simp: j split: sum.splits)
  next
    case False
    then show ?thesis using g by (subst last_separator.simps) (auto simp: not_le)
  qed
qed

text \<open>
  C28: the translation of a path is that of its names with a stack and does not change a path that it
  made; the directory name and the file name of a path are its parts up to and behind the last
  separator that is not one of the first two characters, and throw when there is none.
\<close>

theorem filename_parts:
  assumes "nonul cs" and "cs \<noteq> []" and "length cs < 2 ^ 31 - 1"
  shows "cDosDirectoryParser_translateAbsolutePath (cstr cs) = map_sum id cstr (translated cs) \<and>
    (case cDosDirectoryParser_translateAbsolutePath (cstr cs) of
       Inr p \<Rightarrow> cDosDirectoryParser_translateAbsolutePath p = Inr p
     | Inl e \<Rightarrow> e = EXCEPTION_OUT_OF_RANGE) \<and>
    (case cDosFilenameParser_getLastDirectorySeparator (cstr cs) of
       Inr i \<Rightarrow> 2 \<le> i \<and> i < length cs \<and> sep (cs ! i) \<and> list_all (\<lambda>c. \<not> sep c) (drop (i + 1) cs) \<and>
         cDosFilenameParser_getDirectoryName (cstr cs) = Inr (cstr (take (i + 1) cs)) \<and>
         cDosFilenameParser_getFilename (cstr cs) = Inr (cstr (drop (i + 1) cs))
     | Inl e \<Rightarrow> e = EXCEPTION_ASSERTION \<and> list_all (\<lambda>c. \<not> sep c) (drop 2 cs) \<and>
         cDosFilenameParser_getDirectoryName (cstr cs) = Inl e \<and> cDosFilenameParser_getFilename (cstr cs) = Inl e)"
proof (intro conjI)
  have l: "length cs < 2 ^ 31" using assms(3) by simp
  show t: "cDosDirectoryParser_translateAbsolutePath (cstr cs) = map_sum id cstr (translated cs)"
    by (rule translate_simp [OF assms(1) l])
  show "case cDosDirectoryParser_translateAbsolutePath (cstr cs) of
       Inr p \<Rightarrow> cDosDirectoryParser_translateAbsolutePath p = Inr p
     | Inl e \<Rightarrow> e = EXCEPTION_OUT_OF_RANGE"
  proof (cases "translated cs")
    case (Inl e)
    have "walk st ns = Inl e \<Longrightarrow> e = EXCEPTION_OUT_OF_RANGE" for st ns
      by (induction ns arbitrary: st) (auto split: if_splits)
    then have "e = EXCEPTION_OUT_OF_RANGE" using Inl by (cases "walk [] (names (drop 3 cs))") (auto simp: translated_def)
    then show ?thesis using Inl t by simp
  next
    case (Inr r)
    have "length r < 2 ^ 31" using translated_length [OF Inr] assms(3) by simp
    from translate_simp [OF translated_nonul [OF assms(1) Inr] this] show ?thesis
      using Inr t translated_again [OF Inr] by simp
  qed
  have n: "length cs - 1 < length cs" using assms(2) by simp
  have e: "cDosFilenameParser_getLastDirectorySeparator (cstr cs) = last_separator (cstr cs) (length cs - 1)"
    using assms(2) by (simp add: cDosFilenameParser_getLastDirectorySeparator_def)
  show "case cDosFilenameParser_getLastDirectorySeparator (cstr cs) of
       Inr i \<Rightarrow> 2 \<le> i \<and> i < length cs \<and> sep (cs ! i) \<and> list_all (\<lambda>c. \<not> sep c) (drop (i + 1) cs) \<and>
         cDosFilenameParser_getDirectoryName (cstr cs) = Inr (cstr (take (i + 1) cs)) \<and>
         cDosFilenameParser_getFilename (cstr cs) = Inr (cstr (drop (i + 1) cs))
     | Inl e \<Rightarrow> e = EXCEPTION_ASSERTION \<and> list_all (\<lambda>c. \<not> sep c) (drop 2 cs) \<and>
         cDosFilenameParser_getDirectoryName (cstr cs) = Inl e \<and> cDosFilenameParser_getFilename (cstr cs) = Inl e"
  proof (cases "last_separator (cstr cs) (length cs - 1)")
    case (Inl x)
    then show ?thesis
      using last_separator_simp [OF l n] e
      by (auto simp: cDosFilenameParser_getDirectoryName_def cDosFilenameParser_getFilename_def list_all_length)
  next
    case (Inr i)
    then have i: "2 \<le> i" "i < length cs" "sep (cs ! i)" "\<forall>j. i < j \<longrightarrow> j \<le> length cs - 1 \<longrightarrow> \<not> sep (cs ! j)"
      using last_separator_simp [OF l n] n by auto
    have "list_all (\<lambda>c. \<not> sep c) (drop (i + 1) cs)" using i(4) by (auto simp: list_all_length)
    moreover have "nat (1 + int i) = Suc i" by simp
    ultimately show ?thesis
      using i Inr e l assms(1) left_simp [OF assms(1) l] right_simp [OF assms(1) l]
      by (simp add: cDosFilenameParser_getDirectoryName_def cDosFilenameParser_getFilename_def to_int_small)
  qed
qed

theorem filename_parts_witness:
  "cDosFilenameParser_getDirectoryName (cstr (lit ''C:/a/b.c'')) = Inr (cstr (lit ''C:/a/'')) \<and>
   cDosFilenameParser_getFilename (cstr (lit ''C:/a/b.c'')) = Inr (cstr (lit ''b.c''))"
proof -
  have "nonul (lit ''C:/a/b.c'')" "lit ''C:/a/b.c'' \<noteq> []" "length (lit ''C:/a/b.c'') < 2 ^ 31 - 1" by (simp_all add: lit_def)
  note parts = filename_parts [OF this]
  have "cDosFilenameParser_getLastDirectorySeparator (cstr (lit ''C:/a/b.c'')) = Inr 4" by code_simp
  then show ?thesis using parts by (simp add: lit_def)
qed

end
