(* ===== verification/XContainers.thy ===== *)
theory XContainers
  imports XText XArray XList
begin

text \<open>
  What the arrays and the lists share: the iterators of \<open>cArray\<close> (data/array.h) beside those of
  \<open>cList\<close>, the operators that operators.h makes of \<open>==\<close>, \<open><\<close>, \<open>next\<close> and \<open>prev\<close>, the templates of
  utils/algorithm.h as loops over any iterator, the operators that print a container, and the
  serialization of \<open>cSArray\<close> and \<open>cString\<close>.
\<close>

subsection \<open>The iterators of an array\<close>

text \<open>
  \<open>m_tcArray\<close> is the identity of the array, which the operators compare; the operations that look
  into it have the array as an argument. The index is an \<open>uint\<close> and wraps around.
\<close>

record array_iterator =
  m_tcArray :: nat
  m_position :: uint64

definition array_iterator_new :: "nat \<Rightarrow> uint64 \<Rightarrow> array_iterator" where
  "array_iterator_new tcArray index = \<lparr>m_tcArray = tcArray, m_position = index\<rparr>"

definition array_iterator_copy :: "array_iterator \<Rightarrow> array_iterator" where
  "array_iterator_copy other = \<lparr>m_tcArray = m_tcArray other, m_position = m_position other\<rparr>"

definition cArray_begin :: "nat \<Rightarrow> array_iterator" where
  "cArray_begin this = array_iterator_new this 0"

definition cArray_end :: "nat \<Rightarrow> 'a cArray \<Rightarrow> array_iterator" where
  "cArray_end this arr = array_iterator_new this (word_of_nat (m_size arr))"

definition cArray_at :: "nat \<Rightarrow> uint64 \<Rightarrow> array_iterator" where
  "cArray_at this index = array_iterator_new this index"

definition array_iterator_next :: "array_iterator \<Rightarrow> array_iterator" where
  "array_iterator_next i = i\<lparr>m_position := m_position i + 1\<rparr>"

definition array_iterator_prev :: "array_iterator \<Rightarrow> array_iterator" where
  "array_iterator_prev i = i\<lparr>m_position := m_position i - 1\<rparr>"

definition array_iterator_hasNext :: "'a cArray \<Rightarrow> array_iterator \<Rightarrow> bool" where
  "array_iterator_hasNext arr i \<longleftrightarrow> unat (m_position i) \<le> m_size arr"

definition array_iterator_getLocation :: "array_iterator \<Rightarrow> uint64" where
  "array_iterator_getLocation i = m_position i"

definition array_iterator_plus :: "array_iterator \<Rightarrow> uint64 \<Rightarrow> array_iterator" where
  "array_iterator_plus i cnt = array_iterator_new (m_tcArray i) (m_position i + cnt)"

definition array_iterator_minus :: "array_iterator \<Rightarrow> uint64 \<Rightarrow> array_iterator" where
  "array_iterator_minus i cnt = array_iterator_new (m_tcArray i) (m_position i - cnt)"

definition array_iterator_eq :: "array_iterator \<Rightarrow> array_iterator \<Rightarrow> bool" where
  "array_iterator_eq i other = (if m_tcArray i = m_tcArray other \<and> m_position i = m_position other then True else False)"

definition array_iterator_less :: "array_iterator \<Rightarrow> array_iterator \<Rightarrow> bool" where
  "array_iterator_less i other = (if m_tcArray i = m_tcArray other \<and> m_position i < m_position other then True else False)"

text \<open>\<open>*iterator\<close> as a value and as the target of an assignment.\<close>

definition array_iterator_get :: "'a cArray \<Rightarrow> array_iterator \<Rightarrow> 'a res" where
  "array_iterator_get arr i =
     bind_res (cArray_get arr (unat (m_position i))) (\<lambda>c. case c of None \<Rightarrow> Inl UNDEFINED_BEHAVIOUR | Some x \<Rightarrow> Inr x)"

definition array_iterator_put :: "'a cArray \<Rightarrow> array_iterator \<Rightarrow> 'a \<Rightarrow> 'a cArray res" where
  "array_iterator_put arr i x = cArray_put arr (unat (m_position i)) x"

definition iterator_put :: "'a node_heap \<Rightarrow> ptr \<Rightarrow> 'a \<Rightarrow> 'a node_heap res" where
  "iterator_put h p x =
     bind_res (load h p) (\<lambda>n. case information n of
       None \<Rightarrow> Inl UNDEFINED_BEHAVIOUR
     | Some _ \<Rightarrow> modify h p (\<lambda>n. n\<lparr>information := Some x\<rparr>))"

subsection \<open>The operators that macros make\<close>

text \<open>\<open>MAKE_SIMPLE_OPERATORS\<close> over the operators \<open>==\<close> and \<open><\<close> of a class.\<close>

definition make_not_eq :: "('i \<Rightarrow> 'i \<Rightarrow> bool) \<Rightarrow> 'i \<Rightarrow> 'i \<Rightarrow> bool" where
  "make_not_eq eq this other \<longleftrightarrow> \<not> eq this other"

definition make_greater :: "('i \<Rightarrow> 'i \<Rightarrow> bool) \<Rightarrow> ('i \<Rightarrow> 'i \<Rightarrow> bool) \<Rightarrow> 'i \<Rightarrow> 'i \<Rightarrow> bool" where
  "make_greater eq lt this other \<longleftrightarrow> \<not> lt this other \<and> \<not> eq this other"

definition make_greater_eq :: "('i \<Rightarrow> 'i \<Rightarrow> bool) \<Rightarrow> 'i \<Rightarrow> 'i \<Rightarrow> bool" where
  "make_greater_eq lt this other \<longleftrightarrow> \<not> lt this other"

definition make_less_eq :: "('i \<Rightarrow> 'i \<Rightarrow> bool) \<Rightarrow> ('i \<Rightarrow> 'i \<Rightarrow> bool) \<Rightarrow> 'i \<Rightarrow> 'i \<Rightarrow> bool" where
  "make_less_eq eq lt this other \<longleftrightarrow> lt this other \<or> eq this other"

text \<open>
  \<open>MAKE_INCREASE_OPERATORS\<close>: the object after the operator, and what the operator returns. The
  postfix operators return a reference to the object that they have moved.
\<close>

definition make_pre :: "('i \<Rightarrow> 'i res) \<Rightarrow> 'i \<Rightarrow> ('i \<times> 'i) res" where
  "make_pre step this = bind_res (step this) (\<lambda>this. Inr (this, this))"

definition make_post :: "('i \<Rightarrow> 'i res) \<Rightarrow> 'i \<Rightarrow> ('i \<times> 'i) res" where
  "make_post step this = bind_res (make_pre step this) (\<lambda>(this, _). let tmp = this in Inr (this, tmp))"

definition array_iterator_assign :: "array_iterator \<Rightarrow> array_iterator \<Rightarrow> array_iterator" where
  "array_iterator_assign i other =
     (if make_not_eq array_iterator_eq i other
      then i\<lparr>m_tcArray := m_tcArray other, m_position := m_position other\<rparr> else i)"

subsection \<open>The templates over any iterator\<close>

text \<open>
  The operations of a class of iterators, over a state that holds the container, and the templates
  as loops over them. Equality of iterators is equality of their members.
\<close>

record ('s, 'i, 'a) iterators =
  i_next :: "'s \<Rightarrow> 'i \<Rightarrow> 'i res"
  i_prev :: "'s \<Rightarrow> 'i \<Rightarrow> 'i res"
  i_minus :: "'s \<Rightarrow> 'i \<Rightarrow> nat \<Rightarrow> 'i res"
  i_get :: "'s \<Rightarrow> 'i \<Rightarrow> 'a res"
  i_put :: "'s \<Rightarrow> 'i \<Rightarrow> 'a \<Rightarrow> 's res"

definition array_iterators :: "('a cArray, array_iterator, 'a) iterators" where
  "array_iterators =
     \<lparr>i_next = (\<lambda>arr i. Inr (array_iterator_next i)), i_prev = (\<lambda>arr i. Inr (array_iterator_prev i)),
      i_minus = (\<lambda>arr i n. Inr (array_iterator_minus i (word_of_nat n))),
      i_get = array_iterator_get, i_put = array_iterator_put\<rparr>"

definition list_iterators :: "('a node_heap, ptr, 'a) iterators" where
  "list_iterators =
     \<lparr>i_next = iterator_next, i_prev = iterator_prev, i_minus = iterator_minus,
      i_get = iterator_get, i_put = iterator_put\<rparr>"

partial_function (option) algorithm_find ::
  "('s, 'i, 'a) iterators \<Rightarrow> 's \<Rightarrow> 'i \<Rightarrow> 'a \<Rightarrow> 'i \<Rightarrow> 'i run"
where
  "algorithm_find ops s fin object index =
     (if index \<noteq> fin then
        run_bind (of_res (i_get ops s index)) (\<lambda>x.
        if x = object then ok index
        else run_bind (of_res (make_pre (i_next ops s) index)) (\<lambda>(index, _). algorithm_find ops s fin object index))
      else ok fin)"

partial_function (option) algorithm_fill ::
  "('s, 'i, 'a) iterators \<Rightarrow> 'i \<Rightarrow> 'a \<Rightarrow> 'i \<Rightarrow> 's \<Rightarrow> 's run"
where
  "algorithm_fill ops fin object index s =
     (if index \<noteq> fin then
        run_bind (of_res (i_put ops s index object)) (\<lambda>s.
        run_bind (of_res (make_post (i_next ops s) index)) (\<lambda>(index, _). algorithm_fill ops fin object index s))
      else ok s)"

text \<open>\<open>compare\<close> has an empty assertion and no body; the loop that it means to have is a comment.\<close>

definition algorithm_compare :: "'i \<Rightarrow> 'i \<Rightarrow> 'i \<Rightarrow> 'i \<Rightarrow> bool" where
  "algorithm_compare b1 e1 b2 e2 = True"

definition cList_eq :: "cList \<Rightarrow> cList \<Rightarrow> bool" where
  "cList_eq this other = algorithm_compare (cList_begin this) (cList_end this) (cList_begin other) (cList_end other)"

definition cList_not_eq :: "cList \<Rightarrow> cList \<Rightarrow> bool" where
  "cList_not_eq this other \<longleftrightarrow> \<not> cList_eq this other"

text \<open>The two loops of \<open>boubbleSort\<close> and what they do for a pair of positions.\<close>

definition algorithm_exchange :: "('s, 'i, 'a::linorder) iterators \<Rightarrow> 's \<Rightarrow> 'i \<Rightarrow> 's res" where
  "algorithm_exchange ops s j =
     bind_res (i_minus ops s j 1) (\<lambda>prev_j.
     bind_res (i_get ops s prev_j) (\<lambda>x.
     bind_res (i_get ops s j) (\<lambda>y.
     if x > y then
       (let (y, x) = t_swap y x in
        bind_res (i_put ops s j y) (\<lambda>s. i_put ops s prev_j x))
     else Inr s)))"

partial_function (option) algorithm_sort_inner ::
  "('s, 'i, 'a::linorder) iterators \<Rightarrow> 'i \<Rightarrow> 'i \<Rightarrow> 's \<Rightarrow> 's run"
where
  "algorithm_sort_inner ops i j s =
     (if j \<noteq> i then
        run_bind (of_res (algorithm_exchange ops s j)) (\<lambda>s.
        run_bind (of_res (make_post (i_prev ops s) j)) (\<lambda>(j, _). algorithm_sort_inner ops i j s))
      else ok s)"

partial_function (option) algorithm_sort_outer ::
  "('s, 'i, 'a::linorder) iterators \<Rightarrow> 'i \<Rightarrow> 'i \<Rightarrow> 's \<Rightarrow> 's run"
where
  "algorithm_sort_outer ops final i s =
     (if i \<noteq> final then
        run_bind (algorithm_sort_inner ops i final s) (\<lambda>s.
        run_bind (of_res (make_post (i_next ops s) i)) (\<lambda>(i, _). algorithm_sort_outer ops final i s))
      else ok s)"

definition algorithm_sort :: "('s, 'i, 'a::linorder) iterators \<Rightarrow> 's \<Rightarrow> 'i \<Rightarrow> 'i \<Rightarrow> 's run" where
  "algorithm_sort ops s b e =
     (if b = e then ok s
      else
        run_bind (of_res (i_minus ops s e 1)) (\<lambda>final.
        if b = final then ok s else algorithm_sort_outer ops final b s))"

subsection \<open>Printing\<close>

text \<open>
  \<open>elem\<close> prints an object. The limit of the loop over an array is \<open>m_size - 1\<close>, an \<open>uint\<close>; the loop
  and the last object are read from the buffer without a test.
\<close>

definition array_cell :: "'a cArray \<Rightarrow> nat \<Rightarrow> 'a res" where
  "array_cell arr index =
     (if index < length (cArray_buf arr)
      then (case cArray_buf arr ! index of None \<Rightarrow> Inl UNDEFINED_BEHAVIOUR | Some x \<Rightarrow> Inr x)
      else Inl UNDEFINED_BEHAVIOUR)"

fun put_cells ::
  "('s \<Rightarrow> cString \<Rightarrow> 's run) \<Rightarrow> ('s \<Rightarrow> 'a \<Rightarrow> 's run) \<Rightarrow> 'a cArray \<Rightarrow> nat \<Rightarrow> nat \<Rightarrow> 's \<Rightarrow> 's run"
where
  "put_cells emit elem arr index 0 s = ok s"
| "put_cells emit elem arr index (Suc left) s =
     run_bind (of_res (array_cell arr index)) (\<lambda>x.
     run_bind (elem s x) (\<lambda>s.
     run_bind (put_chars emit s (lit '', '' @ [0])) (\<lambda>s. put_cells emit elem arr (index + 1) left s)))"

definition put_cArray :: "('s \<Rightarrow> cString \<Rightarrow> 's run) \<Rightarrow> ('s \<Rightarrow> 'a \<Rightarrow> 's run) \<Rightarrow> 'a cArray \<Rightarrow> 's \<Rightarrow> 's run" where
  "put_cArray emit elem arr s =
     (let limit = unat (word_of_nat (m_size arr) - 1 :: uint64) in
      run_bind (put_chars emit s (lit ''['' @ [0])) (\<lambda>s.
      run_bind (put_cells emit elem arr 0 limit s) (\<lambda>s.
      run_bind (of_res (array_cell arr limit)) (\<lambda>x.
      run_bind (elem s x) (\<lambda>s. put_chars emit s (lit '']'' @ [0]))))))"

partial_function (option) put_nodes ::
  "('s \<Rightarrow> cString \<Rightarrow> 's run) \<Rightarrow> ('s \<Rightarrow> 'a \<Rightarrow> 's run) \<Rightarrow> 'a node_heap \<Rightarrow> ptr \<Rightarrow> ptr \<Rightarrow> 's \<Rightarrow> 's run"
where
  "put_nodes emit elem h final index s =
     (if index \<noteq> final then
        run_bind (of_res (iterator_plus h index 1)) (\<lambda>following.
        run_bind (of_res (iterator_get h index)) (\<lambda>x.
        run_bind (elem s x) (\<lambda>s.
        run_bind (if following \<noteq> final then put_chars emit s (lit '', '' @ [0]) else ok s) (\<lambda>s.
        run_bind (of_res (make_post (iterator_next h) index)) (\<lambda>(index, _).
        put_nodes emit elem h final index s)))))
      else ok s)"

definition put_cList :: "('s \<Rightarrow> cString \<Rightarrow> 's run) \<Rightarrow> ('s \<Rightarrow> 'a \<Rightarrow> 's run) \<Rightarrow> 'a node_heap \<Rightarrow> cList \<Rightarrow> 's \<Rightarrow> 's run" where
  "put_cList emit elem h l s =
     run_bind (put_chars emit s (lit ''['' @ [0])) (\<lambda>s.
     run_bind (put_nodes emit elem h (cList_end l) (cList_begin l) s) (\<lambda>s.
     put_chars emit s (lit '']'' @ [0])))"

subsection \<open>Serialization\<close>

text \<open>
  An array of bytes is its size, 32 bits, and its bytes; indeterminate cells are not to be
  written. \<open>deserialize\<close> does not look at what \<open>pipeRead\<close> returns. A string is its null terminated
  wide form.
\<close>

fun initialised :: "'a option list \<Rightarrow> 'a list res" where
  "initialised [] = Inr []"
| "initialised (None # cs) = Inl UNDEFINED_BEHAVIOUR"
| "initialised (Some x # cs) = bind_res (initialised cs) (\<lambda>xs. Inr (x # xs))"

definition cSArray_serialize :: "'s basicIO \<Rightarrow> uint8 cArray \<Rightarrow> 's \<Rightarrow> 's run" where
  "cSArray_serialize ops arr s =
     (let size = word_of_nat (m_size arr) :: uint32 in
      if m_size arr > 0xFFFFFFFF then throw EXCEPTION_OUT_OF_RANGE
      else
        run_bind (streamWriteUint32 ops s size) (\<lambda>s.
        if unat size > length (cArray_buf arr) then throw UNDEFINED_BEHAVIOUR
        else run_bind (of_res (initialised (take (unat size) (cArray_buf arr)))) (\<lambda>bs. pipeWrite ops s bs)))"

definition cSArray_deserialize :: "'s basicIO \<Rightarrow> uint8 cArray \<Rightarrow> 's \<Rightarrow> (uint8 cArray \<times> 's) run" where
  "cSArray_deserialize ops arr s =
     run_bind (streamReadUint32 ops s) (\<lambda>(cnt, s).
     run_bind (of_res (cSArray_changeSize arr (unat cnt) False)) (\<lambda>arr.
     run_bind (pipeRead ops s (unat cnt)) (\<lambda>(bs, s).
     ok (cArray_setBuf (memcpy_at (cArray_buf arr) 0 (map Some bs) (length bs)) arr, s))))"

definition cString_serialize :: "'s basicIO \<Rightarrow> cString \<Rightarrow> 's \<Rightarrow> 's run" where
  "cString_serialize ops str s = writeUnicodeNullString ops s str True"

definition cString_deserialize :: "'s basicIO \<Rightarrow> cString \<Rightarrow> 's \<Rightarrow> (cString \<times> 's) run" where
  "cString_deserialize ops str s = readUnicodeNullString ops s MAX_CHAR"

subsection \<open>The contract of an iterator\<close>

text \<open>
  In a state \<open>s\<close> with \<open>R s is xs\<close> the container holds \<open>xs\<close>, and \<open>is\<close> are the iterators at its
  objects followed by the one behind them.
\<close>

locale forward_iterator =
  fixes ops :: "('s, 'i, 'a) iterators"
    and R :: "'s \<Rightarrow> 'i list \<Rightarrow> 'a list \<Rightarrow> bool"
  assumes positions: "R s is xs \<Longrightarrow> length is = Suc (length xs) \<and> distinct is"
    and next_law: "R s is xs \<Longrightarrow> k < length xs \<Longrightarrow> i_next ops s (is ! k) = Inr (is ! Suc k)"
    and get_law: "R s is xs \<Longrightarrow> k < length xs \<Longrightarrow> i_get ops s (is ! k) = Inr (xs ! k)"
    and put_law: "R s is xs \<Longrightarrow> k < length xs \<Longrightarrow> \<exists>s'. i_put ops s (is ! k) x = Inr s' \<and> R s' is (xs[k := x])"

locale bidirectional_iterator = forward_iterator ops R
  for ops :: "('s, 'i, 'a::linorder) iterators" and R :: "'s \<Rightarrow> 'i list \<Rightarrow> 'a list \<Rightarrow> bool" +
  assumes prev_law: "R s is xs \<Longrightarrow> k < length xs \<Longrightarrow> i_prev ops s (is ! Suc k) = Inr (is ! k)"
    and minus_law: "R s is xs \<Longrightarrow> k < length xs \<Longrightarrow> i_minus ops s (is ! Suc k) 1 = Inr (is ! k)"

context forward_iterator
begin

lemma same_position: "R s is xs \<Longrightarrow> j \<le> length xs \<Longrightarrow> k \<le> length xs \<Longrightarrow> is ! j = is ! k \<longleftrightarrow> j = k"
  using positions [of s "is" xs] by (auto simp: nth_eq_iff_index_eq)

lemma find_law:
  assumes "R s is xs" and "e \<le> length xs"
  shows "k = e - b \<Longrightarrow> b \<le> e \<Longrightarrow> algorithm_find ops s (is ! e) x (is ! b) = ok (is ! find_from xs b e k x)"
proof (induction k arbitrary: b)
  case 0
  then have "b = e" by simp
  then show ?case by (subst algorithm_find.simps) simp
next
  case (Suc k)
  then have b: "b < e" "b < length xs" using assms by auto
  then have "is ! b \<noteq> is ! e" using same_position [OF assms(1), of b e] assms(2) by simp
  moreover have "algorithm_find ops s (is ! e) x (is ! Suc b) = ok (is ! find_from xs (Suc b) e k x)"
    by (rule Suc.IH) (use Suc.prems b in auto)
  ultimately show ?case
    using b next_law [OF assms(1) b(2)] get_law [OF assms(1) b(2)]
    by (subst algorithm_find.simps) (simp add: make_pre_def)
qed

lemma fill_law:
  assumes "e \<le> length xs"
  shows "k = e - b \<Longrightarrow> b \<le> e \<Longrightarrow> R s is xs \<Longrightarrow> length xs = n \<Longrightarrow>
    yields (algorithm_fill ops (is ! e) x (is ! b) s) (\<lambda>t. R t is (fill_from xs b k x))"
  using assms
proof (induction k arbitrary: b s xs)
  case 0
  then have "b = e" by simp
  then show ?case using 0 by (subst algorithm_fill.simps) simp
next
  case (Suc k)
  then have b: "b < e" "b < length xs" by auto
  then have "is ! b \<noteq> is ! e" using same_position [OF Suc.prems(3), of b e] Suc.prems by simp
  moreover obtain t where t: "i_put ops s (is ! b) x = Inr t" "R t is (xs[b := x])"
    using put_law [OF Suc.prems(3) b(2)] by blast
  moreover have "i_next ops t (is ! b) = Inr (is ! Suc b)" using next_law [OF t(2)] b by simp
  moreover have "yields (algorithm_fill ops (is ! e) x (is ! Suc b) t) (\<lambda>t. R t is (fill_from (xs[b := x]) (Suc b) k x))"
    by (rule Suc.IH) (use Suc.prems t b in auto)
  ultimately show ?case
    by (subst algorithm_fill.simps) (simp add: make_pre_def make_post_def)
qed

end

context bidirectional_iterator
begin

lemma exchange_law:
  assumes "R s is xs" and "k < length xs" and "Suc k < length xs"
  shows "\<exists>t. algorithm_exchange ops s (is ! Suc k) = Inr t \<and> R t is (sort_step xs (Suc k))"
proof -
  obtain t where t: "i_put ops s (is ! Suc k) (xs ! k) = Inr t" "R t is (xs[Suc k := xs ! k])"
    using put_law [OF assms(1,3)] by blast
  then obtain u where u: "i_put ops t (is ! k) (xs ! Suc k) = Inr u" "R u is (xs[Suc k := xs ! k, k := xs ! Suc k])"
    using put_law [OF t(2), of k "xs ! Suc k"] assms(2) by auto
  show ?thesis
    using t u minus_law [OF assms(1,2)] get_law [OF assms(1,2)] get_law [OF assms(1,3)] assms(1)
    by (simp add: algorithm_exchange_def sort_step_def bind_res_def)
qed

lemma sort_inner_law:
  "R s is xs \<Longrightarrow> i + k < length xs \<Longrightarrow>
     yields (algorithm_sort_inner ops (is ! i) (is ! (i + k)) s) (\<lambda>t. R t is (sort_inner xs i k))"
proof (induction k arbitrary: s xs)
  case 0
  then show ?case by (subst algorithm_sort_inner.simps) simp
next
  case (Suc k)
  have "is ! (i + Suc k) \<noteq> is ! i" using same_position [OF Suc.prems(1), of "i + Suc k" i] Suc.prems(2) by simp
  moreover obtain t where t: "algorithm_exchange ops s (is ! (i + Suc k)) = Inr t" "R t is (sort_step xs (i + Suc k))"
    using exchange_law [OF Suc.prems(1), of "i + k"] Suc.prems(2) by auto
  moreover have "i_prev ops t (is ! (i + Suc k)) = Inr (is ! (i + k))"
    using prev_law [OF t(2), of "i + k"] Suc.prems(2) by simp
  moreover have "yields (algorithm_sort_inner ops (is ! i) (is ! (i + k)) t)
      (\<lambda>t. R t is (sort_inner (sort_step xs (i + Suc k)) i k))"
    by (rule Suc.IH) (use t(2) Suc.prems(2) in auto)
  ultimately show ?case
    by (subst algorithm_sort_inner.simps) (simp add: make_pre_def make_post_def)
qed

lemma sort_outer_law:
  "R s is xs \<Longrightarrow> i + k < length xs \<Longrightarrow>
     yields (algorithm_sort_outer ops (is ! (i + k)) (is ! i) s) (\<lambda>t. R t is (sort_outer xs i k))"
proof (induction k arbitrary: i s xs)
  case 0
  then show ?case by (subst algorithm_sort_outer.simps) simp
next
  case (Suc k)
  have ne: "is ! i \<noteq> is ! (i + Suc k)" using same_position [OF Suc.prems(1), of i "i + Suc k"] Suc.prems(2) by simp
  have inner: "yields (algorithm_sort_inner ops (is ! i) (is ! (i + Suc k)) s) (\<lambda>t. R t is (sort_inner xs i (Suc k)))"
    by (rule sort_inner_law [OF Suc.prems])
  have "yields (algorithm_sort_outer ops (is ! (i + Suc k)) (is ! i) s)
      (\<lambda>t. R t is (sort_outer (sort_inner xs i (Suc k)) (i + 1) k))"
    unfolding algorithm_sort_outer.simps [of ops "is ! (i + Suc k)" "is ! i" s] if_P [OF ne]
  proof (rule yields_bind [OF inner])
    fix t assume t: "R t is (sort_inner xs i (Suc k))"
    have "i_next ops t (is ! i) = Inr (is ! Suc i)" using next_law [OF t, of i] Suc.prems(2) by simp
    moreover have "yields (algorithm_sort_outer ops (is ! (Suc i + k)) (is ! Suc i) t)
        (\<lambda>u. R u is (sort_outer (sort_inner xs i (Suc k)) (Suc i) k))"
      by (rule Suc.IH [OF t]) (use Suc.prems(2) in simp)
    ultimately show "yields (run_bind (of_res (make_post (i_next ops t) (is ! i)))
        (\<lambda>(i', _). algorithm_sort_outer ops (is ! (i + Suc k)) i' t))
        (\<lambda>u. R u is (sort_outer (sort_inner xs i (Suc k)) (i + 1) k))"
      by (simp add: make_pre_def make_post_def del: sort_inner.simps)
  qed
  then show ?case by simp
qed

lemma sort_law:
  assumes "R s is xs" and "b \<le> e" and "e \<le> length xs"
  shows "yields (algorithm_sort ops s (is ! b) (is ! e)) (\<lambda>t. R t is (boubbleSort xs b e))"
proof (cases "b = e")
  case False
  then have e: "b < e" "e - 1 < length xs" "Suc (e - 1) = e" using assms by auto
  have "is ! b \<noteq> is ! e" using same_position [OF assms(1), of b e] assms e by simp
  moreover have "is ! b = is ! (e - 1) \<longleftrightarrow> b = e - 1" using same_position [OF assms(1), of b "e - 1"] assms e by simp
  moreover have "i_minus ops s (is ! e) 1 = Inr (is ! (e - 1))" using minus_law [OF assms(1) e(2)] e(3) by simp
  ultimately show ?thesis
    using assms e sort_outer_law [OF assms(1), of b "e - 1 - b"] by (simp add: algorithm_sort_def boubbleSort_def Let_def)
qed (simp add: algorithm_sort_def boubbleSort_def assms)

end

subsection \<open>Arrays and lists as containers\<close>

definition array_holds :: "'a cArray \<Rightarrow> 'a list \<Rightarrow> bool" where
  "array_holds arr xs \<longleftrightarrow> cArray_inv arr \<and> cArray_elems arr = map Some xs"

definition array_positions :: "nat \<Rightarrow> nat \<Rightarrow> array_iterator list" where
  "array_positions this n = map (\<lambda>k. cArray_at this (word_of_nat k)) [0..<Suc n]"

definition array_view :: "nat \<Rightarrow> 'a cArray \<Rightarrow> array_iterator list \<Rightarrow> 'a list \<Rightarrow> bool" where
  "array_view this arr is xs \<longleftrightarrow> array_holds arr xs \<and> is = array_positions this (length xs)"

definition list_view :: "cList \<Rightarrow> 'a node_heap \<Rightarrow> ptr list \<Rightarrow> 'a list \<Rightarrow> bool" where
  "list_view l h is xs \<longleftrightarrow> (\<exists>ns e. cList_rep h l ns e xs \<and> is = map Some (ns @ [e]))"

lemma holds_size: "array_holds arr xs \<Longrightarrow> m_size arr = length xs"
  using length_elems [of arr] by (auto simp: array_holds_def dest: arg_cong [of _ _ length])

lemma holds_bounds:
  assumes "array_holds arr xs"
  shows "length xs < 2 ^ 31" "length xs \<le> length (cArray_buf arr)"
  using assms holds_size [OF assms] by (auto simp: array_holds_def cArray_inv_def)

lemma holds_cell:
  assumes "array_holds arr xs" and "k < length xs"
  shows "cArray_buf arr ! k = Some (xs ! k)"
proof -
  have "cArray_elems arr ! k = Some (xs ! k)" using assms by (simp add: array_holds_def)
  then show ?thesis using assms holds_size [OF assms(1)] by (simp add: cArray_elems_def)
qed

lemma nth_positions: "k \<le> n \<Longrightarrow> array_positions this n ! k = cArray_at this (word_of_nat k)"
  unfolding array_positions_def by (subst nth_map) (auto simp del: upt_Suc)

lemma length_positions [simp]: "length (array_positions this n) = Suc n"
  by (simp add: array_positions_def)

lemma unat_small: "k < 2 ^ 32 \<Longrightarrow> unat (word_of_nat k :: uint64) = k"
  by (simp add: unat_of_nat take_bit_nat_eq_self)

lemma distinct_positions:
  assumes "n < 2 ^ 31"
  shows "distinct (array_positions this n)"
proof -
  have "inj_on (\<lambda>k. word_of_nat k :: uint64) (set [0..<Suc n])"
  proof (rule inj_on_inverseI)
    fix k assume "k \<in> set [0..<Suc n]"
    then show "unat (word_of_nat k :: uint64) = k" using assms by (intro unat_small) auto
  qed
  then show ?thesis
    by (auto simp: array_positions_def distinct_map inj_on_def cArray_at_def array_iterator_new_def simp del: upt_Suc)
qed

lemma holds_put:
  assumes "array_holds arr xs" and "k < length xs"
  shows "\<exists>t. cArray_put arr k x = Inr t \<and> array_holds t (xs[k := x])"
proof -
  have s: "k < m_size arr" "k < length (cArray_buf arr)"
    using assms holds_size [OF assms(1)] holds_bounds(2) [OF assms(1)] by auto
  then have "m_array arr \<noteq> None" by (auto simp: cArray_buf_def split: option.splits)
  then obtain b where b: "m_array arr = Some b" by auto
  show ?thesis
    using assms s b by (auto simp: cArray_put_def cArray_setBuf_def array_holds_def cArray_inv_def cArray_elems_def cArray_buf_def
      take_update_swap map_update)
qed

interpretation array_itr: bidirectional_iterator array_iterators "array_view this" for this
proof
  fix arr :: "'a::linorder cArray" and "is" xs and k :: nat and x :: 'a
  assume v: "array_view this arr is xs"
  then have h: "array_holds arr xs" and i: "is = array_positions this (length xs)" by (simp_all add: array_view_def)
  have small: "\<And>j. j \<le> length xs \<Longrightarrow> unat (word_of_nat j :: uint64) = j"
    using holds_bounds(1) [OF h] by (intro unat_small) simp
  show "length is = Suc (length xs) \<and> distinct is" using distinct_positions [OF holds_bounds(1) [OF h]] by (simp add: i)
  assume k: "k < length xs"
  show "i_next array_iterators arr (is ! k) = Inr (is ! Suc k)" "i_prev array_iterators arr (is ! Suc k) = Inr (is ! k)"
    "i_minus array_iterators arr (is ! Suc k) 1 = Inr (is ! k)"
    using k by (simp_all add: i nth_positions array_iterators_def array_iterator_next_def array_iterator_prev_def
      array_iterator_minus_def cArray_at_def array_iterator_new_def add.commute)
  show "i_get array_iterators arr (is ! k) = Inr (xs ! k)"
    using k holds_cell [OF h k] holds_bounds(2) [OF h] holds_size [OF h]
    by (simp add: i nth_positions array_iterators_def array_iterator_get_def cArray_at_def array_iterator_new_def small
      cArray_get_def bind_res_def)
  show "\<exists>s'. i_put array_iterators arr (is ! k) x = Inr s' \<and> array_view this s' is (xs[k := x])"
    using k holds_put [OF h k, of x]
    by (simp add: i nth_positions array_iterators_def array_iterator_put_def cArray_at_def array_iterator_new_def small array_view_def)
qed

lemma iterator_node:
  assumes "cList_rep h l ns e xs" and "k < length xs"
  shows "nodes h (ns ! k) = Some \<lparr>information = Some (xs ! k), node_next = Some ((ns @ [e]) ! Suc k),
    node_prev = lastp None (take k ns)\<rparr>"
proof -
  have k: "k < length ns" using assms rep_length [OF assms(1)] by simp
  then have "ns = take k ns @ ns ! k # drop (Suc k) ns" "xs = take k xs @ xs ! k # drop (Suc k) xs"
    using assms(2) by (simp_all add: id_take_nth_drop)
  then have "cList_rep h l (take k ns @ ns ! k # drop (Suc k) ns) e (take k xs @ xs ! k # drop (Suc k) xs)"
    using assms(1) by simp
  from rep_node [OF this] have "nodes h (ns ! k) =
      Some \<lparr>information = Some (xs ! k), node_next = hdp (drop (Suc k) ns) (Some e), node_prev = lastp None (take k ns)\<rparr>"
    using k assms(2) by simp
  moreover have "hdp (drop (Suc k) ns) (Some e) = Some ((ns @ [e]) ! Suc k)"
    using k by (cases "Suc k < length ns") (simp_all add: Cons_nth_drop_Suc [symmetric] nth_append)
  ultimately show ?thesis by simp
qed

lemma dseg_put:
  "dseg H pv ns ys nx \<Longrightarrow> distinct ns \<Longrightarrow> k < length ns \<Longrightarrow> H (ns ! k) = Some n \<Longrightarrow>
     dseg (H(ns ! k \<mapsto> n\<lparr>information := y\<rparr>)) pv ns (ys[k := y]) nx"
proof (induction H pv ns ys nx arbitrary: k rule: dseg.induct)
  case (2 H pv a ns x xs nx)
  show ?case
  proof (cases k)
    case 0
    have n: "n = \<lparr>information = x, node_next = hdp ns nx, node_prev = pv\<rparr>" using 2 0 by simp
    have "dseg (H(a \<mapsto> n\<lparr>information := y\<rparr>)) (Some a) ns xs nx = dseg H (Some a) ns xs nx"
      by (rule dseg_cong) (use 2 in auto)
    then have "dseg (H(a \<mapsto> n\<lparr>information := y\<rparr>)) (Some a) ns xs nx" using "2.prems"(1) by simp
    then show ?thesis using 0 by (simp add: n fun_upd_def)
  next
    case (Suc j)
    moreover have "a \<noteq> ns ! j" using 2 Suc by auto
    ultimately show ?thesis using 2 by simp
  qed
qed auto

lemma iterator_put_rep:
  assumes "cList_rep h l ns e xs" and "k < length xs"
  shows "\<exists>h'. iterator_put h (Some (ns ! k)) x = Inr h' \<and> cList_rep h' l ns e (xs[k := x])"
proof -
  have k: "k < length ns" using assms rep_length [OF assms(1)] by simp
  note n = iterator_node [OF assms]
  let ?H = "(nodes h)(ns ! k \<mapsto> \<lparr>information = Some x, node_next = Some ((ns @ [e]) ! Suc k), node_prev = lastp None (take k ns)\<rparr>)"
  have "iterator_put h (Some (ns ! k)) x = Inr (h\<lparr>nodes := ?H\<rparr>)"
    by (simp add: iterator_put_def load_Some [OF n] modify_def)
  moreover have "dseg ?H None (ns @ [e]) (map Some (xs[k := x]) @ [None]) None"
    using dseg_put [of "nodes h" None "ns @ [e]" "map Some xs @ [None]" None k _ "Some x"] assms k n
    by (simp add: cList_rep_def nth_append list_update_append map_update)
  moreover have "\<forall>a. nodes (h\<lparr>nodes := ?H\<rparr>) a \<noteq> None \<longrightarrow> a < top h"
    using assms(1) n by (auto simp: cList_rep_def)
  ultimately show ?thesis using assms(1) by (auto simp: cList_rep_def)
qed

interpretation list_itr: bidirectional_iterator list_iterators "list_view l" for l
proof
  fix h :: "'a::linorder node_heap" and "is" xs and k :: nat and x :: 'a
  assume v: "list_view l h is xs"
  then obtain ns e where r: "cList_rep h l ns e xs" and i: "is = map Some (ns @ [e])" by (auto simp: list_view_def)
  have len: "length ns = length xs" by (rule rep_length [OF r])
  show "length is = Suc (length xs) \<and> distinct is"
    using r by (auto simp: i len cList_rep_def distinct_map)
  assume k: "k < length xs"
  note n = load_Some [OF iterator_node [OF r k]]
  have at: "is ! k = Some (ns ! k)" using k len by (simp add: i nth_append)
  show "i_next list_iterators h (is ! k) = Inr (is ! Suc k)"
    unfolding at using k len n by (simp add: list_iterators_def iterator_next_def i nth_append)
  have "\<exists>n. load h (is ! Suc k) = Inr n \<and> node_prev n = is ! k"
  proof (cases "Suc k < length xs")
    case True
    then show ?thesis
      using len load_Some [OF iterator_node [OF r True]] by (simp add: i nth_append lastp_def take_Suc_conv_app_nth)
  next
    case False
    then have s: "Suc k = length xs" using k by simp
    then have "ns \<noteq> []" "length ns - 1 = k" using len by auto
    then have "is ! Suc k = Some e" "ns \<noteq> []" "last ns = ns ! k" using s len by (simp_all add: i nth_append last_conv_nth)
    then show ?thesis using load_Some [OF rep_end [OF r]] at by (simp add: lastp_def)
  qed
  then show "i_prev list_iterators h (is ! Suc k) = Inr (is ! k)" "i_minus list_iterators h (is ! Suc k) 1 = Inr (is ! k)"
    by (auto simp: list_iterators_def iterator_prev_def)
  show "i_get list_iterators h (is ! k) = Inr (xs ! k)"
    unfolding at using n by (simp add: list_iterators_def iterator_get_def)
  show "\<exists>h'. i_put list_iterators h (is ! k) x = Inr h' \<and> list_view l h' is (xs[k := x])"
    unfolding at using iterator_put_rep [OF r k, of x] i by (auto simp: list_iterators_def list_view_def)
qed

lemma whole_array: "array_holds arr xs \<Longrightarrow>
  cArray_begin this = cArray_at this 0 \<and> cArray_end this arr = cArray_at this (word_of_nat (length xs))"
  by (simp add: cArray_begin_def cArray_end_def cArray_at_def holds_size)

lemma whole_list:
  assumes "cList_rep h l ns e xs"
  shows "cList_begin l = map Some (ns @ [e]) ! 0 \<and> cList_end l = map Some (ns @ [e]) ! length xs"
proof -
  have "map Some (ns @ [e]) ! length ns = Some e" by (simp add: nth_append)
  then have "map Some (ns @ [e]) ! length xs = Some e" by (simp only: rep_length [OF assms])
  moreover have "map Some (ns @ [e]) ! 0 = hdp ns (Some e)" by (cases ns) simp_all
  ultimately show ?thesis using assms by (simp only: cList_begin_def cList_end_def cList_rep_def)
qed

lemma list_viewI: "cList_rep h l ns e xs \<Longrightarrow> list_view l h (map Some (ns @ [e])) xs"
  unfolding list_view_def by blast

lemma list_viewD: "list_view l h (map Some (ns @ [e])) xs \<Longrightarrow> cList_rep h l ns e xs"
  by (auto simp: list_view_def inj_map_eq_map)

abbreviation itr_at :: "nat \<Rightarrow> nat \<Rightarrow> array_iterator" where
  "itr_at this k \<equiv> cArray_at this (word_of_nat k)"

abbreviation node_at :: "nat list \<Rightarrow> nat \<Rightarrow> nat \<Rightarrow> ptr" where
  "node_at ns e k \<equiv> map Some (ns @ [e]) ! k"

text \<open>
  C40: the templates find, fill and sort the objects between any two iterators of an array
  and of a list: \<open>find\<close> returns the iterator at the first object equal to the wanted one, or the end
  of the range, \<open>fill\<close> overwrites the range, \<open>boubbleSort\<close> orders it, and nothing outside changes.
\<close>

theorem container_algorithms:
  fixes xs :: "'a::linorder list"
  assumes "array_holds arr xs" and "cList_rep h l ns last_node xs" and "b \<le> e" and "e \<le> length xs"
  shows "(\<exists>r. b \<le> r \<and> r \<le> e \<and> object \<notin> set (take (r - b) (drop b xs)) \<and> (r = e \<or> xs ! r = object) \<and>
      algorithm_find array_iterators arr (itr_at this e) object (itr_at this b) = ok (itr_at this r) \<and>
      algorithm_find list_iterators h (node_at ns last_node e) object (node_at ns last_node b) = ok (node_at ns last_node r)) \<and>
    (let ys = take b xs @ replicate (e - b) object @ drop e xs in
      yields (algorithm_fill array_iterators (itr_at this e) object (itr_at this b) arr) (\<lambda>arr. array_holds arr ys) \<and>
      yields (algorithm_fill list_iterators (node_at ns last_node e) object (node_at ns last_node b) h) (\<lambda>h. cList_rep h l ns last_node ys)) \<and>
    (\<exists>ys. sorted (take (e - b) (drop b ys)) \<and> mset ys = mset xs \<and> take b ys = take b xs \<and> drop e ys = drop e xs \<and>
      yields (algorithm_sort array_iterators arr (itr_at this b) (itr_at this e)) (\<lambda>arr. array_holds arr ys) \<and>
      yields (algorithm_sort list_iterators h (node_at ns last_node b) (node_at ns last_node e)) (\<lambda>h. cList_rep h l ns last_node ys))"
proof (intro conjI)
  have a: "array_view this arr (array_positions this (length xs)) xs" using assms(1) by (simp add: array_view_def)
  have n: "list_view l h (map Some (ns @ [last_node])) xs" by (rule list_viewI [OF assms(2)])
  have at: "\<And>k. k \<le> e \<Longrightarrow> array_positions this (length xs) ! k = itr_at this k"
    using assms(4) by (simp add: nth_positions)
  let ?r = "find_from xs b e (e - b) object"
  have r: "b \<le> ?r" "?r \<le> e" "?r < e \<longrightarrow> xs ! ?r = object" "\<And>i. b \<le> i \<Longrightarrow> i < ?r \<Longrightarrow> xs ! i \<noteq> object"
    using find_from_bounds [of "e - b" e b xs object] assms(3) by (auto simp: Let_def)
  then have "object \<notin> set (take (?r - b) (drop b xs))"
    using assms(4) by (auto simp: in_set_conv_nth)
  moreover have "algorithm_find array_iterators arr (itr_at this e) object (itr_at this b) = ok (itr_at this ?r)"
    using array_itr.find_law [OF a assms(4) refl assms(3), of object] r assms(3) by (simp add: at)
  moreover have "algorithm_find list_iterators h (node_at ns last_node e) object (node_at ns last_node b) = ok (node_at ns last_node ?r)"
    using list_itr.find_law [OF n assms(4) refl assms(3), of object] .
  ultimately show "\<exists>r. b \<le> r \<and> r \<le> e \<and> object \<notin> set (take (r - b) (drop b xs)) \<and> (r = e \<or> xs ! r = object) \<and>
      algorithm_find array_iterators arr (itr_at this e) object (itr_at this b) = ok (itr_at this r) \<and>
      algorithm_find list_iterators h (node_at ns last_node e) object (node_at ns last_node b) = ok (node_at ns last_node r)"
    using r by (intro exI [of _ ?r]) (auto simp: le_less)
  have f: "fill_from xs b (e - b) object = take b xs @ replicate (e - b) object @ drop e xs"
    using fill_from_eq [of b "e - b" xs object] assms(3,4) by simp
  have "yields (algorithm_fill array_iterators (itr_at this e) object (itr_at this b) arr) (\<lambda>arr. array_holds arr (fill_from xs b (e - b) object))"
    using array_itr.fill_law [OF assms(4) refl assms(3) a refl, of object] assms(3)
    by (auto simp: at array_view_def elim: yields_mono)
  moreover have "yields (algorithm_fill list_iterators (node_at ns last_node e) object (node_at ns last_node b) h)
      (\<lambda>h. cList_rep h l ns last_node (fill_from xs b (e - b) object))"
    using list_itr.fill_law [OF assms(4) refl assms(3) n refl, of object] 
    by (rule yields_mono) (rule list_viewD)
  ultimately show "let ys = take b xs @ replicate (e - b) object @ drop e xs in
      yields (algorithm_fill array_iterators (itr_at this e) object (itr_at this b) arr) (\<lambda>arr. array_holds arr ys) \<and>
      yields (algorithm_fill list_iterators (node_at ns last_node e) object (node_at ns last_node b) h) (\<lambda>h. cList_rep h l ns last_node ys)"
    unfolding Let_def f by blast
  have "yields (algorithm_sort array_iterators arr (itr_at this b) (itr_at this e)) (\<lambda>arr. array_holds arr (boubbleSort xs b e))"
    using array_itr.sort_law [OF a assms(3,4)] assms(3) by (auto simp: at array_view_def elim: yields_mono)
  moreover have "yields (algorithm_sort list_iterators h (node_at ns last_node b) (node_at ns last_node e)) (\<lambda>h. cList_rep h l ns last_node (boubbleSort xs b e))"
    using list_itr.sort_law [OF n assms(3,4)] by (rule yields_mono) (rule list_viewD)
  ultimately show "\<exists>ys. sorted (take (e - b) (drop b ys)) \<and> mset ys = mset xs \<and> take b ys = take b xs \<and> drop e ys = drop e xs \<and>
      yields (algorithm_sort array_iterators arr (itr_at this b) (itr_at this e)) (\<lambda>arr. array_holds arr ys) \<and>
      yields (algorithm_sort list_iterators h (node_at ns last_node b) (node_at ns last_node e)) (\<lambda>h. cList_rep h l ns last_node ys)"
    using boubbleSort_sorts [OF assms(3,4)] by blast
qed

text \<open>The objects 3, 1, 2 in an array and in a list.\<close>

definition three_cells :: "nat cArray" where
  "three_cells = \<lparr>m_array = Some [Some 3, Some 1, Some 2, None], m_size = 3, m_alocatedArray = 4, m_pageSize = 4\<rparr>"

definition three_nodes :: "nat node_heap" where
  "three_nodes =
     \<lparr>nodes = [0 \<mapsto> \<lparr>information = Some 3, node_next = Some 1, node_prev = None\<rparr>,
               1 \<mapsto> \<lparr>information = Some 1, node_next = Some 2, node_prev = Some 0\<rparr>,
               2 \<mapsto> \<lparr>information = Some 2, node_next = Some 9, node_prev = Some 1\<rparr>,
               9 \<mapsto> \<lparr>information = None, node_next = None, node_prev = Some 2\<rparr>],
      top = 10\<rparr>"

definition three_list :: cList where
  "three_list = \<lparr>m_first = Some 0, m_last = Some 9\<rparr>"

theorem container_algorithms_witness:
  "array_holds three_cells [3, 1, 2] \<and> cList_rep three_nodes three_list [0, 1, 2] 9 [3, 1, 2] \<and>
   yields (algorithm_sort array_iterators three_cells (cArray_begin 7) (cArray_end 7 three_cells))
     (\<lambda>arr. array_holds arr [1, 2, 3]) \<and>
   yields (algorithm_sort list_iterators three_nodes (cList_begin three_list) (cList_end three_list))
     (\<lambda>h. cList_rep h three_list [0, 1, 2] 9 [1, 2, 3])"
proof -
  have a: "array_holds three_cells [3, 1, 2]"
    by (simp add: three_cells_def array_holds_def cArray_inv_def cArray_elems_def cArray_buf_def)
  have l: "cList_rep three_nodes three_list [0, 1, 2] 9 [3, 1, 2]"
    by (simp add: three_nodes_def three_list_def cList_rep_def)
  note all = container_algorithms [OF a l, of 0 3 _ 7, THEN conjunct2, THEN conjunct2]
  then obtain ys where ys: "sorted (take (3 - 0) (drop 0 ys))" "mset ys = mset [3, 1, 2]"
    "yields (algorithm_sort array_iterators three_cells (itr_at 7 0) (itr_at 7 3)) (\<lambda>arr. array_holds arr ys)"
    "yields (algorithm_sort list_iterators three_nodes (node_at [0, 1, 2] 9 0) (node_at [0, 1, 2] 9 3))
       (\<lambda>h. cList_rep h three_list [0, 1, 2] 9 ys)"
    by auto
  have len: "length ys = 3" using ys(2) by (metis length_Cons list.size(3) numeral_3_eq_3 size_mset)
  then have "sort [3, 1, 2] = ys" using ys(1,2) by (intro properties_for_sort) simp_all
  then have "ys = [1, 2, 3]" by simp
  then show ?thesis
    using a l ys(3,4) whole_array [OF a, of 7] whole_list [OF l] by simp
qed

subsection \<open>Printed containers\<close>

fun separated :: "character list list \<Rightarrow> character list" where
  "separated [] = []"
| "separated [t] = t"
| "separated (t # u # ts) = t @ lit '', '' @ separated (u # ts)"

definition bracketed :: "character list list \<Rightarrow> character list" where
  "bracketed ts = lit ''['' @ separated ts @ lit '']''"

lemma nonul_separators: "nonul (lit '', '')" "nonul (lit ''['')" "nonul (lit '']'')"
  by code_simp+

lemma separated_append: "separated (ts @ [t]) = concat (map (\<lambda>u. u @ lit '', '') ts) @ t"
  by (induction ts rule: separated.induct) simp_all

context text_sink
begin

lemma prints_cells:
  assumes "\<And>j. j < n \<Longrightarrow> array_cell arr (i + j) = Inr (f j)"
    and "\<And>j. j < n \<Longrightarrow> prints (\<lambda>s. elem s (f j)) (disp (f j))"
  shows "prints (put_cells emit elem arr i n) (concat (map (\<lambda>j. disp (f j) @ lit '', '') [0..<n]))"
  using assms
proof (induction n arbitrary: i f)
  case (Suc n)
  have "prints (put_cells emit elem arr (i + 1) n) (concat (map (\<lambda>j. disp (f (Suc j)) @ lit '', '') [0..<n]))"
    by (rule Suc.IH [of "i + 1" "\<lambda>j. f (Suc j)"]) (use Suc.prems(1) [of "Suc _"] Suc.prems(2) in auto)
  from prints_bind [OF Suc.prems(2) [of 0] prints_bind [OF prints_chars [OF nonul_separators(1)] this]]
  have "prints (\<lambda>s. run_bind (elem s (f 0)) (\<lambda>s. run_bind (put_chars emit s (lit '', '' @ [0]))
      (put_cells emit elem arr (i + 1) n))) (disp (f 0) @ lit '', '' @ concat (map (\<lambda>j. disp (f (Suc j)) @ lit '', '') [0..<n]))"
    by simp
  moreover have "[0..<Suc n] = 0 # map Suc [0..<n]" by (simp add: upt_conv_Cons map_Suc_upt del: upt_Suc)
  ultimately show ?case
    using Suc.prems(1) [of 0] by (simp add: comp_def del: upt_Suc)
qed (simp add: prints_okI)

lemma prints_cArray:
  assumes "array_holds arr xs" and "xs \<noteq> []"
    and "\<And>x. x \<in> set xs \<Longrightarrow> prints (\<lambda>s. elem s x) (disp x)"
  shows "prints (put_cArray emit elem arr) (bracketed (map disp xs))"
proof -
  let ?n = "length xs - 1"
  have n: "?n < length xs" "xs = map ((!) xs) [0..<?n] @ [xs ! ?n]"
    using assms(2) by (cases xs rule: rev_cases; auto intro!: nth_equalityI simp: nth_append)+
  have limit: "unat (word_of_nat (m_size arr) - 1 :: uint64) = ?n"
  proof -
    have "(word_of_nat (m_size arr) - 1 :: uint64) = word_of_nat ?n"
      using n(1) by (simp add: holds_size [OF assms(1)] of_nat_diff)
    then show ?thesis using unat_small [of ?n] holds_bounds(1) [OF assms(1)] by simp
  qed
  have cell: "array_cell arr j = Inr (xs ! j)" if "j < length xs" for j
    using that holds_cell [OF assms(1) that] holds_bounds(2) [OF assms(1)] by (simp add: array_cell_def)
  have cells: "prints (put_cells emit elem arr 0 ?n) (concat (map (\<lambda>j. disp (xs ! j) @ lit '', '') [0..<?n]))"
    by (rule prints_cells) (use cell assms(3) in auto)
  have "separated (map disp xs) = concat (map (\<lambda>j. disp (xs ! j) @ lit '', '') [0..<?n]) @ disp (xs ! ?n)"
    by (subst n(2)) (simp add: separated_append comp_def)
  moreover have "prints (put_cArray emit elem arr)
      (lit ''['' @ concat (map (\<lambda>j. disp (xs ! j) @ lit '', '') [0..<?n]) @ disp (xs ! ?n) @ lit '']'')"
    unfolding put_cArray_def Let_def limit cell [OF n(1)]
    using prints_bind [OF prints_chars [OF nonul_separators(2)] prints_bind [OF cells
      prints_bind [OF assms(3) prints_chars [OF nonul_separators(3)]]]] n(1) by simp
  ultimately show ?thesis by (simp add: bracketed_def)
qed

lemma prints_nodes:
  assumes "cList_rep h l ns e xs" and "\<And>x. x \<in> set xs \<Longrightarrow> prints (\<lambda>s. elem s x) (disp x)"
  shows "k \<le> length xs \<Longrightarrow>
    prints (put_nodes emit elem h (Some e) (node_at ns e k)) (separated (map disp (drop k xs)))"
proof (induction "length xs - k" arbitrary: k)
  case 0
  then have "node_at ns e k = Some e" using rep_length [OF assms(1)] by (simp add: nth_append)
  then have stop: "put_nodes emit elem h (Some e) (node_at ns e k) s = ok s" for s
    by (subst put_nodes.simps) simp
  have "drop k xs = []" using 0 by simp
  then show ?case using prints_okI [OF stop] by simp
next
  case (Suc d)
  then have k: "k < length xs" by simp
  have len: "length ns = length xs" by (rule rep_length [OF assms(1)])
  have node: "node_at ns e k = Some (ns ! k)" "Some (ns ! k) \<noteq> Some e"
    using k len assms(1) by (auto simp: nth_append cList_rep_def)
  note n = load_Some [OF iterator_node [OF assms(1) k]]
  have next_node: "iterator_plus h (Some (ns ! k)) 1 = Inr (node_at ns e (Suc k))" "iterator_get h (Some (ns ! k)) = Inr (xs ! k)"
    "iterator_next h (Some (ns ! k)) = Inr (node_at ns e (Suc k))"
    using n k len by (simp_all add: iterator_next_def iterator_get_def nth_append)
  have final: "node_at ns e (Suc k) = Some e \<longleftrightarrow> Suc k = length xs"
    using k len assms(1) by (auto simp: nth_append cList_rep_def)
  have IH: "prints (put_nodes emit elem h (Some e) (node_at ns e (Suc k))) (separated (map disp (drop (Suc k) xs)))"
    by (rule Suc.hyps(1)) (use Suc.hyps(2) k in auto)
  have sep: "prints (\<lambda>s. if node_at ns e (Suc k) \<noteq> Some e then put_chars emit s (lit '', '' @ [0]) else ok s)
      (if Suc k \<noteq> length xs then lit '', '' else [])"
    unfolding final by (rule prints_if) (simp_all add: prints_chars nonul_separators prints_ok)
  have "prints (\<lambda>s. run_bind (elem s (xs ! k)) (\<lambda>s. run_bind
        (if node_at ns e (Suc k) \<noteq> Some e then put_chars emit s (lit '', '' @ [0]) else ok s)
        (put_nodes emit elem h (Some e) (node_at ns e (Suc k)))))
      (disp (xs ! k) @ (if Suc k \<noteq> length xs then lit '', '' else []) @ separated (map disp (drop (Suc k) xs)))"
    using prints_bind [OF assms(2) prints_bind [OF sep IH]] k by simp
  moreover have "separated (map disp (drop k xs)) =
      disp (xs ! k) @ (if Suc k \<noteq> length xs then lit '', '' else []) @ separated (map disp (drop (Suc k) xs))"
    using k Cons_nth_drop_Suc [OF k, symmetric] by (cases "drop (Suc k) xs") auto
  moreover have "put_nodes emit elem h (Some e) (Some (ns ! k)) = (\<lambda>s. run_bind (elem s (xs ! k)) (\<lambda>s. run_bind
        (if node_at ns e (Suc k) \<noteq> Some e then put_chars emit s (lit '', '' @ [0]) else ok s)
        (put_nodes emit elem h (Some e) (node_at ns e (Suc k)))))"
    by (rule ext, subst put_nodes.simps)
      (simp add: node(2) [simplified] next_node [unfolded One_nat_def] make_pre_def make_post_def del: iterator_plus.simps)
  ultimately show ?case unfolding node by simp
qed

lemma prints_cList:
  assumes "cList_rep h l ns e xs" and "\<And>x. x \<in> set xs \<Longrightarrow> prints (\<lambda>s. elem s x) (disp x)"
  shows "prints (put_cList emit elem h l) (bracketed (map disp xs))"
proof -
  have "prints (put_nodes emit elem h (cList_end l) (cList_begin l)) (separated (map disp xs))"
    using prints_nodes [OF assms le0] whole_list [OF assms(1)] rep_length [OF assms(1)]
    by (simp add: nth_append)
  from prints_bind [OF prints_chars [OF nonul_separators(2)] prints_bind [OF this prints_chars [OF nonul_separators(3)]]]
  show ?thesis by (simp add: put_cList_def [abs_def] bracketed_def)
qed

end

lemma put_cells_null: "0 < k \<Longrightarrow> put_cells emit elem (cArray_new 0 page) 0 k s = throw UNDEFINED_BEHAVIOUR"
  by (cases k) (simp_all add: array_cell_def cArray_new_def cArray_initArray_def cArray_buf_def)

text \<open>
  Arrays and lists of the same texts print the same, in a string stream that held \<open>h\<close>; printing an
  array without a buffer reads through the null pointer.
\<close>

theorem containers_print:
  assumes "str_rel s h" and "list_all nonul ts"
  shows "(array_holds arr (map cstr ts) \<longrightarrow> ts \<noteq> [] \<longrightarrow>
      yields (put_cArray str_put str_put arr s) (\<lambda>t. cStringStream_getData t = cstr (h @ bracketed ts))) \<and>
    (cList_rep nh l ns e (map cstr ts) \<longrightarrow>
      yields (put_cList str_put str_put nh l s) (\<lambda>t. cStringStream_getData t = cstr (h @ bracketed ts))) \<and>
    put_cArray str_put str_put (cArray_new 0 page) s = throw UNDEFINED_BEHAVIOUR"
proof (intro conjI impI)
  let ?disp = "\<lambda>x. butlast (m_buffer x)"
  have disp: "map ?disp (map cstr ts) = ts" by (simp add: comp_def cstr_def)
  have elem: "str.prints (\<lambda>s. str_put s x) (?disp x)" if x: "x \<in> set (map cstr ts)" for x
  proof -
    obtain t where t: "t \<in> set ts" "x = cstr t" using x by auto
    then have "nonul t" using assms(2) by (simp add: list_all_iff)
    then show ?thesis using str.prints_emit [of t] t by (simp add: cstr_def)
  qed
  have shown: "yields (f s) (\<lambda>t. cStringStream_getData t = cstr (h @ cs))" if "str.prints f cs" for f cs
    using that assms(1) by (auto simp: str.prints_def str_rel_def elim!: yields_mono)
  show "yields (put_cArray str_put str_put arr s) (\<lambda>t. cStringStream_getData t = cstr (h @ bracketed ts))"
    if a: "array_holds arr (map cstr ts)" and ne: "ts \<noteq> []"
  proof -
    have "str.prints (put_cArray str_put str_put arr) (bracketed (map ?disp (map cstr ts)))"
      by (rule str.prints_cArray [OF a _ elem]) (use ne in simp_all)
    then show ?thesis unfolding disp by (rule shown)
  qed
  show "yields (put_cList str_put str_put nh l s) (\<lambda>t. cStringStream_getData t = cstr (h @ bracketed ts))"
    if l: "cList_rep nh l ns e (map cstr ts)"
  proof -
    have "str.prints (put_cList str_put str_put nh l) (bracketed (map ?disp (map cstr ts)))"
      by (rule str.prints_cList [OF l elem]) simp
    then show ?thesis unfolding disp by (rule shown)
  qed
  obtain t where "put_chars str_put s (lit ''['' @ [0]) = ok t"
    using shown [OF str.prints_chars [OF nonul_separators(2)]] by (auto simp: yields_def)
  moreover have "0 < unat (word_of_nat (m_size (cArray_new 0 page :: cString cArray)) - 1 :: uint64)"
    by (simp add: cArray_new_def cArray_initArray_def unat_gt_0)
  ultimately show "put_cArray str_put str_put (cArray_new 0 page) s = throw UNDEFINED_BEHAVIOUR"
    by (simp only: put_cArray_def Let_def put_cells_null run_bind_simps)
qed

subsection \<open>Serialized objects\<close>

datatype serial = Serial_bytes "uint8 cArray" | Serial_string cString

fun serialize :: "'s basicIO \<Rightarrow> serial list \<Rightarrow> 's \<Rightarrow> 's run" where
  "serialize ops [] s = ok s"
| "serialize ops (Serial_bytes arr # os) s = run_bind (cSArray_serialize ops arr s) (serialize ops os)"
| "serialize ops (Serial_string str # os) s = run_bind (cString_serialize ops str s) (serialize ops os)"

text \<open>\<open>deserialize\<close> of one object after the other, each with a value of its own before.\<close>

fun deserialize :: "'s basicIO \<Rightarrow> serial list \<Rightarrow> 's \<Rightarrow> (serial list \<times> 's) run" where
  "deserialize ops [] s = ok ([], s)"
| "deserialize ops (Serial_bytes arr # os) s =
     run_bind (cSArray_deserialize ops arr s) (\<lambda>(arr, s).
     run_bind (deserialize ops os s) (\<lambda>(os, s). ok (Serial_bytes arr # os, s)))"
| "deserialize ops (Serial_string str # os) s =
     run_bind (cString_deserialize ops str s) (\<lambda>(str, s).
     run_bind (deserialize ops os s) (\<lambda>(os, s). ok (Serial_string str # os, s)))"

text \<open>Two objects with the same contents, what may be serialized, and the bytes of it.\<close>

fun same_serial :: "serial \<Rightarrow> serial \<Rightarrow> bool" where
  "same_serial (Serial_bytes a) (Serial_bytes b) \<longleftrightarrow> cArray_elems a = cArray_elems b \<and> m_size a = m_size b"
| "same_serial (Serial_string s) (Serial_string t) \<longleftrightarrow> s = t"
| "same_serial _ _ \<longleftrightarrow> False"

fun same_class :: "serial \<Rightarrow> serial \<Rightarrow> bool" where
  "same_class (Serial_bytes _) (Serial_bytes _) \<longleftrightarrow> True"
| "same_class (Serial_string _) (Serial_string _) \<longleftrightarrow> True"
| "same_class _ _ \<longleftrightarrow> False"

fun serial_ok :: "serial \<Rightarrow> bool" where
  "serial_ok (Serial_bytes arr) \<longleftrightarrow> (\<exists>bs. array_holds arr bs)"
| "serial_ok (Serial_string str) \<longleftrightarrow> cString_inv str \<and> cString_length str < MAX_CHAR"

fun serial_bytes :: "bool \<Rightarrow> serial \<Rightarrow> uint8 list" where
  "serial_bytes b (Serial_bytes arr) = ordered b (le32 (word_of_nat (m_size arr))) @ map the (cArray_elems arr)"
| "serial_bytes b (Serial_string str) = item_bytes b basicInput_new (ItemUnicode str)"

lemma initialised_Some [simp]: "initialised (map Some xs) = Inr xs"
  by (induction xs) simp_all

lemma unat_size: "array_holds arr xs \<Longrightarrow> unat (word_of_nat (m_size arr) :: uint32) = length xs"
  using holds_bounds(1) [of arr xs] by (simp add: holds_size unat_of_nat take_bit_nat_eq_self)

context output_stream
begin

lemma serialize_puts:
  "valid s \<Longrightarrow> list_all serial_ok os \<Longrightarrow>
     yields (serialize ops os s) (put valid out (out s @ concat (map (serial_bytes (v_isLittleEndian ops)) os)))"
proof (induction os arbitrary: s)
  case (Cons x os)
  have x: "yields (serialize ops [x] s) (put valid out (out s @ serial_bytes (v_isLittleEndian ops) x))"
  proof (cases x)
    case (Serial_bytes arr)
    then obtain bs where bs: "array_holds arr bs" using Cons.prems(2) by auto
    have elems: "take (length bs) (cArray_buf arr) = map Some bs"
      using bs holds_size [OF bs] by (simp add: array_holds_def cArray_elems_def)
    have "yields (cSArray_serialize ops arr s)
        (put valid out ((out s @ ordered (v_isLittleEndian ops) (le32 (word_of_nat (m_size arr)))) @ bs))"
    proof -
      have "yields (run_bind (streamWriteUint32 ops s (word_of_nat (m_size arr))) (\<lambda>s. pipeWrite ops s bs))
          (put valid out ((out s @ ordered (v_isLittleEndian ops) (le32 (word_of_nat (m_size arr)))) @ bs))"
      proof (rule yields_bind [OF number_puts(3) [OF Cons.prems(1)]])
        fix t assume p: "put valid out (out s @ ordered (v_isLittleEndian ops) (le32 (word_of_nat (m_size arr)))) t"
        show "yields (pipeWrite ops t bs)
            (put valid out ((out s @ ordered (v_isLittleEndian ops) (le32 (word_of_nat (m_size arr)))) @ bs))"
          using pipeWrite_puts [OF putD(1) [OF p]] by (simp add: putD(2) [OF p])
      qed
      then show ?thesis
        using holds_bounds [OF bs] holds_size [OF bs] unat_size [OF bs] elems
        by (simp add: cSArray_serialize_def)
    qed
    moreover have "map the (cArray_elems arr) = bs" using bs by (simp add: array_holds_def comp_def)
    ultimately show ?thesis by (auto simp: Serial_bytes yields_def)
  next
    case (Serial_string str)
    then show ?thesis
      using write_item_puts [OF Cons.prems(1), of basicInput_new "ItemUnicode str"] Cons.prems(2)
      by (auto simp: cString_serialize_def yields_def)
  qed
  have "serialize ops (x # os) s = run_bind (serialize ops [x] s) (serialize ops os)"
    by (cases x) (simp_all add: run_bind_assoc)
  also have "yields \<dots> (put valid out (out s @ concat (map (serial_bytes (v_isLittleEndian ops)) (x # os))))"
  proof (rule yields_bind [OF x])
    fix t assume p: "put valid out (out s @ serial_bytes (v_isLittleEndian ops) x) t"
    show "yields (serialize ops os t) (put valid out (out s @ concat (map (serial_bytes (v_isLittleEndian ops)) (x # os))))"
      using Cons.IH [OF putD(1) [OF p]] Cons.prems(2) by (simp add: putD(2) [OF p])
  qed
  finally show ?case .
qed (simp add: put_def)

end

context input_stream
begin

lemma deserialize_bytes:
  assumes "valid s" and "rest s = ordered (v_isLittleEndian ops) (le32 n) @ r"
  shows "yields (cSArray_deserialize ops arr s) (\<lambda>x. m_size (fst x) = unat n \<and>
     cArray_elems (fst x) = map Some (take (unat n) r) @ replicate (unat n - length r) None \<and>
     valid (snd x) \<and> rest (snd x) = drop (unat n) r)"
  unfolding cSArray_deserialize_def
proof (rule got_bind [OF number_got(3) [OF assms]])
  fix t assume t: "valid t" "rest t = r"
  have "\<exists>a. cSArray_changeSize arr (unat n) False = Inr a \<and> m_size a = unat n \<and>
      (if unat n = 0 then m_array a = None else m_array a = Some (newT (cArray_pageRound arr (unat n))))"
    by (cases "unat n = 0") (simp_all add: cSArray_changeSize_def cArray_changeSize_def cArray_freeArray_def Let_def)
  then obtain a where a: "cSArray_changeSize arr (unat n) False = Inr a" "m_size a = unat n"
    "if unat n = 0 then m_array a = None else m_array a = Some (newT (cArray_pageRound arr (unat n)))" by blast
  have p: "yields (pipeRead ops t (unat n)) (got valid rest (take (unat n) r) (drop (unat n) r))"
    using pipeRead_takes [OF t(1)] t(2) by simp
  have e: "take (unat n) (cArray_buf (cArray_setBuf (memcpy_at (cArray_buf a) 0 (map Some bs) (length bs)) a)) =
      map Some bs @ replicate (unat n - length bs) None" if "length bs \<le> unat n" for bs
  proof (cases "unat n = 0")
    case True
    then show ?thesis using a that by (simp add: cArray_setBuf_def cArray_buf_def)
  next
    case False
    then show ?thesis
      using a(3) that pageRound_bounds(1) [of "unat n" arr]
      by (simp add: cArray_setBuf_def cArray_buf_def newT_def memcpy_at_def take_drop min_def)
  qed
  show "yields (case (n, t) of (cnt, s) \<Rightarrow> run_bind (of_res (cSArray_changeSize arr (unat cnt) False)) (\<lambda>arr.
     run_bind (pipeRead ops s (unat cnt)) (\<lambda>(bs, s).
     ok (cArray_setBuf (memcpy_at (cArray_buf arr) 0 (map Some bs) (length bs)) arr, s)))) (\<lambda>x. m_size (fst x) = unat n \<and>
     cArray_elems (fst x) = map Some (take (unat n) r) @ replicate (unat n - length r) None \<and>
     valid (snd x) \<and> rest (snd x) = drop (unat n) r)"
    using a(1,2) e [of "take (unat n) r"]
    by (auto simp: cArray_elems_def cArray_setBuf_def intro!: got_bind [OF p] split: option.splits)
qed

lemma deserialize_got:
  "valid s \<Longrightarrow> list_all serial_ok os \<Longrightarrow> list_all2 same_class ts os \<Longrightarrow>
   rest s = concat (map (serial_bytes (v_isLittleEndian ops)) os) @ r \<Longrightarrow>
     yields (deserialize ops ts s) (\<lambda>x. list_all2 same_serial (fst x) os \<and> valid (snd x) \<and> rest (snd x) = r)"
proof (induction os arbitrary: s ts)
  case (Cons o1 os)
  then obtain t ts' where ts: "ts = t # ts'" "same_class t o1" "list_all2 same_class ts' os" by (auto simp: list_all2_Cons2)
  let ?r = "concat (map (serial_bytes (v_isLittleEndian ops)) os) @ r"
  have first: "yields (deserialize ops [t] s) (\<lambda>x. list_all2 same_serial (fst x) [o1] \<and> valid (snd x) \<and> rest (snd x) = ?r)"
  proof (cases o1)
    case (Serial_bytes arr)
    then obtain bs where bs: "array_holds arr bs" using Cons.prems(2) by auto
    obtain a where t: "t = Serial_bytes a" using ts(2) Serial_bytes by (cases t) auto
    have e: "cArray_elems arr = map Some bs" using bs by (simp add: array_holds_def)
    have r: "rest s = ordered (v_isLittleEndian ops) (le32 (word_of_nat (m_size arr))) @ bs @ ?r"
      using Cons.prems(4) by (simp add: Serial_bytes e comp_def)
    have "yields (cSArray_deserialize ops a s) (\<lambda>x. same_serial (Serial_bytes (fst x)) o1 \<and> valid (snd x) \<and> rest (snd x) = ?r)"
      using deserialize_bytes [OF Cons.prems(1) r, of a]
      by (rule yields_mono) (simp add: Serial_bytes unat_size [OF bs, unfolded holds_size [OF bs]] e holds_size [OF bs])
    then show ?thesis by (auto simp: t yields_def)
  next
    case (Serial_string str)
    then obtain u where t: "t = Serial_string u" using ts(2) by (cases t) auto
    have "yields (read_item ops basicInput_new s (ItemUnicode str)) (got valid rest (ItemUnicode str) ?r)"
      using read_item_got [OF Cons.prems(1), of basicInput_new "ItemUnicode str" ?r] Cons.prems(2,4) Serial_string by simp
    then show ?thesis
      by (auto simp: t Serial_string cString_deserialize_def yields_def got_def run_bind_def ok_def throw_def
        split: option.splits sum.splits Option.bind_splits)
  qed
  have "deserialize ops (t # ts') s = run_bind (deserialize ops [t] s) (\<lambda>(xs, s).
      run_bind (deserialize ops ts' s) (\<lambda>(ys, s). ok (xs @ ys, s)))"
    by (cases t) (simp_all add: run_bind_assoc case_prod_unfold)
  also have "yields \<dots> (\<lambda>x. list_all2 same_serial (fst x) (o1 # os) \<and> valid (snd x) \<and> rest (snd x) = r)"
  proof (rule yields_bind [OF first], clarify)
    fix xs u assume xs: "list_all2 same_serial (fst (xs, u)) [o1]" "valid (snd (xs, u))" "rest (snd (xs, u)) = ?r"
    have "yields (deserialize ops ts' u) (\<lambda>x. list_all2 same_serial (fst x) os \<and> valid (snd x) \<and> rest (snd x) = r)"
      using xs Cons.prems(2) by (intro Cons.IH ts(3)) simp_all
    then show "yields (run_bind (deserialize ops ts' u) (\<lambda>(ys, s). ok (xs @ ys, s)))
        (\<lambda>x. list_all2 same_serial (fst x) (o1 # os) \<and> valid (snd x) \<and> rest (snd x) = r)"
      by (rule yields_bind) (use xs(1) in \<open>auto simp: list_all2_Cons2\<close>)
  qed
  finally show ?case unfolding ts(1) .
qed simp

end

text \<open>
  Arrays of bytes and strings, serialized one after the other to a memory file in either byte order,
  are read back into objects of their classes, whatever those held before, and the file is at its
  end. A file that ends too early is not noticed: the array has the size that was written, and the
  bytes that are missing are those of the new memory.
\<close>

theorem serialized_objects:
  assumes "list_all serial_ok os" and "list_all2 same_class ts os"
  shows "yields
      (run_bind (serialize (cEndianFilterStream cMemoryStream_io b) os (cMemoryStream_new_data [] False)) (\<lambda>s.
       run_bind (v_seek (cEndianFilterStream cMemoryStream_io b) s 0 IO_SEEK_SET) (\<lambda>s.
       deserialize (cEndianFilterStream cMemoryStream_io b) ts s)))
      (\<lambda>x. list_all2 same_serial (fst x) os \<and> cMemoryStream_isEOS (snd x)) \<and>
    yields
      (cSArray_deserialize (cEndianFilterStream cMemoryStream_io b) arr (cMemoryStream_new_data (ordered b (le32 n) @ bs) False))
      (\<lambda>x. m_size (fst x) = unat n \<and>
         cArray_elems (fst x) = map Some (take (unat n) bs) @ replicate (unat n - length bs) None)"
proof
  let ?ops = "cEndianFilterStream cMemoryStream_io b" and ?s = "cMemoryStream_new_data [] False"
  let ?bytes = "concat (map (serial_bytes b) os)"
  have little: "v_isLittleEndian ?ops = b" by (simp add: cEndianFilterStream_def)
  have new: "cMemoryStream_atEnd ?s" "m_data ?s = []"
    by (simp_all add: cMemoryStream_new_data_def cMemoryStream_atEnd_def)
  have w: "yields (serialize ?ops os ?s) (put cMemoryStream_atEnd m_data ?bytes)"
    using output_stream.serialize_puts [OF mem_append.endian_output new(1) assms(1), of b] by (simp add: new little)
  show "yields (run_bind (serialize ?ops os ?s) (\<lambda>s. run_bind (v_seek ?ops s 0 IO_SEEK_SET) (deserialize ?ops ts)))
      (\<lambda>x. list_all2 same_serial (fst x) os \<and> cMemoryStream_isEOS (snd x))"
  proof (rule yields_bind [OF w])
    fix s assume p: "put cMemoryStream_atEnd m_data ?bytes s"
    have "yields (deserialize ?ops ts (s\<lparr>m_filePosition := 0\<rparr>))
        (\<lambda>x. list_all2 same_serial (fst x) os \<and> cMemoryStream_inv (snd x) \<and> cMemoryStream_rest (snd x) = [])"
      using p by (intro input_stream.deserialize_got [OF mem_in.endian_input]) (simp_all add: assms little put_def)
    then have "yields (deserialize ?ops ts (s\<lparr>m_filePosition := 0\<rparr>))
        (\<lambda>x. list_all2 same_serial (fst x) os \<and> cMemoryStream_isEOS (snd x))"
      using mem_in.eos_law by (elim yields_mono) (auto simp: cMemoryStream_io_def)
    then show "yields (run_bind (v_seek ?ops s 0 IO_SEEK_SET) (deserialize ?ops ts))
        (\<lambda>x. list_all2 same_serial (fst x) os \<and> cMemoryStream_isEOS (snd x))"
      by (simp add: cEndianFilterStream_def cMemoryStream_io_def)
  qed
  let ?t = "cMemoryStream_new_data (ordered b (le32 n) @ bs) False"
  have "cMemoryStream_inv ?t" "cMemoryStream_rest ?t = ordered b (le32 n) @ bs"
    by (simp_all add: cMemoryStream_inv_def cMemoryStream_rest_def cMemoryStream_new_data_def)
  then show "yields (cSArray_deserialize ?ops arr ?t) (\<lambda>x. m_size (fst x) = unat n \<and>
      cArray_elems (fst x) = map Some (take (unat n) bs) @ replicate (unat n - length bs) None)"
    using input_stream.deserialize_bytes [OF mem_in.endian_input, of ?t b n bs arr] little
    by (auto elim: yields_mono)
qed

end
