(* ===== verification/Spec2Isabelle.thy ===== *)
theory Spec2Isabelle
  imports XArray XQueueFifo XSetArray XCrc XHmac XRc4 XWildcard XList XHash XRle XLzw XCacheStream XParser
    XOrderedList XGraph XSmartPtr XText XFilename XContainers
begin

text \<open>
  Verification of the xStl library.

  \<^bold>\<open>The program.\<close> xStl is a portable C++ library: containers and strings (Include/xStl/data,
  Source/xStl/data), digests, ciphers and pseudo random streams (enc), a tower of streams in which
  each filter is a stream over another stream (stream), a text parser (parser), exceptions and
  traces (except), and wrappers of the operating system (os). The containers carry everything
  else: a \<open>cBuffer\<close> is an array of bytes, a string is an array of characters, the digests and the
  random streams are built over buffers and over the FIFO queue, the filters over the virtual
  functions of the stream below.

  \<^bold>\<open>Configuration.\<close> The model is the release build on 64 bit Linux without \<open>XSTL_UNICODE\<close>:
  \<open>uint\<close> has 64 bits, \<open>int\<close> and \<open>unsigned int\<close> have 32, \<open>char\<close> is signed, \<open>wchar_t\<close> is a signed 32 bit
  number, the machine is little endian, \<open>ASSERT\<close> is empty and \<open>CHECK\<close> throws. One assertion is a contract:
  a number in a base that the digits do not cover is undefined.

  \<^bold>\<open>Conventions.\<close> A class is a record with the names of its members, a member function
  \<open>Class::f\<close> is the definition \<open>Class_f\<close> that takes the object and returns it updated. Exceptions are
  the left values of \<open>xerr + 'a\<close> (XPrelude); what C++ leaves undefined is the error
  \<open>UNDEFINED_BEHAVIOUR\<close>. Numbers that can wrap around are words; lengths and positions of objects
  that exist are natural numbers. Memory that has not been written is an argument of the
  definition, or a cell \<open>None\<close>. A loop that may not end is a \<open>partial_function\<close> whose value is then
  \<open>None\<close>. Three loops have fuel, which their lemmas show to be enough: the bit search of
  XSetArray has the 32 bits of a cell, the random bytes of XHmac have the length of the request,
  and the matcher of XWildcard has the length of the pattern and one.

  \<^bold>\<open>The theories.\<close>
  \<^item> XPrelude: words, errors, results, memory copies.
  \<^item> XEndian (data/endian.cpp): the readers and writers of 16, 32 and 64 bits; the locale \<open>codec\<close> with
    its six interpretations; round trips in both directions.
  \<^item> XAlgorithm (utils/algorithm.h, data/alignment.h): searches, the bubble sort, rotations, alignment.
  \<^item> XArray (data/array.*, sarray.*): the growing arrays with their page size, allocation invariant,
    and the page size change that breaks it.
  \<^item> XQueueFifo (data/queueFifo.cpp): the ring buffer refines a bounded queue, for every sequence of calls.
  \<^item> XSetArray (data/setArray.cpp): the bit set.
  \<^item> XCrc (enc/digest/Crc16.cpp, Crc64.cpp): the table driven CRCs against the bitwise ones.
  \<^item> XHashDigest, XMd5, XSha1 (enc/digest): the block buffering machine refines the padded hash of the
    whole message; the unrolled rounds are those of the standards.
  \<^item> XHmac (enc/digest/hmac.cpp, enc/random): the keyed digest, P_hash, the TLS PRF.
  \<^item> XRc4 (enc/enc/rc4.cpp): the published cipher on numbers; the object enciphers with its key stream
    over any sequence of buffers and undoes itself; the table is a permutation.
  \<^item> XString, XStringProps (data/char.cpp, string.cpp): characters and strings. Every operation is
    evaluated on well formed strings (\<open>cstr\<close>); searching, replacing, splitting, ordering.
  \<^item> XFilename (os/filename.cpp, os/WindowsOS/winFilename.cpp): paths as lists of names, the stack that
    resolves \<open>.\<close> and \<open>..\<close>, and the names that are confined to a base path.
  \<^item> XWildcard (data/wildcardMatcher.cpp): the matcher and the language it accepts.
  \<^item> XList (data/list.h, list.inl): the doubly linked list on an explicit heap of nodes; any sequence of
    calls refines a HOL list and keeps exactly its own nodes.
  \<^item> XContainers (data/array.h, list.h, operators.h, utils/algorithm.h): the iterators of arrays beside
    those of lists, the operators that macros make, the templates as loops over any iterator with the
    locales \<open>forward_iterator\<close> and \<open>bidirectional_iterator\<close>, which both classes interpret; printed
    containers; arrays of bytes and strings that are serialized and read back.
  \<^item> XOrderedList (data/orderedList.*): the list that \<open>add\<close> keeps ordered, over the locale \<open>node_order\<close>
    for the \<open>operator <\<close> of the objects, interpreted by numbers and by the order of strings.
  \<^item> XGraph (data/graph.*): coloured graphs whose neighbours are pointers to nodes; any sequence of
    calls refines a set of edges; what the copy constructor shares.
  \<^item> XSmartPtr (data/counter.cpp, smartptr.*): the counted pointers as steps of threads between the
    locked sections, with the reachable states as an inductive predicate; counters count, nothing is
    deleted twice, nothing is left.
  \<^item> XHash (data/hash.*): the hash functions and the table; the locale \<open>map_object\<close> gives that any
    sequence of calls answers as a map does.
  \<^item> XBasicIO (stream/basicIO.cpp): the virtual functions of a stream as a record, the loops over them;
    the locales \<open>input_stream\<close>, \<open>output_stream\<close> and \<open>stream_copy\<close> hold what the loops, numbers, addresses
    and strings do on any stream that keeps the contract.
  \<^item> XMemoryStream (stream/memoryStream.cpp, endianFilterStream.cpp): the memory file interprets the
    three locales; typed items are read back as they were written.
  \<^item> XMemoryAccess (os/*MemoryAccesser.cpp, fragmentsDescriptor.cpp, stream/memoryAccesserStream.cpp):
    the accesser of a buffer in the memory of the process, the locale \<open>memory_accesser\<close> for the interface,
    which gives the contract of a stream that must not be read at its end (\<open>nonempty_input\<close>); the
    lists of holes.
  \<^item> XRle (stream/rle.cpp), XBitStream (stream/bitStream.cpp): the filters. A filter over a stream that
    keeps the contract keeps it too, so all lemmas of the locales hold for towers of filters.
  \<^item> XLzw (stream/lzw.cpp): the encoder and the decoder with the codes they exchange; the decoder
    follows the encoder one entry behind; small read buffers.
  \<^item> XCacheStream (stream/cacheStream.cpp): the cache; reads in pieces, and where the reading loop
    stops too early.
  \<^item> XText (stream/stringerStream.cpp, marginStringerStream.cpp, data/datastream.inl, utils/dumpMemory.cpp):
    text that is put out a line at a time; the locale \<open>text_sink\<close> for streams of text, which strings and
    margins over any such stream interpret; the rows of the two hexadecimal dumps on any of them,
    and of the memory of any accesser (locale \<open>memory_dump\<close>).
  \<^item> XBraces (parser/braces.cpp): the counter of braces and balanced text.
  \<^item> XDataStream (data/datastream.cpp, remoteAddress.cpp, parser/types.cpp, variable.cpp): the
    hexadecimal formats, the order of remote addresses, types and the range of variables.
  \<^item> XParser (parser/parser.cpp): the cursor and its readers; printed variables are read back; what
    the blanking of comments does on well formed and on any text.

  \<^bold>\<open>Not modelled.\<close> The wrappers of the operating system (os, file, socket, serial and pipe streams)
  only call the system, as do the threads, the locks, the console and the clock; the texts and the
  traces of exceptions are not kept; the XSTL_UNICODE, 16 bit, Windows and kernel variants are other
  configurations; interfaces whose functions have no body, and forwarding classes, have no
  definition of their own.
\<close>

end
